(* ===== verification/App_Prelude.thy ===== *)
theory App_Prelude
  imports Main "HOL-Library.AList" "HOL-Library.List_Lexorder" "HOL-Library.Char_ord"
begin

text \<open>
  Shared vocabulary of the development.

  \<^item> Python dictionaries keep insertion order, so a dictionary is an association list with
    distinct keys: \<^term>\<open>map_of\<close> reads, \<^const>\<open>AList.update\<close> overwrites in place or appends,
    \<^const>\<open>AList.delete\<close> removes.
  \<^item> A Python \<open>str\<close> is a \<^typ>\<open>string\<close>: a list of characters with codes 0 to 255, that is, text
    restricted to the first 256 code points. The character classes below are Python's on that
    range.
  \<^item> An exception is the left injection of a sum.
\<close>

section \<open>Collections of rewrite rules\<close>

named_theorems op_defs \<open>definitions of the operations of a component\<close>
named_theorems frame \<open>fields that an operation leaves alone\<close>
named_theorems split_errs \<open>case splits for fallible results\<close>

declare sum.splits [split_errs] option.splits [split_errs] if_splits [split_errs]
  prod.splits [split_errs]

section \<open>Dictionaries\<close>

type_synonym ('k, 'v) dict = "('k \<times> 'v) list"

definition dict_keys :: "('k, 'v) dict \<Rightarrow> 'k list" where
  "dict_keys d = map fst d"

definition dict_ok :: "('k, 'v) dict \<Rightarrow> bool" where
  "dict_ok d \<longleftrightarrow> distinct (map fst d)"

lemma dict_ok_simps [simp]:
  "dict_ok []"
  "dict_ok ((k, v) # d) \<longleftrightarrow> k \<notin> fst ` set d \<and> dict_ok d"
  by (auto simp: dict_ok_def)

lemma dict_ok_update [simp]: "dict_ok d \<Longrightarrow> dict_ok (AList.update k v d)"
  by (simp add: dict_ok_def distinct_update)

lemma dict_ok_delete [simp]: "dict_ok d \<Longrightarrow> dict_ok (AList.delete k d)"
  by (simp add: dict_ok_def distinct_delete)

lemma dict_ok_filter [simp]: "dict_ok d \<Longrightarrow> dict_ok (filter P d)"
  unfolding dict_ok_def by (rule distinct_map_filter)

lemma dict_ok_map_of: "dict_ok d \<Longrightarrow> (k, v) \<in> set d \<longleftrightarrow> map_of d k = Some v"
  unfolding dict_ok_def by (metis map_of_SomeD map_of_is_SomeI)

lemma set_update_dict:
  assumes "dict_ok d"
  shows "set (AList.update k v d) = {p \<in> set d. fst p \<noteq> k} \<union> {(k, v)}"
proof (rule set_eqI)
  fix p :: "'a \<times> 'b"
  obtain a b where p: "p = (a, b)" by (cases p)
  have "p \<in> set (AList.update k v d) \<longleftrightarrow> map_of (AList.update k v d) a = Some b"
    using p assms by (simp add: dict_ok_map_of)
  then show "p \<in> set (AList.update k v d) \<longleftrightarrow> p \<in> {p \<in> set d. fst p \<noteq> k} \<union> {(k, v)}"
    using p assms by (auto simp: update_conv' dict_ok_map_of)
qed

lemma set_delete_dict: "set (AList.delete k d) = {p \<in> set d. fst p \<noteq> k}"
  by (auto simp: AList.delete_eq)

section \<open>Lists with a key\<close>

lemma filter_key_unique:
  "\<lbrakk>distinct (map f xs); x \<in> set xs\<rbrakk> \<Longrightarrow> filter (\<lambda>y. f y = f x) xs = [x]"
proof (induction xs)
  case (Cons a xs)
  have "filter (\<lambda>y. f y = f a) xs = []" if "f a \<notin> f ` set xs"
    using that by (simp add: filter_empty_conv image_iff) metis
  then show ?case using Cons by (cases "x = a") (auto dest: imageI [of x _ f])
qed simp

end
