(* ===== verification/Py_Text.thy ===== *)
theory Py_Text
  imports App_Prelude
begin

text \<open>
  The parts of Python's text handling the program relies on: character classes, \<open>strip\<close>,
  \<open>split\<close>, \<open>partition\<close>, \<open>replace\<close> of one character, \<open>lower\<close>, and UTF-8. Character functions
  follow Python on the code points 0 to 255; UTF-8 is given for all code points, on lists of
  numbers, because the length limit of error texts counts encoded bytes.
\<close>

section \<open>Characters\<close>

definition code :: "char \<Rightarrow> nat" where
  "code c = of_char c"

definition is_digit :: "char \<Rightarrow> bool" where
  "is_digit c \<longleftrightarrow> 48 \<le> code c \<and> code c \<le> 57"

definition is_lower :: "char \<Rightarrow> bool" where
  "is_lower c \<longleftrightarrow> 97 \<le> code c \<and> code c \<le> 122"

definition is_upper :: "char \<Rightarrow> bool" where
  "is_upper c \<longleftrightarrow> 65 \<le> code c \<and> code c \<le> 90"

definition is_alpha :: "char \<Rightarrow> bool" where
  "is_alpha c \<longleftrightarrow> is_lower c \<or> is_upper c"

text \<open>\<open>str.isspace\<close>, which is also what \<open>str.strip()\<close> removes.\<close>

definition isspace :: "char \<Rightarrow> bool" where
  "isspace c \<longleftrightarrow> (let n = code c in (9 \<le> n \<and> n \<le> 13) \<or> (28 \<le> n \<and> n \<le> 32) \<or> n = 133 \<or> n = 160)"

text \<open>\<open>str.lower\<close>: the letters A to Z, and the capitals of the upper half except the sign 215.\<close>

definition lower_char :: "char \<Rightarrow> char" where
  "lower_char c = (let n = code c in
     if is_upper c \<or> (192 \<le> n \<and> n \<le> 222 \<and> n \<noteq> 215) then char_of (n + 32) else c)"

definition lower :: "string \<Rightarrow> string" where
  "lower s = map lower_char s"

section \<open>Strings\<close>

definition strip_with :: "('a \<Rightarrow> bool) \<Rightarrow> 'a list \<Rightarrow> 'a list" where
  "strip_with p s = rev (dropWhile p (rev (dropWhile p s)))"

definition strip :: "string \<Rightarrow> string" where
  "strip = strip_with isspace"

definition rstrip_with :: "('a \<Rightarrow> bool) \<Rightarrow> 'a list \<Rightarrow> 'a list" where
  "rstrip_with p s = rev (dropWhile p (rev s))"

text \<open>\<open>s.split(c)\<close> for one separator character.\<close>

fun split_on :: "'a \<Rightarrow> 'a list \<Rightarrow> 'a list list" where
  "split_on c [] = [[]]"
| "split_on c (x # xs) =
     (if x = c then [] # split_on c xs
      else (case split_on c xs of [] \<Rightarrow> [[x]] | y # ys \<Rightarrow> (x # y) # ys))"

text \<open>\<open>s.partition(c)\<close>: the separator is the flag, False when it does not occur.\<close>

fun partition_on :: "'a \<Rightarrow> 'a list \<Rightarrow> 'a list \<times> bool \<times> 'a list" where
  "partition_on c [] = ([], False, [])"
| "partition_on c (x # xs) =
     (if x = c then ([], True, xs)
      else (let (a, f, b) = partition_on c xs in (x # a, f, b)))"

definition rpartition_on :: "'a \<Rightarrow> 'a list \<Rightarrow> 'a list \<times> bool \<times> 'a list" where
  "rpartition_on c s =
     (let (a, f, b) = partition_on c (rev s)
      in if f then (rev b, True, rev a) else ([], False, s))"

definition replace_char :: "char \<Rightarrow> char \<Rightarrow> string \<Rightarrow> string" where
  "replace_char a b s = map (\<lambda>x. if x = a then b else x) s"

fun join :: "'a list \<Rightarrow> 'a list list \<Rightarrow> 'a list" where
  "join sep [] = []"
| "join sep [x] = x"
| "join sep (x # y # ys) = x @ sep @ join sep (y # ys)"

lemma split_on_nonempty [simp]: "split_on c s \<noteq> []"
  by (cases s) (auto split: list.splits)

lemma split_on_absent: "c \<notin> set s \<Longrightarrow> split_on c s = [s]"
  by (induction s) auto

lemma split_on_no_sep: "p \<in> set (split_on c s) \<Longrightarrow> c \<notin> set p"
proof (induction s arbitrary: p)
  case (Cons x xs)
  then show ?case by (cases "split_on c xs") (auto split: if_splits)
qed simp

lemma join_split_on: "join [c] (split_on c s) = s"
proof (induction s)
  case (Cons x xs)
  then show ?case by (cases "split_on c xs" rule: list.exhaust; cases "tl (split_on c xs)") auto
qed simp

lemma partition_on_spec:
  "partition_on c s = (a, f, b) \<Longrightarrow>
     c \<notin> set a \<and> (if f then s = a @ c # b else s = a \<and> b = [])"
proof (induction s arbitrary: a f b)
  case (Cons x xs)
  obtain a' f' b' where p: "partition_on c xs = (a', f', b')" by (cases "partition_on c xs")
  show ?case using Cons.prems Cons.IH [OF p] by (auto simp: p split: if_splits)
qed simp

lemma partition_on_append: "c \<notin> set a \<Longrightarrow> partition_on c (a @ c # b) = (a, True, b)"
  by (induction a) auto

lemma partition_on_absent: "c \<notin> set a \<Longrightarrow> partition_on c a = (a, False, [])"
  by (induction a) auto

lemma set_strip_with: "set (strip_with p s) \<subseteq> set s"
  by (auto simp: strip_with_def dest!: set_dropWhileD)

lemma strip_with_prefix: "\<exists>xs. dropWhile p s = strip_with p s @ xs"
  unfolding strip_with_def
  by (rule exI [of _ "rev (takeWhile p (rev (dropWhile p s)))"])
    (simp flip: rev_append)

lemma hd_strip_with: "strip_with p s \<noteq> [] \<Longrightarrow> \<not> p (hd (strip_with p s))"
  using strip_with_prefix [of p s] by (metis append_is_Nil_conv hd_append2 hd_dropWhile)

lemma last_strip_with: "strip_with p s \<noteq> [] \<Longrightarrow> \<not> p (last (strip_with p s))"
  unfolding strip_with_def by (metis hd_dropWhile last_rev rev.simps(1) rev_rev_ident)

section \<open>UTF-8\<close>

type_synonym codes = "nat list"
type_synonym bytes = "nat list"

definition to_text :: "string \<Rightarrow> codes" where
  "to_text s = map code s"

text \<open>Code points that UTF-8 can carry: everything up to 0x10FFFF but the surrogates.\<close>

definition scalar :: "nat \<Rightarrow> bool" where
  "scalar n \<longleftrightarrow> n < 0xD800 \<or> (0xE000 \<le> n \<and> n < 0x110000)"

definition utf8_char :: "nat \<Rightarrow> bytes" where
  "utf8_char n =
     (if n < 0x80 then [n]
      else if n < 0x800 then [0xC0 + n div 64, 0x80 + n mod 64]
      else if n < 0x10000 then [0xE0 + n div 4096, 0x80 + n div 64 mod 64, 0x80 + n mod 64]
      else [0xF0 + n div 262144, 0x80 + n div 4096 mod 64, 0x80 + n div 64 mod 64, 0x80 + n mod 64])"

definition utf8 :: "codes \<Rightarrow> bytes" where
  "utf8 t = concat (map utf8_char t)"

text \<open>\<open>str.encode("utf-8")\<close> refuses surrogates; None is \<open>UnicodeEncodeError\<close>.\<close>

definition encode_utf8 :: "codes \<Rightarrow> bytes option" where
  "encode_utf8 t = (if list_all scalar t then Some (utf8 t) else None)"

definition cont :: "nat \<Rightarrow> bool" where
  "cont b \<longleftrightarrow> 0x80 \<le> b \<and> b < 0xC0"

text \<open>
  \<open>bytes.decode("utf-8", errors="ignore")\<close>: a byte that starts no well-formed sequence is
  dropped. Overlong forms, surrogates and values past 0x10FFFF are not well formed.
\<close>

fun decode_ignore :: "bytes \<Rightarrow> codes" where
  "decode_ignore [] = []"
| "decode_ignore (a # r) =
     (if a < 0x80 then a # decode_ignore r
      else case r of
        b # r1 \<Rightarrow>
          if 0xC2 \<le> a \<and> a < 0xE0 \<and> cont b
          then ((a - 0xC0) * 64 + (b - 0x80)) # decode_ignore r1
          else (case r1 of
            c # r2 \<Rightarrow>
              (let n = (a - 0xE0) * 4096 + (b - 0x80) * 64 + (c - 0x80)
               in if 0xE0 \<le> a \<and> a < 0xF0 \<and> cont b \<and> cont c \<and> 0x800 \<le> n \<and> scalar n
                  then n # decode_ignore r2
                  else (case r2 of
                    d # r3 \<Rightarrow>
                      (let n = (a - 0xF0) * 262144 + (b - 0x80) * 4096 + (c - 0x80) * 64 + (d - 0x80)
                       in if 0xF0 \<le> a \<and> a < 0xF8 \<and> cont b \<and> cont c \<and> cont d
                             \<and> 0x10000 \<le> n \<and> scalar n
                          then n # decode_ignore r3
                          else decode_ignore r)
                  | [] \<Rightarrow> decode_ignore r))
          | [] \<Rightarrow> decode_ignore r)
      | [] \<Rightarrow> decode_ignore r)"

declare decode_ignore.simps(2) [simp del]


lemma utf8_simps [simp]: "utf8 [] = []" "utf8 (c # cs) = utf8_char c @ utf8 cs"
  by (simp_all add: utf8_def)

lemma utf8_append [simp]: "utf8 (a @ b) = utf8 a @ utf8 b"
  by (simp add: utf8_def)

lemma length_utf8_char: "1 \<le> length (utf8_char n) \<and> length (utf8_char n) \<le> 4"
  by (simp add: utf8_char_def)

lemma length_le_utf8: "length cs \<le> length (utf8 cs)"
proof (induction cs)
  case (Cons c cs)
  then show ?case using length_utf8_char [of c] by simp
qed simp

lemma decode_1: "a < 0x80 \<Longrightarrow> decode_ignore (a # r) = a # decode_ignore r"
  by (simp add: decode_ignore.simps(2))

lemma decode_2:
  "\<lbrakk>0xC2 \<le> a; a < 0xE0; cont b\<rbrakk> \<Longrightarrow>
     decode_ignore (a # b # r) = ((a - 0xC0) * 64 + (b - 0x80)) # decode_ignore r"
  by (simp add: decode_ignore.simps(2) [of a])

lemma decode_3:
  "\<lbrakk>0xE0 \<le> a; a < 0xF0; cont b; cont c;
    n = (a - 0xE0) * 4096 + (b - 0x80) * 64 + (c - 0x80); 0x800 \<le> n; scalar n\<rbrakk> \<Longrightarrow>
     decode_ignore (a # b # c # r) = n # decode_ignore r"
  by (simp add: decode_ignore.simps(2) [of a] Let_def)

lemma decode_4:
  "\<lbrakk>0xF0 \<le> a; a < 0xF8; cont b; cont c; cont d;
    n = (a - 0xF0) * 262144 + (b - 0x80) * 4096 + (c - 0x80) * 64 + (d - 0x80);
    0x10000 \<le> n; scalar n\<rbrakk> \<Longrightarrow>
     decode_ignore (a # b # c # d # r) = n # decode_ignore r"
  by (simp add: decode_ignore.simps(2) [of a] Let_def)

lemma digits64:
  "n div 4096 * 4096 + n div 64 mod 64 * 64 + n mod 64 = (n::nat)"
  "n div 262144 * 262144 + n div 4096 mod 64 * 4096 + n div 64 mod 64 * 64 + n mod 64 = (n::nat)"
proof -
  have d: "n div 4096 = n div 64 div 64" "n div 262144 = n div 4096 div 64"
    by (simp_all add: div_mult2_eq [symmetric])
  have e: "n div 64 = n div 4096 * 64 + n div 64 mod 64" "n = n div 64 * 64 + n mod 64"
    "n div 4096 = n div 262144 * 64 + n div 4096 mod 64"
    unfolding d by (rule div_mult_mod_eq [symmetric])+
  show "n div 4096 * 4096 + n div 64 mod 64 * 64 + n mod 64 = n" using e(1,2) by linarith
  show "n div 262144 * 262144 + n div 4096 mod 64 * 4096 + n div 64 mod 64 * 64 + n mod 64 = n"
    using e by linarith
qed

lemma decode_utf8_char:
  assumes n: "scalar n"
  shows "decode_ignore (utf8_char n @ r) = n # decode_ignore r"
proof -
  consider "n < 0x80" | "0x80 \<le> n" "n < 0x800" | "0x800 \<le> n" "n < 0x10000"
    | "0x10000 \<le> n" "n < 0x110000"
    using n unfolding scalar_def by linarith
  then show ?thesis
  proof cases
    case 1
    then show ?thesis by (simp add: utf8_char_def decode_1)
  next
    case 2
    have "0xC2 \<le> 0xC0 + n div 64" "0xC0 + n div 64 < 0xE0" using 2 by linarith+
    from decode_2 [OF this, of "0x80 + n mod 64" r] 2 show ?thesis
      by (simp add: utf8_char_def cont_def)
  next
    case 3
    have "n = (0xE0 + n div 4096 - 0xE0) * 4096 + (0x80 + n div 64 mod 64 - 0x80) * 64
                + (0x80 + n mod 64 - 0x80)" using digits64(1) [of n] by simp
    from decode_3 [OF _ _ _ _ this 3(1) n, of r] 3 show ?thesis
      by (simp add: utf8_char_def cont_def)
  next
    case 4
    have "n = (0xF0 + n div 262144 - 0xF0) * 262144 + (0x80 + n div 4096 mod 64 - 0x80) * 4096
                + (0x80 + n div 64 mod 64 - 0x80) * 64 + (0x80 + n mod 64 - 0x80)"
      using digits64(2) [of n] by simp
    from decode_4 [OF _ _ _ _ _ this 4(1) n, of r] 4 show ?thesis
      by (simp add: utf8_char_def cont_def)
  qed
qed

lemma decode_encode: "list_all scalar cs \<Longrightarrow> decode_ignore (utf8 cs) = cs"
  by (induction cs) (auto simp: decode_utf8_char)

lemma decode_drop:
  "\<lbrakk>0x80 \<le> a; r = [] \<or> a < 0xC2 \<or> 0xE0 \<le> a; length r < 2 \<or> a < 0xE0 \<or> 0xF0 \<le> a;
    length r < 3 \<or> a < 0xF0\<rbrakk> \<Longrightarrow> decode_ignore (a # r) = decode_ignore r"
  by (auto simp: decode_ignore.simps(2) [of a] Let_def split: list.split)

lemma decode_single: "0x80 \<le> a \<Longrightarrow> decode_ignore [a] = []"
  by (simp add: decode_drop)

lemma decode_conts: "list_all cont r \<Longrightarrow> decode_ignore r = []"
  by (induction r) (auto simp: decode_drop cont_def)

lemma utf8_char_shape:
  obtains (one) "utf8_char n = [n]"
  | (two) a b where "utf8_char n = [a, b]" "0x80 \<le> a" "cont b"
  | (three) a b c where "utf8_char n = [a, b, c]" "0xE0 \<le> a" "cont b" "cont c"
  | (four) a b c d where "utf8_char n = [a, b, c, d]" "0xF0 \<le> a" "cont b" "cont c" "cont d"
proof -
  have m: "cont (0x80 + k mod 64)" for k by (simp add: cont_def)
  show thesis
    by (cases "n < 0x80"; cases "n < 0x800"; cases "n < 0x10000")
      (use one two three four m in \<open>auto simp: utf8_char_def\<close>)
qed

lemma decode_char_prefix:
  assumes k: "k < length (utf8_char n)"
  shows "decode_ignore (take k (utf8_char n)) = []"
proof (cases k)
  case (Suc j)
  have conts: "list_all cont (take j r)" if "list_all cont r" for r
    using that by (auto simp: list_all_iff dest: in_set_takeD)
  have "\<exists>a r. utf8_char n = a # r \<and> list_all cont r \<and> decode_ignore (a # take j r) = decode_ignore (take j r)"
    by (cases n rule: utf8_char_shape) (use k Suc in \<open>auto intro!: decode_drop simp: decode_single\<close>)
  then show ?thesis using Suc by (auto simp: conts decode_conts)
qed simp

text \<open>
  Cutting an encoding at any byte and decoding what is left gives whole characters only, and all
  of those that fit.
\<close>

lemma decode_take:
  assumes "list_all scalar cs"
  shows "\<exists>k. decode_ignore (take m (utf8 cs)) = take k cs
           \<and> length (utf8 (take k cs)) \<le> m
           \<and> (k < length cs \<longrightarrow> m < length (utf8 (take (Suc k) cs)))"
  using assms
proof (induction cs arbitrary: m)
  case (Cons c cs)
  show ?case
  proof (cases "m < length (utf8_char c)")
    case True
    then show ?thesis by (intro exI [of _ 0]) (simp add: decode_char_prefix)
  next
    case False
    then obtain k where
      "decode_ignore (take (m - length (utf8_char c)) (utf8 cs)) = take k cs"
      "length (utf8 (take k cs)) \<le> m - length (utf8_char c)"
      "k < length cs \<longrightarrow> m - length (utf8_char c) < length (utf8 (take (Suc k) cs))"
      using Cons.IH [of "m - length (utf8_char c)"] Cons.prems by auto
    then show ?thesis
      using False Cons.prems by (intro exI [of _ "Suc k"]) (auto simp: decode_utf8_char)
  qed
qed simp

end
