(* ===== verification/Py_Json.thy ===== *)
theory Py_Json
  imports Py_Text
begin

text \<open>
  The standard library's \<open>json.dumps(value, ensure_ascii=False)\<close> and \<open>json.loads(text)\<close>, which
  carry job payloads through the queue tables. Text is a list of code points. A float is kept as
  the text that \<open>repr\<close> gives or the parser read, since no code here computes with one;
  \<open>JOther\<close> stands for every Python value that is not JSON encodable. The interpreter's
  recursion limit is not modelled.
\<close>

datatype json = JNull | JBool bool | JInt int | JFloat codes | JStr codes
  | JList "json list" | JObj "(codes, json) dict" | JOther

section \<open>Printing\<close>

fun show_nat :: "nat \<Rightarrow> codes" where
  "show_nat n = (if n < 10 then [48 + n] else show_nat (n div 10) @ [48 + n mod 10])"

declare show_nat.simps [simp del]

definition show_int :: "int \<Rightarrow> codes" where
  "show_int i = (if i < 0 then 45 # show_nat (nat (- i)) else show_nat (nat i))"

text \<open>The interpreter refuses to convert integers of more digits than this.\<close>

definition int_max_str_digits :: nat where
  "int_max_str_digits = 4300"

definition hex_lower :: "nat \<Rightarrow> nat" where
  "hex_lower d = (if d < 10 then 48 + d else 87 + d)"

definition escape :: "nat \<Rightarrow> codes" where
  "escape c =
     (if c = 34 then [92, 34] else if c = 92 then [92, 92]
      else if c = 10 then [92, 110] else if c = 13 then [92, 114] else if c = 9 then [92, 116]
      else if c = 12 then [92, 102] else if c = 8 then [92, 98]
      else if c < 32 then [92, 117, 48, 48, hex_lower (c div 16), hex_lower (c mod 16)]
      else [c])"

definition quote :: "codes \<Rightarrow> codes" where
  "quote s = 34 # concat (map escape s) @ [34]"

fun those_list :: "'a option list \<Rightarrow> 'a list option" where
  "those_list [] = Some []"
| "those_list (None # xs) = None"
| "those_list (Some x # xs) = map_option (Cons x) (those_list xs)"

fun dumps :: "json \<Rightarrow> codes option" where
  "dumps JNull = Some (to_text ''null'')"
| "dumps (JBool b) = Some (to_text (if b then ''true'' else ''false''))"
| "dumps (JInt i) =
     (if int_max_str_digits < length (show_nat (nat \<bar>i\<bar>)) then None else Some (show_int i))"
| "dumps (JFloat t) = Some t"
| "dumps (JStr s) = Some (quote s)"
| "dumps (JList xs) =
     map_option (\<lambda>ts. to_text ''['' @ join (to_text '', '') ts @ to_text '']'')
       (those_list (map dumps xs))"
| "dumps (JObj kvs) =
     map_option (\<lambda>ts. to_text ''{'' @ join (to_text '', '') ts @ to_text ''}'')
       (those_list (map (\<lambda>(k, v). map_option (\<lambda>t. quote k @ to_text '': '' @ t) (dumps v)) kvs))"
| "dumps JOther = None"

section \<open>Parsing\<close>

definition json_ws :: "nat \<Rightarrow> bool" where
  "json_ws c \<longleftrightarrow> c = 32 \<or> c = 9 \<or> c = 10 \<or> c = 13"

definition skip_ws :: "codes \<Rightarrow> codes" where
  "skip_ws s = dropWhile json_ws s"

definition digit :: "nat \<Rightarrow> bool" where
  "digit c \<longleftrightarrow> 48 \<le> c \<and> c \<le> 57"

definition hex_val :: "nat \<Rightarrow> nat option" where
  "hex_val c =
     (if digit c then Some (c - 48)
      else if 97 \<le> c \<and> c \<le> 102 then Some (c - 87)
      else if 65 \<le> c \<and> c \<le> 70 then Some (c - 55) else None)"

fun hex4 :: "codes \<Rightarrow> (nat \<times> codes) option" where
  "hex4 (a # b # c # d # r) =
     (case (hex_val a, hex_val b, hex_val c, hex_val d) of
        (Some w, Some x, Some y, Some z) \<Rightarrow> Some (w * 4096 + x * 256 + y * 16 + z, r)
      | _ \<Rightarrow> None)"
| "hex4 _ = None"

text \<open>A \<open>\uXXXX\<close> escape after the \<open>u\<close>; a high surrogate joins a low one that follows as an escape.\<close>

definition scan_u :: "codes \<Rightarrow> (nat \<times> codes) option" where
  "scan_u s =
     (case hex4 s of
        None \<Rightarrow> None
      | Some (u, r) \<Rightarrow>
          if 0xD800 \<le> u \<and> u < 0xDC00 \<and> take 2 r = [92, 117]
          then (case hex4 (drop 2 r) of
                  None \<Rightarrow> None
                | Some (v, r') \<Rightarrow>
                    if 0xDC00 \<le> v \<and> v < 0xE000
                    then Some (0x10000 + (u - 0xD800) * 1024 + (v - 0xDC00), r')
                    else Some (u, r))
          else Some (u, r))"

definition unescape :: "nat \<Rightarrow> nat option" where
  "unescape e =
     (if e = 34 \<or> e = 92 \<or> e = 47 then Some e
      else if e = 98 then Some 8 else if e = 102 then Some 12 else if e = 110 then Some 10
      else if e = 114 then Some 13 else if e = 116 then Some 9 else None)"

lemma hex4_shorter: "hex4 s = Some (u, r) \<Longrightarrow> length s = length r + 4"
  by (cases s rule: hex4.cases) (auto split: option.splits)

lemma scan_u_shorter: "scan_u s = Some (u, r) \<Longrightarrow> length r < length s"
  by (auto simp: scan_u_def split: option.splits if_splits dest!: hex4_shorter)

text \<open>The rest of a string after its opening quote: its value and the text behind it.\<close>

function scan_string :: "codes \<Rightarrow> (codes \<times> codes) option" where
  "scan_string [] = None"
| "scan_string (c # r) =
     (if c = 34 then Some ([], r)
      else if c < 32 then None
      else if c \<noteq> 92 then map_option (apfst (Cons c)) (scan_string r)
      else (case r of
        [] \<Rightarrow> None
      | e # r1 \<Rightarrow>
          if e = 117
          then (case scan_u r1 of
                  None \<Rightarrow> None
                | Some (u, r2) \<Rightarrow> map_option (apfst (Cons u)) (scan_string r2))
          else (case unescape e of
                  None \<Rightarrow> None
                | Some x \<Rightarrow> map_option (apfst (Cons x)) (scan_string r1))))"
  by pat_completeness auto
termination
  by (relation "measure length") (auto dest!: scan_u_shorter)

declare scan_string.simps(2) [simp del]

definition read_nat :: "codes \<Rightarrow> nat" where
  "read_nat ds = foldl (\<lambda>a d. 10 * a + (d - 48)) 0 ds"

text \<open>
  The number pattern \<open>(-?(?:0|[1-9][0-9]*))(\.[0-9]+)?([eE][-+]?[0-9]+)?\<close>, part by part:
  each part takes what it matches from the front.
\<close>

definition take_int :: "codes \<Rightarrow> codes \<times> codes" where
  "take_int s =
     (case s of
        [] \<Rightarrow> ([], [])
      | c # r \<Rightarrow> if c = 48 then ([48], r) else (takeWhile digit s, dropWhile digit s))"

definition take_frac :: "codes \<Rightarrow> codes \<times> codes" where
  "take_frac s =
     (case s of
        [] \<Rightarrow> ([], s)
      | c # r \<Rightarrow>
          if c = 46 \<and> takeWhile digit r \<noteq> []
          then (c # takeWhile digit r, dropWhile digit r) else ([], s))"

definition take_exp :: "codes \<Rightarrow> codes \<times> codes" where
  "take_exp s =
     (case s of
        [] \<Rightarrow> ([], s)
      | c # r \<Rightarrow>
          let (sg, q) = (case r of d # q \<Rightarrow> if d = 43 \<or> d = 45 then ([d], q) else ([], r) | [] \<Rightarrow> ([], r))
          in if (c = 101 \<or> c = 69) \<and> takeWhile digit q \<noteq> []
             then (c # sg @ takeWhile digit q, dropWhile digit q) else ([], s))"

definition scan_number :: "codes \<Rightarrow> (json \<times> codes) option" where
  "scan_number s =
     (let neg = (take 1 s = [45]);
          (ds, r1) = take_int (if neg then drop 1 s else s);
          (fs, r2) = take_frac r1;
          (es, r3) = take_exp r2
      in if ds = [] then None
         else if fs = [] \<and> es = []
         then if int_max_str_digits < length ds then None
              else Some (JInt (if neg then - int (read_nat ds) else int (read_nat ds)), r1)
         else Some (JFloat ((if neg then [45] else []) @ ds @ fs @ es), r3))"

definition literals :: "(codes \<times> json) list" where
  "literals =
     [(to_text ''null'', JNull), (to_text ''true'', JBool True), (to_text ''false'', JBool False),
      (to_text ''NaN'', JFloat (to_text ''NaN'')),
      (to_text ''Infinity'', JFloat (to_text ''Infinity'')),
      (to_text ''-Infinity'', JFloat (to_text ''-Infinity''))]"

definition scan_literal :: "codes \<Rightarrow> (json \<times> codes) option" where
  "scan_literal s =
     (case find (\<lambda>(l, v). take (length l) s = l) literals of
        Some (l, v) \<Rightarrow> Some (v, drop (length l) s)
      | None \<Rightarrow> scan_number s)"

text \<open>
  The recursive part takes a fuel that every call lowers; \<open>loads\<close> gives it enough for any text of
  its length.
\<close>

fun parse_value :: "nat \<Rightarrow> codes \<Rightarrow> (json \<times> codes) option"
  and parse_elems :: "nat \<Rightarrow> json list \<Rightarrow> codes \<Rightarrow> (json \<times> codes) option"
  and parse_members :: "nat \<Rightarrow> (codes, json) dict \<Rightarrow> codes \<Rightarrow> (json \<times> codes) option" where
  "parse_value 0 s = None"
| "parse_value (Suc f) [] = None"
| "parse_value (Suc f) (c # r) =
     (if c = 34 then map_option (apfst JStr) (scan_string r)
      else if c = 123
      then (if take 1 (skip_ws r) = [125] then Some (JObj [], drop 1 (skip_ws r))
            else parse_members f [] (skip_ws r))
      else if c = 91
      then (if take 1 (skip_ws r) = [93] then Some (JList [], drop 1 (skip_ws r))
            else parse_elems f [] (skip_ws r))
      else scan_literal (c # r))"
| "parse_elems 0 acc s = None"
| "parse_elems (Suc f) acc s =
     (case parse_value f s of
        None \<Rightarrow> None
      | Some (v, r) \<Rightarrow>
          (case skip_ws r of
             [] \<Rightarrow> None
           | d # r1 \<Rightarrow>
               if d = 93 then Some (JList (acc @ [v]), r1)
               else if d = 44 then parse_elems f (acc @ [v]) (skip_ws r1) else None))"
| "parse_members 0 acc s = None"
| "parse_members (Suc f) acc [] = None"
| "parse_members (Suc f) acc (c # r) =
     (if c \<noteq> 34 then None
      else case scan_string r of
        None \<Rightarrow> None
      | Some (k, r1) \<Rightarrow>
          (case skip_ws r1 of
             [] \<Rightarrow> None
           | d # r2 \<Rightarrow>
               if d \<noteq> 58 then None
               else (case parse_value f (skip_ws r2) of
                  None \<Rightarrow> None
                | Some (v, r3) \<Rightarrow>
                    (case skip_ws r3 of
                       [] \<Rightarrow> None
                     | e # r4 \<Rightarrow>
                         if e = 125 then Some (JObj (AList.update k v acc), r4)
                         else if e = 44
                         then parse_members f (AList.update k v acc) (skip_ws r4) else None))))"

definition loads :: "codes \<Rightarrow> json option" where
  "loads s =
     (if take 1 s = [0xFEFF] then None
      else case parse_value (2 * length s + 2) (skip_ws s) of
        Some (v, r) \<Rightarrow> if skip_ws r = [] then Some v else None
      | None \<Rightarrow> None)"


section \<open>Round trip\<close>

text \<open>What may follow a value inside a document: the end, a comma or a closing bracket.\<close>

definition stops :: "codes \<Rightarrow> bool" where
  "stops r \<longleftrightarrow> r = [] \<or> hd r = 44 \<or> hd r = 93 \<or> hd r = 125"

definition float_text :: "codes \<Rightarrow> bool" where
  "float_text t \<longleftrightarrow> scan_literal t = Some (JFloat t, [])"

text \<open>JSON values as Python holds them: keys of a dictionary are distinct, floats print as floats.\<close>

fun json_ok :: "json \<Rightarrow> bool" where
  "json_ok (JFloat t) = float_text t"
| "json_ok (JList xs) = list_all json_ok xs"
| "json_ok (JObj kvs) = (dict_ok kvs \<and> list_all (\<lambda>(k, v). json_ok v) kvs)"
| "json_ok _ = True"

lemma hex4_code: "c < 32 \<Longrightarrow> hex4 (48 # 48 # hex_lower (c div 16) # hex_lower (c mod 16) # r) = Some (c, r)"
  by (simp add: hex_val_def hex_lower_def digit_def) presburger

lemma scan_escape: "scan_string (escape c @ r) = map_option (apfst (Cons c)) (scan_string r)"
  by (auto simp: escape_def scan_string.simps(2) unescape_def scan_u_def hex4_code
      simp del: hex4.simps)

lemma scan_quoted: "scan_string (concat (map escape s) @ 34 # r) = Some (s, r)"
  by (induction s) (auto simp: scan_escape scan_string.simps(2))

lemma show_nat_digits: "list_all digit (show_nat n) \<and> show_nat n \<noteq> []"
proof (induction n rule: show_nat.induct)
  case (1 n)
  have d: "digit (48 + n mod 10)" "n < 10 \<Longrightarrow> digit (48 + n)" by (simp_all add: digit_def)
  show ?case using 1 by (subst (1 2) show_nat.simps) (simp add: d)
qed

lemma read_nat_snoc: "read_nat (ds @ [d]) = 10 * read_nat ds + (d - 48)"
  by (simp add: read_nat_def)

lemma read_show_nat: "read_nat (show_nat n) = n"
proof (induction n rule: show_nat.induct)
  case (1 n)
  then show ?case
    by (subst show_nat.simps) (simp add: read_nat_snoc, simp add: read_nat_def)
qed

lemma hd_show_nat: "hd (show_nat n) = 48 \<Longrightarrow> show_nat n = [48]"
proof (induction n rule: show_nat.induct)
  case (1 n)
  show ?case
  proof (cases "n < 10")
    case True
    then show ?thesis using 1(2) by (simp add: show_nat.simps)
  next
    case False
    have "show_nat (n div 10) = [48]"
      using 1 False show_nat_digits [of "n div 10"] by (simp add: show_nat.simps [of n] hd_append)
    then have "n div 10 = 0" using read_show_nat [of "n div 10"] by (simp add: read_nat_def)
    then show ?thesis using False by simp
  qed
qed

lemma takeWhile_stops:
  "stops r \<Longrightarrow> takeWhile digit (s @ r) = takeWhile digit s"
  "stops r \<Longrightarrow> dropWhile digit (s @ r) = dropWhile digit s @ r"
  by (induction s; cases r; auto simp: stops_def digit_def)+

lemma take_parts_append:
  assumes "stops r"
  shows "take_int (s @ r) = apsnd (\<lambda>x. x @ r) (take_int s)"
    "take_frac (s @ r) = apsnd (\<lambda>x. x @ r) (take_frac s)"
    "take_exp (s @ r) = apsnd (\<lambda>x. x @ r) (take_exp s)"
proof -
  note d = takeWhile_stops [OF assms]
  have e: "take_int r = ([], r)" "take_frac r = ([], r)" "take_exp r = ([], r)"
    using assms by (auto simp: stops_def take_int_def take_frac_def take_exp_def digit_def
        split: list.splits)
  show "take_int (s @ r) = apsnd (\<lambda>x. x @ r) (take_int s)"
    using d e by (cases s) (auto simp: take_int_def)
  show "take_frac (s @ r) = apsnd (\<lambda>x. x @ r) (take_frac s)"
    using d e by (cases s) (auto simp: take_frac_def)
  have "take_exp ([c] @ r) = ([], c # r)" for c
    using assms by (cases r) (auto simp: take_exp_def stops_def digit_def)
  then show "take_exp (s @ r) = apsnd (\<lambda>x. x @ r) (take_exp s)"
    using d e by (cases s; cases "tl s") (auto simp: take_exp_def)
qed

lemma scan_number_append:
  assumes "stops r" "scan_number t = Some (v, q)"
  shows "scan_number (t @ r) = Some (v, q @ r)"
proof -
  have neg: "take 1 (t @ r) = [45] \<longleftrightarrow> take 1 t = [45]"
    using assms(1) by (cases t; cases r) (auto simp: stops_def)
  have drop: "drop 1 (t @ r) = drop 1 t @ r" if "take 1 t = [45]" using that by (cases t) auto
  obtain ds r1 where 1: "take_int (if take 1 t = [45] then drop 1 t else t) = (ds, r1)" by fastforce
  obtain fs r2 where 2: "take_frac r1 = (fs, r2)" by fastforce
  obtain es r3 where 3: "take_exp r2 = (es, r3)" by fastforce
  have a: "take_int (if take 1 t = [45] then drop 1 (t @ r) else t @ r) = (ds, r1 @ r)"
    using 1 drop by (auto simp: take_parts_append(1) [OF assms(1)] simp del: One_nat_def)
  have b: "take_frac (r1 @ r) = (fs, r2 @ r)" "take_exp (r2 @ r) = (es, r3 @ r)"
    using 2 3 by (simp_all add: take_parts_append(2,3) [OF assms(1)])
  show ?thesis
    using assms(2) unfolding scan_number_def neg Let_def 1 2 3 a b prod.case
    by (auto split: if_splits)
qed


lemma take_literal:
  assumes "stops r" "\<forall>c\<in>set l. c \<noteq> 44 \<and> c \<noteq> 93 \<and> c \<noteq> 125"
  shows "take (length l) (t @ r) = l \<longleftrightarrow> take (length l) t = l"
proof (cases "length l \<le> length t \<or> r = []")
  case False
  have "take (length l) (t @ r) \<noteq> l"
  proof
    assume eq: "take (length l) (t @ r) = l"
    obtain x xs where r: "r = x # xs" using False by (cases r) auto
    have "x = l ! length t"
      using False r by (subst eq [symmetric]) (simp add: nth_append)
    then have "x \<in> set l" using False by simp
    then show False using assms r by (auto simp: stops_def)
  qed
  moreover have "take (length l) t \<noteq> l" using False by (metis linorder_linear take_all)
  ultimately show ?thesis by simp
qed auto

lemma literal_chars: "(l, v) \<in> set literals \<Longrightarrow> \<forall>c\<in>set l. c \<noteq> 44 \<and> c \<noteq> 93 \<and> c \<noteq> 125"
  by (auto simp: literals_def to_text_def code_def)

lemma scan_literal_append:
  assumes r: "stops r" and t: "scan_literal t = Some (v, q)"
  shows "scan_literal (t @ r) = Some (v, q @ r)"
proof -
  have eq: "find (\<lambda>(l, v). take (length l) (t @ r) = l) literals
      = find (\<lambda>(l, v). take (length l) t = l) literals"
    by (rule find_cong [OF refl]) (auto simp: take_literal [OF r literal_chars] simp del: take_append)
  show ?thesis
  proof (cases "find (\<lambda>(l, v). take (length l) t = l) literals")
    case None
    then show ?thesis using t unfolding scan_literal_def eq by (simp add: scan_number_append [OF r])
  next
    case (Some p)
    obtain l w where p: "p = (l, w)" by (cases p)
    then have "take (length l) t = l" using Some by (auto simp: find_Some_iff)
    then have "length l \<le> length t" by (metis length_take min.cobounded1)
    then show ?thesis using t Some p unfolding scan_literal_def eq by auto
  qed
qed

lemma take_int_show:
  assumes "stops r"
  shows "take_int (show_nat n @ r) = (show_nat n, r)" "show_nat n \<noteq> []"
proof -
  have d: "list_all digit (show_nat n)" and ne: "show_nat n \<noteq> []" using show_nat_digits by auto
  show "show_nat n \<noteq> []" by (rule ne)
  obtain c q where cq: "show_nat n = c # q" using ne by (cases "show_nat n") auto
  have w: "takeWhile digit (show_nat n) = show_nat n" "dropWhile digit (show_nat n) = []"
    using d by (auto simp: list_all_iff takeWhile_eq_all_conv dropWhile_eq_Nil_conv)
  have "take_int (show_nat n) = (show_nat n, [])"
    using w cq hd_show_nat [of n] by (auto simp: take_int_def split: if_splits)
  then show "take_int (show_nat n @ r) = (show_nat n, r)"
    by (simp add: take_parts_append(1) [OF assms])
qed

lemma hd_digit_not: "list_all digit s \<Longrightarrow> s \<noteq> [] \<Longrightarrow> digit (hd s)"
  by (cases s) auto

lemma scan_show_int:
  assumes r: "stops r" and len: "length (show_nat (nat \<bar>i\<bar>)) \<le> int_max_str_digits"
  shows "scan_number (show_int i @ r) = Some (JInt i, r)"
proof -
  have e: "take_frac r = ([], r)" "take_exp r = ([], r)"
    using take_parts_append(2,3) [OF r, of "[]"] by (auto simp: take_frac_def take_exp_def)
  have h: "take 1 (show_nat n @ r) \<noteq> [45]" for n
    using show_nat_digits [of n] by (cases "show_nat n") (auto simp: digit_def)
  show ?thesis
  proof (cases "i < 0")
    case True
    then have "nat \<bar>i\<bar> = nat (- i)" by simp
    then show ?thesis using True len take_int_show [OF r]
      by (simp add: scan_number_def show_int_def Let_def e read_show_nat)
  next
    case False
    have "scan_number (show_nat (nat i) @ r) = Some (JInt i, r)"
      using False len h [of "nat i"] unfolding scan_number_def Let_def if_not_P [OF h]
      by (simp add: take_int_show [OF r] e read_show_nat)
    then show ?thesis using False by (simp add: show_int_def)
  qed
qed

definition starter :: "nat \<Rightarrow> bool" where
  "starter c \<longleftrightarrow> digit c \<or> c = 45"

lemma scan_literal_starter:
  assumes "starter (hd s)" "s \<noteq> []" "take (length (to_text ''-Infinity'')) s \<noteq> to_text ''-Infinity''"
  shows "scan_literal s = scan_number s"
  using assms by (cases s) (auto simp: scan_literal_def literals_def to_text_def code_def starter_def digit_def)

lemma scan_literal_show_int:
  assumes r: "stops r" and len: "length (show_nat (nat \<bar>i\<bar>)) \<le> int_max_str_digits"
  shows "scan_literal (show_int i @ r) = Some (JInt i, r)"
proof -
  have d: "show_nat n \<noteq> []" "digit (hd (show_nat n))" for n
    using show_nat_digits [of n] by (auto intro: hd_digit_not)
  have "starter (hd (show_int i @ r))" "show_int i @ r \<noteq> []"
    using d by (auto simp: show_int_def starter_def)
  moreover have "take (length (to_text ''-Infinity'')) (show_int i @ r) \<noteq> to_text ''-Infinity''"
    using d [of "nat i"] d [of "nat (- i)"]
    by (cases "show_nat (nat i)"; cases "show_nat (nat (- i))")
      (auto simp: show_int_def to_text_def code_def digit_def)
  ultimately show ?thesis by (simp add: scan_literal_starter scan_show_int [OF r len])
qed


definition value_head :: "nat \<Rightarrow> bool" where
  "value_head c \<longleftrightarrow> \<not> json_ws c \<and> c \<noteq> 93 \<and> c \<noteq> 125 \<and> c < 128"

lemma scan_number_head: "scan_number s = Some p \<Longrightarrow> s \<noteq> [] \<and> starter (hd s)"
  by (cases s) (auto simp: scan_number_def take_int_def starter_def digit_def Let_def
      split: if_splits prod.splits list.splits)

lemma literal_heads:
  "(l, v) \<in> set literals \<Longrightarrow> take (length l) s = l \<Longrightarrow>
     s \<noteq> [] \<and> (hd s = 45 \<or> hd s = 73 \<or> hd s = 78 \<or> hd s = 102 \<or> hd s = 110 \<or> hd s = 116)"
  by (cases s) (auto simp: literals_def to_text_def code_def)

lemma scan_literal_head:
  assumes "scan_literal s = Some p"
  shows "s \<noteq> [] \<and> (starter (hd s) \<or> hd s = 73 \<or> hd s = 78 \<or> hd s = 102 \<or> hd s = 110 \<or> hd s = 116)"
proof (cases "find (\<lambda>(l, v). take (length l) s = l) literals")
  case None
  then show ?thesis using assms scan_number_head [of s] by (auto simp: scan_literal_def)
next
  case (Some q)
  obtain l v where q: "q = (l, v)" by (cases q)
  with Some have "(l, v) \<in> set literals" "take (length l) s = l"
    by (auto simp: find_Some_iff in_set_conv_nth)
  then show ?thesis using literal_heads by (auto simp: starter_def)
qed

lemma float_text_head:
  assumes "float_text t"
  obtains c s where "t = c # s" "value_head c" "c \<noteq> 34" "c \<noteq> 123" "c \<noteq> 91"
proof -
  have t: "t \<noteq> []" and h: "starter (hd t) \<or> hd t = 73 \<or> hd t = 78 \<or> hd t = 102 \<or> hd t = 110 \<or> hd t = 116"
    using assms scan_literal_head [of t] by (auto simp: float_text_def)
  obtain c s where "t = c # s" using t by (cases t) auto
  moreover from this h have "value_head c \<and> c \<noteq> 34 \<and> c \<noteq> 123 \<and> c \<noteq> 91"
    by (auto simp: starter_def digit_def value_head_def json_ws_def)
  ultimately show ?thesis using that by auto
qed

lemma dumps_head:
  assumes "dumps j = Some t" "json_ok j"
  shows "t \<noteq> [] \<and> value_head (hd t)"
proof (cases j)
  case (JInt i)
  have "show_nat n \<noteq> [] \<and> digit (hd (show_nat n))" for n
    using show_nat_digits [of n] by (auto intro: hd_digit_not)
  from this [of "nat i"] have "show_int i \<noteq> [] \<and> value_head (hd (show_int i))"
    by (auto simp: show_int_def value_head_def json_ws_def digit_def)
  then show ?thesis using assms JInt by (auto split: if_splits)
next
  case (JFloat s)
  then show ?thesis using assms by (auto elim: float_text_head)
qed (use assms in \<open>auto simp: value_head_def json_ws_def to_text_def code_def quote_def split: if_splits\<close>)

lemma skip_ws_head: "s \<noteq> [] \<Longrightarrow> value_head (hd s) \<Longrightarrow> skip_ws (s @ r) = s @ r"
  by (cases s) (auto simp: skip_ws_def value_head_def)

lemma skip_ws_simps [simp]:
  "skip_ws [] = []" "skip_ws (32 # r) = skip_ws r" "skip_ws (44 # r) = 44 # r"
  "skip_ws (93 # r) = 93 # r" "skip_ws (125 # r) = 125 # r" "skip_ws (58 # r) = 58 # r"
  "skip_ws (34 # r) = 34 # r"
  by (simp_all add: skip_ws_def json_ws_def)

definition reads_back :: "json \<Rightarrow> bool" where
  "reads_back j \<longleftrightarrow>
     (\<forall>t f r. dumps j = Some t \<longrightarrow> json_ok j \<longrightarrow> stops r \<longrightarrow> 2 * length t < f \<longrightarrow>
        parse_value f (t @ r) = Some (j, r))"

lemma reads_backD:
  "\<lbrakk>reads_back j; dumps j = Some t; json_ok j; stops r; 2 * length t < f\<rbrakk> \<Longrightarrow>
     parse_value f (t @ r) = Some (j, r)"
  by (auto simp: reads_back_def)

lemma to_text_lits [simp]:
  "to_text '', '' = [44, 32]" "to_text '': '' = [58, 32]" "to_text ''['' = [91]"
  "to_text '']'' = [93]" "to_text ''{'' = [123]" "to_text ''}'' = [125]"
  by (simp_all add: to_text_def code_def)

lemma stops_simps [simp]: "stops []" "stops (44 # r)" "stops (93 # r)" "stops (125 # r)"
  by (simp_all add: stops_def)

lemma those_list_Cons:
  "those_list (x # xs) = Some ys \<longleftrightarrow>
     (\<exists>y zs. x = Some y \<and> those_list xs = Some zs \<and> ys = y # zs)"
  by (cases x) auto

lemma parse_elems_dumped:
  "\<lbrakk>\<And>x. x \<in> set xs \<Longrightarrow> reads_back x; list_all json_ok xs; xs \<noteq> [];
    those_list (map dumps xs) = Some ts; 2 * length (join [44, 32] ts) + 1 < f\<rbrakk> \<Longrightarrow>
     parse_elems f acc (join [44, 32] ts @ 93 # r) = Some (JList (acc @ xs), r)"
proof (induction xs arbitrary: ts f acc)
  case (Cons x xs)
  obtain t us where t: "dumps x = Some t" and us: "those_list (map dumps xs) = Some us"
    and ts: "ts = t # us"
    using Cons.prems(4) by (auto simp: those_list_Cons)
  obtain g where f: "f = Suc g" using Cons.prems(5) by (cases f) auto
  have x: "reads_back x" "json_ok x" using Cons.prems by auto
  show ?case
  proof (cases xs)
    case Nil
    then have "us = []" using us by simp
    then show ?thesis
      using reads_backD [OF x(1) t x(2), of "93 # r" g] Cons.prems(5) f ts Nil by simp
  next
    case (Cons y ys)
    then obtain u vs where vs: "us = u # vs" and u: "dumps y = Some u"
      using us by (auto simp: those_list_Cons)
    have h: "u \<noteq> []" "value_head (hd u)"
      using dumps_head [OF u] Cons Cons.prems(2) by auto
    have sk: "skip_ws (join [44, 32] us @ 93 # r) = join [44, 32] us @ 93 # r"
      using h vs by (intro skip_ws_head) (cases vs; auto)+
    have "parse_value g (t @ 44 # 32 # join [44, 32] us @ 93 # r)
            = Some (x, 44 # 32 # join [44, 32] us @ 93 # r)"
      using Cons.prems(5) f ts vs by (intro reads_backD [OF x(1) t x(2)]) auto
    moreover have "parse_elems g (acc @ [x]) (join [44, 32] us @ 93 # r)
            = Some (JList ((acc @ [x]) @ xs), r)"
      using Cons.prems Cons us f ts vs by (intro Cons.IH) auto
    ultimately show ?thesis using f ts vs sk by simp
  qed
qed simp


lemma update_fresh: "k \<notin> fst ` set d \<Longrightarrow> AList.update k v d = d @ [(k, v)]"
  by (induction d) auto

lemma quote_skip: "skip_ws (quote k @ r) = quote k @ r"
  by (simp add: quote_def)

lemma parse_members_dumped:
  "\<lbrakk>\<And>k v. (k, v) \<in> set kvs \<Longrightarrow> reads_back v; list_all (\<lambda>(k, v). json_ok v) kvs;
    dict_ok (acc @ kvs); kvs \<noteq> [];
    those_list (map (\<lambda>(k, v). map_option (\<lambda>t. quote k @ [58, 32] @ t) (dumps v)) kvs) = Some ts;
    2 * length (join [44, 32] ts) + 1 < f\<rbrakk> \<Longrightarrow>
     parse_members f acc (join [44, 32] ts @ 125 # r) = Some (JObj (acc @ kvs), r)"
proof (induction kvs arbitrary: ts f acc)
  case (Cons kv kvs)
  obtain k v where kv: "kv = (k, v)" by (cases kv)
  obtain t us where t: "dumps v = Some t"
    and us: "those_list (map (\<lambda>(k, v). map_option (\<lambda>t. quote k @ [58, 32] @ t) (dumps v)) kvs) = Some us"
    and ts: "ts = (quote k @ [58, 32] @ t) # us"
    using Cons.prems(5) kv by (auto simp: those_list_Cons)
  obtain g where f: "f = Suc g" using Cons.prems(6) by (cases f) auto
  have v: "reads_back v" "json_ok v" using Cons.prems kv by auto
  have h: "t \<noteq> []" "value_head (hd t)" using dumps_head [OF t v(2)] by auto
  have up: "AList.update k v acc = acc @ [(k, v)]"
    using Cons.prems(3) kv by (intro update_fresh) (auto simp: dict_ok_def)
  show ?case
  proof (cases kvs)
    case Nil
    then have "us = []" using us by simp
    then show ?thesis
      using reads_backD [OF v(1) t v(2), of "125 # r" g] Cons.prems(6) f ts Nil kv up
      by (simp add: quote_def scan_quoted skip_ws_head [OF h])
  next
    case (Cons y ys)
    then obtain k' u vs where vs: "us = (quote k' @ [58, 32] @ u) # vs"
      using us by (cases y) (auto simp: those_list_Cons)
    have sk: "skip_ws (join [44, 32] us @ 125 # r) = join [44, 32] us @ 125 # r"
      using vs by (cases vs) (simp_all add: quote_skip)
    have "parse_value g (t @ 44 # 32 # join [44, 32] us @ 125 # r)
            = Some (v, 44 # 32 # join [44, 32] us @ 125 # r)"
      using Cons.prems(6) f ts vs by (intro reads_backD [OF v(1) t v(2)]) auto
    moreover have "parse_members g (acc @ [(k, v)]) (join [44, 32] us @ 125 # r)
            = Some (JObj ((acc @ [(k, v)]) @ kvs), r)"
      using Cons.prems Cons us f ts vs kv by (intro Cons.IH) auto
    ultimately show ?thesis
      using f ts vs sk kv up by (simp add: quote_def scan_quoted skip_ws_head [OF h])
  qed
qed simp

lemma reads_backI:
  "(\<And>t g r. \<lbrakk>dumps j = Some t; json_ok j; stops r; 2 * length t \<le> g\<rbrakk> \<Longrightarrow>
      parse_value (Suc g) (t @ r) = Some (j, r)) \<Longrightarrow> reads_back j"
  unfolding reads_back_def by (metis less_imp_Suc_add less_Suc_eq_le)

lemma parse_literal:
  assumes "s \<noteq> []" "hd s \<noteq> 34" "hd s \<noteq> 123" "hd s \<noteq> 91"
  shows "parse_value (Suc g) s = scan_literal s"
  using assms by (cases s) auto

lemma reads_back: "reads_back j"
proof (induction j rule: dumps.induct)
  case (3 i)
  have "show_nat n \<noteq> [] \<and> digit (hd (show_nat n))" for n
    using show_nat_digits [of n] by (auto intro: hd_digit_not)
  from this [of "nat i"] have h: "show_int i \<noteq> []" "hd (show_int i) \<noteq> 34" "hd (show_int i) \<noteq> 123" "hd (show_int i) \<noteq> 91"
    by (auto simp: show_int_def digit_def)
  then show ?case
    by (intro reads_backI) (auto simp: parse_literal scan_literal_show_int split: if_splits)
next
  case (4 t)
  show ?case
  proof (rule reads_backI)
    fix u g r
    assume a: "dumps (JFloat t) = Some u" "json_ok (JFloat t)" "stops r"
    then have f: "float_text t" "u = t" by auto
    have "scan_literal (t @ r) = Some (JFloat t, r)"
      using scan_literal_append [OF a(3)] f by (auto simp: float_text_def)
    then show "parse_value (Suc g) (u @ r) = Some (JFloat t, r)"
      using f by (elim float_text_head) (simp add: parse_literal)
  qed
next
  case (6 xs)
  show ?case
  proof (rule reads_backI)
    fix t g r
    assume a: "dumps (JList xs) = Some t" "json_ok (JList xs)" "2 * length t \<le> g"
    then obtain ts where ts: "those_list (map dumps xs) = Some ts" "t = 91 # join [44, 32] ts @ [93]"
      by auto
    show "parse_value (Suc g) (t @ r) = Some (JList xs, r)"
    proof (cases xs)
      case (Cons x xs')
      obtain u us where "dumps x = Some u" "ts = u # us" using Cons ts by (auto simp: those_list_Cons)
      then have "skip_ws (join [44, 32] ts @ 93 # r) = join [44, 32] ts @ 93 # r"
        "take 1 (join [44, 32] ts @ 93 # r) \<noteq> [93]"
        using dumps_head [of x u] a Cons
        by (cases us; cases u; auto simp: skip_ws_def value_head_def)+
      then show ?thesis
        using parse_elems_dumped [where xs = xs and ts = ts and f = g and acc = "[]" and r = r] 6 a ts Cons by simp
    qed (use ts in simp)
  qed
next
  case (7 kvs)
  show ?case
  proof (rule reads_backI)
    fix t g r
    assume a: "dumps (JObj kvs) = Some t" "json_ok (JObj kvs)" "2 * length t \<le> g"
    then obtain ts where ts:
      "those_list (map (\<lambda>(k, v). map_option (\<lambda>t. quote k @ [58, 32] @ t) (dumps v)) kvs) = Some ts"
      "t = 123 # join [44, 32] ts @ [125]"
      by auto
    show "parse_value (Suc g) (t @ r) = Some (JObj kvs, r)"
    proof (cases kvs)
      case (Cons kv kvs')
      obtain u us where "ts = (quote (fst kv) @ [58, 32] @ u) # us"
        using Cons ts by (cases kv) (auto simp: those_list_Cons)
      then have "skip_ws (join [44, 32] ts @ 125 # r) = join [44, 32] ts @ 125 # r"
        "take 1 (join [44, 32] ts @ 125 # r) \<noteq> [125]"
        by (cases us; simp add: quote_def)+
      then show ?thesis
        using parse_members_dumped [where kvs = kvs and ts = ts and f = g and acc = "[]" and r = r] 7 a ts Cons by simp
    qed (use ts in simp)
  qed
qed (rule reads_backI;
  auto simp: to_text_def code_def scan_literal_def literals_def quote_def scan_quoted split: if_splits)+

theorem loads_dumps:
  assumes "dumps j = Some t" "json_ok j"
  shows "loads t = Some j"
proof -
  have h: "t \<noteq> []" "value_head (hd t)" using dumps_head [OF assms] by auto
  have "skip_ws t = t" using skip_ws_head [OF h, of "[]"] by simp
  moreover have "take 1 t \<noteq> [0xFEFF]" using h by (cases t) (auto simp: value_head_def)
  moreover have "parse_value (2 * length t + 2) (t @ []) = Some (j, [])"
    by (rule reads_backD [OF reads_back assms]) auto
  ultimately show ?thesis by (simp add: loads_def)
qed


section \<open>The fuel of the parser\<close>

lemma skip_ws_length: "length (skip_ws s) \<le> length s"
  by (simp add: skip_ws_def length_dropWhile_le)

lemma skip_ws_Cons: "skip_ws s = c # r \<Longrightarrow> length r < length s"
  using skip_ws_length [of s] by simp

lemma scan_string_shorter: "scan_string s = Some (v, r) \<Longrightarrow> length r < length s"
proof (induction s arbitrary: v r rule: scan_string.induct)
  case (2 c q)
  show ?case
  proof (cases "c = 92")
    case False
    then show ?thesis
      using "2.prems" "2.IH"(1) by (fastforce simp: scan_string.simps(2) split: if_splits)
  next
    case c: True
    obtain e q1 where q: "q = e # q1"
      using "2.prems" c by (cases q) (auto simp: scan_string.simps(2))
    show ?thesis
    proof (cases "e = 117")
      case True
      then obtain u q2 w where "scan_u q1 = Some (u, q2)" "scan_string q2 = Some (w, r)"
        using "2.prems" c q by (auto simp: scan_string.simps(2) split: option.splits)
      then show ?thesis using "2.IH"(2) [of e q1 "(u, q2)" u q2 w r] scan_u_shorter [of q1 u q2] c q True
        by simp
    next
      case False
      then obtain x w where "unescape e = Some x" "scan_string q1 = Some (w, r)"
        using "2.prems" c q by (auto simp: scan_string.simps(2) split: option.splits)
      then show ?thesis using "2.IH"(3) [of e q1 x w r] c q False by simp
    qed
  qed
qed simp

lemma span_digits_length: "length (takeWhile digit q) + length (dropWhile digit q) = length q"
  by (metis length_append takeWhile_dropWhile_id)

lemma take_parts_length:
  "length (fst (take_int s)) + length (snd (take_int s)) = length s"
  "length (fst (take_frac s)) + length (snd (take_frac s)) = length s"
  "length (fst (take_exp s)) + length (snd (take_exp s)) = length s"
proof -
  show "length (fst (take_int s)) + length (snd (take_int s)) = length s"
    using span_digits_length [of s] by (cases s) (simp_all add: take_int_def)
  show "length (fst (take_frac s)) + length (snd (take_frac s)) = length s"
    using span_digits_length [of "tl s"] by (cases s) (simp_all add: take_frac_def)
  show "length (fst (take_exp s)) + length (snd (take_exp s)) = length s"
  proof (cases s)
    case (Cons c r)
    show ?thesis
      using Cons span_digits_length [of r] span_digits_length [of "tl r"]
      by (cases r) (simp_all add: take_exp_def)
  qed (simp add: take_exp_def)
qed

lemma scan_number_shorter: "scan_number s = Some (v, r) \<Longrightarrow> length r < length s"
proof -
  assume n: "scan_number s = Some (v, r)"
  obtain ds r1 where 1: "take_int (if take 1 s = [45] then drop 1 s else s) = (ds, r1)" by fastforce
  obtain fs r2 where 2: "take_frac r1 = (fs, r2)" by fastforce
  obtain es r3 where 3: "take_exp r2 = (es, r3)" by fastforce
  have "length ds + length r1 = length (if take 1 s = [45] then drop 1 s else s)"
    using take_parts_length(1) unfolding 1 [symmetric] by (metis 1 fst_conv snd_conv)
  then have "length ds + length r1 \<le> length s" by (simp split: if_splits)
  moreover have "length r2 \<le> length r1" "length r3 \<le> length r2"
    using take_parts_length(2) [of r1] take_parts_length(3) [of r2] by (simp_all add: 2 3)
  moreover have "ds \<noteq> []" "r = r1 \<or> r = r3"
    using n unfolding scan_number_def Let_def 1 2 3 prod.case by (auto split: if_splits)
  ultimately show ?thesis by (cases ds) auto
qed

lemma scan_literal_shorter: "scan_literal s = Some (v, r) \<Longrightarrow> length r < length s"
proof (cases "find (\<lambda>(l, v). take (length l) s = l) literals")
  case None
  assume "scan_literal s = Some (v, r)"
  with None show ?thesis by (simp add: scan_literal_def scan_number_shorter)
next
  case (Some q)
  assume s: "scan_literal s = Some (v, r)"
  obtain l w where q: "q = (l, w)" by (cases q)
  with Some have "(l, w) \<in> set literals" "take (length l) s = l"
    by (auto simp: find_Some_iff in_set_conv_nth)
  then have "l \<noteq> []" "s \<noteq> []" "r = drop (length l) s"
    using s Some q literal_heads [of l w s] by (auto simp: scan_literal_def literals_def to_text_def)
  then show ?thesis by simp
qed

lemma parse_elems_SomeE:
  assumes "parse_elems (Suc f) acc s = Some (v, r)"
  obtains a q d q1 where "parse_value f s = Some (a, q)" "skip_ws q = d # q1"
    "d = 93 \<and> r = q1 \<or> d = 44 \<and> parse_elems f (acc @ [a]) (skip_ws q1) = Some (v, r)"
  using assms by (auto split: option.splits list.splits if_splits)

lemma parse_members_SomeE:
  assumes "parse_members (Suc f) acc (c # s) = Some (v, r)"
  obtains k s1 d s2 a q e q1 where "scan_string s = Some (k, s1)" "skip_ws s1 = d # s2"
    "parse_value f (skip_ws s2) = Some (a, q)" "skip_ws q = e # q1"
    "e = 125 \<and> r = q1
       \<or> e = 44 \<and> parse_members f (AList.update k a acc) (skip_ws q1) = Some (v, r)"
  using assms by (auto split: option.splits list.splits if_splits)

text \<open>Every successful call leaves strictly less text.\<close>

lemma parse_shorter:
  "(\<forall>s v r. parse_value f s = Some (v, r) \<longrightarrow> length r < length s)
   \<and> (\<forall>acc s v r. parse_elems f acc s = Some (v, r) \<longrightarrow> length r < length s)
   \<and> (\<forall>acc s v r. parse_members f acc s = Some (v, r) \<longrightarrow> length r < length s)"
proof (induction f)
  case (Suc f)
  have V: "length r < length s" if "parse_value f s = Some (v, r)" for s v r using Suc that by blast
  have E: "length r < length s" if "parse_elems f acc s = Some (v, r)" for acc s v r
    using Suc that by blast
  have M: "length r < length s" if "parse_members f acc s = Some (v, r)" for acc s v r
    using Suc that by blast
  have v: "length r < length s" if p: "parse_value (Suc f) s = Some (v, r)" for s v r
  proof (cases s)
    case (Cons c q)
    have "length (skip_ws q) < length s" using Cons skip_ws_length [of q] by simp
    then show ?thesis
      using p Cons scan_string_shorter [of q] scan_literal_shorter [of "c # q"]
        E [of "[]" "skip_ws q" v r] M [of "[]" "skip_ws q" v r]
      by (auto split: if_splits)
  qed (use p in simp)
  have e: "length r < length s" if p: "parse_elems (Suc f) acc s = Some (v, r)" for acc s v r
    using p
  proof (rule parse_elems_SomeE)
    fix a q d q1
    assume "parse_value f s = Some (a, q)" "skip_ws q = d # q1"
      "d = 93 \<and> r = q1 \<or> d = 44 \<and> parse_elems f (acc @ [a]) (skip_ws q1) = Some (v, r)"
    then show ?thesis
      using V [of s a q] skip_ws_Cons [of q d q1] skip_ws_length [of q1]
        E [of "acc @ [a]" "skip_ws q1" v r] by auto
  qed
  have m: "length r < length s" if p: "parse_members (Suc f) acc s = Some (v, r)" for acc s v r
  proof (cases s)
    case (Cons c t)
    show ?thesis using p [unfolded Cons]
    proof (rule parse_members_SomeE)
      fix k s1 d s2 a q e q1
      assume "scan_string t = Some (k, s1)" "skip_ws s1 = d # s2"
        "parse_value f (skip_ws s2) = Some (a, q)" "skip_ws q = e # q1"
        "e = 125 \<and> r = q1
           \<or> e = 44 \<and> parse_members f (AList.update k a acc) (skip_ws q1) = Some (v, r)"
      then show ?thesis
        using scan_string_shorter [of t k s1] skip_ws_Cons [of s1 d s2] skip_ws_length [of s2]
          V [of "skip_ws s2" a q] skip_ws_Cons [of q e q1] skip_ws_length [of q1]
          M [of "AList.update k a acc" "skip_ws q1" v r] Cons by auto
    qed
  qed (use p in simp)
  show ?case using v e m by blast
qed simp


text \<open>More fuel than twice the length of the text never changes the outcome, so \<open>loads\<close> has enough.\<close>

lemma parse_fuel:
  "(\<forall>s. 2 * length s < f \<longrightarrow> parse_value (Suc f) s = parse_value f s)
   \<and> (\<forall>acc s. 2 * length s + 1 < f \<longrightarrow> parse_elems (Suc f) acc s = parse_elems f acc s)
   \<and> (\<forall>acc s. 2 * length s + 1 < f \<longrightarrow> parse_members (Suc f) acc s = parse_members f acc s)"
proof (induction f)
  case (Suc f)
  have V: "parse_value (Suc f) s = parse_value f s" if "2 * length s < f" for s
    using Suc that by blast
  have E: "parse_elems (Suc f) acc s = parse_elems f acc s" if "2 * length s + 1 < f" for acc s
    using Suc that by blast
  have M: "parse_members (Suc f) acc s = parse_members f acc s" if "2 * length s + 1 < f" for acc s
    using Suc that by blast
  have sh: "length r < length s" if "parse_value f s = Some (v, r)" for s v r
    using parse_shorter [of f] that by blast
  have v: "parse_value (Suc (Suc f)) s = parse_value (Suc f) s" if l: "2 * length s < Suc f" for s
  proof (cases s)
    case (Cons c q)
    have "2 * length (skip_ws q) + 1 < f" using l Cons skip_ws_length [of q] by simp
    then show ?thesis unfolding Cons parse_value.simps by (simp only: E M)
  qed simp
  have e: "parse_elems (Suc (Suc f)) acc s = parse_elems (Suc f) acc s"
    if l: "2 * length s + 1 < Suc f" for acc s
  proof -
    have t: "parse_elems (Suc f) acc' (skip_ws q1) = parse_elems f acc' (skip_ws q1)"
      if "parse_value f s = Some (a, q)" "skip_ws q = d # q1" for a q d q1 acc'
      using l sh [OF that(1)] skip_ws_Cons [OF that(2)] skip_ws_length [of q1] by (intro E) simp
    have "parse_value (Suc f) s = parse_value f s" using l by (intro V) simp
    then show ?thesis
      by (subst (1 2) parse_elems.simps) (auto simp del: parse_elems.simps simp: t split: option.split list.split)
  qed
  have m: "parse_members (Suc (Suc f)) acc s = parse_members (Suc f) acc s"
    if l: "2 * length s + 1 < Suc f" for acc s
  proof (cases s)
    case (Cons c q0)
    have p: "parse_value (Suc f) (skip_ws s2) = parse_value f (skip_ws s2)"
      if "scan_string q0 = Some (k, s1)" "skip_ws s1 = d # s2" for k s1 d s2
      using l Cons scan_string_shorter [OF that(1)] skip_ws_Cons [OF that(2)] skip_ws_length [of s2]
      by (intro V) simp
    have t: "parse_members (Suc f) acc' (skip_ws q1) = parse_members f acc' (skip_ws q1)"
      if "scan_string q0 = Some (k, s1)" "skip_ws s1 = d # s2"
        "parse_value f (skip_ws s2) = Some (a, q)" "skip_ws q = e # q1" for k s1 d s2 a q e q1 acc'
      using l Cons scan_string_shorter [OF that(1)] skip_ws_Cons [OF that(2)] skip_ws_length [of s2]
        sh [OF that(3)] skip_ws_Cons [OF that(4)] skip_ws_length [of q1] by (intro M) simp
    show ?thesis unfolding Cons
      by (subst (1 2) parse_members.simps)
        (auto simp del: parse_members.simps simp: p t split: option.split list.split)
  qed simp
  show ?case using v e m by blast
qed simp

lemma loads_fuel:
  assumes "2 * length s < f"
  shows "parse_value f (skip_ws s) = parse_value (2 * length s + 2) (skip_ws s)"
proof -
  have "parse_value (Suc (2 * length s) + k) (skip_ws s) = parse_value (Suc (2 * length s)) (skip_ws s)" for k
  proof (induction k)
    case (Suc k)
    have "parse_value (Suc (Suc (2 * length s) + k)) (skip_ws s) = parse_value (Suc (2 * length s) + k) (skip_ws s)"
      using parse_fuel [of "Suc (2 * length s) + k"] skip_ws_length [of s] by simp
    then show ?case using Suc by simp
  qed simp
  from this [of "f - Suc (2 * length s)"] this [of 1] show ?thesis using assms by simp
qed

end
