(* ===== verification/Queue_Job.thy ===== *)
theory Queue_Job
  imports Py_Json
begin

text \<open>
  The job as a handler sees it (\<open>queue/job.py\<close>), the exceptions the queue code meets, and the
  resolution of a job name to a handler (\<open>queue/handler.py\<close>).
\<close>

section \<open>Jobs\<close>

record job =
  j_id :: int
  j_queue :: string
  j_name :: string
  j_payload :: json
  j_payload_json :: codes
  j_attempts :: int
  j_max_attempts :: int
  j_handle :: string
  j_reserved_by :: string
  j_release_delay :: "int option"

definition job_release :: "int \<Rightarrow> job \<Rightarrow> job" where
  "job_release delay j = j\<lparr>j_release_delay := Some (max 0 delay)\<rparr>"

definition was_released :: "job \<Rightarrow> bool" where
  "was_released j \<longleftrightarrow> j_release_delay j \<noteq> None"

definition release_delay :: "job \<Rightarrow> int" where
  "release_delay j = (case j_release_delay j of None \<Rightarrow> 0 | Some d \<Rightarrow> d)"

definition is_last_attempt :: "job \<Rightarrow> bool" where
  "is_last_attempt j \<longleftrightarrow> j_max_attempts j \<le> j_attempts j"

lemma job_release_simps [simp]:
  "was_released (job_release d j)"
  "release_delay (job_release d j) = max 0 d"
  "0 \<le> release_delay (job_release d j)"
  "is_last_attempt (job_release d j) = is_last_attempt j"
  "j_id (job_release d j) = j_id j" "j_attempts (job_release d j) = j_attempts j"
  "j_reserved_by (job_release d j) = j_reserved_by j"
  by (simp_all add: job_release_def was_released_def release_delay_def is_last_attempt_def)

section \<open>Exceptions\<close>

text \<open>
  What the queue code raises or meets: its own error, the driver's (\<open>OperationalError\<close> for a
  lost connection, \<open>UniqueViolation\<close>, \<open>InFailedSqlTransaction\<close>, \<open>DataError\<close> for a value the
  column refuses), and the language's \<open>UnicodeEncodeError\<close> and \<open>OverflowError\<close>. Any other
  exception carries its class name.
\<close>

datatype qerror = QueueError | OperationalError | UniqueViolation | InFailedTransaction
  | DataError | UnicodeEncodeError | OverflowError | OtherError string

text \<open>The subclasses of \<open>psycopg.Error\<close>, which the commands catch beside \<open>QueueError\<close>.\<close>

fun psycopg_error :: "qerror \<Rightarrow> bool" where
  "psycopg_error OperationalError = True"
| "psycopg_error UniqueViolation = True"
| "psycopg_error InFailedTransaction = True"
| "psycopg_error DataError = True"
| "psycopg_error _ = False"

section \<open>Handlers\<close>

text \<open>
  Python objects as far as \<open>resolve\<close> inspects them. A class carries what calling it gives: an
  instance with its \<open>handle\<close> attribute (present and callable, present and not callable, or
  absent), or an exception.
\<close>

datatype 'h attribute = NoAttr | NotCallable | CallableAttr 'h

datatype 'h pyobj = PStr string | PClass "qerror + 'h attribute" | PFun 'h | POther

datatype 'h module_result = Module "string \<Rightarrow> 'h pyobj option" | NoModule | ModuleRaises qerror

definition import_target :: "(string \<Rightarrow> 'h module_result) \<Rightarrow> string \<Rightarrow> qerror + 'h pyobj" where
  "import_target import_module path =
     (let (module_name, _, attr) =
        (if CHR '':'' \<in> set path then partition_on CHR '':'' path else rpartition_on CHR ''.'' path)
      in if module_name = [] \<or> attr = [] then Inl QueueError
         else case import_module module_name of
           NoModule \<Rightarrow> Inl QueueError
         | ModuleRaises e \<Rightarrow> Inl e
         | Module m \<Rightarrow> (case m attr of None \<Rightarrow> Inl QueueError | Some x \<Rightarrow> Inr x))"

definition callable_of :: "'h pyobj \<Rightarrow> qerror + 'h" where
  "callable_of x =
     (case x of
        PClass (Inl e) \<Rightarrow> Inl e
      | PClass (Inr (CallableAttr h)) \<Rightarrow> Inr h
      | PClass (Inr _) \<Rightarrow> Inl QueueError
      | PFun h \<Rightarrow> Inr h
      | _ \<Rightarrow> Inl QueueError)"

definition names_value :: "string \<Rightarrow> 'h pyobj \<Rightarrow> bool" where
  "names_value name v = (case v of PStr s \<Rightarrow> s = name | _ \<Rightarrow> False)"

text \<open>The target chosen for a name, before any import: the alias map is an allow-list.\<close>

definition choose_target :: "string \<Rightarrow> (string, 'h pyobj) dict \<Rightarrow> qerror + 'h pyobj" where
  "choose_target name handlers =
     (case map_of handlers name of
        Some v \<Rightarrow> Inr v
      | None \<Rightarrow>
          if list_ex (\<lambda>(k, v). names_value name v) handlers then Inr (PStr name)
          else if handlers \<noteq> [] then Inl QueueError
          else Inr (PStr name))"

definition resolve ::
  "(string \<Rightarrow> 'h module_result) \<Rightarrow> string \<Rightarrow> (string, 'h pyobj) dict \<Rightarrow> qerror + 'h" where
  "resolve import_module name handlers =
     (case choose_target name handlers of
        Inl e \<Rightarrow> Inl e
      | Inr (PStr path) \<Rightarrow>
          (case import_target import_module path of Inl e \<Rightarrow> Inl e | Inr x \<Rightarrow> callable_of x)
      | Inr x \<Rightarrow> callable_of x)"

definition assert_resolvable ::
  "(string \<Rightarrow> 'h module_result) \<Rightarrow> string \<Rightarrow> (string, 'h pyobj) dict \<Rightarrow> qerror + unit" where
  "assert_resolvable import_module name handlers =
     (if name = [] then Inl QueueError
      else case resolve import_module name handlers of Inl e \<Rightarrow> Inl e | Inr _ \<Rightarrow> Inr ())"

text \<open>The import paths that a configured alias map allows.\<close>

definition allowed_paths :: "(string, 'h pyobj) dict \<Rightarrow> string set" where
  "allowed_paths handlers = {p. PStr p \<in> snd ` set handlers}"

lemma list_ex_names_value:
  "list_ex (\<lambda>(k, v). names_value name v) handlers \<longleftrightarrow> name \<in> allowed_paths handlers"
  unfolding list_ex_iff allowed_paths_def names_value_def
  by (force split: pyobj.splits simp: image_iff)

lemma choose_target_allowed:
  assumes "handlers \<noteq> []" "choose_target name handlers = Inr (PStr p)"
  shows "p \<in> allowed_paths handlers"
proof (cases "map_of handlers name")
  case None
  then show ?thesis
    using assms by (auto simp: choose_target_def list_ex_names_value split: if_splits)
next
  case (Some v)
  then have "(name, v) \<in> set handlers" by (rule map_of_SomeD)
  moreover have "v = PStr p" using assms Some by (simp add: choose_target_def)
  ultimately show ?thesis by (force simp: allowed_paths_def)
qed

text \<open>
  C32. Once any alias is configured, a name on a row cannot choose what is imported: a name that is
  neither an alias nor a configured path is refused with \<open>QueueError\<close> without any import, and two
  import systems that agree on the configured paths resolve every name alike, so nothing outside
  those paths is ever consulted.
\<close>

theorem resolve_allow_list:
  assumes "handlers \<noteq> []"
    and "\<And>p. p \<in> allowed_paths handlers \<Longrightarrow> import_target imp1 p = import_target imp2 p"
  shows "resolve imp1 name handlers = resolve imp2 name handlers
    \<and> (name \<notin> fst ` set handlers \<and> name \<notin> allowed_paths handlers \<longrightarrow>
         resolve imp1 name handlers = Inl QueueError)"
proof
  show "resolve imp1 name handlers = resolve imp2 name handlers"
    using assms choose_target_allowed [OF assms(1), of name]
    by (auto simp: resolve_def split: sum.splits pyobj.splits)
  show "name \<notin> fst ` set handlers \<and> name \<notin> allowed_paths handlers \<longrightarrow>
      resolve imp1 name handlers = Inl QueueError"
    using assms(1)
    by (auto simp: resolve_def choose_target_def list_ex_names_value map_of_eq_None_iff [THEN iffD2])
qed

definition demo_import :: "bool \<Rightarrow> string \<Rightarrow> nat module_result" where
  "demo_import evil m =
     (if m = ''app.jobs'' then Module (\<lambda>a. if a = ''Mail'' then Some (PClass (Inr (CallableAttr 7))) else None)
      else if m = ''os'' \<and> evil then Module (\<lambda>a. Some (PFun 666))
      else NoModule)"

definition demo_handlers :: "(string, nat pyobj) dict" where
  "demo_handlers = [(''mail'', PStr ''app.jobs:Mail'')]"

theorem resolve_allow_list_witness:
  "resolve (demo_import True) ''os:system'' demo_handlers = Inl QueueError
   \<and> resolve (demo_import True) ''mail'' demo_handlers = Inr 7
   \<and> resolve (demo_import True) ''mail'' demo_handlers = resolve (demo_import False) ''mail'' demo_handlers
   \<and> resolve (demo_import True) ''os:system'' [] = Inr 666"
proof -
  have ne: "demo_handlers \<noteq> []" by code_simp
  have paths: "allowed_paths demo_handlers = {''app.jobs:Mail''}"
    by (auto simp: allowed_paths_def demo_handlers_def)
  have agree: "import_target (demo_import True) p = import_target (demo_import False) p"
    if "p \<in> allowed_paths demo_handlers" for p
    using that unfolding paths
    by (auto simp: import_target_def demo_import_def)
  have out: "''os:system'' \<notin> fst ` set demo_handlers \<and> ''os:system'' \<notin> allowed_paths demo_handlers"
    unfolding paths by (simp add: demo_handlers_def)
  have "resolve (demo_import True) ''mail'' demo_handlers = Inr 7"
    "resolve (demo_import True) ''os:system'' [] = Inr 666" by code_simp+
  then show ?thesis
    using resolve_allow_list [OF ne agree, of "''os:system''"] resolve_allow_list [OF ne agree, of "''mail''"] out
    by blast
qed

end
