(* ===== verification/Queue_Pg.thy ===== *)
theory Queue_Pg
  imports Queue_Job "HOL-Library.Product_Lexorder"
begin

text \<open>
  The PostgreSQL queue driver, \<open>queue/driver_pg.py\<close>, over the tables of
  \<open>queue/files/install.pgsql.sql\<close>.

  A table is the list of its rows; an SQL statement is a function on it. Times are microseconds
  since the epoch. The database is shared: between two statements or transactions of this session
  others may commit anything, and the connection may break. Each statement or transaction of the
  driver is therefore a \<open>visit\<close>, which says what the clock reads before and at the end, which rows
  other transactions hold locked, whether the connection is down, and what the others have
  committed since the last visit. The world of a session is the tables and its visits to come.
\<close>

section \<open>Tables and visits\<close>

record jrow =
  r_id :: int
  r_queue :: string
  r_name :: string
  r_payload :: codes
  r_attempts :: int
  r_max_attempts :: int
  r_priority :: int
  r_unique_key :: "string option"
  r_available_at :: int
  r_reserved_until :: "int option"
  r_reserved_by :: "string option"
  r_last_error :: codes
  r_created_at :: int

record frow =
  f_id :: int
  f_queue :: string
  f_name :: string
  f_payload :: codes
  f_attempts :: int
  f_error :: codes
  f_failed_at :: int

record pgdb =
  t_jobs :: "jrow list"
  t_failed :: "frow list"
  t_jobs_seq :: int
  t_failed_seq :: int

record visit =
  v_now :: int
  v_end :: int
  v_locked :: "int list"
  v_down :: bool
  v_others :: "pgdb \<Rightarrow> pgdb"

type_synonym visits = "nat \<Rightarrow> visit"
type_synonym pgworld = "pgdb \<times> visits"

text \<open>One visit: what the others committed comes first, then the body, unless the connection is down.\<close>

definition at_visit ::
  "(visit \<Rightarrow> pgdb \<Rightarrow> (qerror + 'a) \<times> pgdb) \<Rightarrow> pgworld \<Rightarrow> (qerror + 'a) \<times> pgworld" where
  "at_visit body w =
     (let v = snd w 0; rest = (\<lambda>n. snd w (Suc n)); db = v_others v (fst w)
      in if v_down v then (Inl OperationalError, (db, rest))
         else let (r, db') = body v db in (r, (db', rest)))"

section \<open>Values bound to statements\<close>

text \<open>
  Text is bound as UTF-8 and may hold no NUL; a \<open>varchar(n)\<close> column refuses longer text unless
  the excess is spaces, an \<open>integer\<close> column a value beyond 32 bits.
\<close>

definition bind_text :: "codes \<Rightarrow> qerror + codes" where
  "bind_text t =
     (if \<not> list_all scalar t then Inl UnicodeEncodeError
      else if 0 \<in> set t then Inl DataError else Inr t)"

definition bind_str :: "string \<Rightarrow> qerror + string" where
  "bind_str s = (if CHR 0x00 \<in> set s then Inl DataError else Inr s)"

definition varchar :: "nat \<Rightarrow> string \<Rightarrow> qerror + string" where
  "varchar n s =
     (if length s \<le> n then Inr s
      else if list_all (\<lambda>c. c = CHR '' '') (drop n s) then Inr (take n s)
      else Inl DataError)"

definition int4 :: "int \<Rightarrow> bool" where
  "int4 i \<longleftrightarrow> - (2 ^ 31) \<le> i \<and> i < 2 ^ 31"

text \<open>\<open>moment + timedelta(seconds=s)\<close>; past the year 9999 it raises \<open>OverflowError\<close>.\<close>

definition max_datetime :: int where
  "max_datetime = 253402300799999999"

definition add_seconds :: "int \<Rightarrow> int \<Rightarrow> qerror + int" where
  "add_seconds moment s =
     (if moment + s * 1000000 \<le> max_datetime then Inr (moment + s * 1000000) else Inl OverflowError)"

section \<open>Module functions\<close>

definition CLAIM_ROUNDS :: nat where
  "CLAIM_ROUNDS = 5"

definition MAX_ERROR_BYTES :: nat where
  "MAX_ERROR_BYTES = 60000"

definition EXHAUSTED_ERROR :: codes where
  "EXHAUSTED_ERROR = to_text
     ''Exceeded max attempts: the last attempt released the job, or its worker died before finishing it.''"

definition TRUNCATED :: codes where
  "TRUNCATED = 10 # to_text ''... truncated''"

definition fit_error :: "codes \<Rightarrow> qerror + codes" where
  "fit_error error =
     (case encode_utf8 error of
        None \<Rightarrow> Inl UnicodeEncodeError
      | Some raw \<Rightarrow>
          if length raw \<le> MAX_ERROR_BYTES then Inr error
          else Inr (decode_ignore (take MAX_ERROR_BYTES raw) @ TRUNCATED))"

definition encode_payload :: "json \<Rightarrow> qerror + codes" where
  "encode_payload payload = (case dumps payload of None \<Rightarrow> Inl QueueError | Some t \<Rightarrow> Inr t)"

text \<open>
  The pattern \<open>^[A-Za-z_][A-Za-z0-9_]*(\.[A-Za-z_][A-Za-z0-9_]*)?$\<close>: one identifier, or two
  joined by a dot. Python's \<open>$\<close> also matches before a newline that ends the text.
\<close>

definition is_ident :: "string \<Rightarrow> bool" where
  "is_ident s \<longleftrightarrow>
     s \<noteq> [] \<and> \<not> is_digit (hd s) \<and> list_all (\<lambda>c. is_alpha c \<or> is_digit c \<or> c = CHR ''_'') s"

definition chop_newline :: "string \<Rightarrow> string" where
  "chop_newline s = (if s \<noteq> [] \<and> last s = CHR 0x0A then butlast s else s)"

definition table_re :: "string \<Rightarrow> bool" where
  "table_re s \<longleftrightarrow>
     (case split_on CHR ''.'' (chop_newline s) of
        [a] \<Rightarrow> is_ident a | [a, b] \<Rightarrow> is_ident a \<and> is_ident b | _ \<Rightarrow> False)"

definition assert_table_name :: "string \<Rightarrow> qerror + string" where
  "assert_table_name table = (if table_re table then Inr table else Inl QueueError)"

text \<open>The identifiers that \<open>_qualified\<close> quotes.\<close>

definition qualified_parts :: "string \<Rightarrow> string list" where
  "qualified_parts table = split_on CHR ''.'' table"

section \<open>Push\<close>

definition id_for_unique :: "string \<Rightarrow> visit \<Rightarrow> pgdb \<Rightarrow> (qerror + int option) \<times> pgdb" where
  "id_for_unique key v db =
     (case bind_str key of
        Inl e \<Rightarrow> (Inl e, db)
      | Inr k \<Rightarrow>
          (Inr (map_option r_id (find (\<lambda>r. r_unique_key r = Some k) (t_jobs db))), db))"

text \<open>The columns of the row that \<open>push\<close> builds and \<open>retry_failed\<close> writes.\<close>

record new_job =
  n_queue :: string
  n_name :: string
  n_payload :: codes
  n_max_attempts :: int
  n_priority :: int
  n_unique_key :: "string option"
  n_available_at :: int
  n_created_at :: int

definition new_row :: "int \<Rightarrow> new_job \<Rightarrow> jrow" where
  "new_row i n = \<lparr>r_id = i, r_queue = n_queue n, r_name = n_name n, r_payload = n_payload n,
     r_attempts = 0, r_max_attempts = n_max_attempts n, r_priority = n_priority n,
     r_unique_key = n_unique_key n, r_available_at = n_available_at n, r_reserved_until = None,
     r_reserved_by = None, r_last_error = [], r_created_at = n_created_at n\<rparr>"

text \<open>
  The client's checks come before the statement is sent; from there on a failed statement still
  takes a number from the sequence.
\<close>

definition bind_new :: "new_job \<Rightarrow> qerror + new_job" where
  "bind_new n =
     (case (bind_str (n_queue n), bind_str (n_name n), bind_text (n_payload n),
            bind_str (case n_unique_key n of None \<Rightarrow> [] | Some k \<Rightarrow> k)) of
        (Inr _, Inr _, Inr _, Inr _) \<Rightarrow> Inr n
      | (Inl e, _) \<Rightarrow> Inl e | (_, Inl e, _) \<Rightarrow> Inl e | (_, _, Inl e, _) \<Rightarrow> Inl e
      | (_, _, _, Inl e) \<Rightarrow> Inl e)"

definition store_new :: "new_job \<Rightarrow> qerror + new_job" where
  "store_new n =
     (case (varchar 64 (n_queue n), varchar 190 (n_name n),
            varchar 190 (case n_unique_key n of None \<Rightarrow> [] | Some k \<Rightarrow> k)) of
        (Inr q, Inr m, Inr k) \<Rightarrow>
          if int4 (n_max_attempts n) \<and> int4 (n_priority n)
          then Inr (n\<lparr>n_queue := q, n_name := m, n_unique_key := map_option (\<lambda>_. k) (n_unique_key n)\<rparr>)
          else Inl DataError
      | _ \<Rightarrow> Inl DataError)"

definition insert_job :: "new_job \<Rightarrow> pgdb \<Rightarrow> (qerror + int) \<times> pgdb" where
  "insert_job n db =
     (case bind_new n of
        Inl e \<Rightarrow> (Inl e, db)
      | Inr n1 \<Rightarrow>
          (let i = t_jobs_seq db; db1 = db\<lparr>t_jobs_seq := i + 1\<rparr>
           in case store_new n1 of
                Inl e \<Rightarrow> (Inl e, db1)
              | Inr n2 \<Rightarrow>
                  if n_unique_key n2 \<noteq> None
                     \<and> n_unique_key n2 \<in> r_unique_key ` set (t_jobs db)
                  then (Inl UniqueViolation, db1)
                  else (Inr i, db1\<lparr>t_jobs := t_jobs db1 @ [new_row i n2]\<rparr>)))"

text \<open>
  After a violation the key is looked up again; inside a transaction of the caller that
  transaction is aborted, and the look-up raises \<open>InFailedSqlTransaction\<close>.
\<close>

definition push_insert :: "bool \<Rightarrow> new_job \<Rightarrow> pgworld \<Rightarrow> (qerror + int) \<times> pgworld" where
  "push_insert in_tx n w =
     (case at_visit (\<lambda>v. insert_job n) w of
        (Inl UniqueViolation, w1) \<Rightarrow>
          (case n_unique_key n of
             None \<Rightarrow> (Inl UniqueViolation, w1)
           | Some key \<Rightarrow>
               (case at_visit (\<lambda>v db. if in_tx then (Inl InFailedTransaction, db)
                                      else id_for_unique key v db) w1 of
                  (Inl e, w2) \<Rightarrow> (Inl e, w2)
                | (Inr (Some i), w2) \<Rightarrow> (Inr i, w2)
                | (Inr None, w2) \<Rightarrow> (Inl UniqueViolation, w2)))
      | (r, w1) \<Rightarrow> (r, w1))"

definition push_row ::
  "int \<Rightarrow> string \<Rightarrow> json \<Rightarrow> int \<Rightarrow> string \<Rightarrow> int \<Rightarrow> string option \<Rightarrow> int \<Rightarrow> qerror + new_job" where
  "push_row moment name payload delay queue priority key max_attempts =
     (case encode_payload payload of
        Inl e \<Rightarrow> Inl e
      | Inr text \<Rightarrow>
          (case add_seconds moment (max 0 delay) of
             Inl e \<Rightarrow> Inl e
           | Inr available \<Rightarrow> Inr
               \<lparr>n_queue = (if queue = [] then ''default'' else queue), n_name = name, n_payload = text,
                n_max_attempts = max 1 max_attempts, n_priority = priority, n_unique_key = key,
                n_available_at = available, n_created_at = moment\<rparr>))"

text \<open>
  \<open>push\<close>. The clock is read first; the payload is a dictionary or absent. An empty \<open>unique\<close>
  counts as none.
\<close>

definition push ::
  "bool \<Rightarrow> string \<Rightarrow> (codes, json) dict option \<Rightarrow> int \<Rightarrow> string \<Rightarrow> int \<Rightarrow> string option \<Rightarrow> int
     \<Rightarrow> pgworld \<Rightarrow> (qerror + int) \<times> pgworld" where
  "push in_tx name payload delay queue priority unique max_attempts w =
     (let moment = v_now (snd w 0);
          key = (if unique = Some [] then None else unique);
          row = push_row moment name (JObj (case payload of None \<Rightarrow> [] | Some p \<Rightarrow> p))
                  delay queue priority key max_attempts;
          insert = (\<lambda>w1. case row of Inl e \<Rightarrow> (Inl e, w1) | Inr n \<Rightarrow> push_insert in_tx n w1)
      in case key of
           None \<Rightarrow> insert w
         | Some k \<Rightarrow>
             (case at_visit (id_for_unique k) w of
                (Inl e, w1) \<Rightarrow> (Inl e, w1)
              | (Inr (Some i), w1) \<Rightarrow> (Inr i, w1)
              | (Inr None, w1) \<Rightarrow> insert w1))"


section \<open>Reserve\<close>

definition free :: "int \<Rightarrow> jrow \<Rightarrow> bool" where
  "free moment r \<longleftrightarrow> (case r_reserved_until r of None \<Rightarrow> True | Some u \<Rightarrow> u \<le> moment)"

definition job_order :: "jrow \<Rightarrow> int \<times> int \<times> int" where
  "job_order r = (- r_priority r, r_available_at r, r_id r)"

definition claimable :: "string \<Rightarrow> int \<Rightarrow> int list \<Rightarrow> jrow \<Rightarrow> bool" where
  "claimable queue moment locked r \<longleftrightarrow>
     r_queue r = queue \<and> r_available_at r \<le> moment \<and> free moment r \<and> r_id r \<notin> set locked"

definition candidate :: "string \<Rightarrow> int \<Rightarrow> int list \<Rightarrow> pgdb \<Rightarrow> (int \<times> bool) option" where
  "candidate queue moment locked db =
     (case sort_key job_order (filter (claimable queue moment locked) (t_jobs db)) of
        [] \<Rightarrow> None
      | r # _ \<Rightarrow> Some (r_id r, r_max_attempts r \<le> r_attempts r))"

text \<open>The guarded update; the flag is \<open>rowcount == 1\<close>.\<close>

definition claim_guard :: "int \<Rightarrow> int \<Rightarrow> jrow \<Rightarrow> bool" where
  "claim_guard job_id moment r \<longleftrightarrow> r_id r = job_id \<and> free moment r"

definition claim_row :: "int \<Rightarrow> string \<Rightarrow> jrow \<Rightarrow> jrow" where
  "claim_row until worker r = r\<lparr>r_reserved_until := Some until, r_reserved_by := Some (take 64 worker),
     r_attempts := r_attempts r + 1\<rparr>"

definition claim :: "int \<Rightarrow> int \<Rightarrow> string \<Rightarrow> int \<Rightarrow> pgdb \<Rightarrow> (qerror + bool) \<times> pgdb" where
  "claim job_id until worker moment db =
     (let hit = filter (claim_guard job_id moment) (t_jobs db)
      in if list_ex (\<lambda>r. \<not> int4 (r_attempts r + 1)) hit then (Inl DataError, db)
         else (Inr (length hit = 1),
               db\<lparr>t_jobs := map (\<lambda>r. if claim_guard job_id moment r then claim_row until worker r else r)
                             (t_jobs db)\<rparr>))"

definition read_job :: "int \<Rightarrow> pgdb \<Rightarrow> jrow option" where
  "read_job job_id db = find (\<lambda>r. r_id r = job_id) (t_jobs db)"

definition to_job :: "jrow \<Rightarrow> string \<Rightarrow> job option" where
  "to_job r reserved_by =
     (case loads (r_payload r) of
        Some (JObj p) \<Rightarrow> Some
          \<lparr>j_id = r_id r, j_queue = r_queue r, j_name = r_name r, j_payload = JObj p,
           j_payload_json = r_payload r, j_attempts = r_attempts r,
           j_max_attempts = r_max_attempts r, j_handle = [], j_reserved_by = reserved_by,
           j_release_delay = None\<rparr>
      | _ \<Rightarrow> None)"

text \<open>
  Delete and insert in one transaction. An error text that cannot be stored raises after the
  delete, and the transaction rolls both back.
\<close>

definition owned :: "string \<Rightarrow> int \<Rightarrow> jrow \<Rightarrow> bool" where
  "owned reserved_by attempts r \<longleftrightarrow> r_reserved_by r = Some reserved_by \<and> r_attempts r = attempts"

definition exhausted :: "int \<Rightarrow> jrow \<Rightarrow> bool" where
  "exhausted moment r \<longleftrightarrow> r_max_attempts r \<le> r_attempts r \<and> free moment r"

definition failed_row :: "int \<Rightarrow> codes \<Rightarrow> int \<Rightarrow> jrow \<Rightarrow> frow" where
  "failed_row i error now r = \<lparr>f_id = i, f_queue = r_queue r, f_name = r_name r,
     f_payload = r_payload r, f_attempts = r_attempts r, f_error = error, f_failed_at = now\<rparr>"

definition move_to_failed ::
  "int \<Rightarrow> (jrow \<Rightarrow> bool) \<Rightarrow> codes \<Rightarrow> int \<Rightarrow> pgdb \<Rightarrow> (qerror + bool) \<times> pgdb" where
  "move_to_failed job_id guard error now db =
     (case find (\<lambda>r. r_id r = job_id \<and> guard r) (t_jobs db) of
        None \<Rightarrow> (Inr False, db)
      | Some r \<Rightarrow>
          (case fit_error error of
             Inl e \<Rightarrow> (Inl e, db)
           | Inr text \<Rightarrow>
               (case bind_text text of
                  Inl e \<Rightarrow> (Inl e, db)
                | Inr t \<Rightarrow>
                    (Inr True,
                     db\<lparr>t_jobs := filter (\<lambda>r. \<not> (r_id r = job_id \<and> guard r)) (t_jobs db),
                        t_failed := t_failed db @ [failed_row (t_failed_seq db) t now r],
                        t_failed_seq := t_failed_seq db + 1\<rparr>))))"

datatype round_result = NothingDue | TryAgain | Claimed jrow

text \<open>The transaction of one round of \<open>_reserve_from\<close>.\<close>

definition reserve_tx ::
  "string \<Rightarrow> int \<Rightarrow> string \<Rightarrow> int \<Rightarrow> visit \<Rightarrow> pgdb \<Rightarrow> (qerror + round_result) \<times> pgdb" where
  "reserve_tx queue until worker moment v db =
     (case bind_str queue of
        Inl e \<Rightarrow> (Inl e, db)
      | Inr q \<Rightarrow>
          (case candidate q moment (v_locked v) db of
             None \<Rightarrow> (Inr NothingDue, db)
           | Some (i, True) \<Rightarrow>
               (case move_to_failed i (exhausted moment) EXHAUSTED_ERROR (v_end v) db of
                  (Inl e, _) \<Rightarrow> (Inl e, db)
                | (Inr _, db1) \<Rightarrow> (Inr TryAgain, db1))
           | Some (i, False) \<Rightarrow>
               (case bind_str (take 64 worker) of
                  Inl e \<Rightarrow> (Inl e, db)
                | Inr w \<Rightarrow>
                    (case claim i until w moment db of
                       (Inl e, _) \<Rightarrow> (Inl e, db)
                     | (Inr False, db1) \<Rightarrow> (Inr TryAgain, db1)
                     | (Inr True, db1) \<Rightarrow>
                         (case read_job i db1 of
                            None \<Rightarrow> (Inr TryAgain, db1)
                          | Some r \<Rightarrow> (Inr (Claimed r), db1))))))"

definition BAD_PAYLOAD :: codes where
  "BAD_PAYLOAD = to_text ''Payload is not valid JSON, so no handler could be given it.''"

fun reserve_rounds :: "nat \<Rightarrow> string \<Rightarrow> int \<Rightarrow> string \<Rightarrow> pgworld \<Rightarrow> (qerror + job option) \<times> pgworld" where
  "reserve_rounds 0 queue timeout worker w = (Inr None, w)"
| "reserve_rounds (Suc k) queue timeout worker w =
     (let moment = v_now (snd w 0)
      in case add_seconds moment (max 1 timeout) of
           Inl e \<Rightarrow> (Inl e, w)
         | Inr until \<Rightarrow>
             (case at_visit (reserve_tx queue until worker moment) w of
                (Inl e, w1) \<Rightarrow> (Inl e, w1)
              | (Inr NothingDue, w1) \<Rightarrow> (Inr None, w1)
              | (Inr TryAgain, w1) \<Rightarrow> reserve_rounds k queue timeout worker w1
              | (Inr (Claimed r), w1) \<Rightarrow>
                  (case to_job r (take 64 worker) of
                     Some j \<Rightarrow> (Inr (Some j), w1)
                   | None \<Rightarrow>
                       (case at_visit (\<lambda>v. move_to_failed (r_id r) (owned (take 64 worker) (r_attempts r))
                                            BAD_PAYLOAD (v_end v)) w1 of
                          (Inl e, w2) \<Rightarrow> (Inl e, w2)
                        | (Inr _, w2) \<Rightarrow> reserve_rounds k queue timeout worker w2))))"

definition reserve_from :: "string \<Rightarrow> int \<Rightarrow> string \<Rightarrow> pgworld \<Rightarrow> (qerror + job option) \<times> pgworld" where
  "reserve_from = reserve_rounds CLAIM_ROUNDS"

fun reserve :: "string list \<Rightarrow> int \<Rightarrow> string \<Rightarrow> pgworld \<Rightarrow> (qerror + job option) \<times> pgworld" where
  "reserve [] timeout worker w = (Inr None, w)"
| "reserve (q # qs) timeout worker w =
     (case reserve_from q timeout worker w of
        (Inl e, w1) \<Rightarrow> (Inl e, w1)
      | (Inr (Some j), w1) \<Rightarrow> (Inr (Some j), w1)
      | (Inr None, w1) \<Rightarrow> reserve qs timeout worker w1)"

section \<open>Completion\<close>

text \<open>
  The statements report whether the claim still held; the driver only logs when it did not.
\<close>

definition job_guard :: "job \<Rightarrow> jrow \<Rightarrow> bool" where
  "job_guard j r \<longleftrightarrow> r_id r = j_id j \<and> owned (j_reserved_by j) (j_attempts j) r"

definition delete_stmt :: "job \<Rightarrow> pgdb \<Rightarrow> (qerror + bool) \<times> pgdb" where
  "delete_stmt j db =
     (Inr (length (filter (job_guard j) (t_jobs db)) = 1),
      db\<lparr>t_jobs := filter (\<lambda>r. \<not> job_guard j r) (t_jobs db)\<rparr>)"

definition release_row :: "int \<Rightarrow> codes \<Rightarrow> jrow \<Rightarrow> jrow" where
  "release_row available error r = r\<lparr>r_reserved_until := None, r_reserved_by := None,
     r_available_at := available, r_last_error := error\<rparr>"

definition release_stmt :: "job \<Rightarrow> int \<Rightarrow> codes \<Rightarrow> pgdb \<Rightarrow> (qerror + bool) \<times> pgdb" where
  "release_stmt j available error db =
     (case fit_error error of
        Inl e \<Rightarrow> (Inl e, db)
      | Inr text \<Rightarrow>
          (case bind_text text of
             Inl e \<Rightarrow> (Inl e, db)
           | Inr t \<Rightarrow>
               (Inr (length (filter (job_guard j) (t_jobs db)) = 1),
                db\<lparr>t_jobs := map (\<lambda>r. if job_guard j r then release_row available t r else r)
                              (t_jobs db)\<rparr>)))"

definition fail_tx :: "job \<Rightarrow> codes \<Rightarrow> int \<Rightarrow> pgdb \<Rightarrow> (qerror + bool) \<times> pgdb" where
  "fail_tx j error now db =
     move_to_failed (j_id j) (owned (j_reserved_by j) (j_attempts j)) error now db"

definition ignore_stale :: "(qerror + bool) \<times> pgworld \<Rightarrow> (qerror + unit) \<times> pgworld" where
  "ignore_stale p = (case p of (Inl e, w) \<Rightarrow> (Inl e, w) | (Inr _, w) \<Rightarrow> (Inr (), w))"

definition delete :: "job \<Rightarrow> pgworld \<Rightarrow> (qerror + unit) \<times> pgworld" where
  "delete j w = ignore_stale (at_visit (\<lambda>v. delete_stmt j) w)"

definition release :: "job \<Rightarrow> int \<Rightarrow> codes \<Rightarrow> pgworld \<Rightarrow> (qerror + unit) \<times> pgworld" where
  "release j delay error w =
     (case add_seconds (v_now (snd w 0)) (max 0 delay) of
        Inl e \<Rightarrow> (Inl e, w)
      | Inr available \<Rightarrow> ignore_stale (at_visit (\<lambda>v. release_stmt j available error) w))"

definition fail :: "job \<Rightarrow> codes \<Rightarrow> pgworld \<Rightarrow> (qerror + unit) \<times> pgworld" where
  "fail j error w = ignore_stale (at_visit (\<lambda>v. fail_tx j error (v_end v)) w)"

section \<open>Reports\<close>

definition pending :: "string option \<Rightarrow> pgworld \<Rightarrow> (qerror + nat) \<times> pgworld" where
  "pending queue w =
     (let moment = v_now (snd w 0)
      in at_visit (\<lambda>v db.
           case bind_str (case queue of None \<Rightarrow> [] | Some q \<Rightarrow> q) of
             Inl e \<Rightarrow> (Inl e, db)
           | Inr _ \<Rightarrow>
               (Inr (length (filter (\<lambda>r. (queue = None \<or> queue = Some (r_queue r))
                                         \<and> r_available_at r \<le> moment \<and> free moment r) (t_jobs db))), db)) w)"

record stat_row =
  s_queue :: string
  s_pending :: nat
  s_delayed :: nat
  s_reserved :: nat
  s_total :: nat

definition stat_of :: "int \<Rightarrow> jrow list \<Rightarrow> string \<Rightarrow> stat_row" where
  "stat_of moment rows q =
     (let mine = filter (\<lambda>r. r_queue r = q) rows
      in \<lparr>s_queue = q,
          s_pending = length (filter (\<lambda>r. r_available_at r \<le> moment \<and> free moment r) mine),
          s_delayed = length (filter (\<lambda>r. moment < r_available_at r) mine),
          s_reserved = length (filter (\<lambda>r. \<not> free moment r) mine),
          s_total = length mine\<rparr>)"

text \<open>\<open>GROUP BY queue ORDER BY queue\<close>; the order of text is the database's collation.\<close>

definition stats :: "(string list \<Rightarrow> string list) \<Rightarrow> pgworld \<Rightarrow> (qerror + stat_row list) \<times> pgworld" where
  "stats collate w =
     (let moment = v_now (snd w 0)
      in at_visit (\<lambda>v db.
           (Inr (map (stat_of moment (t_jobs db)) (collate (remdups (map r_queue (t_jobs db))))), db)) w)"

definition failed_count :: "pgworld \<Rightarrow> (qerror + nat) \<times> pgworld" where
  "failed_count w = at_visit (\<lambda>v db. (Inr (length (t_failed db)), db)) w"

definition failed_order :: "frow \<Rightarrow> int \<times> int" where
  "failed_order f = (- f_failed_at f, - f_id f)"

definition failed_rows :: "int \<Rightarrow> pgworld \<Rightarrow> (qerror + frow list) \<times> pgworld" where
  "failed_rows limit w =
     at_visit (\<lambda>v db. (Inr (take (nat (max 1 limit)) (sort_key failed_order (t_failed db))), db)) w"

section \<open>Retry and forget\<close>

text \<open>The transaction that requeues one failed row; the delete does not look at its row count.\<close>

definition retry_tx :: "frow \<Rightarrow> int \<Rightarrow> int \<Rightarrow> pgdb \<Rightarrow> (qerror + unit) \<times> pgdb" where
  "retry_tx f max_attempts moment db =
     (case insert_job \<lparr>n_queue = f_queue f, n_name = f_name f, n_payload = f_payload f,
             n_max_attempts = max 1 max_attempts, n_priority = 0, n_unique_key = None,
             n_available_at = moment, n_created_at = moment\<rparr> db of
        (Inl e, db1) \<Rightarrow> (Inl e, db1)
      | (Inr _, db1) \<Rightarrow>
          (Inr (), db1\<lparr>t_failed := filter (\<lambda>g. f_id g \<noteq> f_id f) (t_failed db1)\<rparr>))"

fun retry_loop :: "frow list \<Rightarrow> int \<Rightarrow> nat \<Rightarrow> pgworld \<Rightarrow> (qerror + nat) \<times> pgworld" where
  "retry_loop [] max_attempts requeued w = (Inr requeued, w)"
| "retry_loop (f # fs) max_attempts requeued w =
     (case at_visit (\<lambda>v. retry_tx f max_attempts (v_now v)) w of
        (Inl e, w1) \<Rightarrow> (Inl e, w1)
      | (Inr _, w1) \<Rightarrow> retry_loop fs max_attempts (Suc requeued) w1)"

definition retry_failed :: "int option \<Rightarrow> int \<Rightarrow> pgworld \<Rightarrow> (qerror + nat) \<times> pgworld" where
  "retry_failed job_id max_attempts w =
     (case at_visit (\<lambda>v db. (Inr (sort_key f_id (filter (\<lambda>f. job_id = None \<or> job_id = Some (f_id f))
                                               (t_failed db))), db)) w of
        (Inl e, w1) \<Rightarrow> (Inl e, w1)
      | (Inr rows, w1) \<Rightarrow> retry_loop rows max_attempts 0 w1)"

text \<open>\<open>timestamp\<close> is the database's reading of a text as a point in time, None when it refuses it.\<close>

definition forget_failed ::
  "(string \<Rightarrow> int option) \<Rightarrow> int option \<Rightarrow> string option \<Rightarrow> pgworld \<Rightarrow> (qerror + nat) \<times> pgworld" where
  "forget_failed timestamp job_id before w =
     at_visit (\<lambda>v db.
       let drop = (\<lambda>p. (Inr (length (filter p (t_failed db))),
                        db\<lparr>t_failed := filter (\<lambda>f. \<not> p f) (t_failed db)\<rparr>))
       in case (job_id, before) of
            (Some i, _) \<Rightarrow> drop (\<lambda>f. f_id f = i)
          | (None, Some b) \<Rightarrow>
              (case timestamp b of
                 None \<Rightarrow> (Inl DataError, db)
               | Some t \<Rightarrow> drop (\<lambda>f. f_failed_at f < t))
          | (None, None) \<Rightarrow> drop (\<lambda>f. True)) w"


section \<open>The invariant of the tables\<close>

definition row_ok :: "jrow \<Rightarrow> bool" where
  "row_ok r \<longleftrightarrow> 0 \<le> r_attempts r \<and> r_attempts r \<le> r_max_attempts r \<and> 1 \<le> r_max_attempts r
     \<and> int4 (r_max_attempts r) \<and> (r_reserved_by r = None \<longleftrightarrow> r_reserved_until r = None)"

definition keys_of :: "jrow list \<Rightarrow> string list" where
  "keys_of rows = List.map_filter r_unique_key rows"

definition pg_ok :: "pgdb \<Rightarrow> bool" where
  "pg_ok db \<longleftrightarrow>
     distinct (map r_id (t_jobs db)) \<and> (\<forall>r\<in>set (t_jobs db). r_id r < t_jobs_seq db)
     \<and> distinct (keys_of (t_jobs db)) \<and> list_all row_ok (t_jobs db)
     \<and> distinct (map f_id (t_failed db)) \<and> (\<forall>f\<in>set (t_failed db). f_id f < t_failed_seq db)"

lemmas pg_ok_parts = pg_ok_def [THEN iffD1]

lemma keys_of_simps [simp]:
  "keys_of [] = []"
  "keys_of (r # rs) = (case r_unique_key r of None \<Rightarrow> keys_of rs | Some k \<Rightarrow> k # keys_of rs)"
  "keys_of (xs @ ys) = keys_of xs @ keys_of ys"
  by (simp_all add: keys_of_def map_filter_simps split: option.split) (simp add: List.map_filter_def)

lemma keys_of_mem: "k \<in> set (keys_of rs) \<longleftrightarrow> Some k \<in> r_unique_key ` set rs"
  by (induction rs) (auto split: option.splits)

lemma keys_of_map:
  "(\<And>r. r \<in> set rs \<Longrightarrow> r_unique_key (g r) = r_unique_key r) \<Longrightarrow> keys_of (map g rs) = keys_of rs"
  by (induction rs) (auto split: option.splits)

lemma keys_of_filter: "distinct (keys_of rs) \<Longrightarrow> distinct (keys_of (filter P rs))"
proof (induction rs)
  case (Cons r rs)
  then show ?case
    by (auto split: option.splits if_splits simp: keys_of_mem)
qed simp

text \<open>
  Updates of rows in place, deletions and insertions: the three ways a statement changes the jobs.
\<close>

lemma pg_ok_map:
  assumes "pg_ok db"
    and "\<And>r. r \<in> set (t_jobs db) \<Longrightarrow> r_id (g r) = r_id r \<and> r_unique_key (g r) = r_unique_key r
      \<and> (row_ok r \<longrightarrow> row_ok (g r))"
  shows "pg_ok (db\<lparr>t_jobs := map g (t_jobs db)\<rparr>)"
proof -
  have "map r_id (map g (t_jobs db)) = map r_id (t_jobs db)" using assms(2) by auto
  moreover have "keys_of (map g (t_jobs db)) = keys_of (t_jobs db)"
    by (rule keys_of_map) (use assms(2) in auto)
  ultimately show ?thesis
    using assms by (auto simp: pg_ok_def list_all_iff simp del: map_map)
qed

lemma pg_ok_filter: "pg_ok db \<Longrightarrow> pg_ok (db\<lparr>t_jobs := filter P (t_jobs db)\<rparr>)"
  by (auto simp: pg_ok_def list_all_iff distinct_map_filter keys_of_filter)

lemma pg_ok_seq: "pg_ok db \<Longrightarrow> pg_ok (db\<lparr>t_jobs_seq := t_jobs_seq db + 1\<rparr>)"
  by (auto simp: pg_ok_def)

lemma pg_ok_forget: "pg_ok db \<Longrightarrow> pg_ok (db\<lparr>t_failed := filter P (t_failed db)\<rparr>)"
  by (auto simp: pg_ok_def distinct_map_filter)

lemma pg_ok_failed:
  "\<lbrakk>pg_ok db; f_id f = t_failed_seq db\<rbrakk> \<Longrightarrow>
     pg_ok (db\<lparr>t_failed := t_failed db @ [f], t_failed_seq := t_failed_seq db + 1\<rparr>)"
  by (fastforce simp: pg_ok_def)

lemma pg_ok_insert:
  assumes "pg_ok db" "r_id r = t_jobs_seq db" "row_ok r"
    and "r_unique_key r = None \<or> r_unique_key r \<notin> r_unique_key ` set (t_jobs db)"
  shows "pg_ok (db\<lparr>t_jobs_seq := t_jobs_seq db + 1, t_jobs := t_jobs db @ [r]\<rparr>)"
  using assms by (fastforce simp: pg_ok_def keys_of_mem split: option.splits)

lemma bind_new_id: "bind_new n = Inr m \<Longrightarrow> m = n"
  by (auto simp: bind_new_def split: sum.splits)

lemma store_new_ints:
  "store_new n = Inr m \<Longrightarrow> n_max_attempts m = n_max_attempts n \<and> int4 (n_max_attempts n)"
  by (auto simp: store_new_def split: sum.splits if_splits)

lemma insert_job_cases:
  obtains (failed) e where "fst (insert_job n db) = Inl e"
      "snd (insert_job n db) = db \<or> snd (insert_job n db) = db\<lparr>t_jobs_seq := t_jobs_seq db + 1\<rparr>"
  | (inserted) m where "store_new n = Inr m"
      "insert_job n db = (Inr (t_jobs_seq db),
         db\<lparr>t_jobs_seq := t_jobs_seq db + 1, t_jobs := t_jobs db @ [new_row (t_jobs_seq db) m]\<rparr>)"
      "n_unique_key m = None \<or> n_unique_key m \<notin> r_unique_key ` set (t_jobs db)"
proof (cases "bind_new n")
  case (Inl e)
  then show ?thesis using failed by (simp add: insert_job_def)
next
  case (Inr n1)
  then have n1: "n1 = n" by (rule bind_new_id)
  show ?thesis
  proof (cases "store_new n")
    case (Inl e)
    then show ?thesis using failed Inr n1 by (simp add: insert_job_def Let_def)
  next
    case (Inr m)
    show ?thesis
      using inserted [OF Inr] failed \<open>bind_new n = Inr n1\<close> n1 Inr
      by (cases "n_unique_key m \<noteq> None \<and> n_unique_key m \<in> r_unique_key ` set (t_jobs db)")
        (auto simp: insert_job_def Let_def)
  qed
qed

lemma insert_job_ok:
  assumes "pg_ok db" "1 \<le> n_max_attempts n"
  shows "pg_ok (snd (insert_job n db))"
proof (cases n db rule: insert_job_cases)
  case (failed e)
  then show ?thesis using assms pg_ok_seq by auto
next
  case (inserted m)
  have "row_ok (new_row (t_jobs_seq db) m)"
    using store_new_ints [OF inserted(1)] assms(2) by (simp add: row_ok_def new_row_def)
  then show ?thesis
    using inserted assms(1) by (simp add: pg_ok_insert new_row_def)
qed


lemma find_row:
  assumes "pg_ok db" "r \<in> set (t_jobs db)" "s \<in> set (t_jobs db)" "r_id r = r_id s"
  shows "r = s"
  using assms unfolding pg_ok_def by (metis distinct_map inj_onD)

lemma read_job_iff:
  assumes "pg_ok db"
  shows "read_job i db = Some r \<longleftrightarrow> r \<in> set (t_jobs db) \<and> r_id r = i"
proof
  assume "read_job i db = Some r"
  then show "r \<in> set (t_jobs db) \<and> r_id r = i"
    unfolding read_job_def by (auto simp: find_Some_iff in_set_conv_nth)
next
  assume r: "r \<in> set (t_jobs db) \<and> r_id r = i"
  then obtain s where s: "read_job i db = Some s"
    unfolding read_job_def by (cases "find (\<lambda>r. r_id r = i) (t_jobs db)") (auto simp: find_None_iff)
  then have "s \<in> set (t_jobs db)" "r_id s = i"
    unfolding read_job_def by (auto simp: find_Some_iff in_set_conv_nth)
  then show "read_job i db = Some r" using s r find_row [OF assms] by metis
qed

text \<open>The candidate is the least claimable row in the order of the query.\<close>

lemma candidate_Some:
  assumes "candidate q m l db = Some (i, x)"
  obtains r where "r \<in> set (t_jobs db)" "r_id r = i" "claimable q m l r"
    "x \<longleftrightarrow> r_max_attempts r \<le> r_attempts r"
    "\<And>s. \<lbrakk>s \<in> set (t_jobs db); claimable q m l s\<rbrakk> \<Longrightarrow> job_order r \<le> job_order s"
proof -
  let ?rows = "filter (claimable q m l) (t_jobs db)"
  obtain r rs where r: "sort_key job_order ?rows = r # rs"
    and ix: "i = r_id r" "x \<longleftrightarrow> r_max_attempts r \<le> r_attempts r"
    using assms by (auto simp: candidate_def split: list.splits)
  have mem: "set ?rows = set (r # rs)" unfolding r [symmetric] by simp
  have "sorted (map job_order (r # rs))" unfolding r [symmetric] by simp
  then have least: "job_order r \<le> job_order s" if "s \<in> set ?rows" for s
    using that unfolding mem by auto
  have "r \<in> set ?rows" unfolding mem by simp
  then show thesis using that [of r] ix least by auto
qed

lemma candidate_None: "candidate q m l db = None \<longleftrightarrow> (\<forall>r\<in>set (t_jobs db). \<not> claimable q m l r)"
proof -
  have "candidate q m l db = None \<longleftrightarrow> filter (claimable q m l) (t_jobs db) = []"
    unfolding candidate_def
    by (metis (no_types, lifting) list.case_eq_if option.distinct(1) set_empty set_sort)
  then show ?thesis by (simp add: filter_empty_conv)
qed

lemma row_claim_ok: "row_ok r \<Longrightarrow> r_attempts r < r_max_attempts r \<Longrightarrow> row_ok (claim_row u w r)"
  by (simp add: row_ok_def claim_row_def)

lemma row_release_ok: "row_ok r \<Longrightarrow> row_ok (release_row a e r)"
  by (simp add: row_ok_def release_row_def)

text \<open>Claiming the candidate always succeeds, counts one attempt and touches no other row.\<close>

lemma claim_candidate:
  assumes ok: "pg_ok db" and c: "candidate q m l db = Some (i, False)"
  obtains r where "read_job i db = Some r" "claimable q m l r" "r_attempts r < r_max_attempts r"
    "claim i u w m db
       = (Inr True, db\<lparr>t_jobs := map (\<lambda>s. if r_id s = i then claim_row u w s else s) (t_jobs db)\<rparr>)"
proof -
  obtain r where r: "r \<in> set (t_jobs db)" "r_id r = i" "claimable q m l r"
    "\<not> r_max_attempts r \<le> r_attempts r"
    using candidate_Some [OF c] by metis
  have guard: "claim_guard i m s \<longleftrightarrow> r_id s = i" if "s \<in> set (t_jobs db)" for s
    using find_row [OF ok that r(1)] r by (auto simp: claim_guard_def claimable_def)
  have d: "distinct (map r_id (t_jobs db))" using ok by (simp add: pg_ok_def)
  have "filter (claim_guard i m) (t_jobs db) = filter (\<lambda>s. r_id s = r_id r) (t_jobs db)"
    using guard r(2) by (intro filter_cong) auto
  then have hit: "filter (claim_guard i m) (t_jobs db) = [r]"
    using filter_key_unique [OF d r(1)] by simp
  have ro: "row_ok r" using ok r(1) by (auto simp: pg_ok_def list_all_iff)
  then have "int4 (r_attempts r + 1)" using r(4) by (simp add: row_ok_def int4_def)
  moreover have "map (\<lambda>s. if claim_guard i m s then claim_row u w s else s) (t_jobs db)
      = map (\<lambda>s. if r_id s = i then claim_row u w s else s) (t_jobs db)"
    by (intro map_cong) (auto simp: guard)
  ultimately have "claim i u w m db
       = (Inr True, db\<lparr>t_jobs := map (\<lambda>s. if r_id s = i then claim_row u w s else s) (t_jobs db)\<rparr>)"
    by (simp add: claim_def hit)
  then show thesis using that [of r] r read_job_iff [OF ok] by auto
qed

lemma move_to_failed_cases:
  assumes "pg_ok db"
  obtains (stale) "move_to_failed i g e n db = (Inr False, db)"
      "\<And>r. read_job i db = Some r \<Longrightarrow> \<not> g r"
  | (refused) err r where "move_to_failed i g e n db = (Inl err, db)" "read_job i db = Some r" "g r"
  | (moved) r t where "read_job i db = Some r" "g r" "fit_error e = Inr t" "bind_text t = Inr t"
      "move_to_failed i g e n db = (Inr True,
         db\<lparr>t_jobs := filter (\<lambda>s. r_id s \<noteq> i) (t_jobs db),
            t_failed := t_failed db @ [failed_row (t_failed_seq db) t n r],
            t_failed_seq := t_failed_seq db + 1\<rparr>)"
proof (cases "find (\<lambda>r. r_id r = i \<and> g r) (t_jobs db)")
  case None
  then have "move_to_failed i g e n db = (Inr False, db)" by (simp add: move_to_failed_def)
  moreover have "\<not> g r" if "read_job i db = Some r" for r
    using None that read_job_iff [OF assms] by (auto simp: find_None_iff)
  ultimately show ?thesis using stale by blast
next
  case (Some r)
  then have r: "r \<in> set (t_jobs db)" "r_id r = i" "g r"
    by (auto simp: find_Some_iff in_set_conv_nth)
  then have rd: "read_job i db = Some r" using read_job_iff [OF assms] by auto
  have fl: "filter (\<lambda>s. \<not> (r_id s = i \<and> g s)) (t_jobs db) = filter (\<lambda>s. r_id s \<noteq> i) (t_jobs db)"
  proof (intro filter_cong refl)
    fix s assume "s \<in> set (t_jobs db)"
    then have "r_id s = i \<Longrightarrow> s = r" using find_row [OF assms, of s r] r by simp
    then show "(\<not> (r_id s = i \<and> g s)) = (r_id s \<noteq> i)" using r(3) by blast
  qed
  show ?thesis
  proof (cases "fit_error e")
    case (Inl err)
    then show ?thesis using refused rd r Some by (simp add: move_to_failed_def)
  next
    case (Inr t)
    have b: "bind_text t = Inr u \<Longrightarrow> u = t" for u by (auto simp: bind_text_def split: if_splits)
    show ?thesis
    proof (cases "bind_text t")
      case (Inl err)
      then have "move_to_failed i g e n db = (Inl err, db)"
        using Some Inr by (simp add: move_to_failed_def)
      then show ?thesis using refused rd r(3) by blast
    next
      case bt: (Inr u)
      then have u: "u = t" by (rule b)
      show ?thesis
        using moved [OF rd r(3) Inr] bt unfolding u move_to_failed_def Some Inr option.case sum.case fl
        by simp
    qed
  qed
qed

lemma move_to_failed_ok:
  assumes "pg_ok db"
  shows "pg_ok (snd (move_to_failed i g e n db))"
  using assms
proof (cases rule: move_to_failed_cases [of db i g e n])
  case (moved r t)
  let ?d = "db\<lparr>t_jobs := filter (\<lambda>s. r_id s \<noteq> i) (t_jobs db)\<rparr>"
  show ?thesis
    using moved pg_ok_failed [of ?d "failed_row (t_failed_seq db) t n r"] pg_ok_filter [OF assms]
    by (simp add: failed_row_def)
qed (use assms in auto)


lemma plain_error_fits:
  assumes "list_all (\<lambda>c. 0 < c \<and> c < 128) t" "length t \<le> MAX_ERROR_BYTES"
  shows "fit_error t = Inr t" "bind_text t = Inr t"
proof -
  have s: "list_all scalar t" using assms(1) by (auto simp: list_all_iff scalar_def)
  have "utf8 t = t" using assms(1) by (induction t) (auto simp: utf8_char_def)
  then show "fit_error t = Inr t" using s assms(2) by (simp add: fit_error_def encode_utf8_def)
  have "0 \<notin> set t" using assms(1) by (auto simp: list_all_iff)
  then show "bind_text t = Inr t" using s by (simp add: bind_text_def)
qed

lemma own_errors_fit:
  "fit_error EXHAUSTED_ERROR = Inr EXHAUSTED_ERROR" "bind_text EXHAUSTED_ERROR = Inr EXHAUSTED_ERROR"
  "fit_error BAD_PAYLOAD = Inr BAD_PAYLOAD" "bind_text BAD_PAYLOAD = Inr BAD_PAYLOAD"
  by (rule plain_error_fits;
      simp add: EXHAUSTED_ERROR_def BAD_PAYLOAD_def MAX_ERROR_BYTES_def to_text_def code_def)+

lemma bind_str_id: "bind_str s = Inr t \<Longrightarrow> t = s"
  by (auto simp: bind_str_def split: if_splits)

definition claimed_db :: "int \<Rightarrow> int \<Rightarrow> string \<Rightarrow> pgdb \<Rightarrow> pgdb" where
  "claimed_db i u w db = db\<lparr>t_jobs := map (\<lambda>s. if r_id s = i then claim_row u w s else s) (t_jobs db)\<rparr>"

definition buried_db :: "jrow \<Rightarrow> codes \<Rightarrow> int \<Rightarrow> pgdb \<Rightarrow> pgdb" where
  "buried_db r error now db = db\<lparr>t_jobs := filter (\<lambda>s. r_id s \<noteq> r_id r) (t_jobs db),
     t_failed := t_failed db @ [failed_row (t_failed_seq db) error now r],
     t_failed_seq := t_failed_seq db + 1\<rparr>"

lemma db_seq_simps [simp]:
  "t_jobs_seq (claimed_db i u w db) = t_jobs_seq db" "t_jobs_seq (buried_db r e n db) = t_jobs_seq db"
  by (simp_all add: claimed_db_def buried_db_def)

lemma claim_row_simps [simp]:
  "r_id (claim_row u w r) = r_id r" "r_attempts (claim_row u w r) = r_attempts r + 1"
  "r_max_attempts (claim_row u w r) = r_max_attempts r" "r_queue (claim_row u w r) = r_queue r"
  "r_payload (claim_row u w r) = r_payload r" "r_name (claim_row u w r) = r_name r"
  "r_unique_key (claim_row u w r) = r_unique_key r"
  "r_reserved_by (claim_row u w r) = Some (take 64 w)"
  "r_reserved_until (claim_row u w r) = Some u"
  "claim_row u (take 64 w) r = claim_row u w r"
  by (simp_all add: claim_row_def)

lemma claimed_db_ok:
  assumes "pg_ok db" "read_job i db = Some r" "r_attempts r < r_max_attempts r"
  shows "pg_ok (claimed_db i u w db)" "read_job i (claimed_db i u w db) = Some (claim_row u w r)"
proof -
  have r: "r \<in> set (t_jobs db)" "r_id r = i" using assms read_job_iff by auto
  show ok: "pg_ok (claimed_db i u w db)"
    unfolding claimed_db_def
  proof (rule pg_ok_map [OF assms(1)])
    fix s assume "s \<in> set (t_jobs db)"
    then have "s = r" if "r_id s = i" using find_row [OF assms(1), of s r] r that by simp
    then show "r_id (if r_id s = i then claim_row u w s else s) = r_id s
        \<and> r_unique_key (if r_id s = i then claim_row u w s else s) = r_unique_key s
        \<and> (row_ok s \<longrightarrow> row_ok (if r_id s = i then claim_row u w s else s))"
      using row_claim_ok assms(3) by auto
  qed
  show "read_job i (claimed_db i u w db) = Some (claim_row u w r)"
    using r unfolding read_job_iff [OF ok] by (force simp: claimed_db_def)
qed

lemma buried_db_ok: "pg_ok db \<Longrightarrow> pg_ok (buried_db r e n db)"
  using pg_ok_failed [of "db\<lparr>t_jobs := filter (\<lambda>s. r_id s \<noteq> r_id r) (t_jobs db)\<rparr>"
      "failed_row (t_failed_seq db) e n r"] pg_ok_filter [of db "\<lambda>s. r_id s \<noteq> r_id r"]
  by (simp add: buried_db_def failed_row_def)

text \<open>What one round of \<open>_reserve_from\<close> can do to the tables.\<close>

lemma reserve_tx_cases:
  assumes ok: "pg_ok db"
  obtains (raised) e where "reserve_tx q u w m v db = (Inl e, db)"
  | (nothing) "reserve_tx q u w m v db = (Inr NothingDue, db)"
      "\<forall>r\<in>set (t_jobs db). \<not> claimable q m (v_locked v) r"
  | (buried) r where "read_job (r_id r) db = Some r" "claimable q m (v_locked v) r"
      "r_max_attempts r \<le> r_attempts r" "candidate q m (v_locked v) db = Some (r_id r, True)"
      "reserve_tx q u w m v db = (Inr TryAgain, buried_db r EXHAUSTED_ERROR (v_end v) db)"
  | (claimed) r where "read_job (r_id r) db = Some r" "claimable q m (v_locked v) r"
      "r_attempts r < r_max_attempts r"
      "\<forall>s\<in>set (t_jobs db). claimable q m (v_locked v) s \<longrightarrow> job_order r \<le> job_order s"
      "reserve_tx q u w m v db = (Inr (Claimed (claim_row u w r)), claimed_db (r_id r) u w db)"
proof (cases "bind_str q")
  case (Inl e)
  then show ?thesis using raised by (simp add: reserve_tx_def)
next
  case (Inr q')
  then have q: "bind_str q = Inr q" using bind_str_id by simp
  show ?thesis
  proof (cases "candidate q m (v_locked v) db")
    case None
    then have "reserve_tx q u w m v db = (Inr NothingDue, db)" by (simp add: reserve_tx_def q)
    then show ?thesis by (rule nothing) (use None in \<open>simp add: candidate_None\<close>)
  next
    case (Some ix)
    obtain i x where ix: "ix = (i, x)" by (cases ix)
    note c = Some [unfolded ix]
    obtain r where r: "r \<in> set (t_jobs db)" "r_id r = i" "claimable q m (v_locked v) r"
      and x: "x \<longleftrightarrow> r_max_attempts r \<le> r_attempts r"
      and least: "\<And>s. \<lbrakk>s \<in> set (t_jobs db); claimable q m (v_locked v) s\<rbrakk> \<Longrightarrow> job_order r \<le> job_order s"
      using candidate_Some [OF c] by metis
    have rd: "read_job (r_id r) db = Some r" using r read_job_iff [OF ok] by simp
    show ?thesis
    proof (cases x)
      case True
      have g: "exhausted m r" using r x True by (simp add: exhausted_def claimable_def)
      have "move_to_failed i (exhausted m) EXHAUSTED_ERROR (v_end v) db
          = (Inr True, buried_db r EXHAUSTED_ERROR (v_end v) db)"
        using ok
      proof (cases rule: move_to_failed_cases [of db i "exhausted m" EXHAUSTED_ERROR "v_end v"])
        case stale
        then show ?thesis using rd r g by simp
      next
        case (refused err s)
        then show ?thesis
          by (auto simp: move_to_failed_def own_errors_fit split: option.splits)
      next
        case (moved s t)
        then show ?thesis using rd r by (simp add: own_errors_fit buried_db_def)
      qed
      then have "reserve_tx q u w m v db = (Inr TryAgain, buried_db r EXHAUSTED_ERROR (v_end v) db)"
        using c True by (simp add: reserve_tx_def q)
      moreover have "candidate q m (v_locked v) db = Some (r_id r, True)" using c True r by simp
      ultimately show ?thesis using buried rd r x True by blast
    next
      case False
      show ?thesis
      proof (cases "bind_str (take 64 w)")
        case (Inl e)
        then show ?thesis using raised c False by (simp add: reserve_tx_def q)
      next
        case (Inr w')
        then have w': "w' = take 64 w" by (rule bind_str_id)
        have row: "claim_row u w' s = claim_row u w s" for s by (simp add: claim_row_def w')
        have "candidate q m (v_locked v) db = Some (i, False)" using c False by simp
        from claim_candidate [OF ok this, of u w']
        have cl: "claim i u w' m db = (Inr True, claimed_db i u w db)"
          unfolding claimed_db_def row by metis
        have "reserve_tx q u w m v db = (Inr (Claimed (claim_row u w r)), claimed_db (r_id r) u w db)"
          using c False Inr cl claimed_db_ok(2) [OF ok rd, of u w] x r
          by (simp add: reserve_tx_def q)
        then show ?thesis using claimed rd r x False least by (meson not_le)
      qed
    qed
  qed
qed


text \<open>The completion statements change exactly the row whose claim the job still holds.\<close>

definition holds_claim :: "job \<Rightarrow> pgdb \<Rightarrow> bool" where
  "holds_claim j db \<longleftrightarrow>
     (case read_job (j_id j) db of None \<Rightarrow> False
      | Some r \<Rightarrow> owned (j_reserved_by j) (j_attempts j) r)"

lemma job_guard_rows:
  assumes ok: "pg_ok db" and s: "s \<in> set (t_jobs db)"
  shows "job_guard j s \<longleftrightarrow> holds_claim j db \<and> r_id s = j_id j"
proof (cases "r_id s = j_id j")
  case True
  then have "read_job (j_id j) db = Some s" using read_job_iff [OF ok] s by auto
  then show ?thesis using True by (simp add: holds_claim_def job_guard_def)
qed (simp add: job_guard_def)

lemma holds_claim_row:
  assumes "pg_ok db" "holds_claim j db"
  obtains r where "read_job (j_id j) db = Some r" "r \<in> set (t_jobs db)" "r_id r = j_id j"
    "r_reserved_by r = Some (j_reserved_by j)" "r_attempts r = j_attempts j"
  using assms read_job_iff [OF assms(1)] by (auto simp: holds_claim_def owned_def split: option.splits)

lemma guard_count:
  assumes ok: "pg_ok db"
  shows "length (filter (job_guard j) (t_jobs db)) = 1 \<longleftrightarrow> holds_claim j db"
proof (cases "holds_claim j db")
  case True
  then obtain r where r: "r \<in> set (t_jobs db)" "r_id r = j_id j" using holds_claim_row [OF ok] by metis
  have "filter (job_guard j) (t_jobs db) = filter (\<lambda>s. r_id s = r_id r) (t_jobs db)"
    using job_guard_rows [OF ok] True r by (intro filter_cong) auto
  also have "\<dots> = [r]" using ok r by (intro filter_key_unique) (auto simp: pg_ok_def)
  finally show ?thesis using True by simp
next
  case False
  then have "filter (job_guard j) (t_jobs db) = []"
    using job_guard_rows [OF ok] by (auto simp: filter_empty_conv)
  then show ?thesis using False by simp
qed

lemma delete_stmt_effect:
  assumes ok: "pg_ok db"
  shows "delete_stmt j db = (Inr (holds_claim j db),
    if holds_claim j db then db\<lparr>t_jobs := filter (\<lambda>s. r_id s \<noteq> j_id j) (t_jobs db)\<rparr> else db)"
proof -
  have "filter (\<lambda>s. \<not> job_guard j s) (t_jobs db)
      = filter (\<lambda>s. \<not> (holds_claim j db \<and> r_id s = j_id j)) (t_jobs db)"
    using job_guard_rows [OF ok] by (intro filter_cong) auto
  then show ?thesis using guard_count [OF ok] by (simp add: delete_stmt_def)
qed

lemma release_stmt_effect:
  assumes ok: "pg_ok db" and t: "fit_error e = Inr t" "bind_text t = Inr t'"
  shows "release_stmt j a e db = (Inr (holds_claim j db),
    if holds_claim j db
    then db\<lparr>t_jobs := map (\<lambda>s. if r_id s = j_id j then release_row a t' s else s) (t_jobs db)\<rparr> else db)"
proof -
  have m: "map (\<lambda>s. if job_guard j s then release_row a t' s else s) (t_jobs db)
      = map (\<lambda>s. if holds_claim j db \<and> r_id s = j_id j then release_row a t' s else s) (t_jobs db)"
    using job_guard_rows [OF ok] by (intro map_cong) auto
  show ?thesis
    unfolding release_stmt_def t sum.case m guard_count [OF ok] by (cases "holds_claim j db") simp_all
qed

lemma release_stmt_cases:
  assumes ok: "pg_ok db"
  obtains (raised) x where "release_stmt j a e db = (Inl x, db)"
  | (ran) t where "release_stmt j a e db = (Inr (holds_claim j db),
    if holds_claim j db
    then db\<lparr>t_jobs := map (\<lambda>s. if r_id s = j_id j then release_row a t s else s) (t_jobs db)\<rparr> else db)"
proof (cases "fit_error e")
  case (Inl x)
  then show ?thesis using raised by (simp add: release_stmt_def)
next
  case (Inr t)
  show ?thesis
  proof (cases "bind_text t")
    case (Inl x)
    then show ?thesis using raised Inr by (simp add: release_stmt_def)
  next
    case b: (Inr t')
    show ?thesis using ran release_stmt_effect [OF ok Inr b] by blast
  qed
qed

lemma fail_tx_cases:
  assumes ok: "pg_ok db"
  obtains (raised) x where "fail_tx j e n db = (Inl x, db)"
  | (stale) "\<not> holds_claim j db" "fail_tx j e n db = (Inr False, db)"
  | (moved) r t where "holds_claim j db" "read_job (j_id j) db = Some r" "fit_error e = Inr t"
      "fail_tx j e n db = (Inr True, buried_db r t n db)"
  using ok
proof (cases rule: move_to_failed_cases [of db "j_id j" "owned (j_reserved_by j) (j_attempts j)" e n])
  case stale
  then have "\<not> holds_claim j db" by (auto simp: holds_claim_def split: option.splits)
  then show ?thesis using that(2) stale by (simp add: fail_tx_def)
next
  case (refused err r)
  then show ?thesis using that(1) by (simp add: fail_tx_def)
next
  case (moved r t)
  have "r_id r = j_id j" using moved read_job_iff [OF ok] by simp
  then show ?thesis using that(3) moved by (auto simp: fail_tx_def holds_claim_def buried_db_def)
qed

end
