(* ===== verification/Queue_Trace.thy ===== *)
theory Queue_Trace
  imports Queue_Pg
begin

text \<open>
  Many sessions on one database. Every statement or transaction of the driver is atomic for the
  others, so a history of the tables is a sequence of steps, each one body of
  \<open>driver_pg.py\<close> run by some session at some clock reading, with whatever rows happen to be
  locked. The step relation labels what the step achieved. The theorems say what workers and
  callers can rely on however the sessions interleave and whatever their clocks read.
\<close>

datatype event =
    Pushed int
  | Taken int int string int int
  | Released int int
  | Finished int int string
  | Failed int int string
  | Buried int
  | Quiet

text \<open>
  \<open>Taken i a w m u\<close>: session \<open>w\<close> claimed job \<open>i\<close> as its attempt \<open>a\<close> at its time \<open>m\<close> until \<open>u\<close>.
  The pair of job and attempt is the token that completions must present.
\<close>

inductive pg_step :: "pgdb \<Rightarrow> event \<Rightarrow> pgdb \<Rightarrow> bool" where
  insert: "\<lbrakk>1 \<le> n_max_attempts n; insert_job n db = (Inr i, db')\<rbrakk> \<Longrightarrow> pg_step db (Pushed i) db'"
| insert_fails: "insert_job n db = (Inl e, db') \<Longrightarrow> pg_step db Quiet db'"
| requeue: "retry_tx f m t db = (Inr (), db') \<Longrightarrow> pg_step db (Pushed (t_jobs_seq db)) db'"
| requeue_fails: "retry_tx f m t db = (Inl e, db') \<Longrightarrow> pg_step db Quiet db'"
| take: "reserve_tx q u w m v db = (Inr (Claimed r), db') \<Longrightarrow>
     pg_step db (Taken (r_id r) (r_attempts r) (take 64 w) m u) db'"
| bury: "\<lbrakk>reserve_tx q u w m v db = (Inr TryAgain, db'); candidate q m (v_locked v) db = Some (i, x)\<rbrakk> \<Longrightarrow>
     pg_step db (Buried i) db'"
| finish: "delete_stmt j db = (Inr True, db') \<Longrightarrow>
     pg_step db (Finished (j_id j) (j_attempts j) (j_reserved_by j)) db'"
| put_back: "release_stmt j a e db = (Inr True, db') \<Longrightarrow>
     pg_step db (Released (j_id j) (j_attempts j)) db'"
| give_up: "fail_tx j e n db = (Inr True, db') \<Longrightarrow>
     pg_step db (Failed (j_id j) (j_attempts j) (j_reserved_by j)) db'"
| take_none: "\<lbrakk>reserve_tx q u w m v db = (x, db'); \<forall>r. x \<noteq> Inr (Claimed r); x \<noteq> Inr TryAgain\<rbrakk> \<Longrightarrow>
     pg_step db Quiet db'"
| finish_stale: "\<lbrakk>delete_stmt j db = (x, db'); x \<noteq> Inr True\<rbrakk> \<Longrightarrow> pg_step db Quiet db'"
| put_back_stale: "\<lbrakk>release_stmt j a e db = (x, db'); x \<noteq> Inr True\<rbrakk> \<Longrightarrow> pg_step db Quiet db'"
| give_up_stale: "\<lbrakk>fail_tx j e n db = (x, db'); x \<noteq> Inr True\<rbrakk> \<Longrightarrow> pg_step db Quiet db'"
| forget: "pg_step db Quiet (db\<lparr>t_failed := filter P (t_failed db)\<rparr>)"

inductive_cases pg_stepE: "pg_step db e db'"

text \<open>A history that starts from an empty jobs table, latest event first.\<close>

inductive history :: "event list \<Rightarrow> pgdb \<Rightarrow> bool" where
  start: "\<lbrakk>pg_ok db; t_jobs db = []\<rbrakk> \<Longrightarrow> history [] db"
| step: "\<lbrakk>history h db; pg_step db e db'\<rbrakk> \<Longrightarrow> history (e # h) db'"

section \<open>The abstract queue\<close>

text \<open>
  What the tables promise, over the map from identifiers to rows and the next identifier: jobs are
  born unclaimed under fresh identifiers, a claim needs a row nobody holds at the claimant's time
  and counts one attempt, and only the holder of the current token releases or settles a job.
\<close>

definition row_map :: "jrow list \<Rightarrow> int \<Rightarrow> jrow option" where
  "row_map rows i = find (\<lambda>r. r_id r = i) rows"

definition rows_of :: "pgdb \<Rightarrow> int \<Rightarrow> jrow option" where
  "rows_of db = row_map (t_jobs db)"

lemma read_job_rows: "read_job i db = rows_of db i"
  by (simp add: read_job_def rows_of_def row_map_def)

fun spec_step :: "event \<Rightarrow> (int \<Rightarrow> jrow option) \<Rightarrow> int \<Rightarrow> (int \<Rightarrow> jrow option) \<Rightarrow> int \<Rightarrow> bool" where
  "spec_step (Pushed i) M s M' s' \<longleftrightarrow> i = s \<and> s' = s + 1 \<and>
     (\<exists>r. r_id r = i \<and> r_attempts r = 0 \<and> r_reserved_by r = None \<and> r_reserved_until r = None
          \<and> M' = M(i \<mapsto> r))"
| "spec_step (Taken i a w m u) M s M' s' \<longleftrightarrow> s' = s \<and>
     (\<exists>r. M i = Some r \<and> free m r \<and> r_available_at r \<le> m \<and> a = r_attempts r + 1
          \<and> a \<le> r_max_attempts r
          \<and> M' = M(i \<mapsto> r\<lparr>r_reserved_until := Some u, r_reserved_by := Some w, r_attempts := a\<rparr>))"
| "spec_step (Released i a) M s M' s' \<longleftrightarrow> s' = s \<and>
     (\<exists>r t e. M i = Some r \<and> r_attempts r = a \<and> r_reserved_by r \<noteq> None
          \<and> M' = M(i \<mapsto> release_row t e r))"
| "spec_step (Finished i a w) M s M' s' \<longleftrightarrow> s' = s \<and>
     (\<exists>r. M i = Some r \<and> r_attempts r = a \<and> r_reserved_by r = Some w \<and> M' = M(i := None))"
| "spec_step (Failed i a w) M s M' s' \<longleftrightarrow> s' = s \<and>
     (\<exists>r. M i = Some r \<and> r_attempts r = a \<and> r_reserved_by r = Some w \<and> M' = M(i := None))"
| "spec_step (Buried i) M s M' s' \<longleftrightarrow> s' = s \<and>
     (\<exists>r. M i = Some r \<and> r_max_attempts r \<le> r_attempts r \<and> M' = M(i := None))"
| "spec_step Quiet M s M' s' \<longleftrightarrow> M' = M \<and> s \<le> s'"

lemma row_map_filter: "row_map (filter (\<lambda>s. r_id s \<noteq> i) rows) = (row_map rows)(i := None)"
  by (rule ext, induction rows) (auto simp: row_map_def)

lemma row_map_map:
  assumes "\<And>r. r_id (g r) = r_id r" "row_map rows i = Some r"
  shows "row_map (map (\<lambda>s. if r_id s = i then g s else s) rows) = (row_map rows)(i \<mapsto> g r)"
proof -
  have "row_map (map (\<lambda>s. if r_id s = i then g s else s) rows) k
    = (if k = i then map_option g (row_map rows k) else row_map rows k)" for k
    unfolding row_map_def by (induction rows) (auto simp: assms(1))
  then show ?thesis using assms(2) by (intro ext) simp
qed

lemma row_map_append:
  assumes ok: "pg_ok db" and r: "r_id r = t_jobs_seq db"
  shows "row_map (t_jobs db @ [r]) = (rows_of db)(t_jobs_seq db \<mapsto> r)"
proof
  fix k
  have fresh: "row_map (t_jobs db) (t_jobs_seq db) = None"
    using ok by (auto simp: find_None_iff pg_ok_def row_map_def)
  have "row_map (xs @ [r]) k = (case row_map xs k of None \<Rightarrow> if r_id r = k then Some r else None | Some x \<Rightarrow> Some x)"
    for xs by (induction xs) (auto simp: row_map_def)
  then show "row_map (t_jobs db @ [r]) k = ((rows_of db)(t_jobs_seq db \<mapsto> r)) k"
    using fresh r by (auto simp: rows_of_def split: option.split)
qed

lemma rows_buried: "rows_of (buried_db r e n db) = (rows_of db)(r_id r := None)"
  by (simp add: buried_db_def rows_of_def row_map_filter)

lemma rows_claimed:
  assumes "rows_of db i = Some r"
  shows "rows_of (claimed_db i u w db) = (rows_of db)(i \<mapsto> claim_row u w r)"
  using assms row_map_map [of "claim_row u w" "t_jobs db" i r] by (simp add: claimed_db_def rows_of_def)

lemma insert_job_spec:
  assumes ok: "pg_ok db" and ins: "insert_job n db = (Inr i, db')"
  shows "spec_step (Pushed i) (rows_of db) (t_jobs_seq db) (rows_of db') (t_jobs_seq db')"
proof (cases n db rule: insert_job_cases)
  case (inserted m)
  let ?r = "new_row (t_jobs_seq db) m"
  have id: "r_id ?r = t_jobs_seq db \<and> r_attempts ?r = 0 \<and> r_reserved_by ?r = None \<and> r_reserved_until ?r = None"
    by (simp add: new_row_def)
  have "rows_of db' = (rows_of db)(t_jobs_seq db \<mapsto> ?r)" "i = t_jobs_seq db" "t_jobs_seq db' = i + 1"
    using inserted(2) ins row_map_append [OF ok] id by (auto simp: rows_of_def)
  then show ?thesis using id by auto
qed (use ins in simp)

lemma insert_job_quiet:
  assumes "insert_job n db = (Inl e, db')"
  shows "rows_of db' = rows_of db \<and> t_jobs_seq db \<le> t_jobs_seq db' \<and> (pg_ok db \<longrightarrow> pg_ok db')"
  by (cases n db rule: insert_job_cases) (use assms pg_ok_seq in \<open>auto simp: rows_of_def\<close>)

lemma retry_tx_insert:
  assumes "retry_tx f m t db = (r, db')"
  obtains (fails) n e where "r = Inl e" "insert_job n db = (Inl e, db')"
  | (requeued) n i db1 where "r = Inr ()" "insert_job n db = (Inr i, db1)" "1 \<le> n_max_attempts n"
      "db' = db1\<lparr>t_failed := filter (\<lambda>g. f_id g \<noteq> f_id f) (t_failed db1)\<rparr>"
proof -
  let ?n = "\<lparr>n_queue = f_queue f, n_name = f_name f, n_payload = f_payload f,
     n_max_attempts = max 1 m, n_priority = 0, n_unique_key = None, n_available_at = t, n_created_at = t\<rparr>"
  obtain x db1 where i: "insert_job ?n db = (x, db1)" by fastforce
  show thesis
    using assms i fails [of _ ?n] requeued [of ?n] by (cases x) (auto simp: retry_tx_def)
qed

text \<open>Every step of the tables is a step of the abstract queue, and keeps the invariant.\<close>

lemma pg_step_refines:
  assumes ok: "pg_ok db" and st: "pg_step db e db'"
  shows "pg_ok db' \<and> spec_step e (rows_of db) (t_jobs_seq db) (rows_of db') (t_jobs_seq db')"
  using st
proof cases
  case (insert n i)
  then show ?thesis using insert_job_spec [OF ok] insert_job_ok [OF ok, of n] by auto
next
  case (insert_fails n x)
  then show ?thesis using insert_job_quiet ok by auto
next
  case (requeue f m t)
  from requeue(2) show ?thesis
  proof (cases rule: retry_tx_insert)
    case (requeued n i db1)
    have "pg_ok db1" using insert_job_ok [OF ok requeued(3)] requeued(2) by simp
    then show ?thesis
      using insert_job_spec [OF ok requeued(2)] requeued(4) requeue(1) pg_ok_forget
      by (auto simp: rows_of_def)
  qed simp
next
  case (requeue_fails f m t x)
  from requeue_fails(2) show ?thesis
    by (cases rule: retry_tx_insert) (use insert_job_quiet ok requeue_fails(1) in auto)
next
  case (take q u w m v r)
  from ok show ?thesis
  proof (cases rule: reserve_tx_cases [of db q u w m v])
    case (claimed s)
    have s: "rows_of db (r_id s) = Some s" using claimed(1) by (simp add: read_job_rows)
    show ?thesis
      using take claimed s claimed_db_ok(1) [OF ok claimed(1,3)] rows_claimed [OF s]
      by (auto simp: claimable_def claim_row_def)
  qed (use take in auto)
next
  case (bury q u w m v i x)
  from ok show ?thesis
  proof (cases rule: reserve_tx_cases [of db q u w m v])
    case (buried s)
    have s: "rows_of db (r_id s) = Some s" using buried(1) by (simp add: read_job_rows)
    have "i = r_id s" using bury(3) buried(4) by simp
    then show ?thesis
      using bury buried s buried_db_ok [OF ok] rows_buried by auto
  qed (use bury in auto)
next
  case (finish j)
  have h: "holds_claim j db" and db': "db' = db\<lparr>t_jobs := filter (\<lambda>s. r_id s \<noteq> j_id j) (t_jobs db)\<rparr>"
    using finish(2) delete_stmt_effect [OF ok, of j] by (auto split: if_splits)
  obtain r where "read_job (j_id j) db = Some r" "r_reserved_by r = Some (j_reserved_by j)" "r_attempts r = j_attempts j"
    using holds_claim_row [OF ok h] by metis
  then show ?thesis
    using finish(1) db' pg_ok_filter [OF ok] by (auto simp: read_job_rows rows_of_def row_map_filter)
next
  case (put_back j a x)
  from ok obtain t where h: "holds_claim j db"
    and db': "db' = db\<lparr>t_jobs := map (\<lambda>s. if r_id s = j_id j then release_row a t s else s) (t_jobs db)\<rparr>"
    by (cases rule: release_stmt_cases [of db j a x]) (use put_back(2) in \<open>auto split: if_splits\<close>)
  obtain r where r: "read_job (j_id j) db = Some r" "r_reserved_by r = Some (j_reserved_by j)" "r_attempts r = j_attempts j"
    using holds_claim_row [OF ok h] by metis
  have m: "row_map (map (\<lambda>s. if r_id s = j_id j then release_row a t s else s) (t_jobs db))
      = (row_map (t_jobs db))(j_id j \<mapsto> release_row a t r)"
    using r by (intro row_map_map) (auto simp: release_row_def read_job_rows rows_of_def)
  have "pg_ok db'" unfolding db'
    by (rule pg_ok_map [OF ok]) (auto simp: row_release_ok release_row_def row_ok_def)
  moreover have "rows_of db' = (rows_of db)(j_id j \<mapsto> release_row a t r)"
    by (simp add: db' rows_of_def m)
  ultimately show ?thesis
    using put_back(1) r db' by (auto simp: read_job_rows)
next
  case (give_up j x n)
  from ok show ?thesis
  proof (cases rule: fail_tx_cases [of db j x n])
    case (moved r t)
    obtain s where "read_job (j_id j) db = Some s" "r_id s = j_id j"
      "r_reserved_by s = Some (j_reserved_by j)" "r_attempts s = j_attempts j"
      using holds_claim_row [OF ok moved(1)] by metis
    then show ?thesis
      using give_up moved buried_db_ok [OF ok] rows_buried
      by (auto simp: read_job_rows)
  qed (use give_up in auto)
next
  case (take_none q u w m v x)
  from ok have "db' = db"
    by (cases rule: reserve_tx_cases [of db q u w m v]) (use take_none(2-) in auto)
  then show ?thesis using ok take_none(1) by simp
next
  case (finish_stale j x)
  then show ?thesis using ok delete_stmt_effect [OF ok, of j] by (cases "holds_claim j db") auto
next
  case (put_back_stale j a y x)
  from ok have "db' = db"
    by (cases rule: release_stmt_cases [of db j a y]) (use put_back_stale(2-) in auto)
  then show ?thesis using ok put_back_stale(1) by simp
next
  case (give_up_stale j y n x)
  from ok have "db' = db"
    by (cases rule: fail_tx_cases [of db j y n]) (use give_up_stale(2-) in auto)
  then show ?thesis using ok give_up_stale(1) by simp
next
  case (forget P)
  then show ?thesis using pg_ok_forget [OF ok] by (simp add: rows_of_def)
qed


section \<open>Histories\<close>

fun token :: "event \<Rightarrow> (int \<times> int) option" where
  "token (Taken i a w m u) = Some (i, a)"
| "token _ = None"

definition tokens :: "event list \<Rightarrow> (int \<times> int) list" where
  "tokens h = List.map_filter token h"

fun settles :: "event \<Rightarrow> int option" where
  "settles (Finished i a w) = Some i"
| "settles (Failed i a w) = Some i"
| "settles (Buried i) = Some i"
| "settles _ = None"

definition settled :: "event list \<Rightarrow> int list" where
  "settled h = List.map_filter settles h"

fun pushes :: "event \<Rightarrow> int option" where
  "pushes (Pushed i) = Some i"
| "pushes _ = None"

definition pushed :: "event list \<Rightarrow> int list" where
  "pushed h = List.map_filter pushes h"

lemma event_list_simps [simp]:
  "tokens [] = []" "settled [] = []" "pushed [] = []"
  "tokens (e # h) = (case token e of None \<Rightarrow> tokens h | Some t \<Rightarrow> t # tokens h)"
  "settled (e # h) = (case settles e of None \<Rightarrow> settled h | Some t \<Rightarrow> t # settled h)"
  "pushed (e # h) = (case pushes e of None \<Rightarrow> pushed h | Some t \<Rightarrow> t # pushed h)"
  by (simp_all add: tokens_def settled_def pushed_def map_filter_simps split: option.split)

lemma tokens_mem: "(i, a) \<in> set (tokens h) \<longleftrightarrow> (\<exists>w m u. Taken i a w m u \<in> set h)"
proof (induction h)
  case (Cons e h)
  then show ?case by (cases e) auto
qed simp

text \<open>
  The bookkeeping of identifiers: a pushed job is in the table or settled, never both, and
  identifiers are never used twice.
\<close>

definition ids_ok :: "event list \<Rightarrow> (int \<Rightarrow> jrow option) \<Rightarrow> int \<Rightarrow> bool" where
  "ids_ok h M s \<longleftrightarrow> (\<forall>i\<in>set (pushed h). i < s) \<and> distinct (pushed h) \<and> distinct (settled h)
     \<and> set (pushed h) = dom M \<union> set (settled h) \<and> dom M \<inter> set (settled h) = {}"

lemma ids_okI:
  "\<lbrakk>\<And>i. i \<in> set (pushed h) \<Longrightarrow> i < s; distinct (pushed h); distinct (settled h);
    set (pushed h) = dom M \<union> set (settled h); dom M \<inter> set (settled h) = {}\<rbrakk> \<Longrightarrow> ids_ok h M s"
  by (simp add: ids_ok_def)

lemma ids_okD:
  assumes "ids_ok h M s"
  shows "i \<in> set (pushed h) \<Longrightarrow> i < s" "distinct (pushed h)" "distinct (settled h)"
    "set (pushed h) = dom M \<union> set (settled h)" "dom M \<inter> set (settled h) = {}"
  using assms by (auto simp: ids_ok_def)

lemma ids_ok_push:
  assumes "ids_ok h M s"
  shows "ids_ok (Pushed s # h) (M(s \<mapsto> r)) (s + 1)"
proof (rule ids_okI)
  have new: "s \<notin> set (pushed h)" using ids_okD(1) [OF assms, of s] by blast
  show "i < s + 1" if "i \<in> set (pushed (Pushed s # h))" for i
    using that ids_okD(1) [OF assms, of i] by auto
  show "distinct (pushed (Pushed s # h))" using new ids_okD(2) [OF assms] by simp
  show "distinct (settled (Pushed s # h))" using ids_okD(3) [OF assms] by simp
  show "set (pushed (Pushed s # h)) = dom (M(s \<mapsto> r)) \<union> set (settled (Pushed s # h))"
    using ids_okD(4) [OF assms] by simp
  show "dom (M(s \<mapsto> r)) \<inter> set (settled (Pushed s # h)) = {}"
    using ids_okD(4,5) [OF assms] new by simp
qed

lemma ids_ok_settle:
  assumes ok: "ids_ok h M s" and e: "settles e = Some i" "pushes e = None" and i: "M i = Some r"
  shows "ids_ok (e # h) (M(i := None)) s"
proof (rule ids_okI)
  have d: "i \<in> dom M" using i by blast
  show "k < s" if "k \<in> set (pushed (e # h))" for k using that e ids_okD(1) [OF ok, of k] by simp
  show "distinct (pushed (e # h))" using e ids_okD(2) [OF ok] by simp
  show "distinct (settled (e # h))" using e d ids_okD(3,5) [OF ok] by auto
  show "set (pushed (e # h)) = dom (M(i := None)) \<union> set (settled (e # h))"
    using e d ids_okD(4) [OF ok] by auto
  show "dom (M(i := None)) \<inter> set (settled (e # h)) = {}" using e ids_okD(5) [OF ok] by auto
qed

lemma ids_ok_other:
  assumes ok: "ids_ok h M s" and e: "settles e = None" "pushes e = None" and d: "dom M' = dom M" "s \<le> s'"
  shows "ids_ok (e # h) M' s'"
proof (rule ids_okI)
  show "k < s'" if "k \<in> set (pushed (e # h))" for k using that e d ids_okD(1) [OF ok, of k] by simp
qed (use e d ids_okD(2-5) [OF ok] in simp_all)

lemma ids_ok_step:
  assumes ok: "ids_ok h M s" and st: "spec_step e M s M' s'"
  shows "ids_ok (e # h) M' s'"
proof (cases e)
  case (Pushed i)
  then show ?thesis using ids_ok_push [OF ok] st by auto
next
  case (Taken i a w m u)
  have "dom M' = dom M" "s' = s" using st Taken by (auto simp: dom_def split: if_splits)
  then show ?thesis using ids_ok_other [OF ok] Taken by simp
next
  case (Released i a)
  have "dom M' = dom M" "s' = s" using st Released by (auto simp: dom_def split: if_splits)
  then show ?thesis using ids_ok_other [OF ok] Released by simp
next
  case (Finished i a w)
  then show ?thesis using ids_ok_settle [OF ok, of e i] st by auto
next
  case (Failed i a w)
  then show ?thesis using ids_ok_settle [OF ok, of e i] st by auto
next
  case (Buried i)
  then show ?thesis using ids_ok_settle [OF ok, of e i] st by auto
next
  case Quiet
  then show ?thesis using ids_ok_other [OF ok] st by simp
qed

text \<open>The bookkeeping of claims, relative to the rows that are still there.\<close>

definition claims_ok :: "event list \<Rightarrow> (int \<Rightarrow> jrow option) \<Rightarrow> bool" where
  "claims_ok h M \<longleftrightarrow>
     (\<forall>i a. (i, a) \<in> set (tokens h) \<longrightarrow> i \<in> set (pushed h))
     \<and> (\<forall>i a r. M i = Some r \<longrightarrow> (i, a) \<in> set (tokens h) \<longrightarrow> a \<le> r_attempts r)
     \<and> (\<forall>i r w. M i = Some r \<longrightarrow> r_reserved_by r = Some w \<longrightarrow>
          (\<exists>m u. Taken i (r_attempts r) w m u \<in> set h))"

lemma claims_okI:
  "\<lbrakk>\<And>i a. (i, a) \<in> set (tokens h) \<Longrightarrow> i \<in> set (pushed h);
    \<And>i a r. \<lbrakk>M i = Some r; (i, a) \<in> set (tokens h)\<rbrakk> \<Longrightarrow> a \<le> r_attempts r;
    \<And>i r w. \<lbrakk>M i = Some r; r_reserved_by r = Some w\<rbrakk> \<Longrightarrow> \<exists>m u. Taken i (r_attempts r) w m u \<in> set h\<rbrakk>
   \<Longrightarrow> claims_ok h M"
  unfolding claims_ok_def by blast

lemma claims_okD:
  assumes "claims_ok h M"
  shows "(i, a) \<in> set (tokens h) \<Longrightarrow> i \<in> set (pushed h)"
    "\<lbrakk>M i = Some r; (i, a) \<in> set (tokens h)\<rbrakk> \<Longrightarrow> a \<le> r_attempts r"
    "\<lbrakk>M i = Some r; r_reserved_by r = Some w\<rbrakk> \<Longrightarrow> \<exists>m u. Taken i (r_attempts r) w m u \<in> set h"
  using assms unfolding claims_ok_def by blast+

lemma claims_ok_mono:
  assumes c: "claims_ok h M" and e: "token e = None"
    and M: "\<And>i r'. M' i = Some r' \<Longrightarrow>
      \<exists>r. M i = Some r \<and> r_attempts r' = r_attempts r \<and> (r_reserved_by r' = None \<or> r_reserved_by r' = r_reserved_by r)"
  shows "claims_ok (e # h) M'"
proof (rule claims_okI)
  fix i a assume t: "(i, a) \<in> set (tokens (e # h))"
  then have "(i, a) \<in> set (tokens h)" using e by simp
  then show "i \<in> set (pushed (e # h))" using claims_okD(1) [OF c] by (cases "pushes e") auto
next
  fix i a r' assume t: "(i, a) \<in> set (tokens (e # h))" and r': "M' i = Some r'"
  obtain r where "M i = Some r" "r_attempts r' = r_attempts r" using M [OF r'] by blast
  then show "a \<le> r_attempts r'" using claims_okD(2) [OF c, of i r a] t e by simp
next
  fix i r' w assume r': "M' i = Some r'" "r_reserved_by r' = Some w"
  obtain r where "M i = Some r" "r_attempts r' = r_attempts r" "r_reserved_by r = Some w"
    using M [OF r'(1)] r'(2) by auto
  then show "\<exists>m u. Taken i (r_attempts r') w m u \<in> set (e # h)"
    using claims_okD(3) [OF c, of i r w] by auto
qed

lemma claims_ok_step:
  assumes i: "ids_ok h M s" and c: "claims_ok h M" and st: "spec_step e M s M' s'"
  shows "claims_ok (e # h) M'"
proof (cases e)
  case (Pushed k)
  then obtain r where r: "k = s" "r_attempts r = 0" "r_reserved_by r = None" "M' = M(k \<mapsto> r)"
    using st by auto
  have new: "(k, a) \<notin> set (tokens h)" for a
    using claims_okD(1) [OF c, of k a] ids_okD(1) [OF i, of k] r(1) by auto
  show ?thesis
  proof (rule claims_okI)
    show "j \<in> set (pushed (e # h))" if "(j, a) \<in> set (tokens (e # h))" for j a
      using that Pushed claims_okD(1) [OF c, of j a] by auto
    show "a \<le> r_attempts x" if "M' j = Some x" "(j, a) \<in> set (tokens (e # h))" for j a x
      using that Pushed new [of a] r claims_okD(2) [OF c, of j x a] by (auto split: if_splits)
    show "\<exists>m u. Taken j (r_attempts x) w m u \<in> set (e # h)"
      if "M' j = Some x" "r_reserved_by x = Some w" for j x w
      using that Pushed r claims_okD(3) [OF c, of j x w] by (auto split: if_splits)
  qed
next
  case (Taken k b w' m' u')
  then obtain r where r: "M k = Some r" "b = r_attempts r + 1"
    "M' = M(k \<mapsto> r\<lparr>r_reserved_until := Some u', r_reserved_by := Some w', r_attempts := b\<rparr>)"
    using st by auto
  have k: "k \<in> set (pushed h)" using ids_okD(4) [OF i] r(1) by blast
  show ?thesis
  proof (rule claims_okI)
    show "j \<in> set (pushed (e # h))" if "(j, a) \<in> set (tokens (e # h))" for j a
      using that Taken k claims_okD(1) [OF c, of j a] by auto
    show "a \<le> r_attempts x" if "M' j = Some x" "(j, a) \<in> set (tokens (e # h))" for j a x
      using that Taken r claims_okD(2) [OF c, of j x a] claims_okD(2) [OF c r(1), of a]
      by (auto split: if_splits)
    show "\<exists>m u. Taken j (r_attempts x) w m u \<in> set (e # h)"
      if "M' j = Some x" "r_reserved_by x = Some w" for j x w
    proof (cases "j = k")
      case True
      then have "Taken j (r_attempts x) w m' u' = e" using that Taken r by auto
      then show ?thesis by (metis list.set_intros(1))
    next
      case False
      then show ?thesis using that Taken r claims_okD(3) [OF c, of j x w] by auto
    qed
  qed
next
  case (Released k a)
  then show ?thesis using st
    by (intro claims_ok_mono [OF c]) (auto simp: release_row_def split: if_splits)
qed (use st in \<open>auto intro!: claims_ok_mono [OF c] split: if_splits\<close>)


text \<open>Leases: a job changes hands only after its claim ran out or was released by its holder.\<close>

definition lease_ok :: "event list \<Rightarrow> (int \<Rightarrow> jrow option) \<Rightarrow> bool" where
  "lease_ok h M \<longleftrightarrow>
     (\<forall>i r w m u. M i = Some r \<longrightarrow> Taken i (r_attempts r) w m u \<in> set h \<longrightarrow>
        r_reserved_until r = Some u \<or> Released i (r_attempts r) \<in> set h)
     \<and> (\<forall>i a w m u w' m' u'. Taken i a w m u \<in> set h \<longrightarrow> Taken i (a + 1) w' m' u' \<in> set h \<longrightarrow>
        u \<le> m' \<or> Released i a \<in> set h)"

lemma lease_okI:
  "\<lbrakk>\<And>i r w m u. \<lbrakk>M i = Some r; Taken i (r_attempts r) w m u \<in> set h\<rbrakk> \<Longrightarrow>
      r_reserved_until r = Some u \<or> Released i (r_attempts r) \<in> set h;
    \<And>i a w m u w' m' u'. \<lbrakk>Taken i a w m u \<in> set h; Taken i (a + 1) w' m' u' \<in> set h\<rbrakk> \<Longrightarrow>
      u \<le> m' \<or> Released i a \<in> set h\<rbrakk> \<Longrightarrow> lease_ok h M"
  unfolding lease_ok_def by blast

lemma lease_okD:
  assumes "lease_ok h M"
  shows "\<lbrakk>M i = Some r; Taken i (r_attempts r) w m u \<in> set h\<rbrakk> \<Longrightarrow>
      r_reserved_until r = Some u \<or> Released i (r_attempts r) \<in> set h"
    "\<lbrakk>Taken i a w m u \<in> set h; Taken i (a + 1) w' m' u' \<in> set h\<rbrakk> \<Longrightarrow> u \<le> m' \<or> Released i a \<in> set h"
  using assms unfolding lease_ok_def by blast+

lemma lease_ok_mono:
  assumes c: "lease_ok h M" and e: "token e = None"
    and M: "\<And>i r'. M' i = Some r' \<Longrightarrow>
      \<exists>r. M i = Some r \<and> r_attempts r' = r_attempts r
        \<and> (r_reserved_until r' = r_reserved_until r \<or> e = Released i (r_attempts r))"
  shows "lease_ok (e # h) M'"
proof (rule lease_okI)
  fix i r' w m u assume r': "M' i = Some r'" and t: "Taken i (r_attempts r') w m u \<in> set (e # h)"
  obtain r where "M i = Some r" "r_attempts r' = r_attempts r"
    "r_reserved_until r' = r_reserved_until r \<or> e = Released i (r_attempts r)" using M [OF r'] by blast
  then show "r_reserved_until r' = Some u \<or> Released i (r_attempts r') \<in> set (e # h)"
    using lease_okD(1) [OF c, of i r w m u] t e by auto
next
  fix i a w m u w' m' u'
  assume "Taken i a w m u \<in> set (e # h)" "Taken i (a + 1) w' m' u' \<in> set (e # h)"
  then show "u \<le> m' \<or> Released i a \<in> set (e # h)"
    using lease_okD(2) [OF c, of i a w m u w' m' u'] e by auto
qed

lemma lease_ok_step:
  assumes i: "ids_ok h M s" and c: "claims_ok h M" and l: "lease_ok h M" and st: "spec_step e M s M' s'"
  shows "lease_ok (e # h) M'"
proof (cases e)
  case (Pushed k)
  then obtain r where r: "k = s" "M' = M(k \<mapsto> r)" using st by auto
  have new: "Taken k a w m u \<notin> set h" for a w m u
    using claims_okD(1) [OF c, of k a] ids_okD(1) [OF i, of k] r(1) tokens_mem [of k a h] by auto
  show ?thesis
  proof (rule lease_okI)
    show "r_reserved_until x = Some u \<or> Released j (r_attempts x) \<in> set (e # h)"
      if "M' j = Some x" "Taken j (r_attempts x) w m u \<in> set (e # h)" for j x w m u
      using that Pushed new r lease_okD(1) [OF l, of j x w m u] by (cases "j = k") auto
    show "u \<le> m' \<or> Released j a \<in> set (e # h)"
      if "Taken j a w m u \<in> set (e # h)" "Taken j (a + 1) w' m' u' \<in> set (e # h)" for j a w m u w' m' u'
      using that Pushed lease_okD(2) [OF l, of j a w m u w' m' u'] by auto
  qed
next
  case (Taken k b w' m' u')
  then obtain r where r: "M k = Some r" "free m' r" "b = r_attempts r + 1"
    "M' = M(k \<mapsto> r\<lparr>r_reserved_until := Some u', r_reserved_by := Some w', r_attempts := b\<rparr>)"
    using st by auto
  have le: "a \<le> r_attempts r" if "Taken k a w m u \<in> set h" for a w m u
    using claims_okD(2) [OF c r(1), of a] that tokens_mem [of k a h] by blast
  show ?thesis
  proof (rule lease_okI)
    show "r_reserved_until x = Some u \<or> Released j (r_attempts x) \<in> set (e # h)"
      if "M' j = Some x" "Taken j (r_attempts x) w m u \<in> set (e # h)" for j x w m u
    proof (cases "j = k")
      case True
      then have "x = r\<lparr>r_reserved_until := Some u', r_reserved_by := Some w', r_attempts := b\<rparr>"
        using that r by simp
      then show ?thesis using that True Taken r(3) le [of b w m u] by auto
    next
      case False
      then show ?thesis using that Taken r lease_okD(1) [OF l, of j x w m u] by auto
    qed
    show "u \<le> m \<or> Released j a \<in> set (e # h)"
      if t: "Taken j a w n u \<in> set (e # h)" "Taken j (a + 1) w'' m u'' \<in> set (e # h)" for j a w n u w'' m u''
    proof (cases "Taken j (a + 1) w'' m u'' = e")
      case True
      then have j: "j = k" "a = r_attempts r" "m = m'" using Taken r(3) by auto
      then have "Taken k (r_attempts r) w n u \<in> set h" using t(1) Taken r(3) by auto
      from lease_okD(1) [OF l r(1) this] show ?thesis using r(2) j by (auto simp: free_def)
    next
      case False
      then have h2: "Taken j (a + 1) w'' m u'' \<in> set h" using t(2) by auto
      have "Taken j a w n u \<noteq> e" using le [of "a + 1" w'' m u''] h2 Taken r(3) by auto
      then have "Taken j a w n u \<in> set h" using t(1) by simp
      then show ?thesis using lease_okD(2) [OF l _ h2, of w n u] by auto
    qed
  qed
next
  case (Released k a)
  then show ?thesis using st
    by (intro lease_ok_mono [OF l]) (auto simp: release_row_def split: if_splits)
qed (use st in \<open>auto intro!: lease_ok_mono [OF l] split: if_splits\<close>)

text \<open>Settling: only the last claimant settles, by its own token.\<close>

definition settle_ok :: "event list \<Rightarrow> bool" where
  "settle_ok h \<longleftrightarrow>
     (\<forall>i a w. Finished i a w \<in> set h \<or> Failed i a w \<in> set h \<longrightarrow>
        i \<in> set (settled h) \<and> (\<exists>m u. Taken i a w m u \<in> set h)
        \<and> (\<forall>b. (i, b) \<in> set (tokens h) \<longrightarrow> b \<le> a))"

lemma settle_okD:
  assumes "settle_ok h" "Finished i a w \<in> set h \<or> Failed i a w \<in> set h"
  shows "i \<in> set (settled h)" "\<exists>m u. Taken i a w m u \<in> set h" "(i, b) \<in> set (tokens h) \<Longrightarrow> b \<le> a"
  using assms unfolding settle_ok_def by blast+

lemma settle_ok_step:
  assumes i: "ids_ok h M s" and c: "claims_ok h M" and l: "settle_ok h" and st: "spec_step e M s M' s'"
  shows "settle_ok (e # h)"
  unfolding settle_ok_def
proof (intro allI impI)
  fix k a w
  assume ev: "Finished k a w \<in> set (e # h) \<or> Failed k a w \<in> set (e # h)"
  show "k \<in> set (settled (e # h)) \<and> (\<exists>m u. Taken k a w m u \<in> set (e # h))
      \<and> (\<forall>b. (k, b) \<in> set (tokens (e # h)) \<longrightarrow> b \<le> a)"
  proof (cases "e = Finished k a w \<or> e = Failed k a w")
    case True
    then obtain r where r: "M k = Some r" "r_attempts r = a" "r_reserved_by r = Some w" using st by auto
    have s: "k \<in> set (settled (e # h))" using True by auto
    have t: "\<exists>m u. Taken k a w m u \<in> set (e # h)" using claims_okD(3) [OF c r(1,3)] r(2) by auto
    have b: "\<forall>b. (k, b) \<in> set (tokens (e # h)) \<longrightarrow> b \<le> a"
      using claims_okD(2) [OF c r(1)] r(2) True by auto
    from s t b show ?thesis by blast
  next
    case False
    then have h: "Finished k a w \<in> set h \<or> Failed k a w \<in> set h" using ev by auto
    have "M k = None" using settle_okD(1) [OF l h] ids_okD(5) [OF i] by blast
    then have "token e \<noteq> Some (k, b)" for b using st by (cases e) auto
    then have tk: "(k, b) \<in> set (tokens (e # h)) \<Longrightarrow> (k, b) \<in> set (tokens h)" for b
      by (cases "token e") auto
    have s: "k \<in> set (settled (e # h))" using settle_okD(1) [OF l h] by (cases "settles e") auto
    have t: "\<exists>m u. Taken k a w m u \<in> set (e # h)" using settle_okD(2) [OF l h] by auto
    from s t show ?thesis using tk settle_okD(3) [OF l h] by blast
  qed
qed

lemma tokens_distinct_step:
  assumes c: "claims_ok h M" and d: "distinct (tokens h)" and st: "spec_step e M s M' s'"
  shows "distinct (tokens (e # h))"
proof (cases e)
  case (Taken k b w' m' u')
  then obtain r where r: "M k = Some r" "b = r_attempts r + 1" using st by auto
  have "(k, b) \<notin> set (tokens h)" using claims_okD(2) [OF c r(1), of b] r(2) by auto
  then show ?thesis using Taken d by simp
qed (use d in auto)

lemma history_invariant:
  "history h db \<Longrightarrow>
     pg_ok db \<and> ids_ok h (rows_of db) (t_jobs_seq db) \<and> claims_ok h (rows_of db)
     \<and> lease_ok h (rows_of db) \<and> settle_ok h \<and> distinct (tokens h)"
proof (induction rule: history.induct)
  case (start db)
  have "rows_of db = (\<lambda>_. None)" using start(2) by (auto simp: rows_of_def row_map_def)
  then show ?case
    using start(1) by (simp add: ids_ok_def claims_ok_def lease_ok_def settle_ok_def)
next
  case (step h db e db')
  have st: "pg_ok db'" "spec_step e (rows_of db) (t_jobs_seq db) (rows_of db') (t_jobs_seq db')"
    using pg_step_refines [OF _ step(2)] step(3) by auto
  from step(3) have pre: "ids_ok h (rows_of db) (t_jobs_seq db)" "claims_ok h (rows_of db)"
    "lease_ok h (rows_of db)" "settle_ok h" "distinct (tokens h)" by auto
  show ?case
    using st(1) ids_ok_step [OF pre(1) st(2)] claims_ok_step [OF pre(1,2) st(2)]
      lease_ok_step [OF pre(1-3) st(2)] settle_ok_step [OF pre(1,2,4) st(2)]
      tokens_distinct_step [OF pre(2,5) st(2)] by (intro conjI)
qed


section \<open>Properties of every history\<close>

text \<open>
  C1. However the sessions interleave, no two claims ever carry the same token: a job and attempt
  number is handed to one worker only. When a job is handed on as the next attempt, the earlier
  claim had run out at the new claimant's time, or its holder had released it.
\<close>

theorem claims_exclusive:
  assumes "history h db"
  shows "distinct (tokens h) \<and>
    (\<forall>i a w m u w' m' u'. Taken i a w m u \<in> set h \<and> Taken i (a + 1) w' m' u' \<in> set h \<longrightarrow>
       u \<le> m' \<or> Released i a \<in> set h)"
  using history_invariant [OF assms] unfolding lease_ok_def by blast

text \<open>
  C2. A job is settled at most once, and only by its last claimant: when a worker finishes or
  fails a job, that worker made the claim it presents, no later claim of the job exists, and the
  identifier never comes back. A worker whose claim was taken over settles nothing.
\<close>

theorem settled_by_last_claimant:
  assumes "history h db" and "Finished i a w \<in> set h \<or> Failed i a w \<in> set h"
  shows "(\<exists>m u. Taken i a w m u \<in> set h) \<and> (\<forall>b w' m u. Taken i b w' m u \<in> set h \<longrightarrow> b \<le> a)
    \<and> distinct (settled h) \<and> rows_of db i = None"
proof -
  from history_invariant [OF assms(1)]
  have inv: "ids_ok h (rows_of db) (t_jobs_seq db)" "settle_ok h" by auto
  have "rows_of db i = None"
    using settle_okD(1) [OF inv(2) assms(2)] ids_okD(5) [OF inv(1)] by blast
  moreover have "b \<le> a" if "Taken i b w' m u \<in> set h" for b w' m u
    using settle_okD(3) [OF inv(2) assms(2), of b] that tokens_mem [of i b h] by blast
  ultimately show ?thesis
    using settle_okD(2) [OF inv(2) assms(2)] ids_okD(3) [OF inv(1)] by blast
qed

text \<open>
  C5. No job is lost and none is in two places: at every moment the identifiers ever pushed are
  exactly those with a row in the jobs table together with those that were finished, failed or
  buried; the two kinds never overlap, and no identifier is given out twice.
\<close>

theorem no_job_lost:
  assumes "history h db"
  shows "set (pushed h) = r_id ` set (t_jobs db) \<union> set (settled h)
    \<and> r_id ` set (t_jobs db) \<inter> set (settled h) = {} \<and> distinct (pushed h)"
proof -
  from history_invariant [OF assms]
  have ok: "pg_ok db" and inv: "ids_ok h (rows_of db) (t_jobs_seq db)" by auto
  have "dom (rows_of db) = r_id ` set (t_jobs db)"
    using read_job_iff [OF ok] unfolding read_job_rows by (auto simp: dom_def)
  then show ?thesis using ids_okD [OF inv] by metis
qed


section \<open>A concrete history\<close>

text \<open>
  A job is pushed, claimed by \<open>a\<close>, whose claim runs out; \<open>b\<close> takes it over; the late finish
  by \<open>a\<close> does nothing; \<open>b\<close> finishes it.
\<close>

definition demo_new :: new_job where
  "demo_new = \<lparr>n_queue = ''default'', n_name = ''mail'', n_payload = [123, 125], n_max_attempts = 3,
     n_priority = 0, n_unique_key = None, n_available_at = 10, n_created_at = 10\<rparr>"

definition demo_row :: "int \<Rightarrow> int option \<Rightarrow> string option \<Rightarrow> jrow" where
  "demo_row attempts until by = \<lparr>r_id = 1, r_queue = ''default'', r_name = ''mail'', r_payload = [123, 125],
     r_attempts = attempts, r_max_attempts = 3, r_priority = 0, r_unique_key = None,
     r_available_at = 10, r_reserved_until = until, r_reserved_by = by, r_last_error = [],
     r_created_at = 10\<rparr>"

definition demo_db :: "int \<Rightarrow> jrow list \<Rightarrow> pgdb" where
  "demo_db s rows = \<lparr>t_jobs = rows, t_failed = [], t_jobs_seq = s, t_failed_seq = 1\<rparr>"

definition demo_visit :: visit where
  "demo_visit = \<lparr>v_now = 0, v_end = 0, v_locked = [], v_down = False, v_others = (\<lambda>db. db)\<rparr>"

definition demo_job :: "int \<Rightarrow> string \<Rightarrow> job" where
  "demo_job attempts by = \<lparr>j_id = 1, j_queue = ''default'', j_name = ''mail'', j_payload = JObj [],
     j_payload_json = [123, 125], j_attempts = attempts, j_max_attempts = 3, j_handle = [],
     j_reserved_by = by, j_release_delay = None\<rparr>"

lemmas demo_defs = demo_new_def demo_row_def demo_db_def demo_visit_def demo_job_def

lemma demo_insert: "insert_job demo_new (demo_db 1 []) = (Inr 1, demo_db 2 [demo_row 0 None None])"
  by (simp add: demo_defs insert_job_def bind_new_def store_new_def bind_str_def bind_text_def
      scalar_def varchar_def int4_def new_row_def)

lemma demo_take_a:
  "reserve_tx ''default'' 400 ''a'' 100 demo_visit (demo_db 2 [demo_row 0 None None])
     = (Inr (Claimed (demo_row 1 (Some 400) (Some ''a''))), demo_db 2 [demo_row 1 (Some 400) (Some ''a'')])"
  by (simp add: demo_defs reserve_tx_def candidate_def claimable_def free_def bind_str_def claim_def
      claim_guard_def claim_row_def int4_def read_job_def)

lemma demo_take_b:
  "reserve_tx ''default'' 900 ''b'' 500 demo_visit (demo_db 2 [demo_row 1 (Some 400) (Some ''a'')])
     = (Inr (Claimed (demo_row 2 (Some 900) (Some ''b''))), demo_db 2 [demo_row 2 (Some 900) (Some ''b'')])"
  by (simp add: demo_defs reserve_tx_def candidate_def claimable_def free_def bind_str_def claim_def
      claim_guard_def claim_row_def int4_def read_job_def)

lemma demo_finish:
  "delete_stmt (demo_job 1 ''a'') (demo_db 2 [demo_row 2 (Some 900) (Some ''b'')])
     = (Inr False, demo_db 2 [demo_row 2 (Some 900) (Some ''b'')])"
  "delete_stmt (demo_job 2 ''b'') (demo_db 2 [demo_row 2 (Some 900) (Some ''b'')])
     = (Inr True, demo_db 2 [])"
  by (simp_all add: demo_defs delete_stmt_def job_guard_def owned_def)

definition demo_history :: "event list" where
  "demo_history = [Finished 1 2 ''b'', Quiet, Taken 1 2 ''b'' 500 900, Taken 1 1 ''a'' 100 400, Pushed 1]"

lemma demo_history: "history demo_history (demo_db 2 [])"
proof -
  have "history [] (demo_db 1 [])" by (rule history.start) (simp_all add: demo_db_def pg_ok_def)
  moreover have "pg_step (demo_db 1 []) (Pushed 1) (demo_db 2 [demo_row 0 None None])"
    by (rule pg_step.insert [OF _ demo_insert]) (simp add: demo_new_def)
  moreover have "pg_step (demo_db 2 [demo_row 0 None None]) (Taken 1 1 ''a'' 100 400)
      (demo_db 2 [demo_row 1 (Some 400) (Some ''a'')])"
    using pg_step.take [OF demo_take_a] by (simp add: demo_row_def)
  moreover have "pg_step (demo_db 2 [demo_row 1 (Some 400) (Some ''a'')]) (Taken 1 2 ''b'' 500 900)
      (demo_db 2 [demo_row 2 (Some 900) (Some ''b'')])"
    using pg_step.take [OF demo_take_b] by (simp add: demo_row_def)
  moreover have "pg_step (demo_db 2 [demo_row 2 (Some 900) (Some ''b'')]) Quiet
      (demo_db 2 [demo_row 2 (Some 900) (Some ''b'')])"
    by (rule pg_step.finish_stale [OF demo_finish(1)]) simp
  moreover have "pg_step (demo_db 2 [demo_row 2 (Some 900) (Some ''b'')]) (Finished 1 2 ''b'') (demo_db 2 [])"
    using pg_step.finish [OF demo_finish(2)] by (simp add: demo_job_def)
  ultimately show ?thesis unfolding demo_history_def by (blast intro: history.step)
qed

theorem claims_exclusive_witness:
  "distinct (tokens demo_history) \<and> length (tokens demo_history) = 2 \<and> (400::int) \<le> 500"
  using claims_exclusive [OF demo_history] unfolding demo_history_def by simp

theorem settled_by_last_claimant_witness:
  "(\<exists>m u. Taken 1 2 ''b'' m u \<in> set demo_history) \<and> distinct (settled demo_history)
   \<and> rows_of (demo_db 2 []) 1 = None"
proof -
  have "Finished 1 2 ''b'' \<in> set demo_history \<or> Failed 1 2 ''b'' \<in> set demo_history"
    by (simp add: demo_history_def)
  from settled_by_last_claimant [OF demo_history this] show ?thesis by blast
qed

theorem no_job_lost_witness:
  "set (pushed demo_history) = {1} \<and> set (settled demo_history) = {1}
   \<and> set (pushed demo_history) = r_id ` set (t_jobs (demo_db 2 [])) \<union> set (settled demo_history)"
  using no_job_lost [OF demo_history] by (simp add: demo_history_def)

end
