(* ===== verification/Queue_Session.thy ===== *)
theory Queue_Session
  imports Queue_Trace
begin

text \<open>
  The operations of \<open>PgQueue\<close> as a session calls them: sequences of visits with other sessions'
  commits in between. A session is well behaved when what the others commit are steps of
  \<open>pg_step\<close>; then every operation is a sequence of steps too, so what holds of every history
  holds whatever operations run.
\<close>

inductive steps :: "pgdb \<Rightarrow> pgdb \<Rightarrow> bool" where
  stay [intro]: "steps db db"
| more: "\<lbrakk>steps db db1; pg_step db1 e db2\<rbrakk> \<Longrightarrow> steps db db2"

lemma steps_append: "steps b c \<Longrightarrow> steps a b \<Longrightarrow> steps a c"
  by (induction rule: steps.induct) (auto intro: steps.more)

lemma steps_one: "pg_step a e b \<Longrightarrow> steps a b"
  by (rule steps.more [OF steps.stay])

lemma steps_ok: "steps a b \<Longrightarrow> pg_ok a \<Longrightarrow> pg_ok b"
  by (induction rule: steps.induct) (auto dest: pg_step_refines)

definition fair :: "pgworld \<Rightarrow> bool" where
  "fair w \<longleftrightarrow> (\<forall>n db. steps db (v_others (snd w n) db))"

text \<open>An operation of the driver: it only takes steps, and leaves the visits to come fair.\<close>

definition sound_op :: "(pgworld \<Rightarrow> 'a \<times> pgworld) \<Rightarrow> bool" where
  "sound_op f \<longleftrightarrow> (\<forall>w. fair w \<longrightarrow> steps (fst w) (fst (snd (f w))) \<and> fair (snd (f w)))"

lemma sound_opD: "\<lbrakk>sound_op f; fair w; f w = (r, w')\<rbrakk> \<Longrightarrow> steps (fst w) (fst w') \<and> fair w'"
  unfolding sound_op_def by (metis snd_conv)

lemma sound_opI: "(\<And>w r w'. \<lbrakk>fair w; f w = (r, w')\<rbrakk> \<Longrightarrow> steps (fst w) (fst w') \<and> fair w') \<Longrightarrow> sound_op f"
  unfolding sound_op_def by (metis prod.collapse)

lemma at_visit_cases:
  assumes "at_visit body w = (r, w')"
  obtains (down) "r = Inl OperationalError" "fst w' = v_others (snd w 0) (fst w)"
      "\<And>n. snd w' n = snd w (Suc n)"
  | (ran) "body (snd w 0) (v_others (snd w 0) (fst w)) = (r, fst w')" "\<And>n. snd w' n = snd w (Suc n)"
  using assms by (auto simp: at_visit_def Let_def split: if_splits prod.splits)

lemma at_visit_sound:
  assumes "\<And>v db r db'. body v db = (r, db') \<Longrightarrow> steps db db'"
  shows "sound_op (at_visit body)"
proof (rule sound_opI)
  fix w r w'
  assume f: "fair w" and a: "at_visit body w = (r, w')"
  have o: "steps (fst w) (v_others (snd w 0) (fst w))" using f by (simp add: fair_def)
  from a show "steps (fst w) (fst w') \<and> fair w'"
  proof (cases rule: at_visit_cases)
    case down
    then show ?thesis using o f by (simp add: fair_def)
  next
    case ran
    then show ?thesis using assms [OF ran(1)] o f steps_append by (auto simp: fair_def)
  qed
qed

lemma sound_pure [intro]: "sound_op (\<lambda>w. (r, w))"
  by (simp add: sound_op_def steps.stay)

text \<open>The bodies.\<close>

lemma insert_job_steps:
  assumes "1 \<le> n_max_attempts n" "insert_job n db = (r, db')"
  shows "steps db db'"
  using assms by (cases r) (auto intro: steps_one pg_step.insert pg_step.insert_fails)

lemma reserve_tx_steps:
  assumes "reserve_tx q u w m v db = (r, db')"
  shows "steps db db'"
proof (cases r)
  case (Inl e)
  then show ?thesis using assms by (auto intro: steps_one pg_step.take_none)
next
  case (Inr x)
  show ?thesis
  proof (cases x)
    case NothingDue
    then show ?thesis using assms Inr by (auto intro: steps_one pg_step.take_none)
  next
    case TryAgain
    then obtain i b where "candidate q m (v_locked v) db = Some (i, b)"
      using assms Inr by (auto simp: reserve_tx_def bind_str_def split: if_splits option.splits)
    then show ?thesis using assms Inr TryAgain by (auto intro: steps_one pg_step.bury)
  next
    case (Claimed y)
    then show ?thesis using assms Inr by (auto intro: steps_one pg_step.take)
  qed
qed

lemma delete_steps: "delete_stmt j db = (r, db') \<Longrightarrow> steps db db'"
  by (cases "r = Inr True") (auto intro: steps_one pg_step.finish pg_step.finish_stale)

lemma release_steps: "release_stmt j a e db = (r, db') \<Longrightarrow> steps db db'"
  by (cases "r = Inr True") (auto intro: steps_one pg_step.put_back pg_step.put_back_stale)

lemma fail_steps: "fail_tx j e n db = (r, db') \<Longrightarrow> steps db db'"
  by (cases "r = Inr True") (auto intro: steps_one pg_step.give_up pg_step.give_up_stale)

lemma retry_steps: "retry_tx f m t db = (r, db') \<Longrightarrow> steps db db'"
  by (cases r) (auto intro: steps_one pg_step.requeue pg_step.requeue_fails)

text \<open>The undecodable payload is moved under the claim's own token, as \<open>fail\<close> would.\<close>

lemma move_owned_steps:
  "move_to_failed i (owned w a) e n db = (r, db') \<Longrightarrow> steps db db'"
  using fail_steps [of "\<lparr>j_id = i, j_queue = [], j_name = [], j_payload = JNull, j_payload_json = [],
      j_attempts = a, j_max_attempts = 0, j_handle = [], j_reserved_by = w, j_release_delay = None\<rparr>" e n db r db']
  by (simp add: fail_tx_def)

section \<open>The operations take steps\<close>

lemma sound_reserve_rounds: "sound_op (reserve_rounds k q t wk)"
proof (induction k)
  case (Suc k)
  show ?case
  proof (rule sound_opI)
    fix w r w'
    assume f: "fair w" and e: "reserve_rounds (Suc k) q t wk w = (r, w')"
    show "steps (fst w) (fst w') \<and> fair w'"
    proof (cases "add_seconds (v_now (snd w 0)) (max 1 t)")
      case (Inl x)
      then show ?thesis using e f by auto
    next
      case (Inr u)
      obtain x w1 where x: "at_visit (reserve_tx q u wk (v_now (snd w 0))) w = (x, w1)" by (rule prod.exhaust)
      have s1: "steps (fst w) (fst w1)" "fair w1"
        using sound_opD [OF at_visit_sound [of "reserve_tx q u wk (v_now (snd w 0))"] f x] reserve_tx_steps
        by blast+
      have rest: "steps (fst w) (fst w') \<and> fair w'"
        if "reserve_rounds k q t wk w2 = (r, w')" "steps (fst w) (fst w2)" "fair w2" for w2
        using sound_opD [OF Suc that(3,1)] that(2) steps_append by blast
      show ?thesis
      proof (cases x)
        case (Inl y)
        then show ?thesis using e Inr x s1 by simp
      next
        case (Inr y)
        note x' = x [unfolded Inr]
        show ?thesis
        proof (cases y)
          case NothingDue
          then show ?thesis using e \<open>add_seconds _ _ = Inr u\<close> x' s1 by simp
        next
          case TryAgain
          then show ?thesis using e \<open>add_seconds _ _ = Inr u\<close> x' s1 rest by simp
        next
          case (Claimed rw)
          show ?thesis
          proof (cases "to_job rw (take 64 wk)")
            case (Some j)
            then show ?thesis using e \<open>add_seconds _ _ = Inr u\<close> x' s1 Claimed by simp
          next
            case None
            let ?b = "\<lambda>v. move_to_failed (r_id rw) (owned (take 64 wk) (r_attempts rw)) BAD_PAYLOAD (v_end v)"
            obtain z w2 where z: "at_visit ?b w1 = (z, w2)" by (rule prod.exhaust)
            have "steps (fst w1) (fst w2)" "fair w2"
              using sound_opD [OF at_visit_sound [of ?b] s1(2) z] move_owned_steps by blast+
            then have s2: "steps (fst w) (fst w2)" "fair w2" using steps_append s1(1) by blast+
            show ?thesis
              using e \<open>add_seconds _ _ = Inr u\<close> x' Claimed None z s2 rest [of w2]
              by (cases z) simp_all
          qed
        qed
      qed
    qed
  qed
qed (simp add: sound_op_def steps.stay)

lemma sound_reserve: "sound_op (reserve qs t wk)"
proof (induction qs)
  case (Cons q qs)
  show ?case
  proof (rule sound_opI)
    fix w r w'
    assume f: "fair w" and e: "reserve (q # qs) t wk w = (r, w')"
    obtain x w1 where x: "reserve_from q t wk w = (x, w1)" by (rule prod.exhaust)
    have s: "steps (fst w) (fst w1)" "fair w1"
      using sound_opD [OF sound_reserve_rounds f x [unfolded reserve_from_def]] by auto
    consider (stop) "w' = w1" | (next') "reserve qs t wk w1 = (r, w')"
      using e x by (auto split: sum.splits option.splits)
    then show "steps (fst w) (fst w') \<and> fair w'"
      using s sound_opD [OF Cons s(2)] steps_append by cases blast+
  qed
qed (simp add: sound_op_def steps.stay)

lemma sound_ignore_stale: "sound_op f \<Longrightarrow> sound_op (\<lambda>w. ignore_stale (f w))"
  unfolding sound_op_def ignore_stale_def by (auto split: prod.splits sum.splits) (metis fst_conv snd_conv)+

lemma sound_delete: "sound_op (delete j)"
proof -
  have "sound_op (\<lambda>w. ignore_stale (at_visit (\<lambda>v. delete_stmt j) w))"
    by (intro sound_ignore_stale at_visit_sound) (rule delete_steps)
  then show ?thesis by (simp add: delete_def [abs_def])
qed

lemma sound_release: "sound_op (release j d e)"
proof (rule sound_opI)
  fix w r w'
  assume f: "fair w" and r: "release j d e w = (r, w')"
  show "steps (fst w) (fst w') \<and> fair w'"
  proof (cases "add_seconds (v_now (snd w 0)) (max 0 d)")
    case (Inl x)
    then show ?thesis using r f by (auto simp: release_def)
  next
    case (Inr a)
    have "sound_op (\<lambda>w. ignore_stale (at_visit (\<lambda>v. release_stmt j a e) w))"
      by (intro sound_ignore_stale at_visit_sound) (rule release_steps)
    from sound_opD [OF this f] show ?thesis using r Inr by (simp add: release_def)
  qed
qed

lemma sound_fail: "sound_op (fail j e)"
proof -
  have "sound_op (\<lambda>w. ignore_stale (at_visit (\<lambda>v. fail_tx j e (v_end v)) w))"
    by (intro sound_ignore_stale at_visit_sound) (rule fail_steps)
  then show ?thesis by (simp add: fail_def [abs_def])
qed

lemma sound_retry_loop: "sound_op (retry_loop fs m k)"
proof (induction fs arbitrary: k)
  case (Cons f fs)
  show ?case
  proof (rule sound_opI)
    fix w r w'
    assume fw: "fair w" and e: "retry_loop (f # fs) m k w = (r, w')"
    obtain x w1 where x: "at_visit (\<lambda>v. retry_tx f m (v_now v)) w = (x, w1)" by (rule prod.exhaust)
    have s: "steps (fst w) (fst w1)" "fair w1"
      using sound_opD [OF at_visit_sound [of "\<lambda>v. retry_tx f m (v_now v)"] fw x] retry_steps by blast+
    show "steps (fst w) (fst w') \<and> fair w'"
      using e x s sound_opD [OF Cons s(2), of "Suc k" r w'] steps_append by (cases x) auto
  qed
qed (simp add: sound_op_def steps.stay)

lemma sound_retry_failed: "sound_op (retry_failed i m)"
proof (rule sound_opI)
  fix w r w'
  assume fw: "fair w" and e: "retry_failed i m w = (r, w')"
  let ?b = "\<lambda>v db. (Inr (sort_key f_id (filter (\<lambda>f. i = None \<or> i = Some (f_id f)) (t_failed db)))
      :: qerror + frow list, db)"
  obtain x w1 where x: "at_visit ?b w = (x, w1)" by (rule prod.exhaust)
  have s: "steps (fst w) (fst w1)" "fair w1"
    using sound_opD [OF at_visit_sound [of ?b] fw x] by (auto intro: steps.stay)
  show "steps (fst w) (fst w') \<and> fair w'"
  proof (cases x)
    case (Inl y)
    then show ?thesis using e x s by (simp add: retry_failed_def)
  next
    case (Inr fs)
    then have "retry_loop fs m 0 w1 = (r, w')" using e x by (simp add: retry_failed_def)
    from sound_opD [OF sound_retry_loop s(2) this] show ?thesis using s(1) steps_append by blast
  qed
qed

lemma forget_all_steps: "steps db (db\<lparr>t_failed := []\<rparr>)"
  using pg_step.forget [of db "\<lambda>_. False"] by (auto intro: steps_one)

lemma sound_forget_failed: "sound_op (forget_failed ts i b)"
  unfolding forget_failed_def [abs_def]
  by (rule at_visit_sound)
    (auto simp: Let_def split: option.splits intro: steps.stay steps_one pg_step.forget forget_all_steps)

lemma sound_id_for_unique: "sound_op (at_visit (id_for_unique k))"
  by (rule at_visit_sound) (auto simp: id_for_unique_def split: sum.splits intro: steps.stay)

lemma sound_push_insert:
  assumes n: "1 \<le> n_max_attempts n"
  shows "sound_op (push_insert tx n)"
proof (rule sound_opI)
  fix w r w'
  assume fw: "fair w" and e: "push_insert tx n w = (r, w')"
  obtain x w1 where x: "at_visit (\<lambda>v. insert_job n) w = (x, w1)" by (rule prod.exhaust)
  have s: "steps (fst w) (fst w1)" "fair w1"
    using sound_opD [OF at_visit_sound [of "\<lambda>v. insert_job n"] fw x] insert_job_steps [OF n] by blast+
  show "steps (fst w) (fst w') \<and> fair w'"
  proof (cases "x = Inl UniqueViolation \<and> n_unique_key n \<noteq> None")
    case False
    then have "w' = w1" using e x by (auto simp: push_insert_def split: sum.splits qerror.splits)
    then show ?thesis using s by simp
  next
    case True
    then obtain k where k: "n_unique_key n = Some k" by auto
    let ?b = "\<lambda>v db. if tx then (Inl InFailedTransaction, db) else id_for_unique k v db"
    obtain y w2 where y: "at_visit ?b w1 = (y, w2)" by (rule prod.exhaust)
    have b: "sound_op (at_visit ?b)"
      by (rule at_visit_sound) (auto simp: id_for_unique_def split: sum.splits if_splits intro: steps.stay)
    have "w' = w2" using e x y k True by (auto simp: push_insert_def split: sum.splits option.splits)
    then show ?thesis using sound_opD [OF b s(2) y] s(1) steps_append by blast
  qed
qed

lemma push_row_max: "push_row m n p d q pr k ma = Inr row \<Longrightarrow> 1 \<le> n_max_attempts row"
  by (auto simp: push_row_def split: sum.splits)

lemma sound_push: "sound_op (push tx n p d q pr u m)"
proof (rule sound_opI)
  fix w r w'
  assume fw: "fair w" and e: "push tx n p d q pr u m w = (r, w')"
  let ?row = "push_row (v_now (snd w 0)) n (JObj (case p of None \<Rightarrow> [] | Some p \<Rightarrow> p)) d q pr
    (if u = Some [] then None else u) m"
  let ?ins = "\<lambda>w1. case ?row of Inl e \<Rightarrow> (Inl e, w1) | Inr n \<Rightarrow> push_insert tx n w1"
  have ins: "steps (fst a) (fst b) \<and> fair b" if "?ins a = (c, b)" "fair a" for a b c
  proof (cases ?row)
    case (Inl x)
    then show ?thesis using that by auto
  next
    case (Inr row)
    then show ?thesis
      using sound_opD [OF sound_push_insert [OF push_row_max [OF Inr]] that(2)] that(1) by simp
  qed
  show "steps (fst w) (fst w') \<and> fair w'"
  proof (cases "u = Some [] \<or> u = None")
    case True
    then have "?ins w = (r, w')" using e by (auto simp: push_def Let_def)
    then show ?thesis by (rule ins [OF _ fw])
  next
    case False
    then obtain k where k: "u = Some k" "k \<noteq> []" by (cases u) auto
    obtain x w1 where x: "at_visit (id_for_unique k) w = (x, w1)" by (rule prod.exhaust)
    have s: "steps (fst w) (fst w1)" "fair w1" using sound_opD [OF sound_id_for_unique fw x] by auto
    consider "w' = w1" | "?ins w1 = (r, w')"
      using e x k by (auto simp: push_def Let_def split: sum.splits option.splits)
    then show ?thesis using s ins [OF _ s(2)] steps_append by cases blast+
  qed
qed


section \<open>What reserve returns\<close>

text \<open>
  The claim of a job of queue \<open>q\<close> at one visit, in the tables as the visit found them: the row was
  due, nobody held it, attempts were left, and no other row that the visit could have claimed came
  before it; the tables afterwards are those with this row claimed.
\<close>

definition claimed_at :: "string \<Rightarrow> int \<Rightarrow> string \<Rightarrow> job \<Rightarrow> visit \<Rightarrow> pgdb \<Rightarrow> jrow \<Rightarrow> pgdb \<Rightarrow> bool" where
  "claimed_at q t wk j v db r db' \<longleftrightarrow>
     pg_ok db \<and> read_job (r_id r) db = Some r \<and> claimable q (v_now v) (v_locked v) r
     \<and> r_attempts r < r_max_attempts r
     \<and> (\<forall>s\<in>set (t_jobs db). claimable q (v_now v) (v_locked v) s \<longrightarrow> job_order r \<le> job_order s)
     \<and> db' = claimed_db (r_id r) (v_now v + max 1 t * 1000000) wk db
     \<and> to_job (claim_row (v_now v + max 1 t * 1000000) wk r) (take 64 wk) = Some j"

text \<open>
  A row that stands throughout a call: it is there when the call begins, no other session touches it, it
  has attempts left and its payload decodes, so that a round that claims it hands it out.
\<close>

definition decodes :: "jrow \<Rightarrow> bool" where
  "decodes r \<longleftrightarrow> (\<exists>p. loads (r_payload r) = Some (JObj p))"

definition standing :: "jrow \<Rightarrow> pgworld \<Rightarrow> bool" where
  "standing s w \<longleftrightarrow> s \<in> set (t_jobs (fst w)) \<and> r_attempts s < r_max_attempts s \<and> decodes s
     \<and> (\<forall>n db. s \<in> set (t_jobs db) \<longrightarrow> s \<in> set (t_jobs (v_others (snd w n) db)))"

lemma standing_later:
  "standing s w \<Longrightarrow> (\<And>n. snd w' n = snd w (n + k)) \<Longrightarrow> s \<in> set (t_jobs (fst w')) \<Longrightarrow> standing s w'"
  by (simp add: standing_def)

lemma to_job_decodes: "to_job r w = None \<longleftrightarrow> \<not> decodes r"
  by (auto simp: to_job_def decodes_def split: option.splits json.splits)

lemma decodes_claim [simp]: "decodes (claim_row u w r) = decodes r"
  by (simp add: decodes_def claim_row_def)

lemma claimed_at_from:
  assumes ok: "pg_ok db" and c: "reserve_tx q u wk (v_now v) v db = (Inr (Claimed rw), db')"
    and u: "add_seconds (v_now v) (max 1 t) = Inr u" and j: "to_job rw (take 64 wk) = Some j"
  shows "\<exists>r. claimed_at q t wk j v db r db'"
proof -
  have u': "u = v_now v + max 1 t * 1000000" using u by (simp add: add_seconds_def split: if_splits)
  from ok show ?thesis
  proof (cases rule: reserve_tx_cases [of db q u wk "v_now v" v])
    case (claimed r)
    then show ?thesis unfolding claimed_at_def using ok c j u' by (intro exI [of _ r]) auto
  qed (use c in auto)
qed

text \<open>A round that goes on leaves the rows that stand.\<close>

lemma bury_keeps:
  assumes "pg_ok db" "reserve_tx q u wk m v db = (Inr TryAgain, db')" "s \<in> set (t_jobs db)" "r_attempts s < r_max_attempts s"
  shows "s \<in> set (t_jobs db')"
  using assms(1)
proof (cases rule: reserve_tx_cases [of db q u wk m v])
  case (buried r)
  then have "r_id s \<noteq> r_id r" using assms(3,4) read_job_iff [OF assms(1)] find_row [OF assms(1)] by fastforce
  then show ?thesis using buried assms(2,3) by (auto simp: buried_db_def)
qed (use assms in auto)

lemma bad_claim_keeps:
  assumes ok: "pg_ok db" and c: "reserve_tx q u wk m v db = (Inr (Claimed rw), db')" and bad: "to_job rw w1 = None"
    and s: "s \<in> set (t_jobs db)" "decodes s"
  shows "s \<in> set (t_jobs db') \<and> r_id s \<noteq> r_id rw"
  using ok
proof (cases rule: reserve_tx_cases [of db q u wk m v])
  case (claimed r)
  then have rw: "rw = claim_row u wk r" "db' = claimed_db (r_id r) u wk db" using c by auto
  have "\<not> decodes r" using bad rw to_job_decodes by simp
  then have "r_id s \<noteq> r_id r" using s claimed(1) read_job_iff [OF ok] find_row [OF ok] by blast
  then show ?thesis using s rw by (auto simp: claimed_db_def claim_row_def intro: rev_image_eqI)
qed (use c in auto)

lemma move_other_keeps: "move_to_failed i g e n db = (r, db') \<Longrightarrow> s \<in> set (t_jobs db) \<Longrightarrow> r_id s \<noteq> i \<Longrightarrow> s \<in> set (t_jobs db')"
  by (auto simp: move_to_failed_def split: option.splits sum.splits)

text \<open>A call that hands a job out claims it at one of its visits, with the rows that stand in the tables.\<close>

definition claims_within :: "string \<Rightarrow> int \<Rightarrow> string \<Rightarrow> job \<Rightarrow> pgworld \<Rightarrow> pgdb \<Rightarrow> bool" where
  "claims_within q t wk j w db' \<longleftrightarrow>
     (\<exists>n db r. claimed_at q t wk j (snd w n) db r db' \<and> (\<forall>s. standing s w \<longrightarrow> s \<in> set (t_jobs db)))"

lemma claims_within_later:
  assumes "claims_within q t wk j w1 db'" "\<And>n. snd w1 n = snd w (n + k)" "\<And>s. standing s w \<Longrightarrow> s \<in> set (t_jobs (fst w1))"
  shows "claims_within q t wk j w db'"
proof -
  from assms(1) obtain n db r where c: "claimed_at q t wk j (snd w1 n) db r db'" "\<forall>s. standing s w1 \<longrightarrow> s \<in> set (t_jobs db)"
    unfolding claims_within_def by blast
  have "\<forall>s. standing s w \<longrightarrow> s \<in> set (t_jobs db)" using c(2) standing_later [OF _ assms(2)] assms(3) by blast
  with c(1) show ?thesis unfolding claims_within_def assms(2) by blast
qed

text \<open>One round: it ends the search, goes on at a later visit, or claims.\<close>

lemma reserve_round:
  assumes ok: "pg_ok (fst w)" and f: "fair w" and e: "reserve_rounds (Suc k) q t wk w = (Inr x, w')"
  obtains (ends) l where "x = None" "\<And>n. snd w' n = snd w (n + l)" "\<And>s. standing s w \<Longrightarrow> s \<in> set (t_jobs (fst w'))"
  | (goes_on) w2 l where "reserve_rounds k q t wk w2 = (Inr x, w')" "pg_ok (fst w2)" "fair w2" "\<And>n. snd w2 n = snd w (n + l)"
      "\<And>s. standing s w \<Longrightarrow> s \<in> set (t_jobs (fst w2))"
  | (claims) j where "x = Some j" "claims_within q t wk j w (fst w')"
proof -
  let ?v = "snd w 0" and ?db = "v_others (snd w 0) (fst w)"
  have oth: "pg_ok ?db" using f ok steps_ok by (auto simp: fair_def)
  have here: "s \<in> set (t_jobs ?db)" if "standing s w" for s using that by (auto simp: standing_def)
  obtain u where u: "add_seconds (v_now ?v) (max 1 t) = Inr u"
    using e by (cases "add_seconds (v_now ?v) (max 1 t)") auto
  obtain z w1 where z: "at_visit (reserve_tx q u wk (v_now ?v)) w = (z, w1)" by (rule prod.exhaust)
  have "steps (fst w) (fst w1)" and f1: "fair w1"
    using sound_opD [OF at_visit_sound [of "reserve_tx q u wk (v_now ?v)"] f z] reserve_tx_steps by blast+
  then have ok1: "pg_ok (fst w1)" using ok steps_ok by blast
  have n1: "snd w1 n = snd w (n + 1)" for n using z by (auto elim: at_visit_cases)
  obtain y where y: "z = Inr y" using e u z by (cases z) auto
  have body: "reserve_tx q u wk (v_now ?v) ?v ?db = (Inr y, fst w1)"
    using z y by (auto simp: at_visit_def Let_def split: if_splits prod.splits)
  show thesis
  proof (cases y)
    case NothingDue
    then have "x = None" "w' = w1" "fst w1 = ?db" using e u z y body oth by (auto elim: reserve_tx_cases [of ?db q u wk "v_now ?v" ?v])
    then show thesis using ends [of 1] n1 here by simp
  next
    case TryAgain
    then have "reserve_rounds k q t wk w1 = (Inr x, w')" using e u z y by simp
    then show thesis
      by (rule goes_on [OF _ ok1 f1 n1]) (use bury_keeps [OF oth body [unfolded TryAgain]] here in \<open>auto simp: standing_def\<close>)
  next
    case (Claimed rw)
    show thesis
    proof (cases "to_job rw (take 64 wk)")
      case (Some j)
      then have "x = Some j" "w' = w1" using e u z y Claimed by auto
      then show thesis
        using claims claimed_at_from [OF oth body [unfolded Claimed] u] Some here unfolding claims_within_def by blast
    next
      case None
      let ?b = "\<lambda>v. move_to_failed (r_id rw) (owned (take 64 wk) (r_attempts rw)) BAD_PAYLOAD (v_end v)"
      obtain b w2 where b: "at_visit ?b w1 = (b, w2)" by (rule prod.exhaust)
      have s: "steps (fst w1) (fst w2)" "fair w2"
        using sound_opD [OF at_visit_sound [of ?b] f1 b] move_owned_steps by blast+
      have n2: "snd w2 n = snd w (n + 2)" for n using b n1 [of "Suc n"] by (auto elim: at_visit_cases)
      have "reserve_rounds k q t wk w2 = (Inr x, w')" using e u z y Claimed None b by (auto split: sum.splits)
      then show thesis
      proof (rule goes_on [OF _ steps_ok [OF s(1) ok1] s(2) n2])
        fix s assume st: "standing s w"
        have k1: "s \<in> set (t_jobs (fst w1))" "r_id s \<noteq> r_id rw"
          using bad_claim_keeps [OF oth body [unfolded Claimed] None here [OF st]] st by (auto simp: standing_def)
        have "s \<in> set (t_jobs (v_others (snd w1 0) (fst w1)))" using k1(1) st n1 [of 0] by (simp add: standing_def)
        then show "s \<in> set (t_jobs (fst w2))" using b k1(2) by (auto elim!: at_visit_cases intro: move_other_keeps)
      qed
    qed
  qed
qed

lemma reserve_rounds_claims:
  "\<lbrakk>pg_ok (fst w); fair w; reserve_rounds k q t wk w = (Inr (Some j), w')\<rbrakk> \<Longrightarrow> claims_within q t wk j w (fst w')"
proof (induction k arbitrary: w)
  case (Suc k)
  from Suc.prems show ?case
    by (cases rule: reserve_round) (auto intro: claims_within_later [OF Suc.IH])
qed simp

lemma reserve_rounds_keeps:
  "\<lbrakk>pg_ok (fst w); fair w; reserve_rounds k q t wk w = (Inr None, w')\<rbrakk> \<Longrightarrow>
     \<exists>l. (\<forall>n. snd w' n = snd w (n + l)) \<and> (\<forall>s. standing s w \<longrightarrow> s \<in> set (t_jobs (fst w')))"
proof (induction k arbitrary: w)
  case 0
  then show ?case by (auto simp: standing_def intro: exI [of _ 0])
next
  case (Suc k)
  from Suc.prems show ?case
  proof (cases rule: reserve_round)
    case (ends l)
    then show ?thesis by blast
  next
    case (goes_on w2 l)
    from Suc.IH [OF goes_on(2,3,1)] obtain l' where l': "\<forall>n. snd w' n = snd w2 (n + l')"
      and k: "\<forall>s. standing s w2 \<longrightarrow> s \<in> set (t_jobs (fst w'))" by blast
    have "\<forall>n. snd w' n = snd w (n + (l' + l))" using l' goes_on(4) by (simp add: add.assoc)
    moreover have "\<forall>s. standing s w \<longrightarrow> s \<in> set (t_jobs (fst w'))" using k standing_later [OF _ goes_on(4)] goes_on(5) by blast
    ultimately show ?thesis by blast
  qed simp
qed

lemma reserve_claims_from:
  "\<lbrakk>pg_ok (fst w); fair w; reserve qs t wk w = (Inr (Some j), w')\<rbrakk> \<Longrightarrow>
     \<exists>q\<in>set qs. claims_within q t wk j w (fst w')"
proof (induction qs arbitrary: w)
  case (Cons q qs)
  obtain x w1 where x: "reserve_from q t wk w = (x, w1)" by (rule prod.exhaust)
  have s: "steps (fst w) (fst w1)" "fair w1"
    using sound_opD [OF sound_reserve_rounds Cons.prems(2) x [unfolded reserve_from_def]] by auto
  consider (here) "x = Inr (Some j)" "w' = w1" | (later) "x = Inr None" "reserve qs t wk w1 = (Inr (Some j), w')"
    using Cons.prems(3) x by (auto split: sum.splits option.splits)
  then show ?case
  proof cases
    case here
    then show ?thesis using reserve_rounds_claims [OF Cons.prems(1,2)] x by (auto simp: reserve_from_def)
  next
    case later
    obtain q1 where q1: "q1 \<in> set qs" "claims_within q1 t wk j w1 (fst w')"
      using Cons.IH [OF steps_ok [OF s(1) Cons.prems(1)] s(2) later(2)] by blast
    obtain l where "\<forall>n. snd w1 n = snd w (n + l)" "\<forall>s. standing s w \<longrightarrow> s \<in> set (t_jobs (fst w1))"
      using reserve_rounds_keeps [OF Cons.prems(1,2)] x later(1) unfolding reserve_from_def by blast
    then have "claims_within q1 t wk j w (fst w')" using claims_within_later [OF q1(2), of w l] by blast
    then show ?thesis using q1(1) by auto
  qed
qed simp

lemma to_job_fields:
  assumes "to_job r w = Some j"
  shows "j_id j = r_id r" "j_queue j = r_queue r" "j_name j = r_name r" "j_attempts j = r_attempts r"
    "j_max_attempts j = r_max_attempts r" "j_payload_json j = r_payload r" "j_reserved_by j = w"
    "loads (r_payload r) = Some (j_payload j)" "j_release_delay j = None"
  using assms by (auto simp: to_job_def split: option.splits json.splits)

text \<open>
  C21. What \<open>reserve\<close> hands out, whatever the other sessions do: a job of one of the asked queues,
  with its payload decoded, counted as an attempt within its budget, and held under the worker's
  name, from the moment \<open>m\<close> of one of the call's visits for the time asked for, when the call returns.
  It was due at \<open>m\<close>. If the row was there all along and no other session touched it, then nobody held it at
  \<open>m\<close>, and it is now that row, claimed. And it is the first of its queue by priority, due time and
  identifier: a job that was there all along, untouched by others, not locked by them at any visit, due and
  unheld at \<open>m\<close>, with attempts left and a payload that decodes, does not come before it.
\<close>

theorem reserve_hands_out:
  assumes "pg_ok (fst w)" "fair w" "reserve qs t wk w = (Inr (Some j), w')"
  shows "j_queue j \<in> set qs \<and> holds_claim j (fst w') \<and> 1 \<le> j_attempts j \<and> j_attempts j \<le> j_max_attempts j \<and> pg_ok (fst w')
    \<and> j_reserved_by j = take 64 wk \<and> loads (j_payload_json j) = Some (j_payload j)
    \<and> (\<exists>row n m. read_job (j_id j) (fst w') = Some row \<and> m = v_now (snd w n)
        \<and> r_reserved_until row = Some (m + max 1 t * 1000000) \<and> r_available_at row \<le> m
        \<and> (\<forall>s. standing s w \<and> r_id s = j_id j \<longrightarrow> free m s \<and> row = claim_row (m + max 1 t * 1000000) wk s)
        \<and> (\<forall>s. standing s w \<and> r_queue s = j_queue j \<and> r_available_at s \<le> m \<and> free m s \<and> (\<forall>n. r_id s \<notin> set (v_locked (snd w n)))
             \<longrightarrow> job_order row \<le> job_order s))"
proof -
  obtain q where q: "q \<in> set qs" "claims_within q t wk j w (fst w')"
    using reserve_claims_from [OF assms] by blast
  then obtain n db r where c: "claimed_at q t wk j (snd w n) db r (fst w')" and st: "\<forall>s. standing s w \<longrightarrow> s \<in> set (t_jobs db)"
    unfolding claims_within_def by blast
  define m where "m = v_now (snd w n)"
  from c have h: "pg_ok db" "read_job (r_id r) db = Some r" "claimable q m (v_locked (snd w n)) r" "r_attempts r < r_max_attempts r"
    "\<forall>s\<in>set (t_jobs db). claimable q m (v_locked (snd w n)) s \<longrightarrow> job_order r \<le> job_order s"
    "fst w' = claimed_db (r_id r) (m + max 1 t * 1000000) wk db"
    "to_job (claim_row (m + max 1 t * 1000000) wk r) (take 64 wk) = Some j"
    unfolding claimed_at_def m_def by auto
  let ?row = "claim_row (m + max 1 t * 1000000) wk r"
  note j = to_job_fields [OF h(7)]
  have jq: "j_queue j = q" using j h(3) by (simp add: claimable_def)
  have r: "r \<in> set (t_jobs db)" "row_ok r" using h(1,2) read_job_iff [OF h(1)] by (auto simp: pg_ok_def list_all_iff)
  have row: "read_job (j_id j) (fst w') = Some ?row" using claimed_db_ok(2) [OF h(1,2,4)] j h(6) by simp
  have "s = r" if "standing s w" "r_id s = j_id j" for s
    using st that find_row [OF h(1) _ r(1)] j by auto
  then have same: "\<forall>s. standing s w \<and> r_id s = j_id j \<longrightarrow> free m s \<and> ?row = claim_row (m + max 1 t * 1000000) wk s"
    using h(3) by (auto simp: claimable_def)
  have first: "\<forall>s. standing s w \<and> r_queue s = j_queue j \<and> r_available_at s \<le> m \<and> free m s \<and> (\<forall>n. r_id s \<notin> set (v_locked (snd w n)))
      \<longrightarrow> job_order ?row \<le> job_order s"
  proof -
    have "job_order ?row = job_order r" by (simp add: job_order_def claim_row_def)
    then show ?thesis using st h(5) jq unfolding claimable_def by simp
  qed
  have last: "\<exists>row n m. read_job (j_id j) (fst w') = Some row \<and> m = v_now (snd w n)
        \<and> r_reserved_until row = Some (m + max 1 t * 1000000) \<and> r_available_at row \<le> m
        \<and> (\<forall>s. standing s w \<and> r_id s = j_id j \<longrightarrow> free m s \<and> row = claim_row (m + max 1 t * 1000000) wk s)
        \<and> (\<forall>s. standing s w \<and> r_queue s = j_queue j \<and> r_available_at s \<le> m \<and> free m s \<and> (\<forall>n. r_id s \<notin> set (v_locked (snd w n)))
             \<longrightarrow> job_order row \<le> job_order s)"
    using row same first h(3) by (intro exI [of _ ?row] exI [of _ n] exI [of _ m]) (auto simp: m_def claim_row_def claimable_def)
  show ?thesis
    using q(1) jq h(4) j r(2) row claimed_db_ok(1) [OF h(1,2,4)] h(6) last
    by (intro conjI) (auto simp: holds_claim_def owned_def row_ok_def)
qed


definition calm :: "int \<Rightarrow> visit" where
  "calm now = \<lparr>v_now = now, v_end = now, v_locked = [], v_down = False, v_others = (\<lambda>db. db)\<rparr>"

lemma calm_simps [simp]:
  "v_now (calm n) = n" "v_end (calm n) = n" "v_locked (calm n) = []" "\<not> v_down (calm n)"
  "v_others (calm n) = (\<lambda>db. db)"
  by (simp_all add: calm_def)

lemma fair_calm [simp]: "fair (db, \<lambda>n. calm (c n))"
  by (simp add: fair_def steps.stay)

lemma loads_empty_object: "loads [123, 125] = Some (JObj [])"
  using loads_dumps [of "JObj []" "[123, 125]"] by simp

lemma first_round: "reserve_from q t wk w = (let moment = v_now (snd w 0)
      in case add_seconds moment (max 1 t) of
           Inl e \<Rightarrow> (Inl e, w)
         | Inr until \<Rightarrow>
             (case at_visit (reserve_tx q until wk moment) w of
                (Inl e, w1) \<Rightarrow> (Inl e, w1)
              | (Inr NothingDue, w1) \<Rightarrow> (Inr None, w1)
              | (Inr TryAgain, w1) \<Rightarrow> reserve_rounds 4 q t wk w1
              | (Inr (Claimed r), w1) \<Rightarrow>
                  (case to_job r (take 64 wk) of
                     Some j \<Rightarrow> (Inr (Some j), w1)
                   | None \<Rightarrow>
                       (case at_visit (\<lambda>v. move_to_failed (r_id r) (owned (take 64 wk) (r_attempts r))
                                            BAD_PAYLOAD (v_end v)) w1 of
                          (Inl e, w2) \<Rightarrow> (Inl e, w2)
                        | (Inr _, w2) \<Rightarrow> reserve_rounds 4 q t wk w2))))"
proof -
  have rounds: "CLAIM_ROUNDS = Suc 4" by (simp add: CLAIM_ROUNDS_def)
  show ?thesis unfolding reserve_from_def rounds by (rule reserve_rounds.simps(2))
qed

lemma demo_claim:
  "reserve_tx ''default'' 1000100 ''a'' 100 (calm 100) (demo_db 2 [demo_row 0 None None])
     = (Inr (Claimed (demo_row 1 (Some 1000100) (Some ''a''))),
        demo_db 2 [demo_row 1 (Some 1000100) (Some ''a'')])"
  by (simp add: demo_defs reserve_tx_def candidate_def claimable_def free_def bind_str_def claim_def
      claim_guard_def claim_row_def int4_def read_job_def)

lemma demo_reserve:
  "reserve [''default''] 1 ''a'' (demo_db 2 [demo_row 0 None None], \<lambda>_. calm 100)
     = (Inr (Some (demo_job 1 ''a'')), (demo_db 2 [demo_row 1 (Some 1000100) (Some ''a'')], \<lambda>_. calm 100))"
proof -
  have "to_job (demo_row 1 (Some 1000100) (Some ''a'')) ''a'' = Some (demo_job 1 ''a'')"
    by (simp add: to_job_def loads_empty_object demo_row_def demo_job_def)
  then show ?thesis
    unfolding reserve.simps first_round
    by (simp add: add_seconds_def max_datetime_def at_visit_def demo_claim)
qed

lemma demo_pg_ok: "pg_ok (demo_db 2 [demo_row 0 None None])"
  by (simp add: demo_defs pg_ok_def row_ok_def int4_def)

text \<open>Two jobs wait; the one with the higher priority is handed out, and no row that stands comes before it.\<close>

definition demo_urgent :: "int \<Rightarrow> int option \<Rightarrow> string option \<Rightarrow> jrow" where
  "demo_urgent a u w = (demo_row a u w)\<lparr>r_id := 2, r_priority := 5\<rparr>"

lemma demo_claim_urgent:
  "reserve_tx ''default'' 1000100 ''a'' 100 (calm 100) (demo_db 3 [demo_row 0 None None, demo_urgent 0 None None])
     = (Inr (Claimed (demo_urgent 1 (Some 1000100) (Some ''a''))),
        demo_db 3 [demo_row 0 None None, demo_urgent 1 (Some 1000100) (Some ''a'')])"
  by (simp add: demo_defs demo_urgent_def reserve_tx_def candidate_def claimable_def free_def bind_str_def claim_def
      claim_guard_def claim_row_def int4_def read_job_def job_order_def)

lemma demo_reserve_urgent:
  "reserve [''default''] 1 ''a'' (demo_db 3 [demo_row 0 None None, demo_urgent 0 None None], \<lambda>_. calm 100)
     = (Inr (Some ((demo_job 1 ''a'')\<lparr>j_id := 2\<rparr>)),
        (demo_db 3 [demo_row 0 None None, demo_urgent 1 (Some 1000100) (Some ''a'')], \<lambda>_. calm 100))"
proof -
  have "to_job (demo_urgent 1 (Some 1000100) (Some ''a'')) ''a'' = Some ((demo_job 1 ''a'')\<lparr>j_id := 2\<rparr>)"
    by (simp add: to_job_def loads_empty_object demo_row_def demo_job_def demo_urgent_def)
  then show ?thesis
    unfolding reserve.simps first_round
    by (simp add: add_seconds_def max_datetime_def at_visit_def demo_claim_urgent)
qed

theorem reserve_hands_out_witness:
  "holds_claim ((demo_job 1 ''a'')\<lparr>j_id := 2\<rparr>) (demo_db 3 [demo_row 0 None None, demo_urgent 1 (Some 1000100) (Some ''a'')])
   \<and> standing (demo_row 0 None None) (demo_db 3 [demo_row 0 None None, demo_urgent 0 None None], \<lambda>_. calm 100)
   \<and> job_order (demo_urgent 1 (Some 1000100) (Some ''a'')) \<le> job_order (demo_row 0 None None)"
proof -
  let ?w = "(demo_db 3 [demo_row 0 None None, demo_urgent 0 None None], \<lambda>_::nat. calm 100)"
  have st: "standing (demo_row 0 None None) ?w"
    by (simp add: standing_def demo_defs decodes_def loads_empty_object)
  have ok: "pg_ok (fst ?w)" by (simp add: demo_defs demo_urgent_def pg_ok_def row_ok_def int4_def)
  from reserve_hands_out [OF ok _ demo_reserve_urgent] st show ?thesis
    by (auto simp: demo_defs demo_urgent_def read_job_def free_def demo_job_def)
qed


section \<open>Push\<close>

lemma insert_key:
  assumes "insert_job n db = (Inr i, db')" "n_unique_key n = Some k" "length k \<le> 190"
  shows "\<exists>r\<in>set (t_jobs db'). r_id r = i \<and> r_unique_key r = Some k"
proof (cases n db rule: insert_job_cases)
  case (inserted m)
  have "n_unique_key m = Some k"
    using inserted(1) assms(2,3) by (auto simp: store_new_def varchar_def split: sum.splits if_splits)
  then show ?thesis using inserted(2) assms(1) by (auto simp: new_row_def)
qed (use assms in simp)

lemma id_for_unique_found:
  assumes "at_visit (id_for_unique k) w = (Inr (Some i), w')"
  shows "\<exists>r\<in>set (t_jobs (fst w')). r_id r = i \<and> r_unique_key r = Some k"
  using assms by (cases rule: at_visit_cases)
    (auto simp: id_for_unique_def bind_str_def find_Some_iff split: if_splits intro: bexI [OF _ nth_mem])

lemma keys_of_inj:
  "\<lbrakk>distinct (keys_of rs); distinct (map r_id rs); r \<in> set rs; s \<in> set rs;
    r_unique_key r = Some k; r_unique_key s = Some k\<rbrakk> \<Longrightarrow> r = s"
proof (induction rs)
  case (Cons x rs)
  have "Some k \<in> r_unique_key ` set rs" if "r \<in> set rs \<or> s \<in> set rs" using that Cons.prems by force
  then have "r_unique_key x = Some k \<Longrightarrow> r \<notin> set rs \<and> s \<notin> set rs"
    using Cons.prems(1) keys_of_mem [of k rs] by auto
  then show ?case using Cons by (auto split: option.splits)
qed simp

text \<open>
  Pushing with a unique key that fits its column returns, whenever it returns, the identifier
  of the one job that holds the key in the tables as the call leaves them, whether this call
  queued it, it was there before, or another session won the race for the key.
\<close>

theorem push_unique_holder:
  assumes ok: "pg_ok (fst w)" "fair w"
    and key: "unique = Some k" "k \<noteq> []" "length k \<le> 190"
    and ret: "push in_tx name payload delay queue priority unique max_attempts w = (Inr i, w')"
  shows "(\<exists>!r. r \<in> set (t_jobs (fst w')) \<and> r_unique_key r = Some k)
    \<and> (\<exists>r. r \<in> set (t_jobs (fst w')) \<and> r_unique_key r = Some k \<and> r_id r = i)"
proof -
  have ok': "pg_ok (fst w')" using sound_opD [OF sound_push ok(2) ret] steps_ok ok(1) by blast
  obtain x w1 where x: "at_visit (id_for_unique k) w = (x, w1)" by (rule prod.exhaust)
  have ex: "\<exists>r\<in>set (t_jobs (fst w')). r_id r = i \<and> r_unique_key r = Some k"
  proof (cases "x = Inr (Some i)")
    case True
    then show ?thesis using ret key x id_for_unique_found [of k w i w1]
      by (auto simp: push_def Let_def)
  next
    case False
    let ?row = "push_row (v_now (snd w 0)) name (JObj (case payload of None \<Rightarrow> [] | Some p \<Rightarrow> p))
      delay queue priority (Some k) max_attempts"
    have "(case ?row of Inl e \<Rightarrow> (Inl e, w1) | Inr n \<Rightarrow> push_insert in_tx n w1) = (Inr i, w')"
      using False ret key x by (auto simp: push_def Let_def split: sum.splits option.splits)
    then obtain n where row: "?row = Inr n" and ins: "push_insert in_tx n w1 = (Inr i, w')"
      by (cases ?row) auto
    have n: "n_unique_key n = Some k" using row by (auto simp: push_row_def split: sum.splits)
    obtain y w2 where y: "at_visit (\<lambda>v. insert_job n) w1 = (y, w2)" by (rule prod.exhaust)
    show ?thesis
    proof (cases y)
      case (Inr a)
      then have "a = i" "w2 = w'" using ins y by (auto simp: push_insert_def)
      then have "at_visit (\<lambda>v. insert_job n) w1 = (Inr i, w')" using y Inr by simp
      then show ?thesis
        by (cases rule: at_visit_cases) (use insert_key [OF _ n key(3)] in auto)
    next
      case (Inl e)
      then have tx: "\<not> in_tx" "at_visit (id_for_unique k) w2 = (Inr (Some i), w')"
        using ins y n
        by (auto simp: push_insert_def at_visit_def Let_def split: qerror.splits if_splits sum.splits option.splits prod.splits)
      from id_for_unique_found [OF tx(2)] show ?thesis .
    qed
  qed
  moreover have "r = s" if "r \<in> set (t_jobs (fst w'))" "s \<in> set (t_jobs (fst w'))"
    "r_unique_key r = Some k" "r_unique_key s = Some k" for r s
    using ok' that by (intro keys_of_inj) (auto simp: pg_ok_def)
  ultimately show ?thesis by blast
qed


definition demo_key_row :: jrow where
  "demo_key_row = (demo_row 0 None None)\<lparr>r_unique_key := Some ''k''\<rparr>"

lemma demo_push:
  "push False ''mail'' None 0 ''default'' 0 (Some ''k'') 3 (demo_db 1 [], \<lambda>_. calm 10)
     = (Inr 1, (demo_db 2 [demo_key_row], \<lambda>_. calm 10))"
  by (simp add: push_def push_row_def push_insert_def at_visit_def id_for_unique_def demo_db_def
      demo_key_row_def demo_row_def encode_payload_def add_seconds_def max_datetime_def insert_job_def
      bind_new_def store_new_def bind_str_def bind_text_def scalar_def varchar_def int4_def new_row_def)

theorem push_unique_holder_witness:
  "(\<exists>r. r \<in> set (t_jobs (demo_db 2 [demo_key_row])) \<and> r_unique_key r = Some ''k'' \<and> r_id r = 1)"
proof -
  have "pg_ok (fst (demo_db 1 [], \<lambda>_. calm 10))" by (simp add: demo_db_def pg_ok_def)
  from push_unique_holder [OF this _ _ _ _ demo_push, of "''k''"] show ?thesis by simp
qed

text \<open>The row a job is born as, from the arguments of \<open>push\<close>.\<close>

lemma push_insert_row:
  assumes "push_insert tx n w = (Inr i, w')" "n_unique_key n = None"
  obtains db m where "store_new n = Inr m" "fst w' = db\<lparr>t_jobs_seq := i + 1, t_jobs := t_jobs db @ [new_row i m]\<rparr>"
    "t_jobs_seq db = i"
proof -
  obtain y w1 where y: "at_visit (\<lambda>v. insert_job n) w = (y, w1)" by (rule prod.exhaust)
  then have "at_visit (\<lambda>v. insert_job n) w = (Inr i, w')"
    using assms by (auto simp: push_insert_def split: sum.splits qerror.splits)
  then have ins: "insert_job n (v_others (snd w 0) (fst w)) = (Inr i, fst w')"
    by (cases rule: at_visit_cases) simp_all
  then show thesis
  proof (cases n "v_others (snd w 0) (fst w)" rule: insert_job_cases)
    case (inserted m)
    then have "i = t_jobs_seq (v_others (snd w 0) (fst w))" using ins by simp
    then show ?thesis using inserted(2) ins by (intro that [OF inserted(1)]) simp_all
  qed simp
qed

text \<open>
  What \<open>push\<close> stores is what a worker gets: a push without a unique key that returns has put
  exactly one new row at the end of the table, due after the delay, with no attempts made and at
  least one allowed, in the named or the default queue; and claiming that row yields a job with
  the same name and a payload equal to the one pushed.
\<close>

theorem push_payload_roundtrip:
  assumes ok: "pg_ok (fst w)" "fair w" and p: "json_ok (JObj p)"
    and fits: "length name \<le> 190" "length queue \<le> 64"
    and ret: "push in_tx name (Some p) delay queue priority None max_attempts w = (Inr i, w')"
  shows "\<exists>r. read_job i (fst w') = Some r \<and> last (t_jobs (fst w')) = r
    \<and> r_queue r = (if queue = [] then ''default'' else queue) \<and> r_attempts r = 0
    \<and> r_max_attempts r = max 1 max_attempts \<and> r_priority r = priority
    \<and> r_available_at r = v_now (snd w 0) + max 0 delay * 1000000
    \<and> (\<forall>u wk. \<exists>j. to_job (claim_row u wk r) (take 64 wk) = Some j
          \<and> j_name j = name \<and> j_payload j = JObj p \<and> j_attempts j = 1)"
proof -
  have ok': "pg_ok (fst w')" using sound_opD [OF sound_push ok(2) ret] steps_ok ok(1) by blast
  obtain n where row: "push_row (v_now (snd w 0)) name (JObj p) delay queue priority None max_attempts = Inr n"
    and ins: "push_insert in_tx n w = (Inr i, w')"
    using ret by (auto simp: push_def Let_def split: sum.splits)
  obtain pj where pj: "dumps (JObj p) = Some pj"
    and n: "n = \<lparr>n_queue = (if queue = [] then ''default'' else queue), n_name = name, n_payload = pj,
      n_max_attempts = max 1 max_attempts, n_priority = priority, n_unique_key = None,
      n_available_at = v_now (snd w 0) + max 0 delay * 1000000, n_created_at = v_now (snd w 0)\<rparr>"
    using row by (auto simp: push_row_def encode_payload_def add_seconds_def
        simp del: dumps.simps split: sum.splits option.splits if_splits)
  have "n_unique_key n = None" using n by simp
  from push_insert_row [OF ins this] obtain db m where m: "store_new n = Inr m"
    and db: "fst w' = db\<lparr>t_jobs_seq := i + 1, t_jobs := t_jobs db @ [new_row i m]\<rparr>" by metis
  have "m = n" using m fits unfolding n
    by (auto simp: store_new_def varchar_def split: if_splits sum.splits)
  then have last: "last (t_jobs (fst w')) = new_row i n" and mem: "new_row i n \<in> set (t_jobs (fst w'))"
    using db by auto
  have rd: "read_job i (fst w') = Some (new_row i n)"
    using read_job_iff [OF ok', of i "new_row i n"] mem by (simp add: new_row_def)
  have "loads pj = Some (JObj p)" by (rule loads_dumps [OF pj p])
  then have job: "\<exists>j. to_job (claim_row u wk (new_row i n)) (take 64 wk) = Some j
          \<and> j_name j = name \<and> j_payload j = JObj p \<and> j_attempts j = 1" for u wk
    by (simp add: to_job_def new_row_def claim_row_def n)
  show ?thesis
    using rd last job by (intro exI [of _ "new_row i n"]) (simp add: new_row_def n)
qed

theorem push_payload_roundtrip_witness:
  "\<exists>r. read_job 1 (demo_db 2 [demo_row 0 None None]) = Some r \<and> r_attempts r = 0 \<and> r_queue r = ''default''"
proof -
  have ok: "pg_ok (fst (demo_db 1 [], \<lambda>_. calm 10))" by (simp add: demo_db_def pg_ok_def)
  have p: "push False ''mail'' (Some []) 0 ''default'' 0 None 3 (demo_db 1 [], \<lambda>_. calm 10)
     = (Inr 1, (demo_db 2 [demo_row 0 None None], \<lambda>_. calm 10))"
    by (simp add: push_def push_row_def push_insert_def at_visit_def demo_db_def demo_row_def
        encode_payload_def add_seconds_def max_datetime_def insert_job_def bind_new_def store_new_def
        bind_str_def bind_text_def scalar_def varchar_def int4_def new_row_def)
  from push_payload_roundtrip [OF ok _ _ _ _ p] show ?thesis by auto
qed

end
