(* ===== verification/Queue_Reports.thy ===== *)
theory Queue_Reports
  imports Queue_Session "HOL-Library.Multiset"
begin

text \<open>
  Error texts, reports and the failed table: the bound of \<open>fit_error\<close>, the counts of \<open>stats\<close>
  and \<open>pending\<close>, and what \<open>retry_failed\<close> does with and without another session in between.
\<close>

section \<open>Error texts\<close>

text \<open>
  \<open>fit_error\<close> never refuses a text that UTF-8 can encode, however long: the result is the
  text itself when its encoding has at most 60000 bytes, and otherwise its longest prefix of whole
  characters that fits, followed by the truncation mark; so what is stored stays below 60015 bytes
  and decodes. A text with a surrogate raises instead.
\<close>

theorem fit_error_bounds:
  "(case fit_error e of
      Inl x \<Rightarrow> x = UnicodeEncodeError \<and> \<not> list_all scalar e
    | Inr t \<Rightarrow> list_all scalar e \<and> list_all scalar t
        \<and> (if length (utf8 e) \<le> 60000 then t = e
           else \<exists>k < length e. t = take k e @ TRUNCATED \<and> length (utf8 (take k e)) \<le> 60000
                  \<and> 60000 < length (utf8 (take (Suc k) e)))
        \<and> length (utf8 t) \<le> 60014)"
proof (cases "list_all scalar e")
  case False
  then show ?thesis by (simp add: fit_error_def encode_utf8_def)
next
  case True
  have tr: "list_all scalar TRUNCATED" "length (utf8 TRUNCATED) = 14"
    by (simp_all add: TRUNCATED_def to_text_def code_def scalar_def utf8_char_def)
  show ?thesis
  proof (cases "length (utf8 e) \<le> 60000")
    case short: True
    then show ?thesis using True by (simp add: fit_error_def encode_utf8_def MAX_ERROR_BYTES_def)
  next
    case long: False
    obtain k where k: "decode_ignore (take 60000 (utf8 e)) = take k e" "length (utf8 (take k e)) \<le> 60000"
      "k < length e \<longrightarrow> 60000 < length (utf8 (take (Suc k) e))"
      using decode_take [OF True, of 60000] by blast
    have lt: "k < length e" using k(2) long by (cases "k < length e") auto
    have "list_all scalar (take k e)" using True by (auto simp: list_all_iff dest: in_set_takeD)
    moreover have "fit_error e = Inr (take k e @ TRUNCATED)"
      using True long k(1) by (simp add: fit_error_def encode_utf8_def MAX_ERROR_BYTES_def)
    ultimately show ?thesis using True long k lt tr by auto
  qed
qed

section \<open>Counts\<close>

lemma length_filter_split:
  "length xs = length (filter P xs) + length (filter (\<lambda>x. \<not> P x) xs)"
  by (induction xs) auto

lemma length_filter_or: "length (filter (\<lambda>x. P x \<or> Q x) xs) \<le> length (filter P xs) + length (filter Q xs)"
  by (induction xs) auto

lemma length_filter_mono: "(\<And>x. P x \<Longrightarrow> Q x) \<Longrightarrow> length (filter P xs) \<le> length (filter Q xs)"
  by (induction xs) (auto intro: le_SucI)

lemma sum_by_queue:
  assumes "distinct qs" "r_queue ` set rows \<subseteq> set qs"
  shows "sum_list (map (\<lambda>q. length (filter (\<lambda>r. r_queue r = q) rows)) qs) = length rows"
  using assms(2)
proof (induction rows)
  case (Cons r rows)
  have one: "sum_list (map (\<lambda>q. (if r_queue r = q then Suc (f q) else f q)) qs) = Suc (sum_list (map f qs))"
    if "distinct qs" "r_queue r \<in> set qs" for f :: "string \<Rightarrow> nat" and qs
    using that
  proof (induction qs)
    case (Cons q qs)
    have "sum_list (map (\<lambda>q. if r_queue r = q then Suc (f q) else f q) qs) = sum_list (map f qs)"
      if "r_queue r \<notin> set qs" by (rule arg_cong [where f = sum_list]) (use that in auto)
    then show ?case using Cons by (cases "r_queue r = q") auto
  qed simp
  have "sum_list (map (\<lambda>q. length (filter (\<lambda>x. r_queue x = q) (r # rows))) qs)
      = sum_list (map (\<lambda>q. (if r_queue r = q then Suc (length (filter (\<lambda>r. r_queue r = q) rows))
          else length (filter (\<lambda>r. r_queue r = q) rows))) qs)"
    by (rule arg_cong [where f = sum_list]) auto
  then show ?case using Cons one [OF assms(1)] by simp
qed simp

text \<open>
  The status report accounts for every job: one line per queue that has jobs, the totals add
  up to the size of the table, and in every line each job is pending, delayed or reserved, where
  pending counts exactly the jobs a worker could claim at that moment.
\<close>

theorem stats_account_for_all:
  assumes "stats collate w = (Inr rows, w')" and "\<And>qs. mset (collate qs) = mset qs"
  shows "sum_list (map s_total rows) = length (t_jobs (fst w'))
    \<and> distinct (map s_queue rows) \<and> set (map s_queue rows) = r_queue ` set (t_jobs (fst w'))
    \<and> (\<forall>s\<in>set rows. s_pending s + s_delayed s \<le> s_total s \<and> s_pending s + s_reserved s \<le> s_total s
          \<and> s_total s \<le> s_pending s + s_delayed s + s_reserved s
          \<and> s_pending s = length (filter (claimable (s_queue s) (v_now (snd w 0)) []) (t_jobs (fst w'))))"
proof -
  let ?m = "v_now (snd w 0)" and ?jobs = "t_jobs (fst w')"
  let ?qs = "collate (remdups (map r_queue ?jobs))"
  have rows: "rows = map (stat_of ?m ?jobs) ?qs"
    using assms(1) by (auto simp: stats_def Let_def at_visit_def split: if_splits)
  have "set ?qs = set (remdups (map r_queue ?jobs))" by (metis assms(2) set_mset_mset)
  then have qs: "set ?qs = r_queue ` set ?jobs" by simp
  have d: "distinct ?qs" by (metis assms(2) distinct_remdups mset_eq_imp_distinct_iff)
  have names: "map s_queue rows = ?qs" by (simp add: rows stat_of_def o_def Let_def)
  have tot: "map s_total rows = map (\<lambda>q. length (filter (\<lambda>r. r_queue r = q) ?jobs)) ?qs"
    by (simp add: rows stat_of_def o_def Let_def)
  have line: "s_pending s + s_delayed s \<le> s_total s \<and> s_pending s + s_reserved s \<le> s_total s
      \<and> s_total s \<le> s_pending s + s_delayed s + s_reserved s
      \<and> s_pending s = length (filter (claimable (s_queue s) ?m []) ?jobs)" if mem: "s \<in> set rows" for s
  proof -
    obtain q where s: "s = stat_of ?m ?jobs q" using mem rows by auto
    let ?mine = "filter (\<lambda>r. r_queue r = q) ?jobs"
    let ?p = "\<lambda>r. r_available_at r \<le> ?m \<and> free ?m r"
    have eq: "(\<lambda>r. \<not> ?p r) = (\<lambda>r. ?m < r_available_at r \<or> \<not> free ?m r)" by auto
    have "length (filter (\<lambda>r. ?m < r_available_at r) ?mine) \<le> length (filter (\<lambda>r. \<not> ?p r) ?mine)"
      "length (filter (\<lambda>r. \<not> free ?m r) ?mine) \<le> length (filter (\<lambda>r. \<not> ?p r) ?mine)"
      unfolding eq by (auto intro: length_filter_mono)
    moreover have "length (filter (\<lambda>r. \<not> ?p r) ?mine)
        \<le> length (filter (\<lambda>r. ?m < r_available_at r) ?mine) + length (filter (\<lambda>r. \<not> free ?m r) ?mine)"
      unfolding eq by (rule length_filter_or)
    moreover have "filter (claimable q ?m []) ?jobs = filter ?p ?mine"
      by (auto simp: claimable_def intro!: filter_cong)
    ultimately show ?thesis
      using length_filter_split [of ?mine ?p] by (simp add: s stat_of_def Let_def)
  qed
  have "sum_list (map s_total rows) = length ?jobs"
    unfolding tot by (rule sum_by_queue [OF d]) (simp add: qs)
  moreover have "distinct (map s_queue rows)" "set (map s_queue rows) = r_queue ` set ?jobs"
    unfolding names by (rule d, rule qs)
  ultimately show ?thesis using line by blast
qed


theorem stats_account_for_all_witness:
  "\<exists>rows w'. stats (\<lambda>qs. qs) (demo_db 2 [demo_row 0 None None], \<lambda>_. calm 100) = (Inr rows, w')
     \<and> sum_list (map s_total rows) = 1 \<and> s_pending (hd rows) + s_delayed (hd rows) \<le> s_total (hd rows)"
proof -
  let ?w = "(demo_db 2 [demo_row 0 None None], \<lambda>_::nat. calm 100)"
  let ?rows = "[stat_of 100 [demo_row 0 None None] ''default'']"
  have s: "stats (\<lambda>qs. qs) ?w = (Inr ?rows, ?w)"
    by (simp add: stats_def at_visit_def demo_db_def demo_row_def)
  from stats_account_for_all [OF s refl]
  have "sum_list (map s_total ?rows) = 1"
    "s_pending (hd ?rows) + s_delayed (hd ?rows) \<le> s_total (hd ?rows)"
    by (simp_all add: demo_db_def stat_of_def demo_row_def)
  with s show ?thesis by blast
qed

section \<open>Requeueing failed jobs\<close>

text \<open>A failed row that its columns can hold again, which every row written by the driver is.\<close>

definition storable :: "frow \<Rightarrow> bool" where
  "storable f \<longleftrightarrow> CHR 0x00 \<notin> set (f_queue f) \<and> CHR 0x00 \<notin> set (f_name f)
     \<and> length (f_queue f) \<le> 64 \<and> length (f_name f) \<le> 190
     \<and> list_all scalar (f_payload f) \<and> 0 \<notin> set (f_payload f)"

definition requeued_row :: "int \<Rightarrow> frow \<Rightarrow> int \<Rightarrow> int \<Rightarrow> jrow" where
  "requeued_row i f max_attempts moment = new_row i
     \<lparr>n_queue = f_queue f, n_name = f_name f, n_payload = f_payload f,
      n_max_attempts = max 1 max_attempts, n_priority = 0, n_unique_key = None,
      n_available_at = moment, n_created_at = moment\<rparr>"

lemma retry_tx_storable:
  assumes "storable f" "int4 (max 1 m)"
  shows "retry_tx f m t db = (Inr (), db\<lparr>t_jobs_seq := t_jobs_seq db + 1,
     t_jobs := t_jobs db @ [requeued_row (t_jobs_seq db) f m t],
     t_failed := filter (\<lambda>g. f_id g \<noteq> f_id f) (t_failed db)\<rparr>)"
proof -
  have "int4 0" by (simp add: int4_def)
  then show ?thesis
    using assms
    by (simp add: retry_tx_def insert_job_def bind_new_def store_new_def bind_str_def bind_text_def
        varchar_def storable_def requeued_row_def Let_def)
qed

fun requeue_all :: "int \<Rightarrow> int \<Rightarrow> (nat \<Rightarrow> int) \<Rightarrow> frow list \<Rightarrow> jrow list" where
  "requeue_all i m c [] = []"
| "requeue_all i m c (f # fs) = requeued_row i f m (c 0) # requeue_all (i + 1) m (\<lambda>n. c (Suc n)) fs"

lemma retry_loop_calm:
  "\<lbrakk>list_all storable fs; int4 (max 1 m)\<rbrakk> \<Longrightarrow>
     \<exists>w'. retry_loop fs m k (db, \<lambda>n. calm (c n)) = (Inr (k + length fs), w')
       \<and> fst w' = db\<lparr>t_jobs := t_jobs db @ requeue_all (t_jobs_seq db) m c fs,
           t_jobs_seq := t_jobs_seq db + int (length fs),
           t_failed := filter (\<lambda>g. f_id g \<notin> f_id ` set fs) (t_failed db)\<rparr>"
proof (induction fs arbitrary: db c k)
  case (Cons f fs)
  let ?db1 = "db\<lparr>t_jobs_seq := t_jobs_seq db + 1,
     t_jobs := t_jobs db @ [requeued_row (t_jobs_seq db) f m (c 0)],
     t_failed := filter (\<lambda>g. f_id g \<noteq> f_id f) (t_failed db)\<rparr>"
  have one: "at_visit (\<lambda>v. retry_tx f m (v_now v)) (db, \<lambda>n. calm (c n))
      = (Inr (), (?db1, \<lambda>n. calm (c (Suc n))))"
    using Cons.prems by (simp add: at_visit_def retry_tx_storable)
  have "\<exists>w'. retry_loop fs m (Suc k) (?db1, \<lambda>n. calm (c (Suc n))) = (Inr (Suc k + length fs), w')
       \<and> fst w' = ?db1\<lparr>t_jobs := t_jobs ?db1 @ requeue_all (t_jobs_seq ?db1) m (\<lambda>n. c (Suc n)) fs,
           t_jobs_seq := t_jobs_seq ?db1 + int (length fs),
           t_failed := filter (\<lambda>g. f_id g \<notin> f_id ` set fs) (t_failed ?db1)\<rparr>"
    using Cons.prems by (intro Cons.IH) auto
  moreover have "filter (\<lambda>g. f_id g \<notin> f_id ` set fs) (filter (\<lambda>g. f_id g \<noteq> f_id f) (t_failed db))
      = filter (\<lambda>g. f_id g \<notin> f_id ` set (f # fs)) (t_failed db)"
    unfolding filter_filter by (rule filter_cong) auto
  ultimately show ?case using one by auto
qed simp

text \<open>
  With no other session in the way, \<open>retry_failed\<close> moves exactly the asked failed jobs back,
  all of them or the one named, oldest first: their failed rows are gone, the others untouched,
  and each is a new job under a fresh identifier with the same queue, name and payload, no
  attempts made, due at once. It returns how many it moved.
\<close>

theorem retry_failed_requeues:
  assumes "list_all storable (t_failed db)" "int4 (max 1 m)"
  shows "\<exists>w'. retry_failed job_id m (db, \<lambda>n. calm (c n))
        = (Inr (length (filter (\<lambda>f. job_id = None \<or> job_id = Some (f_id f)) (t_failed db))), w')
    \<and> fst w' = db\<lparr>t_jobs := t_jobs db @ requeue_all (t_jobs_seq db) m (\<lambda>n. c (Suc n))
             (sort_key f_id (filter (\<lambda>f. job_id = None \<or> job_id = Some (f_id f)) (t_failed db))),
          t_jobs_seq := t_jobs_seq db
            + int (length (filter (\<lambda>f. job_id = None \<or> job_id = Some (f_id f)) (t_failed db))),
          t_failed := filter (\<lambda>f. \<not> (job_id = None \<or> job_id = Some (f_id f))) (t_failed db)\<rparr>"
proof -
  let ?sel = "filter (\<lambda>f. job_id = None \<or> job_id = Some (f_id f)) (t_failed db)"
  let ?fs = "sort_key f_id ?sel"
  have sto: "list_all storable ?fs" using assms(1) by (auto simp: list_all_iff)
  have "filter (\<lambda>g. f_id g \<notin> f_id ` set ?fs) (t_failed db)
      = filter (\<lambda>f. \<not> (job_id = None \<or> job_id = Some (f_id f))) (t_failed db)"
    by (rule filter_cong) auto
  then show ?thesis
    using retry_loop_calm [OF sto assms(2), of 0 db "\<lambda>n. c (Suc n)"]
    by (simp add: retry_failed_def at_visit_def)
qed

definition demo_failed :: frow where
  "demo_failed = \<lparr>f_id = 7, f_queue = ''default'', f_name = ''mail'', f_payload = [123, 125],
     f_attempts = 3, f_error = [], f_failed_at = 5\<rparr>"

definition demo_failed_db :: pgdb where
  "demo_failed_db = \<lparr>t_jobs = [], t_failed = [demo_failed], t_jobs_seq = 4, t_failed_seq = 8\<rparr>"

theorem retry_failed_requeues_witness:
  "\<exists>w'. retry_failed None 3 (demo_failed_db, \<lambda>n. calm 10) = (Inr 1, w')
     \<and> t_jobs (fst w') = [requeued_row 4 demo_failed 3 10] \<and> t_failed (fst w') = []"
proof -
  have "list_all storable (t_failed demo_failed_db)" "int4 (max 1 3)"
    by (simp_all add: demo_failed_db_def demo_failed_def storable_def scalar_def int4_def)
  from retry_failed_requeues [OF this, of None "\<lambda>_. 10"] show ?thesis
    by (auto simp: demo_failed_db_def)
qed

definition racing :: visits where
  "racing n = (if n = 1 then (calm 10)\<lparr>v_others := (\<lambda>db. snd (retry_tx demo_failed 3 10 db))\<rparr> else calm 10)"

text \<open>
  With another session in the way \<open>retry_failed\<close> can queue a job twice: the select and the
  moves are separate transactions, and the delete of a move does not check that it hit a row. Two
  sessions that both retry the one failed job leave two jobs with its payload in the table.
\<close>

theorem retry_race_duplicates:
  "fair (demo_failed_db, racing)
   \<and> (\<exists>w'. retry_failed None 3 (demo_failed_db, racing) = (Inr 1, w')
        \<and> map r_payload (t_jobs (fst w')) = [f_payload demo_failed, f_payload demo_failed])"
proof
  have "steps db (snd (retry_tx demo_failed 3 10 db))" for db
    using retry_steps [of demo_failed 3 10 db] by (metis prod.collapse)
  then show "fair (demo_failed_db, racing)"
    by (simp add: fair_def racing_def steps.stay)
  have sto: "storable demo_failed" "int4 (max 1 3)"
    by (simp_all add: demo_failed_def storable_def scalar_def int4_def)
  show "\<exists>w'. retry_failed None 3 (demo_failed_db, racing) = (Inr 1, w')
        \<and> map r_payload (t_jobs (fst w')) = [f_payload demo_failed, f_payload demo_failed]"
    by (simp add: retry_failed_def at_visit_def Let_def racing_def demo_failed_db_def retry_tx_storable [OF sto]
        requeued_row_def new_row_def)
qed

section \<open>A lost race inside a transaction\<close>

text \<open>
  Inside a transaction of the caller a lost race for the unique key never reports the winner:
  whatever the others do, the answer is an error.
\<close>

lemma push_race_in_transaction:
  assumes "at_visit (\<lambda>v. insert_job n) w = (Inl UniqueViolation, w1)" "n_unique_key n = Some k"
  shows "fst (push_insert True n w) \<in> {Inl InFailedTransaction, Inl OperationalError}"
  using assms by (simp add: push_insert_def at_visit_def [of _ w1] Let_def)

text \<open>A newline at the end of a table name passes the check, because \<open>$\<close> matches before it.\<close>

lemma table_name_newline: "assert_table_name (''queue_jobs'' @ [CHR 0x0A]) = Inr (''queue_jobs'' @ [CHR 0x0A])"
  by code_simp

end
