(* ===== verification/Queue_Worker.thy ===== *)
theory Queue_Worker
  imports Queue_Session
begin

text \<open>
  The worker loop, \<open>queue/worker.py\<close>, over any driver of \<open>queue/interface.py\<close>. A driver is the
  record of the four operations the worker calls, on a state that holds the queue and everything
  outside it. The contract the worker relies on is the locale \<open>queue_driver\<close>; the PostgreSQL
  driver meets it. The loop takes fuel; for a run that stops when the queue is empty the fuel
  needed is bounded by the attempts left in the queue.
\<close>

section \<open>Drivers\<close>

record 'q driver =
  d_reserve :: "string list \<Rightarrow> int \<Rightarrow> string \<Rightarrow> 'q \<Rightarrow> (qerror + job option) \<times> 'q"
  d_delete :: "job \<Rightarrow> 'q \<Rightarrow> (qerror + unit) \<times> 'q"
  d_release :: "job \<Rightarrow> int \<Rightarrow> codes \<Rightarrow> 'q \<Rightarrow> (qerror + unit) \<times> 'q"
  d_fail :: "job \<Rightarrow> codes \<Rightarrow> 'q \<Rightarrow> (qerror + unit) \<times> 'q"

section \<open>Backoff\<close>

text \<open>\<open>steps\<close> is absent, one number, or a list.\<close>

datatype backoff_steps = DefaultSteps | FixedStep int | Steps "int list"

definition backoff :: "int \<Rightarrow> backoff_steps \<Rightarrow> int" where
  "backoff attempt st =
     (case st of
        FixedStep n \<Rightarrow> max 0 n
      | s \<Rightarrow>
          (let xs = (case s of Steps xs \<Rightarrow> xs | _ \<Rightarrow> [10, 60, 300])
           in if xs = [] then 0
              else max 0 (xs ! nat (min (max 0 (attempt - 1)) (int (length xs) - 1)))))"

section \<open>Running one job\<close>

text \<open>
  What awaiting a handler inside the timeout can do: return, with the job as the handler left it
  (it may have asked for a release), raise (a timeout included), or be cancelled from outside. A
  handler may also use the queue, so it changes the state. \<open>Raised\<close> carries the text that
  \<open>_job_failed\<close> records: class, message and traceback.
\<close>

datatype outcome = Returned job | Raised codes | Cancelled

record ('h, 'q) worker =
  w_driver :: "'q driver"
  w_import :: "string \<Rightarrow> 'h module_result"
  w_handlers :: "(string, 'h pyobj) dict"
  w_call :: "'h \<Rightarrow> json \<Rightarrow> job \<Rightarrow> 'q \<Rightarrow> outcome \<times> 'q"
  w_detail :: "qerror \<Rightarrow> codes"
  w_backoff :: backoff_steps
  w_id :: string

text \<open>How a call of the worker ends: normally, with an exception that escapes, or cancelled.\<close>

datatype job_end = JobDone | JobEscaped qerror | JobCancelled

definition end_of :: "(qerror + unit) \<times> 'q \<Rightarrow> job_end \<times> 'q" where
  "end_of p = (case p of (Inl e, q) \<Rightarrow> (JobEscaped e, q) | (Inr _, q) \<Rightarrow> (JobDone, q))"

definition safe_release :: "('h, 'q) worker \<Rightarrow> job \<Rightarrow> int \<Rightarrow> codes \<Rightarrow> 'q \<Rightarrow> 'q" where
  "safe_release w j delay error q = snd (d_release (w_driver w) j delay error q)"

definition job_failed :: "('h, 'q) worker \<Rightarrow> job \<Rightarrow> codes \<Rightarrow> 'q \<Rightarrow> job_end \<times> 'q" where
  "job_failed w j detail q =
     (if is_last_attempt j then end_of (d_fail (w_driver w) j detail q)
      else end_of (d_release (w_driver w) j (backoff (j_attempts j) (w_backoff w)) detail q))"

definition CANCELLED_ERROR :: codes where
  "CANCELLED_ERROR = to_text ''Worker was cancelled mid-job''"

definition run_job :: "('h, 'q) worker \<Rightarrow> job \<Rightarrow> 'q \<Rightarrow> job_end \<times> 'q" where
  "run_job w j q =
     (case resolve (w_import w) (j_name j) (w_handlers w) of
        Inl e \<Rightarrow> job_failed w j (w_detail w e) q
      | Inr h \<Rightarrow>
          (case w_call w h (j_payload j) j q of
             (Cancelled, q1) \<Rightarrow> (JobCancelled, safe_release w j 0 CANCELLED_ERROR q1)
           | (Raised detail, q1) \<Rightarrow> job_failed w j detail q1
           | (Returned j1, q1) \<Rightarrow>
               if was_released j1 then end_of (d_release (w_driver w) j1 (release_delay j1) [] q1)
               else end_of (d_delete (w_driver w) j1 q1)))"

section \<open>Limits and rests\<close>

text \<open>\<open>elapsed\<close> is \<open>time.monotonic() - started\<close> in microseconds.\<close>

definition limit_reached :: "nat \<Rightarrow> int \<Rightarrow> int \<Rightarrow> int \<Rightarrow> bool" where
  "limit_reached jobs_done elapsed max_jobs max_time \<longleftrightarrow>
     (max_jobs > 0 \<and> int jobs_done \<ge> max_jobs) \<or> (max_time > 0 \<and> elapsed \<ge> max_time * 1000000)"

text \<open>
  The slices that \<open>_rest\<close> sleeps, in microseconds; \<open>quit n\<close> is \<open>should_quit\<close> before slice \<open>n\<close>.
\<close>

function rest :: "(nat \<Rightarrow> bool) \<Rightarrow> int \<Rightarrow> int list" where
  "rest quit remaining =
     (if remaining > 0 \<and> \<not> quit 0
      then min 250000 remaining # rest (\<lambda>n. quit (Suc n)) (remaining - min 250000 remaining)
      else [])"
  by pat_completeness auto
termination by (relation "measure (\<lambda>(quit, r). nat r)") auto

declare rest.simps [simp del]

section \<open>The loop\<close>

record run_args =
  a_queues :: "string list"
  a_timeout :: int
  a_max_jobs :: int
  a_max_time :: int
  a_stop_when_empty :: bool

text \<open>What the loop sees from outside in one turn: the quit flag at its head, and the clock.\<close>

record turn =
  u_quit :: bool
  u_elapsed :: int

datatype turn_log = ReserveFailed | FoundNothing | RanJob job

datatype run_end = Exit nat | Escaped qerror | RunCancelled

definition MAX_CONSECUTIVE_FAILURES :: nat where
  "MAX_CONSECUTIVE_FAILURES = 5"

text \<open>
  \<open>run\<close> from the head of the loop; the result carries the turns taken, latest first. None is
  fuel that ran out.
\<close>

fun run_loop :: "nat \<Rightarrow> ('h, 'q) worker \<Rightarrow> run_args \<Rightarrow> (nat \<Rightarrow> turn) \<Rightarrow> turn_log list \<Rightarrow> nat \<Rightarrow> nat \<Rightarrow> 'q
    \<Rightarrow> (run_end \<times> nat \<times> turn_log list \<times> 'q) option" where
  "run_loop 0 w a turns log jobs_done failures q = None"
| "run_loop (Suc f) w a turns log jobs_done failures q =
     (let u = turns 0; later = (\<lambda>n. turns (Suc n))
      in if u_quit u then Some (Exit 0, jobs_done, log, q)
         else case d_reserve (w_driver w) (a_queues a) (a_timeout a) (w_id w) q of
           (Inl e, q1) \<Rightarrow>
             if failures + 1 \<ge> MAX_CONSECUTIVE_FAILURES
             then Some (Exit 1, jobs_done, ReserveFailed # log, q1)
             else run_loop f w a later (ReserveFailed # log) jobs_done (failures + 1) q1
         | (Inr None, q1) \<Rightarrow>
             if a_stop_when_empty a \<or> limit_reached jobs_done (u_elapsed u) (a_max_jobs a) (a_max_time a)
             then Some (Exit 0, jobs_done, FoundNothing # log, q1)
             else run_loop f w a later (FoundNothing # log) jobs_done 0 q1
         | (Inr (Some j), q1) \<Rightarrow>
             (case run_job w j q1 of
                (JobEscaped e, q2) \<Rightarrow> Some (Escaped e, jobs_done, RanJob j # log, q2)
              | (JobCancelled, q2) \<Rightarrow> Some (RunCancelled, jobs_done, RanJob j # log, q2)
              | (JobDone, q2) \<Rightarrow>
                  if limit_reached (jobs_done + 1) (u_elapsed u) (a_max_jobs a) (a_max_time a)
                  then Some (Exit 0, jobs_done + 1, RanJob j # log, q2)
                  else run_loop f w a later (RanJob j # log) (jobs_done + 1) 0 q2))"

definition run :: "nat \<Rightarrow> ('h, 'q) worker \<Rightarrow> run_args \<Rightarrow> (nat \<Rightarrow> turn) \<Rightarrow> 'q
    \<Rightarrow> (run_end \<times> nat \<times> turn_log list \<times> 'q) option" where
  "run f w a turns q = run_loop f w a turns [] 0 0 q"

text \<open>\<open>run_next\<close>: one reserve, one job; a reserve that raises is not caught.\<close>

definition run_next :: "('h, 'q) worker \<Rightarrow> string list \<Rightarrow> int \<Rightarrow> 'q \<Rightarrow> (qerror + bool) \<times> 'q" where
  "run_next w queues timeout q =
     (case d_reserve (w_driver w) queues timeout (w_id w) q of
        (Inl e, q1) \<Rightarrow> (Inl e, q1)
      | (Inr None, q1) \<Rightarrow> (Inr False, q1)
      | (Inr (Some j), q1) \<Rightarrow>
          (case run_job w j q1 of
             (JobDone, q2) \<Rightarrow> (Inr True, q2)
           | (JobEscaped e, q2) \<Rightarrow> (Inl e, q2)
           | (JobCancelled, q2) \<Rightarrow> (Inl (OtherError ''CancelledError''), q2)))"


lemma fallible_option_cases:
  obtains (err) e where "r = Inl e" | (none) "r = Inr None" | (some) x where "r = Inr (Some x)"
proof (cases r)
  case (Inr y)
  then show ?thesis using that(2,3) by (cases y) auto
qed (use that(1) in auto)

section \<open>The contract of a driver\<close>

text \<open>
  The invariant of the state, and a budget: how many more jobs can be handed out. Reserving a job
  spends some of it, no operation of a worker adds to it.
\<close>

locale queue_driver =
  fixes d :: "'q driver" and inv :: "'q \<Rightarrow> bool" and budget :: "'q \<Rightarrow> nat"
  assumes reserve_law: "\<lbrakk>inv q; d_reserve d qs t wk q = (r, q')\<rbrakk> \<Longrightarrow> inv q' \<and> budget q' \<le> budget q"
    and reserve_spends: "\<lbrakk>inv q; d_reserve d qs t wk q = (Inr (Some j), q')\<rbrakk> \<Longrightarrow> budget q' < budget q"
    and delete_law: "\<lbrakk>inv q; d_delete d j q = (x, q')\<rbrakk> \<Longrightarrow> inv q' \<and> budget q' \<le> budget q"
    and release_law: "\<lbrakk>inv q; d_release d j n e q = (x, q')\<rbrakk> \<Longrightarrow> inv q' \<and> budget q' \<le> budget q"
    and fail_law: "\<lbrakk>inv q; d_fail d j e q = (x, q')\<rbrakk> \<Longrightarrow> inv q' \<and> budget q' \<le> budget q"
begin

text \<open>Handlers that keep the invariant and queue no further work.\<close>

definition polite :: "('h, 'q) worker \<Rightarrow> bool" where
  "polite w \<longleftrightarrow> w_driver w = d
     \<and> (\<forall>h p j q. inv q \<longrightarrow> inv (snd (w_call w h p j q)) \<and> budget (snd (w_call w h p j q)) \<le> budget q)"

lemma job_failed_budget:
  assumes "polite w" "inv q"
  shows "inv (snd (job_failed w j e q)) \<and> budget (snd (job_failed w j e q)) \<le> budget q"
proof -
  have d: "w_driver w = d" using assms(1) by (simp add: polite_def)
  obtain x q1 where "d_fail d j e q = (x, q1)" by (rule prod.exhaust)
  moreover obtain y q2 where "d_release d j (backoff (j_attempts j) (w_backoff w)) e q = (y, q2)"
    by (rule prod.exhaust)
  ultimately show ?thesis
    using fail_law [OF assms(2)] release_law [OF assms(2)]
    by (auto simp: job_failed_def end_of_def d split: sum.splits)
qed

lemma run_job_budget:
  assumes "polite w" "inv q"
  shows "inv (snd (run_job w j q)) \<and> budget (snd (run_job w j q)) \<le> budget q"
proof (cases "resolve (w_import w) (j_name j) (w_handlers w)")
  case (Inl e)
  then show ?thesis using job_failed_budget [OF assms] by (simp add: run_job_def)
next
  case (Inr h)
  have d: "w_driver w = d" using assms(1) by (simp add: polite_def)
  obtain oc q1 where oc: "w_call w h (j_payload j) j q = (oc, q1)" by (rule prod.exhaust)
  have q1: "inv q1" "budget q1 \<le> budget q"
    using assms oc unfolding polite_def by (metis snd_conv)+
  show ?thesis
  proof (cases oc)
    case (Returned j1)
    obtain x q2 where x: "d_delete d j1 q1 = (x, q2)" by (rule prod.exhaust)
    obtain y q3 where y: "d_release d j1 (release_delay j1) [] q1 = (y, q3)" by (rule prod.exhaust)
    show ?thesis
      using delete_law [OF q1(1) x] release_law [OF q1(1) y] q1(2) Inr oc Returned x y
      by (auto simp: run_job_def end_of_def d split: sum.splits)
  next
    case (Raised e)
    then show ?thesis
      using job_failed_budget [OF assms(1) q1(1), of j e] q1(2) Inr oc by (auto simp: run_job_def)
  next
    case Cancelled
    obtain y q3 where y: "d_release d j 0 CANCELLED_ERROR q1 = (y, q3)" by (rule prod.exhaust)
    show ?thesis
      using release_law [OF q1(1) y] q1(2) Inr oc Cancelled y
      by (auto simp: run_job_def safe_release_def d)
  qed
qed

text \<open>
  A run that stops when the queue is empty ends within five turns per unit of budget and five
  more: every turn either ends the run, uses up one of five allowed failures in a row, or spends
  budget.
\<close>

lemma run_loop_ends:
  assumes w: "polite w" and a: "a_stop_when_empty a"
  shows "\<lbrakk>inv q; failures < 5; 5 * budget q + (5 - failures) \<le> f\<rbrakk> \<Longrightarrow>
    \<exists>r. run_loop f w a turns log n failures q = Some r"
proof (induction f arbitrary: turns log n failures q)
  case (Suc f)
  have d: "w_driver w = d" using w by (simp add: polite_def)
  obtain r q1 where r: "d_reserve d (a_queues a) (a_timeout a) (w_id w) q = (r, q1)" by (rule prod.exhaust)
  have q1: "inv q1" "budget q1 \<le> budget q" using reserve_law [OF Suc.prems(1) r] by auto
  show ?case
  proof (cases "u_quit (turns 0)")
    case False
    show ?thesis
    proof (cases r rule: fallible_option_cases)
      case (err x)
      show ?thesis
      proof (cases "failures + 1 \<ge> 5")
        case True
        then show ?thesis using False r err d by (simp add: Let_def MAX_CONSECUTIVE_FAILURES_def)
      next
        case small: False
        have "\<exists>r. run_loop f w a (\<lambda>n. turns (Suc n)) (ReserveFailed # log) n (failures + 1) q1 = Some r"
          using Suc.prems q1 small by (intro Suc.IH) auto
        then show ?thesis using False r err d small by (simp add: Let_def MAX_CONSECUTIVE_FAILURES_def)
      qed
    next
      case none
      then show ?thesis using False r a d by (simp add: Let_def)
    next
      case job: (some j)
      have less: "budget q1 < budget q" using reserve_spends [OF Suc.prems(1)] r job by simp
      obtain e q2 where e: "run_job w j q1 = (e, q2)" by (rule prod.exhaust)
      have q2: "inv q2" "budget q2 \<le> budget q1" using run_job_budget [OF w q1(1), of j] e by auto
      have "\<exists>r. run_loop f w a (\<lambda>n. turns (Suc n)) (RanJob j # log) (n + 1) 0 q2 = Some r"
        using Suc.prems less q2 by (intro Suc.IH) auto
      then show ?thesis using False r job d e by (cases e) (auto simp: Let_def)
    qed
  qed (simp add: Let_def)
qed simp

end

section \<open>The PostgreSQL driver meets the contract\<close>

text \<open>The budget: the attempts that the queued jobs have left.\<close>

definition left_attempts :: "pgdb \<Rightarrow> nat" where
  "left_attempts db = sum_list (map (\<lambda>r. nat (r_max_attempts r - r_attempts r)) (t_jobs db))"

definition lean :: "pgworld \<Rightarrow> bool" where
  "lean w \<longleftrightarrow> pg_ok (fst w) \<and> fair w
     \<and> (\<forall>n db. pg_ok db \<longrightarrow> left_attempts (v_others (snd w n) db) \<le> left_attempts db)"

lemma left_filter: "left_attempts (db\<lparr>t_jobs := filter P (t_jobs db)\<rparr>) \<le> left_attempts db"
proof -
  have "sum_list (map f (filter P xs)) \<le> sum_list (map f xs)" for f :: "jrow \<Rightarrow> nat" and xs
    by (induction xs) auto
  then show ?thesis by (simp add: left_attempts_def)
qed

lemma left_buried: "left_attempts (buried_db r e n db) \<le> left_attempts db"
  using left_filter [where db = db and P = "\<lambda>s. r_id s \<noteq> r_id r"] by (simp add: buried_db_def left_attempts_def)

lemma left_map:
  assumes "\<And>r. r_max_attempts (g r) = r_max_attempts r \<and> r_attempts (g r) = r_attempts r"
  shows "left_attempts (db\<lparr>t_jobs := map (\<lambda>s. if P s then g s else s) (t_jobs db)\<rparr>) = left_attempts db"
proof -
  have "(\<lambda>r. nat (r_max_attempts r - r_attempts r)) \<circ> (\<lambda>s. if P s then g s else s)
      = (\<lambda>r. nat (r_max_attempts r - r_attempts r))"
    using assms by (auto simp: fun_eq_iff)
  then show ?thesis by (simp add: left_attempts_def)
qed

lemma left_claimed:
  assumes ok: "pg_ok db" and r: "read_job i db = Some r" "r_attempts r < r_max_attempts r"
  shows "left_attempts (claimed_db i u w db) < left_attempts db"
proof -
  let ?f = "\<lambda>r. nat (r_max_attempts r - r_attempts r)"
  have rr: "r \<in> set (t_jobs db)" "r_id r = i" using r(1) read_job_iff [OF ok] by auto
  have le: "?f (claim_row u w s) \<le> ?f s" for s by simp
  have "sum_list (map ?f (map (\<lambda>s. if r_id s = i then claim_row u w s else s) xs)) < sum_list (map ?f xs)"
    if "r \<in> set xs" for xs
    using that
  proof (induction xs)
    case (Cons x xs)
    have rest: "sum_list (map ?f (map (\<lambda>s. if r_id s = i then claim_row u w s else s) xs))
        \<le> sum_list (map ?f xs)"
      by (induction xs) (auto intro: add_mono)
    show ?case
    proof (cases "x = r")
      case True
      then have "?f (claim_row u w x) < ?f x" using r(2) by simp
      then show ?thesis using rest True rr(2) by simp
    next
      case False
      then have "sum_list (map ?f (map (\<lambda>s. if r_id s = i then claim_row u w s else s) xs)) < sum_list (map ?f xs)"
        using Cons by simp
      then show ?thesis using le [of x] by simp
    qed
  qed simp
  then show ?thesis using rr(1) by (simp add: left_attempts_def claimed_db_def)
qed


text \<open>A visit whose body keeps the tables well formed and adds no attempts.\<close>

definition lean_body :: "(visit \<Rightarrow> pgdb \<Rightarrow> 'a \<times> pgdb) \<Rightarrow> bool" where
  "lean_body body \<longleftrightarrow> (\<forall>v db r db'. pg_ok db \<longrightarrow> body v db = (r, db') \<longrightarrow>
     steps db db' \<and> left_attempts db' \<le> left_attempts db)"

lemma lean_others:
  assumes "lean w"
  shows "pg_ok (v_others (snd w 0) (fst w))"
    "left_attempts (v_others (snd w 0) (fst w)) \<le> left_attempts (fst w)"
  using assms steps_ok by (auto simp: lean_def fair_def)

lemma lean_tail:
  "\<lbrakk>lean w; pg_ok (fst w'); \<And>n. snd w' n = snd w (Suc n)\<rbrakk> \<Longrightarrow> lean w'"
  by (simp add: lean_def fair_def)

lemma at_visit_lean:
  assumes w: "lean w" and b: "lean_body body" and e: "at_visit body w = (r, w')"
  shows "lean w' \<and> left_attempts (fst w') \<le> left_attempts (fst w)"
  using e
proof (cases rule: at_visit_cases)
  case down
  then show ?thesis using lean_others [OF w] lean_tail [OF w] by simp
next
  case ran
  have "steps (v_others (snd w 0) (fst w)) (fst w')"
    "left_attempts (fst w') \<le> left_attempts (v_others (snd w 0) (fst w))"
    using b lean_others(1) [OF w] ran(1) by (auto simp: lean_body_def)
  then show ?thesis using lean_others [OF w] lean_tail [OF w _ ran(2)] steps_ok by auto
qed

lemma lean_bodies:
  "lean_body (reserve_tx q u wk m)"
  "lean_body (\<lambda>v. delete_stmt j)" "lean_body (\<lambda>v. release_stmt j a e)"
  "lean_body (\<lambda>v. fail_tx j e (v_end v))"
  "lean_body (\<lambda>v. move_to_failed i (owned x y) e (v_end v))"
proof -
  show "lean_body (reserve_tx q u wk m)"
    unfolding lean_body_def
  proof (intro allI impI)
    fix v db r db' assume ok: "pg_ok db" and e: "reserve_tx q u wk m v db = (r, db')"
    have "left_attempts db' \<le> left_attempts db"
      using ok
    proof (cases rule: reserve_tx_cases [of db q u wk m v])
      case (claimed s)
      then show ?thesis using e left_claimed [OF ok claimed(1,3), of u wk] by simp
    qed (use e left_buried in auto)
    then show "steps db db' \<and> left_attempts db' \<le> left_attempts db" using reserve_tx_steps [OF e] by simp
  qed
  show "lean_body (\<lambda>v. delete_stmt j)"
    using delete_stmt_effect [of _ j] delete_steps [of j] left_filter
    by (auto simp: lean_body_def)
  show "lean_body (\<lambda>v. release_stmt j a e)"
    unfolding lean_body_def
  proof (intro allI impI)
    fix db r db' assume ok: "pg_ok db" and x: "release_stmt j a e db = (r, db')"
    have "left_attempts db' \<le> left_attempts db"
      using ok
    proof (cases rule: release_stmt_cases [of db j a e])
      case (ran t)
      have "left_attempts (db\<lparr>t_jobs := map (\<lambda>s. if r_id s = j_id j then release_row a t s else s) (t_jobs db)\<rparr>)
          = left_attempts db"
        by (rule left_map) (simp add: release_row_def)
      then show ?thesis using ran x by (auto split: if_splits)
    qed (use x in auto)
    then show "steps db db' \<and> left_attempts db' \<le> left_attempts db" using release_steps [OF x] by simp
  qed
  show f: "lean_body (\<lambda>v. fail_tx j e (v_end v))" for j
    unfolding lean_body_def
  proof (intro allI impI)
    fix v db r db' assume ok: "pg_ok db" and x: "fail_tx j e (v_end v) db = (r, db')"
    have "left_attempts db' \<le> left_attempts db"
      using ok by (cases rule: fail_tx_cases [of db j e "v_end v"]) (use x left_buried in auto)
    then show "steps db db' \<and> left_attempts db' \<le> left_attempts db" using fail_steps [OF x] by simp
  qed
  show "lean_body (\<lambda>v. move_to_failed i (owned x y) e (v_end v))"
    using f [of "\<lparr>j_id = i, j_queue = [], j_name = [], j_payload = JNull, j_payload_json = [],
      j_attempts = y, j_max_attempts = 0, j_handle = [], j_reserved_by = x, j_release_delay = None\<rparr>"]
    unfolding fail_tx_def [abs_def] by simp
qed

lemma claim_visit_spends:
  assumes w: "lean w" and e: "at_visit (reserve_tx q u wk m) w = (Inr (Claimed r), w')"
  shows "left_attempts (fst w') < left_attempts (fst w)"
  using e
proof (cases rule: at_visit_cases)
  case ran
  from lean_others(1) [OF w] show ?thesis
  proof (cases rule: reserve_tx_cases [of _ q u wk m "snd w 0"])
    case (claimed s)
    then show ?thesis
      using ran(1) left_claimed [OF lean_others(1) [OF w] claimed(1,3), of u wk] lean_others(2) [OF w]
      by auto
  qed (use ran(1) in auto)
qed simp

lemma reserve_rounds_lean:
  "\<lbrakk>lean w; reserve_rounds k q t wk w = (r, w')\<rbrakk> \<Longrightarrow>
     lean w' \<and> left_attempts (fst w') \<le> left_attempts (fst w)
     \<and> (\<forall>j. r = Inr (Some j) \<longrightarrow> left_attempts (fst w') < left_attempts (fst w))"
proof (induction k arbitrary: w)
  case (Suc k)
  let ?m = "v_now (snd w 0)"
  show ?case
  proof (cases "add_seconds ?m (max 1 t)")
    case (Inl x)
    then show ?thesis using Suc.prems by auto
  next
    case u: (Inr u)
    obtain x w1 where x: "at_visit (reserve_tx q u wk ?m) w = (x, w1)" by (rule prod.exhaust)
    have w1: "lean w1" "left_attempts (fst w1) \<le> left_attempts (fst w)"
      using at_visit_lean [OF Suc.prems(1) lean_bodies(1) x] by auto
    have again: "lean w' \<and> left_attempts (fst w') \<le> left_attempts (fst w)
        \<and> (\<forall>j. r = Inr (Some j) \<longrightarrow> left_attempts (fst w') < left_attempts (fst w))"
      if "reserve_rounds k q t wk w2 = (r, w')" "lean w2" "left_attempts (fst w2) \<le> left_attempts (fst w)" for w2
      using Suc.IH [OF that(2,1)] that(3) by auto
    show ?thesis
    proof (cases "\<exists>rw. x = Inr (Claimed rw)")
      case False
      then consider "\<exists>e. x = Inl e" | "x = Inr NothingDue" | "x = Inr TryAgain"
        by (cases x) (auto, metis round_result.exhaust)
      then show ?thesis
        by cases (use Suc.prems(2) u x w1 again [of w1] in auto)
    next
      case True
      then obtain rw where rw: "x = Inr (Claimed rw)" by blast
      have less: "left_attempts (fst w1) < left_attempts (fst w)"
        using claim_visit_spends [OF Suc.prems(1)] x rw by simp
      show ?thesis
      proof (cases "to_job rw (take 64 wk)")
        case (Some j)
        then have "w' = w1" using Suc.prems(2) u x rw by simp
        then show ?thesis using w1 less by simp
      next
        case None
        let ?b = "\<lambda>v. move_to_failed (r_id rw) (owned (take 64 wk) (r_attempts rw)) BAD_PAYLOAD (v_end v)"
        obtain z w2 where z: "at_visit ?b w1 = (z, w2)" by (rule prod.exhaust)
        have w2: "lean w2" "left_attempts (fst w2) \<le> left_attempts (fst w)"
          using at_visit_lean [OF w1(1) lean_bodies(5) z] less by auto
        show ?thesis
          using Suc.prems(2) u x rw None z w2 again [of w2] by (cases z) auto
      qed
    qed
  qed
qed auto

lemma reserve_lean:
  "\<lbrakk>lean w; reserve qs t wk w = (r, w')\<rbrakk> \<Longrightarrow>
     lean w' \<and> left_attempts (fst w') \<le> left_attempts (fst w)
     \<and> (\<forall>j. r = Inr (Some j) \<longrightarrow> left_attempts (fst w') < left_attempts (fst w))"
proof (induction qs arbitrary: w)
  case (Cons q qs)
  obtain x w1 where x: "reserve_from q t wk w = (x, w1)" by (rule prod.exhaust)
  note first = reserve_rounds_lean [OF Cons.prems(1) x [unfolded reserve_from_def]]
  show ?case
  proof (cases x rule: fallible_option_cases)
    case none
    then show ?thesis using Cons.prems(2) x first Cons.IH [of w1] by auto
  qed (use Cons.prems(2) x first in auto)
qed auto

lemma stale_lean:
  assumes "lean w" "lean_body body" "ignore_stale (at_visit body w) = (r, w')"
  shows "lean w' \<and> left_attempts (fst w') \<le> left_attempts (fst w)"
proof -
  obtain x w1 where x: "at_visit body w = (x, w1)" by (rule prod.exhaust)
  then have "w' = w1" using assms(3) by (auto simp: ignore_stale_def split: sum.splits)
  then show ?thesis using at_visit_lean [OF assms(1,2) x] by simp
qed

definition pg_driver :: "pgworld driver" where
  "pg_driver = \<lparr>d_reserve = reserve, d_delete = delete, d_release = release, d_fail = fail\<rparr>"

interpretation pg: queue_driver pg_driver lean "\<lambda>w. left_attempts (fst w)"
proof
  fix w :: pgworld and j n e x w'
  assume w: "lean w"
  show "lean w' \<and> left_attempts (fst w') \<le> left_attempts (fst w)" if "d_reserve pg_driver qs t wk w = (r, w')" for qs t wk r
    using reserve_lean [OF w] that by (simp add: pg_driver_def)
  show "left_attempts (fst w') < left_attempts (fst w)" if "d_reserve pg_driver qs t wk w = (Inr (Some j), w')" for qs t wk
    using reserve_lean [OF w] that by (simp add: pg_driver_def)
  show "lean w' \<and> left_attempts (fst w') \<le> left_attempts (fst w)" if "d_delete pg_driver j w = (x, w')"
    using stale_lean [OF w lean_bodies(2)] that by (simp add: pg_driver_def delete_def)
  show "lean w' \<and> left_attempts (fst w') \<le> left_attempts (fst w)" if "d_release pg_driver j n e w = (x, w')"
    using stale_lean [OF w lean_bodies(3)] that w by (auto simp: pg_driver_def release_def split: sum.splits)
  show "lean w' \<and> left_attempts (fst w') \<le> left_attempts (fst w)" if "d_fail pg_driver j e w = (x, w')"
    using stale_lean [OF w lean_bodies(4)] that by (simp add: pg_driver_def fail_def)
qed


section \<open>Properties of the worker\<close>

text \<open>
  C17. A worker that stops when the queue is empty does stop: on the PostgreSQL driver, when the
  handlers and the other sessions queue no further attempts, the loop returns within five turns
  for every attempt left in the table and five more, whatever fails on the way.
\<close>

theorem worker_drains_and_stops:
  assumes "lean q" "a_stop_when_empty a" "w_driver w = pg_driver"
    and "\<And>h p j q. lean q \<Longrightarrow> lean (snd (w_call w h p j q))
      \<and> left_attempts (fst (snd (w_call w h p j q))) \<le> left_attempts (fst q)"
    and "5 * left_attempts (fst q) + 5 \<le> f"
  shows "\<exists>r. run f w a turns q = Some r"
proof -
  have "pg.polite w" unfolding pg.polite_def using assms(3,4) by blast
  then show ?thesis
    unfolding run_def using pg.run_loop_ends [OF _ assms(2,1), of w 0 f turns "[]" 0] assms(5) by simp
qed

text \<open>Bookkeeping of the loop: what the log says about the exit code and the count.\<close>

fun last_failures :: "turn_log list \<Rightarrow> nat" where
  "last_failures (ReserveFailed # log) = Suc (last_failures log)"
| "last_failures _ = 0"

definition jobs_run :: "turn_log list \<Rightarrow> job list" where
  "jobs_run log = List.map_filter (\<lambda>t. case t of RanJob j \<Rightarrow> Some j | _ \<Rightarrow> None) log"

lemma jobs_run_simps [simp]:
  "jobs_run [] = []" "jobs_run (RanJob j # log) = j # jobs_run log"
  "jobs_run (ReserveFailed # log) = jobs_run log" "jobs_run (FoundNothing # log) = jobs_run log"
  by (simp_all add: jobs_run_def map_filter_simps)

lemma run_loop_log:
  "\<lbrakk>run_loop f w a turns log n failures q = Some (r, n', log', q');
    last_failures log = failures; failures < 5; n = length (jobs_run log);
    \<forall>k\<le>length log. last_failures (drop k log) < 5\<rbrakk> \<Longrightarrow>
   (r = Exit 1 \<longleftrightarrow> last_failures log' = 5)
   \<and> (\<forall>c. r = Exit c \<longrightarrow> c \<le> 1 \<and> n' = length (jobs_run log'))
   \<and> (\<forall>k. 0 < k \<and> k \<le> length log' \<longrightarrow> last_failures (drop k log') < 5)"
proof (induction f arbitrary: turns log n failures q)
  case (Suc f)
  have grow: "\<forall>k\<le>length (t # log). last_failures (drop k (t # log)) < 5" if "last_failures (t # log) < 5" for t
    using that Suc.prems(5) by (auto simp: drop_Cons split: nat.split)
  have tails: "\<forall>k. 0 < k \<and> k \<le> length (t # log) \<longrightarrow> last_failures (drop k (t # log)) < 5" for t
    using Suc.prems(5) by (auto simp: drop_Cons split: nat.split)
  obtain x q1 where x: "d_reserve (w_driver w) (a_queues a) (a_timeout a) (w_id w) q = (x, q1)" by (rule prod.exhaust)
  show ?case
  proof (cases "u_quit (turns 0)")
    case True
    then show ?thesis using Suc.prems by (auto simp: Let_def)
  next
    case False
    show ?thesis
    proof (cases x rule: fallible_option_cases)
      case (err e)
      show ?thesis
      proof (cases "failures + 1 \<ge> 5")
        case True
        then show ?thesis using Suc.prems False x err tails by (auto simp: Let_def MAX_CONSECUTIVE_FAILURES_def)
      next
        case small: False
        have "run_loop f w a (\<lambda>n. turns (Suc n)) (ReserveFailed # log) n (failures + 1) q1 = Some (r, n', log', q')"
          using Suc.prems(1) False x err small by (simp add: Let_def MAX_CONSECUTIVE_FAILURES_def)
        from Suc.IH [OF this _ _ _ grow] show ?thesis using Suc.prems(2-4) small by simp
      qed
    next
      case none
      show ?thesis
      proof (cases "a_stop_when_empty a \<or> limit_reached n (u_elapsed (turns 0)) (a_max_jobs a) (a_max_time a)")
        case True
        then show ?thesis using Suc.prems False x none tails by (auto simp: Let_def)
      next
        case go: False
        have "run_loop f w a (\<lambda>n. turns (Suc n)) (FoundNothing # log) n 0 q1 = Some (r, n', log', q')"
          using Suc.prems(1) False x none go by (simp add: Let_def)
        from Suc.IH [OF this _ _ _ grow] show ?thesis using Suc.prems(2-4) by simp
      qed
    next
      case (some j)
      obtain e q2 where e: "run_job w j q1 = (e, q2)" by (rule prod.exhaust)
      show ?thesis
      proof (cases "e = JobDone \<and> \<not> limit_reached (n + 1) (u_elapsed (turns 0)) (a_max_jobs a) (a_max_time a)")
        case True
        have "run_loop f w a (\<lambda>n. turns (Suc n)) (RanJob j # log) (n + 1) 0 q2 = Some (r, n', log', q')"
          using Suc.prems(1) False x some e True by (simp add: Let_def)
        from Suc.IH [OF this _ _ _ grow] show ?thesis using Suc.prems(2-4) by simp
      next
        case stop: False
        then show ?thesis using Suc.prems False x some e tails by (cases e) (auto simp: Let_def)
      qed
    qed
  qed
qed simp

text \<open>
  The exit code says what it is documented to say: a run that returns a code returns 1 exactly
  when its last five turns were failures to read the queue in a row, which never happened before
  that in the run, and 0 otherwise, however many jobs failed. The count it reports is the number
  of jobs it ran.
\<close>

theorem worker_exit_code:
  assumes "run f w a turns q = Some (Exit c, n, log, q')"
  shows "(c = 1 \<longleftrightarrow> last_failures log = 5) \<and> c \<le> 1 \<and> n = length (jobs_run log)
    \<and> (\<forall>k. 0 < k \<and> k \<le> length log \<longrightarrow> last_failures (drop k log) < 5)"
  using run_loop_log [OF assms [unfolded run_def]] by auto

text \<open>
  Backoff: the delay is never negative; a list gives attempt \<open>n\<close> its \<open>n\<close>th entry and every
  attempt past its end the last one; a single number is the same for all attempts; an empty list
  means no delay; without configuration the delays are 10, 60 and then 300 seconds.
\<close>

theorem backoff_schedule:
  "0 \<le> backoff n s \<and> backoff n (FixedStep d) = max 0 d \<and> backoff n (Steps []) = 0
   \<and> backoff n DefaultSteps = backoff n (Steps [10, 60, 300])
   \<and> (xs \<noteq> [] \<longrightarrow> n \<le> 1 \<longrightarrow> backoff n (Steps xs) = max 0 (hd xs))
   \<and> (1 \<le> n \<and> n \<le> int (length xs) \<longrightarrow> backoff n (Steps xs) = max 0 (xs ! nat (n - 1)))
   \<and> (xs \<noteq> [] \<longrightarrow> int (length xs) \<le> n \<longrightarrow> backoff n (Steps xs) = max 0 (last xs))"
proof -
  have "xs ! nat (min (max 0 (n - 1)) (int (length xs) - 1)) = last xs"
    if "xs \<noteq> []" "int (length xs) \<le> n"
  proof -
    have "0 < length xs" using that(1) by simp
    then have "nat (min (max 0 (n - 1)) (int (length xs) - 1)) = length xs - 1" using that(2) by linarith
    then show ?thesis by (simp only: last_conv_nth [OF that(1)])
  qed
  moreover have "xs ! nat (min (max 0 (n - 1)) (int (length xs) - 1)) = hd xs" if "xs \<noteq> []" "n \<le> 1"
  proof -
    have "0 < length xs" using that(1) by simp
    then have "min (max 0 (n - 1)) (int (length xs) - 1) = 0" using that(2) by linarith
    then show ?thesis using that(1) by (simp add: hd_conv_nth)
  qed
  moreover have "min (max 0 (n - 1)) (int (length xs) - 1) = n - 1" if "1 \<le> n \<and> n \<le> int (length xs)"
    using that by auto
  ultimately show ?thesis
    by (auto simp: backoff_def Let_def split: backoff_steps.split)
qed

text \<open>
  \<open>_rest\<close> always ends, sleeps in slices of at most a quarter of a second, never longer in all
  than asked, exactly that long when nobody asks the worker to quit, and not past the slice
  before which the quit flag is seen.
\<close>

theorem rest_slices:
  "(\<forall>s\<in>set (rest quit r). 0 < s \<and> s \<le> 250000) \<and> sum_list (rest quit r) \<le> max 0 r
   \<and> ((\<forall>n. \<not> quit n) \<longrightarrow> sum_list (rest quit r) = max 0 r)
   \<and> (\<forall>n. quit n \<longrightarrow> length (rest quit r) \<le> n)"
proof (induction quit r rule: rest.induct)
  case (1 quit r)
  show ?case
  proof (cases "r > 0 \<and> \<not> quit 0")
    case True
    have s: "rest quit r = min 250000 r # rest (\<lambda>n. quit (Suc n)) (r - min 250000 r)"
      using True by (subst rest.simps) simp
    note IH = 1 [OF True]
    have "length (rest quit r) \<le> n" if q: "quit n" for n
    proof (cases n)
      case (Suc k)
      then show ?thesis using IH q s by simp
    qed (use True q in simp)
    moreover have "sum_list (rest quit r) = max 0 r" if "\<forall>n. \<not> quit n"
      using IH that True unfolding s by simp
    moreover have "sum_list (rest quit r) \<le> max 0 r" "\<forall>s\<in>set (rest quit r). 0 < s \<and> s \<le> 250000"
      using IH True unfolding s by auto
    ultimately show ?thesis by blast
  next
    case False
    then have e: "rest quit r = []" by (subst rest.simps) auto
    show ?thesis unfolding e using False by auto
  qed
qed


section \<open>A job that was run is no longer held\<close>

lemma holds_claim_token:
  "\<lbrakk>j_id i = j_id j; j_attempts i = j_attempts j; j_reserved_by i = j_reserved_by j\<rbrakk> \<Longrightarrow>
     holds_claim i db = holds_claim j db"
  by (simp add: holds_claim_def cong: option.case_cong)

lemma completion_spends:
  assumes ok: "pg_ok db"
  shows "delete_stmt j db = (Inr b, db') \<Longrightarrow> \<not> holds_claim j db'"
    "release_stmt j a e db = (Inr b, db') \<Longrightarrow> \<not> holds_claim j db'"
    "fail_tx j e n db = (Inr b, db') \<Longrightarrow> \<not> holds_claim j db'"
proof -
  show "\<not> holds_claim j db'" if d: "delete_stmt j db = (Inr b, db')"
  proof (cases "holds_claim j db")
    case True
    then have "rows_of db' (j_id j) = None"
      using d delete_stmt_effect [OF ok, of j] by (auto simp: rows_of_def row_map_filter)
    then show ?thesis by (simp add: holds_claim_def read_job_rows)
  qed (use d delete_stmt_effect [OF ok, of j] in auto)
  show "\<not> holds_claim j db'" if r: "release_stmt j a e db = (Inr b, db')"
    using ok
  proof (cases rule: release_stmt_cases [of db j a e])
    case (ran t)
    show ?thesis
    proof (cases "holds_claim j db")
      case True
      then obtain s where s: "rows_of db (j_id j) = Some s"
        using holds_claim_row [OF ok] by (metis read_job_rows)
      have "rows_of db' = (rows_of db)(j_id j \<mapsto> release_row a t s)"
        using r ran True row_map_map [of "release_row a t" "t_jobs db" "j_id j" s] s
        by (auto simp: rows_of_def release_row_def)
      then show ?thesis by (simp add: holds_claim_def read_job_rows owned_def release_row_def)
    qed (use r ran in auto)
  qed (use r in auto)
  show "\<not> holds_claim j db'" if f: "fail_tx j e n db = (Inr b, db')"
    using ok
  proof (cases rule: fail_tx_cases [of db j e n])
    case (moved r t)
    have "r_id r = j_id j" using moved(2) read_job_iff [OF ok] by simp
    then have "rows_of db' (j_id j) = None" using f moved(4) rows_buried [of r t n db] by auto
    then show ?thesis by (simp add: holds_claim_def read_job_rows)
  qed (use f in auto)
qed

text \<open>
  The three ways to settle a claim, as effects on the tables: the row is gone; the row is back in the queue,
  unreserved, due at a moment, with an error text and its attempts as counted; the row is gone and stands in
  the failed table, with its payload and attempts.
\<close>

definition removed_in :: "job \<Rightarrow> pgdb \<Rightarrow> pgdb \<Rightarrow> bool" where
  "removed_in j db db' \<longleftrightarrow> db' = db\<lparr>t_jobs := filter (\<lambda>r. r_id r \<noteq> j_id j) (t_jobs db)\<rparr>"

definition put_back_in :: "job \<Rightarrow> int \<Rightarrow> codes \<Rightarrow> pgdb \<Rightarrow> pgdb \<Rightarrow> bool" where
  "put_back_in j due error db db' \<longleftrightarrow> (\<exists>t. fit_error error = Inr t \<and>
     db' = db\<lparr>t_jobs := map (\<lambda>r. if r_id r = j_id j
       then r\<lparr>r_reserved_until := None, r_reserved_by := None, r_available_at := due, r_last_error := t\<rparr> else r) (t_jobs db)\<rparr>)"

definition moved_in :: "job \<Rightarrow> codes \<Rightarrow> int \<Rightarrow> pgdb \<Rightarrow> pgdb \<Rightarrow> bool" where
  "moved_in j error now db db' \<longleftrightarrow> (\<exists>t r. fit_error error = Inr t \<and> r \<in> set (t_jobs db) \<and> r_id r = j_id j \<and> r_attempts r = j_attempts j \<and>
     db' = db\<lparr>t_jobs := filter (\<lambda>r. r_id r \<noteq> j_id j) (t_jobs db),
              t_failed := t_failed db @ [\<lparr>f_id = t_failed_seq db, f_queue = r_queue r, f_name = r_name r, f_payload = r_payload r,
                f_attempts = j_attempts j, f_error = t, f_failed_at = now\<rparr>],
              t_failed_seq := t_failed_seq db + 1\<rparr>)"

definition settled_as :: "job \<Rightarrow> (pgdb \<Rightarrow> pgdb \<Rightarrow> bool) \<Rightarrow> pgworld \<Rightarrow> pgdb \<Rightarrow> bool" where
  "settled_as j how w db' \<longleftrightarrow>
     (let db = v_others (snd w 0) (fst w) in if holds_claim j db then how db db' else db' = db) \<and> \<not> holds_claim j db'"

lemma bind_text_same: "bind_text t = Inr t1 \<Longrightarrow> t1 = t"
  by (auto simp: bind_text_def split: if_splits)

lemma delete_settles:
  assumes "pg_ok db" "delete_stmt j db = (Inr x, db')"
  shows "if holds_claim j db then removed_in j db db' else db' = db"
  using assms delete_stmt_effect [OF assms(1), of j] by (auto simp: removed_in_def)

lemma release_settles:
  assumes ok: "pg_ok db" and e: "release_stmt j due error db = (Inr x, db')"
  shows "if holds_claim j db then put_back_in j due error db db' else db' = db"
proof -
  obtain t t1 where t: "fit_error error = Inr t" "bind_text t = Inr t1"
    using e by (auto simp: release_stmt_def split: sum.splits)
  have "t1 = t" by (rule bind_text_same [OF t(2)])
  with release_stmt_effect [OF ok t, of j due] e t show ?thesis
    by (auto simp: put_back_in_def release_row_def intro!: exI [of _ t])
qed

lemma fail_settles:
  assumes ok: "pg_ok db" and e: "fail_tx j error now db = (Inr x, db')"
  shows "if holds_claim j db then moved_in j error now db db' else db' = db"
  using ok
proof (cases rule: fail_tx_cases [of db j error now])
  case (moved r t)
  have r: "r \<in> set (t_jobs db)" "r_id r = j_id j" using moved(2) read_job_iff [OF ok] by auto
  have "r_attempts r = j_attempts j" using moved(1,2) by (simp add: holds_claim_def owned_def)
  with moved e r show ?thesis by (auto simp: moved_in_def buried_db_def failed_row_def intro!: exI [of _ r])
qed (use e in auto)

lemma visit_settles:
  assumes w: "pg_ok (fst w)" "fair w"
    and b: "\<And>db r db'. \<lbrakk>pg_ok db; body (snd w 0) db = (Inr r, db')\<rbrakk> \<Longrightarrow> if holds_claim j db then how db db' else db' = db"
    and s: "\<And>v db r db'. \<lbrakk>pg_ok db; body v db = (Inr r, db')\<rbrakk> \<Longrightarrow> \<not> holds_claim j db'"
    and e: "end_of (ignore_stale (at_visit body w)) = (JobDone, w')"
  shows "settled_as j how w (fst w')"
proof -
  obtain x w1 where x: "at_visit body w = (x, w1)" by (rule prod.exhaust)
  then obtain y where y: "x = Inr y" "w' = w1"
    using e by (cases x) (auto simp: ignore_stale_def end_of_def)
  have ok: "pg_ok (v_others (snd w 0) (fst w))" using w steps_ok by (auto simp: fair_def)
  from x [unfolded y] show ?thesis
    by (cases rule: at_visit_cases) (use b [OF ok] s [OF ok] y in \<open>auto simp: settled_as_def Let_def\<close>)
qed

lemma pg_completions_settle:
  assumes w: "pg_ok (fst w)" "fair w"
  shows "end_of (d_delete pg_driver j w) = (JobDone, w') \<Longrightarrow> settled_as j (removed_in j) w (fst w')"
    "end_of (d_release pg_driver j a e w) = (JobDone, w') \<Longrightarrow>
       settled_as j (put_back_in j (v_now (snd w 0) + max 0 a * 1000000) e) w (fst w')"
    "end_of (d_fail pg_driver j e w) = (JobDone, w') \<Longrightarrow> settled_as j (moved_in j e (v_end (snd w 0))) w (fst w')"
proof -
  show "settled_as j (removed_in j) w (fst w')" if "end_of (d_delete pg_driver j w) = (JobDone, w')"
    by (rule visit_settles [OF w delete_settles completion_spends(1), where body = "\<lambda>v. delete_stmt j"])
      (use that in \<open>simp_all add: pg_driver_def delete_def\<close>)
  show "settled_as j (put_back_in j (v_now (snd w 0) + max 0 a * 1000000) e) w (fst w')" if r: "end_of (d_release pg_driver j a e w) = (JobDone, w')"
  proof (cases "add_seconds (v_now (snd w 0)) (max 0 a)")
    case (Inr t)
    then have "t = v_now (snd w 0) + max 0 a * 1000000" by (simp add: add_seconds_def split: if_splits)
    moreover have "settled_as j (put_back_in j t e) w (fst w')"
      by (rule visit_settles [OF w release_settles completion_spends(2), where body = "\<lambda>v. release_stmt j t e"])
        (use r Inr in \<open>simp_all add: pg_driver_def release_def\<close>)
    ultimately show ?thesis by simp
  qed (use r in \<open>simp add: pg_driver_def release_def end_of_def\<close>)
  show "settled_as j (moved_in j e (v_end (snd w 0))) w (fst w')" if "end_of (d_fail pg_driver j e w) = (JobDone, w')"
    by (rule visit_settles [OF w fail_settles completion_spends(3), where body = "\<lambda>v. fail_tx j e (v_end v)"])
      (use that in \<open>simp_all add: pg_driver_def fail_def\<close>)
qed

text \<open>What calling the handler of a job comes to; a handler that cannot be resolved counts as one that raised.\<close>

definition handler_outcome :: "('h, 'q) worker \<Rightarrow> job \<Rightarrow> 'q \<Rightarrow> outcome \<times> 'q" where
  "handler_outcome w j q =
     (case resolve (w_import w) (j_name j) (w_handlers w) of
        Inl e \<Rightarrow> (Raised (w_detail w e), q)
      | Inr h \<Rightarrow> w_call w h (j_payload j) j q)"

lemma settled_as_token:
  assumes "j_id i = j_id j" "j_attempts i = j_attempts j" "j_reserved_by i = j_reserved_by j" "settled_as i how w db"
  shows "settled_as j how w db"
proof -
  have "holds_claim j x = holds_claim i x" for x by (rule holds_claim_token) (use assms in simp_all)
  then show ?thesis using assms(4) unfolding settled_as_def by simp
qed

text \<open>
  C22. One reserve, one completion. When running a job returns normally, the claim under which it was handed
  out is spent, and as the outcome says: after a handler that returned the row is gone; after one that asked for
  a release the row is back in the queue, due after that delay; after one that raised, timed out or could
  not be resolved the row is back, due after the backoff of this attempt, or on the last attempt it is in the failed
  table. A row that is back has its attempts as they were counted. When the claim had run out and was taken
  over meanwhile, nothing changes.
\<close>

theorem run_job_spends_claim:
  assumes "pg_ok (fst q)" "fair q" "w_driver w = pg_driver"
    and "\<And>h p i q. \<lbrakk>pg_ok (fst q); fair q\<rbrakk> \<Longrightarrow> pg_ok (fst (snd (w_call w h p i q))) \<and> fair (snd (w_call w h p i q))"
    and "\<And>h p i q i'. fst (w_call w h p i q) = Returned i' \<Longrightarrow>
      j_id i' = j_id i \<and> j_attempts i' = j_attempts i \<and> j_reserved_by i' = j_reserved_by i"
    and "run_job w j q = (JobDone, q')" and "handler_outcome w j q = (oc, q1)"
  shows "settled_as j
    (case oc of
       Returned i \<Rightarrow> (case j_release_delay i of
                        None \<Rightarrow> removed_in j
                      | Some delay \<Rightarrow> put_back_in j (v_now (snd q1 0) + max 0 delay * 1000000) [])
     | Raised e \<Rightarrow> (if j_max_attempts j \<le> j_attempts j then moved_in j e (v_end (snd q1 0))
                    else put_back_in j (v_now (snd q1 0) + backoff (j_attempts j) (w_backoff w) * 1000000) e)
     | Cancelled \<Rightarrow> (\<lambda>db db'. False)) q1 (fst q')"
proof -
  have b0: "max 0 (backoff n st) = backoff n st" for n st by (auto simp: backoff_def Let_def split: backoff_steps.splits)
  have failed: "settled_as j (if j_max_attempts j \<le> j_attempts j then moved_in j x (v_end (snd a 0))
      else put_back_in j (v_now (snd a 0) + backoff (j_attempts j) (w_backoff w) * 1000000) x) a (fst b)"
    if "pg_ok (fst a)" "fair a" "job_failed w j x a = (JobDone, b)" for a b x
    using pg_completions_settle(2,3) [OF that(1,2)] that(3) assms(3)
    by (fastforce simp: job_failed_def is_last_attempt_def b0 split: if_splits)
  show ?thesis
  proof (cases "resolve (w_import w) (j_name j) (w_handlers w)")
    case (Inl e)
    then have "oc = Raised (w_detail w e)" "q1 = q" using assms(7) by (auto simp: handler_outcome_def)
    then show ?thesis unfolding \<open>oc = _\<close> \<open>q1 = q\<close> outcome.case
      by (intro failed [OF assms(1,2)]) (use assms(6) Inl in \<open>simp add: run_job_def\<close>)
  next
    case (Inr h)
    then have oc: "w_call w h (j_payload j) j q = (oc, q1)" using assms(7) by (simp add: handler_outcome_def)
    have q1: "pg_ok (fst q1)" "fair q1" using assms(4) [OF assms(1,2), of h "j_payload j" j] oc by auto
    show ?thesis
    proof (cases oc)
      case (Returned i)
      have i: "j_id i = j_id j" "j_attempts i = j_attempts j" "j_reserved_by i = j_reserved_by j"
        using assms(5) [of h "j_payload j" j q i] oc Returned by auto
      have how: "removed_in i = removed_in j" "put_back_in i = put_back_in j" by (auto simp: removed_in_def put_back_in_def i fun_eq_iff)
      show ?thesis
      proof (cases "j_release_delay i")
        case None
        then have "settled_as i (removed_in i) q1 (fst q')"
          using pg_completions_settle(1) [OF q1] assms(3,6) Inr oc Returned by (simp add: run_job_def was_released_def)
        then show ?thesis using settled_as_token [OF i] None Returned how by simp
      next
        case (Some delay)
        then have "settled_as i (put_back_in i (v_now (snd q1 0) + max 0 delay * 1000000) []) q1 (fst q')"
          using pg_completions_settle(2) [OF q1] assms(3,6) Inr oc Returned by (simp add: run_job_def was_released_def release_delay_def)
        then show ?thesis using settled_as_token [OF i] Some Returned how by simp
      qed
    next
      case (Raised e)
      show ?thesis unfolding Raised outcome.case by (rule failed [OF q1]) (use assms(6) Inr oc Raised in \<open>simp add: run_job_def\<close>)
    next
      case Cancelled
      then show ?thesis using assms(6) Inr oc by (simp add: run_job_def)
    qed
  qed
qed

section \<open>Witnesses\<close>

definition demo_worker :: "(nat, pgworld) worker" where
  "demo_worker = \<lparr>w_driver = pg_driver, w_import = (\<lambda>_. NoModule), w_handlers = [(''mail'', PFun 1)],
     w_call = (\<lambda>h p j q. (Returned j, q)), w_detail = (\<lambda>_. []), w_backoff = DefaultSteps, w_id = ''a''\<rparr>"

definition demo_args :: run_args where
  "demo_args = \<lparr>a_queues = [''default''], a_timeout = 1, a_max_jobs = 0, a_max_time = 0, a_stop_when_empty = True\<rparr>"

definition demo_turns :: "nat \<Rightarrow> turn" where
  "demo_turns n = \<lparr>u_quit = False, u_elapsed = 0\<rparr>"

definition demo_world :: pgworld where
  "demo_world = (demo_db 2 [demo_row 0 None None], \<lambda>_. calm 100)"

lemma demo_lean: "lean demo_world"
  by (simp add: lean_def demo_world_def demo_pg_ok)

theorem worker_drains_and_stops_witness:
  "\<exists>r. run 20 demo_worker demo_args demo_turns demo_world = Some r"
proof (rule worker_drains_and_stops)
  show "5 * left_attempts (fst demo_world) + 5 \<le> 20"
    by (simp add: demo_world_def left_attempts_def demo_db_def demo_row_def)
qed (simp_all add: demo_lean demo_args_def demo_worker_def)

definition down_world :: pgworld where
  "down_world = (demo_db 1 [], \<lambda>_. (calm 0)\<lparr>v_down := True\<rparr>)"

lemma down_reserve: "reserve [''default''] 1 ''a'' down_world = (Inl OperationalError, down_world)"
  by (simp add: first_round down_world_def add_seconds_def max_datetime_def at_visit_def)

lemma down_run:
  "run 5 demo_worker demo_args demo_turns down_world
     = Some (Exit 1, 0, replicate 5 ReserveFailed, down_world)"
proof -
  have "d_reserve (w_driver demo_worker) (a_queues demo_args) (a_timeout demo_args) (w_id demo_worker) down_world
      = (Inl OperationalError, down_world)"
    using down_reserve by (simp add: demo_worker_def demo_args_def pg_driver_def)
  moreover have "\<not> u_quit (demo_turns n)" for n by (simp add: demo_turns_def)
  ultimately show ?thesis
    by (simp add: run_def eval_nat_numeral MAX_CONSECUTIVE_FAILURES_def Let_def)
qed

theorem worker_exit_code_witness:
  "last_failures (replicate 5 ReserveFailed) = 5 \<and> (0::nat) = length (jobs_run (replicate 5 ReserveFailed))"
  using worker_exit_code [OF down_run] by simp

theorem backoff_schedule_witness:
  "backoff 2 (Steps [10, 60, 300]) = 60 \<and> backoff 9 (Steps [10, 60, 300]) = 300"
  using backoff_schedule [of 2 DefaultSteps 0 "[10, 60, 300]"]
    backoff_schedule [of 9 DefaultSteps 0 "[10, 60, 300]"] by simp

theorem rest_slices_witness:
  "sum_list (rest (\<lambda>_. False) 600000) = 600000 \<and> length (rest (\<lambda>n. 1 \<le> n) 600000) \<le> 1"
  using rest_slices [of "\<lambda>_. False" 600000] rest_slices [of "\<lambda>n. 1 \<le> n" 600000] by force


definition held_world :: pgworld where
  "held_world = (demo_db 2 [demo_row 1 (Some 1000100) (Some ''a'')], \<lambda>_. calm 100)"

lemma held_run: "run_job demo_worker (demo_job 1 ''a'') held_world = (JobDone, (demo_db 2 [], \<lambda>_. calm 100))"
  by (simp add: run_job_def demo_worker_def demo_job_def resolve_def choose_target_def callable_of_def
      was_released_def pg_driver_def delete_def at_visit_def held_world_def delete_stmt_def job_guard_def
      owned_def demo_db_def demo_row_def ignore_stale_def end_of_def)

theorem run_job_spends_claim_witness:
  "holds_claim (demo_job 1 ''a'') (fst held_world) \<and> settled_as (demo_job 1 ''a'') (removed_in (demo_job 1 ''a'')) held_world (demo_db 2 [])"
proof
  show "holds_claim (demo_job 1 ''a'') (fst held_world)"
    by (simp add: holds_claim_def held_world_def demo_db_def demo_row_def demo_job_def read_job_def owned_def)
  have oc: "handler_outcome demo_worker (demo_job 1 ''a'') held_world = (Returned (demo_job 1 ''a''), held_world)"
    by (simp add: handler_outcome_def demo_worker_def demo_job_def resolve_def choose_target_def callable_of_def)
  have "settled_as (demo_job 1 ''a'') (case Returned (demo_job 1 ''a'') of
       Returned i \<Rightarrow> (case j_release_delay i of
                        None \<Rightarrow> removed_in (demo_job 1 ''a'')
                      | Some delay \<Rightarrow> put_back_in (demo_job 1 ''a'') (v_now (snd held_world 0) + max 0 delay * 1000000) [])
     | Raised e \<Rightarrow> (if j_max_attempts (demo_job 1 ''a'') \<le> j_attempts (demo_job 1 ''a'') then moved_in (demo_job 1 ''a'') e (v_end (snd held_world 0))
                    else put_back_in (demo_job 1 ''a'') (v_now (snd held_world 0) + backoff (j_attempts (demo_job 1 ''a'')) (w_backoff demo_worker) * 1000000) e)
     | Cancelled \<Rightarrow> (\<lambda>db db'. False)) held_world (fst (demo_db 2 [], \<lambda>_::nat. calm 100))"
    by (rule run_job_spends_claim [OF _ _ _ _ _ held_run oc])
      (auto simp: held_world_def demo_worker_def demo_db_def demo_row_def pg_ok_def row_ok_def int4_def)
  then show "settled_as (demo_job 1 ''a'') (removed_in (demo_job 1 ''a'')) held_world (demo_db 2 [])" by (simp add: demo_job_def)
qed

end
