(* ===== verification/Queue_Redis.thy ===== *)
theory Queue_Redis
  imports Queue_Worker
begin

text \<open>
  The Redis queue driver, \<open>queue/driver_redis.py\<close>: its Lua scripts, each of which the server runs as
  one step, and the methods that call them. Keys are typed: the hash of a job, a stream per queue
  and priority with its consumer group, the sorted sets and the unique keys; the configured prefix
  is the same for all of them and left out. Scripts get the time of the caller in seconds, the
  server's own clock, which measures how long an entry has been idle, is in milliseconds.
\<close>

section \<open>The keys\<close>

record rhash =
  h_queue :: string
  h_name :: string
  h_payload :: codes
  h_attempts :: int
  h_max_attempts :: int
  h_priority :: int
  h_unique_key :: string
  h_available_at :: int
  h_reserved_until :: int
  h_reserved_by :: string
  h_last_error :: codes
  h_created_at :: int
  h_entry :: "nat option"
  h_error :: codes
  h_failed_at :: "int option"

text \<open>
  A stream with its group: the entries, the delivered ones with the time of delivery, the last one
  delivered, and the number of the next entry.
\<close>

record rstream =
  x_entries :: "(nat \<times> int) list"
  x_pending :: "(nat \<times> int) list"
  x_last :: nat
  x_next :: nat

definition empty_stream :: rstream where
  "empty_stream = \<lparr>x_entries = [], x_pending = [], x_last = 0, x_next = 1\<rparr>"

record rdb =
  d_jobs :: "int \<rightharpoonup> rhash"
  d_streams :: "string \<times> int \<Rightarrow> rstream"
  d_levels :: "string \<Rightarrow> int list"
  d_delayed :: "string \<Rightarrow> (int, int) dict"
  d_unique :: "string \<rightharpoonup> int"
  d_failed :: "(int, int) dict"
  d_queues :: "string list"
  d_seq :: int

definition empty_db :: rdb where
  "empty_db = \<lparr>d_jobs = Map.empty, d_streams = (\<lambda>_. empty_stream), d_levels = (\<lambda>_. []), d_delayed = (\<lambda>_. []),
     d_unique = Map.empty, d_failed = [], d_queues = [], d_seq = 0\<rparr>"

text \<open>A sorted set: members by score, and by text where scores are equal.\<close>

definition by_score :: "(int, int) dict \<Rightarrow> int list" where
  "by_score z = map fst (sort_key (\<lambda>(i, score). (score, show_int i)) z)"

definition stream_update :: "string \<times> int \<Rightarrow> (rstream \<Rightarrow> rstream) \<Rightarrow> rdb \<Rightarrow> rdb" where
  "stream_update k f d = d\<lparr>d_streams := (d_streams d)(k := f (d_streams d k))\<rparr>"

definition job_update :: "int \<Rightarrow> (rhash \<Rightarrow> rhash) \<Rightarrow> rdb \<Rightarrow> rdb" where
  "job_update i f d = d\<lparr>d_jobs := (d_jobs d)(i := map_option f (d_jobs d i))\<rparr>"

definition delayed_update :: "string \<Rightarrow> ((int, int) dict \<Rightarrow> (int, int) dict) \<Rightarrow> rdb \<Rightarrow> rdb" where
  "delayed_update q f d = d\<lparr>d_delayed := (d_delayed d)(q := f (d_delayed d q))\<rparr>"

text \<open>\<open>XADD\<close>, the field \<open>entry\<close> of the hash, and the level among the queue's levels.\<close>

definition add_entry :: "string \<Rightarrow> int \<Rightarrow> int \<Rightarrow> rdb \<Rightarrow> rdb" where
  "add_entry queue level i d =
     (let e = x_next (d_streams d (queue, level));
          d1 = stream_update (queue, level) (\<lambda>s. s\<lparr>x_entries := x_entries s @ [(e, i)], x_next := e + 1\<rparr>) d;
          d2 = job_update i (\<lambda>h. h\<lparr>h_entry := Some e\<rparr>) d1
      in d2\<lparr>d_levels := (d_levels d2)(queue := List.insert level (d_levels d2 queue))\<rparr>)"

text \<open>\<open>XACK\<close> and \<open>XDEL\<close> of an entry.\<close>

definition drop_entry :: "string \<times> int \<Rightarrow> nat \<Rightarrow> rdb \<Rightarrow> rdb" where
  "drop_entry k e = stream_update k (\<lambda>s. s\<lparr>x_entries := filter (\<lambda>x. fst x \<noteq> e) (x_entries s), x_pending := AList.delete e (x_pending s)\<rparr>)"

definition release_unique :: "string \<Rightarrow> rdb \<Rightarrow> rdb" where
  "release_unique uk d = (if uk \<noteq> [] then d\<lparr>d_unique := (d_unique d)(uk := None)\<rparr> else d)"

section \<open>The scripts\<close>

definition push_new ::
  "string \<Rightarrow> string \<Rightarrow> codes \<Rightarrow> int \<Rightarrow> int \<Rightarrow> string \<Rightarrow> int \<Rightarrow> int \<Rightarrow> int \<Rightarrow> rdb \<Rightarrow> int \<times> rdb" where
  "push_new queue name payload priority max_attempts uk available_at created_at now d =
     (let i = d_seq d + 1;
          h = \<lparr>h_queue = queue, h_name = name, h_payload = payload, h_attempts = 0, h_max_attempts = max_attempts,
               h_priority = priority, h_unique_key = uk, h_available_at = available_at, h_reserved_until = 0, h_reserved_by = [],
               h_last_error = [], h_created_at = created_at, h_entry = None, h_error = [], h_failed_at = None\<rparr>;
          d1 = d\<lparr>d_seq := i, d_jobs := (d_jobs d)(i \<mapsto> h)\<rparr>;
          d2 = (if uk \<noteq> [] then d1\<lparr>d_unique := (d_unique d1)(uk \<mapsto> i)\<rparr> else d1);
          d3 = d2\<lparr>d_queues := List.insert queue (d_queues d2)\<rparr>
      in (i, if now < available_at then delayed_update queue (AList.update i available_at) d3 else add_entry queue priority i d3))"

definition push_script ::
  "string \<Rightarrow> string \<Rightarrow> codes \<Rightarrow> int \<Rightarrow> int \<Rightarrow> string \<Rightarrow> int \<Rightarrow> int \<Rightarrow> int \<Rightarrow> rdb \<Rightarrow> int \<times> rdb" where
  "push_script queue name payload priority max_attempts uk available_at created_at now d =
     (case (if uk \<noteq> [] then d_unique d uk else None) of
        Some held \<Rightarrow>
          if d_jobs d held \<noteq> None then (held, d)
          else push_new queue name payload priority max_attempts uk available_at created_at now (release_unique uk d)
      | None \<Rightarrow> push_new queue name payload priority max_attempts uk available_at created_at now d)"

text \<open>Moving what is due from the delayed set to its stream.\<close>

definition promote_one :: "string \<Rightarrow> int \<Rightarrow> rdb \<Rightarrow> rdb" where
  "promote_one queue i d =
     (if map_of (d_delayed d queue) i = None then d
      else (let d1 = delayed_update queue (AList.delete i) d
            in case d_jobs d1 i of None \<Rightarrow> d1 | Some h \<Rightarrow> add_entry queue (h_priority h) i d1))"

definition PROMOTE_LIMIT :: nat where "PROMOTE_LIMIT = 50"

definition promote_due :: "string \<Rightarrow> int \<Rightarrow> rdb \<Rightarrow> rdb" where
  "promote_due queue now d =
     fold (promote_one queue) (take PROMOTE_LIMIT (by_score (filter (\<lambda>x. snd x \<le> now) (d_delayed d queue)))) d"

text \<open>
  \<open>XAUTOCLAIM\<close> takes the first delivered entry that has been idle for the timeout, \<open>XREADGROUP\<close>
  the first one not delivered yet; either is delivered now.
\<close>

definition take_entry :: "int \<Rightarrow> int \<Rightarrow> rstream \<Rightarrow> (nat \<times> int) option \<times> rstream" where
  "take_entry idle clock s =
     (case find (\<lambda>x. case map_of (x_pending s) (fst x) of None \<Rightarrow> False | Some t \<Rightarrow> idle \<le> clock - t) (x_entries s) of
        Some x \<Rightarrow> (Some x, s\<lparr>x_pending := AList.update (fst x) clock (x_pending s)\<rparr>)
      | None \<Rightarrow>
          (case find (\<lambda>x. x_last s < fst x) (x_entries s) of
             Some x \<Rightarrow> (Some x, s\<lparr>x_pending := AList.update (fst x) clock (x_pending s), x_last := fst x\<rparr>)
           | None \<Rightarrow> (None, s)))"

definition bury :: "codes \<Rightarrow> int \<Rightarrow> int \<Rightarrow> int \<Rightarrow> rdb \<Rightarrow> rdb" where
  "bury error failed_at now i d =
     (let uk = (case d_jobs d i of None \<Rightarrow> [] | Some h \<Rightarrow> h_unique_key h);
          d1 = release_unique uk d;
          d2 = job_update i (\<lambda>h. h\<lparr>h_unique_key := [], h_error := error, h_failed_at := Some failed_at, h_reserved_until := 0,
                 h_reserved_by := [], h_entry := None\<rparr>) d1
      in d2\<lparr>d_failed := AList.update i now (d_failed d2)\<rparr>)"

record reserve_args =
  a_now :: int
  a_clock :: int
  a_hold :: int
  a_worker :: string

text \<open>What one round does with the entry it took; \<open>None\<close> lets the loop go on.\<close>

definition consider_entry ::
  "reserve_args \<Rightarrow> string \<Rightarrow> int \<Rightarrow> nat \<Rightarrow> int \<Rightarrow> rdb \<Rightarrow> (int \<times> nat \<times> rhash) option \<times> rdb" where
  "consider_entry a queue level e i d =
     (case d_jobs d i of
        None \<Rightarrow> (None, drop_entry (queue, level) e d)
      | Some h \<Rightarrow>
          if a_now a < h_reserved_until h then
            (None, drop_entry (queue, level) e
                     (job_update i (\<lambda>h. h\<lparr>h_entry := None\<rparr>) (delayed_update queue (AList.update i (h_reserved_until h)) d)))
          else if h_max_attempts h \<le> h_attempts h then
            (None, bury EXHAUSTED_ERROR (a_now a) (a_now a) i (drop_entry (queue, level) e d))
          else (let h1 = h\<lparr>h_attempts := h_attempts h + 1, h_reserved_by := a_worker a,
                           h_reserved_until := a_now a + a_hold a, h_entry := Some e\<rparr>
                in (Some (i, e, h1), d\<lparr>d_jobs := (d_jobs d)(i \<mapsto> h1)\<rparr>)))"

fun level_rounds :: "nat \<Rightarrow> reserve_args \<Rightarrow> string \<Rightarrow> int \<Rightarrow> rdb \<Rightarrow> (int \<times> nat \<times> rhash) option \<times> rdb" where
  "level_rounds 0 a queue level d = (None, d)"
| "level_rounds (Suc n) a queue level d =
     (case take_entry (a_hold a * 1000) (a_clock a) (d_streams d (queue, level)) of
        (None, s) \<Rightarrow> (None, d)
      | (Some (e, i), s) \<Rightarrow>
          (case consider_entry a queue level e i (d\<lparr>d_streams := (d_streams d)((queue, level) := s)\<rparr>) of
             (Some r, d1) \<Rightarrow> (Some r, d1)
           | (None, d1) \<Rightarrow> level_rounds n a queue level d1))"

fun try_levels :: "int list \<Rightarrow> reserve_args \<Rightarrow> string \<Rightarrow> rdb \<Rightarrow> (int \<times> nat \<times> rhash) option \<times> rdb" where
  "try_levels [] a queue d = (None, d)"
| "try_levels (l # ls) a queue d =
     (case level_rounds CLAIM_ROUNDS a queue l d of
        (Some r, d1) \<Rightarrow> (Some r, d1)
      | (None, d1) \<Rightarrow> try_levels ls a queue d1)"

definition reserve_script :: "reserve_args \<Rightarrow> string \<Rightarrow> rdb \<Rightarrow> (int \<times> nat \<times> rhash) option \<times> rdb" where
  "reserve_script a queue d =
     (let d1 = promote_due queue (a_now a) d in try_levels (rev (sort (d_levels d1 queue))) a queue d1)"

text \<open>\<open>_HELD\<close>: the hash says that this worker holds this attempt.\<close>

definition held :: "int \<Rightarrow> string \<Rightarrow> int \<Rightarrow> rdb \<Rightarrow> rhash option" where
  "held i worker attempts d =
     (case d_jobs d i of
        None \<Rightarrow> None
      | Some h \<Rightarrow> if h_reserved_by h = worker \<and> h_attempts h = attempts then Some h else None)"

definition complete_script :: "string \<Rightarrow> int \<Rightarrow> nat \<Rightarrow> string \<Rightarrow> int \<Rightarrow> rdb \<Rightarrow> bool \<times> rdb" where
  "complete_script queue i e worker attempts d =
     (case held i worker attempts d of
        None \<Rightarrow> (False, d)
      | Some h \<Rightarrow>
          (let d1 = release_unique (h_unique_key h) (drop_entry (queue, h_priority h) e d)
           in (True, d1\<lparr>d_jobs := (d_jobs d1)(i := None)\<rparr>)))"

definition release_script :: "string \<Rightarrow> int \<Rightarrow> nat \<Rightarrow> string \<Rightarrow> int \<Rightarrow> int \<Rightarrow> codes \<Rightarrow> rdb \<Rightarrow> bool \<times> rdb" where
  "release_script queue i e worker attempts available_at error d =
     (case held i worker attempts d of
        None \<Rightarrow> (False, d)
      | Some h \<Rightarrow>
          (let d1 = delayed_update queue (AList.update i available_at) d;
               d2 = job_update i (\<lambda>h. h\<lparr>h_available_at := available_at, h_reserved_until := 0, h_reserved_by := [],
                      h_last_error := error, h_entry := None\<rparr>) d1
           in (True, drop_entry (queue, h_priority h) e d2)))"

definition fail_script :: "string \<Rightarrow> int \<Rightarrow> nat \<Rightarrow> string \<Rightarrow> int \<Rightarrow> codes \<Rightarrow> int \<Rightarrow> int \<Rightarrow> rdb \<Rightarrow> bool \<times> rdb" where
  "fail_script queue i e worker attempts error now failed_at d =
     (case held i worker attempts d of
        None \<Rightarrow> (False, d)
      | Some h \<Rightarrow> (True, bury error failed_at now i (drop_entry (queue, h_priority h) e d)))"

definition requeue_script :: "int \<Rightarrow> int \<Rightarrow> int \<Rightarrow> rdb \<Rightarrow> bool \<times> rdb" where
  "requeue_script i max_attempts now d =
     (if map_of (d_failed d) i = None then (False, d)
      else (let d1 = d\<lparr>d_failed := AList.delete i (d_failed d)\<rparr>
            in case d_jobs d1 i of
                 None \<Rightarrow> (False, d1)
               | Some h \<Rightarrow>
                   (let queue = (if h_queue h = [] then ''default'' else h_queue h);
                        d2 = job_update i (\<lambda>h. h\<lparr>h_attempts := 0, h_max_attempts := max_attempts, h_priority := 0, h_unique_key := [],
                               h_available_at := now, h_reserved_until := 0, h_reserved_by := [], h_last_error := [], h_error := [],
                               h_failed_at := None\<rparr>) d1;
                        d3 = add_entry queue 0 i d2
                    in (True, d3\<lparr>d_queues := List.insert queue (d_queues d3)\<rparr>))))"

definition forget_script :: "int \<Rightarrow> rdb \<Rightarrow> bool \<times> rdb" where
  "forget_script i d =
     (if map_of (d_failed d) i = None then (False, d)
      else (True, d\<lparr>d_failed := AList.delete i (d_failed d), d_jobs := (d_jobs d)(i := None)\<rparr>))"

section \<open>The methods\<close>

text \<open>
  Each call of a script or a command is a \<open>rcall\<close>: what the others did since the last one, the
  caller's time in seconds, the server's clock, and whether the connection is down.
\<close>

record rcall =
  c_now :: int
  c_clock :: int
  c_down :: bool
  c_others :: "rdb \<Rightarrow> rdb"

type_synonym rworld = "rdb \<times> (nat \<Rightarrow> rcall)"

definition at_call :: "(rcall \<Rightarrow> rdb \<Rightarrow> (qerror + 'a) \<times> rdb) \<Rightarrow> rworld \<Rightarrow> (qerror + 'a) \<times> rworld" where
  "at_call body w =
     (let c = snd w 0; others = (\<lambda>n. snd w (Suc n)); d = c_others c (fst w)
      in if c_down c then (Inl (OtherError ''ConnectionError''), (d, others))
         else let (r, d1) = body c d in (r, (d1, others)))"

definition or_default :: "string \<Rightarrow> string" where
  "or_default q = (if q = [] then ''default'' else q)"

definition rpush ::
  "string \<Rightarrow> json \<Rightarrow> int \<Rightarrow> string \<Rightarrow> int \<Rightarrow> string option \<Rightarrow> int \<Rightarrow> rworld \<Rightarrow> (qerror + int) \<times> rworld" where
  "rpush name payload delay queue priority unique max_attempts w =
     (case encode_payload payload of
        Inl e \<Rightarrow> (Inl e, w)
      | Inr text \<Rightarrow>
          at_call (\<lambda>c d. let (i, d1) = push_script (or_default queue) name text priority (max 1 max_attempts)
                               (case unique of None \<Rightarrow> [] | Some u \<Rightarrow> u) (c_now c + max 0 delay) (c_now c) (c_now c) d
                         in (Inr i, d1)) w)"

text \<open>\<open>_to_job\<close>; the handle is the number of the entry.\<close>

definition entry_text :: "nat \<Rightarrow> string" where
  "entry_text e = map char_of (show_nat e)"

definition rto_job :: "int \<Rightarrow> rhash \<Rightarrow> nat \<Rightarrow> job option" where
  "rto_job i h e =
     (case loads (h_payload h) of
        Some (JObj p) \<Rightarrow> Some
          \<lparr>j_id = i, j_queue = or_default (h_queue h), j_name = h_name h, j_payload = JObj p, j_payload_json = h_payload h,
           j_attempts = max 1 (h_attempts h), j_max_attempts = max 1 (h_max_attempts h), j_handle = entry_text e,
           j_reserved_by = h_reserved_by h, j_release_delay = None\<rparr>
      | _ \<Rightarrow> None)"

definition rfail_raw :: "int \<Rightarrow> string \<Rightarrow> nat \<Rightarrow> string \<Rightarrow> int \<Rightarrow> codes \<Rightarrow> rworld \<Rightarrow> (qerror + bool) \<times> rworld" where
  "rfail_raw i queue e worker attempts error w =
     (case fit_error error of
        Inl x \<Rightarrow> (Inl x, w)
      | Inr text \<Rightarrow> at_call (\<lambda>c d. let (b, d1) = fail_script queue i e worker attempts text (c_now c) (c_now c) d in (Inr b, d1)) w)"

definition rreserve_from :: "string \<Rightarrow> int \<Rightarrow> string \<Rightarrow> rworld \<Rightarrow> (qerror + job option) \<times> rworld" where
  "rreserve_from queue timeout worker w =
     (case at_call (\<lambda>c d. let (r, d1) = reserve_script \<lparr>a_now = c_now c, a_clock = c_clock c, a_hold = max 1 timeout,
                               a_worker = take 64 worker\<rparr> queue d in (Inr r, d1)) w of
        (Inl x, w1) \<Rightarrow> (Inl x, w1)
      | (Inr None, w1) \<Rightarrow> (Inr None, w1)
      | (Inr (Some (i, e, h)), w1) \<Rightarrow>
          (case rto_job i h e of
             Some j \<Rightarrow> (Inr (Some j), w1)
           | None \<Rightarrow>
               (case rfail_raw i (if h_queue h = [] then queue else h_queue h) e (h_reserved_by h) (h_attempts h) BAD_PAYLOAD w1 of
                  (Inl x, w2) \<Rightarrow> (Inl x, w2) | (Inr _, w2) \<Rightarrow> (Inr None, w2))))"

fun rreserve :: "string list \<Rightarrow> int \<Rightarrow> string \<Rightarrow> rworld \<Rightarrow> (qerror + job option) \<times> rworld" where
  "rreserve [] timeout worker w = (Inr None, w)"
| "rreserve (q # qs) timeout worker w =
     (case rreserve_from q timeout worker w of
        (Inr None, w1) \<Rightarrow> rreserve qs timeout worker w1
      | r \<Rightarrow> r)"

text \<open>The number of the entry a handle stands for.\<close>

definition entry_of :: "job \<Rightarrow> nat" where
  "entry_of j = read_nat (to_text (j_handle j))"

definition rdelete :: "job \<Rightarrow> rworld \<Rightarrow> (qerror + unit) \<times> rworld" where
  "rdelete j w =
     at_call (\<lambda>c d. let (b, d1) = complete_script (j_queue j) (j_id j) (entry_of j) (j_reserved_by j) (j_attempts j) d in (Inr (), d1)) w"

definition rrelease :: "job \<Rightarrow> int \<Rightarrow> codes \<Rightarrow> rworld \<Rightarrow> (qerror + unit) \<times> rworld" where
  "rrelease j delay error w =
     (case fit_error error of
        Inl x \<Rightarrow> (Inl x, w)
      | Inr text \<Rightarrow>
          at_call (\<lambda>c d. let (b, d1) = release_script (j_queue j) (j_id j) (entry_of j) (j_reserved_by j) (j_attempts j)
                               (c_now c + max 0 delay) text d in (Inr (), d1)) w)"

definition rfail :: "job \<Rightarrow> codes \<Rightarrow> rworld \<Rightarrow> (qerror + unit) \<times> rworld" where
  "rfail j error w =
     (case rfail_raw (j_id j) (j_queue j) (entry_of j) (j_reserved_by j) (j_attempts j) error w of
        (Inl x, w1) \<Rightarrow> (Inl x, w1) | (Inr _, w1) \<Rightarrow> (Inr (), w1))"

definition redis_driver :: "rworld driver" where
  "redis_driver = \<lparr>d_reserve = rreserve, d_delete = rdelete, d_release = rrelease, d_fail = rfail\<rparr>"

section \<open>Reports\<close>

text \<open>
  The commands of one report are read at one moment here; \<open>held\<close> counts the delivered entries of
  the streams that are not empty.
\<close>

definition queue_counts :: "string \<Rightarrow> int \<Rightarrow> rdb \<Rightarrow> stat_row" where
  "queue_counts queue now d =
     (let streams = map (\<lambda>l. d_streams d (queue, l)) (rev (sort (d_levels d queue)));
          ready = sum_list (map (\<lambda>s. length (x_entries s)) streams);
          taken = sum_list (map (\<lambda>s. length (x_pending s)) (filter (\<lambda>s. x_entries s \<noteq> []) streams));
          due = length (filter (\<lambda>x. snd x \<le> now) (d_delayed d queue));
          scheduled = length (d_delayed d queue);
          waiting = (ready - taken) + due
      in \<lparr>s_queue = queue, s_pending = waiting, s_delayed = scheduled - due, s_reserved = taken,
          s_total = waiting + (scheduled - due) + taken\<rparr>)"

definition rpending :: "string option \<Rightarrow> rworld \<Rightarrow> (qerror + nat) \<times> rworld" where
  "rpending queue w =
     at_call (\<lambda>c d. (Inr (sum_list (map (\<lambda>q. s_pending (queue_counts q (c_now c) d))
       (case queue of Some q \<Rightarrow> [q] | None \<Rightarrow> sort (d_queues d)))), d)) w"

definition rstats :: "rworld \<Rightarrow> (qerror + stat_row list) \<times> rworld" where
  "rstats w =
     at_call (\<lambda>c d. (Inr (filter (\<lambda>r. 0 < s_total r) (map (\<lambda>q. queue_counts q (c_now c) d) (sort (d_queues d)))), d)) w"

definition rfailed_count :: "rworld \<Rightarrow> (qerror + nat) \<times> rworld" where
  "rfailed_count w = at_call (\<lambda>c d. (Inr (length (d_failed d)), d)) w"

text \<open>A row of the report on failed jobs.\<close>

record failed_view =
  v_id :: int
  v_failed_at :: "int option"
  v_queue :: string
  v_name :: string
  v_attempts :: int
  v_error :: codes

definition rfailed_rows :: "int \<Rightarrow> rworld \<Rightarrow> (qerror + failed_view list) \<times> rworld" where
  "rfailed_rows limit w =
     at_call (\<lambda>c d. (Inr (List.map_filter (\<lambda>i. map_option (\<lambda>h. \<lparr>v_id = i, v_failed_at = h_failed_at h, v_queue = h_queue h,
                             v_name = h_name h, v_attempts = h_attempts h, v_error = h_error h\<rparr>) (d_jobs d i))
                           (take (nat (max 1 limit)) (rev (by_score (d_failed d))))), d)) w"

fun requeue_each :: "int list \<Rightarrow> int \<Rightarrow> int \<Rightarrow> nat \<Rightarrow> rworld \<Rightarrow> (qerror + nat) \<times> rworld" where
  "requeue_each [] max_attempts now n w = (Inr n, w)"
| "requeue_each (i # ids) max_attempts now n w =
     (case at_call (\<lambda>c d. let (b, d1) = requeue_script i (max 1 max_attempts) now d in (Inr b, d1)) w of
        (Inl x, w1) \<Rightarrow> (Inl x, w1)
      | (Inr b, w1) \<Rightarrow> requeue_each ids max_attempts now (if b then Suc n else n) w1)"

definition rretry_failed :: "int option \<Rightarrow> int \<Rightarrow> rworld \<Rightarrow> (qerror + nat) \<times> rworld" where
  "rretry_failed job_id max_attempts w =
     (let now = c_now (snd w 0)
      in case job_id of
           Some i \<Rightarrow> requeue_each [i] max_attempts now 0 w
         | None \<Rightarrow>
             (case at_call (\<lambda>c d. (Inr (by_score (d_failed d)), d)) w of
                (Inl x, w1) \<Rightarrow> (Inl x, w1) | (Inr ids, w1) \<Rightarrow> requeue_each ids max_attempts now 0 w1))"

fun forget_each :: "int list \<Rightarrow> nat \<Rightarrow> rworld \<Rightarrow> (qerror + nat) \<times> rworld" where
  "forget_each [] n w = (Inr n, w)"
| "forget_each (i # ids) n w =
     (case at_call (\<lambda>c d. let (b, d1) = forget_script i d in (Inr b, d1)) w of
        (Inl x, w1) \<Rightarrow> (Inl x, w1)
      | (Inr b, w1) \<Rightarrow> forget_each ids (if b then Suc n else n) w1)"

text \<open>\<open>epoch\<close> is \<open>_epoch\<close>: the seconds of a text in one of the two formats, read as UTC.\<close>

definition rforget_failed :: "(string \<Rightarrow> int option) \<Rightarrow> int option \<Rightarrow> string option \<Rightarrow> rworld \<Rightarrow> (qerror + nat) \<times> rworld" where
  "rforget_failed epoch job_id before w =
     (case job_id of
        Some i \<Rightarrow> forget_each [i] 0 w
      | None \<Rightarrow>
          (case before of
             Some b \<Rightarrow>
               (case epoch b of
                  None \<Rightarrow> (Inl QueueError, w)
                | Some t \<Rightarrow>
                    (case at_call (\<lambda>c d. (Inr (by_score (filter (\<lambda>x. snd x < t) (d_failed d))), d)) w of
                       (Inl x, w1) \<Rightarrow> (Inl x, w1) | (Inr ids, w1) \<Rightarrow> forget_each ids 0 w1))
           | None \<Rightarrow>
               (case at_call (\<lambda>c d. (Inr (by_score (d_failed d)), d)) w of
                  (Inl x, w1) \<Rightarrow> (Inl x, w1) | (Inr ids, w1) \<Rightarrow> forget_each ids 0 w1)))"

section \<open>What the operations change\<close>

abbreviation entries :: "rdb \<Rightarrow> string \<times> int \<Rightarrow> (nat \<times> int) list" where
  "entries d k \<equiv> x_entries (d_streams d k)"

lemma add_entry_sel [simp]:
  "entries (add_entry q l i d) k = (if k = (q, l) then entries d k @ [(x_next (d_streams d k), i)] else entries d k)"
  "x_next (d_streams (add_entry q l i d) k) = (if k = (q, l) then x_next (d_streams d k) + 1 else x_next (d_streams d k))"
  "d_jobs (add_entry q l i d) = (d_jobs d)(i := map_option (\<lambda>h. h\<lparr>h_entry := Some (x_next (d_streams d (q, l)))\<rparr>) (d_jobs d i))"
  "d_delayed (add_entry q l i d) = d_delayed d" "d_failed (add_entry q l i d) = d_failed d" "d_seq (add_entry q l i d) = d_seq d"
  "d_levels (add_entry q l i d) = (d_levels d)(q := List.insert l (d_levels d q))" "d_unique (add_entry q l i d) = d_unique d"
  by (auto simp: add_entry_def Let_def stream_update_def job_update_def)

lemma drop_entry_sel [simp]:
  "entries (drop_entry k e d) k1 = (if k1 = k then filter (\<lambda>x. fst x \<noteq> e) (entries d k) else entries d k1)"
  "x_next (d_streams (drop_entry k e d) k1) = x_next (d_streams d k1)"
  "d_jobs (drop_entry k e d) = d_jobs d" "d_delayed (drop_entry k e d) = d_delayed d" "d_failed (drop_entry k e d) = d_failed d"
  "d_seq (drop_entry k e d) = d_seq d" "d_levels (drop_entry k e d) = d_levels d" "d_unique (drop_entry k e d) = d_unique d"
  by (auto simp: drop_entry_def stream_update_def)

lemma job_update_sel [simp]:
  "d_jobs (job_update i f d) = (d_jobs d)(i := map_option f (d_jobs d i))" "d_streams (job_update i f d) = d_streams d"
  "d_delayed (job_update i f d) = d_delayed d" "d_failed (job_update i f d) = d_failed d" "d_seq (job_update i f d) = d_seq d"
  "d_levels (job_update i f d) = d_levels d" "d_unique (job_update i f d) = d_unique d"
  by (simp_all add: job_update_def)

lemma delayed_update_sel [simp]:
  "d_delayed (delayed_update q f d) = (d_delayed d)(q := f (d_delayed d q))" "d_streams (delayed_update q f d) = d_streams d"
  "d_jobs (delayed_update q f d) = d_jobs d" "d_failed (delayed_update q f d) = d_failed d" "d_seq (delayed_update q f d) = d_seq d"
  "d_levels (delayed_update q f d) = d_levels d" "d_unique (delayed_update q f d) = d_unique d"
  by (simp_all add: delayed_update_def)

lemma release_unique_sel [simp]:
  "d_streams (release_unique uk d) = d_streams d" "d_jobs (release_unique uk d) = d_jobs d" "d_delayed (release_unique uk d) = d_delayed d"
  "d_failed (release_unique uk d) = d_failed d" "d_seq (release_unique uk d) = d_seq d" "d_levels (release_unique uk d) = d_levels d"
  by (simp_all add: release_unique_def)

lemma bury_sel [simp]:
  "d_streams (bury x t now i d) = d_streams d" "d_delayed (bury x t now i d) = d_delayed d" "d_seq (bury x t now i d) = d_seq d"
  "d_levels (bury x t now i d) = d_levels d" "d_failed (bury x t now i d) = AList.update i now (d_failed d)"
  "d_jobs (bury x t now i d) = (d_jobs d)(i := map_option (\<lambda>h. h\<lparr>h_unique_key := [], h_error := x, h_failed_at := Some t,
     h_reserved_until := 0, h_reserved_by := [], h_entry := None\<rparr>) (d_jobs d i))"
  by (simp_all add: bury_def Let_def)

section \<open>Where a job is\<close>

text \<open>Scheduled, ready in the stream of its queue and priority, or failed.\<close>

definition placed :: "rdb \<Rightarrow> int \<Rightarrow> rhash \<Rightarrow> bool" where
  "placed d i h \<longleftrightarrow> i \<in> fst ` set (d_delayed d (h_queue h)) \<or> i \<in> snd ` set (entries d (h_queue h, h_priority h))
     \<or> i \<in> fst ` set (d_failed d)"

text \<open>
  What a set or a stream of a queue may name: an id that was given out, and no job of another queue.
  \<open>M\<close> are the queues in which a retry has hit a job that still had an entry in the stream of its
  former priority: there an entry may name a job that is at priority 0 by now, and the jobs at
  priority 0 are not accounted for.
\<close>

definition named_in :: "rdb \<Rightarrow> string \<Rightarrow> int \<Rightarrow> bool" where
  "named_in d q i \<longleftrightarrow> i \<le> d_seq d \<and> (case d_jobs d i of None \<Rightarrow> True | Some h \<Rightarrow> h_queue h = q)"

definition named_at :: "string set \<Rightarrow> rdb \<Rightarrow> string \<Rightarrow> int \<Rightarrow> int \<Rightarrow> bool" where
  "named_at M d q l i \<longleftrightarrow> named_in d q i
     \<and> (case d_jobs d i of None \<Rightarrow> True | Some h \<Rightarrow> h_priority h = l \<or> h_priority h = 0 \<and> q \<in> M)"

definition astray :: "string set \<Rightarrow> rhash \<Rightarrow> bool" where
  "astray M h \<longleftrightarrow> h_priority h = 0 \<and> h_queue h \<in> M"

definition job_ok :: "string set \<Rightarrow> rdb \<Rightarrow> int \<Rightarrow> rhash \<Rightarrow> bool" where
  "job_ok M d i h \<longleftrightarrow> i \<le> d_seq d \<and> h_queue h \<noteq> [] \<and> (astray M h \<or> placed d i h)"

definition stream_ok :: "string set \<Rightarrow> rdb \<Rightarrow> string \<Rightarrow> int \<Rightarrow> bool" where
  "stream_ok M d q l \<longleftrightarrow> distinct (map fst (entries d (q, l)))
     \<and> (\<forall>x \<in> set (entries d (q, l)). fst x < x_next (d_streams d (q, l)) \<and> l \<in> set (d_levels d q) \<and> named_at M d q l (snd x))"

definition redis_ok :: "string set \<Rightarrow> rdb \<Rightarrow> bool" where
  "redis_ok M d \<longleftrightarrow> (\<forall>i h. d_jobs d i = Some h \<longrightarrow> job_ok M d i h) \<and> (\<forall>q. \<forall>x \<in> set (d_delayed d q). named_in d q (fst x))
     \<and> (\<forall>q l. stream_ok M d q l)"

lemma redis_ok_empty: "redis_ok M empty_db"
  by (simp add: redis_ok_def stream_ok_def empty_db_def empty_stream_def)

lemma redis_okI:
  "(\<And>i h. d_jobs d i = Some h \<Longrightarrow> job_ok M d i h) \<Longrightarrow> (\<And>q i t. (i, t) \<in> set (d_delayed d q) \<Longrightarrow> named_in d q i) \<Longrightarrow> (\<And>q l. stream_ok M d q l)
    \<Longrightarrow> redis_ok M d"
  by (auto simp: redis_ok_def)

lemma redis_okD:
  assumes "redis_ok M d"
  shows "d_jobs d i = Some h \<Longrightarrow> job_ok M d i h" "(i, t) \<in> set (d_delayed d q) \<Longrightarrow> named_in d q i" "stream_ok M d q l"
  using assms by (fastforce simp: redis_ok_def)+

lemma stream_okD:
  "stream_ok M d q l \<Longrightarrow> (e, i) \<in> set (entries d (q, l)) \<Longrightarrow> e < x_next (d_streams d (q, l)) \<and> l \<in> set (d_levels d q) \<and> named_at M d q l i"
  by (fastforce simp: stream_ok_def)

definition same_priority :: "rdb \<Rightarrow> rdb \<Rightarrow> int \<Rightarrow> bool" where
  "same_priority d d1 i \<longleftrightarrow> (\<forall>h1. d_jobs d1 i = Some h1 \<longrightarrow> (\<exists>h. d_jobs d i = Some h \<and> h_priority h1 = h_priority h))"

lemma same_priority_eq [simp]: "d_jobs d1 i = d_jobs d i \<Longrightarrow> same_priority d d1 i"
  by (simp add: same_priority_def)

lemma named_at_mono: "named_at M d q l i \<Longrightarrow> named_in d1 q i \<Longrightarrow> same_priority d d1 i \<Longrightarrow> named_at M d1 q l i"
  by (fastforce simp: named_at_def same_priority_def split: option.splits)

lemma named_in_mono:
  "named_in d q i \<Longrightarrow> d_seq d \<le> d_seq d1 \<Longrightarrow> (\<And>h1. d_jobs d1 i = Some h1 \<Longrightarrow> \<exists>h. d_jobs d i = Some h \<and> h_queue h1 = h_queue h) \<Longrightarrow> named_in d1 q i"
  by (fastforce simp: named_in_def split: option.splits)

text \<open>
  One rule for all scripts: the hashes of jobs keep their queues, what is new in a set or a stream
  is named there rightly, and only the jobs whose place was touched have to be looked at.
\<close>

lemma redis_ok_change:
  assumes ok: "redis_ok M d" and seq: "d_seq d \<le> d_seq d1"
    and old: "\<And>j h1. j \<le> d_seq d \<Longrightarrow> d_jobs d1 j = Some h1 \<Longrightarrow> \<exists>h. d_jobs d j = Some h \<and> h_queue h1 = h_queue h"
    and jobs: "\<And>j h1. d_jobs d1 j = Some h1 \<Longrightarrow> j \<le> d_seq d1 \<and> h_queue h1 \<noteq> [] \<and> (astray M h1 \<or> placed d1 j h1)"
    and del: "\<And>q j t. (j, t) \<in> set (d_delayed d1 q) \<Longrightarrow> j \<in> fst ` set (d_delayed d q) \<or> named_in d1 q j"
    and str: "\<And>q l. distinct (map fst (entries d1 (q, l)))"
    and ent: "\<And>q l e j. (e, j) \<in> set (entries d1 (q, l)) \<Longrightarrow>
         (e, j) \<in> set (entries d (q, l)) \<and> same_priority d d1 j
         \<or> e < x_next (d_streams d1 (q, l)) \<and> l \<in> set (d_levels d1 q) \<and> named_at M d1 q l j"
    and nxt: "\<And>k. x_next (d_streams d k) \<le> x_next (d_streams d1 k)" and lev: "\<And>q. set (d_levels d q) \<subseteq> set (d_levels d1 q)"
  shows "redis_ok M d1"
proof -
  have keep: "named_in d q j \<Longrightarrow> named_in d1 q j" for q j
    by (rule named_in_mono [OF _ seq]) (auto simp: named_in_def dest: old)
  show ?thesis
  proof (rule redis_okI)
    show "job_ok M d1 i h" if "d_jobs d1 i = Some h" for i h using jobs [OF that] by (simp add: job_ok_def)
    show "named_in d1 q i" if "(i, t) \<in> set (d_delayed d1 q)" for q i t
      using del [OF that] keep redis_okD(2) [OF ok] by fastforce
    show "stream_ok M d1 q l" for q l
    proof -
      have "e < x_next (d_streams d1 (q, l)) \<and> l \<in> set (d_levels d1 q) \<and> named_at M d1 q l j"
        if "(e, j) \<in> set (entries d1 (q, l))" for e j
        using ent [OF that] stream_okD [OF redis_okD(3) [OF ok], of e j q l] nxt [of "(q, l)"] lev [of q]
          keep [of q j] named_at_mono [of M d q l j d1] named_at_def [of M d q l j] by fastforce
      then show ?thesis using str by (auto simp: stream_ok_def)
    qed
  qed
qed

text \<open>A change that touches one job.\<close>

lemma redis_ok_at:
  assumes ok: "redis_ok M d" and seq: "d_seq d \<le> d_seq d1"
    and others: "\<And>j. j \<noteq> i \<Longrightarrow> d_jobs d1 j = d_jobs d j"
    and me: "\<And>h1. d_jobs d1 i = Some h1 \<Longrightarrow> i \<le> d_seq d1 \<and> h_queue h1 \<noteq> [] \<and> (astray M h1 \<or> placed d1 i h1)
         \<and> (i \<le> d_seq d \<longrightarrow> (\<exists>h. d_jobs d i = Some h \<and> h_queue h1 = h_queue h))"
    and del: "\<And>q j. j \<noteq> i \<Longrightarrow> j \<in> fst ` set (d_delayed d1 q) \<longleftrightarrow> j \<in> fst ` set (d_delayed d q)"
    and del_me: "\<And>q. i \<in> fst ` set (d_delayed d1 q) \<Longrightarrow> i \<in> fst ` set (d_delayed d q) \<or> named_in d1 q i"
    and failed: "\<And>j. j \<noteq> i \<Longrightarrow> j \<in> fst ` set (d_failed d) \<Longrightarrow> j \<in> fst ` set (d_failed d1)"
    and ent: "\<And>k e j. j \<noteq> i \<Longrightarrow> (e, j) \<in> set (entries d1 k) \<Longrightarrow> (e, j) \<in> set (entries d k)"
    and stay: "\<And>q l e j. j \<noteq> i \<Longrightarrow> (e, j) \<in> set (entries d (q, l)) \<Longrightarrow> (e, j) \<in> set (entries d1 (q, l)) \<or> l = 0 \<and> q \<in> M"
    and ent_me: "\<And>q l e. (e, i) \<in> set (entries d1 (q, l)) \<Longrightarrow>
         (e, i) \<in> set (entries d (q, l)) \<and> same_priority d d1 i
         \<or> e < x_next (d_streams d1 (q, l)) \<and> l \<in> set (d_levels d1 q) \<and> named_at M d1 q l i"
    and str: "\<And>q l. distinct (map fst (entries d1 (q, l)))"
    and nxt: "\<And>k. x_next (d_streams d k) \<le> x_next (d_streams d1 k)" and lev: "\<And>q. set (d_levels d q) \<subseteq> set (d_levels d1 q)"
  shows "redis_ok M d1"
proof (rule redis_ok_change [OF ok seq _ _ _ str _ nxt lev])
  show "\<exists>h. d_jobs d j = Some h \<and> h_queue h1 = h_queue h" if "j \<le> d_seq d" "d_jobs d1 j = Some h1" for j h1
    using that me others by (cases "j = i") auto
  show "j \<le> d_seq d1 \<and> h_queue h1 \<noteq> [] \<and> (astray M h1 \<or> placed d1 j h1)" if h: "d_jobs d1 j = Some h1" for j h1
  proof (cases "j = i")
    case True
    then show ?thesis using me h by blast
  next
    case False
    have "job_ok M d j h1" using redis_okD(1) [OF ok] h others [OF False] by simp
    moreover have "placed d j h1 \<Longrightarrow> astray M h1 \<or> placed d1 j h1"
      using del [OF False] failed [OF False] stay [OF False, of _ "h_queue h1" "h_priority h1"] by (force simp: placed_def astray_def)
    ultimately show ?thesis using seq by (auto simp: job_ok_def)
  qed
  show "j \<in> fst ` set (d_delayed d q) \<or> named_in d1 q j" if "(j, t) \<in> set (d_delayed d1 q)" for q j t
    using that del del_me by (cases "j = i") force+
  show "(e, j) \<in> set (entries d (q, l)) \<and> same_priority d d1 j
      \<or> e < x_next (d_streams d1 (q, l)) \<and> l \<in> set (d_levels d1 q) \<and> named_at M d1 q l j"
    if "(e, j) \<in> set (entries d1 (q, l))" for q l e j
    using that ent ent_me same_priority_eq [OF others [of j]] by (cases "j = i") blast+
qed

lemma keys_update [simp]: "fst ` set (AList.update i t z) = insert i (fst ` set z)"
  by (simp add: dom_update)

lemma keys_delete [simp]: "fst ` set (AList.delete i z) = fst ` set z - {i}"
  by (auto simp: AList.delete_eq image_iff)

lemma distinct_filter_fst: "distinct (map fst xs) \<Longrightarrow> distinct (map fst (filter P xs))"
  by (rule distinct_map_filter)

lemma stream_next_new: "stream_ok M d q l \<Longrightarrow> x_next (d_streams d (q, l)) \<notin> fst ` set (entries d (q, l))"
  by (force simp: stream_ok_def)

text \<open>The scripts, one after the other.\<close>

lemma promote_one_ok:
  assumes ok: "redis_ok M d"
  shows "redis_ok M (promote_one q i d)"
proof (cases "i \<in> fst ` set (d_delayed d q)")
  case False
  then show ?thesis using ok by (simp add: promote_one_def map_of_eq_None_iff)
next
  case True
  then have n: "named_in d q i" using redis_okD(2) [OF ok] by fastforce
  show ?thesis
  proof (cases "d_jobs d i")
    case None
    then show ?thesis using True
      by (intro redis_ok_at [where i = i, OF ok])
        (use redis_okD(3) [OF ok] in \<open>auto simp: promote_one_def map_of_eq_None_iff stream_ok_def split: if_splits\<close>)
  next
    case (Some h)
    have j: "job_ok M d i h" by (rule redis_okD(1) [OF ok Some])
    have q: "h_queue h = q" using n Some by (simp add: named_in_def)
    let ?d = "add_entry q (h_priority h) i (delayed_update q (AList.delete i) d)"
    have e: "promote_one q i d = ?d" using True Some by (simp add: promote_one_def map_of_eq_None_iff)
    have m: "named_at M ?d q (h_priority h) i" using Some j q by (simp add: named_at_def named_in_def job_ok_def)
    have k: "same_priority d ?d i" using Some by (simp add: same_priority_def)
    show ?thesis unfolding e
      by (rule redis_ok_at [where i = i, OF ok])
        (use Some j q m k redis_okD(3) [OF ok] stream_next_new [OF redis_okD(3) [OF ok]] in
          \<open>auto simp: placed_def job_ok_def stream_ok_def split: if_splits\<close>)
  qed
qed

lemma promote_due_ok: "redis_ok M d \<Longrightarrow> redis_ok M (promote_due q now d)"
proof -
  have "redis_ok M d \<Longrightarrow> redis_ok M (fold (promote_one q) is d)" for "is" d
    by (induction "is" arbitrary: d) (simp_all add: promote_one_ok)
  then show "redis_ok M d \<Longrightarrow> redis_ok M (promote_due q now d)" unfolding promote_due_def .
qed

lemma push_new_ok:
  assumes ok: "redis_ok M d" and q: "queue \<noteq> []"
  shows "redis_ok M (snd (push_new queue name payload priority ma uk av cr now d))"
proof -
  let ?d = "snd (push_new queue name payload priority ma uk av cr now d)"
  have new: "d_seq d + 1 \<notin> fst ` set (d_delayed d k)" "(e, d_seq d + 1) \<notin> set (entries d k1)" for k e k1
    using redis_okD(2) [OF ok, of "d_seq d + 1"] stream_okD [OF redis_okD(3) [OF ok], of e "d_seq d + 1" "fst k1" "snd k1"]
    by (fastforce simp: named_at_def named_in_def)+
  have m: "named_in ?d queue (d_seq d + 1)" "named_at M ?d queue priority (d_seq d + 1)"
    by (simp_all add: named_at_def named_in_def push_new_def Let_def)
  show ?thesis
    by (rule redis_ok_at [where i = "d_seq d + 1", OF ok])
      (use q m new redis_okD(3) [OF ok] stream_next_new [OF redis_okD(3) [OF ok]] in
        \<open>auto simp: push_new_def Let_def placed_def stream_ok_def split: if_splits\<close>)
qed

lemma entry_owner: "redis_ok M d \<Longrightarrow> (e, i) \<in> set (entries d (q, l)) \<Longrightarrow> (e, x) \<in> set (entries d (q, l)) \<Longrightarrow> x = i"
  using redis_okD(3) [of M d q l] by (auto simp: stream_ok_def dest: eq_key_imp_eq_value)

lemma take_entry_entries:
  "take_entry idle clock s = (r, s1) \<Longrightarrow> x_entries s1 = x_entries s \<and> x_next s1 = x_next s"
  "take_entry idle clock s = (Some x, s1) \<Longrightarrow> x \<in> set (x_entries s)"
  by (auto simp: take_entry_def find_Some_iff split: option.splits)

lemma redis_ok_same:
  assumes "redis_ok M d" and e: "\<And>k. entries d1 k = entries d k" "\<And>k. x_next (d_streams d1 k) = x_next (d_streams d k)"
    and f: "d_jobs d1 = d_jobs d" "d_delayed d1 = d_delayed d" "d_failed d1 = d_failed d" "d_seq d1 = d_seq d" "d_levels d1 = d_levels d"
  shows "redis_ok M d1"
  using assms(1) by (simp add: redis_ok_def job_ok_def placed_def named_at_def named_in_def stream_ok_def e f)

lemma redis_ok_delivered:
  "redis_ok M d \<Longrightarrow> x_entries s = entries d k \<Longrightarrow> x_next s = x_next (d_streams d k) \<Longrightarrow> redis_ok M (d\<lparr>d_streams := (d_streams d)(k := s)\<rparr>)"
  by (rule redis_ok_same [where d = d]) simp_all

lemma release_unique_ok: "redis_ok M d \<Longrightarrow> redis_ok M (release_unique uk d)"
  by (rule redis_ok_same [where d = d]) simp_all

lemma push_script_ok:
  "redis_ok M d \<Longrightarrow> queue \<noteq> [] \<Longrightarrow> redis_ok M (snd (push_script queue name payload priority ma uk av cr now d))"
  by (simp add: push_script_def push_new_ok release_unique_ok split: option.split)

text \<open>Settling a claim: the entry goes, and the job is gone, scheduled or failed.\<close>

lemma redis_ok_settled:
  assumes ok: "redis_ok M d" and mine: "\<And>x. (e, x) \<in> set (entries d (q, l)) \<Longrightarrow> x = i \<or> l = 0 \<and> q \<in> M"
    and streams: "d_streams d1 = d_streams (drop_entry (q, l) e d)" and levels: "d_levels d1 = d_levels d" and seq: "d_seq d1 = d_seq d"
    and others: "\<And>j. j \<noteq> i \<Longrightarrow> d_jobs d1 j = d_jobs d j"
    and me: "\<And>h1. d_jobs d1 i = Some h1 \<Longrightarrow> placed d1 i h1 \<and> (\<exists>h. d_jobs d i = Some h \<and> h_queue h1 = h_queue h \<and> h_priority h1 = h_priority h)"
    and del: "\<And>q. fst ` set (d_delayed d1 q) = fst ` set (d_delayed d q)
        \<or> fst ` set (d_delayed d1 q) = insert i (fst ` set (d_delayed d q)) \<and> named_in d1 q i"
    and failed: "fst ` set (d_failed d) \<subseteq> fst ` set (d_failed d1)"
  shows "redis_ok M d1"
proof (rule redis_ok_at [where i = i, OF ok _ others])
  have e: "entries d1 k = (if k = (q, l) then filter (\<lambda>x. fst x \<noteq> e) (entries d k) else entries d k)"
    "x_next (d_streams d1 k) = x_next (d_streams d k)" for k using streams by auto
  show "i \<le> d_seq d1 \<and> h_queue h1 \<noteq> [] \<and> (astray M h1 \<or> placed d1 i h1)
      \<and> (i \<le> d_seq d \<longrightarrow> (\<exists>h. d_jobs d i = Some h \<and> h_queue h1 = h_queue h))"
    if "d_jobs d1 i = Some h1" for h1
    using me [OF that] redis_okD(1) [OF ok] seq by (fastforce simp: job_ok_def)
  show "j \<in> fst ` set (d_delayed d1 q) \<longleftrightarrow> j \<in> fst ` set (d_delayed d q)" if "j \<noteq> i" for q j using del [of q] that by auto
  show "i \<in> fst ` set (d_delayed d q) \<or> named_in d1 q i" if "i \<in> fst ` set (d_delayed d1 q)" for q using del [of q] that by auto
  show "(a, j) \<in> set (entries d k)" if "j \<noteq> i" "(a, j) \<in> set (entries d1 k)" for k a j
    using that by (auto simp: e split: if_splits)
  show "(a, j) \<in> set (entries d1 (k, m)) \<or> m = 0 \<and> k \<in> M" if "j \<noteq> i" "(a, j) \<in> set (entries d (k, m))" for k m a j
    using mine that by (auto simp: e)
  show "(a, i) \<in> set (entries d (k, m)) \<and> same_priority d d1 i \<or> a < x_next (d_streams d1 (k, m)) \<and> m \<in> set (d_levels d1 k) \<and> named_at M d1 k m i"
    if "(a, i) \<in> set (entries d1 (k, m))" for k m a
    using that me by (auto simp: e same_priority_def split: if_splits)
  show "distinct (map fst (entries d1 (k, m)))" for k m
    using redis_okD(3) [OF ok, of k m] by (auto simp: e stream_ok_def distinct_map_filter)
qed (use failed seq levels streams in \<open>auto\<close>)

lemma consider_entry_ok:
  assumes ok: "redis_ok M d" and e: "(e, i) \<in> set (entries d (q, l))"
  shows "redis_ok M (snd (consider_entry a q l e i d))"
proof (cases "d_jobs d i")
  case None
  then show ?thesis
    by (intro redis_ok_settled [OF ok, of e q l i]) (auto simp: consider_entry_def dest: entry_owner [OF ok e])
next
  case (Some h)
  have n: "named_at M d q l i" using stream_okD [OF redis_okD(3) [OF ok] e] by simp
  have q: "h_queue h = q" "i \<le> d_seq d" using n Some by (simp_all add: named_at_def named_in_def)
  consider (parked) "a_now a < h_reserved_until h" | (spent) "\<not> a_now a < h_reserved_until h" "h_max_attempts h \<le> h_attempts h"
    | (claimed) "\<not> a_now a < h_reserved_until h" "\<not> h_max_attempts h \<le> h_attempts h" by blast
  then show ?thesis
  proof cases
    case parked
    then show ?thesis
      by (intro redis_ok_settled [OF ok, of e q l i])
        (auto simp: consider_entry_def Some q placed_def named_in_def drop_entry_def stream_update_def dest: entry_owner [OF ok e])
  next
    case spent
    then show ?thesis
      by (intro redis_ok_settled [OF ok, of e q l i])
        (auto simp: consider_entry_def Some q placed_def dest: entry_owner [OF ok e])
  next
    case claimed
    have "job_ok M d i h" by (rule redis_okD(1) [OF ok Some])
    with claimed show ?thesis
      by (intro redis_ok_at [where i = i, OF ok])
        (use redis_okD(3) [OF ok] in \<open>auto simp: consider_entry_def Let_def Some q placed_def job_ok_def astray_def same_priority_def stream_ok_def\<close>)
  qed
qed

section \<open>What a reserve call keeps\<close>

text \<open>
  A reserve call is a sequence of promotions, deliveries and decisions on an entry. A relation
  that each of these keeps relates the state before the call with the state after it, and with
  the state in which the claim that the call returns was made.
\<close>

locale reserve_order =
  fixes a :: reserve_args and R :: "rdb \<Rightarrow> rdb \<Rightarrow> bool"
  assumes refl: "R d d"
    and trans: "R d d1 \<Longrightarrow> R d1 d2 \<Longrightarrow> R d d2"
    and promoted: "R d (promote_one q i d)"
    and delivered: "x_entries s = entries d k \<Longrightarrow> x_next s = x_next (d_streams d k) \<Longrightarrow> R d (d\<lparr>d_streams := (d_streams d)(k := s)\<rparr>)"
    and considered: "(e, i) \<in> set (entries d (q, l)) \<Longrightarrow> R d (snd (consider_entry a q l e i d))"
begin

lemma promote_due: "R d (promote_due q now d)"
proof -
  have "R d (fold (promote_one q) is d)" for "is" d
    by (induction "is" arbitrary: d) (auto intro: refl trans promoted)
  then show ?thesis unfolding promote_due_def .
qed

definition claim_at :: "rdb \<Rightarrow> string \<Rightarrow> (int \<times> nat \<times> rhash) option \<times> rdb \<Rightarrow> bool" where
  "claim_at d q r \<longleftrightarrow> R d (snd r) \<and> (\<forall>c. fst r = Some c \<longrightarrow>
     (\<exists>d0 l e i. R d d0 \<and> (e, i) \<in> set (entries d0 (q, l)) \<and> consider_entry a q l e i d0 = (Some c, snd r)))"

lemma claim_at_trans: "R d d1 \<Longrightarrow> claim_at d1 q r \<Longrightarrow> claim_at d q r"
  unfolding claim_at_def by (meson trans)

lemma level_rounds: "claim_at d q (level_rounds n a q l d)"
proof (induction n arbitrary: d)
  case 0
  then show ?case by (simp add: claim_at_def refl)
next
  case (Suc n)
  obtain r s where t: "take_entry (a_hold a * 1000) (a_clock a) (d_streams d (q, l)) = (r, s)" by (rule prod.exhaust)
  let ?d = "d\<lparr>d_streams := (d_streams d)((q, l) := s)\<rparr>"
  have k: "R d ?d" using take_entry_entries(1) [OF t] by (intro delivered) simp_all
  show ?case
  proof (cases r)
    case None
    then show ?thesis using t by (simp add: claim_at_def refl)
  next
    case (Some x)
    obtain e i where x: "x = (e, i)" by (rule prod.exhaust)
    obtain c d1 where c: "consider_entry a q l e i ?d = (c, d1)" by (rule prod.exhaust)
    have m: "(e, i) \<in> set (entries ?d (q, l))" using take_entry_entries [OF t [unfolded Some]] x by simp
    have k1: "R d d1" using trans [OF k considered [OF m]] c by simp
    show ?thesis
    proof (cases c)
      case None
      then have "level_rounds (Suc n) a q l d = level_rounds n a q l d1" using t Some x c by simp
      then show ?thesis using claim_at_trans [OF k1 Suc.IH] by simp
    next
      case claimed: (Some y)
      then have "level_rounds (Suc n) a q l d = (Some y, d1)" using t Some x c by simp
      moreover have "\<exists>d0 l e i. R d d0 \<and> (e, i) \<in> set (entries d0 (q, l)) \<and> consider_entry a q l e i d0 = (Some y, d1)"
        using k m c claimed by blast
      ultimately show ?thesis using k1 by (simp add: claim_at_def del: level_rounds.simps)
    qed
  qed
qed

lemma try_levels: "claim_at d q (try_levels ls a q d)"
proof (induction ls arbitrary: d)
  case Nil
  then show ?case by (simp add: claim_at_def refl)
next
  case (Cons l ls)
  obtain c d1 where c: "level_rounds CLAIM_ROUNDS a q l d = (c, d1)" by (rule prod.exhaust)
  show ?case
    using level_rounds [of d q CLAIM_ROUNDS l] claim_at_trans [OF _ Cons.IH [of d1], of d] c
    by (cases c) (simp_all add: claim_at_def)
qed

lemma reserve: "claim_at d q (reserve_script a q d)"
  unfolding reserve_script_def Let_def by (rule claim_at_trans [OF promote_due try_levels])

lemma reserve_keeps: "R d (snd (reserve_script a q d))"
  using reserve by (simp add: claim_at_def)

lemma reserve_claims:
  assumes "reserve_script a q d = (Some (i, e, h1), d1)"
  obtains d0 l h where "R d d0" "(e, i) \<in> set (entries d0 (q, l))" "d_jobs d0 i = Some h" "h_reserved_until h \<le> a_now a"
    "h_attempts h < h_max_attempts h" "d1 = d0\<lparr>d_jobs := (d_jobs d0)(i \<mapsto> h1)\<rparr>"
    "h1 = h\<lparr>h_attempts := h_attempts h + 1, h_reserved_by := a_worker a, h_reserved_until := a_now a + a_hold a, h_entry := Some e\<rparr>"
proof -
  obtain d0 l f j where r: "R d d0" and m: "(f, j) \<in> set (entries d0 (q, l))" and c: "consider_entry a q l f j d0 = (Some (i, e, h1), d1)"
    using reserve [of d q] assms by (auto simp: claim_at_def)
  obtain h where h: "d_jobs d0 j = Some h" using c by (cases "d_jobs d0 j") (simp_all add: consider_entry_def)
  show ?thesis
    by (rule that [of d0 l h]) (use r m c h in \<open>auto simp: consider_entry_def Let_def split: if_splits\<close>)
qed

end

text \<open>The first such relation is that the invariant is kept.\<close>

interpretation sound: reserve_order a "\<lambda>d d1. redis_ok M d \<longrightarrow> redis_ok M d1" for a M
  by unfold_locales (simp_all add: promote_one_ok redis_ok_delivered consider_entry_ok)

text \<open>The second: a claim that has not run out stays as it is, but for the entry that stands for it.\<close>

definition live_kept :: "int \<Rightarrow> rdb \<Rightarrow> rdb \<Rightarrow> bool" where
  "live_kept now d d1 \<longleftrightarrow> (\<forall>i h. d_jobs d i = Some h \<and> now < h_reserved_until h \<longrightarrow> (\<exists>x. d_jobs d1 i = Some (h\<lparr>h_entry := x\<rparr>)))"

lemma live_kept_jobs: "d_jobs d1 = d_jobs d \<Longrightarrow> live_kept now d d1"
  unfolding live_kept_def by (metis rhash.surjective rhash.update_convs(13))

lemma live_kept_trans: "live_kept now d d1 \<Longrightarrow> live_kept now d1 d2 \<Longrightarrow> live_kept now d d2"
  unfolding live_kept_def by fastforce


lemma hash_entry_same: "\<exists>x. h = h\<lparr>h_entry := x\<rparr>"
  by (rule exI [of _ "h_entry h"]) simp

lemma live_kept_job:
  assumes "\<And>j. j \<noteq> i \<Longrightarrow> d_jobs d1 j = d_jobs d j"
    and "\<And>h. d_jobs d i = Some h \<Longrightarrow> now < h_reserved_until h \<Longrightarrow> \<exists>x. d_jobs d1 i = Some (h\<lparr>h_entry := x\<rparr>)"
  shows "live_kept now d d1"
proof -
  have "\<exists>x. d_jobs d1 j = Some (h\<lparr>h_entry := x\<rparr>)" if h: "d_jobs d j = Some h" "now < h_reserved_until h" for j h
  proof (cases "j = i")
    case True
    then show ?thesis using assms(2) h by simp
  next
    case False
    then have "d_jobs d1 j = Some (h\<lparr>h_entry := h_entry h\<rparr>)" using assms(1) h by simp
    then show ?thesis by blast
  qed
  then show ?thesis by (simp add: live_kept_def)
qed

interpretation live: reserve_order a "live_kept (a_now a)" for a
proof unfold_locales
  show "live_kept (a_now a) d d" for d by (rule live_kept_jobs) simp
  show "live_kept (a_now a) d d1 \<Longrightarrow> live_kept (a_now a) d1 d2 \<Longrightarrow> live_kept (a_now a) d d2" for d d1 d2 by (rule live_kept_trans)
  show "live_kept (a_now a) d (promote_one q i d)" for d q i
    by (rule live_kept_job [of i]) (auto simp: promote_one_def Let_def hash_entry_same split: option.splits)
  show "live_kept (a_now a) d (d\<lparr>d_streams := (d_streams d)(k := s)\<rparr>)" for d k s by (rule live_kept_jobs) simp
  show "live_kept (a_now a) d (snd (consider_entry a q l e i d))" for d q l e i
    by (rule live_kept_job [of i]) (auto simp: consider_entry_def Let_def split: option.splits)
qed

text \<open>
  C6. A reserve call never takes a job whose claim has not run out, and changes nothing of it but
  the entry that stands for it: neither its claimant nor its deadline nor its attempts.
\<close>

theorem redis_claim_respected:
  assumes "d_jobs d i = Some h" and "a_now a < h_reserved_until h"
  shows "(\<forall>e h1. fst (reserve_script a q d) \<noteq> Some (i, e, h1)) \<and> (\<exists>x. d_jobs (snd (reserve_script a q d)) i = Some (h\<lparr>h_entry := x\<rparr>))"
proof
  show "\<exists>x. d_jobs (snd (reserve_script a q d)) i = Some (h\<lparr>h_entry := x\<rparr>)"
    using live.reserve_keeps [of a d q] assms by (simp add: live_kept_def)
  show "\<forall>e h1. fst (reserve_script a q d) \<noteq> Some (i, e, h1)"
  proof (intro allI notI)
    fix e h1
    assume "fst (reserve_script a q d) = Some (i, e, h1)"
    then have "reserve_script a q d = (Some (i, e, h1), snd (reserve_script a q d))" by (metis prod.collapse)
    then obtain d0 h0 where "live_kept (a_now a) d d0" "d_jobs d0 i = Some h0" "h_reserved_until h0 \<le> a_now a"
      by (rule live.reserve_claims)
    then show False using assms by (fastforce simp: live_kept_def)
  qed
qed

section \<open>Claims in the hands of workers\<close>

text \<open>
  What a worker holds is the entry it was handed and the hash as it was then. Others never make
  it wrong: entries get new numbers, and a hash that still names the worker and the attempt has
  not been moved to another queue or priority.
\<close>

definition claim_ok :: "string set \<Rightarrow> rdb \<Rightarrow> string \<Rightarrow> int \<times> nat \<times> rhash \<Rightarrow> bool" where
  "claim_ok M d w c \<longleftrightarrow> (case c of (i, e, h) \<Rightarrow>
     (astray M h \<or> e < x_next (d_streams d (h_queue h, h_priority h)) \<and> (\<forall>x. (e, x) \<in> set (entries d (h_queue h, h_priority h)) \<longrightarrow> x = i))
     \<and> (\<forall>h1. held i w (h_attempts h) d = Some h1 \<longrightarrow> h_queue h1 = h_queue h \<and> h_priority h1 = h_priority h))"

definition evolves :: "string \<Rightarrow> rdb \<Rightarrow> rdb \<Rightarrow> bool" where
  "evolves w0 d d1 \<longleftrightarrow> (\<forall>k. x_next (d_streams d k) \<le> x_next (d_streams d1 k))
     \<and> (\<forall>k x. x \<in> set (entries d1 k) \<longrightarrow> x \<in> set (entries d k) \<or> x_next (d_streams d k) \<le> fst x)
     \<and> (\<forall>i h1. d_jobs d1 i = Some h1 \<and> h_reserved_by h1 \<noteq> w0 \<and> h_reserved_by h1 \<noteq> [] \<longrightarrow>
          (\<exists>h. d_jobs d i = Some h \<and> h_reserved_by h1 = h_reserved_by h \<and> h_attempts h1 = h_attempts h \<and> h_queue h1 = h_queue h
             \<and> h_priority h1 = h_priority h))"

lemma evolvesI:
  "(\<And>k. x_next (d_streams d k) \<le> x_next (d_streams d1 k)) \<Longrightarrow>
   (\<And>k x. x \<in> set (entries d1 k) \<Longrightarrow> x \<in> set (entries d k) \<or> x_next (d_streams d k) \<le> fst x) \<Longrightarrow>
   (\<And>i h1. d_jobs d1 i = Some h1 \<Longrightarrow> h_reserved_by h1 \<noteq> w0 \<Longrightarrow> h_reserved_by h1 \<noteq> [] \<Longrightarrow>
      \<exists>h. d_jobs d i = Some h \<and> h_reserved_by h1 = h_reserved_by h \<and> h_attempts h1 = h_attempts h \<and> h_queue h1 = h_queue h
        \<and> h_priority h1 = h_priority h) \<Longrightarrow> evolves w0 d d1"
  unfolding evolves_def by blast

lemma evolves_next: "evolves w0 d d1 \<Longrightarrow> x_next (d_streams d k) \<le> x_next (d_streams d1 k)"
  unfolding evolves_def by blast

lemma evolves_entry: "evolves w0 d d1 \<Longrightarrow> x \<in> set (entries d1 k) \<Longrightarrow> x \<in> set (entries d k) \<or> x_next (d_streams d k) \<le> fst x"
  unfolding evolves_def by blast

lemma evolves_job:
  assumes "evolves w0 d d1" "d_jobs d1 i = Some h1" "h_reserved_by h1 \<noteq> w0" "h_reserved_by h1 \<noteq> []"
  obtains h where "d_jobs d i = Some h" "h_reserved_by h1 = h_reserved_by h" "h_attempts h1 = h_attempts h" "h_queue h1 = h_queue h"
    "h_priority h1 = h_priority h"
  using assms unfolding evolves_def by blast

lemma evolves_trans:
  assumes "evolves w0 d d1" "evolves w0 d1 d2"
  shows "evolves w0 d d2"
proof (rule evolvesI)
  show "x_next (d_streams d k) \<le> x_next (d_streams d2 k)" for k
    using evolves_next [OF assms(1)] evolves_next [OF assms(2)] by (rule order_trans)
  show "x \<in> set (entries d k) \<or> x_next (d_streams d k) \<le> fst x" if "x \<in> set (entries d2 k)" for k x
    using evolves_entry [OF assms(2) that] evolves_entry [OF assms(1), of x k] evolves_next [OF assms(1), of k] by linarith
  show "\<exists>h. d_jobs d i = Some h \<and> h_reserved_by h1 = h_reserved_by h \<and> h_attempts h1 = h_attempts h \<and> h_queue h1 = h_queue h
      \<and> h_priority h1 = h_priority h" if "d_jobs d2 i = Some h1" "h_reserved_by h1 \<noteq> w0" "h_reserved_by h1 \<noteq> []" for i h1
    by (rule evolves_job [OF assms(2) that], rule evolves_job [OF assms(1)]) (use that in auto)
qed

lemma claim_okD:
  assumes "claim_ok M d w (i, e, h)"
  shows "astray M h \<or> e < x_next (d_streams d (h_queue h, h_priority h))"
    "(e, x) \<in> set (entries d (h_queue h, h_priority h)) \<Longrightarrow> x = i \<or> astray M h"
    "held i w (h_attempts h) d = Some h1 \<Longrightarrow> h_queue h1 = h_queue h" "held i w (h_attempts h) d = Some h1 \<Longrightarrow> h_priority h1 = h_priority h"
  using assms unfolding claim_ok_def prod.case by blast+

lemma evolves_claim:
  assumes v: "evolves w0 d d1" and k: "claim_ok M d w (i, e, h)" and w: "w \<noteq> w0" "w \<noteq> []"
  shows "claim_ok M d1 w (i, e, h)"
proof -
  let ?k = "(h_queue h, h_priority h)"
  have e: "astray M h \<or> e < x_next (d_streams d ?k)" by (rule claim_okD [OF k])
  have "astray M h \<or> e < x_next (d_streams d1 ?k)" using e evolves_next [OF v, of ?k] by auto
  moreover have "x = i \<or> astray M h" if "(e, x) \<in> set (entries d1 ?k)" for x
    using evolves_entry [OF v that] e claim_okD(2) [OF k] by auto
  moreover have "h_queue h1 = h_queue h \<and> h_priority h1 = h_priority h" if "held i w (h_attempts h) d1 = Some h1" for h1
  proof -
    have h1: "d_jobs d1 i = Some h1" "h_reserved_by h1 = w" "h_attempts h1 = h_attempts h"
      using that by (auto simp: held_def split: option.splits if_splits)
    obtain h2 where h2: "d_jobs d i = Some h2" "h_reserved_by h1 = h_reserved_by h2" "h_attempts h1 = h_attempts h2"
      "h_queue h1 = h_queue h2" "h_priority h1 = h_priority h2"
      by (rule evolves_job [OF v h1(1)]) (use h1(2) w in simp_all)
    have "held i w (h_attempts h) d = Some h2" using h1 h2 by (simp add: held_def)
    then show ?thesis using claim_okD(3,4) [OF k] h2 by simp
  qed
  ultimately show ?thesis unfolding claim_ok_def prod.case by blast
qed

text \<open>Every script is such a change.\<close>

lemma evolves_jobs_only:
  assumes "\<And>k. entries d1 k = entries d k" "\<And>k. x_next (d_streams d1 k) = x_next (d_streams d k)"
    and "\<And>i h1. d_jobs d1 i = Some h1 \<Longrightarrow> h_reserved_by h1 = w0 \<or> h_reserved_by h1 = []
       \<or> (\<exists>h. d_jobs d i = Some h \<and> h_reserved_by h1 = h_reserved_by h \<and> h_attempts h1 = h_attempts h \<and> h_queue h1 = h_queue h
        \<and> h_priority h1 = h_priority h)"
  shows "evolves w0 d d1"
  by (rule evolvesI) (use assms(1,2) in simp, use assms(1) in simp, use assms(3) in blast)

lemma evolves_add: "evolves w0 d (add_entry q l i d)"
  by (rule evolvesI) (auto split: if_splits)

lemma evolves_drop: "evolves w0 d (drop_entry k e d)"
  by (rule evolvesI) (auto split: if_splits)

lemma evolves_promote: "evolves w0 d (promote_one q i d)"
proof -
  have "evolves w0 d (delayed_update q (AList.delete i) d)" "evolves w0 d d" by (rule evolves_jobs_only; simp)+
  then show ?thesis
    by (auto simp: promote_one_def Let_def split: option.split intro: evolves_trans [OF _ evolves_add])
qed


lemma evolves_hash:
  assumes "\<And>h1. f h = Some h1 \<Longrightarrow> h_reserved_by h1 = w0 \<or> h_reserved_by h1 = []
       \<or> (h_reserved_by h1 = h_reserved_by h \<and> h_attempts h1 = h_attempts h \<and> h_queue h1 = h_queue h \<and> h_priority h1 = h_priority h)"
    and "d_jobs d i = Some h" "d_jobs d1 = (d_jobs d)(i := f h)" "d_streams d1 = d_streams d"
  shows "evolves w0 d d1"
  by (rule evolves_jobs_only) (use assms in \<open>auto split: if_splits\<close>)

lemma evolves_same: "d_jobs d1 = d_jobs d \<Longrightarrow> d_streams d1 = d_streams d \<Longrightarrow> evolves w0 d d1"
  by (rule evolves_jobs_only) auto

lemma evolves_bury: "evolves w0 d (bury x t now i d)"
  by (rule evolves_jobs_only) (auto split: if_splits)

lemma evolves_push_new: "d_jobs d (d_seq d + 1) = None \<Longrightarrow> evolves w0 d (snd (push_new q n p pr ma uk av cr now d))"
  by (rule evolvesI) (auto simp: push_new_def Let_def split: if_splits)

lemma evolves_consider: "evolves (a_worker a) d (snd (consider_entry a q l e i d))"
proof -
  have p: "evolves (a_worker a) d (job_update i (\<lambda>h. h\<lparr>h_entry := None\<rparr>) (delayed_update q (AList.update i t) d))" for t
    by (rule evolves_jobs_only) (auto split: if_splits)
  have c: "evolves (a_worker a) d (d\<lparr>d_jobs := (d_jobs d)(i \<mapsto> h)\<rparr>)" if "h_reserved_by h = a_worker a" for h
    by (rule evolves_jobs_only) (use that in \<open>auto split: if_splits\<close>)
  show ?thesis
    by (auto simp: consider_entry_def Let_def evolves_drop c evolves_trans [OF p evolves_drop] evolves_trans [OF evolves_drop evolves_bury]
        split: option.split)
qed

interpretation evolve: reserve_order a "evolves (a_worker a)" for a
proof unfold_locales
  show "evolves (a_worker a) d (d\<lparr>d_streams := (d_streams d)(k := s)\<rparr>)"
    if "x_entries s = entries d k" "x_next s = x_next (d_streams d k)" for s d k
    by (rule evolves_jobs_only) (use that in simp_all)
qed (fact evolves_same [OF HOL.refl HOL.refl] evolves_trans evolves_promote | rule evolves_consider)+

lemma evolves_held:
  assumes "held i w n d = Some h"
    and "\<And>h1. d_jobs d1 i = Some h1 \<Longrightarrow> h_reserved_by h1 = []" "\<And>j. j \<noteq> i \<Longrightarrow> d_jobs d1 j = d_jobs d j"
    and "d_streams d1 = d_streams (drop_entry k e d)"
  shows "evolves [] d d1"
proof (rule evolves_trans [OF evolves_drop [of _ d k e]], rule evolves_jobs_only)
  show "h_reserved_by h1 = [] \<or> h_reserved_by h1 = [] \<or> (\<exists>h. d_jobs (drop_entry k e d) j = Some h \<and> h_reserved_by h1 = h_reserved_by h
      \<and> h_attempts h1 = h_attempts h \<and> h_queue h1 = h_queue h \<and> h_priority h1 = h_priority h)" if "d_jobs d1 j = Some h1" for j h1
    using assms(2,3) that by (cases "j = i") auto
qed (use assms(4) in auto)

text \<open>The scripts that end a claim, given by the worker that was handed it.\<close>

lemma held_SomeD: "held i w n d = Some h \<Longrightarrow> d_jobs d i = Some h \<and> h_reserved_by h = w \<and> h_attempts h = n"
  by (auto simp: held_def split: option.splits if_splits)

lemma settle_ok:
  assumes ok: "redis_ok M d" and k: "claim_ok M d w (i, e, h)" and hd: "held i w (h_attempts h) d = Some h1"
    and streams: "d_streams d1 = d_streams (drop_entry (h_queue h, h_priority h1) e d)" and levels: "d_levels d1 = d_levels d" "d_seq d1 = d_seq d"
    and others: "\<And>j. j \<noteq> i \<Longrightarrow> d_jobs d1 j = d_jobs d j"
    and me: "\<And>h2. d_jobs d1 i = Some h2 \<Longrightarrow> h_queue h2 = h_queue h1 \<and> h_priority h2 = h_priority h1 \<and> h_reserved_by h2 = [] \<and>
        (i \<in> fst ` set (d_delayed d1 (h_queue h)) \<or> i \<in> fst ` set (d_failed d1))"
    and del: "d_delayed d1 = d_delayed d \<or> (\<exists>t. d_delayed d1 = (d_delayed d)(h_queue h := AList.update i t (d_delayed d (h_queue h))))"
    and failed: "fst ` set (d_failed d) \<subseteq> fst ` set (d_failed d1)"
  shows "redis_ok M d1 \<and> evolves [] d d1"
proof
  have h1: "d_jobs d i = Some h1" using held_SomeD [OF hd] by simp
  have q: "h_queue h1 = h_queue h" "h_priority h1 = h_priority h" by (rule claim_okD(3,4) [OF k hd])+
  have s: "i \<le> d_seq d" using redis_okD(1) [OF ok h1] by (simp add: job_ok_def)
  have n: "named_in d1 (h_queue h) i"
  proof (cases "d_jobs d1 i")
    case (Some h2)
    have "h_queue h2 = h_queue h" using me [OF Some] q(1) by simp
    then show ?thesis using s levels(2) Some by (simp add: named_in_def)
  qed (use s levels(2) in \<open>simp add: named_in_def\<close>)
  show "redis_ok M d1"
  proof (rule redis_ok_settled [OF ok _ streams levels others])
    show "\<And>x. (e, x) \<in> set (entries d (h_queue h, h_priority h1)) \<Longrightarrow> x = i \<or> h_priority h1 = 0 \<and> h_queue h \<in> M"
      unfolding q(2) using claim_okD(2) [OF k] by (auto simp: astray_def)
    show "placed d1 i h2 \<and> (\<exists>h. d_jobs d i = Some h \<and> h_queue h2 = h_queue h \<and> h_priority h2 = h_priority h)" if "d_jobs d1 i = Some h2" for h2
      using me [OF that] h1 q(1) by (auto simp: placed_def)
    show "fst ` set (d_delayed d1 k) = fst ` set (d_delayed d k)
        \<or> fst ` set (d_delayed d1 k) = insert i (fst ` set (d_delayed d k)) \<and> named_in d1 k i" for k
    proof (cases "d_delayed d1 k = d_delayed d k")
      case False
      then obtain t where "d_delayed d1 = (d_delayed d)(h_queue h := AList.update i t (d_delayed d (h_queue h)))" using del by metis
      then show ?thesis using False n by (cases "k = h_queue h") simp_all
    qed simp
  qed (use failed in simp_all)
  show "evolves [] d d1" by (rule evolves_held [OF hd _ others streams]) (simp add: me)
qed

lemma complete_script_ok:
  assumes "redis_ok M d" "claim_ok M d w (i, e, h)"
  shows "redis_ok M (snd (complete_script (h_queue h) i e w (h_attempts h) d)) \<and> evolves [] d (snd (complete_script (h_queue h) i e w (h_attempts h) d))"
proof (cases "held i w (h_attempts h) d")
  case (Some h1)
  show ?thesis by (rule settle_ok [OF assms Some]) (auto simp: complete_script_def Some Let_def)
qed (use assms in \<open>auto simp: complete_script_def intro: evolves_same\<close>)

lemma release_script_ok:
  assumes "redis_ok M d" "claim_ok M d w (i, e, h)"
  shows "redis_ok M (snd (release_script (h_queue h) i e w (h_attempts h) t x d))
    \<and> evolves [] d (snd (release_script (h_queue h) i e w (h_attempts h) t x d))"
proof (cases "held i w (h_attempts h) d")
  case (Some h1)
  show ?thesis
    by (rule settle_ok [OF assms Some])
      (use held_SomeD [OF Some] in \<open>auto simp: release_script_def Some Let_def drop_entry_def stream_update_def\<close>)
qed (use assms in \<open>auto simp: release_script_def intro: evolves_same\<close>)

lemma fail_script_ok:
  assumes "redis_ok M d" "claim_ok M d w (i, e, h)"
  shows "redis_ok M (snd (fail_script (h_queue h) i e w (h_attempts h) x now t d))
    \<and> evolves [] d (snd (fail_script (h_queue h) i e w (h_attempts h) x now t d))"
proof (cases "held i w (h_attempts h) d")
  case (Some h1)
  show ?thesis
    by (rule settle_ok [OF assms Some]) (use held_SomeD [OF Some] in \<open>auto simp: fail_script_def Some\<close>)
qed (use assms in \<open>auto simp: fail_script_def intro: evolves_same\<close>)


lemma forget_script_ok:
  assumes ok: "redis_ok M d"
  shows "redis_ok M (snd (forget_script i d))"
  by (rule redis_ok_at [where i = i, OF ok])
    (use redis_okD [OF ok] in \<open>auto simp: forget_script_def Let_def stream_ok_def same_priority_def job_ok_def split: if_splits\<close>)

text \<open>The queues in which a retry of the job leaves an entry of it in the stream of another priority.\<close>

definition mixed_up :: "int \<Rightarrow> rdb \<Rightarrow> string set" where
  "mixed_up i d = {q. i \<in> fst ` set (d_failed d) \<and> (\<exists>l. l \<noteq> 0 \<and> i \<in> snd ` set (entries d (q, l)))}"

lemma redis_ok_mono:
  assumes ok: "redis_ok M d" and m: "M \<subseteq> M1"
  shows "redis_ok M1 d"
proof (rule redis_okI)
  show "job_ok M1 d i h" if "d_jobs d i = Some h" for i h
    using redis_okD(1) [OF ok that] m by (auto simp: job_ok_def astray_def)
  show "named_in d q i" if "(i, t) \<in> set (d_delayed d q)" for q i t by (rule redis_okD(2) [OF ok that])
  have "named_at M d q l i \<Longrightarrow> named_at M1 d q l i" for q l i using m by (auto simp: named_at_def split: option.splits)
  then show "stream_ok M1 d q l" for q l using redis_okD(3) [OF ok, of q l] by (simp add: stream_ok_def)
qed

lemma requeue_script_ok:
  assumes "redis_ok M0 d" and M: "M = M0 \<union> mixed_up i d"
  shows "redis_ok M (snd (requeue_script i ma now d))"
proof -
  have ok: "redis_ok M d" using redis_ok_mono [OF assms(1)] M by blast
  show ?thesis
  proof (cases "i \<in> fst ` set (d_failed d)")
    case False
    then show ?thesis using ok by (simp add: requeue_script_def map_of_eq_None_iff)
  next
    case True
    show ?thesis
    proof (cases "d_jobs d i")
      case None
      with True show ?thesis
        by (intro redis_ok_at [where i = i, OF ok])
          (use redis_okD(3) [OF ok] in \<open>auto simp: requeue_script_def map_of_eq_None_iff stream_ok_def Let_def\<close>)
    next
      case (Some h)
      define d1 where "d1 = snd (requeue_script i ma now d)"
      have j: "job_ok M d i h" by (rule redis_okD(1) [OF ok Some])
      have jobs: "\<exists>h1. d_jobs d1 i = Some h1 \<and> h_queue h1 = h_queue h \<and> h_priority h1 = 0" "\<And>j. j \<noteq> i \<Longrightarrow> d_jobs d1 j = d_jobs d j"
        and seq: "d_seq d1 = d_seq d" and delayed: "d_delayed d1 = d_delayed d" and failed: "d_failed d1 = AList.delete i (d_failed d)"
        and ent: "entries d1 k = (if k = (h_queue h, 0) then entries d k @ [(x_next (d_streams d k), i)] else entries d k)"
        and nxt: "x_next (d_streams d1 k) = (if k = (h_queue h, 0) then x_next (d_streams d k) + 1 else x_next (d_streams d k))"
        and lev: "d_levels d1 = (d_levels d)(h_queue h := List.insert 0 (d_levels d (h_queue h)))" for k
        using True Some j by (simp_all add: d1_def requeue_script_def Let_def map_of_eq_None_iff job_ok_def)
      obtain h1 where h1: "d_jobs d1 i = Some h1" "h_queue h1 = h_queue h" "h_priority h1 = 0" using jobs(1) by blast
      have n: "named_at M d1 (h_queue h) 0 i" using h1 j seq by (simp add: named_at_def named_in_def job_ok_def)
      have old: "named_at M d1 q l i" if e: "(e, i) \<in> set (entries d (q, l))" for e q l
      proof -
        have q: "q = h_queue h" using stream_okD [OF redis_okD(3) [OF ok] e] Some by (simp add: named_at_def named_in_def)
        have "i \<in> snd ` set (entries d (q, l))" using e by (rule rev_image_eqI) simp
        then have "l = 0 \<or> q \<in> M" using True unfolding M mixed_up_def by blast
        then show ?thesis using q h1 j seq by (auto simp: named_at_def named_in_def job_ok_def)
      qed
      have "redis_ok M d1"
      proof (rule redis_ok_at [where i = i, OF ok])
        show "i \<le> d_seq d1 \<and> h_queue h1 \<noteq> [] \<and> (astray M h1 \<or> placed d1 i h1) \<and> (i \<le> d_seq d \<longrightarrow> (\<exists>h. d_jobs d i = Some h \<and> h_queue h1 = h_queue h))"
          if "d_jobs d1 i = Some h1" for h1
          using that h1 j seq Some by (auto simp: job_ok_def placed_def ent)
        show "(e, i) \<in> set (entries d (q, l)) \<and> same_priority d d1 i
            \<or> e < x_next (d_streams d1 (q, l)) \<and> l \<in> set (d_levels d1 q) \<and> named_at M d1 q l i"
          if m: "(e, i) \<in> set (entries d1 (q, l))" for q l e
          using m n old [of e q l] stream_okD [OF redis_okD(3) [OF ok], of e i q l] by (auto simp: ent nxt lev split: if_splits)
        show "distinct (map fst (entries d1 (q, l)))" for q l
          using redis_okD(3) [OF ok, of q l] stream_next_new [OF redis_okD(3) [OF ok, of q l]] by (auto simp: ent stream_ok_def)
      qed (use jobs(2) seq delayed failed in \<open>auto simp: ent nxt lev split: if_splits\<close>)
      then show ?thesis by (simp add: d1_def)
    qed
  qed
qed

lemma evolves_requeue: "evolves [] d (snd (requeue_script i ma now d))"
  by (rule evolvesI) (auto simp: requeue_script_def Let_def split: if_splits option.splits)

lemma evolves_forget: "evolves [] d (snd (forget_script i d))"
  by (rule evolvesI) (auto simp: forget_script_def Let_def split: if_splits)

lemma evolves_push:
  assumes "redis_ok M d"
  shows "evolves [] d (snd (push_script q n p pr ma uk av cr now d))"
proof -
  have "d_jobs d (d_seq d + 1) = None"
    using redis_okD(1) [OF assms, of "d_seq d + 1"] by (cases "d_jobs d (d_seq d + 1)") (auto simp: job_ok_def)
  then show ?thesis
    by (auto simp: push_script_def split: option.split intro: evolves_push_new evolves_same evolves_trans [OF evolves_same evolves_push_new])
qed


section \<open>Runs\<close>

text \<open>
  What clients, workers and operators do to the store, script by script and in any order. Each
  worker asks for work when it is through with what it had, so it holds at most the claim of its last
  call. The last argument collects the queues in which a retry hit a job that still had an entry in
  the stream of another priority.
\<close>

inductive redis_run :: "rdb \<Rightarrow> (string \<rightharpoonup> int \<times> nat \<times> rhash) \<Rightarrow> string set \<Rightarrow> bool" where
  start: "redis_run empty_db Map.empty {}"
| push: "redis_run d hands M \<Longrightarrow> queue \<noteq> [] \<Longrightarrow> redis_run (snd (push_script queue name payload priority ma uk av cr now d)) hands M"
| reserve: "redis_run d hands M \<Longrightarrow> a_worker a \<noteq> [] \<Longrightarrow>
    redis_run (snd (reserve_script a queue d)) (hands(a_worker a := fst (reserve_script a queue d))) M"
| complete: "redis_run d hands M \<Longrightarrow> hands w = Some (i, e, h) \<Longrightarrow>
    redis_run (snd (complete_script (h_queue h) i e w (h_attempts h) d)) hands M"
| release: "redis_run d hands M \<Longrightarrow> hands w = Some (i, e, h) \<Longrightarrow>
    redis_run (snd (release_script (h_queue h) i e w (h_attempts h) t x d)) hands M"
| fail: "redis_run d hands M \<Longrightarrow> hands w = Some (i, e, h) \<Longrightarrow>
    redis_run (snd (fail_script (h_queue h) i e w (h_attempts h) x now t d)) hands M"
| requeue: "redis_run d hands M \<Longrightarrow>
    redis_run (snd (requeue_script i ma now d)) hands (M \<union> mixed_up i d)"
| forget: "redis_run d hands M \<Longrightarrow> redis_run (snd (forget_script i d)) hands M"

definition hands_ok :: "string set \<Rightarrow> rdb \<Rightarrow> (string \<rightharpoonup> int \<times> nat \<times> rhash) \<Rightarrow> bool" where
  "hands_ok M d hands \<longleftrightarrow> (\<forall>w c. hands w = Some c \<longrightarrow> w \<noteq> [] \<and> claim_ok M d w c)"

lemma hands_evolve: "hands_ok M d hands \<Longrightarrow> evolves [] d d1 \<Longrightarrow> hands_ok M d1 hands"
  unfolding hands_ok_def by (metis evolves_claim prod_cases3)

lemma claim_ok_mono:
  assumes "claim_ok M d w c" "M \<subseteq> M1"
  shows "claim_ok M1 d w c"
proof -
  obtain i e h where c: "c = (i, e, h)" by (rule prod_cases3)
  have "astray M h \<Longrightarrow> astray M1 h" using assms(2) by (auto simp: astray_def)
  then show ?thesis using assms(1) unfolding claim_ok_def c prod.case by blast
qed

lemma hands_ok_mono: "hands_ok M d hands \<Longrightarrow> hands_ok (M \<union> N) d hands"
  unfolding hands_ok_def using claim_ok_mono [OF _ Un_upper1] by blast

text \<open>The claim a reserve call returns is one the worker may settle, and the others stay so.\<close>

lemma reserve_claim_ok:
  assumes ok: "redis_ok M d" and r: "reserve_script a q d = (Some (i, e, h1), d1)"
  shows "claim_ok M d1 (a_worker a) (i, e, h1)"
proof (rule sound.reserve_claims [where M = M, OF r])
    fix d0 l h
    assume d0: "redis_ok M d \<longrightarrow> redis_ok M d0" and m: "(e, i) \<in> set (entries d0 (q, l))" and h: "d_jobs d0 i = Some h"
      and d1: "d1 = d0\<lparr>d_jobs := (d_jobs d0)(i \<mapsto> h1)\<rparr>"
      and h1: "h1 = h\<lparr>h_attempts := h_attempts h + 1, h_reserved_by := a_worker a, h_reserved_until := a_now a + a_hold a, h_entry := Some e\<rparr>"
    have ok0: "redis_ok M d0" using d0 ok by blast
    have s: "e < x_next (d_streams d0 (q, l))" "named_at M d0 q l i" using stream_okD [OF redis_okD(3) [OF ok0] m] by auto
    have "h_queue h = q" "h_priority h = l \<or> h_priority h = 0 \<and> q \<in> M" using s(2) h by (simp_all add: named_at_def named_in_def)
    then have q: "h_queue h1 = q" "astray M h1 \<or> h_priority h1 = l" unfolding h1 astray_def by auto
    have "h2 = h1" if "held i (a_worker a) (h_attempts h1) d1 = Some h2" for h2
      using held_SomeD [OF that] d1 by simp
    moreover have "astray M h1 \<or> e < x_next (d_streams d1 (h_queue h1, h_priority h1))
        \<and> (\<forall>x. (e, x) \<in> set (entries d1 (h_queue h1, h_priority h1)) \<longrightarrow> x = i)"
      using q(2)
    proof
      assume "h_priority h1 = l"
      then show ?thesis using s(1) entry_owner [OF ok0 m] q(1) d1 by simp
    qed simp
    ultimately show ?thesis unfolding claim_ok_def prod.case by blast
qed

lemma hands_reserve:
  assumes ok: "redis_ok M d" and k: "hands_ok M d hands" and w: "a_worker a \<noteq> []"
  shows "hands_ok M (snd (reserve_script a q d)) (hands(a_worker a := fst (reserve_script a q d)))"
proof -
  have "claim_ok M (snd (reserve_script a q d)) (a_worker a) (i, e, h)" if "fst (reserve_script a q d) = Some (i, e, h)" for i e h
    by (rule reserve_claim_ok [OF ok, of _ q]) (simp add: prod_eq_iff that)
  moreover have "w' \<noteq> [] \<and> claim_ok M (snd (reserve_script a q d)) w' c" if "w' \<noteq> a_worker a" "hands w' = Some c" for w' c
    using that k evolves_claim [OF evolve.reserve_keeps] by (cases c) (auto simp: hands_ok_def)
  ultimately show ?thesis using w by (auto simp: hands_ok_def)
qed

lemma handsD: "hands_ok M d hands \<Longrightarrow> hands w = Some c \<Longrightarrow> claim_ok M d w c"
  unfolding hands_ok_def by blast

lemma redis_run_ok: "redis_run d hands M \<Longrightarrow> redis_ok M d \<and> hands_ok M d hands"
proof (induction rule: redis_run.induct)
  case start
  then show ?case by (simp add: redis_ok_empty hands_ok_def)
next
  case (push d hands M)
  then have "redis_ok M d" "hands_ok M d hands" by simp_all
  then show ?case by (intro conjI push_script_ok [OF _ push.hyps(2)] hands_evolve [OF _ evolves_push])
next
  case (reserve d hands M a queue)
  then show ?case using sound.reserve_keeps [of M d a queue] hands_reserve by blast
next
  case (requeue d hands M i ma now)
  have "hands_ok (M \<union> mixed_up i d) d hands" using hands_ok_mono requeue.IH by blast
  then have "hands_ok (M \<union> mixed_up i d) (snd (requeue_script i ma now d)) hands" by (rule hands_evolve [OF _ evolves_requeue])
  moreover have "redis_ok (M \<union> mixed_up i d) (snd (requeue_script i ma now d))"
    using requeue.IH by (intro requeue_script_ok [OF _ HOL.refl]) simp
  ultimately show ?case by simp
next
  case (forget d hands M)
  then show ?case by (simp add: forget_script_ok hands_evolve [OF _ evolves_forget])
next
  case (complete d hands M w i e h)
  then show ?case using complete_script_ok [OF _ handsD, of M d hands w i e h] hands_evolve by blast
next
  case (release d hands M w i e h t x)
  then show ?case using release_script_ok [OF _ handsD, of M d hands w i e h t x] hands_evolve by blast
next
  case (fail d hands M w i e h x now t)
  then show ?case using fail_script_ok [OF _ handsD, of M d hands w i e h x now t] hands_evolve by blast
qed


text \<open>One job, pushed, claimed by one worker and parked by another whose timeout is shorter.\<close>

definition demo_ask :: "int \<Rightarrow> int \<Rightarrow> string \<Rightarrow> reserve_args" where
  "demo_ask now hold worker = \<lparr>a_now = now, a_clock = now * 1000, a_hold = hold, a_worker = worker\<rparr>"

definition demo_pushed :: rdb where
  "demo_pushed = snd (push_script ''mail'' ''send'' (to_text ''{}'') 0 3 [] 0 0 0 empty_db)"

definition demo_claimed :: rdb where
  "demo_claimed = snd (reserve_script (demo_ask 0 60 ''one'') ''mail'' demo_pushed)"

definition demo_claim :: "(int \<times> nat \<times> rhash) option" where
  "demo_claim = fst (reserve_script (demo_ask 0 60 ''one'') ''mail'' demo_pushed)"

definition demo_parked :: rdb where
  "demo_parked = snd (reserve_script (demo_ask 40 30 ''two'') ''mail'' demo_claimed)"

lemma demo_claim_is: "demo_claim = Some (1, 1, \<lparr>h_queue = ''mail'', h_name = ''send'', h_payload = to_text ''{}'', h_attempts = 1,
    h_max_attempts = 3, h_priority = 0, h_unique_key = [], h_available_at = 0, h_reserved_until = 60, h_reserved_by = ''one'',
    h_last_error = [], h_created_at = 0, h_entry = Some 1, h_error = [], h_failed_at = None\<rparr>)"
  by code_simp

lemma demo_parked_run: "redis_run demo_parked (Map.empty(''one'' := demo_claim, ''two'' := None)) {}"
proof -
  have "redis_run demo_pushed Map.empty {}" unfolding demo_pushed_def by (rule redis_run.push [OF redis_run.start]) simp
  then have "redis_run demo_claimed (Map.empty(''one'' := demo_claim)) {}"
    using redis_run.reserve [of demo_pushed Map.empty "{}" "demo_ask 0 60 ''one''" "''mail''"]
    by (simp add: demo_claimed_def demo_claim_def demo_ask_def)
  then have "redis_run demo_parked (Map.empty(''one'' := demo_claim, ''two'' := fst (reserve_script (demo_ask 40 30 ''two'') ''mail'' demo_claimed))) {}"
    using redis_run.reserve [of demo_claimed "Map.empty(''one'' := demo_claim)" "{}" "demo_ask 40 30 ''two''" "''mail''"]
    by (simp add: demo_parked_def demo_ask_def)
  moreover have "fst (reserve_script (demo_ask 40 30 ''two'') ''mail'' demo_claimed) = None" by code_simp
  ultimately show ?thesis by simp
qed

lemma demo_parked_hash:
  "map_option (\<lambda>h. (h_queue h, h_priority h)) (d_jobs demo_parked 1) = Some (''mail'', 0)" "entries demo_parked (''mail'', 0) = []"
  by code_simp+


theorem redis_claim_respected_witness:
  "(\<forall>e h1. fst (reserve_script (demo_ask 40 30 ''two'') ''mail'' demo_claimed) \<noteq> Some (1, e, h1))
    \<and> (\<exists>x. d_jobs demo_parked 1 = Some ((snd (snd (the demo_claim)))\<lparr>h_entry := x\<rparr>))"
proof -
  have "d_jobs demo_claimed 1 = Some (snd (snd (the demo_claim)))" by code_simp
  moreover have "a_now (demo_ask 40 30 ''two'') < h_reserved_until (snd (snd (the demo_claim)))" by code_simp
  ultimately show ?thesis unfolding demo_parked_def by (rule redis_claim_respected)
qed


text \<open>
  A job that was parked while its claim was live and then failed by its claimant stays in the
  delayed set: it is listed as failed, and the next worker that asks once the old claim has run
  out is handed it again.
\<close>

definition demo_failed :: rdb where
  "demo_failed = snd (fail_script ''mail'' 1 1 ''one'' 1 (to_text ''No handler'') 50 50 demo_parked)"

theorem redis_failed_job_handed_out:
  "redis_run demo_failed (Map.empty(''one'' := demo_claim, ''two'' := None)) {} \<and> 1 \<in> fst ` set (d_failed demo_failed)
    \<and> map_option fst (fst (reserve_script (demo_ask 61 30 ''two'') ''mail'' demo_failed)) = Some 1"
proof (intro conjI)
  show "redis_run demo_failed (Map.empty(''one'' := demo_claim, ''two'' := None)) {}"
    using redis_run.fail [OF demo_parked_run, of "''one''", simplified, OF demo_claim_is] by (simp add: demo_failed_def)
qed code_simp+

text \<open>
  And it may cost another job. A job of priority 5 is parked and failed as above; then it is promoted
  together with a scheduled job of priority 0, so that their entries have the same number in their
  streams. A retry moves the first job to priority 0, but its entry at priority 5 stays, and a
  worker is handed the job by it. As \<open>_HELD\<close> goes by the priority in the hash, completing the job takes
  the entry of that number out of the stream of priority 0, which is the other job's: that job is
  neither scheduled nor failed nor in any stream.
\<close>

definition loss_push :: "int \<Rightarrow> int \<Rightarrow> int \<Rightarrow> rdb \<Rightarrow> rdb" where
  "loss_push priority due now d = snd (push_script ''mail'' ''send'' (to_text ''{}'') priority 3 [] due now now d)"

definition loss_ask :: "int \<Rightarrow> int \<Rightarrow> string \<Rightarrow> rdb \<Rightarrow> (int \<times> nat \<times> rhash) option \<times> rdb" where
  "loss_ask now hold worker d = reserve_script (demo_ask now hold worker) ''mail'' d"

definition loss_one :: rdb where
  "loss_one = loss_push 5 0 0 empty_db"

definition loss_two :: rdb where
  "loss_two = loss_push 0 60 50 (loss_push 0 0 50 (snd (loss_ask 40 30 ''two'' (snd (loss_ask 0 60 ''one'' loss_one)))))"

definition loss_three :: rdb where
  "loss_three = snd (fail_script ''mail'' 1 1 ''one'' 1 (to_text ''No handler'') 55 55 loss_two)"

definition loss_four :: rdb where
  "loss_four = snd (requeue_script 1 3 62 (snd (loss_ask 61 30 ''two'' loss_three)))"

definition loss_five :: rdb where
  "loss_five = snd (complete_script ''mail'' 1 2 ''six'' 1 (snd (loss_ask 95 30 ''six'' loss_four)))"

lemma loss_claims:
  "\<exists>h. fst (loss_ask 0 60 ''one'' loss_one) = Some (1, 1, h) \<and> h_queue h = ''mail'' \<and> h_attempts h = 1"
  "\<exists>h. fst (loss_ask 95 30 ''six'' loss_four) = Some (1, 2, h) \<and> h_queue h = ''mail'' \<and> h_attempts h = 1"
proof -
  have c: "\<exists>h. r = Some (i, e, h) \<and> h_queue h = q \<and> h_attempts h = n"
    if "map_option (\<lambda>(i, e, h). (i, e, h_queue h, h_attempts h)) r = Some (i, e, q, n)" for r :: "(int \<times> nat \<times> rhash) option" and i e q n
    using that by auto
  show "\<exists>h. fst (loss_ask 0 60 ''one'' loss_one) = Some (1, 1, h) \<and> h_queue h = ''mail'' \<and> h_attempts h = 1"
    by (rule c) code_simp
  show "\<exists>h. fst (loss_ask 95 30 ''six'' loss_four) = Some (1, 2, h) \<and> h_queue h = ''mail'' \<and> h_attempts h = 1"
    by (rule c) code_simp
qed

lemma loss_steps:
  assumes "redis_run d hands M"
  shows "redis_run (loss_push priority due now d) hands M"
    and "worker \<noteq> [] \<Longrightarrow> redis_run (snd (loss_ask now hold worker d)) (hands(worker := fst (loss_ask now hold worker d))) M"
  using redis_run.push [OF assms, of "''mail''"] redis_run.reserve [OF assms, of "demo_ask now hold worker"]
  by (simp_all add: loss_push_def loss_ask_def demo_ask_def)

lemma loss_run: "\<exists>hands M. redis_run loss_five hands M"
proof -
  obtain h where h: "fst (loss_ask 0 60 ''one'' loss_one) = Some (1, 1, h)" "h_queue h = ''mail''" "h_attempts h = 1"
    using loss_claims(1) by blast
  obtain k where k: "fst (loss_ask 95 30 ''six'' loss_four) = Some (1, 2, k)" "h_queue k = ''mail''" "h_attempts k = 1"
    using loss_claims(2) by blast
  have "redis_run loss_one Map.empty {}" unfolding loss_one_def by (rule loss_steps(1) [OF redis_run.start])
  note loss_steps(2) [OF this, of "''one''" 0 60]
  then have "redis_run (snd (loss_ask 0 60 ''one'' loss_one)) (Map.empty(''one'' \<mapsto> (1, 1, h))) {}" using h(1) by simp
  note loss_steps(1) [OF loss_steps(1) [OF loss_steps(2) [OF this, of "''two''" 40 30], of 0 0 50], of 0 60 50]
  then obtain hands where two: "redis_run loss_two hands {}" and one: "hands ''one'' = Some (1, 1, h)" by (fastforce simp: loss_two_def)
  have "redis_run loss_three hands {}" using redis_run.fail [OF two one] h by (simp add: loss_three_def)
  note redis_run.requeue [OF loss_steps(2) [OF this, of "''two''" 61 30], of 1 3 62]
  then obtain hands4 M where "redis_run loss_four hands4 M" unfolding loss_four_def by blast
  note loss_steps(2) [OF this, of "''six''" 95 30]
  then have "redis_run (snd (loss_ask 95 30 ''six'' loss_four)) (hands4(''six'' \<mapsto> (1, 2, k))) M" using k(1) by simp
  note redis_run.complete [OF this, of "''six''" 1 2 k]
  then show ?thesis using k by (auto simp: loss_five_def)
qed

theorem retry_loses_another_job:
  "(\<exists>hands M. redis_run loss_five hands M) \<and> (\<exists>h. d_jobs loss_five 3 = Some h \<and> \<not> placed loss_five 3 h)"
proof
  have "case d_jobs loss_five 3 of None \<Rightarrow> False | Some h \<Rightarrow> h_queue h = ''mail'' \<and> h_priority h = 0 \<and> d_delayed loss_five ''mail'' = []
      \<and> 3 \<notin> snd ` set (entries loss_five (''mail'', 0)) \<and> d_failed loss_five = []"
    by code_simp
  then show "\<exists>h. d_jobs loss_five 3 = Some h \<and> \<not> placed loss_five 3 h"
    by (auto simp: placed_def split: option.splits)
qed (rule loss_run)

section \<open>The driver\<close>

text \<open>
  The attempts that the jobs in the store may still be given. A reserve call that hands out a job
  takes one of them, and no other step of a worker adds any.
\<close>

definition spare :: "rhash \<Rightarrow> nat" where
  "spare h = nat (h_max_attempts h - h_attempts h)"

definition budget :: "rdb \<Rightarrow> nat" where
  "budget d = (\<Sum>i \<in> dom (d_jobs d). spare (the (d_jobs d i)))"

definition spends :: "rdb \<Rightarrow> rdb \<Rightarrow> bool" where
  "spends d d1 \<longleftrightarrow> (finite (dom (d_jobs d)) \<longrightarrow> finite (dom (d_jobs d1)) \<and> budget d1 \<le> budget d)"

lemma spendsI:
  assumes "\<And>i h1. d_jobs d1 i = Some h1 \<Longrightarrow> \<exists>h. d_jobs d i = Some h \<and> spare h1 \<le> spare h"
  shows "spends d d1"
proof -
  have sub: "dom (d_jobs d1) \<subseteq> dom (d_jobs d)" using assms by blast
  have "budget d1 \<le> budget d" if fin: "finite (dom (d_jobs d))"
  proof -
    have "budget d1 \<le> (\<Sum>i \<in> dom (d_jobs d1). spare (the (d_jobs d i)))"
      unfolding budget_def by (rule sum_mono) (use assms in fastforce)
    also have "\<dots> \<le> budget d" unfolding budget_def by (rule sum_mono2 [OF fin sub]) simp
    finally show ?thesis .
  qed
  then show ?thesis using finite_subset [OF sub] by (simp add: spends_def)
qed

lemma spends_job:
  assumes "\<And>j. j \<noteq> i \<Longrightarrow> d_jobs d1 j = d_jobs d j" and "\<And>h1. d_jobs d1 i = Some h1 \<Longrightarrow> \<exists>h. d_jobs d i = Some h \<and> spare h1 \<le> spare h"
  shows "spends d d1"
  by (rule spendsI) (metis assms order_refl)

lemma spends_trans: "spends d d1 \<Longrightarrow> spends d1 d2 \<Longrightarrow> spends d d2"
  by (auto simp: spends_def)

interpretation spend: reserve_order a spends for a
proof unfold_locales
  show "spends d d" for d by (simp add: spends_def)
  show "spends d d1 \<Longrightarrow> spends d1 d2 \<Longrightarrow> spends d d2" for d d1 d2 by (rule spends_trans)
  show "spends d (promote_one q i d)" for d q i
    by (rule spends_job [of i]) (auto simp: promote_one_def Let_def spare_def split: option.splits if_splits)
  show "spends d (d\<lparr>d_streams := (d_streams d)(k := s)\<rparr>)" for d k s by (simp add: spends_def budget_def)
  show "spends d (snd (consider_entry a q l e i d))" for d q l e i
    by (rule spends_job [of i]) (auto simp: consider_entry_def Let_def spare_def split: option.splits if_splits)
qed

lemma reserve_spends:
  assumes r: "reserve_script a q d = (Some (i, e, h1), d1)" and fin: "finite (dom (d_jobs d))"
  shows "budget d1 < budget d"
proof (rule spend.reserve_claims [OF r])
  fix d0 h
  assume s: "spends d d0" and h: "d_jobs d0 i = Some h" and a: "h_attempts h < h_max_attempts h"
    and d1: "d1 = d0\<lparr>d_jobs := (d_jobs d0)(i \<mapsto> h1)\<rparr>"
    and h1: "h1 = h\<lparr>h_attempts := h_attempts h + 1, h_reserved_by := a_worker a, h_reserved_until := a_now a + a_hold a, h_entry := Some e\<rparr>"
  have f: "finite (dom (d_jobs d0))" and b: "budget d0 \<le> budget d" using s fin by (auto simp: spends_def)
  have i: "i \<in> dom (d_jobs d0)" using h by blast
  have "spare h1 < spare h" using a h1 by (simp add: spare_def)
  moreover have "budget d0 = spare h + (\<Sum>j \<in> dom (d_jobs d0) - {i}. spare (the (d_jobs d0 j)))"
    unfolding budget_def using h by (simp add: sum.remove [OF f i])
  moreover have "budget d1 = spare h1 + (\<Sum>j \<in> dom (d_jobs d0) - {i}. spare (the (d_jobs d0 j)))"
    unfolding budget_def d1 using i by (simp add: insert_absorb sum.remove [OF f i])
  ultimately show ?thesis using b by linarith
qed


text \<open>The other clients of the store, between two calls of a worker, add no work.\<close>

definition rlean :: "rworld \<Rightarrow> bool" where
  "rlean w \<longleftrightarrow> finite (dom (d_jobs (fst w))) \<and> (\<forall>n d. spends d (c_others (snd w n) d))"

definition within :: "rworld \<Rightarrow> rworld \<Rightarrow> bool" where
  "within w w1 \<longleftrightarrow> (rlean w \<longrightarrow> rlean w1 \<and> budget (fst w1) \<le> budget (fst w))"

lemma within_trans: "within w w1 \<Longrightarrow> within w1 w2 \<Longrightarrow> within w w2"
  by (auto simp: within_def)

lemma within_refl: "within w w"
  by (simp add: within_def)

lemma at_call_within:
  assumes "\<And>c d. spends d (snd (body c d))" "at_call body w = (r, w1)"
  shows "within w w1"
proof -
  let ?d = "c_others (snd w 0) (fst w)"
  have "rlean w \<Longrightarrow> finite (dom (d_jobs ?d)) \<and> budget ?d \<le> budget (fst w)" by (auto simp: rlean_def spends_def)
  then show ?thesis using assms(2) assms(1) [of ?d "snd w 0"]
    by (auto simp: at_call_def Let_def within_def rlean_def spends_def split: if_splits prod.splits intro: order_trans)
qed

lemma settle_spends:
  "spends d (snd (complete_script q i e wk n d))" "spends d (snd (release_script q i e wk n t x d))" "spends d (snd (fail_script q i e wk n x now t d))"
  by (rule spends_job [of i]; auto simp: complete_script_def release_script_def fail_script_def held_def Let_def spare_def
      split: option.splits if_splits)+

lemma rfail_raw_within: "rfail_raw i q e wk n x w = (r, w1) \<Longrightarrow> within w w1"
  by (auto simp: rfail_raw_def within_refl Let_def split_beta settle_spends intro!: at_call_within split: sum.splits)

lemma rreserve_from_within:
  assumes "rreserve_from q t wk w = (r, w1)"
  shows "within w w1"
proof -
  let ?body = "\<lambda>c d. let (r, d1) = reserve_script \<lparr>a_now = c_now c, a_clock = c_clock c, a_hold = max 1 t, a_worker = take 64 wk\<rparr> q d in (Inr r, d1)"
  obtain x w0 where c: "at_call ?body w = (x, w0)" by (rule prod.exhaust)
  have "within w w0" by (rule at_call_within [OF _ c]) (simp add: split_beta spend.reserve_keeps)
  moreover have "within w0 w1"
    using assms c by (auto simp: rreserve_from_def within_refl dest!: rfail_raw_within split: sum.splits option.splits prod.splits)
  ultimately show ?thesis by (rule within_trans)
qed


lemma rreserve_from_spends:
  assumes "rreserve_from q t wk w = (Inr (Some j), w1)" "rlean w"
  shows "budget (fst w1) < budget (fst w)"
proof -
  let ?c = "snd w 0"
  let ?a = "\<lparr>a_now = c_now ?c, a_clock = c_clock ?c, a_hold = max 1 t, a_worker = take 64 wk\<rparr>"
  have "finite (dom (d_jobs (c_others ?c (fst w)))) \<and> budget (c_others ?c (fst w)) \<le> budget (fst w)"
    using assms(2) by (simp add: rlean_def spends_def)
  moreover obtain i e h where r: "reserve_script ?a q (c_others ?c (fst w)) = (Some (i, e, h), fst w1)"
    using assms(1) by (auto simp: rreserve_from_def at_call_def Let_def split: sum.splits option.splits prod.splits if_splits)
  ultimately show ?thesis using reserve_spends [OF r] by simp
qed

lemma rreserve_within: "rreserve qs t wk w = (r, w1) \<Longrightarrow> within w w1"
proof (induction qs arbitrary: w)
  case (Cons q qs)
  obtain x w0 where x: "rreserve_from q t wk w = (x, w0)" by (rule prod.exhaust)
  have w0: "within w w0" by (rule rreserve_from_within [OF x])
  show ?case
  proof (cases "x = Inr None")
    case True
    then have "rreserve qs t wk w0 = (r, w1)" using Cons.prems by (simp add: x)
    then show ?thesis by (rule within_trans [OF w0 Cons.IH])
  next
    case False
    then show ?thesis using Cons.prems w0 by (auto simp: x split: sum.splits option.splits)
  qed
qed (simp add: within_refl)

lemma rreserve_spends: "rreserve qs t wk w = (Inr (Some j), w1) \<Longrightarrow> rlean w \<Longrightarrow> budget (fst w1) < budget (fst w)"
proof (induction qs arbitrary: w)
  case (Cons q qs)
  obtain x w0 where x: "rreserve_from q t wk w = (x, w0)" by (rule prod.exhaust)
  have w0: "rlean w0" "budget (fst w0) \<le> budget (fst w)" using rreserve_from_within [OF x] Cons.prems(2) by (simp_all add: within_def)
  show ?case
  proof (cases "x = Inr None")
    case True
    then have "rreserve qs t wk w0 = (Inr (Some j), w1)" using Cons.prems by (simp add: x)
    then show ?thesis using Cons.IH [OF _ w0(1)] w0(2) by simp
  next
    case False
    then have "x = Inr (Some j)" "w0 = w1" using Cons.prems by (auto simp: x split: sum.splits option.splits)
    then show ?thesis using rreserve_from_spends [of q t wk w j w1] x Cons.prems(2) by simp
  qed
qed simp

interpretation redis: queue_driver redis_driver rlean "\<lambda>w. budget (fst w)"
proof
  fix w :: rworld and j n e x w'
  assume w: "rlean w"
  have k: "within w w' \<Longrightarrow> rlean w' \<and> budget (fst w') \<le> budget (fst w)" for w' using w by (simp add: within_def)
  show "rlean w' \<and> budget (fst w') \<le> budget (fst w)" if "d_reserve redis_driver qs t wk w = (r, w')" for qs t wk r
    using rreserve_within that by (intro k) (simp add: redis_driver_def)
  show "budget (fst w') < budget (fst w)" if "d_reserve redis_driver qs t wk w = (Inr (Some j), w')" for qs t wk
    using rreserve_spends that w by (simp add: redis_driver_def)
  show "rlean w' \<and> budget (fst w') \<le> budget (fst w)" if "d_delete redis_driver j w = (x, w')"
    using that by (intro k) (auto simp: redis_driver_def rdelete_def split_beta settle_spends intro!: at_call_within)
  show "rlean w' \<and> budget (fst w') \<le> budget (fst w)" if "d_release redis_driver j n e w = (x, w')"
    using that by (intro k) (auto simp: redis_driver_def rrelease_def split_beta settle_spends within_refl intro!: at_call_within split: sum.splits)
  show "rlean w' \<and> budget (fst w') \<le> budget (fst w)" if "d_fail redis_driver j e w = (x, w')"
    using that by (intro k) (auto simp: redis_driver_def rfail_def dest: rfail_raw_within split: sum.splits prod.splits)
qed


text \<open>
  On the Redis driver, too, a worker that stops when the queue is empty does stop: when the
  handlers and the other clients of the store add no attempts, the loop returns within five turns
  for every attempt left in the store and five more, whatever fails on the way.
\<close>

theorem redis_worker_drains_and_stops:
  assumes "rlean q" "a_stop_when_empty a" "w_driver w = redis_driver"
    and "\<And>h p j q. rlean q \<Longrightarrow> rlean (snd (w_call w h p j q)) \<and> budget (fst (snd (w_call w h p j q))) \<le> budget (fst q)"
    and "5 * budget (fst q) + 5 \<le> f"
  shows "\<exists>r. run f w a turns q = Some r"
proof -
  have "redis.polite w" unfolding redis.polite_def using assms(3,4) by blast
  then show ?thesis
    unfolding run_def using redis.run_loop_ends [OF _ assms(2,1), of w 0 f turns "[]" 0] assms(5) by simp
qed

definition redis_demo_worker :: "(nat, rworld) worker" where
  "redis_demo_worker = \<lparr>w_driver = redis_driver, w_import = (\<lambda>_. NoModule), w_handlers = [(''send'', PFun 1)],
     w_call = (\<lambda>h p j q. (Returned j, q)), w_detail = (\<lambda>_. []), w_backoff = DefaultSteps, w_id = ''one''\<rparr>"

definition redis_demo_world :: rworld where
  "redis_demo_world = (demo_pushed, \<lambda>n. \<lparr>c_now = 10 + int n, c_clock = 10000 + int n, c_down = False, c_others = id\<rparr>)"

theorem redis_worker_drains_and_stops_witness:
  "\<exists>r. run 20 redis_demo_worker (demo_args\<lparr>a_queues := [''mail'']\<rparr>) demo_turns redis_demo_world = Some r"
proof (rule redis_worker_drains_and_stops)
  have j: "dom (d_jobs demo_pushed) = {1}" "spare (the (d_jobs demo_pushed 1)) = 3"
    by (auto simp: demo_pushed_def push_script_def push_new_def Let_def empty_db_def spare_def)
  show "rlean redis_demo_world" using j by (simp add: rlean_def redis_demo_world_def spends_def)
  show "5 * budget (fst redis_demo_world) + 5 \<le> 20" using j by (simp add: budget_def redis_demo_world_def)
qed (simp_all add: demo_args_def redis_demo_worker_def)

end
