(* ===== verification/Config.thy ===== *)
theory Config
  imports Py_Text "HOL-Library.Sublist"
begin

text \<open>
  Configuration: \<open>config.py\<close>, \<open>registry.py\<close> and the part of \<open>db_pools.py\<close> that reads it. A
  configuration value is a Python value of the kinds the code distinguishes; a dictionary keeps
  its order. The process environment, after the \<open>.env\<close> file has been read into it, is an
  association list of strings.
\<close>

section \<open>Values\<close>

datatype cv = CNone | CBool bool | CInt int | CReal int | CStr string | CList "cv list" | CDict "(string, cv) dict" | COther

type_synonym config = "(string, cv) dict"

text \<open>A float is its value in millionths.\<close>

text \<open>\<open>bool(v)\<close>; values of other classes count as true.\<close>

fun truthy :: "cv \<Rightarrow> bool" where
  "truthy CNone = False"
| "truthy (CBool b) = b"
| "truthy (CInt i) = (i \<noteq> 0)"
| "truthy (CReal i) = (i \<noteq> 0)"
| "truthy (CStr s) = (s \<noteq> [])"
| "truthy (CList xs) = (xs \<noteq> [])"
| "truthy (CDict d) = (d \<noteq> [])"
| "truthy COther = True"

text \<open>\<open>d.get(k)\<close>, \<open>d.get(k) or default\<close>, and \<open>d.get(k) or {}\<close>.\<close>

definition cget :: "config \<Rightarrow> string \<Rightarrow> cv" where
  "cget d k = (case map_of d k of None \<Rightarrow> CNone | Some v \<Rightarrow> v)"

definition get_or :: "config \<Rightarrow> string \<Rightarrow> cv \<Rightarrow> cv" where
  "get_or d k v = (if truthy (cget d k) then cget d k else v)"

datatype cerror = ValueError | AttributeError | KeyError | SystemExit int

text \<open>A place where the code takes a value for a dictionary raises when it is not one.\<close>

definition as_dict :: "cv \<Rightarrow> cerror + config" where
  "as_dict v = (case v of CDict d \<Rightarrow> Inr d | _ \<Rightarrow> Inl AttributeError)"

definition section_of :: "config \<Rightarrow> string \<Rightarrow> cerror + config" where
  "section_of d k = as_dict (get_or d k (CDict []))"

section \<open>Environment variables\<close>

text \<open>
  \<open>str.isdigit\<close> holds of the digits and of the superscripts one, two and three, which \<open>int\<close>
  refuses; it also refuses more than 4300 digits.
\<close>

definition isdigit :: "string \<Rightarrow> bool" where
  "isdigit s \<longleftrightarrow> s \<noteq> [] \<and> list_all (\<lambda>c. is_digit c \<or> code c \<in> {178, 179, 185}) s"

fun int_of_digits :: "int \<Rightarrow> string \<Rightarrow> int" where
  "int_of_digits n [] = n"
| "int_of_digits n (c # s) = int_of_digits (10 * n + (int (code c) - 48)) s"

definition canonical_digits :: "string \<Rightarrow> bool" where
  "canonical_digits s \<longleftrightarrow> s = ''0'' \<or> hd s \<noteq> CHR ''0''"

definition coerce_value :: "cv \<Rightarrow> cerror + cv" where
  "coerce_value v =
     (case v of
        CStr s \<Rightarrow>
          if \<not> isdigit s then Inr v
          else if \<not> list_all is_digit s \<or> 4300 < length s then Inl ValueError
          else if canonical_digits s then Inr (CInt (int_of_digits 0 s)) else Inr v
      | _ \<Rightarrow> Inr v)"

text \<open>The dictionary is changed in place, so the changes stay when an error is raised.\<close>

fun replace_rec :: "string list \<Rightarrow> config \<Rightarrow> cv \<Rightarrow> (cerror + unit) \<times> config" where
  "replace_rec [] d v = (Inl KeyError, d)"
| "replace_rec [k] d v =
     (case coerce_value v of Inl e \<Rightarrow> (Inl e, d) | Inr x \<Rightarrow> (Inr (), AList.update k x d))"
| "replace_rec (k # k' # ks) d v =
     (let d1 = (if k \<in> fst ` set d then d else AList.update k (CDict []) d)
      in case map_of d1 k of
           Some (CDict s) \<Rightarrow>
             (case replace_rec (k' # ks) s v of
                (Inl e, s1) \<Rightarrow> (Inl e, AList.update k (CDict s1) d1)
              | (Inr _, s1) \<Rightarrow> (Inr (), AList.update k (CDict s1) d1))
         | _ \<Rightarrow> (Inl ValueError, d1))"

definition blank_char :: "char \<Rightarrow> bool" where
  "blank_char c \<longleftrightarrow> c \<in> {CHR '' '', CHR 0x0D, CHR 0x0A, CHR 0x09, CHR 0x5C}"

definition parse_splitted_values :: "char \<Rightarrow> string \<Rightarrow> string list" where
  "parse_splitted_values separator value =
     filter (\<lambda>i. i \<noteq> [] \<and> hd i \<noteq> CHR ''#'') (map (strip_with blank_char) (split_on separator value))"

definition env_path :: "string \<Rightarrow> string list" where
  "env_path key = map lower (split_on (CHR ''_'') key)"

definition apply_env :: "string list \<Rightarrow> string \<times> string \<Rightarrow> config \<Rightarrow> config" where
  "apply_env split_keys kv c =
     (let (key, val) = kv; keys = env_path key
      in if keys = [] \<or> cget c (hd keys) = CNone then c
         else snd (replace_rec keys c
                (if key \<in> set split_keys then CList (map CStr (parse_splitted_values (CHR '','') val)) else CStr val)))"

definition load_config :: "config \<Rightarrow> string list \<Rightarrow> (string, string) dict \<Rightarrow> cerror + config" where
  "load_config defaults split_keys env =
     (case map_of env ''APP_ENV'' of
        None \<Rightarrow> Inl (SystemExit (- 1))
      | Some app_env \<Rightarrow>
          if app_env = [] then Inl (SystemExit (- 1))
          else Inr (fold (apply_env split_keys) env (AList.update ''environment'' (CStr app_env) defaults)))"

definition is_env :: "string \<Rightarrow> config \<Rightarrow> bool" where
  "is_env env c \<longleftrightarrow> (case map_of c ''environment'' of None \<Rightarrow> env = [] | Some v \<Rightarrow> v = CStr env)"

definition is_env_dev :: "config \<Rightarrow> bool" where "is_env_dev = is_env ''dev''"

definition is_env_test :: "config \<Rightarrow> bool" where "is_env_test = is_env ''test''"

definition is_env_prod :: "config \<Rightarrow> bool" where "is_env_prod = is_env ''prod''"

section \<open>The registry\<close>

text \<open>Classes are named; \<open>ApiKeysModel\<close> is the default of one of them.\<close>

record registry =
  r_config :: config
  r_users_model :: "string option"
  r_api_keys_model :: string
  r_redis_channel :: string
  r_api_key_use_db :: bool

definition fresh_registry :: registry where
  "fresh_registry = \<lparr>r_config = [], r_users_model = None, r_api_keys_model = ''ApiKeysModel'',
     r_redis_channel = [], r_api_key_use_db = False\<rparr>"

definition configure :: "config \<Rightarrow> string \<Rightarrow> string option \<Rightarrow> string \<Rightarrow> bool \<Rightarrow> registry \<Rightarrow> registry" where
  "configure c users api_keys channel use_db r =
     r\<lparr>r_config := c, r_users_model := Some users,
       r_api_keys_model := (case api_keys of None \<Rightarrow> ''ApiKeysModel'' | Some x \<Rightarrow> x),
       r_redis_channel := channel, r_api_key_use_db := use_db\<rparr>"

definition users_model :: "registry \<Rightarrow> string option" where
  "users_model r = r_users_model r"

section \<open>Databases\<close>

definition PGSQL :: string where "PGSQL = ''pgsql''"

definition SQLITE :: string where "SQLITE = ''sqlite''"

definition db_driver :: "config \<Rightarrow> cerror + string" where
  "db_driver db = (case get_or db ''driver'' (CStr PGSQL) of
     CStr s \<Rightarrow> if s = PGSQL \<or> s = SQLITE then Inr s else Inl ValueError
   | _ \<Rightarrow> Inl ValueError)"

definition redis_configured :: "config \<Rightarrow> cerror + bool" where
  "redis_configured c =
     (case section_of c ''db'' of
        Inl e \<Rightarrow> Inl e
      | Inr db \<Rightarrow> (case section_of db ''redis'' of Inl e \<Rightarrow> Inl e | Inr r \<Rightarrow> Inr (truthy (cget r ''hostname''))))"

section \<open>What a variable changes\<close>

text \<open>The value at a path of keys.\<close>

fun at_path :: "string list \<Rightarrow> config \<Rightarrow> cv option" where
  "at_path [] d = Some (CDict d)"
| "at_path (k # ks) d =
     (case map_of d k of
        None \<Rightarrow> None
      | Some v \<Rightarrow> if ks = [] then Some v else (case v of CDict s \<Rightarrow> at_path ks s | _ \<Rightarrow> None))"

lemma map_of_update: "map_of (AList.update k v d) j = (if j = k then Some v else map_of d j)"
  by (simp add: update_conv')

lemma map_of_mem: "k \<in> fst ` set d \<longleftrightarrow> map_of d k \<noteq> None"
  by (auto simp: map_of_eq_None_iff)

lemma fst_update: "fst ` set (AList.update k v d) = insert k (fst ` set d)"
  by (rule set_eqI) (simp add: map_of_mem map_of_update)

text \<open>A variable changes the top level at its first key only, whether it is taken or refused.\<close>

lemma replace_rec_top:
  assumes "ks \<noteq> []" "hd ks \<in> fst ` set d"
  shows "fst ` set (snd (replace_rec ks d v)) = fst ` set d"
    "j \<noteq> hd ks \<Longrightarrow> map_of (snd (replace_rec ks d v)) j = map_of d j"
  using assms
  by (induction ks d v rule: replace_rec.induct)
    (auto simp: map_of_update fst_update Let_def split: sum.splits cv.splits option.splits prod.splits if_splits)

text \<open>
  A variable that is taken sets the value at its path, as a number when it is written like
  one, and leaves every path that neither contains it nor lies inside it as it was.
\<close>

theorem replace_rec_sets_path:
  assumes "replace_rec ks d v = (Inr (), d1)"
  shows "\<exists>x. coerce_value v = Inr x \<and> at_path ks d1 = Some x
     \<and> (\<forall>p. \<not> prefix p ks \<and> \<not> prefix ks p \<longrightarrow> at_path p d1 = at_path p d)"
  using assms
proof (induction ks d v arbitrary: d1 rule: replace_rec.induct)
  case (2 k d v)
  then obtain x where x: "coerce_value v = Inr x" "d1 = AList.update k x d" by (auto split: sum.splits)
  have "at_path p d1 = at_path p d" if p: "\<not> prefix p [k]" "\<not> prefix [k] p" for p
    using p x by (cases p) (auto simp: map_of_update split: if_splits)
  with x show ?case by (auto simp: map_of_update)
next
  case (3 k k' ks d v)
  let ?d = "if k \<in> fst ` set d then d else AList.update k (CDict []) d"
  obtain s where s: "map_of ?d k = Some (CDict s)"
    using "3.prems" by (auto simp: Let_def map_of_update map_of_mem split: option.splits cv.splits if_splits)
  obtain r s1 where r: "replace_rec (k' # ks) s v = (r, s1)" by (rule prod.exhaust)
  have u: "r = Inr ()" "d1 = AList.update k (CDict s1) ?d"
    using "3.prems" s r by (cases r; simp add: Let_def)+
  from "3.IH" [OF refl s refl] r u obtain x where x: "coerce_value v = Inr x" "at_path (k' # ks) s1 = Some x"
    and frame: "\<And>p. \<not> prefix p (k' # ks) \<Longrightarrow> \<not> prefix (k' # ks) p \<Longrightarrow> at_path p s1 = at_path p s" by blast
  have "at_path p d1 = at_path p d" if p: "\<not> prefix p (k # k' # ks)" "\<not> prefix (k # k' # ks) p" for p
  proof (cases p)
    case (Cons j q)
    show ?thesis
    proof (cases "j = k")
      case True
      then have q: "\<not> prefix q (k' # ks)" "\<not> prefix (k' # ks) q" "q \<noteq> []" using p Cons by auto
      have "at_path q s = at_path q []" if "map_of d k = None"
        using s that by (auto simp: map_of_mem map_of_update)
      moreover have "at_path q [] = None" using q(3) by (cases q) auto
      moreover have "map_of d k = Some (CDict s)" if "map_of d k \<noteq> None"
        using s that by (simp add: map_of_mem split: if_splits)
      ultimately show ?thesis using Cons True u(2) q(3) frame [OF q(1,2)]
        by (cases "map_of d k") (auto simp: map_of_update)
    next
      case False
      then show ?thesis using Cons u(2) by (auto simp: map_of_update)
    qed
  qed (use p in simp)
  with x u(2) show ?case by (auto simp: map_of_update)
qed simp

theorem replace_rec_sets_path_witness:
  "at_path [''db'', ''main'', ''port''] (snd (replace_rec [''db'', ''main'', ''port'']
      [(''db'', CDict [(''main'', CDict [(''port'', CStr ''1'')])])] (CStr ''5433''))) = Some (CInt 5433)"
proof -
  let ?r = "replace_rec [''db'', ''main'', ''port''] [(''db'', CDict [(''main'', CDict [(''port'', CStr ''1'')])])] (CStr ''5433'')"
  have c: "coerce_value (CStr ''5433'') = Inr (CInt 5433)" by code_simp
  then have "?r = (Inr (), snd ?r)" by (simp add: prod_eq_iff)
  from replace_rec_sets_path [OF this] c show ?thesis by auto
qed

lemma apply_env_top:
  "fst ` set (apply_env sk kv c) = fst ` set c"
  "j \<noteq> hd (env_path (fst kv)) \<Longrightarrow> map_of (apply_env sk kv c) j = map_of c j"
proof -
  obtain key val where kv: "kv = (key, val)" by (rule prod.exhaust)
  have ne: "env_path key \<noteq> []" by (simp add: env_path_def)
  have "hd (env_path key) \<in> fst ` set c" if "cget c (hd (env_path key)) \<noteq> CNone"
    using that by (auto simp: cget_def map_of_mem split: option.splits)
  note t = replace_rec_top [OF ne this]
  show "fst ` set (apply_env sk kv c) = fst ` set c"
    using t(1) by (simp add: apply_env_def kv Let_def)
  show "map_of (apply_env sk kv c) j = map_of c j" if "j \<noteq> hd (env_path (fst kv))"
    using t(2) that by (simp add: apply_env_def kv Let_def)
qed

lemma fold_env_top:
  "fst ` set (fold (apply_env sk) env c) = fst ` set c
   \<and> (j \<notin> (\<lambda>kv. hd (env_path (fst kv))) ` set env \<longrightarrow> map_of (fold (apply_env sk) env c) j = map_of c j)"
  by (induction env arbitrary: c) (auto simp: apply_env_top)

text \<open>
  C35. What the environment can do to a configuration: loading succeeds exactly when \<open>APP_ENV\<close> is
  set to something; no variable adds a top-level key, so the keys are those of the defaults and
  \<open>environment\<close>; a key that no variable names keeps its default, and \<open>environment\<close> is \<open>APP_ENV\<close>
  unless a variable names it.
\<close>

theorem load_config_frame:
  "(isl (load_config defaults sk env) \<longleftrightarrow> map_of env ''APP_ENV'' \<in> {None, Some []})
   \<and> (\<forall>c. load_config defaults sk env = Inr c \<longrightarrow>
        fst ` set c = insert ''environment'' (fst ` set defaults)
        \<and> (\<forall>j. j \<notin> (\<lambda>kv. hd (env_path (fst kv))) ` set env \<longrightarrow>
              map_of c j = (if j = ''environment'' then map_option CStr (map_of env ''APP_ENV'') else map_of defaults j)))"
proof -
  have top: "fst ` set c = insert ''environment'' (fst ` set defaults)
      \<and> (\<forall>j. j \<notin> (\<lambda>kv. hd (env_path (fst kv))) ` set env \<longrightarrow>
          map_of c j = (if j = ''environment'' then Some (CStr a) else map_of defaults j))"
    if "c = fold (apply_env sk) env (AList.update ''environment'' (CStr a) defaults)" for c a
    using fold_env_top [of sk env "AList.update ''environment'' (CStr a) defaults"] that
    by (auto simp: fst_update map_of_update)
  show ?thesis
  proof (cases "map_of env ''APP_ENV''")
    case (Some a)
    then show ?thesis using top by (cases "a = []") (simp_all add: load_config_def)
  qed (simp add: load_config_def)
qed

text \<open>
  The variable \<open>ENVIRONMENT\<close> names the key that was just set from \<open>APP_ENV\<close>, so it wins.
\<close>

theorem load_config_frame_witness:
  "(\<exists>c. load_config [(''db'', CNone)] [] [(''APP_ENV'', ''prod''), (''HOME'', ''x'')] = Inr c
      \<and> map_of c ''environment'' = Some (CStr ''prod''))
   \<and> load_config [] [] [(''APP_ENV'', ''prod''), (''ENVIRONMENT'', ''dev'')] = Inr [(''environment'', CStr ''dev'')]"
proof -
  let ?env = "[(''APP_ENV'', ''prod''), (''HOME'', ''x'')]"
  have p: "env_path ''APP_ENV'' = [''app'', ''env'']" "env_path ''HOME'' = [''home'']" "env_path ''ENVIRONMENT'' = [''environment'']"
    by code_simp+
  have d: "coerce_value (CStr ''dev'') = Inr (CStr ''dev'')" by code_simp
  have m: "map_of ?env ''APP_ENV'' = Some ''prod''" by simp
  have nf: "''environment'' \<notin> (\<lambda>kv. hd (env_path (fst kv))) ` set ?env" by (simp add: p)
  from load_config_frame [of "[(''db'', CNone)]" "[]" ?env] m
  obtain c where c: "load_config [(''db'', CNone)] [] ?env = Inr c" by (auto split: sum.splits) (metis isl_def sum.exhaust)
  then have "map_of c ''environment'' = Some (CStr ''prod'')"
    using load_config_frame [of "[(''db'', CNone)]" "[]" ?env] nf m by auto
  moreover have "load_config [] [] [(''APP_ENV'', ''prod''), (''ENVIRONMENT'', ''dev'')] = Inr [(''environment'', CStr ''dev'')]"
    by (simp add: load_config_def apply_env_def p cget_def d)
  ultimately show ?thesis using c by blast
qed

end
