(* ===== verification/Client_Ip.thy ===== *)
theory Client_Ip
  imports Config
begin

text \<open>
  Addresses and networks as the code uses them, \<open>request_handler/client_ip.py\<close>, and the address
  check of \<open>api_keys/keys.py\<close>. An address is its version and its number; reading and printing the
  text of addresses and networks is the record of functions \<open>ip_lib\<close>.
\<close>

section \<open>Addresses\<close>

datatype addr = V4 nat | V6 nat

text \<open>A network: an address with no bits set past the prefix length.\<close>

record net =
  n_addr :: addr
  n_plen :: nat

fun bits_of :: "addr \<Rightarrow> nat \<times> nat" where
  "bits_of (V4 n) = (32, n)"
| "bits_of (V6 n) = (128, n)"

fun same_version :: "addr \<Rightarrow> addr \<Rightarrow> bool" where
  "same_version (V4 _) (V4 _) = True"
| "same_version (V6 _) (V6 _) = True"
| "same_version _ _ = False"

text \<open>\<open>address in network\<close>\<close>

definition in_net :: "addr \<Rightarrow> net \<Rightarrow> bool" where
  "in_net a n \<longleftrightarrow> same_version a (n_addr n)
     \<and> (let (w, x) = bits_of a; (_, y) = bits_of (n_addr n) in x div 2 ^ (w - n_plen n) = y div 2 ^ (w - n_plen n))"

text \<open>\<open>ipv4_mapped\<close>: the last 32 bits of an address under \<open>::ffff:0:0/96\<close>.\<close>

definition unmap :: "addr \<Rightarrow> addr" where
  "unmap a = (case a of V6 n \<Rightarrow> if n div 2 ^ 32 = 0xFFFF then V4 (n mod 2 ^ 32) else V6 n | V4 n \<Rightarrow> V4 n)"

record ip_lib =
  ip_address :: "string \<Rightarrow> addr option"
  ip_network :: "bool \<Rightarrow> string \<Rightarrow> net option"
  show_addr :: "addr \<Rightarrow> string"
  show_net :: "net \<Rightarrow> string"

section \<open>Trusted proxies\<close>

text \<open>\<open>str(item)\<close> for the items of a list that are not text is left to \<open>pystr\<close>.\<close>

definition trusted_proxies :: "ip_lib \<Rightarrow> (cv \<Rightarrow> string) \<Rightarrow> config \<Rightarrow> (string, string) dict \<Rightarrow> net list option" where
  "trusted_proxies lib pystr config env =
     (let configured = (case cget config ''trusted_proxies'' of
            CNone \<Rightarrow> CStr (case map_of env ''TRUSTED_PROXIES'' of None \<Rightarrow> [] | Some s \<Rightarrow> s)
          | v \<Rightarrow> v);
          items = (case configured of
            CStr s \<Rightarrow> Some (split_on (CHR '','') s)
          | CList xs \<Rightarrow> Some (map (\<lambda>x. case x of CStr s \<Rightarrow> s | _ \<Rightarrow> pystr x) xs)
          | _ \<Rightarrow> None)
      in map_option (\<lambda>is. List.map_filter (\<lambda>i. if strip i = [] then None else ip_network lib True (strip i)) is) items)"

definition parse_addr :: "ip_lib \<Rightarrow> string option \<Rightarrow> addr option" where
  "parse_addr lib raw =
     (case raw of
        None \<Rightarrow> None
      | Some r \<Rightarrow> if r = [] then None else map_option unmap (ip_address lib (strip r)))"

definition is_trusted :: "addr \<Rightarrow> net list \<Rightarrow> bool" where
  "is_trusted a trusted = list_ex (in_net a) trusted"

text \<open>The walk over the hops, from the right; \<open>prev\<close> is the hop before.\<close>

fun walk_hops :: "ip_lib \<Rightarrow> net list \<Rightarrow> addr option \<Rightarrow> string list \<Rightarrow> addr option" where
  "walk_hops lib trusted prev [] = prev"
| "walk_hops lib trusted prev (hop # hops) =
     (case parse_addr lib (Some hop) of
        None \<Rightarrow> None
      | Some a \<Rightarrow> if \<not> is_trusted a trusted then Some a else walk_hops lib trusted (Some a) hops)"

definition resolve_addr :: "ip_lib \<Rightarrow> string option \<Rightarrow> string option \<Rightarrow> string option \<Rightarrow> net list \<Rightarrow> addr option" where
  "resolve_addr lib peer forwarded_for real_ip trusted =
     (case parse_addr lib peer of
        None \<Rightarrow> None
      | Some p \<Rightarrow>
          if \<not> is_trusted p trusted then Some p
          else (case forwarded_for of
                  Some f \<Rightarrow>
                    if f \<noteq> [] then walk_hops lib trusted None (rev (split_on (CHR '','') f))
                    else (case real_ip of Some r \<Rightarrow> if r \<noteq> [] then parse_addr lib (Some r) else Some p | None \<Rightarrow> Some p)
                | None \<Rightarrow> (case real_ip of Some r \<Rightarrow> if r \<noteq> [] then parse_addr lib (Some r) else Some p | None \<Rightarrow> Some p)))"

definition resolve_client_ip :: "ip_lib \<Rightarrow> string option \<Rightarrow> string option \<Rightarrow> string option \<Rightarrow> net list \<Rightarrow> string option" where
  "resolve_client_ip lib peer forwarded_for real_ip trusted =
     map_option (show_addr lib) (resolve_addr lib peer forwarded_for real_ip trusted)"

section \<open>Allow-lists\<close>

definition parse_network :: "ip_lib \<Rightarrow> string \<Rightarrow> string option" where
  "parse_network lib raw = map_option (show_net lib) (ip_network lib True (strip raw))"

definition ip_allowed :: "ip_lib \<Rightarrow> string option \<Rightarrow> string list \<Rightarrow> bool" where
  "ip_allowed lib ip networks =
     (case ip of
        None \<Rightarrow> False
      | Some t \<Rightarrow>
          if t = [] then False
          else case ip_address lib t of
                 None \<Rightarrow> False
               | Some a \<Rightarrow> list_ex (\<lambda>n. case ip_network lib False n of None \<Rightarrow> False | Some x \<Rightarrow> in_net (unmap a) x) networks)"

section \<open>What a client can forge\<close>

lemma walk_hops_append:
  assumes "\<exists>h\<in>set hops. \<exists>a. parse_addr lib (Some h) = Some a \<and> \<not> is_trusted a trusted \<or> parse_addr lib (Some h) = None"
  shows "walk_hops lib trusted prev (hops @ rest) = walk_hops lib trusted prev hops"
  using assms
  by (induction hops arbitrary: prev) (auto split: option.split)

lemma split_on_append: "split_on c (a @ c # b) = split_on c a @ split_on c b"
  by (induction a) (auto split: list.splits)

lemma walk_hops_untrusted:
  "walk_hops lib trusted prev hops = Some a \<Longrightarrow> \<exists>h\<in>set hops. parse_addr lib (Some h) = Some b \<and> \<not> is_trusted b trusted \<Longrightarrow>
    \<not> is_trusted a trusted"
  by (induction hops arbitrary: prev) (auto split: option.splits if_splits)

text \<open>
  C34. Headers count only as far as our own proxies wrote them. From a peer that is not a configured
  proxy they change nothing: the client is the peer. Behind one, whatever stands left of an
  entry that is not a proxy of ours changes nothing, so a client cannot choose its address by
  sending entries of its own, and the address given is then not one of our proxies.
\<close>

theorem forwarded_entries_ignored:
  assumes "parse_addr lib (Some peer) = Some p"
  shows "(\<not> is_trusted p trusted \<longrightarrow> resolve_addr lib (Some peer) fwd real trusted = Some p)
    \<and> (is_trusted p trusted \<and> list_ex (\<lambda>h. \<exists>b. parse_addr lib (Some h) = Some b \<and> \<not> is_trusted b trusted) (split_on (CHR '','') ours)
       \<longrightarrow> resolve_addr lib (Some peer) (Some (forged @ '','' @ ours)) real trusted
             = resolve_addr lib (Some peer) (Some ours) real trusted
         \<and> (\<forall>a. resolve_addr lib (Some peer) (Some ours) real trusted = Some a \<longrightarrow> \<not> is_trusted a trusted))"
proof (intro conjI impI; (elim conjE)?)
  show "resolve_addr lib (Some peer) fwd real trusted = Some p" if "\<not> is_trusted p trusted"
    using that assms by (simp add: resolve_addr_def)
next
  assume t: "is_trusted p trusted"
    and u: "list_ex (\<lambda>h. \<exists>b. parse_addr lib (Some h) = Some b \<and> \<not> is_trusted b trusted) (split_on (CHR '','') ours)"
  from u obtain h b where h: "h \<in> set (split_on (CHR '','') ours)" "parse_addr lib (Some h) = Some b" "\<not> is_trusted b trusted"
    by (auto simp: list_ex_iff)
  then have ne: "ours \<noteq> []" by (auto simp: parse_addr_def)
  have "walk_hops lib trusted None (rev (split_on (CHR '','') ours) @ rev (split_on (CHR '','') forged))
      = walk_hops lib trusted None (rev (split_on (CHR '','') ours))"
    by (rule walk_hops_append) (use h in auto)
  then show "resolve_addr lib (Some peer) (Some (forged @ '','' @ ours)) real trusted
      = resolve_addr lib (Some peer) (Some ours) real trusted"
    using t ne assms by (simp add: resolve_addr_def split_on_append)
  show "\<forall>a. resolve_addr lib (Some peer) (Some ours) real trusted = Some a \<longrightarrow> \<not> is_trusted a trusted"
    using t ne assms h walk_hops_untrusted [of lib trusted None "rev (split_on (CHR '','') ours)" _ b]
    by (auto simp: resolve_addr_def)
qed

definition demo_lib :: ip_lib where
  "demo_lib = \<lparr>ip_address = (\<lambda>s. if s = ''p'' then Some (V4 1) else if s = ''c'' then Some (V4 9) else Some (V4 7)),
     ip_network = (\<lambda>strict s. Some \<lparr>n_addr = V4 1, n_plen = 32\<rparr>), show_addr = (\<lambda>a. ''x''), show_net = (\<lambda>n. ''1'')\<rparr>"

theorem forwarded_entries_ignored_witness:
  "resolve_addr demo_lib (Some ''p'') (Some ''evil,c'') None [\<lparr>n_addr = V4 1, n_plen = 32\<rparr>]
     = resolve_addr demo_lib (Some ''p'') (Some ''c'') None [\<lparr>n_addr = V4 1, n_plen = 32\<rparr>]"
proof -
  have s: "strip ''p'' = ''p''" "strip ''c'' = ''c''" by code_simp+
  then have p: "parse_addr demo_lib (Some ''p'') = Some (V4 1)" "parse_addr demo_lib (Some ''c'') = Some (V4 9)"
    by (simp_all add: parse_addr_def demo_lib_def unmap_def)
  have "is_trusted (V4 1) [\<lparr>n_addr = V4 1, n_plen = 32\<rparr>]" "\<not> is_trusted (V4 9) [\<lparr>n_addr = V4 1, n_plen = 32\<rparr>]"
    by (simp_all add: is_trusted_def in_net_def)
  then show ?thesis
    using forwarded_entries_ignored [OF p(1), of "[\<lparr>n_addr = V4 1, n_plen = 32\<rparr>]" None None "''c''" "''evil''"] p
    by simp
qed

end
