(* ===== verification/Mig_Files.thy ===== *)
theory Mig_Files
  imports Py_Json
begin

text \<open>
  Migration files on disk and their states: \<open>migrations/discovery.py\<close> and
  \<open>migrations/states.py\<close>. A directory is the association list of its file names and contents,
  absent when it does not exist. The SHA-256 digest and SQLite's test for a complete statement
  are parameters.
\<close>

section \<open>Text\<close>

text \<open>\<open>str.isspace\<close> for all code points, which \<open>strip\<close> and \<open>\s\<close> use.\<close>

definition uspace :: "nat \<Rightarrow> bool" where
  "uspace c \<longleftrightarrow> (9 \<le> c \<and> c \<le> 13) \<or> (28 \<le> c \<and> c \<le> 32) \<or> c = 133 \<or> c = 160 \<or> c = 5760
     \<or> (8192 \<le> c \<and> c \<le> 8202) \<or> c = 8232 \<or> c = 8233 \<or> c = 8239 \<or> c = 8287 \<or> c = 12288"

definition ustrip :: "codes \<Rightarrow> codes" where
  "ustrip = strip_with uspace"

text \<open>\<open>bytes.decode("utf-8")\<close>: only what re-encodes to the same bytes is well formed.\<close>

definition decode_utf8 :: "bytes \<Rightarrow> codes option" where
  "decode_utf8 b =
     (let t = decode_ignore b in if list_all scalar t \<and> utf8 t = b then Some t else None)"

lemma decode_utf8_encode: "list_all scalar t \<Longrightarrow> decode_utf8 (utf8 t) = Some t"
  by (simp add: decode_utf8_def decode_encode)

section \<open>File names\<close>

definition is_slug_char :: "char \<Rightarrow> bool" where
  "is_slug_char c \<longleftrightarrow> is_lower c \<or> is_digit c"

text \<open>The shape of the timestamp \<open>\d{4}-\d{2}-\d{2}-\d{6}\<close>.\<close>

definition is_prefix_text :: "string \<Rightarrow> bool" where
  "is_prefix_text p \<longleftrightarrow> length p = 17
     \<and> (\<forall>i<17. if i = 4 \<or> i = 7 \<or> i = 10 then p ! i = CHR ''-'' else is_digit (p ! i))"

definition chop_final_newline :: "string \<Rightarrow> string" where
  "chop_final_newline s = (if s \<noteq> [] \<and> last s = CHR 0x0A then butlast s else s)"

text \<open>
  \<open>MIGRATION_FILENAME_RE\<close>: the timestamp when the name matches. The \<open>$\<close> also matches before a
  final newline.
\<close>

definition match_filename :: "string \<Rightarrow> string option" where
  "match_filename name =
     (let s = chop_final_newline name; p = take 17 s; r = drop 17 s;
          slug = take (length r - 5) (drop 1 r)
      in if is_prefix_text p \<and> 6 \<le> length r \<and> hd r = CHR ''-''
            \<and> drop (length r - 4) r = ''.sql''
            \<and> list_all (\<lambda>c. is_slug_char c \<or> c = CHR ''-'') slug
         then Some p else None)"

definition NO_TRANSACTION_DIRECTIVE :: codes where
  "NO_TRANSACTION_DIRECTIVE = to_text ''-- migrations:no-transaction''"

definition FOREIGN_KEYS_OFF_DIRECTIVE :: codes where
  "FOREIGN_KEYS_OFF_DIRECTIVE = to_text ''-- migrations:foreign-keys-off''"

record mig_file =
  g_name :: string
  g_prefix :: string
  g_sql :: codes
  g_checksum :: string
  g_no_transaction :: bool
  g_foreign_keys_off :: bool

datatype merror = MigrationError | DatabaseError string | AssertionError

section \<open>Loading\<close>

definition load_migration :: "(bytes \<Rightarrow> string) \<Rightarrow> string \<Rightarrow> bytes \<Rightarrow> merror + mig_file" where
  "load_migration sha256 name raw =
     (case match_filename name of
        None \<Rightarrow> Inl MigrationError
      | Some p \<Rightarrow>
          (case decode_utf8 raw of
             None \<Rightarrow> Inl MigrationError
           | Some sql \<Rightarrow>
               (let first_line = ustrip (fst (partition_on 10 sql))
                in Inr \<lparr>g_name = name, g_prefix = p, g_sql = sql, g_checksum = sha256 raw,
                        g_no_transaction = (first_line = NO_TRANSACTION_DIRECTIVE),
                        g_foreign_keys_off = (first_line = FOREIGN_KEYS_OFF_DIRECTIVE)\<rparr>)))"

type_synonym directory = "(string, bytes) dict option"

definition is_sql_name :: "string \<Rightarrow> bool" where
  "is_sql_name n \<longleftrightarrow> 4 \<le> length n \<and> drop (length n - 4) n = ''.sql''"

fun load_all :: "(bytes \<Rightarrow> string) \<Rightarrow> (string \<times> bytes) list \<Rightarrow> merror + mig_file list" where
  "load_all sha256 [] = Inr []"
| "load_all sha256 ((n, raw) # fs) =
     (case load_migration sha256 n raw of
        Inl e \<Rightarrow> Inl e
      | Inr f \<Rightarrow> (case load_all sha256 fs of Inl e \<Rightarrow> Inl e | Inr gs \<Rightarrow> Inr (f # gs)))"

definition discover :: "(bytes \<Rightarrow> string) \<Rightarrow> directory \<Rightarrow> merror + mig_file list" where
  "discover sha256 dir =
     (case dir of
        None \<Rightarrow> Inl MigrationError
      | Some files \<Rightarrow>
          (case load_all sha256 (sort_key fst (filter (\<lambda>(n, raw). is_sql_name n) files)) of
             Inl e \<Rightarrow> Inl e
           | Inr gs \<Rightarrow> if distinct (map g_prefix gs) then Inr gs else Inl MigrationError))"

section \<open>Looking into the SQL\<close>

definition is_meta_line :: "codes \<Rightarrow> bool" where
  "is_meta_line line \<longleftrightarrow> take 1 (dropWhile uspace line) = [92]"

definition find_meta_commands :: "codes \<Rightarrow> (nat \<times> codes) list" where
  "find_meta_commands sql =
     map (\<lambda>(n, l). (n, rstrip_with uspace l))
       (filter (\<lambda>(n, l). is_meta_line l) (enumerate 1 (split_on 10 sql)))"

text \<open>Removing every \<open>--[^\n]*\<close>.\<close>

function strip_comments :: "codes \<Rightarrow> codes" where
  "strip_comments [] = []"
| "strip_comments (c # s) =
     (if c = 45 \<and> take 1 s = [45] then strip_comments (dropWhile (\<lambda>x. x \<noteq> 10) s)
      else c # strip_comments s)"
  by pat_completeness auto
termination
  by (relation "measure length") (auto simp: le_imp_less_Suc length_dropWhile_le)

definition count_statements :: "codes \<Rightarrow> nat" where
  "count_statements sql = length (filter (\<lambda>p. ustrip p \<noteq> []) (split_on 59 (strip_comments sql)))"

text \<open>
  \<open>str.splitlines\<close>: lines end at any of these characters, a carriage return and a newline
  together count once, and an end at the end of the text opens no further line.
\<close>

definition is_line_end :: "nat \<Rightarrow> bool" where
  "is_line_end c \<longleftrightarrow> (10 \<le> c \<and> c \<le> 13) \<or> (28 \<le> c \<and> c \<le> 30) \<or> c = 133 \<or> c = 8232 \<or> c = 8233"

function splitlines :: "codes \<Rightarrow> codes list" where
  "splitlines [] = []"
| "splitlines (x # xs) =
     (let l = takeWhile (\<lambda>c. \<not> is_line_end c) (x # xs); r = dropWhile (\<lambda>c. \<not> is_line_end c) (x # xs)
      in l # splitlines (if take 2 r = [13, 10] then drop 2 r else drop 1 r))"
  by pat_completeness auto
termination
proof (relation "measure length")
  fix x xs l r
  assume r: "r = dropWhile (\<lambda>c. \<not> is_line_end c) (x # xs)"
  have "length (drop 1 r) < length (x # xs)"
    using length_dropWhile_le [of "\<lambda>c. \<not> is_line_end c" xs]
    by (auto simp: r)
  then show "((if take 2 r = [13, 10] then drop 2 r else drop 1 r), x # xs) \<in> measure length"
    by auto
qed simp

text \<open>\<open>line.split("--", 1)[0]\<close>\<close>

fun before_dashes :: "codes \<Rightarrow> codes" where
  "before_dashes [] = []"
| "before_dashes (c # s) = (if c = 45 \<and> take 1 s = [45] then [] else c # before_dashes s)"

definition has_code :: "codes \<Rightarrow> bool" where
  "has_code st \<longleftrightarrow> list_ex (\<lambda>l. ustrip (before_dashes l) \<noteq> [] \<and> ustrip (before_dashes l) \<noteq> [59]) (splitlines st)"

fun split_loop :: "(codes \<Rightarrow> bool) \<Rightarrow> codes \<Rightarrow> codes list \<Rightarrow> codes list \<times> codes" where
  "split_loop complete buffer [] = ([], buffer)"
| "split_loop complete buffer (part # parts) =
     (let b = buffer @ part @ [59]
      in if complete b
         then (let (sts, last) = split_loop complete [] parts in (ustrip b # sts, last))
         else split_loop complete b parts)"

definition split_statements :: "(codes \<Rightarrow> bool) \<Rightarrow> codes \<Rightarrow> codes list" where
  "split_statements complete script =
     (let (sts, buffer) = split_loop complete [] (split_on 59 script)
      in filter has_code (sts @ [ustrip (butlast buffer)]))"

section \<open>New files\<close>

record datetime =
  dt_year :: nat
  dt_month :: nat
  dt_day :: nat
  dt_hour :: nat
  dt_minute :: nat
  dt_second :: nat

definition digit_char :: "nat \<Rightarrow> char" where
  "digit_char d = char_of (48 + d)"

fun decimal :: "nat \<Rightarrow> string" where
  "decimal n = (if n < 10 then [digit_char n] else decimal (n div 10) @ [digit_char (n mod 10)])"

declare decimal.simps [simp del]

definition pad2 :: "nat \<Rightarrow> string" where
  "pad2 n = [digit_char (n div 10 mod 10), digit_char (n mod 10)]"

text \<open>\<open>f"{now:%Y-%m-%d-%H%M%S}"\<close>; the platform's \<open>%Y\<close> does not pad the year.\<close>

definition timestamp :: "datetime \<Rightarrow> string" where
  "timestamp t = decimal (dt_year t) @ ''-'' @ pad2 (dt_month t) @ ''-'' @ pad2 (dt_day t) @ ''-''
     @ pad2 (dt_hour t) @ pad2 (dt_minute t) @ pad2 (dt_second t)"

text \<open>\<open>re.sub(r"[^a-z0-9]+", "-", s)\<close>: each run of other characters becomes one dash.\<close>

fun slug_runs :: "bool \<Rightarrow> string \<Rightarrow> string" where
  "slug_runs in_run [] = []"
| "slug_runs in_run (c # s) =
     (if is_slug_char c then c # slug_runs False s
      else if in_run then slug_runs True s else CHR ''-'' # slug_runs True s)"

definition slugify :: "string \<Rightarrow> string" where
  "slugify name = strip_with (\<lambda>c. c = CHR ''-'') (slug_runs False (lower name))"

definition new_filename :: "string \<Rightarrow> datetime \<Rightarrow> merror + string" where
  "new_filename name now =
     (let slug = slugify name
      in if slug = [] then Inl MigrationError else Inr (timestamp now @ ''-'' @ slug @ ''.sql''))"

section \<open>States\<close>

datatype mstate = APPLIED | PENDING | DRIFT | MISSING

record applied_row =
  p_name :: string
  p_checksum :: string
  p_applied_at :: int

record migration_state =
  m_name :: string
  m_state :: mstate
  m_file :: "mig_file option"
  m_row :: "applied_row option"

text \<open>A dictionary comprehension keeps the last value of a key.\<close>

definition last_of :: "('a \<Rightarrow> string) \<Rightarrow> 'a list \<Rightarrow> string \<Rightarrow> 'a option" where
  "last_of key xs n = find (\<lambda>x. key x = n) (rev xs)"

definition classify :: "mig_file option \<Rightarrow> applied_row option \<Rightarrow> mstate" where
  "classify f r =
     (case f of
        None \<Rightarrow> MISSING
      | Some x \<Rightarrow>
          (case r of
             None \<Rightarrow> PENDING
           | Some y \<Rightarrow> if p_checksum y \<noteq> g_checksum x then DRIFT else APPLIED))"

definition compute_states :: "mig_file list \<Rightarrow> applied_row list \<Rightarrow> migration_state list" where
  "compute_states files rows =
     map (\<lambda>n. let f = last_of g_name files n; r = last_of p_name rows n
              in \<lparr>m_name = n, m_state = classify f r, m_file = f, m_row = r\<rparr>)
       (sort (remdups (map g_name files @ map p_name rows)))"

definition pending_states :: "migration_state list \<Rightarrow> migration_state list" where
  "pending_states ss = filter (\<lambda>s. m_state s = PENDING) ss"

definition blocking :: "migration_state list \<Rightarrow> migration_state list" where
  "blocking ss = filter (\<lambda>s. m_state s = DRIFT \<or> m_state s = MISSING) ss"


section \<open>Names of new files\<close>

lemma code_digit_char: "d < 10 \<Longrightarrow> code (digit_char d) = 48 + d"
  by (simp add: code_def digit_char_def)

lemma is_digit_digit_char: "d < 10 \<Longrightarrow> is_digit (digit_char d)"
  by (simp add: is_digit_def code_digit_char)

lemma digit_char_less: "\<lbrakk>a < 10; b < 10\<rbrakk> \<Longrightarrow> digit_char a < digit_char b \<longleftrightarrow> a < b"
  by (simp add: less_char_def digit_char_def)

lemma digit_char_eq: "\<lbrakk>a < 10; b < 10\<rbrakk> \<Longrightarrow> digit_char a = digit_char b \<longleftrightarrow> a = b"
  using digit_char_less [of a b] digit_char_less [of b a] by (metis less_irrefl linorder_neqE_nat)

lemma pad2_digits: "length (pad2 n) = 2" "list_all is_digit (pad2 n)"
  by (simp_all add: pad2_def is_digit_digit_char)

lemma lex_div:
  fixes a b k :: nat
  shows "(a div k < b div k \<or> a div k = b div k \<and> (a mod k < b mod k \<or> a mod k = b mod k \<and> R))
      \<longleftrightarrow> a < b \<or> a = b \<and> R"
proof -
  have e: "a = k * (a div k) + a mod k" "b = k * (b div k) + b mod k" by simp_all
  consider "a div k < b div k" | "b div k < a div k" | "a div k = b div k" by linarith
  then show ?thesis
  proof cases
    case 1
    then have "\<not> b \<le> a" using div_le_mono [of b a k] by linarith
    then show ?thesis using 1 by auto
  next
    case 2
    then have "\<not> a \<le> b" using div_le_mono [of a b k] by linarith
    then show ?thesis using 2 by auto
  next
    case 3
    then have "a < b \<longleftrightarrow> a mod k < b mod k" "a = b \<longleftrightarrow> a mod k = b mod k"
      using e by (metis nat_add_left_cancel_less, metis)
    then show ?thesis using 3 by auto
  qed
qed

lemma pad2_less:
  assumes "a < 100" "b < 100"
  shows "pad2 a @ xs < pad2 b @ ys \<longleftrightarrow> a < b \<or> a = b \<and> xs < ys"
proof -
  have "a div 10 mod 10 = a div 10" "b div 10 mod 10 = b div 10" using assms by auto
  moreover have "a div 10 < 10" "b div 10 < 10" using assms by auto
  ultimately show ?thesis
    using lex_div [of a 10 b "xs < ys"] by (simp add: pad2_def digit_char_less digit_char_eq)
qed

lemma decimal_year:
  assumes "1000 \<le> y" "y < 10000"
  shows "decimal y = pad2 (y div 100) @ pad2 (y mod 100)"
proof -
  have 1: "decimal y = decimal (y div 10) @ [digit_char (y mod 10)]"
    using assms by (subst decimal.simps) simp
  have big: "\<not> y div 10 < 10" "\<not> y div 100 < 10" using assms by (simp_all add: div_less_iff_less_mult)
  have 2: "decimal (y div 10) = decimal (y div 100) @ [digit_char (y div 10 mod 10)]"
    using big by (subst decimal.simps) (simp add: div_mult2_eq [symmetric])
  have 3: "decimal (y div 100) = decimal (y div 1000) @ [digit_char (y div 100 mod 10)]"
    using big by (subst decimal.simps) (simp add: div_mult2_eq [symmetric])
  have 4: "decimal (y div 1000) = [digit_char (y div 1000)]"
    using assms by (subst decimal.simps) (simp add: div_less_iff_less_mult)
  have "y div 100 div 10 mod 10 = y div 1000"
    using assms by (simp add: div_mult2_eq [symmetric] div_less_iff_less_mult)
  moreover have "y mod 100 = 10 * (y div 10 mod 10) + y mod 10"
    using mod_mult2_eq [of y 10 10] by simp
  then have "y mod 100 div 10 mod 10 = y div 10 mod 10" "y mod 100 mod 10 = y mod 10" by simp_all
  ultimately show ?thesis by (simp add: 1 2 3 4 pad2_def)
qed

text \<open>The fields of a calendar date of four digits.\<close>

definition datetime_ok :: "datetime \<Rightarrow> bool" where
  "datetime_ok t \<longleftrightarrow> 1000 \<le> dt_year t \<and> dt_year t < 10000 \<and> dt_month t \<le> 12 \<and> dt_day t \<le> 31
     \<and> dt_hour t < 24 \<and> dt_minute t < 60 \<and> dt_second t < 60"

definition moment_of :: "datetime \<Rightarrow> nat list" where
  "moment_of t = [dt_year t, dt_month t, dt_day t, dt_hour t, dt_minute t, dt_second t]"

lemma timestamp_pads:
  "datetime_ok t \<Longrightarrow> timestamp t = pad2 (dt_year t div 100) @ pad2 (dt_year t mod 100) @ ''-''
     @ pad2 (dt_month t) @ ''-'' @ pad2 (dt_day t) @ ''-'' @ pad2 (dt_hour t) @ pad2 (dt_minute t) @ pad2 (dt_second t)"
  by (simp add: timestamp_def decimal_year datetime_ok_def)

lemma timestamp_shape: "datetime_ok t \<Longrightarrow> is_prefix_text (timestamp t)"
proof -
  assume t: "datetime_ok t"
  have "timestamp t ! i = CHR ''-''" if "i = 4 \<or> i = 7 \<or> i = 10" for i
    using that by (auto simp: timestamp_pads [OF t] pad2_def)
  moreover have "is_digit (timestamp t ! i)" if "i < 17" "\<not> (i = 4 \<or> i = 7 \<or> i = 10)" for i
  proof -
    have "i = 0 \<or> i = 1 \<or> i = 2 \<or> i = 3 \<or> i = 5 \<or> i = 6 \<or> i = 8 \<or> i = 9 \<or> i = 11 \<or> i = 12
        \<or> i = 13 \<or> i = 14 \<or> i = 15 \<or> i = 16" using that by presburger
    then show ?thesis by (auto simp: timestamp_pads [OF t] pad2_def is_digit_digit_char)
  qed
  ultimately show ?thesis
    by (auto simp: is_prefix_text_def timestamp_pads [OF t] pad2_digits)
qed

lemma timestamp_less:
  assumes "datetime_ok s" "datetime_ok t"
  shows "timestamp s @ x < timestamp t @ y \<longleftrightarrow>
    moment_of s < moment_of t \<or> moment_of s = moment_of t \<and> x < y"
proof -
  note lex_div [of "dt_year s" 100 "dt_year t"]
  then show ?thesis
    using assms
    by (auto simp: timestamp_pads pad2_less moment_of_def datetime_ok_def div_less_iff_less_mult)
qed

lemma slug_runs_chars: "list_all (\<lambda>c. is_slug_char c \<or> c = CHR ''-'') (slug_runs b s)"
  by (induction b s rule: slug_runs.induct) auto

lemma slugify_chars: "list_all (\<lambda>c. is_slug_char c \<or> c = CHR ''-'') (slugify name)"
  using slug_runs_chars [of False "lower name"] set_strip_with [of _ "slug_runs False (lower name)"]
  by (auto simp: slugify_def list_all_iff)

lemma new_filename_shape:
  assumes "new_filename name t = Inr f"
  shows "slugify name \<noteq> []" "f = timestamp t @ ''-'' @ slugify name @ ''.sql''"
  using assms by (auto simp: new_filename_def Let_def split: if_splits)

lemma new_filename_matches:
  assumes "datetime_ok t" "new_filename name t = Inr f"
  shows "match_filename f = Some (timestamp t)" "is_sql_name f"
proof -
  note s = new_filename_shape [OF assms(2)]
  have len: "length (timestamp t) = 17" using timestamp_shape [OF assms(1)] by (simp add: is_prefix_text_def)
  have "last f \<noteq> CHR 0x0A" by (simp add: s(2))
  then have chop: "chop_final_newline f = f" by (simp add: chop_final_newline_def)
  show "match_filename f = Some (timestamp t)"
    using timestamp_shape [OF assms(1)] slugify_chars [of name] len s(1)
    unfolding match_filename_def Let_def chop unfolding s(2)
    by (cases "slugify name") auto
  show "is_sql_name f" by (simp add: is_sql_name_def s(2))
qed

text \<open>
  A file created by \<open>migrations new\<close> is one that discovery accepts, and its name sorts after
  every file created earlier: for any name with a usable character and any date of four-digit
  year the generated name matches the pattern with the timestamp as prefix, and names generated
  at two moments compare as the moments do.
\<close>

theorem new_filename_accepted:
  assumes "datetime_ok t" "new_filename name t = Inr f"
  shows "match_filename f = Some (timestamp t) \<and> is_sql_name f
    \<and> (\<forall>s other g. datetime_ok s \<and> new_filename other s = Inr g \<and> moment_of s < moment_of t \<longrightarrow> g < f)"
proof -
  have "g < f" if "datetime_ok s" "new_filename other s = Inr g" "moment_of s < moment_of t" for s other g
    using new_filename_shape(2) [OF that(2)] timestamp_less [OF that(1) assms(1)] that(3)
      new_filename_shape(2) [OF assms(2)] by simp
  then show ?thesis using new_filename_matches [OF assms] by blast
qed


definition demo_time :: datetime where
  "demo_time = \<lparr>dt_year = 2026, dt_month = 3, dt_day = 9, dt_hour = 7, dt_minute = 5, dt_second = 0\<rparr>"

lemma demo_filename: "new_filename ''Add users!'' demo_time = Inr ''2026-03-09-070500-add-users.sql''"
  by code_simp

theorem new_filename_accepted_witness:
  "match_filename ''2026-03-09-070500-add-users.sql'' = Some (timestamp demo_time)
   \<and> timestamp demo_time = ''2026-03-09-070500''"
proof -
  have "datetime_ok demo_time" "timestamp demo_time = ''2026-03-09-070500''" by code_simp+
  with new_filename_accepted [OF this(1) demo_filename] show ?thesis by blast
qed

section \<open>Discovery\<close>

lemma load_migration_fields:
  assumes "load_migration sha n raw = Inr g"
  shows "g_name g = n" "g_checksum g = sha raw" "match_filename n = Some (g_prefix g)"
    "decode_utf8 raw = Some (g_sql g)" "\<not> (g_no_transaction g \<and> g_foreign_keys_off g)"
proof -
  have "NO_TRANSACTION_DIRECTIVE \<noteq> FOREIGN_KEYS_OFF_DIRECTIVE"
    by (simp add: NO_TRANSACTION_DIRECTIVE_def FOREIGN_KEYS_OFF_DIRECTIVE_def to_text_def code_def)
  with assms show "g_name g = n" "g_checksum g = sha raw" "match_filename n = Some (g_prefix g)"
    "decode_utf8 raw = Some (g_sql g)" "\<not> (g_no_transaction g \<and> g_foreign_keys_off g)"
    by (auto simp: load_migration_def Let_def split: option.splits)
qed

lemma load_all_list:
  "load_all sha fs = Inr gs \<Longrightarrow> list_all2 (\<lambda>(n, raw) g. load_migration sha n raw = Inr g) fs gs"
proof (induction fs arbitrary: gs)
  case (Cons f fs)
  obtain n raw where f: "f = (n, raw)" by (cases f)
  then show ?case using Cons by (auto split: sum.splits)
qed simp

text \<open>
  What discovery returns: one migration for every \<open>.sql\<close> file of the directory and nothing
  else, each loaded from its content, in the order of their names, with no two sharing a
  timestamp; and a file whose name or encoding is wrong, or a shared timestamp, is an error rather
  than a file that is skipped.
\<close>

theorem discover_complete:
  assumes "discover sha dir = Inr gs"
  shows "\<exists>files. dir = Some files
    \<and> list_all2 (\<lambda>(n, raw) g. load_migration sha n raw = Inr g)
        (sort_key fst (filter (\<lambda>(n, raw). is_sql_name n) files)) gs
    \<and> sorted (map g_name gs) \<and> distinct (map g_prefix gs)
    \<and> set (map g_name gs) = {n. is_sql_name n \<and> n \<in> fst ` set files}"
proof -
  obtain files where dir: "dir = Some files" using assms by (auto simp: discover_def split: option.splits)
  let ?fs = "sort_key fst (filter (\<lambda>(n, raw). is_sql_name n) files)"
  have la: "load_all sha ?fs = Inr gs" and d: "distinct (map g_prefix gs)"
    using assms dir by (auto simp: discover_def split: sum.splits if_splits)
  note l2 = load_all_list [OF la]
  then have names: "map g_name gs = map fst ?fs"
    by (induction rule: list_all2_induct) (auto dest: load_migration_fields(1))
  have "sorted (map g_name gs)" unfolding names by simp
  moreover have "set (map g_name gs) = {n. is_sql_name n \<and> n \<in> fst ` set files}"
    unfolding names by force
  ultimately show ?thesis using dir l2 d by blast
qed

definition demo_dir :: directory where
  "demo_dir = Some [(''README'', [65]), (''2026-03-09-070500-add-users.sql'', [65, 59])]"

lemma demo_content: "decode_utf8 [65, 59] = Some [65, 59]"
  using decode_utf8_encode [of "[65, 59]"] by (simp add: utf8_char_def scalar_def)

lemma demo_name: "is_sql_name ''2026-03-09-070500-add-users.sql''" "\<not> is_sql_name ''README''"
    "match_filename ''2026-03-09-070500-add-users.sql'' = Some ''2026-03-09-070500''"
  by code_simp+

theorem discover_complete_witness:
  "\<exists>gs. discover (\<lambda>_. ''x'') demo_dir = Inr gs \<and> map g_name gs = [''2026-03-09-070500-add-users.sql'']
     \<and> distinct (map g_prefix gs)"
proof -
  obtain gs where gs: "discover (\<lambda>_. ''x'') demo_dir = Inr gs"
    "map g_name gs = [''2026-03-09-070500-add-users.sql'']"
    by (simp add: demo_dir_def discover_def demo_name load_migration_def demo_content Let_def)
  from discover_complete [OF gs(1)] have "distinct (map g_prefix gs)" by blast
  with gs show ?thesis by (intro exI [of _ gs] conjI)
qed

section \<open>States\<close>

lemma last_of_Some:
  assumes "distinct (map key xs)"
  shows "last_of key xs n = Some x \<longleftrightarrow> x \<in> set xs \<and> key x = n"
proof
  assume "last_of key xs n = Some x"
  then show "x \<in> set xs \<and> key x = n"
    unfolding last_of_def by (auto simp: find_Some_iff) (metis nth_mem set_rev length_rev)
next
  assume x: "x \<in> set xs \<and> key x = n"
  then obtain y where y: "last_of key xs n = Some y"
    unfolding last_of_def by (cases "find (\<lambda>x. key x = n) (rev xs)") (auto simp: find_None_iff)
  then have "y \<in> set xs" "key y = n"
    unfolding last_of_def by (auto simp: find_Some_iff) (metis nth_mem set_rev length_rev)
  then show "last_of key xs n = Some x" using x y assms by (metis distinct_map inj_onD)
qed

lemma last_of_None: "last_of key xs n = None \<longleftrightarrow> n \<notin> key ` set xs"
  unfolding last_of_def by (auto simp: find_None_iff)

lemma compute_states_names: "map m_name (compute_states files rows) = sort (remdups (map g_name files @ map p_name rows))"
  by (simp add: compute_states_def Let_def o_def)

lemma compute_states_each:
  assumes "distinct (map g_name files)" "distinct (map p_name rows)" "s \<in> set (compute_states files rows)"
  shows "(m_state s = MISSING \<longleftrightarrow> m_name s \<notin> g_name ` set files)
        \<and> (m_state s = PENDING \<longleftrightarrow> m_name s \<in> g_name ` set files \<and> m_name s \<notin> p_name ` set rows)
        \<and> (m_state s = APPLIED \<longleftrightarrow> (\<exists>f\<in>set files. \<exists>r\<in>set rows. g_name f = m_name s
              \<and> p_name r = m_name s \<and> p_checksum r = g_checksum f))
        \<and> (m_state s = DRIFT \<longleftrightarrow> (\<exists>f\<in>set files. \<exists>r\<in>set rows. g_name f = m_name s
              \<and> p_name r = m_name s \<and> p_checksum r \<noteq> g_checksum f))"
proof -
  let ?f = "last_of g_name files (m_name s)" and ?r = "last_of p_name rows (m_name s)"
  have st: "m_state s = classify ?f ?r" using assms(3) by (auto simp: compute_states_def Let_def)
  note F = last_of_Some [OF assms(1)] and R = last_of_Some [OF assms(2)]
  show ?thesis
  proof (cases ?f)
    case None
    then have out: "m_name s \<notin> g_name ` set files" by (simp add: last_of_None)
    then have "g_name f \<noteq> m_name s" if "f \<in> set files" for f using that by (metis imageI)
    then show ?thesis using st None out by (auto simp: classify_def)
  next
    case (Some f)
    then have f: "f \<in> set files" "g_name f = m_name s" using F by auto
    have uf: "g = f" if "g \<in> set files" "g_name g = m_name s" for g using F [of "m_name s" g] that Some by simp
    show ?thesis
    proof (cases ?r)
      case None
      then have "m_name s \<notin> p_name ` set rows" by (simp add: last_of_None)
      then show ?thesis using st Some None f by (force simp: classify_def)
    next
      case r: (Some r)
      then have rr: "r \<in> set rows" "p_name r = m_name s" using R by auto
      have ur: "q = r" if "q \<in> set rows" "p_name q = m_name s" for q using R [of "m_name s" q] that r by simp
      have st': "m_state s = (if p_checksum r \<noteq> g_checksum f then DRIFT else APPLIED)"
        using st Some r by (simp add: classify_def)
      have "m_name s \<in> g_name ` set files" "m_name s \<in> p_name ` set rows" using f rr by force+
      moreover have "(\<exists>g\<in>set files. \<exists>q\<in>set rows. g_name g = m_name s \<and> p_name q = m_name s \<and> P q g) \<longleftrightarrow> P r f" for P
        using f rr uf ur by blast
      ultimately show ?thesis using st' by simp
    qed
  qed
qed

text \<open>
  The states are the union of disk and table in the order of names, each name once: a name
  without a file is MISSING, a file without a row is PENDING, a file with a row is APPLIED when
  the checksums agree and DRIFT when they do not. Whatever is neither pending nor blocking is
  applied.
\<close>

theorem compute_states_classifies:
  assumes "distinct (map g_name files)" "distinct (map p_name rows)"
  shows "sorted (map m_name (compute_states files rows)) \<and> distinct (map m_name (compute_states files rows))
    \<and> set (map m_name (compute_states files rows)) = g_name ` set files \<union> p_name ` set rows
    \<and> (\<forall>s\<in>set (compute_states files rows).
        (m_state s = MISSING \<longleftrightarrow> m_name s \<notin> g_name ` set files)
        \<and> (m_state s = PENDING \<longleftrightarrow> m_name s \<in> g_name ` set files \<and> m_name s \<notin> p_name ` set rows)
        \<and> (m_state s = APPLIED \<longleftrightarrow> (\<exists>f\<in>set files. \<exists>r\<in>set rows. g_name f = m_name s
              \<and> p_name r = m_name s \<and> p_checksum r = g_checksum f))
        \<and> (m_state s = DRIFT \<longleftrightarrow> (\<exists>f\<in>set files. \<exists>r\<in>set rows. g_name f = m_name s
              \<and> p_name r = m_name s \<and> p_checksum r \<noteq> g_checksum f)))
    \<and> length (compute_states files rows) = length (pending_states (compute_states files rows))
        + length (blocking (compute_states files rows))
        + length (filter (\<lambda>s. m_state s = APPLIED) (compute_states files rows))"
proof -
  let ?ss = "compute_states files rows"
  note each = compute_states_each [OF assms]
  have count: "length ss = length (pending_states ss) + length (blocking ss)
      + length (filter (\<lambda>s. m_state s = APPLIED) ss)" for ss
  proof (induction ss)
    case (Cons s ss)
    then show ?case by (cases "m_state s") (simp_all add: pending_states_def blocking_def)
  qed (simp add: pending_states_def blocking_def)
  have "set (map m_name ?ss) = g_name ` set files \<union> p_name ` set rows"
    unfolding compute_states_names by auto
  moreover have "sorted (map m_name ?ss)" "distinct (map m_name ?ss)"
    unfolding compute_states_names by simp_all
  ultimately show ?thesis using each count [of ?ss] by blast
qed

definition demo_file :: "string \<Rightarrow> string \<Rightarrow> mig_file" where
  "demo_file n c = \<lparr>g_name = n, g_prefix = [], g_sql = [], g_checksum = c, g_no_transaction = False,
     g_foreign_keys_off = False\<rparr>"

definition demo_applied :: "string \<Rightarrow> string \<Rightarrow> applied_row" where
  "demo_applied n c = \<lparr>p_name = n, p_checksum = c, p_applied_at = 0\<rparr>"

theorem compute_states_classifies_witness:
  "sorted (map m_name (compute_states [demo_file ''b'' ''1'', demo_file ''c'' ''2''] [demo_applied ''b'' ''9'', demo_applied ''a'' ''1'']))
   \<and> map m_state (compute_states [demo_file ''b'' ''1'', demo_file ''c'' ''2''] [demo_applied ''b'' ''9'', demo_applied ''a'' ''1''])
       = [MISSING, DRIFT, PENDING]"
proof -
  have d: "distinct (map g_name [demo_file ''b'' ''1'', demo_file ''c'' ''2''])"
    "distinct (map p_name [demo_applied ''b'' ''9'', demo_applied ''a'' ''1''])"
    by (simp_all add: demo_file_def demo_applied_def)
  have "map m_state (compute_states [demo_file ''b'' ''1'', demo_file ''c'' ''2''] [demo_applied ''b'' ''9'', demo_applied ''a'' ''1''])
       = [MISSING, DRIFT, PENDING]" by code_simp
  with compute_states_classifies [OF d] show ?thesis by blast
qed

end
