(* ===== verification/Mig_Db.thy ===== *)
theory Mig_Db
  imports Mig_Files
begin

text \<open>
  The database a migration command works on, and the tracking table in it:
  \<open>migrations/tracker.py\<close>, \<open>migrations/tracker_sqlite.py\<close> and the connection helpers at the top of
  \<open>migrations/commands.py\<close>.

  The database engine is a parameter: \<open>e_exec\<close> is what one call of \<open>execute\<close> on a piece of a
  migration file does to the database, error and partial effect included, \<open>e_fk_violations\<close> is the
  answer of \<open>PRAGMA foreign_key_check\<close>, \<open>e_complete\<close> is \<open>sqlite3.complete_statement\<close>, \<open>e_fault n\<close>
  says that the \<open>n\<close>-th statement of the session fails without an effect (a lost connection, a
  permission, a full disk), and \<open>e_clock\<close> gives the readings of the clock. Transactions are the
  engine's too: an error inside one gives the database back as it was at its begin. Migration
  files that open or close transactions themselves are outside the model.
\<close>

section \<open>State\<close>

record track_row =
  t_name :: string
  t_checksum :: string
  t_applied_at :: int
  t_duration_ms :: int
  t_applied_by :: string

text \<open>A table of the database: its columns, and its rows seen as tracking rows.\<close>

datatype mtable = Absent | Table (columns: "string list") (rows_of: "track_row list")

record 'd mdb =
  d_tables :: "string \<Rightarrow> mtable"
  d_data :: 'd

datatype kind = Postgres | Sqlite string

record 'd engine =
  e_kind :: kind
  e_autocommit :: bool
  e_exec :: "bool \<Rightarrow> codes \<Rightarrow> 'd mdb \<Rightarrow> merror option \<times> 'd mdb"
  e_fk_violations :: "'d mdb \<Rightarrow> nat"
  e_complete :: "codes \<Rightarrow> bool"
  e_fault :: "nat \<Rightarrow> bool"
  e_clock :: "nat \<Rightarrow> int"
  e_sha256 :: "bytes \<Rightarrow> string"

text \<open>A printed line is the message and what it names; the wording is not modelled.\<close>

datatype mline =
    ErrorLine merror | NotAutocommit
  | StateLine mstate string "int option" | NoneFound | Summary nat nat nat
  | BlockedLine mstate string | DriftAdvice | MissingAdvice string string
  | NoPrefix string | UpToDate
  | MetaCommands string "(nat \<times> codes) list" | ManyStatements string | SqliteOnly string
  | WouldApply string | FailedFile string merror bool | AppliedFile string int
  | DryTotal nat | AppliedTotal nat
  | NothingToBaseline | Aborted | WriteFailed merror | Stamped nat nat
  | NoDirectory | FileExists string | Created string
  | NotPlainName string | NoSuchFile string | NoTrackingRow string | Repaired string string
  | BlankLine

record 'd sess =
  s_db :: "'d mdb"
  s_fk :: bool
  s_locked :: bool
  s_step :: nat
  s_out :: "mline list"

section \<open>Actions: a state and an exception\<close>

type_synonym ('d, 'a) act = "'d sess \<Rightarrow> (merror + 'a) \<times> 'd sess"

definition ret :: "'a \<Rightarrow> ('d, 'a) act" where
  "ret x s = (Inr x, s)"

definition raise :: "merror \<Rightarrow> ('d, 'a) act" where
  "raise e s = (Inl e, s)"

definition bind_act :: "('d, 'a) act \<Rightarrow> ('a \<Rightarrow> ('d, 'b) act) \<Rightarrow> ('d, 'b) act" where
  "bind_act m k s = (case m s of (Inl e, s1) \<Rightarrow> (Inl e, s1) | (Inr x, s1) \<Rightarrow> k x s1)"

text \<open>\<open>try: m except ...: h\<close>, where \<open>h\<close> decides which exceptions it takes.\<close>

definition try_catch :: "('d, 'a) act \<Rightarrow> (merror \<Rightarrow> ('d, 'a) act) \<Rightarrow> ('d, 'a) act" where
  "try_catch m h s = (case m s of (Inl e, s1) \<Rightarrow> h e s1 | (Inr x, s1) \<Rightarrow> (Inr x, s1))"

text \<open>\<open>try: m finally: f\<close>: an exception of \<open>f\<close> replaces whatever \<open>m\<close> ended with.\<close>

definition try_finally :: "('d, 'a) act \<Rightarrow> ('d, unit) act \<Rightarrow> ('d, 'a) act" where
  "try_finally m f s =
     (let (r, s1) = m s in case f s1 of (Inl e, s2) \<Rightarrow> (Inl e, s2) | (Inr _, s2) \<Rightarrow> (r, s2))"

definition out :: "mline \<Rightarrow> ('d, unit) act" where
  "out l s = (Inr (), s\<lparr>s_out := s_out s @ [l]\<rparr>)"

fun outs :: "mline list \<Rightarrow> ('d, unit) act" where
  "outs [] = ret ()"
| "outs (l # ls) = bind_act (out l) (\<lambda>_. outs ls)"

text \<open>Print one line and give the exit code.\<close>

definition say :: "mline \<Rightarrow> int \<Rightarrow> ('d, int) act" where
  "say l c = bind_act (out l) (\<lambda>_. ret c)"

section \<open>Statements and transactions\<close>

definition connection_lost :: merror where
  "connection_lost = DatabaseError ''statement failed''"

definition stmt :: "'d engine \<Rightarrow> ('d sess \<Rightarrow> (merror + 'a) \<times> 'd sess) \<Rightarrow> ('d, 'a) act" where
  "stmt e f s =
     (let s1 = s\<lparr>s_step := Suc (s_step s)\<rparr>
      in if e_fault e (s_step s) then (Inl connection_lost, s1) else f s1)"

definition on_db :: "('d mdb \<Rightarrow> (merror + 'a) \<times> 'd mdb) \<Rightarrow> ('d, 'a) act" where
  "on_db f s = (let (r, d) = f (s_db s) in (r, s\<lparr>s_db := d\<rparr>))"

definition monotonic :: "'d engine \<Rightarrow> ('d, int) act" where
  "monotonic e s = (Inr (e_clock e (s_step s)), s\<lparr>s_step := Suc (s_step s)\<rparr>)"

text \<open>\<open>async with conn.transaction(): body\<close>\<close>

definition transaction :: "'d engine \<Rightarrow> ('d, 'a) act \<Rightarrow> ('d, 'a) act" where
  "transaction e body s =
     (case stmt e (ret ()) s of
        (Inl x, s1) \<Rightarrow> (Inl x, s1)
      | (Inr _, s1) \<Rightarrow>
          (case body s1 of
             (Inl x, s2) \<Rightarrow> (Inl x, s2\<lparr>s_db := s_db s1\<rparr>)
           | (Inr v, s2) \<Rightarrow>
               (case stmt e (ret ()) s2 of
                  (Inl x, s3) \<Rightarrow> (Inl x, s3\<lparr>s_db := s_db s1\<rparr>)
                | (Inr _, s3) \<Rightarrow> (Inr v, s3))))"

definition is_sqlite :: "'d engine \<Rightarrow> bool" where
  "is_sqlite e = (case e_kind e of Sqlite _ \<Rightarrow> True | Postgres \<Rightarrow> False)"

section \<open>The tracking table\<close>

definition EXPECTED_COLUMNS :: "string list" where
  "EXPECTED_COLUMNS = [''id'', ''name'', ''checksum'', ''applied_at'', ''duration_ms'', ''applied_by'']"

definition check_columns :: "string list \<Rightarrow> merror + unit" where
  "check_columns found =
     (if filter (\<lambda>c. c \<notin> set found) EXPECTED_COLUMNS = [] then Inr () else Inl MigrationError)"

text \<open>
  \<open>_TABLE_NAME\<close> of the SQLite tracker, \<open>^[A-Za-z_][A-Za-z0-9_]*$\<close>, where \<open>$\<close> also matches before a
  final newline. The Postgres tracker quotes whatever name it is given.
\<close>

definition sqlite_table_name :: "string \<Rightarrow> bool" where
  "sqlite_table_name t =
     (case chop_final_newline t of
        [] \<Rightarrow> False
      | c # cs \<Rightarrow> (is_alpha c \<or> c = CHR ''_'') \<and> list_all (\<lambda>x. is_alpha x \<or> is_digit x \<or> x = CHR ''_'') cs)"

definition make_tracker :: "'d engine \<Rightarrow> string \<Rightarrow> ('d, unit) act" where
  "make_tracker e table =
     (if is_sqlite e \<and> \<not> sqlite_table_name table then raise MigrationError else ret ())"

definition create_table :: "string \<Rightarrow> 'd mdb \<Rightarrow> (merror + unit) \<times> 'd mdb" where
  "create_table table d =
     (Inr (), case d_tables d table of
        Absent \<Rightarrow> d\<lparr>d_tables := (d_tables d)(table := Table EXPECTED_COLUMNS [])\<rparr>
      | Table _ _ \<Rightarrow> d)"

definition found_columns :: "string \<Rightarrow> 'd mdb \<Rightarrow> string list" where
  "found_columns table d = (case d_tables d table of Absent \<Rightarrow> [] | Table cs _ \<Rightarrow> cs)"

definition ensure_table :: "'d engine \<Rightarrow> string \<Rightarrow> ('d, unit) act" where
  "ensure_table e table =
     bind_act (stmt e (on_db (create_table table))) (\<lambda>_.
       stmt e (on_db (\<lambda>d. (check_columns (found_columns table d), d))))"

definition usable :: "mtable \<Rightarrow> bool" where
  "usable t = (case t of Absent \<Rightarrow> False | Table cs _ \<Rightarrow> set EXPECTED_COLUMNS \<subseteq> set cs)"

definition missing_relation :: merror where
  "missing_relation = DatabaseError ''undefined table or column''"

definition unique_violation :: merror where
  "unique_violation = DatabaseError ''unique violation''"

definition applied_rows :: "'d engine \<Rightarrow> string \<Rightarrow> ('d, applied_row list) act" where
  "applied_rows e table =
     stmt e (on_db (\<lambda>d.
       (if usable (d_tables d table)
        then Inr (map (\<lambda>r. \<lparr>p_name = t_name r, p_checksum = t_checksum r, p_applied_at = t_applied_at r\<rparr>)
               (sort_key t_name (rows_of (d_tables d table))))
        else Inl missing_relation, d)))"

definition insert_row :: "string \<Rightarrow> track_row \<Rightarrow> 'd mdb \<Rightarrow> (merror + unit) \<times> 'd mdb" where
  "insert_row table r d =
     (case d_tables d table of
        Absent \<Rightarrow> (Inl missing_relation, d)
      | Table cs rows \<Rightarrow>
          if \<not> usable (Table cs rows) then (Inl missing_relation, d)
          else if t_name r \<in> t_name ` set rows then (Inl unique_violation, d)
          else (Inr (), d\<lparr>d_tables := (d_tables d)(table := Table cs (rows @ [r]))\<rparr>))"

text \<open>The database stamps \<open>applied_at\<close> itself, from its own clock.\<close>

definition record_row :: "'d engine \<Rightarrow> string \<Rightarrow> string \<Rightarrow> string \<Rightarrow> int \<Rightarrow> string \<Rightarrow> ('d, unit) act" where
  "record_row e table name checksum duration by =
     stmt e (\<lambda>s. on_db (insert_row table
       \<lparr>t_name = name, t_checksum = checksum, t_applied_at = e_clock e (s_step s),
        t_duration_ms = duration, t_applied_by = by\<rparr>) s)"

definition update_checksum :: "'d engine \<Rightarrow> string \<Rightarrow> string \<Rightarrow> string \<Rightarrow> ('d, bool) act" where
  "update_checksum e table name checksum =
     stmt e (on_db (\<lambda>d.
       case d_tables d table of
         Absent \<Rightarrow> (Inl missing_relation, d)
       | Table cs rows \<Rightarrow>
           if \<not> usable (Table cs rows) then (Inl missing_relation, d)
           else (Inr (length (filter (\<lambda>r. t_name r = name) rows) = 1),
                 d\<lparr>d_tables := (d_tables d)(table := Table cs
                   (map (\<lambda>r. if t_name r = name then r\<lparr>t_checksum := checksum\<rparr> else r) rows))\<rparr>)))"

section \<open>The lock\<close>

text \<open>
  The lock that serialises the runs. On Postgres it is a session-level advisory lock, taken and
  released by a statement; on SQLite a lock on a file beside the database, or none at all when
  the database is in memory.
\<close>

definition unlock :: "'d engine \<Rightarrow> ('d, unit) act" where
  "unlock e = stmt e (\<lambda>s. (Inr (), s\<lparr>s_locked := False\<rparr>))"

definition lock :: "'d engine \<Rightarrow> ('d, 'a) act \<Rightarrow> ('d, 'a) act" where
  "lock e body =
     (case e_kind e of
        Postgres \<Rightarrow>
          bind_act (stmt e (\<lambda>s. (Inr (), s\<lparr>s_locked := True\<rparr>))) (\<lambda>_ s.
            case body s of
              (Inl x, s1) \<Rightarrow> (Inl x, snd (unlock e s1))
            | (Inr v, s1) \<Rightarrow> (case unlock e s1 of (Inl x, s2) \<Rightarrow> (Inl x, s2) | (Inr _, s2) \<Rightarrow> (Inr v, s2)))
      | Sqlite path \<Rightarrow>
          if path = [] \<or> path = '':memory:'' then body
          else (\<lambda>s. let (r, s1) = body (s\<lparr>s_locked := True\<rparr>) in (r, s1\<lparr>s_locked := False\<rparr>)))"

section \<open>Running SQL\<close>

definition exec_one :: "'d engine \<Rightarrow> codes \<Rightarrow> ('d, unit) act" where
  "exec_one e sql = stmt e (\<lambda>s.
     let (r, d) = e_exec e (s_fk s) sql (s_db s)
     in ((case r of Some x \<Rightarrow> Inl x | None \<Rightarrow> Inr ()), s\<lparr>s_db := d\<rparr>))"

fun exec_each :: "'d engine \<Rightarrow> codes list \<Rightarrow> ('d, unit) act" where
  "exec_each e [] = ret ()"
| "exec_each e (q # qs) = bind_act (exec_one e q) (\<lambda>_. exec_each e qs)"

definition execute :: "'d engine \<Rightarrow> codes \<Rightarrow> ('d, unit) act" where
  "execute e sql =
     (if is_sqlite e then exec_each e (split_statements (e_complete e) sql) else exec_one e sql)"

definition foreign_keys_off :: "'d engine \<Rightarrow> bool \<Rightarrow> ('d, 'a) act \<Rightarrow> ('d, 'a) act" where
  "foreign_keys_off e enabled body =
     (if \<not> enabled \<or> \<not> is_sqlite e then body
      else bind_act (stmt e (\<lambda>s. (Inr (), s\<lparr>s_fk := False\<rparr>))) (\<lambda>_.
        try_finally body (stmt e (\<lambda>s. (Inr (), s\<lparr>s_fk := True\<rparr>)))))"

definition check_foreign_keys :: "'d engine \<Rightarrow> ('d, unit) act" where
  "check_foreign_keys e =
     (if \<not> is_sqlite e then ret ()
      else stmt e (on_db (\<lambda>d. (if e_fk_violations e d = 0 then Inr () else Inl MigrationError, d))))"

section \<open>Weakest preconditions\<close>

text \<open>What an action ends with, exception or value, and in which session.\<close>

definition wp :: "('d, 'a) act \<Rightarrow> (merror + 'a \<Rightarrow> 'd sess \<Rightarrow> bool) \<Rightarrow> 'd sess \<Rightarrow> bool" where
  "wp m Q s = (case m s of (r, s1) \<Rightarrow> Q r s1)"

named_theorems wp_rules \<open>weakest preconditions of the actions\<close>

lemma wp_I: "(\<And>r s1. m s = (r, s1) \<Longrightarrow> Q r s1) \<Longrightarrow> wp m Q s"
  by (cases "m s") (simp add: wp_def)

lemma wp_D: "wp m Q s \<Longrightarrow> m s = (r, s1) \<Longrightarrow> Q r s1"
  by (simp add: wp_def)

lemma wp_mono: "wp m Q s \<Longrightarrow> (\<And>r s1. Q r s1 \<Longrightarrow> Q' r s1) \<Longrightarrow> wp m Q' s"
  by (auto simp: wp_def split: prod.splits)

lemma wp_conj: "wp m Q s \<Longrightarrow> wp m Q' s \<Longrightarrow> wp m (\<lambda>r s1. Q r s1 \<and> Q' r s1) s"
  by (auto simp: wp_def split: prod.splits)

lemma wp_basic [wp_rules]:
  "wp (ret x) Q s = Q (Inr x) s"
  "wp (raise x') Q s = Q (Inl x') s"
  "wp (out l) Q' s = Q' (Inr ()) (s\<lparr>s_out := s_out s @ [l]\<rparr>)"
  "wp (say l c) Q'' s = Q'' (Inr c) (s\<lparr>s_out := s_out s @ [l]\<rparr>)"
  "wp (monotonic e) Q'' s = Q'' (Inr (e_clock e (s_step s))) (s\<lparr>s_step := Suc (s_step s)\<rparr>)"
  by (auto simp: wp_def ret_def raise_def out_def say_def bind_act_def monotonic_def)

lemma wp_bind [wp_rules]:
  "wp (bind_act m k) Q s = wp m (\<lambda>r s1. case r of Inl x \<Rightarrow> Q (Inl x) s1 | Inr v \<Rightarrow> wp (k v) Q s1) s"
  by (auto simp: wp_def bind_act_def split: prod.splits sum.splits)

lemma wp_outs [wp_rules]: "wp (outs ls) Q s = Q (Inr ()) (s\<lparr>s_out := s_out s @ ls\<rparr>)"
  by (induction ls arbitrary: s) (simp_all add: wp_rules)

lemma wp_finally [wp_rules]:
  "wp (try_finally m f) Q s = wp m (\<lambda>r s1. wp f (\<lambda>r' s2. Q (case r' of Inl x \<Rightarrow> Inl x | Inr _ \<Rightarrow> r) s2) s1) s"
  by (auto simp: wp_def try_finally_def split: prod.splits sum.splits)

lemma wp_stmt [wp_rules]:
  "wp (stmt e f) Q s =
     (if e_fault e (s_step s) then Q (Inl connection_lost) (s\<lparr>s_step := Suc (s_step s)\<rparr>)
      else wp f Q (s\<lparr>s_step := Suc (s_step s)\<rparr>))"
  by (simp add: wp_def stmt_def Let_def)

lemma wp_on_db [wp_rules]: "wp (on_db f) Q s = (case f (s_db s) of (r, d) \<Rightarrow> Q r (s\<lparr>s_db := d\<rparr>))"
  by (auto simp: wp_def on_db_def Let_def split: prod.splits)

text \<open>An action given as an explicit function of the session.\<close>

lemma wp_fun [wp_rules]: "wp (\<lambda>s. (g s, h s)) Q s = Q (g s) (h s)"
  by (simp add: wp_def)

lemma wp_transaction [wp_rules]:
  "wp (transaction e body) Q s =
     wp (stmt e (ret ())) (\<lambda>r s1. case r of
         Inl x \<Rightarrow> Q (Inl x) s1
       | Inr _ \<Rightarrow> wp body (\<lambda>r2 s2. case r2 of
             Inl x \<Rightarrow> Q (Inl x) (s2\<lparr>s_db := s_db s1\<rparr>)
           | Inr v \<Rightarrow> wp (stmt e (ret ())) (\<lambda>r3 s3. case r3 of
                 Inl x \<Rightarrow> Q (Inl x) (s3\<lparr>s_db := s_db s1\<rparr>)
               | Inr _ \<Rightarrow> Q (Inr v) s3) s2) s1) s"
  by (auto simp: wp_def transaction_def split: prod.splits sum.splits)

lemma wp_lock [wp_rules]:
  "wp (lock e body) Q s =
     (case e_kind e of
        Postgres \<Rightarrow>
          wp (stmt e (\<lambda>s. (Inr (), s\<lparr>s_locked := True\<rparr>))) (\<lambda>r s1. case r of
              Inl x \<Rightarrow> Q (Inl x) s1
            | Inr _ \<Rightarrow> wp body (\<lambda>r s2. wp (unlock e) (\<lambda>r' s3. Q (case r of Inl x \<Rightarrow> Inl x
                  | Inr v \<Rightarrow> (case r' of Inl y \<Rightarrow> Inl y | Inr _ \<Rightarrow> Inr v)) s3) s2) s1) s
      | Sqlite path \<Rightarrow>
          if path = [] \<or> path = '':memory:'' then wp body Q s
          else wp body (\<lambda>r s1. Q r (s1\<lparr>s_locked := False\<rparr>)) (s\<lparr>s_locked := True\<rparr>))"
  by (auto simp: wp_def lock_def bind_act_def Let_def split: prod.splits sum.splits kind.splits)

lemma wp_exec_one:
  "wp (exec_one e q) Q s =
     (if e_fault e (s_step s) then Q (Inl connection_lost) (s\<lparr>s_step := Suc (s_step s)\<rparr>)
      else case e_exec e (s_fk s) q (s_db s) of (r, d) \<Rightarrow>
        Q (case r of Some x \<Rightarrow> Inl x | None \<Rightarrow> Inr ()) (s\<lparr>s_step := Suc (s_step s), s_db := d\<rparr>))"
  by (simp add: wp_def exec_one_def stmt_def Let_def split: prod.splits option.splits)

lemma wp_record_eq:
  "wp (record_row e table name cs ms who) Q s =
     (if e_fault e (s_step s) then Q (Inl connection_lost) (s\<lparr>s_step := Suc (s_step s)\<rparr>)
      else case insert_row table \<lparr>t_name = name, t_checksum = cs, t_applied_at = e_clock e (Suc (s_step s)),
        t_duration_ms = ms, t_applied_by = who\<rparr> (s_db s) of (r, d) \<Rightarrow>
        Q r (s\<lparr>s_step := Suc (s_step s), s_db := d\<rparr>))"
  by (simp add: wp_def record_row_def stmt_def on_db_def Let_def split: prod.splits)

text \<open>Going on from the exception or the value of an action.\<close>

lemma wp_case [wp_rules]:
  "wp (\<lambda>s. case m s of (Inl x, s1) \<Rightarrow> f x s1 | (Inr v, s1) \<Rightarrow> g v s1) Q s =
     wp m (\<lambda>r s1. case r of Inl x \<Rightarrow> wp (f x) Q s1 | Inr v \<Rightarrow> wp (g v) Q s1) s"
  by (auto simp: wp_def split: prod.splits sum.splits)

text \<open>What every step of an action keeps: a reflexive and transitive relation between sessions.\<close>

definition keeps :: "('d sess \<Rightarrow> 'd sess \<Rightarrow> bool) \<Rightarrow> ('d, 'a) act \<Rightarrow> bool" where
  "keeps R m \<longleftrightarrow> (\<forall>s. wp m (\<lambda>_ s1. R s s1) s)"

lemma keepsI: "(\<And>s. wp m (\<lambda>_ s1. R s s1) s) \<Longrightarrow> keeps R m"
  by (simp add: keeps_def)

lemma keepsD: "keeps R m \<Longrightarrow> wp m (\<lambda>_ s1. R s s1) s"
  by (simp add: keeps_def)

lemma keeps_snd: "keeps R m \<longleftrightarrow> (\<forall>s. R s (snd (m s)))"
  by (simp add: keeps_def wp_def case_prod_beta)

text \<open>
  The interface: an order of sessions in which the clock, the output, and going back to an
  earlier database are steps.
\<close>

locale session_order =
  fixes R :: "'d sess \<Rightarrow> 'd sess \<Rightarrow> bool"
  assumes refl_R: "R s s"
    and trans_R: "R a b \<Longrightarrow> R b c \<Longrightarrow> R a c"
    and step_R: "R s (s\<lparr>s_step := Suc (s_step s)\<rparr>)"
    and out_R: "R s (s\<lparr>s_out := ls\<rparr>)"
    and back_R: "R a b \<Longrightarrow> R a (b\<lparr>s_db := s_db a\<rparr>)"
begin

lemma keeps_ret: "keeps R (ret x)"
  by (simp add: keeps_def wp_rules refl_R)

lemma keeps_raise: "keeps R (raise x)"
  by (simp add: keeps_def wp_rules refl_R)

lemma keeps_out: "keeps R (out l)"
  by (simp add: keeps_def wp_rules out_R)

lemma keeps_outs: "keeps R (outs ls)"
  by (simp add: keeps_def wp_rules out_R)

lemma keeps_say: "keeps R (say l c)"
  by (simp add: keeps_def wp_rules out_R)

lemma keeps_monotonic: "keeps R (monotonic e)"
  by (simp add: keeps_def wp_rules step_R)

lemma keeps_bind:
  assumes "keeps R m" "\<And>v. keeps R (k v)"
  shows "keeps R (bind_act m k)"
proof (rule keepsI)
  fix s
  show "wp (bind_act m k) (\<lambda>_ s1. R s s1) s"
    unfolding wp_bind
    by (rule wp_mono [OF keepsD [OF assms(1)]])
      (auto split: sum.splits intro: trans_R wp_mono [OF keepsD [OF assms(2)]])
qed

lemma keeps_case:
  assumes "keeps R m" "\<And>x. keeps R (f x)" "\<And>v. keeps R (g v)"
  shows "keeps R (\<lambda>s. case m s of (Inl x, s1) \<Rightarrow> f x s1 | (Inr v, s1) \<Rightarrow> g v s1)"
proof (rule keepsI)
  fix s
  show "wp (\<lambda>s. case m s of (Inl x, s1) \<Rightarrow> f x s1 | (Inr v, s1) \<Rightarrow> g v s1) (\<lambda>_ s1. R s s1) s"
    unfolding wp_case
    by (rule wp_mono [OF keepsD [OF assms(1)]])
      (auto split: sum.splits intro: trans_R wp_mono [OF keepsD [OF assms(2)]] wp_mono [OF keepsD [OF assms(3)]])
qed

lemma keeps_if_raise: "keeps R m \<Longrightarrow> keeps R (\<lambda>s. if c then m s else (Inl x, s))"
  by (simp add: keeps_def wp_def refl_R)

lemma keeps_stmt: "keeps R f \<Longrightarrow> keeps R (stmt e f)"
  by (auto simp: keeps_def wp_rules step_R intro: wp_mono trans_R [OF step_R])

lemma keeps_transaction:
  assumes "keeps R body"
  shows "keeps R (transaction e body)"
proof (rule keepsI)
  fix s :: "'d sess"
  let ?s1 = "s\<lparr>s_step := Suc (s_step s)\<rparr>"
  have "wp body (\<lambda>r2 s2. case r2 of Inl x \<Rightarrow> R s (s2\<lparr>s_db := s_db ?s1\<rparr>)
      | Inr v \<Rightarrow> wp (stmt e (ret ())) (\<lambda>r3 s3. case r3 of Inl x \<Rightarrow> R s (s3\<lparr>s_db := s_db ?s1\<rparr>)
           | Inr _ \<Rightarrow> R s s3) s2) ?s1"
  proof (rule wp_mono [OF keepsD [OF assms]])
    fix r2 s2
    assume "R ?s1 s2"
    then have k: "R s s2" by (rule trans_R [OF step_R])
    note b = back_R [OF k] and n = trans_R [OF k step_R]
    show "case r2 of Inl x \<Rightarrow> R s (s2\<lparr>s_db := s_db ?s1\<rparr>)
      | Inr v \<Rightarrow> wp (stmt e (ret ())) (\<lambda>r3 s3. case r3 of Inl x \<Rightarrow> R s (s3\<lparr>s_db := s_db ?s1\<rparr>)
           | Inr _ \<Rightarrow> R s s3) s2"
      using b n back_R [OF n] by (auto simp: wp_rules split: sum.splits)
  qed
  then show "wp (transaction e body) (\<lambda>_ s1. R s s1) s" by (simp add: wp_rules step_R)
qed

end

context session_order
begin

lemma keeps_read: "(\<And>d. snd (f d) = d) \<Longrightarrow> keeps R (on_db f)"
proof (rule keepsI)
  fix s :: "'d sess"
  assume "\<And>d. snd (f d) = d"
  then have "snd (f (s_db s)) = s_db s" .
  then show "wp (on_db f) (\<lambda>_ s1. R s s1) s"
    by (auto simp: wp_rules refl_R split: prod.splits)
qed

lemma keeps_make_tracker: "keeps R (make_tracker e table)"
  by (simp add: make_tracker_def keeps_raise keeps_ret)

lemma keeps_applied_rows: "keeps R (applied_rows e table)"
  unfolding applied_rows_def by (intro keeps_stmt keeps_read) simp

lemma keeps_check_foreign_keys: "keeps R (check_foreign_keys e)"
  unfolding check_foreign_keys_def by (auto intro!: keeps_ret keeps_stmt keeps_read)

end

text \<open>An order that looks at the database only also takes the lock for a step.\<close>

locale database_order = session_order R for R :: "'d sess \<Rightarrow> 'd sess \<Rightarrow> bool" +
  assumes db_R: "s_db b = s_db a \<Longrightarrow> R a b"
begin

lemma keeps_lock:
  assumes "keeps R body"
  shows "keeps R (lock e body)"
proof (rule keepsI)
  fix s :: "'d sess"
  have b: "wp body (\<lambda>_ s1. R s s1) s1" if "s_db s1 = s_db s" for s1
    by (rule wp_mono [OF keepsD [OF assms]]) (rule trans_R [OF db_R [OF that]])
  have u: "wp (unlock e) (\<lambda>_ s2. R s s2) s1" if "R s s1" for s1
    using that by (auto simp: unlock_def wp_rules intro: trans_R [OF that db_R])
  have l: "R s (s1\<lparr>s_locked := l\<rparr>)" if "R s s1" for s1 l
    using that by (rule trans_R) (simp add: db_R)
  show "wp (lock e body) (\<lambda>_ s1. R s s1) s"
    by (cases "e_kind e") (auto simp: wp_rules intro!: db_R b u wp_mono [OF b] l)
qed

end

section \<open>Two orders\<close>

text \<open>Everything outside one table stays as it is.\<close>

definition apart :: "string \<Rightarrow> 'd sess \<Rightarrow> 'd sess \<Rightarrow> bool" where
  "apart table s s1 \<longleftrightarrow> d_data (s_db s1) = d_data (s_db s)
     \<and> (\<forall>t. t \<noteq> table \<longrightarrow> d_tables (s_db s1) t = d_tables (s_db s) t)"

interpretation apart: database_order "apart table"
  by unfold_locales (auto simp: apart_def)

text \<open>The database stays as it is once the tracking table is there.\<close>

definition still :: "string \<Rightarrow> 'd sess \<Rightarrow> 'd sess \<Rightarrow> bool" where
  "still table s s1 \<longleftrightarrow> (d_tables (s_db s) table \<noteq> Absent \<longrightarrow> s_db s1 = s_db s)"

interpretation still: database_order "still table"
  by unfold_locales (auto simp: still_def)

lemma ensure_table_apart: "keeps (apart table) (ensure_table e table)"
  unfolding ensure_table_def
  by (intro apart.keeps_bind [OF apart.keeps_stmt apart.keeps_stmt [OF apart.keeps_read]])
    (auto intro!: keepsI simp: wp_rules create_table_def apart_def split: mtable.splits)

lemma ensure_table_still: "keeps (still table) (ensure_table e table)"
  unfolding ensure_table_def
  by (intro still.keeps_bind [OF still.keeps_stmt still.keeps_stmt [OF still.keeps_read]])
    (auto intro!: keepsI simp: wp_rules create_table_def still_def split: mtable.splits)

lemma record_row_apart: "keeps (apart table) (record_row e table name checksum duration by')"
  unfolding record_row_def
  by (intro apart.keeps_stmt keepsI)
    (auto simp: wp_def on_db_def insert_row_def apart_def Let_def split: mtable.splits)

lemma update_checksum_apart: "keeps (apart table) (update_checksum e table name checksum)"
  unfolding update_checksum_def
  by (intro apart.keeps_stmt keepsI)
    (auto simp: wp_rules apart_def Let_def split: mtable.splits)

end
