(* ===== verification/Mig_Commands.thy ===== *)
theory Mig_Commands
  imports Mig_Db
begin

text \<open>
  The commands of \<open>migrations/commands.py\<close>: status, apply, baseline, new and repair, each as an
  action that returns the exit code. The operator's answers to \<open>baseline\<close> are a function of the
  migration that is asked about.
\<close>

section \<open>Quoting\<close>

definition plain_identifier :: "string \<Rightarrow> bool" where
  "plain_identifier t =
     (case chop_final_newline t of
        [] \<Rightarrow> False
      | c # cs \<Rightarrow> (is_lower c \<or> c = CHR ''_'') \<and> list_all (\<lambda>x. is_lower x \<or> is_digit x \<or> x = CHR ''_'') cs)"

definition double :: "char \<Rightarrow> string \<Rightarrow> string" where
  "double q s = concat (map (\<lambda>c. if c = q then [q, q] else [c]) s)"

definition sql_literal :: "string \<Rightarrow> string" where
  "sql_literal v = [CHR 0x27] @ double (CHR 0x27) v @ [CHR 0x27]"

definition sql_identifier :: "string \<Rightarrow> string" where
  "sql_identifier n = (if plain_identifier n then n else [CHR 0x22] @ double (CHR 0x22) n @ [CHR 0x22])"

section \<open>Status\<close>

definition load_states :: "'d engine \<Rightarrow> directory \<Rightarrow> string \<Rightarrow> ('d, migration_state list) act" where
  "load_states e dir table =
     bind_act (make_tracker e table) (\<lambda>_.
     bind_act (ensure_table e table) (\<lambda>_.
       (case discover (e_sha256 e) dir of
          Inl x \<Rightarrow> raise x
        | Inr files \<Rightarrow> bind_act (applied_rows e table) (\<lambda>rows. ret (compute_states files rows)))))"

definition blocking_lines :: "migration_state list \<Rightarrow> string \<Rightarrow> mline list" where
  "blocking_lines states table =
     (let blocked = blocking states
      in map (\<lambda>s. BlockedLine (m_state s) (m_name s)) blocked @ [BlankLine]
         @ (if list_ex (\<lambda>s. m_state s = DRIFT) blocked then [DriftAdvice] else [])
         @ map (\<lambda>s. MissingAdvice (m_name s)
                (''DELETE FROM '' @ sql_identifier table @ '' WHERE name = '' @ sql_literal (m_name s) @ '';''))
             (filter (\<lambda>s. m_state s = MISSING) blocked))"

text \<open>\<open>try: states = ... except MigrationError as e: out(...); return 1\<close>, then the rest.\<close>

definition with_states ::
  "'d engine \<Rightarrow> directory \<Rightarrow> string \<Rightarrow> (migration_state list \<Rightarrow> ('d, int) act) \<Rightarrow> ('d, int) act" where
  "with_states e dir table k s =
     (case load_states e dir table s of
        (Inl x, s1) \<Rightarrow> if x = MigrationError then say (ErrorLine x) 1 s1 else (Inl x, s1)
      | (Inr states, s1) \<Rightarrow> k states s1)"

definition cmd_status :: "'d engine \<Rightarrow> directory \<Rightarrow> string \<Rightarrow> bool \<Rightarrow> ('d, int) act" where
  "cmd_status e dir table check =
     with_states e dir table (\<lambda>states.
       if states = [] then say NoneFound 0
       else
         (let blocked = blocking states; waiting = pending_states states
          in bind_act (outs (map (\<lambda>s. StateLine (m_state s) (m_name s) (map_option p_applied_at (m_row s))) states))
               (\<lambda>_. bind_act (outs [BlankLine, Summary (length states - length waiting - length blocked)
                                     (length waiting) (length blocked)])
               (\<lambda>_. ret (if check \<and> (waiting \<noteq> [] \<or> blocked \<noteq> []) then 1 else 0)))))"

section \<open>Apply\<close>

definition known_prefixes :: "migration_state list \<Rightarrow> string list" where
  "known_prefixes states = map g_prefix (List.map_filter m_file states)"

definition up_to :: "string \<Rightarrow> migration_state list \<Rightarrow> migration_state list" where
  "up_to t = filter (\<lambda>s. case m_file s of None \<Rightarrow> False | Some f \<Rightarrow> g_prefix f \<le> t)"

text \<open>The refusals that stand before anything runs: the first file that fails one ends the command.\<close>

fun refusal :: "'d engine \<Rightarrow> migration_state list \<Rightarrow> (merror + mline) option" where
  "refusal e [] = None"
| "refusal e (s # ss) =
     (case m_file s of
        None \<Rightarrow> Some (Inl AssertionError)
      | Some f \<Rightarrow>
          if find_meta_commands (g_sql f) \<noteq> [] then Some (Inr (MetaCommands (m_name s) (find_meta_commands (g_sql f))))
          else if g_no_transaction f \<and> 1 < count_statements (g_sql f) then Some (Inr (ManyStatements (m_name s)))
          else if g_foreign_keys_off f \<and> \<not> is_sqlite e then Some (Inr (SqliteOnly (m_name s)))
          else refusal e ss)"

text \<open>One file: the body of the \<open>try\<close> in the loop of \<open>cmd_apply\<close>. It returns the duration.\<close>

definition elapsed :: "'d engine \<Rightarrow> int \<Rightarrow> ('d, int) act" where
  "elapsed e started = bind_act (monotonic e) (\<lambda>now. ret (now - started))"

definition run_file :: "'d engine \<Rightarrow> string \<Rightarrow> string \<Rightarrow> string \<Rightarrow> mig_file \<Rightarrow> ('d, int) act" where
  "run_file e table by name f =
     bind_act (monotonic e) (\<lambda>started.
       if g_no_transaction f then
         bind_act (execute e (g_sql f)) (\<lambda>_.
         bind_act (elapsed e started) (\<lambda>ms.
         bind_act (record_row e table name (g_checksum f) ms by) (\<lambda>_. ret ms)))
       else
         foreign_keys_off e (g_foreign_keys_off f) (transaction e (
           bind_act (execute e (g_sql f)) (\<lambda>_.
           bind_act (if g_foreign_keys_off f then check_foreign_keys e else ret ()) (\<lambda>_.
           bind_act (elapsed e started) (\<lambda>ms.
           bind_act (record_row e table name (g_checksum f) ms by) (\<lambda>_. ret ms)))))))"

text \<open>The loop: \<open>Inr True\<close> when it ran to its end, \<open>Inr False\<close> when a file failed.\<close>

fun apply_loop :: "'d engine \<Rightarrow> string \<Rightarrow> bool \<Rightarrow> string \<Rightarrow> migration_state list \<Rightarrow> ('d, bool) act" where
  "apply_loop e table dry by [] = ret True"
| "apply_loop e table dry by (st # sts) =
     (case m_file st of
        None \<Rightarrow> raise AssertionError
      | Some f \<Rightarrow>
          if dry then bind_act (out (WouldApply (m_name st))) (\<lambda>_. apply_loop e table dry by sts)
          else (\<lambda>s. case run_file e table by (m_name st) f s of
                 (Inl x, s1) \<Rightarrow> bind_act (out (FailedFile (m_name st) x (g_no_transaction f))) (\<lambda>_. ret False) s1
               | (Inr ms, s1) \<Rightarrow>
                   bind_act (out (AppliedFile (m_name st) ms)) (\<lambda>_. apply_loop e table dry by sts) s1))"

definition run_queue :: "'d engine \<Rightarrow> string \<Rightarrow> bool \<Rightarrow> string \<Rightarrow> migration_state list \<Rightarrow> ('d, int) act" where
  "run_queue e table dry by queue =
     (if queue = [] then say UpToDate 0
      else case refusal e queue of
             Some (Inl x) \<Rightarrow> raise x
           | Some (Inr l) \<Rightarrow> say l 1
           | None \<Rightarrow>
               bind_act (apply_loop e table dry by queue) (\<lambda>done_all.
                 if \<not> done_all then ret 1
                 else say (if dry then DryTotal (length queue) else AppliedTotal (length queue)) 0))"

definition cmd_apply ::
  "'d engine \<Rightarrow> directory \<Rightarrow> string \<Rightarrow> bool \<Rightarrow> string option \<Rightarrow> string \<Rightarrow> ('d, int) act" where
  "cmd_apply e dir table dry to_prefix by =
     (if \<not> e_autocommit e then say NotAutocommit 1
      else bind_act (make_tracker e table) (\<lambda>_. lock e (
        with_states e dir table (\<lambda>states.
          if blocking states \<noteq> [] then bind_act (outs (blocking_lines states table)) (\<lambda>_. ret 1)
          else (case to_prefix of
                  None \<Rightarrow> run_queue e table dry by (pending_states states)
                | Some t \<Rightarrow>
                    if t \<notin> set (known_prefixes states) then say (NoPrefix t) 1
                    else run_queue e table dry by (up_to t (pending_states states)))))))"

section \<open>Baseline\<close>

definition tidy_answer :: "string \<Rightarrow> string" where
  "tidy_answer a = lower (strip a)"

text \<open>The questions: \<open>None\<close> when the operator gives up.\<close>

fun choose_states :: "(string \<Rightarrow> string) \<Rightarrow> bool \<Rightarrow> migration_state list \<Rightarrow> migration_state list option" where
  "choose_states prompt stamp_rest [] = Some []"
| "choose_states prompt stamp_rest (st # sts) =
     (if stamp_rest then map_option ((#) st) (choose_states prompt True sts)
      else
        (let answer = tidy_answer (prompt (m_name st))
         in if answer = ''q'' then None
            else if answer = ''a'' then map_option ((#) st) (choose_states prompt True sts)
            else if answer = ''y'' then map_option ((#) st) (choose_states prompt False sts)
            else choose_states prompt False sts))"

fun record_all :: "'d engine \<Rightarrow> string \<Rightarrow> string \<Rightarrow> migration_state list \<Rightarrow> ('d, unit) act" where
  "record_all e table by [] = ret ()"
| "record_all e table by (st # sts) =
     (case m_file st of
        None \<Rightarrow> raise AssertionError
      | Some f \<Rightarrow> bind_act (record_row e table (m_name st) (g_checksum f) 0 by) (\<lambda>_. record_all e table by sts))"

definition stamp :: "'d engine \<Rightarrow> string \<Rightarrow> bool \<Rightarrow> string \<Rightarrow> (string \<Rightarrow> string) \<Rightarrow> migration_state list \<Rightarrow> ('d, int) act" where
  "stamp e table yes by prompt candidates =
     (if candidates = [] then say NothingToBaseline 0
      else case choose_states prompt yes candidates of
             None \<Rightarrow> say Aborted 1
           | Some chosen \<Rightarrow> (\<lambda>s.
               case transaction e (record_all e table by chosen) s of
                 (Inl x, s1) \<Rightarrow> say (WriteFailed x) 1 s1
               | (Inr _, s1) \<Rightarrow>
                   bind_act (out BlankLine) (\<lambda>_.
                     say (Stamped (length chosen) (length candidates - length chosen)) 0) s1))"

definition cmd_baseline ::
  "'d engine \<Rightarrow> directory \<Rightarrow> string \<Rightarrow> string option \<Rightarrow> bool \<Rightarrow> string \<Rightarrow> (string \<Rightarrow> string) \<Rightarrow> ('d, int) act" where
  "cmd_baseline e dir table to_prefix yes by prompt =
     (if \<not> e_autocommit e then say NotAutocommit 1
      else bind_act (make_tracker e table) (\<lambda>_. lock e (
        with_states e dir table (\<lambda>states.
          (case to_prefix of
             None \<Rightarrow> stamp e table yes by prompt (pending_states states)
           | Some t \<Rightarrow>
               if t \<notin> set (known_prefixes states) then say (NoPrefix t) 1
               else stamp e table yes by prompt (up_to t (pending_states states)))))))"

section \<open>New\<close>

definition new_line :: string where
  "new_line = [CHR 0x0A]"

text \<open>\<open>_NEW_FILE_TEMPLATE.format(name=name)\<close>; the comment lines after the name are fixed text.\<close>

definition template_rest :: string where
  "template_rest =
     ''--'' @ new_line
     @ ''-- Runs in a transaction. Add `-- migrations:no-transaction` as the very first line if this'' @ new_line
     @ ''-- file needs CREATE INDEX CONCURRENTLY or anything else Postgres refuses inside one.'' @ new_line
     @ ''--'' @ new_line
     @ ''-- A no-transaction file must contain exactly ONE statement. Postgres wraps a'' @ new_line
     @ ''-- multi-statement send in an implicit transaction, which would defeat the directive, so'' @ new_line
     @ ''-- `apply` refuses such a file. Split it into one file per statement.'' @ new_line"

definition new_file_content :: "string \<Rightarrow> bytes" where
  "new_file_content name = utf8 (to_text (''-- '' @ name @ new_line @ template_rest))"

definition cmd_new :: "directory \<Rightarrow> string \<Rightarrow> datetime \<Rightarrow> int \<times> mline \<times> directory" where
  "cmd_new dir name now =
     (case new_filename name now of
        Inl x \<Rightarrow> (1, ErrorLine x, dir)
      | Inr filename \<Rightarrow>
          (case dir of
             None \<Rightarrow> (1, NoDirectory, dir)
           | Some files \<Rightarrow>
               if filename \<in> fst ` set files then (1, FileExists filename, dir)
               else (0, Created filename, Some (files @ [(filename, new_file_content name)]))))"

section \<open>Repair\<close>

text \<open>\<open>pathlib.PurePath(name).name\<close>\<close>

definition path_name :: "string \<Rightarrow> string" where
  "path_name s =
     (let parts = filter (\<lambda>p. p \<noteq> [] \<and> p \<noteq> ''.'') (split_on (CHR ''/'') s)
      in if parts = [] then [] else last parts)"

definition cmd_repair :: "'d engine \<Rightarrow> directory \<Rightarrow> string \<Rightarrow> string \<Rightarrow> ('d, int) act" where
  "cmd_repair e dir table name =
     (if \<not> e_autocommit e then say NotAutocommit 1
      else if name \<noteq> path_name name then say (NotPlainName name) 1
      else case Option.bind dir (\<lambda>files. map_of files name) of
             None \<Rightarrow> say (NoSuchFile name) 1
           | Some raw \<Rightarrow>
               (case load_migration (e_sha256 e) name raw of
                  Inl x \<Rightarrow> say (ErrorLine x) 1
                | Inr f \<Rightarrow>
                    bind_act (make_tracker e table) (\<lambda>_ s.
                      case ensure_table e table s of
                        (Inl x, s1) \<Rightarrow> if x = MigrationError then say (ErrorLine x) 1 s1 else (Inl x, s1)
                      | (Inr _, s1) \<Rightarrow>
                          bind_act (update_checksum e table (g_name f) (g_checksum f)) (\<lambda>found.
                            if \<not> found then say (NoTrackingRow (g_name f)) 1
                            else say (Repaired (g_name f) (take 12 (g_checksum f))) 0) s1)))"

lemma wp_with_states_eq:
  "wp (with_states e dir table k) Q s =
     wp (load_states e dir table) (\<lambda>r s1. case r of
         Inl x \<Rightarrow> if x = MigrationError then wp (say (ErrorLine x) 1) Q s1 else Q (Inl x) s1
       | Inr states \<Rightarrow> wp (k states) Q s1) s"
  by (auto simp: wp_def with_states_def split: prod.splits sum.splits)

section \<open>An example\<close>

text \<open>A Postgres database that counts the statements it has run and rejects one of them.\<close>

definition demo_engine :: "nat engine" where
  "demo_engine = \<lparr>e_kind = Postgres, e_autocommit = True,
     e_exec = (\<lambda>fk q d. if q = [66] then (Some (DatabaseError ''syntax''), d)
        else (None, d\<lparr>d_data := Suc (d_data d)\<rparr>)),
     e_fk_violations = (\<lambda>d. 0), e_complete = (\<lambda>q. True), e_fault = (\<lambda>n. False), e_clock = int,
     e_sha256 = (\<lambda>b. ''x'')\<rparr>"

definition demo_db :: "nat mdb" where
  "demo_db = \<lparr>d_tables = (\<lambda>t. Table EXPECTED_COLUMNS []), d_data = 0\<rparr>"

definition demo_session :: "nat sess" where
  "demo_session = \<lparr>s_db = demo_db, s_fk = True, s_locked = False, s_step = 0, s_out = []\<rparr>"

definition demo_mig :: mig_file where
  "demo_mig = \<lparr>g_name = ''2026-03-09-070500-add-users.sql'', g_prefix = ''2026-03-09-070500'',
     g_sql = [65, 59], g_checksum = ''x'', g_no_transaction = False, g_foreign_keys_off = False\<rparr>"

definition demo_state :: migration_state where
  "demo_state = \<lparr>m_name = g_name demo_mig, m_state = PENDING, m_file = Some demo_mig, m_row = None\<rparr>"

lemma demo_discover: "discover (e_sha256 demo_engine) demo_dir = Inr [demo_mig]"
  by (simp add: demo_engine_def demo_dir_def discover_def demo_name load_migration_def demo_content
      Let_def NO_TRANSACTION_DIRECTIVE_def FOREIGN_KEYS_OFF_DIRECTIVE_def to_text_def ustrip_def
      strip_with_def uspace_def code_def demo_mig_def)

lemma demo_engine_simps:
  "e_kind demo_engine = Postgres" "e_autocommit demo_engine" "\<not> e_fault demo_engine n"
  "e_exec demo_engine fk q d =
     (if q = [66] then (Some (DatabaseError ''syntax''), d) else (None, d\<lparr>d_data := Suc (d_data d)\<rparr>))"
  "e_clock demo_engine n = int n" "\<not> is_sqlite demo_engine"
  by (simp_all add: demo_engine_def is_sqlite_def)

lemma demo_session_simps:
  "s_db demo_session = demo_db" "s_step demo_session = 0" "s_fk demo_session" "\<not> s_locked demo_session"
  "d_tables demo_db t = Table EXPECTED_COLUMNS []" "d_data demo_db = 0"
  by (simp_all add: demo_session_def demo_db_def)

lemma demo_states:
  "compute_states [demo_mig] [] = [demo_state]" "pending_states [demo_state] = [demo_state]"
  "blocking [demo_state] = []" "refusal demo_engine [demo_state] = None"
  by (simp_all add: compute_states_def last_of_def classify_def demo_state_def pending_states_def
      blocking_def demo_mig_def find_meta_commands_def is_meta_line_def uspace_def enumerate_eq_zip)

lemma demo_load:
  "s_db s = demo_db \<Longrightarrow> wp (load_states demo_engine demo_dir table) Q s =
     Q (Inr [demo_state]) (s\<lparr>s_step := Suc (Suc (Suc (s_step s))), s_db := demo_db\<rparr>)"
  by (simp add: wp_rules demo_engine_simps load_states_def demo_discover ensure_table_def create_table_def
      found_columns_def check_columns_def applied_rows_def usable_def demo_states make_tracker_def
      demo_session_simps)

lemma demo_apply:
  "wp (cmd_apply demo_engine demo_dir ''migrations'' False None ''me'')
     (\<lambda>r s1. r = Inr 0 \<and> d_data (s_db s1) = 1) demo_session"
  by (simp add: cmd_apply_def demo_engine_simps make_tracker_def wp_rules wp_with_states_eq
      demo_session_simps demo_load demo_states run_queue_def unlock_def del: refusal.simps)
    (simp add: wp_rules demo_engine_simps run_file_def foreign_keys_off_def execute_def wp_exec_one
      elapsed_def wp_record_eq insert_row_def demo_state_def demo_mig_def usable_def demo_session_simps)

lemma demo_applied_ok: "fst (cmd_apply demo_engine demo_dir ''migrations'' False None ''me'' demo_session) = Inr 0"
  using demo_apply by (simp add: wp_def case_prod_beta)

section \<open>Frames\<close>

context session_order
begin

lemma keeps_load_states: "keeps R (ensure_table e table) \<Longrightarrow> keeps R (load_states e dir table)"
  unfolding load_states_def
  by (intro keeps_bind) (auto split: sum.split intro!: keeps_bind keeps_make_tracker keeps_raise keeps_ret keeps_applied_rows)

lemma keeps_with_states:
  assumes "keeps R (ensure_table e table)" "\<And>states. keeps R (k states)"
  shows "keeps R (with_states e dir table k)"
  unfolding with_states_def
  by (rule keeps_case [OF keeps_load_states [OF assms(1)] keeps_if_raise [OF keeps_say] assms(2)])

lemma keeps_status: "keeps R (ensure_table e table) \<Longrightarrow> keeps R (cmd_status e dir table check)"
  unfolding cmd_status_def
  by (intro keeps_with_states)
    (auto simp: Let_def simp del: outs.simps intro!: keeps_bind keeps_outs keeps_ret keeps_say)

lemma keeps_dry_loop: "keeps R (apply_loop e table True by' q)"
  by (induction q) (auto split: option.split intro!: keeps_ret keeps_raise keeps_bind keeps_out)

lemma keeps_dry_queue: "keeps R (run_queue e table True by' q)"
  unfolding run_queue_def
  by (auto split: option.split sum.split intro!: keeps_say keeps_raise keeps_bind keeps_dry_loop keeps_ret)

end

context database_order
begin

lemma keeps_dry_apply:
  assumes "keeps R (ensure_table e table)"
  shows "keeps R (cmd_apply e dir table True to_prefix by')"
  unfolding cmd_apply_def
  by (auto split: option.split simp del: outs.simps
      intro!: keeps_say keeps_bind keeps_make_tracker keeps_lock keeps_with_states assms keeps_dry_queue keeps_outs keeps_ret)

lemma keeps_baseline:
  assumes e: "keeps R (ensure_table e table)"
    and r: "\<And>name sum. keeps R (record_row e table name sum 0 by')"
  shows "keeps R (cmd_baseline e dir table to_prefix yes by' prompt)"
proof -
  have all: "keeps R (record_all e table by' sts)" for sts
    by (induction sts) (auto split: option.split intro!: keeps_ret keeps_raise keeps_bind r)
  have st: "keeps R (stamp e table yes by' prompt cs)" for cs
    unfolding stamp_def
    by (auto split: option.split intro!: keeps_say keeps_case keeps_transaction all keeps_bind keeps_out)
  show ?thesis
    unfolding cmd_baseline_def
    by (auto split: option.split
        intro!: keeps_say keeps_bind keeps_make_tracker keeps_lock keeps_with_states e st)
qed

end

lemma repair_apart: "keeps (apart table) (cmd_repair e dir table name)"
  unfolding cmd_repair_def
  by (auto split: option.split sum.split intro!: apart.keeps_say apart.keeps_bind apart.keeps_make_tracker
      apart.keeps_case ensure_table_apart apart.keeps_if_raise update_checksum_apart)

text \<open>
  Only \<open>apply\<close> without \<open>--dry-run\<close> touches anything besides the tracking table: status, a dry
  run, baseline and repair leave the data and every other table of the database as they were,
  whichever statement fails on the way; and once the tracking table exists, status and a dry run
  leave the whole database as it was.
\<close>

theorem only_apply_touches_data:
  "apart table s (snd (cmd_status e dir table check s))
   \<and> apart table s (snd (cmd_apply e dir table True to_prefix who s))
   \<and> apart table s (snd (cmd_baseline e dir table to_prefix yes who prompt s))
   \<and> apart table s (snd (cmd_repair e dir table name s))
   \<and> (d_tables (s_db s) table \<noteq> Absent \<longrightarrow>
        s_db (snd (cmd_status e dir table check s)) = s_db s
        \<and> s_db (snd (cmd_apply e dir table True to_prefix who s)) = s_db s)"
proof -
  note a = ensure_table_apart [of table e] and t = ensure_table_still [of table e]
  have "keeps (apart table) (cmd_status e dir table check)" by (rule apart.keeps_status [OF a])
  moreover have "keeps (apart table) (cmd_apply e dir table True to_prefix who)"
    by (rule apart.keeps_dry_apply [OF a])
  moreover have "keeps (apart table) (cmd_baseline e dir table to_prefix yes who prompt)"
    by (rule apart.keeps_baseline [OF a record_row_apart])
  moreover note repair_apart [of table e dir name]
  moreover have "keeps (still table) (cmd_status e dir table check)" by (rule still.keeps_status [OF t])
  moreover have "keeps (still table) (cmd_apply e dir table True to_prefix who)"
    by (rule still.keeps_dry_apply [OF t])
  ultimately show ?thesis by (simp add: keeps_snd still_def)
qed

theorem only_apply_touches_data_witness:
  "s_db (snd (cmd_status demo_engine demo_dir ''migrations'' True demo_session)) = demo_db
   \<and> s_db (snd (cmd_apply demo_engine demo_dir ''migrations'' True None ''me'' demo_session)) = demo_db
   \<and> apart ''migrations'' demo_session (snd (cmd_baseline demo_engine demo_dir ''migrations'' None True ''me'' id demo_session))"
  using only_apply_touches_data [of "''migrations''" demo_session demo_engine demo_dir True None "''me''" True id "[]"]
  by (simp add: demo_session_simps)

section \<open>The lock and foreign keys\<close>

text \<open>No statement between two points of a session fails for want of a connection.\<close>

definition no_fault :: "'d engine \<Rightarrow> nat \<Rightarrow> nat \<Rightarrow> bool" where
  "no_fault e a b \<longleftrightarrow> (\<forall>n\<in>set [a..<b]. \<not> e_fault e n)"

definition tidy :: "'d engine \<Rightarrow> 'd sess \<Rightarrow> 'd sess \<Rightarrow> bool" where
  "tidy e s s1 \<longleftrightarrow> s_step s \<le> s_step s1
     \<and> (no_fault e (s_step s) (s_step s1) \<longrightarrow>
          (s_fk s \<longrightarrow> s_fk s1) \<and> (\<not> s_locked s \<longrightarrow> \<not> s_locked s1))"

interpretation tidy: session_order "tidy e"
proof unfold_locales
  fix a b c :: "'a sess"
  show "tidy e a b \<Longrightarrow> tidy e b c \<Longrightarrow> tidy e a c"
    by (auto simp: tidy_def no_fault_def)
qed (auto simp: tidy_def)

lemma tidy_db: "keeps (tidy e) (on_db f)"
  by (auto intro!: keepsI simp: wp_rules tidy_def split: prod.splits)

lemma tidy_execute: "keeps (tidy e) (execute e sql)"
proof -
  have one: "keeps (tidy e) (exec_one e q)" for q
    unfolding exec_one_def
    by (intro tidy.keeps_stmt keepsI) (auto simp: wp_def tidy_def Let_def split: prod.splits)
  have "keeps (tidy e) (exec_each e qs)" for qs
    by (induction qs) (auto intro!: tidy.keeps_ret tidy.keeps_bind one)
  then show ?thesis by (simp add: execute_def one)
qed

lemma tidy_record: "keeps (tidy e) (record_row e table name cs ms who)"
  unfolding record_row_def
  by (intro tidy.keeps_stmt keepsI) (auto simp: wp_def on_db_def tidy_def Let_def split: prod.splits)

lemma tidy_foreign_keys_off:
  assumes "keeps (tidy e) body"
  shows "keeps (tidy e) (foreign_keys_off e on body)"
proof (rule keepsI)
  fix s :: "'a sess"
  let ?s1 = "s\<lparr>s_step := Suc (s_step s), s_fk := False\<rparr>"
  have b: "wp body (\<lambda>_ s2. tidy e ?s1 s2) ?s1" by (rule keepsD [OF assms])
  have "wp body (\<lambda>r s2. wp (stmt e (\<lambda>s. (Inr (), s\<lparr>s_fk := True\<rparr>))) (\<lambda>r' s3. tidy e s s3) s2) ?s1"
    by (rule wp_mono [OF b]) (auto simp: wp_rules tidy_def no_fault_def)
  moreover have "wp body (\<lambda>_ s2. tidy e s s2) s" by (rule keepsD [OF assms])
  ultimately show "wp (foreign_keys_off e on body) (\<lambda>_ s1. tidy e s s1) s"
    by (auto simp: foreign_keys_off_def wp_rules tidy.step_R)
qed

lemma tidy_lock:
  assumes "keeps (tidy e) body"
  shows "keeps (tidy e) (lock e body)"
proof (rule keepsI)
  fix s :: "'a sess"
  let ?s0 = "s\<lparr>s_locked := True\<rparr>" and ?s1 = "s\<lparr>s_step := Suc (s_step s), s_locked := True\<rparr>"
  have "wp body (\<lambda>r s2. wp (unlock e) (\<lambda>r' s3. tidy e s s3) s2) ?s1"
    by (rule wp_mono [OF keepsD [OF assms]]) (auto simp: unlock_def wp_rules tidy_def no_fault_def)
  moreover have "wp body (\<lambda>r s1. tidy e s (s1\<lparr>s_locked := False\<rparr>)) ?s0"
    by (rule wp_mono [OF keepsD [OF assms]]) (auto simp: tidy_def)
  moreover have "wp body (\<lambda>_ s2. tidy e s s2) s" by (rule keepsD [OF assms])
  ultimately show "wp (lock e body) (\<lambda>_ s1. tidy e s s1) s"
    by (cases "e_kind e") (auto simp: wp_rules tidy.step_R)
qed

lemma tidy_loop: "keeps (tidy e) (apply_loop e table dry who q)"
proof (induction q)
  case (Cons st q)
  have "keeps (tidy e) (run_file e table who name f)" for name f
    unfolding run_file_def elapsed_def
    by (auto intro!: tidy.keeps_bind tidy.keeps_monotonic tidy_execute tidy_record tidy.keeps_ret
        tidy_foreign_keys_off tidy.keeps_transaction tidy.keeps_check_foreign_keys)
  then show ?case using Cons
    by (auto split: option.split intro!: tidy.keeps_raise tidy.keeps_bind tidy.keeps_out tidy.keeps_case tidy.keeps_ret)
qed (simp add: tidy.keeps_ret)

lemma tidy_apply: "keeps (tidy e) (cmd_apply e dir table dry to_prefix who)"
proof -
  have "keeps (tidy e) (ensure_table e table)"
    unfolding ensure_table_def by (intro tidy.keeps_bind tidy.keeps_stmt tidy_db)
  then show ?thesis
    unfolding cmd_apply_def run_queue_def
    by (auto split: option.split sum.split simp del: outs.simps
        intro!: tidy.keeps_say tidy.keeps_bind tidy.keeps_make_tracker tidy_lock tidy.keeps_with_states
          tidy.keeps_raise tidy_loop tidy.keeps_outs tidy.keeps_ret)
qed

text \<open>
  Apply leaves neither the lock nor switched-off foreign keys behind: whatever it ends with,
  an exit code or an exception, and however the SQL of the files fails, when it started unlocked
  and with foreign keys enforced it ends so, provided no statement was lost with the connection.
\<close>

theorem apply_restores_session:
  assumes "\<not> s_locked s" "s_fk s"
    and "cmd_apply e dir table dry to_prefix who s = (r, s1)"
    and "no_fault e (s_step s) (s_step s1)"
  shows "\<not> s_locked s1 \<and> s_fk s1"
  using wp_D [OF keepsD [OF tidy_apply] assms(3)] assms by (simp add: tidy_def)


theorem apply_restores_session_witness:
  "\<not> s_locked (snd (cmd_apply demo_engine demo_dir ''migrations'' False None ''me'' demo_session))
   \<and> s_fk (snd (cmd_apply demo_engine demo_dir ''migrations'' False None ''me'' demo_session))"
  using apply_restores_session [OF _ _ surjective_pairing, of demo_session demo_engine demo_dir "''migrations''" False None "''me''"]
  by (simp add: demo_session_simps no_fault_def demo_engine_simps)

end
