(* ===== verification/Mig_Atomic.thy ===== *)
theory Mig_Atomic
  imports Mig_Commands
begin

text \<open>
  What \<open>apply\<close> promises: an abstract account of a run in which a migration is one step (its SQL,
  then its row), and that the command, which begins transactions, runs statements that may fail
  and reads clocks, only ever lands a prefix of its queue.
\<close>

section \<open>Specification\<close>

definition pieces :: "'d engine \<Rightarrow> codes \<Rightarrow> codes list" where
  "pieces e sql = (if is_sqlite e then split_statements (e_complete e) sql else [sql])"

fun play :: "'d engine \<Rightarrow> bool \<Rightarrow> codes list \<Rightarrow> 'd mdb \<Rightarrow> 'd mdb option" where
  "play e fk [] d = Some d"
| "play e fk (q # qs) d = (case e_exec e fk q d of (None, d1) \<Rightarrow> play e fk qs d1 | (Some _, _) \<Rightarrow> None)"

inductive landed :: "'d engine \<Rightarrow> string \<Rightarrow> string \<Rightarrow> migration_state list \<Rightarrow> 'd mdb \<Rightarrow> 'd mdb \<Rightarrow> bool"
  for e table who where
  landed_nil: "landed e table who [] d d"
| landed_cons: "\<lbrakk>m_file st = Some f; play e fk (pieces e (g_sql f)) d = Some d1;
    \<not> g_foreign_keys_off f \<or> \<not> is_sqlite e \<or> \<not> fk \<and> e_fk_violations e d1 = 0;
    t_name row = m_name st; t_checksum row = g_checksum f; t_applied_by row = who;
    insert_row table row d1 = (Inr (), d2); landed e table who sts d2 d3\<rbrakk>
    \<Longrightarrow> landed e table who (st # sts) d d3"

text \<open>The queue the command computes from the directory and the tracking table.\<close>

definition table_rows :: "string \<Rightarrow> 'd mdb \<Rightarrow> applied_row list" where
  "table_rows table d =
     map (\<lambda>r. \<lparr>p_name = t_name r, p_checksum = t_checksum r, p_applied_at = t_applied_at r\<rparr>)
       (sort_key t_name (rows_of (d_tables d table)))"

definition queue_of :: "string option \<Rightarrow> migration_state list \<Rightarrow> migration_state list" where
  "queue_of to_prefix states =
     (if blocking states \<noteq> [] then []
      else case to_prefix of
             None \<Rightarrow> pending_states states
           | Some t \<Rightarrow> if t \<in> set (known_prefixes states) then up_to t (pending_states states) else [])"

definition apply_queue :: "'d engine \<Rightarrow> directory \<Rightarrow> string \<Rightarrow> string option \<Rightarrow> 'd mdb \<Rightarrow> migration_state list" where
  "apply_queue e dir table to_prefix d =
     (case discover (e_sha256 e) dir of
        Inl _ \<Rightarrow> []
      | Inr files \<Rightarrow> queue_of to_prefix (compute_states files (table_rows table d)))"

text \<open>What is asked of the migration files: their SQL leaves the tracking table alone.\<close>

definition spares :: "'d engine \<Rightarrow> string \<Rightarrow> bool" where
  "spares e table \<longleftrightarrow> (\<forall>fk q d. d_tables (snd (e_exec e fk q d)) table = d_tables d table)"

definition outside_transaction :: "migration_state \<Rightarrow> bool" where
  "outside_transaction st = (case m_file st of None \<Rightarrow> False | Some f \<Rightarrow> g_no_transaction f)"

section \<open>One file\<close>

lemma bind_ret: "bind_act m ret = m"
proof
  fix s
  obtain r s1 where "m s = (r, s1)" by (rule prod.exhaust)
  then show "bind_act m ret s = m s" by (cases r) (simp_all add: bind_act_def ret_def)
qed

lemma ret_bind: "bind_act (ret x) k = k x"
  by (simp add: fun_eq_iff bind_act_def ret_def)

lemma execute_pieces: "execute e sql = exec_each e (pieces e sql)"
  by (simp add: execute_def pieces_def bind_ret)

lemma wp_exec_each:
  "wp (exec_each e qs) (\<lambda>r s1. s_fk s1 = s_fk s \<and>
      (case r of Inr _ \<Rightarrow> play e (s_fk s) qs (s_db s) = Some (s_db s1)
               | Inl _ \<Rightarrow> spares e table \<longrightarrow> d_tables (s_db s1) table = d_tables (s_db s) table)) s"
proof (induction qs arbitrary: s)
  case (Cons q qs)
  obtain r d where x: "e_exec e (s_fk s) q (s_db s) = (r, d)" by (rule prod.exhaust)
  have t: "d_tables d table = d_tables (s_db s) table" if "spares e table"
    using that x unfolding spares_def by (metis snd_conv)
  let ?s = "s\<lparr>s_step := Suc (s_step s), s_db := d\<rparr>"
  have ih: "wp (exec_each e qs) (\<lambda>r s1. s_fk s1 = s_fk s \<and>
      (case r of Inr _ \<Rightarrow> play e (s_fk s) qs d = Some (s_db s1)
               | Inl _ \<Rightarrow> spares e table \<longrightarrow> d_tables (s_db s1) table = d_tables d table)) ?s"
    by (rule wp_mono [OF Cons [of ?s]]) (auto split: sum.splits)
  show ?case using x t
    by (cases r) (auto simp: wp_rules wp_exec_one intro!: wp_mono [OF ih] split: sum.splits)
qed (simp add: wp_rules)

lemma wp_record_row:
  "wp (record_row e table name cs ms who) (\<lambda>r s1. case r of
      Inl _ \<Rightarrow> s_db s1 = s_db s
    | Inr _ \<Rightarrow> \<exists>row. t_name row = name \<and> t_checksum row = cs \<and> t_applied_by row = who
        \<and> insert_row table row (s_db s) = (Inr (), s_db s1)) s"
proof -
  let ?row = "\<lparr>t_name = name, t_checksum = cs, t_applied_at = e_clock e (Suc (s_step s)),
        t_duration_ms = ms, t_applied_by = who\<rparr>"
  obtain r d where i: "insert_row table ?row (s_db s) = (r, d)" by (rule prod.exhaust)
  then have "d = s_db s" if "r = Inl x" for x
    using that by (auto simp: insert_row_def split: mtable.splits if_splits)
  with i show ?thesis by (cases r) (auto simp: wp_record_eq intro!: exI [of _ ?row])
qed

lemma landed_one:
  assumes "m_file st = Some f" "play e fk (pieces e (g_sql f)) d = Some d1"
    "\<not> g_foreign_keys_off f \<or> \<not> is_sqlite e \<or> \<not> fk \<and> e_fk_violations e d1 = 0"
    "t_name row = m_name st \<and> t_checksum row = g_checksum f \<and> t_applied_by row = who
      \<and> insert_row table row d1 = (Inr (), d2)"
  shows "landed e table who [st] d d2"
  using assms by (blast intro: landed_cons landed_nil)

lemma wp_check_foreign_keys:
  "wp (check_foreign_keys e) (\<lambda>r s1. s_db s1 = s_db s \<and> (case r of Inl _ \<Rightarrow> True
     | Inr _ \<Rightarrow> \<not> is_sqlite e \<or> e_fk_violations e (s_db s1) = 0)) s"
  by (auto simp: check_foreign_keys_def wp_rules split: sum.splits)

text \<open>The body of a file's transaction lands the file, or fails.\<close>

lemma wp_file_body:
  assumes f: "m_file st = Some f" and fk: "g_foreign_keys_off f \<Longrightarrow> is_sqlite e \<Longrightarrow> \<not> s_fk s"
  shows "wp (bind_act (execute e (g_sql f)) (\<lambda>_.
           bind_act (if g_foreign_keys_off f then check_foreign_keys e else ret ()) (\<lambda>_.
           bind_act (elapsed e t0) (\<lambda>ms.
           bind_act (record_row e table (m_name st) (g_checksum f) ms who) (\<lambda>_. ret ms)))))
     (\<lambda>r s2. isl r \<or> landed e table who [st] (s_db s) (s_db s2)) s"
proof -
  let ?Q = "\<lambda>(r :: merror + int) s2. isl r \<or> landed e table who [st] (s_db s) (s_db s2)"
  have rec: "wp (bind_act (elapsed e t0) (\<lambda>ms.
           bind_act (record_row e table (m_name st) (g_checksum f) ms who) (\<lambda>_. ret ms))) ?Q s2"
    if p: "play e (s_fk s) (pieces e (g_sql f)) (s_db s) = Some (s_db s2)"
      and v: "\<not> g_foreign_keys_off f \<or> \<not> is_sqlite e \<or> e_fk_violations e (s_db s2) = 0" for s2
  proof -
    have v': "\<not> g_foreign_keys_off f \<or> \<not> is_sqlite e \<or> \<not> s_fk s \<and> e_fk_violations e (s_db s2) = 0"
      using v fk by blast
    show ?thesis unfolding elapsed_def wp_rules
      by (auto intro!: wp_mono [OF wp_record_row] intro: landed_one [OF f p v'] split: sum.splits)
  qed
  have chk: "wp (bind_act (if g_foreign_keys_off f then check_foreign_keys e else ret ()) (\<lambda>_.
           bind_act (elapsed e t0) (\<lambda>ms.
           bind_act (record_row e table (m_name st) (g_checksum f) ms who) (\<lambda>_. ret ms)))) ?Q s1"
    if p: "play e (s_fk s) (pieces e (g_sql f)) (s_db s) = Some (s_db s1)" for s1
  proof (cases "g_foreign_keys_off f")
    case True
    show ?thesis unfolding wp_bind [of "if _ then _ else _"] using True
      by simp (rule wp_mono [OF wp_check_foreign_keys], auto intro!: rec simp: p split: sum.splits)
  next
    case False
    then show ?thesis using rec [of s1] p by (simp add: wp_rules)
  qed
  show ?thesis
    unfolding execute_pieces wp_bind [of "exec_each _ _"]
  proof (rule wp_mono [OF wp_exec_each [where table = table]], elim conjE)
    fix r :: "merror + unit" and s1 :: "'a sess"
    assume "case r of Inr _ \<Rightarrow> play e (s_fk s) (pieces e (g_sql f)) (s_db s) = Some (s_db s1)
      | Inl _ \<Rightarrow> spares e table \<longrightarrow> d_tables (s_db s1) table = d_tables (s_db s) table"
    then show "case r of Inl x \<Rightarrow> ?Q (Inl x) s1
      | Inr v \<Rightarrow> wp (bind_act (if g_foreign_keys_off f then check_foreign_keys e else ret ()) (\<lambda>_.
           bind_act (elapsed e t0) (\<lambda>ms.
           bind_act (record_row e table (m_name st) (g_checksum f) ms who) (\<lambda>_. ret ms)))) ?Q s1"
      using chk [of s1] by (cases r) (simp_all only: sum.case isl_def, simp)
  qed
qed

text \<open>
  One file: it lands as a whole, or it fails and the database is as before; only a file that asked
  to run outside a transaction can leave something behind, and then not in the tracking table.
\<close>

definition stray :: "'d engine \<Rightarrow> string \<Rightarrow> migration_state \<Rightarrow> 'd mdb \<Rightarrow> 'd mdb \<Rightarrow> bool" where
  "stray e table st d d1 \<longleftrightarrow> outside_transaction st
     \<and> (spares e table \<longrightarrow> d_tables d1 table = d_tables d table)"

lemma spares_play: "spares e table \<Longrightarrow> play e fk qs d = Some d1 \<Longrightarrow> d_tables d1 table = d_tables d table"
proof (induction qs arbitrary: d)
  case (Cons q qs)
  then show ?case unfolding spares_def
    by (auto split: prod.splits option.splits) (metis snd_conv)
qed simp

text \<open>A transaction is all or nothing, and switching foreign keys around it changes nothing in the database.\<close>

lemma wp_all_or_nothing:
  assumes "\<And>n. wp body (\<lambda>r s2. isl r \<or> P (s_db s2)) (s\<lparr>s_step := n\<rparr>)"
  shows "wp (transaction e body) (\<lambda>r s1. P (s_db s1) \<or> isl r \<and> s_db s1 = s_db s) s"
  using assms [of "Suc (s_step s)"] unfolding wp_transaction
  by (auto simp: wp_stmt wp_basic elim!: wp_mono split: sum.splits)

lemma wp_around:
  assumes "\<And>n b. b = s_fk s \<or> on \<and> is_sqlite e \<and> \<not> b \<Longrightarrow>
      (on \<Longrightarrow> is_sqlite e \<Longrightarrow> \<not> b) \<Longrightarrow>
      wp body (\<lambda>r s1. P (s_db s1) \<or> isl r \<and> s_db s1 = s_db s) (s\<lparr>s_step := n, s_fk := b\<rparr>)"
  shows "wp (foreign_keys_off e on body) (\<lambda>r s1. P (s_db s1) \<or> isl r \<and> s_db s1 = s_db s) s"
proof (cases "on \<and> is_sqlite e")
  case True
  with assms [of False "Suc (s_step s)"] show ?thesis
    by (auto simp: foreign_keys_off_def wp_bind [of "stmt _ _"] wp_stmt wp_fun wp_finally
        elim!: wp_mono split: sum.splits)
next
  case False
  have "s\<lparr>s_step := s_step s, s_fk := s_fk s\<rparr> = s" by simp
  then show ?thesis using False assms [of "s_fk s" "s_step s"] by (auto simp: foreign_keys_off_def)
qed

lemma wp_run_file:
  assumes f: "m_file st = Some f" and x: "\<not> (g_no_transaction f \<and> g_foreign_keys_off f)"
  shows "wp (run_file e table who (m_name st) f) (\<lambda>r s1.
      landed e table who [st] (s_db s) (s_db s1)
      \<or> isl r \<and> (s_db s1 = s_db s \<or> stray e table st (s_db s) (s_db s1))) s"
proof (cases "g_no_transaction f")
  case True
  then have nf: "\<not> g_foreign_keys_off f" and o: "outside_transaction st"
    using x f by (simp_all add: outside_transaction_def)
  let ?Q = "\<lambda>d (r :: merror + int) s1. landed e table who [st] d (s_db s1)
      \<or> isl r \<and> (s_db s1 = d \<or> stray e table st d (s_db s1))"
  let ?k = "\<lambda>t0. bind_act (elapsed e t0) (\<lambda>ms.
        bind_act (record_row e table (m_name st) (g_checksum f) ms who) (\<lambda>_. ret ms))"
  have rec: "wp (?k t0) (?Q d) s2" if p: "play e fk (pieces e (g_sql f)) d = Some (s_db s2)" for d fk s2 t0
    unfolding elapsed_def wp_rules
    using spares_play [OF _ p] o nf
    by (auto intro!: wp_mono [OF wp_record_row] intro: landed_one [OF f p] simp: stray_def split: sum.splits)
  have "wp (bind_act (execute e (g_sql f)) (\<lambda>_. ?k t0)) (?Q (s_db s)) (s\<lparr>s_step := n\<rparr>)" for t0 n
    unfolding execute_pieces wp_bind [of "exec_each _ _"]
  proof (rule wp_mono [OF wp_exec_each [where table = table]], elim conjE)
    fix r :: "merror + unit" and s1 :: "'a sess"
    let ?s = "s\<lparr>s_step := n\<rparr>"
    assume "case r of Inr _ \<Rightarrow> play e (s_fk ?s) (pieces e (g_sql f)) (s_db ?s) = Some (s_db s1)
      | Inl _ \<Rightarrow> spares e table \<longrightarrow> d_tables (s_db s1) table = d_tables (s_db ?s) table"
    then show "case r of Inl x \<Rightarrow> ?Q (s_db s) (Inl x) s1 | Inr _ \<Rightarrow> wp (?k t0) (?Q (s_db s)) s1"
      using rec [of "s_fk s" "s_db s" s1 t0] o by (cases r) (simp_all add: stray_def)
  qed
  then show ?thesis using True unfolding run_file_def wp_bind [of "monotonic _"] by (simp add: wp_basic)
next
  case False
  let ?body = "\<lambda>t0. bind_act (execute e (g_sql f)) (\<lambda>_.
           bind_act (if g_foreign_keys_off f then check_foreign_keys e else ret ()) (\<lambda>_.
           bind_act (elapsed e t0) (\<lambda>ms.
           bind_act (record_row e table (m_name st) (g_checksum f) ms who) (\<lambda>_. ret ms))))"
  have tx: "wp (transaction e (?body t0)) (\<lambda>r s1. landed e table who [st] (s_db s) (s_db s1)
      \<or> isl r \<and> s_db s1 = s_db s) (s\<lparr>s_step := n, s_fk := b\<rparr>)"
    if "g_foreign_keys_off f \<Longrightarrow> is_sqlite e \<Longrightarrow> \<not> b" for t0 n b
  proof -
    let ?s = "s\<lparr>s_step := n, s_fk := b\<rparr>"
    have "wp (?body t0) (\<lambda>r s2. isl r \<or> landed e table who [st] (s_db s) (s_db s2)) (?s\<lparr>s_step := m\<rparr>)" for m
      using wp_file_body [OF f, of e "?s\<lparr>s_step := m\<rparr>" t0 table who] that by simp
    from wp_all_or_nothing [OF this, of e] show ?thesis by simp
  qed
  have "wp (foreign_keys_off e (g_foreign_keys_off f) (transaction e (?body t0)))
     (\<lambda>r s1. landed e table who [st] (s_db s) (s_db s1) \<or> isl r \<and> s_db s1 = s_db s) (s\<lparr>s_step := n\<rparr>)" for t0 n
    using wp_around [of "s\<lparr>s_step := n\<rparr>" "g_foreign_keys_off f" e "transaction e (?body t0)"
        "landed e table who [st] (s_db s)"] tx by simp
  from this [of "e_clock e (s_step s)" "Suc (s_step s)"]
  have "wp (run_file e table who (m_name st) f)
     (\<lambda>r s1. landed e table who [st] (s_db s) (s_db s1) \<or> isl r \<and> s_db s1 = s_db s) s"
    using False by (simp add: run_file_def wp_bind [of "monotonic _"] wp_basic)
  then show ?thesis by (rule wp_mono) blast
qed

section \<open>The queue\<close>

lemma landed_append:
  "landed e table who q d d1 \<Longrightarrow> landed e table who q' d1 d2 \<Longrightarrow> landed e table who (q @ q') d d2"
  by (induction rule: landed.induct) (auto intro: landed_cons)

definition good_queue :: "migration_state list \<Rightarrow> bool" where
  "good_queue q = list_all (\<lambda>st. case m_file st of None \<Rightarrow> False
     | Some f \<Rightarrow> \<not> (g_no_transaction f \<and> g_foreign_keys_off f)) q"

definition lands_prefix ::
  "'d engine \<Rightarrow> string \<Rightarrow> string \<Rightarrow> migration_state list \<Rightarrow> bool \<Rightarrow> 'd mdb \<Rightarrow> 'd mdb \<Rightarrow> bool" where
  "lands_prefix e table who q all_done d d' \<longleftrightarrow>
     (\<exists>dn rest d1. q = dn @ rest \<and> landed e table who dn d d1 \<and> (all_done \<longrightarrow> rest = [])
        \<and> (d' = d1 \<or> (\<exists>st rs. rest = st # rs \<and> stray e table st d1 d')))"

lemma lands_nothing: "lands_prefix e table who q False d d"
  unfolding lands_prefix_def by (intro exI [of _ "[]"] exI [of _ q] exI [of _ d]) (simp add: landed_nil)

lemma wp_apply_loop:
  "good_queue q \<Longrightarrow> wp (apply_loop e table False who q)
     (\<lambda>r s1. lands_prefix e table who q (r = Inr True) (s_db s) (s_db s1)) s"
proof (induction q arbitrary: s)
  case Nil
  then show ?case by (auto simp: wp_rules lands_prefix_def intro: landed_nil)
next
  case (Cons st q)
  then obtain f where f: "m_file st = Some f" and x: "\<not> (g_no_transaction f \<and> g_foreign_keys_off f)"
    and q: "good_queue q" by (auto simp: good_queue_def split: option.splits)
  let ?Q = "\<lambda>r s1. lands_prefix e table who (st # q) (r = Inr True) (s_db s) (s_db s1)"
  have step: "wp (bind_act (out l) (\<lambda>_. apply_loop e table False who q)) ?Q s1"
    if l: "landed e table who [st] (s_db s) (s_db s1)" for l s1
  proof -
    have "wp (apply_loop e table False who q)
        (\<lambda>r s2. lands_prefix e table who q (r = Inr True) (s_db s1) (s_db s2)) (s1\<lparr>s_out := s_out s1 @ [l]\<rparr>)"
      using Cons.IH [OF q, of "s1\<lparr>s_out := s_out s1 @ [l]\<rparr>"] by simp
    then have "wp (apply_loop e table False who q) ?Q (s1\<lparr>s_out := s_out s1 @ [l]\<rparr>)"
    proof (rule wp_mono)
      fix r s2
      assume "lands_prefix e table who q (r = Inr True) (s_db s1) (s_db s2)"
      then obtain dn rest d1 where dn: "q = dn @ rest" "landed e table who dn (s_db s1) d1"
        "r = Inr True \<longrightarrow> rest = []" "s_db s2 = d1 \<or> (\<exists>st rs. rest = st # rs \<and> stray e table st d1 (s_db s2))"
        unfolding lands_prefix_def by blast
      then show "?Q r s2"
        unfolding lands_prefix_def
        by (intro exI [of _ "st # dn"] exI [of _ rest] exI [of _ d1])
          (use landed_append [OF l dn(2)] in simp)
    qed
    then show ?thesis by (simp add: wp_rules)
  qed
  have failed: "?Q (Inr False) s1"
    if "landed e table who [st] (s_db s) (s_db s1) \<or> s_db s1 = s_db s \<or> stray e table st (s_db s) (s_db s1)" for s1 :: "'a sess"
    using that
  proof (elim disjE)
    assume "landed e table who [st] (s_db s) (s_db s1)"
    then show ?thesis unfolding lands_prefix_def
      by (intro exI [of _ "[st]"] exI [of _ q] exI [of _ "s_db s1"]) simp
  next
    assume "s_db s1 = s_db s"
    then show ?thesis using lands_nothing by simp
  next
    assume "stray e table st (s_db s) (s_db s1)"
    then show ?thesis unfolding lands_prefix_def
      by (intro exI [of _ "[]"] exI [of _ "st # q"] exI [of _ "s_db s"]) (simp add: landed_nil)
  qed
  have "wp (run_file e table who (m_name st) f) (\<lambda>r s1. case r of
        Inl x \<Rightarrow> wp (bind_act (out (FailedFile (m_name st) x (g_no_transaction f))) (\<lambda>_. ret False)) ?Q s1
      | Inr ms \<Rightarrow> wp (bind_act (out (AppliedFile (m_name st) ms)) (\<lambda>_. apply_loop e table False who q)) ?Q s1) s"
  proof (rule wp_mono [OF wp_run_file [OF f x]])
    fix r :: "merror + int" and s1 :: "'a sess"
    assume a: "landed e table who [st] (s_db s) (s_db s1)
      \<or> isl r \<and> (s_db s1 = s_db s \<or> stray e table st (s_db s) (s_db s1))"
    show "case r of
        Inl x \<Rightarrow> wp (bind_act (out (FailedFile (m_name st) x (g_no_transaction f))) (\<lambda>_. ret False)) ?Q s1
      | Inr ms \<Rightarrow> wp (bind_act (out (AppliedFile (m_name st) ms)) (\<lambda>_. apply_loop e table False who q)) ?Q s1"
    proof (cases r)
      case (Inl x)
      with a failed [of s1] show ?thesis by (auto simp: wp_rules)
    next
      case (Inr ms)
      with a step show ?thesis by simp
    qed
  qed
  then show ?case using f by (simp add: wp_case)
qed

lemma lands_weaken: "lands_prefix e table who q b d d' \<Longrightarrow> (b' \<Longrightarrow> b) \<Longrightarrow> lands_prefix e table who q b' d d'"
  unfolding lands_prefix_def by blast

lemma pending_file:
  assumes "st \<in> set (pending_states (compute_states files rows))"
  shows "\<exists>f\<in>set files. m_file st = Some f \<and> g_name f = m_name st \<and> m_row st = None"
proof -
  have c: "classify (m_file st) (m_row st) = PENDING" "m_file st = last_of g_name files (m_name st)"
    using assms by (auto simp: pending_states_def compute_states_def Let_def)
  then obtain f where f: "m_file st = Some f" by (auto simp: classify_def split: option.splits)
  with c have "find (\<lambda>x. g_name x = m_name st) (rev files) = Some f" by (simp add: last_of_def)
  then have "f \<in> set files" "g_name f = m_name st"
    by (auto simp: find_Some_iff) (metis nth_mem set_rev length_rev)
  then show ?thesis using c f by (auto simp: classify_def split: option.splits if_splits)
qed

lemma discover_files:
  assumes "discover sha dir = Inr gs" "g \<in> set gs"
  shows "\<not> (g_no_transaction g \<and> g_foreign_keys_off g)"
proof -
  obtain files where "load_all sha (sort_key fst (filter (\<lambda>(n, raw). is_sql_name n) files)) = Inr gs"
    using assms(1) by (auto simp: discover_def split: option.splits sum.splits if_splits)
  from load_all_list [OF this] assms(2) obtain n raw where "load_migration sha n raw = Inr g"
    by (auto simp: list_all2_conv_all_nth in_set_conv_nth case_prod_beta)
  then show ?thesis by (rule load_migration_fields)
qed

lemma good_queue_of:
  assumes "discover sha dir = Inr files"
  shows "good_queue (queue_of to_prefix (compute_states files rows))"
proof -
  have "set (queue_of to_prefix (compute_states files rows)) \<subseteq> set (pending_states (compute_states files rows))"
    by (auto simp: queue_of_def up_to_def split: option.splits)
  then show ?thesis
    unfolding good_queue_def list_all_iff
    using pending_file discover_files [OF assms] by (fastforce split: option.split)
qed

lemma wp_run_queue:
  assumes "good_queue q"
  shows "wp (run_queue e table False who q)
    (\<lambda>r s1. lands_prefix e table who q (r = Inr 0) (s_db s) (s_db s1)) s"
proof (cases "q = []")
  case True
  then show ?thesis by (auto simp: run_queue_def wp_rules lands_prefix_def intro: landed_nil)
next
  case False
  have "wp (bind_act (apply_loop e table False who q) (\<lambda>done_all.
           if \<not> done_all then ret 1 else say (AppliedTotal (length q)) 0))
     (\<lambda>r s1. lands_prefix e table who q (r = Inr 0) (s_db s) (s_db s1)) s"
    unfolding wp_bind
    by (rule wp_mono [OF wp_apply_loop [OF assms]]) (auto simp: wp_basic split: sum.split elim: lands_weaken)
  then show ?thesis using False lands_nothing
    by (auto simp: run_queue_def wp_basic split: option.split sum.split)
qed

lemma wp_ensure_table:
  assumes "d_tables (s_db s) table \<noteq> Absent"
  shows "wp (ensure_table e table) (\<lambda>r s1. s_db s1 = s_db s) s"
  using keepsD [OF ensure_table_still [of table e], of s] assms by (simp add: still_def)

lemma wp_load_states:
  assumes "d_tables (s_db s) table \<noteq> Absent"
  shows "wp (load_states e dir table) (\<lambda>r s1. s_db s1 = s_db s \<and> (isl r \<or>
     (\<exists>files. discover (e_sha256 e) dir = Inr files \<and> r = Inr (compute_states files (table_rows table (s_db s)))))) s"
proof (cases "discover (e_sha256 e) dir")
  case (Inl x)
  then show ?thesis using assms
    by (auto simp: load_states_def make_tracker_def wp_rules split: sum.split elim!: wp_mono [OF wp_ensure_table])
next
  case (Inr files)
  have "wp (bind_act (applied_rows e table) (\<lambda>rows. ret (compute_states files rows)))
     (\<lambda>r s1. s_db s1 = s_db s \<and> (isl r \<or> r = Inr (compute_states files (table_rows table (s_db s))))) s1"
    if "s_db s1 = s_db s" for s1 :: "'a sess"
    using that by (auto simp: applied_rows_def wp_rules table_rows_def)
  then have "wp (bind_act (ensure_table e table) (\<lambda>_. bind_act (applied_rows e table) (\<lambda>rows. ret (compute_states files rows))))
     (\<lambda>r s1. s_db s1 = s_db s \<and> (isl r \<or> r = Inr (compute_states files (table_rows table (s_db s))))) s"
    unfolding wp_bind [of "ensure_table _ _"]
    by (intro wp_mono [OF wp_ensure_table [OF assms]]) (auto split: sum.split)
  then show ?thesis using Inr by (simp add: load_states_def make_tracker_def wp_bind [of "if _ then _ else _"] wp_basic)
qed

text \<open>The parts of a command before its own work, seen from the database only.\<close>

lemma wp_with_states:
  assumes present: "d_tables (s_db s) table \<noteq> Absent"
    and err: "\<And>r s1. s_db s1 = s_db s \<Longrightarrow> isl r \<or> r = Inr 1 \<Longrightarrow> Q r s1"
    and go: "\<And>files s1. discover (e_sha256 e) dir = Inr files \<Longrightarrow> s_db s1 = s_db s \<Longrightarrow>
       wp (k (compute_states files (table_rows table (s_db s)))) Q s1"
  shows "wp (with_states e dir table k) Q s"
  unfolding with_states_def wp_case
proof (rule wp_mono [OF wp_load_states [OF present]], elim conjE)
  fix r :: "merror + migration_state list" and s1 :: "'a sess"
  assume d: "s_db s1 = s_db s" and r: "isl r \<or> (\<exists>files. discover (e_sha256 e) dir = Inr files
      \<and> r = Inr (compute_states files (table_rows table (s_db s))))"
  show "case r of Inl x \<Rightarrow> wp (\<lambda>s1. if x = MigrationError then say (ErrorLine x) 1 s1 else (Inl x, s1)) Q s1
      | Inr states \<Rightarrow> wp (k states) Q s1"
  proof (cases r)
    case (Inl x)
    then show ?thesis using err [of s1 "Inl x"] err [of "s1\<lparr>s_out := s_out s1 @ [ErrorLine x]\<rparr>" "Inr 1"] d
      by (auto simp: wp_def say_def bind_act_def out_def ret_def)
  next
    case (Inr states)
    then show ?thesis using r d go by auto
  qed
qed

lemma wp_lock_db:
  assumes body: "\<And>s2. s_db s2 = s_db s \<Longrightarrow> wp body (\<lambda>r s1. Q r (s_db s1)) s2"
    and fail: "\<And>r x d. Q r d \<Longrightarrow> Q (Inl x) d" and start: "Q (Inl connection_lost) (s_db s)"
  shows "wp (lock e body) (\<lambda>r s1. Q r (s_db s1)) s"
proof -
  have "wp (unlock e) (\<lambda>r' s3. Q (case r of Inl x \<Rightarrow> Inl x | Inr v \<Rightarrow> (case r' of Inl y \<Rightarrow> Inl y | Inr _ \<Rightarrow> Inr v)) (s_db s3)) s2"
    if "Q r (s_db s2)" for r s2
    using that fail [OF that] by (auto simp: unlock_def wp_rules split: sum.splits)
  note un = this
  have u: "wp body (\<lambda>r s2. wp (unlock e) (\<lambda>r' s3. Q (case r of Inl x \<Rightarrow> Inl x
      | Inr v \<Rightarrow> (case r' of Inl y \<Rightarrow> Inl y | Inr _ \<Rightarrow> Inr v)) (s_db s3)) s2) s1" if "s_db s1 = s_db s" for s1
    by (rule wp_mono [OF body [OF that]]) (rule un)
  show ?thesis
    by (cases "e_kind e") (auto simp: wp_lock wp_stmt wp_fun start intro!: u body wp_mono [OF body])
qed

lemma wp_cmd_apply:
  assumes present: "d_tables (s_db s) table \<noteq> Absent"
  shows "wp (cmd_apply e dir table False to_prefix who) (\<lambda>r s1.
     lands_prefix e table who (apply_queue e dir table to_prefix (s_db s)) (r = Inr 0) (s_db s) (s_db s1)) s"
proof -
  let ?q = "apply_queue e dir table to_prefix (s_db s)"
  let ?P = "\<lambda>r d. lands_prefix e table who ?q (r = Inr 0) (s_db s) d"
  let ?Q = "\<lambda>r s1. ?P r (s_db s1)"
  let ?k = "\<lambda>states. if blocking states \<noteq> [] then bind_act (outs (blocking_lines states table)) (\<lambda>_. ret 1)
          else (case to_prefix of
                  None \<Rightarrow> run_queue e table False who (pending_states states)
                | Some t \<Rightarrow>
                    if t \<notin> set (known_prefixes states) then say (NoPrefix t) 1
                    else run_queue e table False who (up_to t (pending_states states)))"
  have k: "wp (?k states) ?Q s2" if st: "s_db s2 = s_db s" "discover (e_sha256 e) dir = Inr files"
      "states = compute_states files (table_rows table (s_db s))" for s2 :: "'a sess" and states files
  proof -
    have q: "?q = queue_of to_prefix states" using st by (simp add: apply_queue_def)
    have g: "good_queue (queue_of to_prefix states)" using good_queue_of [OF st(2)] st(3) by simp
    note w = wp_run_queue [OF g, of e table who s2, unfolded st(1)]
    show ?thesis unfolding q
      using w lands_nothing [of e table who _ "s_db s"] st(1)
      by (auto simp: queue_of_def wp_bind wp_outs wp_basic split: option.split)
  qed
  have "wp (with_states e dir table ?k) ?Q s2" if "s_db s2 = s_db s" for s2 :: "'a sess"
  proof (rule wp_with_states)
    show "?Q r s1" if "s_db s1 = s_db s2" "isl r \<or> r = Inr 1" for r :: "merror + int" and s1 :: "'a sess"
    proof -
      have "r \<noteq> Inr 0" using that(2) by auto
      then show ?thesis using that(1) \<open>s_db s2 = s_db s\<close> lands_nothing by simp
    qed
    show "wp (?k (compute_states files (table_rows table (s_db s2)))) ?Q s1"
      if "discover (e_sha256 e) dir = Inr files" "s_db s1 = s_db s2" for files and s1 :: "'a sess"
      by (rule k) (use that \<open>s_db s2 = s_db s\<close> in simp_all)
  qed (use that present in simp)
  then have "wp (lock e (with_states e dir table ?k)) ?Q s"
    by (rule wp_lock_db) (auto elim: lands_weaken intro: lands_nothing)
  then show ?thesis
    using lands_nothing [of e table who ?q "s_db s"]
    by (auto simp: cmd_apply_def make_tracker_def wp_bind [of "if _ then _ else _"] wp_bind [of "raise _"] wp_bind [of "ret _"] wp_basic)
qed

text \<open>Exit code 0 also means that the directory was read and that nothing blocked.\<close>

lemma wp_cmd_apply_clear:
  assumes present: "d_tables (s_db s) table \<noteq> Absent"
  shows "wp (cmd_apply e dir table False to_prefix who) (\<lambda>r s1. r = Inr 0 \<longrightarrow>
     (\<not> is_sqlite e \<or> sqlite_table_name table) \<and> e_autocommit e \<and> (\<exists>files. discover (e_sha256 e) dir = Inr files
       \<and> blocking (compute_states files (table_rows table (s_db s))) = [])) s"
proof -
  let ?P = "\<lambda>r :: merror + int. r = Inr 0 \<longrightarrow> (\<exists>files. discover (e_sha256 e) dir = Inr files
       \<and> blocking (compute_states files (table_rows table (s_db s))) = [])"
  let ?k = "\<lambda>states. if blocking states \<noteq> [] then bind_act (outs (blocking_lines states table)) (\<lambda>_. ret 1)
          else (case to_prefix of
                  None \<Rightarrow> run_queue e table False who (pending_states states)
                | Some t \<Rightarrow>
                    if t \<notin> set (known_prefixes states) then say (NoPrefix t) 1
                    else run_queue e table False who (up_to t (pending_states states)))"
  have triv: "wp m (\<lambda>r s1. True) s2" for m :: "('a, int) act" and s2 by (simp add: wp_def case_prod_beta)
  have k: "wp (?k (compute_states files (table_rows table (s_db s)))) (\<lambda>r s1. ?P r) s1"
    if "discover (e_sha256 e) dir = Inr files" for files and s1 :: "'a sess"
  proof (cases "blocking (compute_states files (table_rows table (s_db s))) = []")
    case True
    then show ?thesis using that by (auto intro: wp_mono [OF triv])
  next
    case False
    then show ?thesis by (simp add: wp_bind wp_outs wp_basic)
  qed
  have "wp (with_states e dir table ?k) (\<lambda>r s1. ?P r) s2" if eq: "s_db s2 = s_db s" for s2 :: "'a sess"
  proof (rule wp_with_states)
    show "?P r" if "isl r \<or> r = Inr 1" for r using that by auto
    show "wp (?k (compute_states files (table_rows table (s_db s2)))) (\<lambda>r s1. ?P r) s1"
      if "discover (e_sha256 e) dir = Inr files" for files and s1 :: "'a sess"
      unfolding eq by (rule k [OF that])
  qed (use eq present in simp)
  then have "wp (lock e (with_states e dir table ?k)) (\<lambda>r s1. ?P r) s"
    by (rule wp_lock_db [where Q = "\<lambda>r d. ?P r"]) simp_all
  note body = this
  show ?thesis
  proof (cases "e_autocommit e \<and> (\<not> is_sqlite e \<or> sqlite_table_name table)")
    case True
    then have "cmd_apply e dir table False to_prefix who = lock e (with_states e dir table ?k)"
      by (auto simp: cmd_apply_def make_tracker_def ret_bind)
    with True show ?thesis by (auto intro: wp_mono [OF body])
  next
    case False
    then show ?thesis
      by (auto simp: cmd_apply_def make_tracker_def wp_bind [of "raise _"] wp_basic)
  qed
qed

text \<open>
  C3. Apply is all or nothing per file and in order, whichever statement fails: the database it
  leaves is the one in which a prefix of the queue has landed, each file with its SQL run to its
  end, a clean foreign key check where it asked for one, and its row; only a file that asked to
  run outside a transaction may leave more, and then never in the tracking table. When the exit
  code is 0 the whole queue has landed.
\<close>

theorem apply_lands_a_prefix:
  assumes run: "cmd_apply e dir table False to_prefix who s = (r, s1)"
    and present: "d_tables (s_db s) table \<noteq> Absent"
  shows "\<exists>dn rest d1. apply_queue e dir table to_prefix (s_db s) = dn @ rest
     \<and> landed e table who dn (s_db s) d1
     \<and> (r = Inr 0 \<longrightarrow> rest = [] \<and> s_db s1 = d1)
     \<and> (s_db s1 = d1 \<or> (\<exists>st rs. rest = st # rs \<and> outside_transaction st
          \<and> (spares e table \<longrightarrow> d_tables (s_db s1) table = d_tables d1 table)))"
  using wp_D [OF wp_cmd_apply [OF present] run] unfolding lands_prefix_def stray_def by blast


theorem apply_lands_a_prefix_witness:
  "\<exists>d1. landed demo_engine ''migrations'' ''me'' [demo_state] demo_db d1
     \<and> s_db (snd (cmd_apply demo_engine demo_dir ''migrations'' False None ''me'' demo_session)) = d1"
proof -
  let ?c = "cmd_apply demo_engine demo_dir ''migrations'' False None ''me'' demo_session"
  have q: "apply_queue demo_engine demo_dir ''migrations'' None (s_db demo_session) = [demo_state]"
    by (simp add: apply_queue_def demo_discover demo_session_simps table_rows_def demo_states queue_of_def)
  from apply_lands_a_prefix [OF surjective_pairing [of ?c]] q show ?thesis
    by (simp add: demo_session_simps demo_applied_ok)
qed

end
