(* ===== verification/Mig_Again.thy ===== *)
theory Mig_Again
  imports Mig_Atomic
begin

text \<open>
  Commands one after the other: a second apply has nothing to do, status agrees, what baseline
  records is what was chosen, and repair ends a drift.
\<close>

section \<open>Rows after a run\<close>

text \<open>The names and checksums a run adds to the tracking table.\<close>

definition stamps :: "migration_state list \<Rightarrow> (string \<times> string) list" where
  "stamps q = map (\<lambda>st. (m_name st, g_checksum (the (m_file st)))) q"

definition row_stamps :: "mtable \<Rightarrow> (string \<times> string) list" where
  "row_stamps t = map (\<lambda>r. (t_name r, t_checksum r)) (rows_of t)"

lemma insert_row_ok:
  assumes "insert_row table row d = (Inr (), d2)"
  shows "usable (d_tables d table)" "usable (d_tables d2 table)"
    "row_stamps (d_tables d2 table) = row_stamps (d_tables d table) @ [(t_name row, t_checksum row)]"
    "t_name row \<notin> t_name ` set (rows_of (d_tables d table))"
  using assms by (auto simp: insert_row_def usable_def row_stamps_def split: mtable.splits if_splits)

lemma landed_rows:
  assumes "landed e table who q d d1" "spares e table"
  shows "row_stamps (d_tables d1 table) = row_stamps (d_tables d table) @ stamps q"
    "usable (d_tables d table) \<Longrightarrow> usable (d_tables d1 table)"
    "distinct (map fst (row_stamps (d_tables d table))) \<Longrightarrow> distinct (map fst (row_stamps (d_tables d1 table)))"
proof -
  have "row_stamps (d_tables d1 table) = row_stamps (d_tables d table) @ stamps q
    \<and> (usable (d_tables d table) \<longrightarrow> usable (d_tables d1 table))
    \<and> (distinct (map fst (row_stamps (d_tables d table))) \<longrightarrow> distinct (map fst (row_stamps (d_tables d1 table))))"
    using assms
  proof (induction rule: landed.induct)
    case (landed_cons st f fk d d1 row d2 sts d3)
    have t: "d_tables d1 table = d_tables d table" by (rule spares_play [OF landed_cons.prems landed_cons.hyps(2)])
    note i = insert_row_ok [OF landed_cons.hyps(7), unfolded t]
    have "fst ` set (row_stamps (d_tables d table)) = t_name ` set (rows_of (d_tables d table))"
      by (force simp: row_stamps_def)
    then have "distinct (map fst (row_stamps (d_tables d2 table)))" if "distinct (map fst (row_stamps (d_tables d table)))"
      using that i(3,4) by auto
    moreover have "row_stamps (d_tables d2 table) @ stamps sts = row_stamps (d_tables d table) @ stamps (st # sts)"
      using i(3) landed_cons.hyps(1,4,5) by (simp add: stamps_def)
    ultimately show ?case using i(1,2) landed_cons.IH [OF landed_cons.prems] by argo
  qed (simp add: stamps_def)
  then show "row_stamps (d_tables d1 table) = row_stamps (d_tables d table) @ stamps q"
    "usable (d_tables d table) \<Longrightarrow> usable (d_tables d1 table)"
    "distinct (map fst (row_stamps (d_tables d table))) \<Longrightarrow> distinct (map fst (row_stamps (d_tables d1 table)))"
    by blast+
qed

lemma table_rows_stamps:
  "set (map (\<lambda>r. (p_name r, p_checksum r)) (table_rows table d)) = set (row_stamps (d_tables d table))"
  by (auto simp: table_rows_def row_stamps_def image_iff)

lemma table_rows_distinct:
  "distinct (map p_name (table_rows table d)) \<longleftrightarrow> distinct (map fst (row_stamps (d_tables d table)))"
  by (simp add: table_rows_def row_stamps_def o_def distinct_map [of t_name])

lemma discover_distinct:
  assumes "discover sha dir = Inr gs"
  shows "distinct (map g_name gs)"
proof -
  obtain files where la: "load_all sha (sort_key fst (filter (\<lambda>(n, raw). is_sql_name n) files)) = Inr gs"
    and d: "distinct (map g_prefix gs)"
    using assms by (auto simp: discover_def split: option.splits sum.splits if_splits)
  have "match_filename (g_name g) = Some (g_prefix g)" if "g \<in> set gs" for g
  proof -
    from load_all_list [OF la] that obtain n raw where "load_migration sha n raw = Inr g"
      by (auto simp: list_all2_conv_all_nth in_set_conv_nth case_prod_beta)
    then show ?thesis using load_migration_fields by metis
  qed
  then have "map g_prefix gs = map (\<lambda>n. the (match_filename n)) (map g_name gs)" by simp
  with d show ?thesis by (metis distinct_map)
qed

text \<open>Every name has a file and a row that agree, so nothing waits and nothing blocks.\<close>

lemma all_applied:
  assumes "distinct (map g_name files)" "distinct (map p_name rows)"
    and "\<And>f. f \<in> set files \<Longrightarrow> (g_name f, g_checksum f) \<in> set (map (\<lambda>r. (p_name r, p_checksum r)) rows)"
    and "\<And>r. r \<in> set rows \<Longrightarrow> p_name r \<in> g_name ` set files"
  shows "pending_states (compute_states files rows) = []" "blocking (compute_states files rows) = []"
proof -
  have "m_state s = APPLIED" if s: "s \<in> set (compute_states files rows)" for s
  proof -
    have "m_name s \<in> set (map m_name (compute_states files rows))" using s by simp
    then have "m_name s \<in> g_name ` set files"
      unfolding compute_states_names using assms(4) by auto
    then obtain f where f: "f \<in> set files" "g_name f = m_name s" by auto
    with assms(3) obtain r where "r \<in> set rows" "p_name r = m_name s" "p_checksum r = g_checksum f" by fastforce
    with f show ?thesis using compute_states_each [OF assms(1,2) s] by blast
  qed
  then show "pending_states (compute_states files rows) = []" "blocking (compute_states files rows) = []"
    by (auto simp: pending_states_def blocking_def filter_empty_conv)
qed

section \<open>Apply again\<close>

text \<open>An engine whose connection holds.\<close>

definition healthy :: "'d engine \<Rightarrow> 'd engine" where
  "healthy e = e\<lparr>e_fault := (\<lambda>_. False)\<rparr>"

lemma healthy_simps [simp]:
  "e_kind (healthy e) = e_kind e" "e_autocommit (healthy e) = e_autocommit e" "\<not> e_fault (healthy e) n"
  "e_sha256 (healthy e) = e_sha256 e" "is_sqlite (healthy e) = is_sqlite e" "e_exec (healthy e) = e_exec e"
  by (simp_all add: healthy_def is_sqlite_def)

lemma usable_present: "usable t \<Longrightarrow> t \<noteq> Absent"
  by (auto simp: usable_def)

lemma wp_load_healthy:
  assumes "usable (d_tables (s_db s) table)" "discover (e_sha256 e) dir = Inr files"
    and "\<not> is_sqlite e \<or> sqlite_table_name table"
  shows "wp (load_states (healthy e) dir table) Q s =
    Q (Inr (compute_states files (table_rows table (s_db s)))) (s\<lparr>s_step := Suc (Suc (Suc (s_step s)))\<rparr>)"
proof -
  have c: "create_table table (s_db s) = (Inr (), s_db s)"
    using usable_present [OF assms(1)] by (simp add: create_table_def split: mtable.splits)
  have k: "check_columns (found_columns table (s_db s)) = Inr ()"
    using assms(1) by (auto simp: check_columns_def found_columns_def usable_def filter_empty_conv split: mtable.splits)
  have "s\<lparr>s_step := n, s_db := s_db s\<rparr> = s\<lparr>s_step := n\<rparr>" for n by simp
  then show ?thesis using assms
    by (auto simp: load_states_def make_tracker_def wp_rules ensure_table_def c k applied_rows_def table_rows_def)
qed

lemma queue_done:
  assumes s0: "distinct (map fst (row_stamps (d_tables d table)))" "discover (e_sha256 e) dir = Inr files"
    and l: "landed e table who (pending_states states) d d1" "spares e table"
    and states: "states = compute_states files (table_rows table d)" "blocking states = []"
  shows "pending_states (compute_states files (table_rows table d1)) = []
    \<and> blocking (compute_states files (table_rows table d1)) = []"
proof -
  note df = discover_distinct [OF s0(2)]
  have dr: "distinct (map p_name (table_rows table d))" using s0(1) by (simp add: table_rows_distinct)
  have dr1: "distinct (map p_name (table_rows table d1))"
    using landed_rows(3) [OF l s0(1)] by (simp add: table_rows_distinct)
  have rows1: "set (map (\<lambda>r. (p_name r, p_checksum r)) (table_rows table d1)) =
      set (map (\<lambda>r. (p_name r, p_checksum r)) (table_rows table d)) \<union> set (stamps (pending_states states))"
    unfolding table_rows_stamps landed_rows(1) [OF l] by simp
  have each: "m_state st \<noteq> DRIFT" "m_state st \<noteq> MISSING" if "st \<in> set states" for st
    using states(2) that by (auto simp: blocking_def filter_empty_conv)
  have "(g_name f, g_checksum f) \<in> set (map (\<lambda>r. (p_name r, p_checksum r)) (table_rows table d1))"
    if f: "f \<in> set files" for f
  proof -
    have "g_name f \<in> set (map m_name states)"
      unfolding states(1) compute_states_names using f by auto
    then obtain st where st: "st \<in> set states" "m_name st = g_name f" by auto
    note e1 = compute_states_each [OF df dr st(1) [unfolded states(1)]]
    have uf: "g = f" if "g \<in> set files" "g_name g = g_name f" for g
      using df f that by (metis distinct_map inj_onD)
    show ?thesis
    proof (cases "m_state st")
      case APPLIED
      then obtain g r where "g \<in> set files" "r \<in> set (table_rows table d)" "g_name g = m_name st"
        "p_name r = m_name st" "p_checksum r = g_checksum g" using e1 by blast
      with uf [of g] st have "(g_name f, g_checksum f) = (p_name r, p_checksum r)" "r \<in> set (table_rows table d)" by auto
      then show ?thesis unfolding rows1 by (metis (no_types, lifting) UnI1 image_eqI list.set_map)
    next
      case PENDING
      then have p: "st \<in> set (pending_states states)" using st by (simp add: pending_states_def)
      then obtain g where "g \<in> set files" "m_file st = Some g" "g_name g = m_name st"
        using pending_file states(1) by blast
      with uf [of g] st p have "(g_name f, g_checksum f) \<in> set (stamps (pending_states states))"
        by (force simp: stamps_def)
      then show ?thesis unfolding rows1 by blast
    qed (use each st(1) in auto)
  qed
  moreover have "p_name r \<in> g_name ` set files" if r: "r \<in> set (table_rows table d1)" for r
  proof -
    have "(p_name r, p_checksum r) \<in> set (map (\<lambda>r. (p_name r, p_checksum r)) (table_rows table d1))" using r by simp
    then have "p_name r \<in> p_name ` set (table_rows table d) \<or> p_name r \<in> m_name ` set (pending_states states)"
      unfolding rows1 by (auto simp: stamps_def)
    then obtain st where st: "st \<in> set states" "m_name st = p_name r"
    proof
      assume "p_name r \<in> p_name ` set (table_rows table d)"
      then have "p_name r \<in> set (map m_name states)" unfolding states(1) compute_states_names by auto
      then show thesis using that by auto
    next
      assume "p_name r \<in> m_name ` set (pending_states states)"
      then show thesis using that by (auto simp: pending_states_def)
    qed
    then show ?thesis using compute_states_each [OF df dr st(1) [unfolded states(1)]] each(2) [OF st(1)] by metis
  qed
  ultimately show ?thesis using all_applied [OF df dr1] by blast
qed

lemma healthy_status:
  assumes "usable (d_tables (s_db s) table)" "discover (e_sha256 e) dir = Inr files"
    and "\<not> is_sqlite e \<or> sqlite_table_name table"
    and "pending_states (compute_states files (table_rows table (s_db s))) = []"
    and "blocking (compute_states files (table_rows table (s_db s))) = []"
  shows "fst (cmd_status (healthy e) dir table True s) = Inr 0"
proof -
  have "wp (cmd_status (healthy e) dir table True) (\<lambda>r s1. r = Inr 0) s"
    unfolding cmd_status_def wp_with_states_eq wp_load_healthy [OF assms(1-3)] using assms(4,5)
    by (simp add: Let_def wp_bind wp_outs wp_basic del: outs.simps)
  then show ?thesis by (simp add: wp_def case_prod_beta)
qed

lemma healthy_idle:
  assumes "usable (d_tables (s_db s) table)" "discover (e_sha256 e) dir = Inr files"
    and "\<not> is_sqlite e \<or> sqlite_table_name table" "e_autocommit e"
    and "pending_states (compute_states files (table_rows table (s_db s))) = []"
    and "blocking (compute_states files (table_rows table (s_db s))) = []"
  shows "fst (cmd_apply (healthy e) dir table False None who s) = Inr 0"
    "s_db (snd (cmd_apply (healthy e) dir table False None who s)) = s_db s"
proof -
  let ?k = "\<lambda>states. if blocking states \<noteq> [] then bind_act (outs (blocking_lines states table)) (\<lambda>_. ret 1)
      else run_queue (healthy e) table False who (pending_states states)"
  have w: "wp (with_states (healthy e) dir table ?k) (\<lambda>r s2. r = Inr 0 \<and> s_db s2 = s_db s) s1"
    if eq: "s_db s1 = s_db s" for s1
    using wp_load_healthy [of s1 table e dir files] assms eq
    by (simp add: wp_with_states_eq run_queue_def wp_basic)
  have "wp (lock (healthy e) (with_states (healthy e) dir table ?k)) (\<lambda>r s2. r = Inr 0 \<and> s_db s2 = s_db s) s"
    by (cases "e_kind e")
      (auto simp: wp_lock wp_stmt wp_fun unlock_def intro!: wp_mono [OF w] w)
  moreover have "cmd_apply (healthy e) dir table False None who = lock (healthy e) (with_states (healthy e) dir table ?k)"
    using assms(3,4) by (auto simp: cmd_apply_def make_tracker_def ret_bind cong: if_cong)
  ultimately show "fst (cmd_apply (healthy e) dir table False None who s) = Inr 0"
    "s_db (snd (cmd_apply (healthy e) dir table False None who s)) = s_db s"
    by (simp_all add: wp_def case_prod_beta)
qed

text \<open>
  C31. Once apply has reported success, the work is done: while the files stay as they are, a
  status check reports that nothing waits and nothing blocks, and another apply finds nothing to
  run and leaves the database as it is.
\<close>

theorem apply_again_idle:
  assumes run: "cmd_apply e dir table False None who s = (Inr 0, s1)"
    and "usable (d_tables (s_db s) table)" "distinct (map t_name (rows_of (d_tables (s_db s) table)))"
    and sp: "spares e table" and s2: "s_db s2 = s_db s1"
  shows "fst (cmd_status (healthy e) dir table True s2) = Inr 0
    \<and> fst (cmd_apply (healthy e) dir table False None who2 s2) = Inr 0
    \<and> s_db (snd (cmd_apply (healthy e) dir table False None who2 s2)) = s_db s1"
proof -
  note present = usable_present [OF assms(2)]
  from wp_D [OF wp_cmd_apply_clear [OF present] run] obtain files
    where ok: "\<not> is_sqlite e \<or> sqlite_table_name table" "e_autocommit e"
      and files: "discover (e_sha256 e) dir = Inr files"
        "blocking (compute_states files (table_rows table (s_db s))) = []" by blast
  let ?states = "compute_states files (table_rows table (s_db s))"
  have q: "apply_queue e dir table None (s_db s) = pending_states ?states"
    using files by (simp add: apply_queue_def queue_of_def)
  from wp_D [OF wp_cmd_apply [OF present] run]
  have l: "landed e table who (pending_states ?states) (s_db s) (s_db s1)"
    unfolding q lands_prefix_def by auto
  have "distinct (map fst (row_stamps (d_tables (s_db s) table)))"
    using assms(3) by (simp add: row_stamps_def o_def)
  from queue_done [OF this files(1) l sp refl files(2)]
  have d: "pending_states (compute_states files (table_rows table (s_db s2))) = []"
    "blocking (compute_states files (table_rows table (s_db s2))) = []" by (simp_all add: s2)
  have u: "usable (d_tables (s_db s2) table)" using landed_rows(2) [OF l sp assms(2)] s2 by simp
  show ?thesis
    using healthy_status [OF u files(1) ok(1) d] healthy_idle [OF u files(1) ok d] s2 by simp
qed

theorem apply_again_idle_witness:
  "fst (cmd_status (healthy demo_engine) demo_dir ''migrations'' True
     (snd (cmd_apply demo_engine demo_dir ''migrations'' False None ''me'' demo_session))) = Inr 0"
proof -
  let ?c = "cmd_apply demo_engine demo_dir ''migrations'' False None ''me'' demo_session"
  have "?c = (Inr 0, snd ?c)" using demo_applied_ok by (metis prod.collapse)
  moreover have "spares demo_engine ''migrations''" by (simp add: spares_def demo_engine_simps)
  moreover have "usable (d_tables (s_db demo_session) ''migrations'')"
    "distinct (map t_name (rows_of (d_tables (s_db demo_session) ''migrations'')))"
    by (simp_all add: demo_session_simps usable_def)
  ultimately show ?thesis using apply_again_idle [OF _ _ _ _ refl] by blast
qed

section \<open>Baseline\<close>

definition candidates_of :: "string option \<Rightarrow> migration_state list \<Rightarrow> migration_state list" where
  "candidates_of to_prefix states =
     (case to_prefix of
        None \<Rightarrow> pending_states states
      | Some t \<Rightarrow> if t \<in> set (known_prefixes states) then up_to t (pending_states states) else [])"

definition candidates :: "'d engine \<Rightarrow> directory \<Rightarrow> string \<Rightarrow> string option \<Rightarrow> 'd mdb \<Rightarrow> migration_state list" where
  "candidates e dir table to_prefix d =
     (case discover (e_sha256 e) dir of
        Inl _ \<Rightarrow> []
      | Inr files \<Rightarrow> candidates_of to_prefix (compute_states files (table_rows table d)))"

lemma wp_record_all:
  "wp (record_all e table who q) (\<lambda>r s1. isl r \<or>
     row_stamps (d_tables (s_db s1) table) = row_stamps (d_tables (s_db s) table) @ stamps q) s"
proof (induction q arbitrary: s)
  case (Cons st q)
  show ?case
  proof (cases "m_file st")
    case (Some f)
    have ih: "wp (record_all e table who q) (\<lambda>r s2. isl r \<or>
        row_stamps (d_tables (s_db s2) table) = row_stamps (d_tables (s_db s) table) @ stamps (st # q)) s1"
      if i: "insert_row table row (s_db s) = (Inr (), s_db s1)" "t_name row = m_name st" "t_checksum row = g_checksum f"
      for row s1
      by (rule wp_mono [OF Cons.IH]) (use insert_row_ok(3) [OF i(1)] i(2,3) Some in \<open>simp add: stamps_def\<close>)
    have "wp (record_row e table (m_name st) (g_checksum f) 0 who) (\<lambda>r s1. case r of Inl x \<Rightarrow> True
       | Inr v \<Rightarrow> wp (record_all e table who q) (\<lambda>r s2. isl r \<or>
        row_stamps (d_tables (s_db s2) table) = row_stamps (d_tables (s_db s) table) @ stamps (st # q)) s1) s"
      by (rule wp_mono [OF wp_record_row]) (auto split: sum.splits dest!: ih)
    then show ?thesis using Some by (simp add: wp_bind cong: sum.case_cong)
  qed (simp add: wp_basic)
qed (simp add: wp_basic stamps_def)

text \<open>What baseline may do to the tracking table, given the operator's answers.\<close>

definition stamped ::
  "string \<Rightarrow> bool \<Rightarrow> (string \<Rightarrow> string) \<Rightarrow> migration_state list \<Rightarrow> bool \<Rightarrow> 'd mdb \<Rightarrow> 'd mdb \<Rightarrow> bool" where
  "stamped table yes prompt cs success d d1 \<longleftrightarrow>
     (case choose_states prompt yes cs of
        None \<Rightarrow> d1 = d \<and> \<not> success
      | Some chosen \<Rightarrow>
          (\<not> success \<and> d1 = d) \<or> row_stamps (d_tables d1 table) = row_stamps (d_tables d table) @ stamps chosen)"

lemma wp_stamp:
  "wp (stamp e table yes who prompt cs) (\<lambda>r s1. stamped table yes prompt cs (r = Inr 0) (s_db s) (s_db s1)) s"
proof (cases "choose_states prompt yes cs")
  case None
  then have "cs \<noteq> []" by auto
  with None show ?thesis by (simp add: stamp_def wp_basic stamped_def)
next
  case (Some chosen)
  have "wp (transaction e (record_all e table who chosen)) (\<lambda>r s1.
      row_stamps (d_tables (s_db s1) table) = row_stamps (d_tables (s_db s) table) @ stamps chosen
      \<or> isl r \<and> s_db s1 = s_db s) s"
    using wp_all_or_nothing [of "record_all e table who chosen"
        "\<lambda>d. row_stamps (d_tables d table) = row_stamps (d_tables (s_db s) table) @ stamps chosen" s e]
      wp_record_all [of e table who chosen "s\<lparr>s_step := n\<rparr>" for n] by simp
  then have "wp (\<lambda>s. case transaction e (record_all e table who chosen) s of
        (Inl x, s1) \<Rightarrow> say (WriteFailed x) 1 s1
      | (Inr _, s1) \<Rightarrow> bind_act (out BlankLine) (\<lambda>_. say (Stamped (length chosen) (length cs - length chosen)) 0) s1)
    (\<lambda>r s1. stamped table yes prompt cs (r = Inr 0) (s_db s) (s_db s1)) s"
    unfolding wp_case using Some by (auto simp: wp_bind wp_basic stamped_def split: sum.split elim!: wp_mono)
  then show ?thesis using Some by (auto simp: stamp_def wp_basic stamped_def stamps_def)
qed

lemma wp_baseline:
  assumes present: "d_tables (s_db s) table \<noteq> Absent"
  shows "wp (cmd_baseline e dir table to_prefix yes who prompt) (\<lambda>r s1. (r \<noteq> Inr 0 \<and> s_db s1 = s_db s)
      \<or> stamped table yes prompt (candidates e dir table to_prefix (s_db s)) (r = Inr 0) (s_db s) (s_db s1)) s"
proof -
  let ?P = "\<lambda>r d. (r \<noteq> Inr 0 \<and> d = s_db s)
      \<or> stamped table yes prompt (candidates e dir table to_prefix (s_db s)) (r = Inr 0) (s_db s) d"
  let ?k = "\<lambda>states. (case to_prefix of
             None \<Rightarrow> stamp e table yes who prompt (pending_states states)
           | Some t \<Rightarrow>
               if t \<notin> set (known_prefixes states) then say (NoPrefix t) 1
               else stamp e table yes who prompt (up_to t (pending_states states)))"
  have k: "wp (?k (compute_states files (table_rows table (s_db s)))) (\<lambda>r s2. ?P r (s_db s2)) s1"
    if "discover (e_sha256 e) dir = Inr files" and eq: "s_db s1 = s_db s" for files and s1 :: "'a sess"
    using that wp_stamp [of e table yes who prompt _ s1, unfolded eq]
    by (auto simp: candidates_def candidates_of_def wp_basic split: option.split intro: wp_mono)
  have "wp (with_states e dir table ?k) (\<lambda>r s1. ?P r (s_db s1)) s2" if eq: "s_db s2 = s_db s" for s2 :: "'a sess"
  proof (rule wp_with_states)
    show "wp (?k (compute_states files (table_rows table (s_db s2)))) (\<lambda>r s2. ?P r (s_db s2)) s1"
      if "discover (e_sha256 e) dir = Inr files" "s_db s1 = s_db s2" for files and s1 :: "'a sess"
      unfolding eq using that eq by (intro k) auto
  qed (use eq present in auto)
  then have "wp (lock e (with_states e dir table ?k)) (\<lambda>r s1. ?P r (s_db s1)) s"
    by (rule wp_lock_db) (auto simp: stamped_def split: option.splits)
  then show ?thesis
    by (simp add: cmd_baseline_def make_tracker_def wp_bind [of "if _ then _ else _"] wp_bind [of "raise _"]
        ret_bind wp_basic)
qed


lemma demo_candidates: "candidates demo_engine demo_dir ''migrations'' None demo_db = [demo_state]"
  by (simp add: candidates_def candidates_of_def demo_discover table_rows_def demo_session_simps demo_states)


section \<open>Repair\<close>

lemma path_name_plain: "name = path_name name \<Longrightarrow> CHR ''/'' \<notin> set name"
proof -
  assume n: "name = path_name name"
  let ?parts = "filter (\<lambda>p. p \<noteq> [] \<and> p \<noteq> ''.'') (split_on (CHR ''/'') name)"
  show ?thesis
  proof (cases "?parts = []")
    case True
    then have "path_name name = []" by (simp add: path_name_def)
    with n show ?thesis by simp
  next
    case False
    then have "path_name name = last ?parts" by (simp add: path_name_def)
    moreover have "last ?parts \<in> set (split_on (CHR ''/'') name)" using last_in_set [OF False] by simp
    ultimately show ?thesis using split_on_no_sep n by metis
  qed
qed

definition restamp :: "string \<Rightarrow> string \<Rightarrow> track_row list \<Rightarrow> track_row list" where
  "restamp name cs rows = map (\<lambda>r. if t_name r = name then r\<lparr>t_checksum := cs\<rparr> else r) rows"

lemma restamp_names: "map t_name (restamp name cs rows) = map t_name rows"
  by (simp add: restamp_def)

lemma wp_update_checksum:
  "wp (update_checksum e table name cs) (\<lambda>r s1. r \<noteq> Inr True \<or>
     rows_of (d_tables (s_db s1) table) = restamp name cs (rows_of (d_tables (s_db s) table))
     \<and> name \<in> t_name ` set (rows_of (d_tables (s_db s) table))) s"
proof -
  have "x \<in> t_name ` set rows" if "length (filter (\<lambda>r. t_name r = x) rows) = Suc 0" for x rows
    using that by (metis (mono_tags, lifting) filter_False image_eqI length_0_conv nat.distinct(1))
  then show ?thesis
    by (auto simp: update_checksum_def wp_rules restamp_def split: mtable.splits)
qed

lemma wp_repair:
  assumes "d_tables (s_db s) table \<noteq> Absent"
  shows "wp (cmd_repair e dir table name) (\<lambda>r s1. r \<noteq> Inr 0 \<or> name = path_name name \<and>
     (\<exists>files raw. dir = Some files \<and> map_of files name = Some raw
        \<and> rows_of (d_tables (s_db s1) table) = restamp name (e_sha256 e raw) (rows_of (d_tables (s_db s) table))
        \<and> name \<in> t_name ` set (rows_of (d_tables (s_db s) table)))) s"
proof (cases "e_autocommit e \<and> name = path_name name \<and> (\<exists>files raw f. dir = Some files
    \<and> map_of files name = Some raw \<and> load_migration (e_sha256 e) name raw = Inr f)")
  case True
  then obtain files raw f where dir: "dir = Some files" "map_of files name = Some raw"
      "load_migration (e_sha256 e) name raw = Inr f" by blast
  note f = load_migration_fields(1,2) [OF dir(3)]
  have an: "e_autocommit e" "path_name name = name" using True by auto
  let ?Q = "\<lambda>r :: merror + int. \<lambda>s1. r \<noteq> Inr 0 \<or>
     rows_of (d_tables (s_db s1) table) = restamp name (e_sha256 e raw) (rows_of (d_tables (s_db s) table))
     \<and> name \<in> t_name ` set (rows_of (d_tables (s_db s) table))"
  have up: "wp (bind_act (update_checksum e table name (e_sha256 e raw)) (\<lambda>found.
      if \<not> found then say (NoTrackingRow name) 1 else say (Repaired name (take 12 (e_sha256 e raw))) 0)) ?Q s1"
    if eq: "s_db s1 = s_db s" for s1
    unfolding wp_bind
    by (rule wp_mono [OF wp_update_checksum]) (auto simp: eq wp_basic split: sum.split)
  have er: "wp (\<lambda>s1. if x = MigrationError then say (ErrorLine x) 1 s1 else (Inl x, s1)) ?Q s1" for x s1
    by (simp add: wp_def say_def bind_act_def out_def ret_def)
  have "wp (\<lambda>s. case ensure_table e table s of
      (Inl x, s1) \<Rightarrow> if x = MigrationError then say (ErrorLine x) 1 s1 else (Inl x, s1)
    | (Inr _, s1) \<Rightarrow> bind_act (update_checksum e table name (e_sha256 e raw)) (\<lambda>found.
        if \<not> found then say (NoTrackingRow name) 1 else say (Repaired name (take 12 (e_sha256 e raw))) 0) s1) ?Q s"
    unfolding wp_case
  proof (rule wp_mono [OF wp_ensure_table [OF assms]])
    fix r :: "merror + unit" and s1 :: "'a sess"
    assume "s_db s1 = s_db s"
    then show "case r of Inl x \<Rightarrow> wp (\<lambda>s1. if x = MigrationError then say (ErrorLine x) 1 s1 else (Inl x, s1)) ?Q s1
      | Inr v \<Rightarrow> wp (bind_act (update_checksum e table name (e_sha256 e raw)) (\<lambda>found.
        if \<not> found then say (NoTrackingRow name) 1 else say (Repaired name (take 12 (e_sha256 e raw))) 0)) ?Q s1"
      using er up by (cases r) auto
  qed
  note body = this
  have "cmd_repair e dir table name = bind_act (make_tracker e table) (\<lambda>_ s. case ensure_table e table s of
      (Inl x, s1) \<Rightarrow> if x = MigrationError then say (ErrorLine x) 1 s1 else (Inl x, s1)
    | (Inr _, s1) \<Rightarrow> bind_act (update_checksum e table name (e_sha256 e raw)) (\<lambda>found.
        if \<not> found then say (NoTrackingRow name) 1 else say (Repaired name (take 12 (e_sha256 e raw))) 0) s1)"
    by (simp add: cmd_repair_def an dir) (simp only: f)
  then have "wp (cmd_repair e dir table name) ?Q s"
    using body by (cases "is_sqlite e \<and> \<not> sqlite_table_name table")
      (simp_all add: make_tracker_def ret_bind wp_bind [of "raise _"] wp_basic del: de_Morgan_conj)
  then show ?thesis using True dir by (auto intro: wp_mono)
next
  case False
  then show ?thesis
    by (auto simp: cmd_repair_def wp_basic bind_eq_Some_conv split: option.split sum.split option.splits)
qed

lemma list_all2_in: "list_all2 P xs ys \<Longrightarrow> x \<in> set xs \<Longrightarrow> \<exists>y\<in>set ys. P x y"
  by (induction rule: list_all2_induct) auto

text \<open>
  Repair ends a drift and does nothing else: when it reports success, the name was that of a
  file of the directory and not a path, the row of that name carries the file's checksum and every
  other row is as before, so the migration counts as applied.
\<close>

theorem repair_restamps:
  assumes run: "cmd_repair e (Some files) table name s = (Inr 0, s1)"
    and u: "usable (d_tables (s_db s) table)"
    and d: "distinct (map t_name (rows_of (d_tables (s_db s) table)))"
    and files: "dict_ok files" "discover (e_sha256 e) (Some files) = Inr gs" "is_sql_name name"
  shows "CHR ''/'' \<notin> set name
    \<and> (\<exists>raw. map_of files name = Some raw
        \<and> rows_of (d_tables (s_db s1) table) = restamp name (e_sha256 e raw) (rows_of (d_tables (s_db s) table)))
    \<and> (\<exists>st\<in>set (compute_states gs (table_rows table (s_db s1))). m_name st = name \<and> m_state st = APPLIED)"
proof -
  from wp_D [OF wp_repair [OF usable_present [OF u]] run] obtain raw
    where n: "name = path_name name" and raw: "map_of files name = Some raw"
      and rows: "rows_of (d_tables (s_db s1) table) = restamp name (e_sha256 e raw) (rows_of (d_tables (s_db s) table))"
      and old: "name \<in> t_name ` set (rows_of (d_tables (s_db s) table))" by auto
  have dr: "distinct (map p_name (table_rows table (s_db s1)))"
    unfolding table_rows_distinct using d by (simp add: row_stamps_def o_def rows restamp_def if_distrib cong: if_cong)
  note df = discover_distinct [OF files(2)]
  have "(name, e_sha256 e raw) \<in> set (row_stamps (d_tables (s_db s1) table))"
    using old by (force simp: row_stamps_def rows restamp_def)
  then obtain r where r: "r \<in> set (table_rows table (s_db s1))" "p_name r = name" "p_checksum r = e_sha256 e raw"
    unfolding table_rows_stamps [symmetric] by auto
  have "load_all (e_sha256 e) (sort_key fst (filter (\<lambda>(n, raw). is_sql_name n) files)) = Inr gs"
    using files(2) by (auto simp: discover_def split: sum.splits if_splits)
  note la = load_all_list [OF this]
  have "(name, raw) \<in> set (sort_key fst (filter (\<lambda>(n, raw). is_sql_name n) files))"
    using raw files(3) by (auto dest: map_of_SomeD)
  from list_all2_in [OF la this] obtain g where g: "g \<in> set gs" "load_migration (e_sha256 e) name raw = Inr g"
    by auto
  note gf = load_migration_fields(1,2) [OF g(2)]
  have "name \<in> set (map m_name (compute_states gs (table_rows table (s_db s1))))"
    unfolding compute_states_names using g(1) gf(1) by force
  then obtain st where st: "st \<in> set (compute_states gs (table_rows table (s_db s1)))" "m_name st = name" by auto
  have "\<exists>f\<in>set gs. \<exists>r\<in>set (table_rows table (s_db s1)). g_name f = m_name st
      \<and> p_name r = m_name st \<and> p_checksum r = g_checksum f"
    by (intro bexI [OF _ g(1)] bexI [OF _ r(1)]) (simp add: gf r(2,3) st(2))
  then have "m_state st = APPLIED" using compute_states_each [OF df dr st(1)] by blast
  then show ?thesis using st path_name_plain [OF n] raw rows by blast
qed

definition drifted :: "nat sess" where
  "drifted = demo_session\<lparr>s_db := \<lparr>d_tables = (\<lambda>t. Table EXPECTED_COLUMNS
     [\<lparr>t_name = g_name demo_mig, t_checksum = ''old'', t_applied_at = 0, t_duration_ms = 1, t_applied_by = ''me''\<rparr>]),
     d_data = 7\<rparr>\<rparr>"

lemma demo_path: "path_name (g_name demo_mig) = g_name demo_mig" "is_sql_name (g_name demo_mig)"
  by (simp_all add: demo_mig_def demo_name path_name_def)

lemma demo_repair:
  "wp (cmd_repair demo_engine demo_dir ''migrations'' (g_name demo_mig)) (\<lambda>r s1. r = Inr 0) drifted"
proof -
  have "Option.bind demo_dir (\<lambda>files. map_of files (g_name demo_mig)) = Some [65, 59]"
    by (simp add: demo_mig_def demo_dir_def)
  moreover have "load_migration (e_sha256 demo_engine) (g_name demo_mig) [65, 59] = Inr demo_mig"
    by (simp add: demo_engine_def demo_name load_migration_def demo_content
      Let_def NO_TRANSACTION_DIRECTIVE_def FOREIGN_KEYS_OFF_DIRECTIVE_def to_text_def ustrip_def
      strip_with_def uspace_def code_def demo_mig_def)
  ultimately show ?thesis
    by (simp add: cmd_repair_def demo_path demo_engine_simps make_tracker_def wp_rules ensure_table_def
        create_table_def found_columns_def check_columns_def update_checksum_def usable_def drifted_def
        demo_session_simps say_def bind_act_def out_def ret_def)
qed

theorem repair_restamps_witness:
  "CHR ''/'' \<notin> set (g_name demo_mig)
   \<and> (\<exists>st\<in>set (compute_states [demo_mig] (table_rows ''migrations''
        (s_db (snd (cmd_repair demo_engine demo_dir ''migrations'' (g_name demo_mig) drifted))))).
        m_name st = g_name demo_mig \<and> m_state st = APPLIED)"
proof -
  let ?c = "cmd_repair demo_engine demo_dir ''migrations'' (g_name demo_mig) drifted"
  have run: "?c = (Inr 0, snd ?c)" using demo_repair by (simp add: wp_def case_prod_beta prod_eq_iff)
  have u: "usable (d_tables (s_db drifted) ''migrations'')"
    "distinct (map t_name (rows_of (d_tables (s_db drifted) ''migrations'')))"
    by (simp_all add: drifted_def usable_def)
  have ok: "dict_ok [(''README'', [65 :: nat]), (''2026-03-09-070500-add-users.sql'', [65, 59])]" by simp
  from repair_restamps [OF run [unfolded demo_dir_def] u ok demo_discover [unfolded demo_dir_def] demo_path(2)]
  show ?thesis unfolding demo_dir_def by blast
qed

end
