(* ===== verification/Mig_Service.thy ===== *)
theory Mig_Service
  imports Config Mig_Again
begin

text \<open>
  The migrations service, \<open>migrations/_service.py\<close>: from the configuration to the targets, from
  the arguments to the selected targets, and the run over them with its exit code. A path is its
  text; reading directories, connecting, the host name and \<open>os.path.realpath(str(v))\<close> are
  parameters. The databases are kept by the identity of the physical database.
\<close>

section \<open>Targets\<close>

record target =
  tg_name :: string
  tg_db :: string
  tg_directory :: string
  tg_table :: string

datatype serror = SMigration | SConfig cerror | SRuntime

definition is_absolute :: "string \<Rightarrow> bool" where
  "is_absolute p \<longleftrightarrow> p \<noteq> [] \<and> hd p = CHR ''/''"

text \<open>\<open>d.get(k) or default\<close> where the value has to be text.\<close>

definition text_or :: "config \<Rightarrow> string \<Rightarrow> string \<Rightarrow> serror + string" where
  "text_or d k v = (case get_or d k (CStr v) of CStr s \<Rightarrow> Inr s | _ \<Rightarrow> Inl (SConfig AttributeError))"

definition resolve_directory :: "config \<Rightarrow> config \<Rightarrow> serror + string" where
  "resolve_directory entry config =
     (case text_or entry ''dir'' ''data/migrations'' of
        Inl e \<Rightarrow> Inl e
      | Inr directory \<Rightarrow>
          if is_absolute directory then Inr directory
          else case cget config ''current_path'' of
                 CNone \<Rightarrow> Inl SMigration
               | CStr p \<Rightarrow> Inr (p @ ''/'' @ directory)
               | _ \<Rightarrow> Inl (SConfig AttributeError))"

type_synonym identity = "cv \<times> cv \<times> cv"

definition database_identity :: "(cv \<Rightarrow> string) \<Rightarrow> config \<Rightarrow> cerror + identity" where
  "database_identity realpath db =
     (case db_driver db of
        Inl e \<Rightarrow> Inl e
      | Inr d \<Rightarrow>
          if d = SQLITE then Inr (CStr SQLITE, CNone, CStr (realpath (cget db ''database'')))
          else Inr (cget db ''hostname'', get_or db ''port'' (CInt 5432), cget db ''database''))"

definition identity_of :: "(cv \<Rightarrow> string) \<Rightarrow> config \<Rightarrow> string \<Rightarrow> cerror + identity" where
  "identity_of realpath dbs name =
     (case map_of dbs name of
        None \<Rightarrow> Inl KeyError
      | Some CNone \<Rightarrow> database_identity realpath []
      | Some v \<Rightarrow> (case as_dict v of Inl e \<Rightarrow> Inl e | Inr db \<Rightarrow> database_identity realpath db))"

fun reject_shared_tracking_tables ::
  "(cv \<Rightarrow> string) \<Rightarrow> config \<Rightarrow> target list \<Rightarrow> (identity \<times> string) list \<Rightarrow> serror + unit" where
  "reject_shared_tracking_tables realpath dbs [] seen = Inr ()"
| "reject_shared_tracking_tables realpath dbs (t # ts) seen =
     (case identity_of realpath dbs (tg_db t) of
        Inl e \<Rightarrow> Inl (SConfig e)
      | Inr i \<Rightarrow>
          if (i, tg_table t) \<in> set seen then Inl SMigration
          else reject_shared_tracking_tables realpath dbs ts ((i, tg_table t) # seen))"

definition resolve_entry :: "config \<Rightarrow> config \<Rightarrow> string \<Rightarrow> cv \<Rightarrow> serror + target" where
  "resolve_entry config dbs name raw =
     (case as_dict (if truthy raw then raw else CDict []) of
        Inl e \<Rightarrow> Inl (SConfig e)
      | Inr entry \<Rightarrow>
          (case get_or entry ''db'' (CStr name) of
             CStr db \<Rightarrow>
               if db \<notin> fst ` set dbs then Inl SMigration
               else (case resolve_directory entry config of
                       Inl e \<Rightarrow> Inl e
                     | Inr directory \<Rightarrow>
                         (case text_or entry ''table'' ''migrations'' of
                            Inl e \<Rightarrow> Inl e
                          | Inr table \<Rightarrow> Inr \<lparr>tg_name = name, tg_db = db, tg_directory = directory, tg_table = table\<rparr>))
           | _ \<Rightarrow> Inl SMigration))"

fun resolve_entries :: "config \<Rightarrow> config \<Rightarrow> (string \<times> cv) list \<Rightarrow> serror + target list" where
  "resolve_entries config dbs [] = Inr []"
| "resolve_entries config dbs ((name, raw) # es) =
     (case resolve_entry config dbs name raw of
        Inl e \<Rightarrow> Inl e
      | Inr t \<Rightarrow> (case resolve_entries config dbs es of Inl e \<Rightarrow> Inl e | Inr ts \<Rightarrow> Inr (t # ts)))"

text \<open>The mapping from target names is the list of the targets, which carry their names.\<close>

definition resolve_targets :: "(cv \<Rightarrow> string) \<Rightarrow> config \<Rightarrow> serror + target list" where
  "resolve_targets realpath config =
     (case section_of config ''migrations'' of
        Inl e \<Rightarrow> Inl (SConfig e)
      | Inr settings \<Rightarrow>
          if ''targets'' \<in> fst ` set settings then
            (if ''dir'' \<in> fst ` set settings \<or> ''table'' \<in> fst ` set settings then Inl SMigration
             else if \<not> truthy (cget settings ''targets'') then Inl SMigration
             else case (as_dict (cget settings ''targets''), section_of config ''db'') of
                    (Inr raw, Inr dbs) \<Rightarrow>
                      (case resolve_entries config dbs raw of
                         Inl e \<Rightarrow> Inl e
                       | Inr ts \<Rightarrow>
                           (case reject_shared_tracking_tables realpath dbs ts [] of
                              Inl e \<Rightarrow> Inl e
                            | Inr _ \<Rightarrow> Inr ts))
                  | (Inl e, _) \<Rightarrow> Inl (SConfig e)
                  | (_, Inl e) \<Rightarrow> Inl (SConfig e))
          else
            (case (resolve_directory settings config, text_or settings ''table'' ''migrations'') of
               (Inr directory, Inr table) \<Rightarrow>
                 Inr [\<lparr>tg_name = ''main'', tg_db = ''main'', tg_directory = directory, tg_table = table\<rparr>]
             | (Inl e, _) \<Rightarrow> Inl e
             | (_, Inl e) \<Rightarrow> Inl e))"

text \<open>The selection: nothing means that the process exits with 1.\<close>

definition select_targets :: "string \<Rightarrow> string option \<Rightarrow> target list \<Rightarrow> target list option" where
  "select_targets step requested ts =
     (case requested of
        Some r \<Rightarrow> (case find (\<lambda>t. tg_name t = r) ts of None \<Rightarrow> None | Some t \<Rightarrow> Some [t])
      | None \<Rightarrow> if step \<in> {''status'', ''apply''} \<or> length ts = 1 then Some ts else None)"

text \<open>Lines of a run over several targets carry the target's name, except blank ones.\<close>

definition out_for :: "string \<Rightarrow> bool \<Rightarrow> mline \<Rightarrow> string option \<times> mline" where
  "out_for name multi l = (if multi \<and> l \<noteq> BlankLine then Some name else None, l)"

text \<open>The arguments of a Postgres connection, which is always in autocommit mode.\<close>

definition connect_kwargs :: "config \<Rightarrow> cerror + config" where
  "connect_kwargs db =
     (case db_driver db of
        Inl e \<Rightarrow> Inl e
      | Inr d \<Rightarrow>
          if d \<noteq> PGSQL then Inl ValueError
          else (case (map_of db ''hostname'', map_of db ''username'', map_of db ''password'', map_of db ''database'') of
                  (Some host, Some user, Some password, Some name) \<Rightarrow>
                    Inr [(''host'', host), (''port'', get_or db ''port'' (CInt 5432)), (''user'', user),
                         (''password'', password), (''dbname'', name),
                         (''sslmode'', get_or db ''ssl'' (CStr ''prefer'')), (''autocommit'', CBool True)]
                | _ \<Rightarrow> Inl KeyError))"

section \<open>The run\<close>

record margs =
  a_step :: string
  a_target :: "string option"
  a_name :: string
  a_check :: bool
  a_dry_run :: bool
  a_to :: "string option"
  a_yes :: bool

record 'd mworld =
  mw_dbs :: "identity \<Rightarrow> 'd mdb"
  mw_out :: "(string option \<times> mline) list"

text \<open>
  What the run is given: how to connect to the database of a configured name (nothing when that
  fails), the files, the operator's answers, the version and host, the moment.
\<close>

record 'd menv =
  me_connect :: "identity \<Rightarrow> 'd engine option"
  me_files :: "string \<Rightarrow> directory"
  me_prompt :: "string \<Rightarrow> string"
  me_applied_by :: string
  me_now :: datetime
  me_realpath :: "cv \<Rightarrow> string"

definition run_step :: "'d menv \<Rightarrow> margs \<Rightarrow> 'd engine \<Rightarrow> target \<Rightarrow> ('d, int) act" where
  "run_step env a e t =
     (let dir = me_files env (tg_directory t)
      in if a_step a = ''status'' then cmd_status e dir (tg_table t) (a_check a)
         else if a_step a = ''apply'' then cmd_apply e dir (tg_table t) (a_dry_run a) (a_to a) (me_applied_by env)
         else if a_step a = ''baseline'' then
           cmd_baseline e dir (tg_table t) (a_to a) (a_yes a) (me_applied_by env) (me_prompt env)
         else if a_step a = ''repair'' then cmd_repair e dir (tg_table t) (a_name a)
         else say (ErrorLine AssertionError) 1)"

text \<open>One target: connect, run, and what an exception of either does (\<open>None\<close>).\<close>

definition run_target ::
  "'d menv \<Rightarrow> config \<Rightarrow> margs \<Rightarrow> bool \<Rightarrow> target \<Rightarrow> 'd mworld \<Rightarrow> int option \<times> 'd mworld" where
  "run_target env dbs a multi t w =
     (case identity_of (me_realpath env) dbs (tg_db t) of
        Inl _ \<Rightarrow> (None, w)
      | Inr i \<Rightarrow>
          (case me_connect env i of
             None \<Rightarrow> (None, w)
           | Some e \<Rightarrow>
               (let (r, s) = run_step env a e t
                  \<lparr>s_db = mw_dbs w i, s_fk = True, s_locked = False, s_step = 0, s_out = []\<rparr>
                in (case r of Inl _ \<Rightarrow> None | Inr c \<Rightarrow> Some c,
                    w\<lparr>mw_dbs := (mw_dbs w)(i := s_db s),
                      mw_out := mw_out w @ map (out_for (tg_name t) multi) (s_out s)\<rparr>))))"

fun run_targets ::
  "'d menv \<Rightarrow> config \<Rightarrow> margs \<Rightarrow> bool \<Rightarrow> target list \<Rightarrow> int \<Rightarrow> 'd mworld \<Rightarrow> int option \<times> 'd mworld" where
  "run_targets env dbs a multi [] c w = (Some c, w)"
| "run_targets env dbs a multi (t # ts) c w =
     (case run_target env dbs a multi t w of
        (None, w1) \<Rightarrow> (None, w1)
      | (Some tc, w1) \<Rightarrow>
          if a_step a = ''apply'' then (if tc \<noteq> 0 then (Some tc, w1) else run_targets env dbs a multi ts tc w1)
          else if a_step a = ''status'' then run_targets env dbs a multi ts (if c \<noteq> 0 then c else tc) w1
          else run_targets env dbs a multi ts tc w1)"

text \<open>
  \<open>init_service\<close>: the exit code, the databases and, for \<open>new\<close>, the file that was made. Every
  exception becomes exit code 1.
\<close>

definition init_service ::
  "'d menv \<Rightarrow> config \<Rightarrow> margs \<Rightarrow> 'd mworld \<Rightarrow> int \<times> 'd mworld \<times> (string \<times> directory) option" where
  "init_service env config a w =
     (case resolve_targets (me_realpath env) config of
        Inl _ \<Rightarrow> (1, w, None)
      | Inr ts \<Rightarrow>
          (case select_targets (a_step a) (a_target a) ts of
             None \<Rightarrow> (1, w, None)
           | Some [] \<Rightarrow> (1, w, None)
           | Some (t # sel) \<Rightarrow>
               if a_step a = ''new'' then
                 (let (c, l, dir) = cmd_new (me_files env (tg_directory t)) (a_name a) (me_now env)
                  in (c, w\<lparr>mw_out := mw_out w @ [out_for (tg_name t) (sel \<noteq> []) l]\<rparr>, Some (tg_directory t, dir)))
               else
                 (case section_of config ''db'' of
                    Inl _ \<Rightarrow> (1, w, None)
                  | Inr dbs \<Rightarrow>
                      (case run_targets env dbs a (sel \<noteq> []) (t # sel) 0 w of
                         (None, w1) \<Rightarrow> (1, w1, None)
                       | (Some c, w1) \<Rightarrow> (c, w1, None)))))"

section \<open>Targets do not share a tracking table\<close>

definition tracking_place :: "(cv \<Rightarrow> string) \<Rightarrow> config \<Rightarrow> target \<Rightarrow> (cerror + identity) \<times> string" where
  "tracking_place realpath dbs t = (identity_of realpath dbs (tg_db t), tg_table t)"

lemma reject_shared_ok:
  "reject_shared_tracking_tables realpath dbs ts seen = Inr () \<Longrightarrow>
     distinct (map (tracking_place realpath dbs) ts)
     \<and> (\<forall>t\<in>set ts. \<exists>i. identity_of realpath dbs (tg_db t) = Inr i \<and> (i, tg_table t) \<notin> set seen)"
proof (induction ts arbitrary: seen)
  case (Cons t ts)
  then obtain i where i: "identity_of realpath dbs (tg_db t) = Inr i" "(i, tg_table t) \<notin> set seen"
    and r: "reject_shared_tracking_tables realpath dbs ts ((i, tg_table t) # seen) = Inr ()"
    by (auto split: sum.splits if_splits)
  from Cons.IH [OF r] have ih: "distinct (map (tracking_place realpath dbs) ts)"
    "\<And>u. u \<in> set ts \<Longrightarrow> \<exists>j. identity_of realpath dbs (tg_db u) = Inr j \<and> (j, tg_table u) \<noteq> (i, tg_table t)
      \<and> (j, tg_table u) \<notin> set seen" by auto
  have "tracking_place realpath dbs t \<notin> tracking_place realpath dbs ` set ts"
  proof
    assume "tracking_place realpath dbs t \<in> tracking_place realpath dbs ` set ts"
    then obtain u where "u \<in> set ts" "tracking_place realpath dbs u = tracking_place realpath dbs t" by auto
    with ih(2) [of u] i(1) show False by (auto simp: tracking_place_def)
  qed
  moreover have "\<exists>j. identity_of realpath dbs (tg_db u) = Inr j \<and> (j, tg_table u) \<notin> set seen"
    if "u \<in> set (t # ts)" for u using that ih(2) [of u] i by (cases "u = t") (blast, metis set_ConsD)
  ultimately show ?case using ih(1) by (simp del: split_paired_Ex)
qed simp

lemma resolve_entries_names:
  "resolve_entries config dbs es = Inr ts \<Longrightarrow> map tg_name ts = map fst es \<and> (\<forall>t\<in>set ts. tg_db t \<in> fst ` set dbs)"
proof (induction es arbitrary: ts)
  case (Cons e es)
  obtain name raw where e: "e = (name, raw)" by (rule prod.exhaust)
  from Cons.prems obtain t us where t: "resolve_entry config dbs name raw = Inr t"
    "resolve_entries config dbs es = Inr us" "ts = t # us" by (auto simp: e split: sum.splits)
  from t(1) have "tg_name t = name" "tg_db t \<in> fst ` set dbs"
    by (auto simp: resolve_entry_def split: sum.splits cv.splits if_splits intro: rev_image_eqI)
  with Cons.IH [OF t(2)] t(3) e show ?case by auto
qed simp

text \<open>
  Targets that were resolved are safe to run: there is at least one; under \<open>targets\<close> they are
  the configured names, each on a configured database, and no two of them keep their rows in the
  same table of the same physical database, whatever the databases are called in the
  configuration.
\<close>

theorem resolved_targets_apart:
  assumes "resolve_targets realpath config = Inr ts" "section_of config ''migrations'' = Inr settings"
    "section_of config ''db'' = Inr dbs" "map_of settings ''targets'' = Some (CDict raw)"
  shows "ts \<noteq> [] \<and> distinct (map (tracking_place realpath dbs) ts)
    \<and> map tg_name ts = map fst raw \<and> (\<forall>t\<in>set ts. tg_db t \<in> fst ` set dbs)"
proof -
  have t: "''targets'' \<in> fst ` set settings" "cget settings ''targets'' = CDict raw"
    using assms(4) by (simp_all add: map_of_mem cget_def)
  have es: "raw \<noteq> []" "resolve_entries config dbs raw = Inr ts"
    "reject_shared_tracking_tables realpath dbs ts [] = Inr ()"
    using assms(1,2,3) t
    by (auto simp: resolve_targets_def as_dict_def split: if_splits sum.splits)
  have "map tg_name ts = map fst raw" "\<forall>t\<in>set ts. tg_db t \<in> fst ` set dbs"
    using resolve_entries_names [OF es(2)] by auto
  moreover have "ts \<noteq> []" using calculation(1) es(1) by auto
  moreover have "distinct (map (tracking_place realpath dbs) ts)" using reject_shared_ok [OF es(3)] by blast
  ultimately show ?thesis by blast
qed

section \<open>The exit code\<close>

text \<open>The world before target \<open>k\<close> of a run that gets there, and what that target reports.\<close>

definition world_at :: "'d menv \<Rightarrow> config \<Rightarrow> margs \<Rightarrow> bool \<Rightarrow> target list \<Rightarrow> nat \<Rightarrow> 'd mworld \<Rightarrow> 'd mworld" where
  "world_at env dbs a multi ts k w = fold (\<lambda>t w. snd (run_target env dbs a multi t w)) (take k ts) w"

definition code_at :: "'d menv \<Rightarrow> config \<Rightarrow> margs \<Rightarrow> bool \<Rightarrow> target list \<Rightarrow> nat \<Rightarrow> 'd mworld \<Rightarrow> int option" where
  "code_at env dbs a multi ts k w = fst (run_target env dbs a multi (ts ! k) (world_at env dbs a multi ts k w))"

lemma world_at_simps [simp]:
  "world_at env dbs a multi ts 0 w = w"
  "world_at env dbs a multi (t # ts) (Suc k) w = world_at env dbs a multi ts k (snd (run_target env dbs a multi t w))"
  "code_at env dbs a multi (t # ts) 0 w = fst (run_target env dbs a multi t w)"
  "code_at env dbs a multi (t # ts) (Suc k) w = code_at env dbs a multi ts k (snd (run_target env dbs a multi t w))"
  by (simp_all add: world_at_def code_at_def)

lemma all_Suc: "(\<forall>i<Suc n. P i) \<longleftrightarrow> P 0 \<and> (\<forall>i<n. P (Suc i))"
  by (auto simp: less_Suc_eq_0_disj)

lemma run_targets_apply:
  assumes "a_step a = ''apply''"
  shows "(fst (run_targets env dbs a multi ts 0 w) = Some 0 \<longleftrightarrow> (\<forall>i<length ts. code_at env dbs a multi ts i w = Some 0))
    \<and> (\<exists>k\<le>length ts. snd (run_targets env dbs a multi ts 0 w) = world_at env dbs a multi ts k w
         \<and> (\<forall>i. Suc i < k \<longrightarrow> code_at env dbs a multi ts i w = Some 0))"
proof (induction ts arbitrary: w)
  case (Cons t ts)
  obtain r w1 where r: "run_target env dbs a multi t w = (r, w1)" by (rule prod.exhaust)
  show ?case
  proof (cases "r = Some 0")
    case True
    from Cons.IH [of w1] obtain k where k: "k \<le> length ts"
      "snd (run_targets env dbs a multi ts 0 w1) = world_at env dbs a multi ts k w1"
      "\<forall>i. Suc i < k \<longrightarrow> code_at env dbs a multi ts i w1 = Some 0" by blast
    have "code_at env dbs a multi (t # ts) i w = Some 0" if "Suc i < Suc k" for i
      using that k(3) True r by (cases i) auto
    with k(1,2) have "\<exists>k\<le>length (t # ts). snd (run_targets env dbs a multi (t # ts) 0 w) = world_at env dbs a multi (t # ts) k w
         \<and> (\<forall>i. Suc i < k \<longrightarrow> code_at env dbs a multi (t # ts) i w = Some 0)"
      by (intro exI [of _ "Suc k"]) (simp add: True r assms)
    with Cons.IH [of w1] show ?thesis by (simp add: True r assms all_Suc)
  next
    case False
    then have "snd (run_targets env dbs a multi (t # ts) 0 w) = w1" "fst (run_targets env dbs a multi (t # ts) 0 w) \<noteq> Some 0"
      using r assms by (auto split: option.split)
    then show ?thesis using False r
      by (auto simp: all_Suc intro!: exI [of _ 1] simp del: run_targets.simps)
  qed
qed auto

lemma run_targets_status:
  assumes "a_step a = ''status''"
  shows "fst (run_targets env dbs a multi ts c w) = Some 0 \<longleftrightarrow>
    c = 0 \<and> (\<forall>i<length ts. code_at env dbs a multi ts i w = Some 0)"
proof (induction ts arbitrary: c w)
  case (Cons t ts)
  obtain r w1 where r: "run_target env dbs a multi t w = (r, w1)" by (rule prod.exhaust)
  then show ?case using Cons.IH [of _ w1] assms
    by (cases r) (auto simp: all_Suc)
qed auto

text \<open>
  C38. The exit code never reports a success that did not happen: a status or apply over the
  selected targets exits with 0 exactly when every one of them was run and reported 0, an
  exception counting as a failure; apply stops at the first target that does not, so the targets
  after it are not touched; and a configuration or a selection that cannot be resolved exits with
  1 and leaves every database alone.
\<close>

theorem service_exit_code:
  "(isl (resolve_targets (me_realpath env) config) \<longrightarrow> init_service env config a w = (1, w, None))
   \<and> (\<forall>ts sel dbs. resolve_targets (me_realpath env) config = Inr ts \<and> section_of config ''db'' = Inr dbs
        \<and> select_targets (a_step a) (a_target a) ts = Some sel \<and> sel \<noteq> [] \<longrightarrow>
       (a_step a \<in> {''apply'', ''status''} \<longrightarrow>
          (fst (init_service env config a w) = 0 \<longleftrightarrow>
             (\<forall>i<length sel. code_at env dbs a (length sel > 1) sel i w = Some 0)))
       \<and> (a_step a = ''apply'' \<longrightarrow>
          (\<exists>k\<le>length sel. fst (snd (init_service env config a w)) = world_at env dbs a (length sel > 1) sel k w
             \<and> (\<forall>i. Suc i < k \<longrightarrow> code_at env dbs a (length sel > 1) sel i w = Some 0))))"
proof (intro conjI allI impI; (elim conjE)?)
  show "init_service env config a w = (1, w, None)" if "isl (resolve_targets (me_realpath env) config)"
    using that by (auto simp: init_service_def split: sum.splits)
next
  fix ts sel dbs
  assume ts: "resolve_targets (me_realpath env) config = Inr ts" "section_of config ''db'' = Inr dbs"
    and sel: "select_targets (a_step a) (a_target a) ts = Some sel" "sel \<noteq> []"
  obtain t us where s: "sel = t # us" using sel(2) by (cases sel) auto
  have run: "init_service env config a w =
      (case run_targets env dbs a (length sel > 1) sel 0 w of (None, w1) \<Rightarrow> (1, w1, None) | (Some c, w1) \<Rightarrow> (c, w1, None))"
    if "a_step a \<noteq> ''new''"
    using that ts sel by (simp add: init_service_def s del: run_targets.simps)
  have fst: "fst (init_service env config a w) = 0 \<longleftrightarrow> fst (run_targets env dbs a (length sel > 1) sel 0 w) = Some 0"
    if "a_step a \<noteq> ''new''" unfolding run [OF that] by (auto split: prod.splits option.splits)
  show "fst (init_service env config a w) = 0 \<longleftrightarrow> (\<forall>i<length sel. code_at env dbs a (length sel > 1) sel i w = Some 0)"
    if step: "a_step a \<in> {''apply'', ''status''}"
  proof (cases "a_step a = ''apply''")
    case True
    then have "a_step a \<noteq> ''new''" by simp
    from fst [OF this] run_targets_apply [OF True, of env dbs "length sel > 1" sel w] show ?thesis by argo
  next
    case False
    then have "a_step a = ''status''" using step by simp
    then show ?thesis using fst run_targets_status [of a env dbs "length sel > 1" sel 0 w] by simp
  qed
  show "\<exists>k\<le>length sel. fst (snd (init_service env config a w)) = world_at env dbs a (length sel > 1) sel k w
      \<and> (\<forall>i. Suc i < k \<longrightarrow> code_at env dbs a (length sel > 1) sel i w = Some 0)" if "a_step a = ''apply''"
  proof -
    have "fst (snd (init_service env config a w)) = snd (run_targets env dbs a (length sel > 1) sel 0 w)"
      using run that by (auto split: prod.splits option.splits)
    then show ?thesis using run_targets_apply [OF that, of env dbs "length sel > 1" sel w] by simp
  qed
qed

section \<open>An example\<close>

definition demo_config :: config where
  "demo_config = [(''current_path'', CStr ''/srv''),
     (''db'', CDict [(''main'', CDict [(''hostname'', CStr ''h'')]), (''gis'', CDict [(''hostname'', CStr ''h'')])]),
     (''migrations'', CDict [(''targets'', CDict [(''main'', CNone),
        (''gis'', CDict [(''table'', CStr ''gis_migrations'')])])])]"

definition demo_targets :: "target list" where
  "demo_targets = [\<lparr>tg_name = ''main'', tg_db = ''main'', tg_directory = ''/srv/data/migrations'', tg_table = ''migrations''\<rparr>,
     \<lparr>tg_name = ''gis'', tg_db = ''gis'', tg_directory = ''/srv/data/migrations'', tg_table = ''gis_migrations''\<rparr>]"

lemma demo_resolved: "resolve_targets (\<lambda>_. []) demo_config = Inr demo_targets"
  by (simp add: resolve_targets_def demo_config_def section_of_def get_or_def cget_def as_dict_def resolve_entry_def
      resolve_directory_def text_or_def is_absolute_def identity_of_def database_identity_def db_driver_def
      PGSQL_def SQLITE_def demo_targets_def)

theorem resolved_targets_apart_witness:
  "distinct (map (tracking_place (\<lambda>_. []) [(''main'', CDict [(''hostname'', CStr ''h'')]), (''gis'', CDict [(''hostname'', CStr ''h'')])])
     demo_targets)"
  using resolved_targets_apart [OF demo_resolved, where raw = "[(''main'', CNone), (''gis'', CDict [(''table'', CStr ''gis_migrations'')])]"]
  by (simp add: demo_config_def section_of_def get_or_def cget_def as_dict_def)

definition demo_args :: margs where
  "demo_args = \<lparr>a_step = ''apply'', a_target = None, a_name = [], a_check = False, a_dry_run = False, a_to = None, a_yes = False\<rparr>"

text \<open>A server that cannot be reached.\<close>

definition demo_env :: "nat menv" where
  "demo_env = \<lparr>me_connect = (\<lambda>_. None), me_files = (\<lambda>_. demo_dir), me_prompt = id, me_applied_by = ''me'',
     me_now = demo_time, me_realpath = (\<lambda>_. [])\<rparr>"

definition demo_world :: "nat mworld" where
  "demo_world = \<lparr>mw_dbs = (\<lambda>_. demo_db), mw_out = []\<rparr>"

theorem service_exit_code_witness:
  "fst (init_service demo_env demo_config demo_args demo_world) \<noteq> 0
   \<and> init_service demo_env [] demo_args demo_world = (1, demo_world, None)"
proof -
  let ?dbs = "[(''main'', CDict [(''hostname'', CStr ''h'')]), (''gis'', CDict [(''hostname'', CStr ''h'')])]"
  have r: "resolve_targets (me_realpath demo_env) demo_config = Inr demo_targets"
    using demo_resolved by (simp add: demo_env_def)
  have d: "section_of demo_config ''db'' = Inr ?dbs"
    by (simp add: demo_config_def section_of_def get_or_def cget_def as_dict_def)
  have s: "select_targets (a_step demo_args) (a_target demo_args) demo_targets = Some demo_targets"
    by (simp add: select_targets_def demo_args_def)
  have c: "code_at demo_env ?dbs demo_args True demo_targets 0 demo_world \<noteq> Some 0"
    by (simp add: code_at_def world_at_def run_target_def demo_targets_def demo_env_def split: sum.split)
  have l: "length demo_targets = 2" by (simp add: demo_targets_def)
  have "fst (init_service demo_env demo_config demo_args demo_world) \<noteq> 0"
    using service_exit_code [of demo_env demo_config demo_args demo_world] r d s c l
    by (auto simp: demo_args_def)
  moreover have "isl (resolve_targets (me_realpath demo_env) [])"
    by (simp add: resolve_targets_def section_of_def get_or_def cget_def as_dict_def resolve_directory_def text_or_def is_absolute_def)
  ultimately show ?thesis using service_exit_code [of demo_env "[]" demo_args demo_world] by blast
qed

end
