(* ===== verification/Queue_Cli.thy ===== *)
theory Queue_Cli
  imports Queue_Worker Mig_Service
begin

text \<open>
  The queue's commands, \<open>queue/commands.py\<close>, and its service, \<open>queue/_service.py\<close>. The commands
  work on any driver, here the record of the operations they call. Printed lines are left out,
  except that installing says which file it wrote.
\<close>

section \<open>Text\<close>

text \<open>\<open>s.replace(old, new)\<close> for a text \<open>old\<close> that is not empty: matches from the left, not overlapping.\<close>

function replace_all :: "string \<Rightarrow> string \<Rightarrow> string \<Rightarrow> string" where
  "replace_all old new [] = []"
| "replace_all old new (c # s) =
     (if old \<noteq> [] \<and> take (length old) (c # s) = old
      then new @ replace_all old new (drop (length old) (c # s))
      else c # replace_all old new s)"
  by pat_completeness auto
termination by (relation "measure (\<lambda>(old, new, s). length s)") auto

definition is_date :: "string \<Rightarrow> bool" where
  "is_date s \<longleftrightarrow> length s = 10
     \<and> (\<forall>i<10. if i = 4 \<or> i = 7 then s ! i = CHR ''-'' else is_digit (s ! i))"

definition is_clock :: "string \<Rightarrow> bool" where
  "is_clock s \<longleftrightarrow> length s = 8 \<and> (\<forall>i<8. if i = 2 \<or> i = 5 then s ! i = CHR '':'' else is_digit (s ! i))"

text \<open>\<open>_BEFORE_RE\<close>, where \<open>$\<close> also matches before a final newline.\<close>

definition before_ok :: "string \<Rightarrow> bool" where
  "before_ok s \<longleftrightarrow> (let t = chop_final_newline s
     in is_date t \<or> (length t = 19 \<and> is_date (take 10 t) \<and> t ! 10 = CHR '' '' \<and> is_clock (drop 11 t)))"

section \<open>Commands\<close>

text \<open>
  Installing: the exit code, the name of the new file, and the directory. \<open>template\<close> is what
  reading the shipped schema gives, and \<open>writable\<close> whether the file can be written.
\<close>

definition install_schema :: "string \<Rightarrow> string \<Rightarrow> string \<Rightarrow> string" where
  "install_schema table failed_table schema =
     (let s1 = (if failed_table \<noteq> ''queue_failed_jobs'' then replace_all ''queue_failed_jobs'' failed_table schema else schema)
      in if table \<noteq> ''queue_jobs'' then replace_all ''queue_jobs'' table s1 else s1)"

definition cmd_install ::
  "string option \<Rightarrow> bool \<Rightarrow> directory \<Rightarrow> string \<Rightarrow> string \<Rightarrow> datetime \<Rightarrow> int \<times> string option \<times> directory" where
  "cmd_install template writable dir table failed_table now =
     (if isl (assert_table_name table) \<or> isl (assert_table_name failed_table) then (2, None, dir)
      else case dir of
             None \<Rightarrow> (2, None, dir)
           | Some files \<Rightarrow>
               (case template of
                  None \<Rightarrow> (1, None, dir)
                | Some schema \<Rightarrow>
                    (case new_filename ''create queue tables'' now of
                       Inl _ \<Rightarrow> (2, None, dir)
                     | Inr name \<Rightarrow>
                         if name \<in> fst ` set files then (1, None, dir)
                         else if \<not> writable then (1, None, dir)
                         else (0, Some name,
                               Some (files @ [(name, utf8 (to_text (install_schema table failed_table schema)))])))))"

record 'q queue_api =
  q_driver :: "'q driver"
  q_stats :: "'q \<Rightarrow> (qerror + stat_row list) \<times> 'q"
  q_failed_count :: "'q \<Rightarrow> (qerror + nat) \<times> 'q"
  q_failed_rows :: "int \<Rightarrow> 'q \<Rightarrow> (qerror + frow list) \<times> 'q"
  q_retry_failed :: "int option \<Rightarrow> int \<Rightarrow> 'q \<Rightarrow> (qerror + nat) \<times> 'q"
  q_forget_failed :: "int option \<Rightarrow> string option \<Rightarrow> 'q \<Rightarrow> (qerror + nat) \<times> 'q"

text \<open>\<open>except (psycopg.Error, QueueError)\<close>: reported with exit code 1; anything else escapes.\<close>

definition reported :: "qerror \<Rightarrow> qerror + int" where
  "reported e = (if psycopg_error e \<or> e = QueueError then Inr 1 else Inl e)"

definition cmd_queue_status :: "'q queue_api \<Rightarrow> 'q \<Rightarrow> (qerror + int) \<times> 'q" where
  "cmd_queue_status api q =
     (case q_stats api q of
        (Inl e, q1) \<Rightarrow> (reported e, q1)
      | (Inr rows, q1) \<Rightarrow>
          (case q_failed_count api q1 of (Inl e, q2) \<Rightarrow> (reported e, q2) | (Inr n, q2) \<Rightarrow> (Inr 0, q2)))"

definition cmd_queue_failed :: "'q queue_api \<Rightarrow> int \<Rightarrow> 'q \<Rightarrow> (qerror + int) \<times> 'q" where
  "cmd_queue_failed api limit q =
     (if limit < 1 then (Inr 2, q)
      else case q_failed_rows api limit q of (Inl e, q1) \<Rightarrow> (reported e, q1) | (Inr rows, q1) \<Rightarrow> (Inr 0, q1))"

definition cmd_queue_retry :: "'q queue_api \<Rightarrow> int option \<Rightarrow> bool \<Rightarrow> int \<Rightarrow> 'q \<Rightarrow> (qerror + int) \<times> 'q" where
  "cmd_queue_retry api job_id all_jobs max_attempts q =
     (if job_id = None \<and> \<not> all_jobs then (Inr 2, q)
      else case q_retry_failed api job_id max_attempts q of
             (Inl e, q1) \<Rightarrow> (reported e, q1)
           | (Inr n, q1) \<Rightarrow> (Inr (if n = 0 then (if job_id = None then 0 else 1) else 0), q1))"

definition cmd_queue_forget :: "'q queue_api \<Rightarrow> int option \<Rightarrow> bool \<Rightarrow> string option \<Rightarrow> 'q \<Rightarrow> (qerror + int) \<times> 'q" where
  "cmd_queue_forget api job_id all_jobs before q =
     (if job_id = None \<and> \<not> all_jobs \<and> before = None then (Inr 2, q)
      else if (case before of None \<Rightarrow> False | Some b \<Rightarrow> \<not> before_ok b) then (Inr 2, q)
      else case q_forget_failed api job_id before q of (Inl e, q1) \<Rightarrow> (reported e, q1) | (Inr n, q1) \<Rightarrow> (Inr 0, q1))"

definition parse_queues :: "string option \<Rightarrow> string \<Rightarrow> string list" where
  "parse_queues raw dflt =
     (let text = (case raw of None \<Rightarrow> dflt | Some r \<Rightarrow> if r = [] then dflt else r);
          names = filter (\<lambda>n. n \<noteq> []) (map strip (split_on (CHR '','') text))
      in if names = [] then [dflt] else names)"

section \<open>The service\<close>

definition DEFAULTS :: config where
  "DEFAULTS = [(''driver'', CStr ''database''), (''db'', CStr ''main''), (''table'', CStr ''queue_jobs''),
     (''failed_table'', CStr ''queue_failed_jobs''), (''redis'', CDict []), (''queue'', CStr ''default''),
     (''tries'', CInt 3), (''backoff'', CList [CInt 10, CInt 60, CInt 300]), (''timeout'', CInt 300),
     (''sleep'', CReal 1000000), (''handlers'', CDict [])]"

definition settings_of :: "config \<Rightarrow> cerror + config" where
  "settings_of config =
     (case section_of config ''queue'' of
        Inl e \<Rightarrow> Inl e
      | Inr q \<Rightarrow> Inr (fold (\<lambda>(k, v). AList.update k v) q DEFAULTS))"

record qargs =
  qa_step :: string
  qa_dir :: "string option"
  qa_limit :: int
  qa_id :: "int option"
  qa_all :: bool
  qa_before :: "string option"
  qa_queue :: "string option"
  qa_timeout :: "int option"
  qa_once :: bool
  qa_max_jobs :: int
  qa_max_time :: int
  qa_stop_when_empty :: bool

definition migrations_dir :: "(cv \<Rightarrow> string) \<Rightarrow> qargs \<Rightarrow> config \<Rightarrow> serror + string" where
  "migrations_dir realpath a config =
     (case qa_dir a of
        Some raw \<Rightarrow>
          if raw \<noteq> [] then
            (if is_absolute raw then Inr raw
             else (case get_or config ''current_path'' (CStr ''.'') of
                     CStr p \<Rightarrow> Inr (p @ ''/'' @ raw) | _ \<Rightarrow> Inl (SConfig AttributeError)))
          else (case resolve_targets realpath config of Inl e \<Rightarrow> Inl e | Inr [] \<Rightarrow> Inl SRuntime | Inr (t # _) \<Rightarrow> Inr (tg_directory t))
      | None \<Rightarrow> (case resolve_targets realpath config of Inl e \<Rightarrow> Inl e | Inr [] \<Rightarrow> Inl SRuntime | Inr (t # _) \<Rightarrow> Inr (tg_directory t)))"

text \<open>\<open>--once\<close> is a run with both limits set.\<close>

definition work_args :: "qargs \<Rightarrow> config \<Rightarrow> run_args" where
  "work_args a settings =
     \<lparr>a_queues = parse_queues (qa_queue a) (case cget settings ''queue'' of CStr s \<Rightarrow> s | _ \<Rightarrow> ''default''),
      a_timeout = (case qa_timeout a of Some n \<Rightarrow> n | None \<Rightarrow> (case cget settings ''timeout'' of CInt n \<Rightarrow> n | _ \<Rightarrow> 300)),
      a_max_jobs = (if qa_once a then 1 else qa_max_jobs a), a_max_time = qa_max_time a,
      a_stop_when_empty = (qa_stop_when_empty a \<or> qa_once a)\<rparr>"

definition backoff_of :: "cv \<Rightarrow> backoff_steps" where
  "backoff_of v =
     (case v of
        CInt n \<Rightarrow> FixedStep n
      | CList xs \<Rightarrow> Steps (map (\<lambda>x. case x of CInt n \<Rightarrow> n | _ \<Rightarrow> 0) xs)
      | _ \<Rightarrow> DefaultSteps)"

text \<open>
  The worker of the command \<open>work\<close>: \<open>w\<close> brings the handlers of the configuration, how they are
  imported and called, and the worker's name, cut at 64 characters.
\<close>

definition work ::
  "nat \<Rightarrow> (nat \<Rightarrow> turn) \<Rightarrow> ('h, 'q) worker \<Rightarrow> qargs \<Rightarrow> config \<Rightarrow> 'q queue_api \<Rightarrow> 'q
    \<Rightarrow> (run_end \<times> nat \<times> turn_log list \<times> 'q) option" where
  "work fuel turns w a settings api q =
     run fuel (w\<lparr>w_driver := q_driver api, w_backoff := backoff_of (cget settings ''backoff''), w_id := take 64 (w_id w)\<rparr>)
       (work_args a settings) turns q"

text \<open>How a dispatched command ends; \<open>None\<close> only while a worker still runs.\<close>

definition dispatch ::
  "nat \<Rightarrow> (nat \<Rightarrow> turn) \<Rightarrow> ('h, 'q) worker \<Rightarrow> qargs \<Rightarrow> config \<Rightarrow> 'q queue_api \<Rightarrow> 'q \<Rightarrow> (run_end \<times> 'q) option" where
  "dispatch fuel turns w a settings api q =
     (let ends = (\<lambda>(r, q1). Some (case r of Inl e \<Rightarrow> Escaped e | Inr c \<Rightarrow> Exit (nat c), q1))
      in if qa_step a = ''work'' then map_option (\<lambda>(r, n, log, q1). (r, q1)) (work fuel turns w a settings api q)
         else if qa_step a = ''status'' then ends (cmd_queue_status api q)
         else if qa_step a = ''failed'' then ends (cmd_queue_failed api (qa_limit a) q)
         else if qa_step a = ''retry'' then
           ends (cmd_queue_retry api (qa_id a) (qa_all a) (case cget settings ''tries'' of CInt n \<Rightarrow> n | _ \<Rightarrow> 3) q)
         else if qa_step a = ''forget'' then ends (cmd_queue_forget api (qa_id a) (qa_all a) (qa_before a) q)
         else Some (Exit 1, q))"

text \<open>The exit code of the process: an exception or an interruption is 1.\<close>

definition exit_of :: "run_end \<Rightarrow> nat" where
  "exit_of r = (case r of Exit c \<Rightarrow> c | Escaped _ \<Rightarrow> 1 | RunCancelled \<Rightarrow> 1)"

text \<open>
  \<open>init_service\<close>. \<open>connect\<close> opens the driver of a kind with its settings, or fails; the answer is
  the exit code, the state, and for \<open>install\<close> the directory that was written.
\<close>

definition queue_service ::
  "(bool \<Rightarrow> config \<Rightarrow> 'q queue_api option) \<Rightarrow> (string \<Rightarrow> directory) \<Rightarrow> (cv \<Rightarrow> string) \<Rightarrow> string option \<Rightarrow> bool
    \<Rightarrow> datetime \<Rightarrow> nat \<Rightarrow> (nat \<Rightarrow> turn) \<Rightarrow> ('h, 'q) worker \<Rightarrow> qargs \<Rightarrow> config \<Rightarrow> 'q
    \<Rightarrow> (nat \<times> 'q \<times> (string \<times> directory) option) option" where
  "queue_service connect files realpath template writable now fuel turns w a config q =
     (case settings_of config of
        Inl _ \<Rightarrow> Some (1, q, None)
      | Inr settings \<Rightarrow>
          (let driver = cget settings ''driver'';
               go = (\<lambda>api. map_option (\<lambda>(r, q1). (exit_of r, q1, None)) (dispatch fuel turns w a settings api q))
           in if driver \<noteq> CStr ''database'' \<and> driver \<noteq> CStr ''redis'' then Some (2, q, None)
              else if qa_step a = ''install'' then
                (if driver = CStr ''redis'' then Some (0, q, None)
                 else case (migrations_dir realpath a config, cget settings ''table'', cget settings ''failed_table'') of
                        (Inr d, CStr t, CStr ft) \<Rightarrow>
                          (let (c, name, dir) = cmd_install template writable (files d) t ft now
                           in Some (nat c, q, Some (d, dir)))
                      | _ \<Rightarrow> Some (1, q, None))
              else if driver = CStr ''redis'' then
                (case connect True settings of None \<Rightarrow> Some (1, q, None) | Some api \<Rightarrow> go api)
              else
                (case (section_of config ''db'', cget settings ''db'') of
                   (Inr dbs, CStr name) \<Rightarrow>
                     (case map_of dbs name of
                        None \<Rightarrow> Some (2, q, None)
                      | Some (CDict db) \<Rightarrow>
                          (case connect_kwargs db of
                             Inl _ \<Rightarrow> Some (1, q, None)
                           | Inr kw \<Rightarrow> 
                               (case (connect False kw, cget settings ''table'', cget settings ''failed_table'') of
                                  (Some api, CStr t, CStr ft) \<Rightarrow>
                                    if isl (assert_table_name t) \<or> isl (assert_table_name ft) then Some (1, q, None) else go api
                                | _ \<Rightarrow> Some (1, q, None)))
                      | Some _ \<Rightarrow> Some (1, q, None))
                 | _ \<Rightarrow> Some (1, q, None))))"

section \<open>Installing\<close>

lemma decode_plain: "decode_utf8 (utf8 (to_text s)) = Some (to_text s)"
proof -
  have "code c < 256" for c by (simp add: code_def)
  then have "code c < 55296" for c by (rule less_trans) simp
  then have "scalar (code c)" for c by (simp add: scalar_def)
  then show ?thesis by (intro decode_utf8_encode) (simp add: to_text_def list_all_iff)
qed

text \<open>
  What \<open>queue install\<close> writes is a migration: with exit code 0 it adds exactly one file to the
  directory, under a name that was free, and the migrations component loads that file, with the
  schema for the configured tables as its SQL; with any other exit code the directory is as it
  was.
\<close>

theorem install_writes_migration:
  assumes "cmd_install template writable dir table failed_table now = (c, name, dir1)" "datetime_ok now"
  shows "if c = 0
    then \<exists>files n schema f. dir = Some files \<and> name = Some n \<and> template = Some schema
      \<and> n \<notin> fst ` set files \<and> is_sql_name n
      \<and> dir1 = Some (files @ [(n, utf8 (to_text (install_schema table failed_table schema)))])
      \<and> load_migration sha n (utf8 (to_text (install_schema table failed_table schema))) = Inr f
      \<and> g_sql f = to_text (install_schema table failed_table schema) \<and> g_prefix f = timestamp now
    else dir1 = dir"
proof (cases "c = 0")
  case False
  then show ?thesis using assms(1) by (auto simp: cmd_install_def split: if_splits option.splits sum.splits)
next
  case True
  then obtain files schema n where f: "dir = Some files" "template = Some schema" "name = Some n"
    "new_filename ''create queue tables'' now = Inr n" "n \<notin> fst ` set files"
    "dir1 = Some (files @ [(n, utf8 (to_text (install_schema table failed_table schema)))])"
    using assms(1) by (auto simp: cmd_install_def split: if_splits option.splits sum.splits)
  note m = new_filename_matches [OF assms(2) f(4)]
  obtain g where "load_migration sha n (utf8 (to_text (install_schema table failed_table schema))) = Inr g"
    "g_sql g = to_text (install_schema table failed_table schema)" "g_prefix g = timestamp now"
    using m(1) by (simp add: load_migration_def decode_plain Let_def)
  then show ?thesis using True f m(2) by auto
qed

text \<open>
  The two table names are not substituted independently: a name for the failed table that
  contains \<open>queue_jobs\<close> is rewritten again by the substitution of the jobs table, and a name with
  a schema ends up inside the names of the indexes, where no schema may stand.
\<close>

theorem install_rewrites_twice:
  "install_schema ''app_jobs'' ''dead_queue_jobs'' ''CREATE TABLE queue_failed_jobs ('' = ''CREATE TABLE dead_app_jobs (''
   \<and> \<not> isl (assert_table_name ''dead_queue_jobs'')
   \<and> install_schema ''jobs.waiting'' ''queue_failed_jobs'' ''CREATE INDEX idx_queue_jobs_reserve ON queue_jobs''
       = ''CREATE INDEX idx_jobs.waiting_reserve ON jobs.waiting''
   \<and> \<not> isl (assert_table_name ''jobs.waiting'')"
  by code_simp

section \<open>One job\<close>

lemma run_loop_one:
  assumes "a_max_jobs a = 1" "n = 0"
  shows "run_loop f w a turns log n failures q = Some (r, n1, log1, q1) \<Longrightarrow> n1 \<le> 1"
  using assms
proof (induction f arbitrary: turns log n failures q)
  case (Suc f)
  from Suc.prems(1) show ?case
    by (auto simp: Let_def Suc.prems(2,3) limit_reached_def split: if_splits prod.splits sum.splits option.splits job_end.splits
        dest!: Suc.IH [OF _ Suc.prems(2) refl])
qed simp

text \<open>
  With \<open>--once\<close> the worker finishes at most one job, whatever \<open>--max-jobs\<close> says, and does not
  wait for one.
\<close>

theorem once_runs_one_job:
  assumes "qa_once a" "work fuel turns w a settings api q = Some (r, n, log, q1)"
  shows "n \<le> 1 \<and> a_stop_when_empty (work_args a settings)"
  using assms run_loop_one [of "work_args a settings" 0]
  by (auto simp: work_def work_args_def run_def)

lemma exit_of_0: "exit_of r = 0 \<longleftrightarrow> r = Exit 0"
  by (cases r) (auto simp: exit_of_def)

lemma install_code: "fst (cmd_install template writable dir table failed_table now) \<in> {0, 1, 2}"
  by (auto simp: cmd_install_def split: option.split sum.split)

text \<open>
  The exit code of the queue's process: 0 means that the command it was asked for ran and
  ended well, that the schema was written, or that there was nothing to install; every refusal,
  exception, unreachable database and interruption gives another code.
\<close>

theorem queue_service_exit:
  assumes run: "queue_service connect files realpath template writable now fuel turns w a config q = Some (0, q1, x)"
  shows "\<exists>settings. settings_of config = Inr settings
    \<and> (if qa_step a = ''install''
       then q1 = q \<and> (cget settings ''driver'' = CStr ''redis'' \<and> x = None
         \<or> (\<exists>d t ft name dir1. x = Some (d, dir1)
              \<and> cmd_install template writable (files d) t ft now = (0, Some name, dir1)))
       else \<exists>redis conf api. connect redis conf = Some api
         \<and> dispatch fuel turns w a settings api q = Some (Exit 0, q1))"
proof -
  obtain settings where st: "settings_of config = Inr settings"
    using run by (auto simp: queue_service_def split: sum.splits)
  show ?thesis
  proof (cases "qa_step a = ''install''")
    case True
    have "\<exists>name. cmd_install template writable dir t ft now = (0, Some name, dir1)"
      if "cmd_install template writable dir t ft now = (c, y, dir1)" "c \<le> 0" for dir t ft c y dir1
      using that by (auto simp: cmd_install_def split: if_splits option.splits sum.splits)
    then have "\<exists>t ft name. cmd_install template writable dir t ft now = (0, Some name, dir1)"
      if "cmd_install template writable dir t ft now = (c, y, dir1)" "c \<le> 0" for dir t ft c y dir1
      using that by blast
    then show ?thesis using run st True
      by (auto simp: queue_service_def Let_def split: if_splits sum.splits cv.splits prod.splits)
  next
    case False
    show ?thesis using run st False
      by (auto simp: queue_service_def Let_def exit_of_0 split: if_splits sum.splits cv.splits option.splits)
  qed
qed

section \<open>Examples\<close>

theorem install_writes_migration_witness:
  "\<exists>n f. cmd_install (Some ''queue_jobs'') True (Some []) ''queue_jobs'' ''queue_failed_jobs'' demo_time
      = (0, Some n, Some [(n, utf8 (to_text ''queue_jobs''))])
    \<and> load_migration (\<lambda>_. ''x'') n (utf8 (to_text ''queue_jobs'')) = Inr f"
proof -
  let ?c = "cmd_install (Some ''queue_jobs'') True (Some []) ''queue_jobs'' ''queue_failed_jobs'' demo_time"
  have ok: "\<not> isl (assert_table_name ''queue_jobs'')" "\<not> isl (assert_table_name ''queue_failed_jobs'')"
    "\<not> isl (new_filename ''create queue tables'' demo_time)" "datetime_ok demo_time" by code_simp+
  then obtain n where n: "new_filename ''create queue tables'' demo_time = Inr n"
    by (auto simp: isl_def split: sum.splits) (metis sum.exhaust)
  have s: "install_schema ''queue_jobs'' ''queue_failed_jobs'' ''queue_jobs'' = ''queue_jobs''" by code_simp
  have c: "?c = (0, Some n, Some [(n, utf8 (to_text ''queue_jobs''))])"
    using ok(1,2) n s by (simp add: cmd_install_def)
  from install_writes_migration [OF c ok(4), of "\<lambda>_. ''x''"] s c show ?thesis by auto
qed

definition idle_api :: "nat queue_api" where
  "idle_api = \<lparr>q_driver = \<lparr>d_reserve = (\<lambda>qs t w q. (Inr None, q)), d_delete = (\<lambda>j q. (Inr (), q)),
       d_release = (\<lambda>j n e q. (Inr (), q)), d_fail = (\<lambda>j e q. (Inr (), q))\<rparr>,
     q_stats = (\<lambda>q. (Inr [], q)), q_failed_count = (\<lambda>q. (Inr q, q)), q_failed_rows = (\<lambda>n q. (Inr [], q)),
     q_retry_failed = (\<lambda>i m q. (Inr 0, q)), q_forget_failed = (\<lambda>i b q. (Inr q, 0))\<rparr>"

definition idle_worker :: "(nat, nat) worker" where
  "idle_worker = \<lparr>w_driver = q_driver idle_api, w_import = (\<lambda>_. NoModule), w_handlers = [],
     w_call = (\<lambda>h p j q. (Returned j, q)), w_detail = (\<lambda>e. []), w_backoff = DefaultSteps, w_id = ''host:1''\<rparr>"

definition once_args :: qargs where
  "once_args = \<lparr>qa_step = ''work'', qa_dir = None, qa_limit = 1, qa_id = None, qa_all = False, qa_before = None,
     qa_queue = Some ''mail, default,'', qa_timeout = None, qa_once = True, qa_max_jobs = 50, qa_max_time = 0,
     qa_stop_when_empty = False\<rparr>"

definition quiet_turns :: "nat \<Rightarrow> turn" where
  "quiet_turns n = \<lparr>u_quit = False, u_elapsed = 0\<rparr>"

lemma idle_work: "work 1 quiet_turns idle_worker once_args DEFAULTS idle_api 0 = Some (Exit 0, 0, [FoundNothing], 0)"
  by (simp add: work_def run_def idle_api_def quiet_turns_def work_args_def once_args_def)

theorem once_runs_one_job_witness: "a_stop_when_empty (work_args once_args DEFAULTS)"
  using once_runs_one_job [OF _ idle_work] by (simp add: once_args_def)

theorem queue_service_exit_witness:
  "\<exists>api. dispatch 1 quiet_turns idle_worker once_args DEFAULTS api 0 = Some (Exit 0, 0)"
proof -
  let ?config = "[(''db'', CDict [(''main'', CDict [(''hostname'', CStr ''h''), (''username'', CStr ''u''),
      (''password'', CStr ''p''), (''database'', CStr ''d'')])])]"
  have s: "settings_of ?config = Inr DEFAULTS" by (simp add: settings_of_def section_of_def get_or_def cget_def as_dict_def)
  have ok: "\<not> isl (assert_table_name ''queue_jobs'')" "\<not> isl (assert_table_name ''queue_failed_jobs'')" by code_simp+
  have st: "qa_step once_args = ''work''" by (simp add: once_args_def)
  have c: "cget DEFAULTS ''driver'' = CStr ''database''" "cget DEFAULTS ''db'' = CStr ''main''"
    "cget DEFAULTS ''table'' = CStr ''queue_jobs''" "cget DEFAULTS ''failed_table'' = CStr ''queue_failed_jobs''"
    by (simp_all add: DEFAULTS_def cget_def)
  have db: "section_of ?config ''db'' = Inr [(''main'', CDict [(''hostname'', CStr ''h''), (''username'', CStr ''u''),
      (''password'', CStr ''p''), (''database'', CStr ''d'')])]" by (simp add: section_of_def get_or_def cget_def as_dict_def)
  have kw: "connect_kwargs [(''hostname'', CStr ''h''), (''username'', CStr ''u''), (''password'', CStr ''p''), (''database'', CStr ''d'')]
      = Inr [(''host'', CStr ''h''), (''port'', CInt 5432), (''user'', CStr ''u''), (''password'', CStr ''p''),
        (''dbname'', CStr ''d''), (''sslmode'', CStr ''prefer''), (''autocommit'', CBool True)]"
    by (simp add: connect_kwargs_def db_driver_def PGSQL_def get_or_def cget_def)
  have d: "dispatch 1 quiet_turns idle_worker once_args DEFAULTS idle_api 0 = Some (Exit 0, 0)"
    by (simp only: dispatch_def st Let_def idle_work) simp
  have "queue_service (\<lambda>_ _. Some idle_api) (\<lambda>_. None) (\<lambda>_. []) None True demo_time 1 quiet_turns idle_worker once_args ?config 0
      = Some (0, 0, None)"
    using ok by (simp add: queue_service_def s st c db kw d exit_of_def del: One_nat_def)
  from queue_service_exit [OF this] s show ?thesis by (auto simp: once_args_def)
qed

end
