(* ===== verification/Api_Keys.thy ===== *)
theory Api_Keys
  imports Client_Ip Queue_Cli
begin

text \<open>
  API keys: abilities (\<open>api_keys/abilities.py\<close>), key material (\<open>api_keys/keys.py\<close>), the table of
  keys (\<open>api_keys/model.py\<close>), the commands (\<open>api_keys/commands.py\<close>) and their service
  (\<open>api_keys/_service.py\<close>). Times are microseconds in UTC. SHA-256 is the parameter \<open>sha\<close>, from
  bytes to the hexadecimal text; the random bytes of a new key are arguments. Error messages are
  left out; the lines a command prints when it succeeds are part of its result.
\<close>

section \<open>Abilities\<close>

definition WILDCARD :: string where "WILDCARD = ''*''"

text \<open>\<open>None\<close> is \<open>ValueError\<close>.\<close>

definition normalize_ability :: "string \<Rightarrow> string option" where
  "normalize_ability raw =
     (let ability = strip raw
      in if ability = WILDCARD then Some ability
         else (let (service, sep, act) = partition_on (CHR '':'') ability
               in if \<not> sep \<or> service = [] \<or> act = [] \<or> CHR '':'' \<in> set act then None
                  else if CHR ''*'' \<in> set service \<or> (CHR ''*'' \<in> set act \<and> act \<noteq> WILDCARD) then None
                  else if list_ex isspace ability then None
                  else Some (replace_char (CHR ''-'') (CHR ''_'') service @ '':'' @ act)))"

definition ability_allows :: "string list option \<Rightarrow> string \<Rightarrow> bool" where
  "ability_allows granted ability =
     (let (service, _, act) = partition_on (CHR '':'') ability;
          s = replace_char (CHR ''-'') (CHR ''_'') service;
          accepted = [WILDCARD, s @ '':'' @ act, s @ '':'' @ WILDCARD]
      in list_ex (\<lambda>item. item \<in> set accepted) (case granted of None \<Rightarrow> [] | Some g \<Rightarrow> g))"

section \<open>Key material\<close>

definition PREFIX_MARKER :: string where "PREFIX_MARKER = ''ak''"

definition hex_digit :: "nat \<Rightarrow> char" where
  "hex_digit n = char_of (if n < 10 then 48 + n else 87 + n mod 16)"

text \<open>\<open>secrets.token_hex\<close> and \<open>secrets.token_urlsafe\<close> of the random bytes drawn.\<close>

definition token_hex :: "bytes \<Rightarrow> string" where
  "token_hex bs = concat (map (\<lambda>b. [hex_digit (b div 16), hex_digit (b mod 16)]) bs)"

definition url_digit :: "nat \<Rightarrow> char" where
  "url_digit n =
     (if n < 26 then char_of (65 + n) else if n < 52 then char_of (71 + n) else if n < 62 then char_of (n - 4)
      else if n = 62 then CHR ''-'' else CHR ''_'')"

fun token_urlsafe :: "bytes \<Rightarrow> string" where
  "token_urlsafe [] = []"
| "token_urlsafe [a] = [url_digit (a div 4), url_digit (a mod 4 * 16)]"
| "token_urlsafe [a, b] = [url_digit (a div 4), url_digit (a mod 4 * 16 + b div 16), url_digit (b mod 16 * 4)]"
| "token_urlsafe (a # b # c # bs) =
     url_digit (a div 4) # url_digit (a mod 4 * 16 + b div 16) # url_digit (b mod 16 * 4 + c div 64)
     # url_digit (c mod 64) # token_urlsafe bs"

definition generate_key :: "bytes \<Rightarrow> bytes \<Rightarrow> string \<times> string" where
  "generate_key six thirtytwo = (PREFIX_MARKER @ token_hex six, token_urlsafe thirtytwo)"

definition hash_secret :: "(bytes \<Rightarrow> string) \<Rightarrow> string \<Rightarrow> string \<Rightarrow> string" where
  "hash_secret sha secret pepper = sha (utf8 (to_text pepper) @ utf8 (to_text secret))"

datatype kerror = UsageError | KValueError | KTypeError | KKeyError | KAttributeError | KConnect | KRuntime | KOverflow | KDirectory serror

text \<open>\<open>hmac.compare_digest\<close> refuses text that is not ASCII.\<close>

definition ascii :: "string \<Rightarrow> bool" where
  "ascii s = list_all (\<lambda>c. code c < 128) s"

definition secret_matches :: "(bytes \<Rightarrow> string) \<Rightarrow> string \<Rightarrow> string \<Rightarrow> string \<Rightarrow> kerror + bool" where
  "secret_matches sha secret pepper stored_hash =
     (let h = hash_secret sha secret pepper
      in if ascii h \<and> ascii stored_hash then Inr (h = stored_hash) else Inl KTypeError)"

definition split_key :: "string \<Rightarrow> (string \<times> string) option" where
  "split_key key =
     (let (pfx, sep, secret) = partition_on (CHR ''.'') key
      in if \<not> sep \<or> pfx = [] \<or> secret = [] then None else Some (pfx, secret))"

text \<open>A \<open>datetime\<close>: its clock reading, and its offset from UTC unless it is naive.\<close>

record pytime =
  st_clock :: int
  st_offset :: "int option"

definition instant :: "pytime \<Rightarrow> int" where
  "instant t = st_clock t - (case st_offset t of None \<Rightarrow> 0 | Some z \<Rightarrow> z)"

definition utc :: "int \<Rightarrow> pytime" where
  "utc t = \<lparr>st_clock = t, st_offset = Some 0\<rparr>"

definition expired :: "pytime option \<Rightarrow> int \<Rightarrow> bool" where
  "expired expires_at now =
     (case expires_at of
        None \<Rightarrow> False
      | Some t \<Rightarrow> instant (case st_offset t of None \<Rightarrow> t\<lparr>st_offset := Some 0\<rparr> | Some _ \<Rightarrow> t) \<le> now)"

section \<open>The table\<close>

record krow =
  k_id :: int
  k_name :: string
  k_prefix :: string
  k_hash :: string
  k_abilities :: "string list"
  k_ips :: "string list option"
  k_expires :: "int option"
  k_user :: "int option"
  k_last_used :: "int option"
  k_uses :: int
  k_created :: int
  k_updated :: int
  k_disabled :: "int option"

text \<open>
  The server in one transaction: whether it answers, \<open>now()\<close>, the next number of the table's
  sequence, and how it reads a text as \<open>cidr\<close>, given back as the text of the network. A failed
  statement, \<open>psycopg.Error\<close>, is \<open>None\<close>.
\<close>

record pg =
  pg_up :: bool
  pg_now :: int
  pg_seq :: int
  pg_cidr :: "string \<Rightarrow> string option"

definition bigint :: "int \<Rightarrow> bool" where
  "bigint n \<longleftrightarrow> - (2 ^ 63) \<le> n \<and> n < 2 ^ 63"

definition text_ok :: "string \<Rightarrow> bool" where
  "text_ok s \<longleftrightarrow> CHR 0x00 \<notin> set s"

fun cidrs :: "pg \<Rightarrow> string list \<Rightarrow> string list option" where
  "cidrs p [] = Some []"
| "cidrs p (x # xs) = (case (pg_cidr p x, cidrs p xs) of (Some y, Some ys) \<Rightarrow> Some (y # ys) | _ \<Rightarrow> None)"

definition cidr_array :: "pg \<Rightarrow> string list option \<Rightarrow> string list option option" where
  "cidr_array p ips = (case ips of None \<Rightarrow> Some None | Some xs \<Rightarrow> map_option Some (cidrs p xs))"

definition insert_key ::
  "pg \<Rightarrow> string \<Rightarrow> string \<Rightarrow> string \<Rightarrow> string list \<Rightarrow> string list option \<Rightarrow> int option \<Rightarrow> int option \<Rightarrow> krow list
    \<Rightarrow> (krow \<times> krow list) option" where
  "insert_key p name pfx hash abilities ips expires user rows =
     (case cidr_array p ips of
        None \<Rightarrow> None
      | Some c \<Rightarrow>
          if \<not> pg_up p \<or> \<not> text_ok name \<or> \<not> list_all text_ok abilities
             \<or> (case user of None \<Rightarrow> False | Some u \<Rightarrow> \<not> bigint u)
             \<or> pg_seq p \<in> k_id ` set rows \<or> pfx \<in> k_prefix ` set rows
          then None
          else (let r = \<lparr>k_id = pg_seq p, k_name = name, k_prefix = pfx, k_hash = hash, k_abilities = abilities,
                         k_ips = c, k_expires = expires, k_user = user, k_last_used = None, k_uses = 0,
                         k_created = pg_now p, k_updated = pg_now p, k_disabled = None\<rparr>
                in Some (r, rows @ [r])))"

definition set_row :: "int \<Rightarrow> (krow \<Rightarrow> krow) \<Rightarrow> krow list \<Rightarrow> krow list" where
  "set_row i f rows = map (\<lambda>r. if k_id r = i then f r else r) rows"

text \<open>\<open>use_key\<close>: the row given to the caller counts for itself, and the table counts too.\<close>

definition use_key :: "pg \<Rightarrow> int \<Rightarrow> krow \<Rightarrow> krow list \<Rightarrow> (krow \<times> krow list) option" where
  "use_key p now r rows =
     (if \<not> pg_up p \<or> list_ex (\<lambda>x. k_id x = k_id r \<and> \<not> bigint (k_uses x + 1)) rows then None
      else Some (r\<lparr>k_uses := k_uses r + 1, k_last_used := Some now\<rparr>,
                 set_row (k_id r) (\<lambda>x. x\<lparr>k_last_used := Some (pg_now p), k_uses := k_uses x + 1\<rparr>) rows))"

section \<open>Command line values\<close>

fun add_abilities :: "string list \<Rightarrow> string list \<Rightarrow> kerror + string list" where
  "add_abilities result [] = Inr result"
| "add_abilities result (item # items) =
     (case normalize_ability item of
        None \<Rightarrow> Inl UsageError
      | Some a \<Rightarrow> add_abilities (if a \<in> set result then result else result @ [a]) items)"

definition parse_abilities :: "string list option \<Rightarrow> kerror + string list" where
  "parse_abilities raw = add_abilities [] (case raw of None \<Rightarrow> [] | Some r \<Rightarrow> r)"

fun parse_networks :: "ip_lib \<Rightarrow> string list \<Rightarrow> kerror + string list" where
  "parse_networks lib [] = Inr []"
| "parse_networks lib (item # items) =
     (case parse_network lib item of
        None \<Rightarrow> Inl UsageError
      | Some n \<Rightarrow> (case parse_networks lib items of Inl e \<Rightarrow> Inl e | Inr ns \<Rightarrow> Inr (n # ns)))"

text \<open>Dates: the days up to a date since the year 1.\<close>

definition leap :: "nat \<Rightarrow> bool" where
  "leap y \<longleftrightarrow> y mod 4 = 0 \<and> (y mod 100 \<noteq> 0 \<or> y mod 400 = 0)"

definition month_days :: "nat \<Rightarrow> nat \<Rightarrow> nat" where
  "month_days y mo = (if mo = 2 then (if leap y then 29 else 28) else if mo \<in> {4, 6, 9, 11} then 30 else 31)"

definition day_number :: "nat \<Rightarrow> nat \<Rightarrow> nat \<Rightarrow> nat" where
  "day_number y mo d =
     365 * (y - 1) + (y - 1) div 4 - (y - 1) div 100 + (y - 1) div 400 + sum_list (map (month_days y) [1..<mo]) + d"

text \<open>Midnight in UTC of a day, counted from 1970.\<close>

definition midnight :: "nat \<Rightarrow> int" where
  "midnight day = (int day - 719163) * 86400000000"

text \<open>\<open>date.fromisoformat\<close> of a text of the form \<open>_DATE_RE\<close>.\<close>

definition read_date :: "string \<Rightarrow> nat option" where
  "read_date t =
     (let y = nat (int_of_digits 0 (take 4 t)); mo = nat (int_of_digits 0 (take 2 (drop 5 t)));
          d = nat (int_of_digits 0 (drop 8 t))
      in if 1 \<le> y \<and> 1 \<le> mo \<and> mo \<le> 12 \<and> 1 \<le> d \<and> d \<le> month_days y mo then Some (day_number y mo d) else None)"

definition parse_expires :: "(string \<Rightarrow> pytime option) \<Rightarrow> string \<Rightarrow> int \<Rightarrow> kerror + int" where
  "parse_expires fromisoformat raw now =
     (let t = strip raw;
          v = (if is_date t then
                 (case read_date t of
                    None \<Rightarrow> Inl UsageError
                  | Some day \<Rightarrow> if day + 1 \<le> day_number 9999 12 31 then Inr (midnight (day + 1)) else Inl KOverflow)
               else (case fromisoformat t of
                       None \<Rightarrow> Inl UsageError
                     | Some s \<Rightarrow> Inr (instant (case st_offset s of None \<Rightarrow> s\<lparr>st_offset := Some 0\<rparr> | Some _ \<Rightarrow> s))))
      in case v of Inl e \<Rightarrow> Inl e | Inr i \<Rightarrow> if i \<le> now then Inl UsageError else Inr i)"

datatype key_ref = ById int | ByPrefix string

definition where_ref :: "string \<Rightarrow> kerror + key_ref" where
  "where_ref ref =
     (let r = hd (split_on (CHR ''.'') (strip ref))
      in if isdigit r then (if list_all is_digit r \<and> length r \<le> 4300 then Inr (ById (int_of_digits 0 r)) else Inl KValueError)
         else Inr (ByPrefix r))"

fun matches_ref :: "key_ref \<Rightarrow> krow \<Rightarrow> bool" where
  "matches_ref (ById i) r \<longleftrightarrow> k_id r = i"
| "matches_ref (ByPrefix p) r \<longleftrightarrow> k_prefix r = p"

section \<open>Commands\<close>

definition str_int :: "int \<Rightarrow> string" where
  "str_int i = map char_of (show_int i)"

text \<open>\<open>_when\<close>: \<open>fmt\<close> is \<open>strftime\<close> with the format the source has.\<close>

definition when_text :: "(int \<Rightarrow> string) \<Rightarrow> int option \<Rightarrow> string \<Rightarrow> string" where
  "when_text fmt v dflt = (case v of None \<Rightarrow> dflt | Some t \<Rightarrow> fmt t)"

definition or_text :: "string \<Rightarrow> string \<Rightarrow> string" where
  "or_text s t = (if s = [] then t else s)"

definition describe :: "(int \<Rightarrow> string) \<Rightarrow> krow \<Rightarrow> string list" where
  "describe fmt r =
     [''  abilities:   '' @ or_text (join '', '' (k_abilities r)) ''(none - this key can call nothing)'',
      ''  allowed IPs: '' @ (case k_ips r of None \<Rightarrow> ''any'' | Some ips \<Rightarrow> or_text (join '', '' ips) ''(none)''),
      ''  expires:     '' @ when_text fmt (k_expires r) ''never'',
      ''  acts as:     '' @ (case k_user r of None \<Rightarrow> ''-'' | Some u \<Rightarrow> ''user '' @ str_int u)]"

definition quoted :: "string \<Rightarrow> string" where
  "quoted s = CHR 0x22 # s @ [CHR 0x22]"

definition keys_install :: "string option \<Rightarrow> bool \<Rightarrow> directory \<Rightarrow> string \<Rightarrow> datetime \<Rightarrow> int \<times> string option \<times> directory" where
  "keys_install template writable dir table now =
     (case dir of
        None \<Rightarrow> (2, None, dir)
      | Some files \<Rightarrow>
          (case template of
             None \<Rightarrow> (1, None, dir)
           | Some schema \<Rightarrow>
               (let s = (if table \<noteq> ''api_keys'' then replace_all ''api_keys'' table schema else schema)
                in case new_filename (''create '' @ table) now of
                     Inl _ \<Rightarrow> (2, None, dir)
                   | Inr name \<Rightarrow>
                       if name \<in> fst ` set files then (1, None, dir)
                       else if \<not> writable then (1, None, dir)
                       else (0, Some name, Some (files @ [(name, utf8 (to_text s))])))))"

definition cmd_create ::
  "pg \<Rightarrow> (bytes \<Rightarrow> string) \<Rightarrow> (int \<Rightarrow> string) \<Rightarrow> bytes \<Rightarrow> bytes \<Rightarrow> string \<Rightarrow> string \<Rightarrow> string list \<Rightarrow> string list option
    \<Rightarrow> int option \<Rightarrow> int option \<Rightarrow> krow list \<Rightarrow> int \<times> string list \<times> krow list" where
  "cmd_create p sha fmt six thirtytwo pepper name abilities allowed_ips expires_at user_id rows =
     (let (pfx, secret) = generate_key six thirtytwo
      in case insert_key p name pfx (hash_secret sha secret pepper) abilities allowed_ips expires_at user_id rows of
           None \<Rightarrow> (1, [], rows)
         | Some (r, rows1) \<Rightarrow>
             (0, (''Created API key '' @ str_int (k_id r) @ '' '' @ quoted name @ '' (prefix '' @ pfx @ '')'')
                 # describe fmt r
                 @ [[], ''The key is shown once and cannot be recovered. Store it now:'', pfx @ ''.'' @ secret], rows1))"

definition status_of :: "int \<Rightarrow> krow \<Rightarrow> string" where
  "status_of now r =
     (if k_disabled r \<noteq> None then ''revoked''
      else if expired (map_option utc (k_expires r)) now then ''expired'' else ''active'')"

definition list_cells :: "(int \<Rightarrow> string) \<Rightarrow> int \<Rightarrow> krow \<Rightarrow> string list" where
  "list_cells fmt now r =
     [str_int (k_id r), k_name r, k_prefix r, status_of now r, or_text (join '','' (k_abilities r)) ''-'',
      (case k_ips r of None \<Rightarrow> ''any'' | Some ips \<Rightarrow> or_text (join '','' ips) ''none''),
      (case k_user r of None \<Rightarrow> ''-'' | Some u \<Rightarrow> str_int u),
      when_text fmt (k_expires r) ''never'', when_text fmt (k_last_used r) ''never'', str_int (k_uses r)]"

definition ljust :: "nat \<Rightarrow> string \<Rightarrow> string" where
  "ljust n s = s @ replicate (n - length s) (CHR '' '')"

definition layout :: "string list list \<Rightarrow> string list" where
  "layout cells =
     (let widths = map (\<lambda>i. Max ((\<lambda>l. length (l ! i)) ` set cells)) [0..<10]
      in map (\<lambda>l. rstrip_with isspace (join ''  '' (map2 ljust widths l))) cells)"

definition LIST_HEADER :: "string list" where
  "LIST_HEADER = [''ID'', ''NAME'', ''PREFIX'', ''STATUS'', ''ABILITIES'', ''IPS'', ''USER'', ''EXPIRES'', ''LAST USED'', ''USES'']"

definition cmd_list :: "pg \<Rightarrow> (int \<Rightarrow> string) \<Rightarrow> int \<Rightarrow> krow list \<Rightarrow> int \<times> string list" where
  "cmd_list p fmt now rows =
     (if \<not> pg_up p then (1, [])
      else if rows = [] then (0, [''No API keys.''])
      else (0, layout (LIST_HEADER # map (list_cells fmt now) (sort_key k_id rows))))"

definition cmd_revoke :: "pg \<Rightarrow> (int \<Rightarrow> string) \<Rightarrow> string \<Rightarrow> krow list \<Rightarrow> (kerror + int \<times> string list) \<times> krow list" where
  "cmd_revoke p fmt ref rows =
     (case where_ref ref of
        Inl e \<Rightarrow> (Inl e, rows)
      | Inr w \<Rightarrow>
          if \<not> pg_up p then (Inr (1, []), rows)
          else (case find (matches_ref w) rows of
                  None \<Rightarrow> (Inr (1, []), rows)
                | Some r \<Rightarrow>
                    (case k_disabled r of
                       Some t \<Rightarrow> (Inr (0, [''API key '' @ str_int (k_id r) @ '' '' @ quoted (k_name r)
                                    @ '' was already revoked at '' @ fmt t @ ''.'']), rows)
                     | None \<Rightarrow> (Inr (0, [''Revoked API key '' @ str_int (k_id r) @ '' '' @ quoted (k_name r) @ ''.'']),
                         set_row (k_id r) (\<lambda>x. x\<lparr>k_disabled := Some (pg_now p), k_updated := pg_now p\<rparr>) rows))))"

record update_change =
  u_name :: "string option"
  u_abilities :: "string list option"
  u_add_abilities :: "string list option"
  u_remove_abilities :: "string list option"
  u_allowed_ips :: "string list option"
  u_any_ip :: bool
  u_expires_at :: "int option"
  u_no_expiry :: bool
  u_user_id :: "int option"
  u_no_user :: bool

definition empty_update :: update_change where
  "empty_update = \<lparr>u_name = None, u_abilities = None, u_add_abilities = None, u_remove_abilities = None,
     u_allowed_ips = None, u_any_ip = False, u_expires_at = None, u_no_expiry = False, u_user_id = None, u_no_user = False\<rparr>"

definition is_empty :: "update_change \<Rightarrow> bool" where
  "is_empty u \<longleftrightarrow> u = empty_update"

definition or_empty :: "'a list option \<Rightarrow> 'a list" where
  "or_empty x = (case x of None \<Rightarrow> [] | Some l \<Rightarrow> l)"

text \<open>The abilities after the change; \<open>None\<close> when the column is left alone.\<close>

definition changed_abilities :: "string list \<Rightarrow> update_change \<Rightarrow> string list option" where
  "changed_abilities current u =
     (if u_abilities u \<noteq> None \<or> or_empty (u_add_abilities u) \<noteq> [] \<or> or_empty (u_remove_abilities u) \<noteq> []
      then (let a = (case u_abilities u of None \<Rightarrow> current | Some x \<Rightarrow> x);
                b = a @ filter (\<lambda>x. x \<notin> set a) (or_empty (u_add_abilities u))
            in Some (filter (\<lambda>x. x \<notin> set (or_empty (u_remove_abilities u))) b))
      else None)"

text \<open>A column that may be set to NULL, set to a value, or left alone.\<close>

definition nullable :: "bool \<Rightarrow> 'a option \<Rightarrow> 'a option \<Rightarrow> 'a option" where
  "nullable none new old = (if none then None else case new of None \<Rightarrow> old | Some x \<Rightarrow> Some x)"

definition keep_or :: "'a \<Rightarrow> 'a option \<Rightarrow> 'a" where
  "keep_or old new = (case new of None \<Rightarrow> old | Some x \<Rightarrow> x)"

text \<open>The new row, or \<open>None\<close> when the server refuses a value.\<close>

definition changed_row :: "pg \<Rightarrow> update_change \<Rightarrow> krow \<Rightarrow> krow option" where
  "changed_row p u r =
     (let name = keep_or (k_name r) (u_name u);
          abilities = keep_or (k_abilities r) (changed_abilities (k_abilities r) u);
          ips = (if u_any_ip u then Some None
                 else case u_allowed_ips u of None \<Rightarrow> Some (k_ips r) | Some xs \<Rightarrow> cidr_array p (Some xs));
          expires = nullable (u_no_expiry u) (u_expires_at u) (k_expires r);
          user = nullable (u_no_user u) (u_user_id u) (k_user r)
      in case ips of
           None \<Rightarrow> None
         | Some c \<Rightarrow>
             if \<not> text_ok name \<or> \<not> list_all text_ok abilities
                \<or> (\<not> u_no_user u \<and> (case u_user_id u of None \<Rightarrow> False | Some i \<Rightarrow> \<not> bigint i))
             then None
             else Some (r\<lparr>k_name := name, k_abilities := abilities, k_ips := c, k_expires := expires, k_user := user,
                          k_updated := pg_now p\<rparr>))"

definition cmd_update ::
  "pg \<Rightarrow> (int \<Rightarrow> string) \<Rightarrow> string \<Rightarrow> update_change \<Rightarrow> krow list \<Rightarrow> (kerror + int \<times> string list) \<times> krow list" where
  "cmd_update p fmt ref u rows =
     (case where_ref ref of
        Inl e \<Rightarrow> (Inl e, rows)
      | Inr w \<Rightarrow>
          if \<not> pg_up p then (Inr (1, []), rows)
          else (case find (matches_ref w) rows of
                  None \<Rightarrow> (Inr (1, []), rows)
                | Some r \<Rightarrow>
                    (case changed_row p u r of
                       None \<Rightarrow> (Inr (1, []), rows)
                     | Some r1 \<Rightarrow>
                         (Inr (0, (''Updated API key '' @ str_int (k_id r1) @ '' '' @ quoted (k_name r1)) # describe fmt r1),
                          set_row (k_id r) (\<lambda>_. r1) rows))))"

section \<open>The service\<close>

record kargs =
  ka_step :: string
  ka_dir :: "string option"
  ka_name :: "string option"
  ka_ability :: "string list option"
  ka_add_ability :: "string list option"
  ka_remove_ability :: "string list option"
  ka_allowed_ip :: "string list option"
  ka_any_ip :: bool
  ka_expires :: "string option"
  ka_no_expiry :: bool
  ka_user_id :: "int option"
  ka_no_user :: bool
  ka_ref :: string

text \<open>\<open>audit/_service.py\<close>: where \<open>install\<close> writes.\<close>

definition install_dir :: "(cv \<Rightarrow> string) \<Rightarrow> string option \<Rightarrow> config \<Rightarrow> serror + string" where
  "install_dir realpath raw config =
     (case raw of
        Some d \<Rightarrow>
          if d \<noteq> [] then
            (if is_absolute d then Inr d
             else (let c = cget config ''current_path''
                   in if \<not> truthy c then Inr (''./'' @ d)
                      else case c of CStr q \<Rightarrow> Inr (q @ ''/'' @ d) | _ \<Rightarrow> Inl (SConfig AttributeError)))
          else (case resolve_targets realpath config of Inl e \<Rightarrow> Inl e | Inr [] \<Rightarrow> Inl SRuntime | Inr (t # _) \<Rightarrow> Inr (tg_directory t))
      | None \<Rightarrow> (case resolve_targets realpath config of Inl e \<Rightarrow> Inl e | Inr [] \<Rightarrow> Inl SRuntime | Inr (t # _) \<Rightarrow> Inr (tg_directory t)))"

text \<open>What the values on the command line ask for, in the order the code reads them.\<close>

datatype key_task = Create "string list" "string list option" "int option" | Change update_change | Plain

definition nonempty :: "'a list option \<Rightarrow> bool" where
  "nonempty x \<longleftrightarrow> or_empty x \<noteq> []"

definition read_ips :: "ip_lib \<Rightarrow> kargs \<Rightarrow> kerror + string list option" where
  "read_ips lib a = (if nonempty (ka_allowed_ip a) then map_sum id Some (parse_networks lib (or_empty (ka_allowed_ip a))) else Inr None)"

definition read_expires :: "(string \<Rightarrow> pytime option) \<Rightarrow> int \<Rightarrow> kargs \<Rightarrow> kerror + int option" where
  "read_expires isof now a = (if nonempty (ka_expires a) then map_sum id Some (parse_expires isof (or_empty (ka_expires a)) now) else Inr None)"

definition read_list :: "string list option \<Rightarrow> kerror + string list option" where
  "read_list raw = map_sum id (\<lambda>l. if l = [] then None else Some l) (parse_abilities raw)"

definition key_task_of :: "ip_lib \<Rightarrow> (string \<Rightarrow> pytime option) \<Rightarrow> int \<Rightarrow> config \<Rightarrow> kargs \<Rightarrow> kerror + int + key_task" where
  "key_task_of lib isof now config a =
     (if ka_step a = ''create'' then
        (if \<not> truthy (cget config ''api_key_pepper'') then Inr (Inl 2)
         else case parse_abilities (ka_ability a) of
                Inl e \<Rightarrow> Inl e
              | Inr abilities \<Rightarrow>
                  (case read_ips lib a of
                     Inl e \<Rightarrow> Inl e
                   | Inr ips \<Rightarrow> (case read_expires isof now a of Inl e \<Rightarrow> Inl e | Inr t \<Rightarrow> Inr (Inr (Create abilities ips t)))))
      else if ka_step a = ''update'' then
        (case (if nonempty (ka_ability a) then map_sum id Some (parse_abilities (ka_ability a)) else Inr None) of
           Inl e \<Rightarrow> Inl e
         | Inr abilities \<Rightarrow>
             (case read_list (ka_add_ability a) of
                Inl e \<Rightarrow> Inl e
              | Inr adds \<Rightarrow>
                  (case read_list (ka_remove_ability a) of
                     Inl e \<Rightarrow> Inl e
                   | Inr removes \<Rightarrow>
                       (case read_ips lib a of
                          Inl e \<Rightarrow> Inl e
                        | Inr ips \<Rightarrow>
                            (case read_expires isof now a of
                               Inl e \<Rightarrow> Inl e
                             | Inr t \<Rightarrow>
                                 (let u = \<lparr>u_name = ka_name a, u_abilities = abilities, u_add_abilities = adds,
                                           u_remove_abilities = removes, u_allowed_ips = ips, u_any_ip = ka_any_ip a,
                                           u_expires_at = t, u_no_expiry = ka_no_expiry a, u_user_id = ka_user_id a,
                                           u_no_user = ka_no_user a\<rparr>
                                  in if is_empty u then Inr (Inl 2) else Inr (Inr (Change u))))))))
      else if ka_step a \<in> {''list'', ''revoke''} then Inr (Inr Plain)
      else Inr (Inl 2))"

text \<open>
  The surroundings of a run: the table of the registered model, the clock, the libraries, the
  random bytes, the shipped schema, the directories, and the server for given connection
  parameters, \<open>None\<close> when it cannot be reached.
\<close>

record kworld =
  kw_table :: string
  kw_now :: int
  kw_date :: datetime
  kw_lib :: ip_lib
  kw_iso :: "string \<Rightarrow> pytime option"
  kw_fmt :: "int \<Rightarrow> string"
  kw_sha :: "bytes \<Rightarrow> string"
  kw_random :: "bytes \<times> bytes"
  kw_template :: "string option"
  kw_writable :: bool
  kw_realpath :: "cv \<Rightarrow> string"
  kw_connect :: "config \<Rightarrow> pg option"

definition run_task :: "kworld \<Rightarrow> pg \<Rightarrow> config \<Rightarrow> kargs \<Rightarrow> key_task \<Rightarrow> krow list \<Rightarrow> (kerror + int \<times> string list) \<times> krow list" where
  "run_task w p config a t rows =
     (case t of
        Create abilities ips expires \<Rightarrow>
          (case cget config ''api_key_pepper'' of
             CStr pepper \<Rightarrow>
               (let (c, l, rows1) = cmd_create p (kw_sha w) (kw_fmt w) (fst (kw_random w)) (snd (kw_random w)) pepper
                      (or_empty (ka_name a)) abilities ips expires (ka_user_id a) rows
                in (Inr (c, l), rows1))
           | _ \<Rightarrow> (Inl KAttributeError, rows))
      | Change u \<Rightarrow> cmd_update p (kw_fmt w) (ka_ref a) u rows
      | Plain \<Rightarrow>
          if ka_step a = ''list'' then (Inr (cmd_list p (kw_fmt w) (kw_now w) rows), rows)
          else cmd_revoke p (kw_fmt w) (ka_ref a) rows)"

definition keys_run ::
  "kworld \<Rightarrow> (string \<Rightarrow> directory) \<Rightarrow> kargs \<Rightarrow> config \<Rightarrow> krow list
    \<Rightarrow> (kerror + int \<times> string list) \<times> krow list \<times> (string \<times> directory) option" where
  "keys_run w files a config rows =
     (if ka_step a = ''install'' then
        (case install_dir (kw_realpath w) (ka_dir a) config of
           Inl e \<Rightarrow> (Inl (KDirectory e), rows, None)
         | Inr d \<Rightarrow>
             (let (c, n, dir1) = keys_install (kw_template w) (kw_writable w) (files d) (kw_table w) (kw_date w)
              in (Inr (c, case n of None \<Rightarrow> [] | Some x \<Rightarrow>
                      [''Wrote '' @ d @ ''/'' @ x, ''Review it, then: python3 src/app.py migrations apply'']),
                  rows, Some (d, dir1))))
      else case section_of config ''db'' of
             Inl e \<Rightarrow> (Inl KAttributeError, rows, None)
           | Inr dbs \<Rightarrow>
               (let db = cget dbs ''main''
                in if \<not> truthy db then (Inr (2, []), rows, None)
                   else case key_task_of (kw_lib w) (kw_iso w) (kw_now w) config a of
                          Inl e \<Rightarrow> (Inl e, rows, None)
                        | Inr (Inl c) \<Rightarrow> (Inr (c, []), rows, None)
                        | Inr (Inr t) \<Rightarrow>
                            (case (case as_dict db of Inl e \<Rightarrow> Inl e | Inr d \<Rightarrow> connect_kwargs d) of
                               Inl e \<Rightarrow> (Inl KAttributeError, rows, None)
                             | Inr kwargs \<Rightarrow>
                                 (case kw_connect w kwargs of
                                    None \<Rightarrow> (Inl KConnect, rows, None)
                                  | Some p \<Rightarrow> (let (r, rows1) = run_task w p config a t rows in (r, rows1, None))))))"

text \<open>\<open>init_service\<close>: every outcome leaves through \<open>SystemExit\<close>.\<close>

definition keys_exit :: "kerror + int \<times> string list \<Rightarrow> int" where
  "keys_exit r = (case r of Inl UsageError \<Rightarrow> 2 | Inl _ \<Rightarrow> 1 | Inr (c, _) \<Rightarrow> c)"

section \<open>What abilities cover\<close>

lemma replace_char_twice [simp]: "a \<noteq> b \<Longrightarrow> replace_char a b (replace_char a b s) = replace_char a b s"
  by (simp add: replace_char_def)

lemma colon_replaced [simp]: "CHR '':'' \<in> set (replace_char (CHR ''-'') (CHR ''_'') s) \<longleftrightarrow> CHR '':'' \<in> set s"
  by (auto simp: replace_char_def image_iff)

lemma normalize_ability_cases:
  assumes "normalize_ability raw = Some a"
  obtains "strip raw = WILDCARD" "a = WILDCARD"
  | s act where "strip raw = s @ '':'' @ act" "CHR '':'' \<notin> set s" "a = replace_char (CHR ''-'') (CHR ''_'') s @ '':'' @ act"
proof -
  obtain s f act where p: "partition_on (CHR '':'') (strip raw) = (s, f, act)" by (rule prod_cases3)
  show thesis
    using assms p partition_on_spec [OF p] that by (auto simp: normalize_ability_def Let_def split: if_splits)
qed

lemma add_abilities_set:
  "add_abilities result raws = Inr l \<Longrightarrow>
     set l = set result \<union> {a. \<exists>raw\<in>set raws. normalize_ability raw = Some a} \<and> (distinct result \<longrightarrow> distinct l)
     \<and> (\<forall>raw\<in>set raws. normalize_ability raw \<noteq> None)"
  by (induction raws arbitrary: result) (fastforce split: option.splits if_splits)+

lemma ability_allows_pair:
  assumes "CHR '':'' \<notin> set s"
  shows "ability_allows (Some g) (replace_char (CHR ''-'') (CHR ''_'') s @ '':'' @ act)
     \<longleftrightarrow> list_ex (\<lambda>x. x \<in> {WILDCARD, replace_char (CHR ''-'') (CHR ''_'') s @ '':'' @ act,
           replace_char (CHR ''-'') (CHR ''_'') s @ '':'' @ WILDCARD}) g"
  using assms by (simp add: ability_allows_def partition_on_append Let_def)

lemma key_pair_eq:
  "CHR '':'' \<notin> set a \<Longrightarrow> CHR '':'' \<notin> set b \<Longrightarrow> a @ CHR '':'' # x = b @ CHR '':'' # y \<longleftrightarrow> a = b \<and> x = y"
  by (metis partition_on_append prod.inject)

text \<open>What one ability on the command line covers.\<close>

definition covers :: "string \<Rightarrow> string \<Rightarrow> string \<Rightarrow> bool" where
  "covers raw service act \<longleftrightarrow> strip raw = ''*''
     \<or> (\<exists>s a. strip raw = s @ '':'' @ a \<and> CHR '':'' \<notin> set s
          \<and> replace_char (CHR ''-'') (CHR ''_'') s = replace_char (CHR ''-'') (CHR ''_'') service \<and> (a = act \<or> a = ''*''))"

lemma normalized_covers:
  assumes "normalize_ability raw = Some a" "CHR '':'' \<notin> set service"
  shows "a \<in> {WILDCARD, replace_char (CHR ''-'') (CHR ''_'') service @ '':'' @ act,
      replace_char (CHR ''-'') (CHR ''_'') service @ '':'' @ WILDCARD} \<longleftrightarrow> covers raw service act"
  using assms(1)
proof (cases rule: normalize_ability_cases)
  case 1
  then show ?thesis by (simp add: covers_def WILDCARD_def)
next
  case r: (2 s x)
  have ne: "strip raw \<noteq> ''*''" "a \<noteq> WILDCARD" using r by (auto simp: Cons_eq_append_conv WILDCARD_def append_eq_Cons_conv)
  have "(\<exists>s' a'. strip raw = s' @ '':'' @ a' \<and> CHR '':'' \<notin> set s' \<and> P s' a') \<longleftrightarrow> P s x" for P
    using r(1,2) key_pair_eq [of s _ x] by auto
  note e = this [of "\<lambda>s' a'. replace_char (CHR ''-'') (CHR ''_'') s' = replace_char (CHR ''-'') (CHR ''_'') service \<and> (a' = act \<or> a' = ''*'')"]
  have "covers raw service act \<longleftrightarrow>
      replace_char (CHR ''-'') (CHR ''_'') s = replace_char (CHR ''-'') (CHR ''_'') service \<and> (x = act \<or> x = ''*'')"
    using e ne(1) by (simp add: covers_def)
  moreover have "a \<in> {WILDCARD, replace_char (CHR ''-'') (CHR ''_'') service @ '':'' @ act,
      replace_char (CHR ''-'') (CHR ''_'') service @ '':'' @ WILDCARD} \<longleftrightarrow>
      replace_char (CHR ''-'') (CHR ''_'') s = replace_char (CHR ''-'') (CHR ''_'') service \<and> (x = act \<or> x = ''*'')"
    using r assms(2) ne(2)
    by (simp add: key_pair_eq [of "replace_char (CHR ''-'') (CHR ''_'') s" "replace_char (CHR ''-'') (CHR ''_'') service"] WILDCARD_def) blast
  ultimately show ?thesis by simp
qed

lemma parse_abilities_set:
  assumes "parse_abilities raws = Inr g"
  shows "set g = {a. \<exists>raw\<in>set (or_empty raws). normalize_ability raw = Some a}" "distinct g"
    "raw \<in> set (or_empty raws) \<Longrightarrow> normalize_ability raw \<noteq> None"
  using add_abilities_set [OF assms [unfolded parse_abilities_def]] by (auto simp: or_empty_def split: option.splits)

text \<open>
  Abilities mean what the command line says: a key created or updated with a list of
  abilities may call an action of a service exactly when one item of the list is \<open>*\<close>, names the
  action of the service, or names the service with the action \<open>*\<close>, where \<open>-\<close> and \<open>_\<close> in the name of
  the service are the same.
\<close>

theorem abilities_mean_what_they_say:
  assumes "parse_abilities raws = Inr granted" "CHR '':'' \<notin> set service"
  shows "ability_allows (Some granted) (replace_char (CHR ''-'') (CHR ''_'') service @ '':'' @ act)
    \<longleftrightarrow> (\<exists>raw\<in>set (or_empty raws). covers raw service act)"
proof -
  note g = parse_abilities_set [OF assms(1)]
  let ?ok = "\<lambda>x. x \<in> {WILDCARD, replace_char (CHR ''-'') (CHR ''_'') service @ '':'' @ act,
        replace_char (CHR ''-'') (CHR ''_'') service @ '':'' @ WILDCARD}"
  have "(\<exists>x. normalize_ability raw = Some x \<and> ?ok x) \<longleftrightarrow> covers raw service act" if r: "raw \<in> set (or_empty raws)" for raw
  proof -
    obtain x where x: "normalize_ability raw = Some x" using g(3) [OF r] by blast
    show ?thesis using normalized_covers [OF x assms(2), of act] x by simp
  qed
  moreover have "list_ex ?ok granted \<longleftrightarrow> (\<exists>raw\<in>set (or_empty raws). \<exists>x. normalize_ability raw = Some x \<and> ?ok x)"
    unfolding list_ex_iff g(1) by blast
  ultimately show ?thesis unfolding ability_allows_pair [OF assms(2)] by (simp cong: bex_cong)
qed

theorem abilities_mean_what_they_say_witness:
  "ability_allows (Some [''sudat_reports:*'']) (replace_char (CHR ''-'') (CHR ''_'') ''sudat-reports'' @ '':'' @ ''report'')
    \<longleftrightarrow> (\<exists>raw\<in>set (or_empty (Some ['' sudat-reports:* ''])). covers raw ''sudat-reports'' ''report'')"
proof -
  have p: "parse_abilities (Some ['' sudat-reports:* '']) = Inr [''sudat_reports:*'']" by code_simp
  show ?thesis by (rule abilities_mean_what_they_say [OF p]) simp
qed

section \<open>The life of a key\<close>

text \<open>Everything that writes to the table: the commands, and a request that uses a key.\<close>

inductive key_step :: "krow list \<Rightarrow> krow list \<Rightarrow> bool" where
  created: "cmd_create p sha fmt six thirtytwo pepper name abilities ips expires user rows = (c, l, rows1) \<Longrightarrow> key_step rows rows1"
| revoked: "cmd_revoke p fmt ref rows = (x, rows1) \<Longrightarrow> key_step rows rows1"
| updated: "cmd_update p fmt ref u rows = (x, rows1) \<Longrightarrow> key_step rows rows1"
| used: "r \<in> set rows \<Longrightarrow> use_key p now r rows = Some (r1, rows1) \<Longrightarrow> key_step rows rows1"

definition keys_ok :: "krow list \<Rightarrow> bool" where
  "keys_ok rows \<longleftrightarrow> distinct (map k_id rows) \<and> distinct (map k_prefix rows)"

text \<open>What a row keeps for good: its identity, its secret, and that it was revoked.\<close>

definition same_key :: "krow \<Rightarrow> krow \<Rightarrow> bool" where
  "same_key r x \<longleftrightarrow> k_id x = k_id r \<and> k_prefix x = k_prefix r \<and> k_hash x = k_hash r
     \<and> (k_disabled r \<noteq> None \<longrightarrow> k_disabled x = k_disabled r) \<and> k_uses r \<le> k_uses x"

lemma set_row_keeps:
  assumes "keys_ok rows" "\<And>r. r \<in> set rows \<Longrightarrow> k_id r = i \<Longrightarrow> same_key r (f r)"
  shows "keys_ok (set_row i f rows) \<and> list_all2 same_key rows (set_row i f rows)"
proof -
  have "same_key r (if k_id r = i then f r else r)" if "r \<in> set rows" for r
    using assms(2) [OF that] by (simp add: same_key_def)
  then have a: "list_all2 same_key rows (set_row i f rows)"
    by (simp add: set_row_def list_all2_map2 list.rel_refl_strong)
  then have "map k_id (set_row i f rows) = map k_id rows" "map k_prefix (set_row i f rows) = map k_prefix rows"
    by (induction rule: list_all2_induct) (auto simp: same_key_def)
  then show ?thesis using a assms(1) by (simp add: keys_ok_def)
qed

lemma insert_key_ok:
  "insert_key p name pfx hash abilities ips expires user rows = Some (r, rows1) \<Longrightarrow> keys_ok rows \<Longrightarrow>
     keys_ok rows1 \<and> rows1 = rows @ [r] \<and> k_prefix r = pfx \<and> k_hash r = hash \<and> k_abilities r = abilities
     \<and> k_disabled r = None \<and> k_expires r = expires \<and> k_user r = user \<and> cidr_array p ips = Some (k_ips r) \<and> k_uses r = 0"
  by (auto simp: insert_key_def keys_ok_def Let_def split: option.splits if_splits)

lemma find_in_set: "find P xs = Some x \<Longrightarrow> x \<in> set xs \<and> P x"
  by (auto simp: find_Some_iff)

text \<open>The rows there were are kept, others may follow.\<close>

definition kept :: "krow list \<Rightarrow> krow list \<Rightarrow> bool" where
  "kept rows rows1 \<longleftrightarrow> keys_ok rows1 \<and> list_all2 same_key rows (take (length rows) rows1)"

lemma same_key_refl [simp]: "same_key r r"
  by (simp add: same_key_def)

lemma kept_refl [simp]: "keys_ok rows \<Longrightarrow> kept rows rows"
  by (simp add: kept_def list.rel_refl_strong)

lemma same_id: "keys_ok rows \<Longrightarrow> x \<in> set rows \<Longrightarrow> r \<in> set rows \<Longrightarrow> k_id x = k_id r \<Longrightarrow> x = r"
  by (auto simp: keys_ok_def distinct_map dest: inj_onD)

lemma kept_set_row:
  assumes "keys_ok rows" "r \<in> set rows" "same_key r (f r)"
  shows "kept rows (set_row (k_id r) f rows)"
proof -
  have "same_key x (f x)" if "x \<in> set rows" "k_id x = k_id r" for x
    using same_id [OF assms(1) that(1) assms(2) that(2)] assms(3) by simp
  from set_row_keeps [OF assms(1) this] show ?thesis by (simp add: kept_def list_all2_lengthD set_row_def)
qed

lemma kept_create:
  assumes "cmd_create p sha fmt six thirtytwo pepper name abilities ips expires user rows = (c, l, rows1)" "keys_ok rows"
  shows "kept rows rows1"
proof (cases "insert_key p name (fst (generate_key six thirtytwo)) (hash_secret sha (snd (generate_key six thirtytwo)) pepper)
    abilities ips expires user rows")
  case None
  then show ?thesis using assms by (simp add: cmd_create_def Let_def split_def)
next
  case (Some x)
  then have "rows1 = snd x" using assms(1) by (cases x) (simp add: cmd_create_def Let_def split_def)
  moreover have "keys_ok (snd x)" "snd x = rows @ [fst x]"
    using Some insert_key_ok [OF _ assms(2)] by (metis prod.collapse)+
  ultimately show ?thesis by (simp add: kept_def list.rel_refl_strong)
qed

lemma cmd_revoke_rows:
  "snd (cmd_revoke p fmt ref rows) =
     (case where_ref ref of Inl e \<Rightarrow> rows | Inr w \<Rightarrow>
        if \<not> pg_up p then rows
        else (case find (matches_ref w) rows of None \<Rightarrow> rows | Some r \<Rightarrow>
                (case k_disabled r of Some t \<Rightarrow> rows
                 | None \<Rightarrow> set_row (k_id r) (\<lambda>x. x\<lparr>k_disabled := Some (pg_now p), k_updated := pg_now p\<rparr>) rows)))"
  unfolding cmd_revoke_def by (simp only: snd_conv sum.case_distrib [of snd] option.case_distrib [of snd] if_distrib [of snd])

lemma kept_revoke: "keys_ok rows \<Longrightarrow> kept rows (snd (cmd_revoke p fmt ref rows))"
  by (auto simp: cmd_revoke_rows same_key_def intro!: kept_set_row dest!: find_in_set split: sum.split option.split)

lemma changed_row_fields:
  assumes "changed_row p u r = Some r1"
  shows "k_id r1 = k_id r" "k_prefix r1 = k_prefix r" "k_hash r1 = k_hash r" "k_disabled r1 = k_disabled r" "k_uses r1 = k_uses r"
    "k_created r1 = k_created r" "k_last_used r1 = k_last_used r"
  using assms unfolding changed_row_def Let_def by (auto split: option.split_asm if_split_asm)

lemma changed_row_same: "changed_row p u r = Some r1 \<Longrightarrow> same_key r r1"
  using changed_row_fields by (simp add: same_key_def)

lemma cmd_update_rows:
  "snd (cmd_update p fmt ref u rows) =
     (case where_ref ref of Inl e \<Rightarrow> rows | Inr w \<Rightarrow>
        if \<not> pg_up p then rows
        else (case find (matches_ref w) rows of None \<Rightarrow> rows | Some r \<Rightarrow>
                (case changed_row p u r of None \<Rightarrow> rows | Some r1 \<Rightarrow> set_row (k_id r) (\<lambda>_. r1) rows)))"
  unfolding cmd_update_def by (simp only: snd_conv sum.case_distrib [of snd] option.case_distrib [of snd] if_distrib [of snd])

lemma kept_update: "keys_ok rows \<Longrightarrow> kept rows (snd (cmd_update p fmt ref u rows))"
  by (auto simp: cmd_update_rows changed_row_same intro!: kept_set_row dest!: find_in_set split: sum.split option.split)

lemma kept_use:
  assumes "r \<in> set rows" "use_key p now r rows = Some (r1, rows1)" "keys_ok rows"
  shows "kept rows rows1"
proof -
  have "rows1 = set_row (k_id r) (\<lambda>x. x\<lparr>k_last_used := Some (pg_now p), k_uses := k_uses x + 1\<rparr>) rows"
    using assms(2) by (auto simp: use_key_def split: if_splits)
  then show ?thesis using assms(1,3) by (simp add: kept_set_row same_key_def)
qed

lemma key_step_kept: "key_step rows rows1 \<Longrightarrow> keys_ok rows \<Longrightarrow> kept rows rows1"
proof (induction rule: key_step.induct)
  case (revoked p fmt ref rows x rows1)
  then show ?case using kept_revoke [of rows p fmt ref] by simp
next
  case (updated p fmt ref u rows x rows1)
  then show ?case using kept_update [of rows p fmt ref u] by simp
qed (rule kept_create kept_use; assumption)+

lemma same_key_trans: "same_key a b \<Longrightarrow> same_key b c \<Longrightarrow> same_key a c"
  by (auto simp: same_key_def)

lemma kept_trans:
  assumes "kept a b" "kept b c"
  shows "kept a c"
proof -
  have le: "length a \<le> length b" "length b \<le> length c"
    using assms by (auto simp: kept_def dest!: list_all2_lengthD)
  have "list_all2 same_key (take (length a) b) (take (length a) (take (length b) c))"
    using assms(2) by (intro list_all2_takeI) (simp add: kept_def)
  then have b: "list_all2 same_key (take (length a) b) (take (length a) c)" using le by (simp add: min_def)
  have "list_all2 same_key a (take (length a) c)"
    by (rule list_all2_trans [OF same_key_trans _ b]) (use assms(1) in \<open>auto simp: kept_def\<close>)
  then show ?thesis using assms(2) by (simp add: kept_def)
qed

lemma key_steps_kept: "key_step\<^sup>*\<^sup>* rows rows1 \<Longrightarrow> keys_ok rows \<Longrightarrow> kept rows rows1"
proof (induction rule: rtranclp_induct)
  case (step y z)
  then have "kept rows y" "keys_ok y" by (simp_all add: kept_def)
  then show ?case using key_step_kept [OF step.hyps(2)] kept_trans by blast
qed simp

lemma kept_row:
  assumes "kept rows rows1" "r \<in> set rows"
  shows "\<exists>x\<in>set rows1. same_key r x"
proof -
  from assms(2) obtain i where i: "i < length rows" "rows ! i = r" by (auto simp: in_set_conv_nth)
  have a: "list_all2 same_key rows (take (length rows) rows1)" using assms(1) by (simp add: kept_def)
  have "same_key r (rows1 ! i)" using list_all2_nthD [OF a i(1)] i by simp
  moreover have "i < length rows1" using list_all2_lengthD [OF a] i(1) by simp
  ultimately show ?thesis by (meson nth_mem)
qed

section \<open>New keys\<close>

lemma hex_digit_no_dot: "n < 16 \<Longrightarrow> hex_digit n \<noteq> CHR ''.''"
proof
  assume "n < 16" "hex_digit n = CHR ''.''"
  moreover have "of_char (char_of (if n < 10 then 48 + n else 87 + n mod 16)) = (if n < 10 then 48 + n else 87 + n mod 16)"
    using \<open>n < 16\<close> by (simp add: of_char_of)
  ultimately show False by (simp add: hex_digit_def split: if_splits)
qed

lemma token_hex_no_dot: "list_all (\<lambda>b. b < 256) bs \<Longrightarrow> CHR ''.'' \<notin> set (token_hex bs)"
proof (induction bs)
  case (Cons b bs)
  then have "hex_digit (b div 16) \<noteq> CHR ''.''" "hex_digit (b mod 16) \<noteq> CHR ''.''" by (auto intro!: hex_digit_no_dot)
  then show ?case using Cons by (auto simp: token_hex_def)
qed (simp add: token_hex_def)

lemma split_generated:
  assumes "generate_key six thirtytwo = (pfx, secret)" "list_all (\<lambda>b. b < 256) six" "thirtytwo \<noteq> []"
  shows "split_key (pfx @ ''.'' @ secret) = Some (pfx, secret)"
proof -
  have "secret \<noteq> []" using assms(1,3) by (cases thirtytwo rule: token_urlsafe.cases) (auto simp: generate_key_def)
  moreover have "CHR ''.'' \<notin> set pfx" "pfx \<noteq> []"
    using assms(1) token_hex_no_dot [OF assms(2)] by (auto simp: generate_key_def PREFIX_MARKER_def)
  ultimately show ?thesis by (simp add: split_key_def partition_on_append)
qed

end
