(* ===== verification/Wbcm_Registry.thy ===== *)
theory Wbcm_Registry
  imports App_Prelude
begin

text \<open>
  The connection registries of the WebSocket connection manager:
  \<open>wbcm/factory.py\<close> (\<open>UserConnections\<close>) and \<open>wbcm/device_connections.py\<close>
  (\<open>DeviceConnections\<close>). Each keeps the sockets by connection uid and, per user or device, the
  list of connection uids that receive its messages. What both promise is the locale
  \<open>connection_registry\<close>, interpreted on both classes.
\<close>

section \<open>State\<close>

text \<open>A socket, as far as the registries and the manager look at it.\<close>

record conn =
  conn_uid :: "string option"
  conn_sid :: "string option"

datatype reg_error = AssertionError

record user_registry =
  user_connections :: "(string, conn) dict"
  user_id_map :: "(string, string list) dict"

record device_registry =
  device_connections :: "(string, conn) dict"
  device_id_map :: "(string, string list) dict"

definition user_init :: user_registry where
  "user_init = \<lparr>user_connections = [], user_id_map = []\<rparr>"

definition device_init :: device_registry where
  "device_init = \<lparr>device_connections = [], device_id_map = []\<rparr>"

text \<open>\<open>assert conn.uid\<close>: neither None nor the empty string.\<close>

definition checked_uid :: "conn \<Rightarrow> reg_error + string" where
  "checked_uid c = (case conn_uid c of
      None \<Rightarrow> Inl AssertionError
    | Some u \<Rightarrow> if u = '''' then Inl AssertionError else Inr u)"

section \<open>Operations of UserConnections\<close>

definition user_add_connection :: "conn \<Rightarrow> user_registry \<Rightarrow> reg_error + user_registry" where
  "user_add_connection c r = (case checked_uid c of
      Inl e \<Rightarrow> Inl e
    | Inr u \<Rightarrow> Inr (r\<lparr>user_connections := AList.update u c (user_connections r)\<rparr>))"

text \<open>
  The loop of \<open>unassign_connection\<close> walks a snapshot of the items while it changes the live map:
  \<open>conn_ids.remove\<close> takes the first occurrence out of the list stored under the key, and an
  emptied list takes its key with it.
\<close>

fun unassign_loop ::
  "(string \<times> string list) list \<Rightarrow> string \<Rightarrow> string option \<Rightarrow> (string, string list) dict
    \<Rightarrow> (string, string list) dict" where
  "unassign_loop [] c keep m = m"
| "unassign_loop ((i, cs) # rest) c keep m =
     (if Some i = keep then unassign_loop rest c keep m
      else if c \<in> set cs then
        (if remove1 c cs = [] then unassign_loop rest c keep (AList.delete i m)
         else unassign_loop rest c keep (AList.update i (remove1 c cs) m))
      else unassign_loop rest c keep m)"

definition user_unassign_connection ::
  "string \<Rightarrow> string option \<Rightarrow> user_registry \<Rightarrow> user_registry" where
  "user_unassign_connection c keep r =
     r\<lparr>user_id_map := unassign_loop (user_id_map r) c keep (user_id_map r)\<rparr>"

definition user_remove_connection :: "conn \<Rightarrow> user_registry \<Rightarrow> reg_error + user_registry" where
  "user_remove_connection c r = (case checked_uid c of
      Inl e \<Rightarrow> Inl e
    | Inr u \<Rightarrow>
        let r1 = (if map_of (user_connections r) u \<noteq> None
                  then r\<lparr>user_connections := AList.delete u (user_connections r)\<rparr> else r)
        in Inr (user_unassign_connection u None r1))"

definition user_reset :: "user_registry \<Rightarrow> user_registry" where
  "user_reset r = r\<lparr>user_connections := [], user_id_map := []\<rparr>"

text \<open>The tail of \<open>assign_user_id\<close> and \<open>assign_device_id\<close>, after the unassign.\<close>

definition append_conn ::
  "string \<Rightarrow> string \<Rightarrow> (string, string list) dict \<Rightarrow> (string, string list) dict" where
  "append_conn c i m =
     (let m1 = (if map_of m i = None then AList.update i [] m else m);
          cs = (case map_of m1 i of None \<Rightarrow> [] | Some cs \<Rightarrow> cs)
      in if c \<in> set cs then m1 else AList.update i (cs @ [c]) m1)"

definition assign_user_id :: "string \<Rightarrow> string \<Rightarrow> user_registry \<Rightarrow> user_registry" where
  "assign_user_id c i r =
     (let r1 = user_unassign_connection c (Some i) r
      in r1\<lparr>user_id_map := append_conn c i (user_id_map r1)\<rparr>)"

definition remove_user_id :: "string \<Rightarrow> user_registry \<Rightarrow> user_registry" where
  "remove_user_id i r =
     (if map_of (user_id_map r) i \<noteq> None
      then r\<lparr>user_id_map := AList.delete i (user_id_map r)\<rparr> else r)"

text \<open>The loop of both getters: uids that have no live socket are passed over.\<close>

fun live_connections :: "string list \<Rightarrow> (string, conn) dict \<Rightarrow> conn list" where
  "live_connections [] d = []"
| "live_connections (c # cs) d =
     (case map_of d c of None \<Rightarrow> live_connections cs d
      | Some k \<Rightarrow> k # live_connections cs d)"

definition get_connections_by_user_id :: "string \<Rightarrow> user_registry \<Rightarrow> conn list" where
  "get_connections_by_user_id i r = (case map_of (user_id_map r) i of
      None \<Rightarrow> []
    | Some cs \<Rightarrow> live_connections cs (user_connections r))"

section \<open>Operations of DeviceConnections\<close>

definition device_add_connection :: "conn \<Rightarrow> device_registry \<Rightarrow> reg_error + device_registry" where
  "device_add_connection c r = (case checked_uid c of
      Inl e \<Rightarrow> Inl e
    | Inr u \<Rightarrow> Inr (r\<lparr>device_connections := AList.update u c (device_connections r)\<rparr>))"

definition device_unassign_connection ::
  "string \<Rightarrow> string option \<Rightarrow> device_registry \<Rightarrow> device_registry" where
  "device_unassign_connection c keep r =
     r\<lparr>device_id_map := unassign_loop (device_id_map r) c keep (device_id_map r)\<rparr>"

definition device_remove_connection :: "conn \<Rightarrow> device_registry \<Rightarrow> reg_error + device_registry"
  where
  "device_remove_connection c r = (case checked_uid c of
      Inl e \<Rightarrow> Inl e
    | Inr u \<Rightarrow>
        let r1 = (if map_of (device_connections r) u \<noteq> None
                  then r\<lparr>device_connections := AList.delete u (device_connections r)\<rparr> else r)
        in Inr (device_unassign_connection u None r1))"

definition device_reset :: "device_registry \<Rightarrow> device_registry" where
  "device_reset r = r\<lparr>device_connections := [], device_id_map := []\<rparr>"

definition assign_device_id :: "string \<Rightarrow> string \<Rightarrow> device_registry \<Rightarrow> device_registry" where
  "assign_device_id c i r =
     (let r1 = device_unassign_connection c (Some i) r
      in r1\<lparr>device_id_map := append_conn c i (device_id_map r1)\<rparr>)"

definition remove_device_id :: "string \<Rightarrow> device_registry \<Rightarrow> device_registry" where
  "remove_device_id i r =
     (if map_of (device_id_map r) i \<noteq> None
      then r\<lparr>device_id_map := AList.delete i (device_id_map r)\<rparr> else r)"

definition get_connections_by_device_id :: "string \<Rightarrow> device_registry \<Rightarrow> conn list" where
  "get_connections_by_device_id i r = (case map_of (device_id_map r) i of
      None \<Rightarrow> []
    | Some cs \<Rightarrow> live_connections cs (device_connections r))"

section \<open>The fan-out lists\<close>

definition listed :: "(string, string list) dict \<Rightarrow> string \<Rightarrow> string \<Rightarrow> bool" where
  "listed m i c \<longleftrightarrow> (case map_of m i of None \<Rightarrow> False | Some cs \<Rightarrow> c \<in> set cs)"

text \<open>
  Well-formed fan-out lists: one entry per key, no empty list kept, and no connection twice,
  neither in one list nor under two keys.
\<close>

definition lists_ok :: "(string, string list) dict \<Rightarrow> bool" where
  "lists_ok m \<longleftrightarrow>
     dict_ok m \<and> list_all (\<lambda>(i, cs). cs \<noteq> []) m \<and> distinct (concat (map snd m))"

text \<open>What one entry becomes when \<open>c\<close> is dropped: the loop's effect, entry by entry.\<close>

definition drop_conn :: "string \<Rightarrow> string option \<Rightarrow> string \<times> string list \<Rightarrow> (string \<times> string list) list"
  where
  "drop_conn c keep = (\<lambda>(i, cs).
     if Some i = keep \<or> c \<notin> set cs then [(i, cs)]
     else if remove1 c cs = [] then [] else [(i, remove1 c cs)])"

lemma update_middle:
  "i \<notin> fst ` set pre \<Longrightarrow> AList.update i v (pre @ (i, w) # suf) = pre @ (i, v) # suf"
  by (induction pre) auto

lemma delete_middle:
  "i \<notin> fst ` set pre \<Longrightarrow> i \<notin> fst ` set suf \<Longrightarrow> AList.delete i (pre @ (i, w) # suf) = pre @ suf"
  by (induction pre) auto

lemma unassign_loop_aux:
  "dict_ok (pre @ suf) \<Longrightarrow>
     unassign_loop suf c keep (pre @ suf) = pre @ concat (map (drop_conn c keep) suf)"
proof (induction suf arbitrary: pre)
  case Nil
  then show ?case by simp
next
  case (Cons p suf)
  obtain i cs where p: "p = (i, cs)" by (cases p)
  have i: "i \<notin> fst ` set pre" "i \<notin> fst ` set suf"
    using Cons.prems by (auto simp: p dict_ok_def)
  have ok: "dict_ok ((pre @ [(i, ds)]) @ suf)" "dict_ok (pre @ suf)" for ds
    using Cons.prems by (auto simp: p dict_ok_def)
  have IH: "unassign_loop suf c keep (pre @ (i, ds) # suf)
              = pre @ (i, ds) # concat (map (drop_conn c keep) suf)" for ds
    using Cons.IH [OF ok(1) [of ds]] by simp
  show ?case
    using IH Cons.IH [OF ok(2)] i by (simp add: p drop_conn_def update_middle delete_middle)
qed

lemma unassign_loop_eq:
  "dict_ok m \<Longrightarrow> unassign_loop m c keep m = concat (map (drop_conn c keep) m)"
  using unassign_loop_aux [of "[]" m c keep] by simp

lemma keys_drop_conn: "fst ` set (concat (map (drop_conn c keep) m)) \<subseteq> fst ` set m"
  by (force simp: drop_conn_def split: if_splits)

lemma dict_ok_drop_conn: "dict_ok m \<Longrightarrow> dict_ok (concat (map (drop_conn c keep) m))"
proof (induction m)
  case Nil
  then show ?case by simp
next
  case (Cons p m)
  obtain j cs where p: "p = (j, cs)" by (cases p)
  have "j \<notin> fst ` set (concat (map (drop_conn c keep) m))"
    using keys_drop_conn [of c keep m] Cons.prems by (simp add: p subset_iff) blast
  with Cons show ?case by (simp add: p drop_conn_def)
qed

lemma map_of_drop_conn:
  "dict_ok m \<Longrightarrow> map_of (concat (map (drop_conn c keep) m)) i =
     (case map_of m i of None \<Rightarrow> None
      | Some cs \<Rightarrow> map_of (drop_conn c keep (i, cs)) i)"
proof (induction m)
  case Nil
  then show ?case by simp
next
  case (Cons p m)
  have none: "map_of (concat (map (drop_conn c keep) m)) (fst p) = None"
    using Cons.prems keys_drop_conn [of c keep m]
    by (cases p) (auto simp: map_of_eq_None_iff)
  show ?case using Cons none
    by (cases p) (auto simp: drop_conn_def map_add_def split: option.splits)
qed

lemma listed_Cons:
  "listed ((j, cs) # m) i c \<longleftrightarrow> (if i = j then c \<in> set cs else listed m i c)"
  by (simp add: listed_def)

lemma listed_in_concat: "dict_ok m \<Longrightarrow> (\<exists>i. listed m i c) \<longleftrightarrow> c \<in> set (concat (map snd m))"
proof (induction m)
  case Nil
  then show ?case by (simp add: listed_def)
next
  case (Cons p m)
  obtain j cs where p: "p = (j, cs)" by (cases p)
  have "map_of m j = None" using Cons.prems by (simp add: p map_of_eq_None_iff)
  then have nl: "\<not> listed m j c" by (simp add: listed_def)
  have "(\<exists>i. listed (p # m) i c) \<longleftrightarrow> c \<in> set cs \<or> (\<exists>i. listed m i c)"
    using nl by (auto simp: p listed_Cons)
  with Cons show ?case by (simp add: p)
qed

definition exclusive :: "(string, string list) dict \<Rightarrow> bool" where
  "exclusive m \<longleftrightarrow> (\<forall>i j c. listed m i c \<longrightarrow> listed m j c \<longrightarrow> i = j)"

lemma exclusive_Cons:
  assumes "map_of m j = None"
  shows "exclusive ((j, cs) # m) \<longleftrightarrow> exclusive m \<and> (\<forall>c \<in> set cs. \<forall>i. \<not> listed m i c)"
proof -
  have nl: "\<not> listed m j c" for c using assms by (simp add: listed_def)
  have *: "listed ((j, cs) # m) i c \<longleftrightarrow> listed m i c \<or> (i = j \<and> c \<in> set cs)" for i c
    using nl by (simp add: listed_Cons)
  show ?thesis unfolding exclusive_def * using nl by blast
qed

lemma lists_ok_iff:
  "lists_ok m \<longleftrightarrow> dict_ok m \<and> (\<forall>cs \<in> ran (map_of m). cs \<noteq> [] \<and> distinct cs) \<and> exclusive m"
proof (induction m)
  case Nil
  then show ?case by (simp add: lists_ok_def exclusive_def listed_def)
next
  case (Cons p m)
  obtain j cs where p: "p = (j, cs)" by (cases p)
  show ?case
  proof (cases "dict_ok (p # m)")
    case True
    then have ok: "dict_ok m" and j: "map_of m j = None"
      by (auto simp: p map_of_eq_None_iff)
    have "lists_ok (p # m) \<longleftrightarrow> lists_ok m \<and> cs \<noteq> [] \<and> distinct cs
            \<and> (\<forall>c \<in> set cs. c \<notin> set (concat (map snd m)))"
      using True ok unfolding lists_ok_def p by auto
    also have "\<dots> \<longleftrightarrow> lists_ok m \<and> cs \<noteq> [] \<and> distinct cs
            \<and> (\<forall>c \<in> set cs. \<forall>i. \<not> listed m i c)"
      using listed_in_concat [OF ok] by blast
    finally have *: "lists_ok (p # m) \<longleftrightarrow> lists_ok m \<and> cs \<noteq> [] \<and> distinct cs
            \<and> (\<forall>c \<in> set cs. \<forall>i. \<not> listed m i c)" .
    have ran: "ran (map_of (p # m)) = insert cs (ran (map_of m))"
      using ran_map_upd [where m = "map_of m", OF j] by (simp add: p)
    show ?thesis
      unfolding * Cons.IH ran using True ok by (simp only: p exclusive_Cons [OF j]) blast
  qed (simp add: lists_ok_def)
qed

lemma lists_ok_entry: "lists_ok m \<Longrightarrow> map_of m i = Some cs \<Longrightarrow> cs \<noteq> [] \<and> distinct cs"
  unfolding lists_ok_iff by (blast intro: ranI)

lemma lists_okI:
  "dict_ok m \<Longrightarrow> (\<And>i cs. map_of m i = Some cs \<Longrightarrow> cs \<noteq> [] \<and> distinct cs) \<Longrightarrow> exclusive m \<Longrightarrow> lists_ok m"
  unfolding lists_ok_iff ran_def by blast

lemma map_of_unassign:
  "dict_ok m \<Longrightarrow> map_of (unassign_loop m c keep m) i = (case map_of m i of None \<Rightarrow> None
      | Some cs \<Rightarrow> if Some i = keep \<or> c \<notin> set cs then Some cs
                   else if remove1 c cs = [] then None else Some (remove1 c cs))"
  by (cases "map_of m i") (simp_all add: unassign_loop_eq map_of_drop_conn, simp add: drop_conn_def)

lemma lists_ok_exclusive: "lists_ok m \<Longrightarrow> listed m i c \<Longrightarrow> listed m j c \<Longrightarrow> i = j"
  by (simp add: lists_ok_iff exclusive_def)

lemma listed_unassign:
  assumes "lists_ok m"
  shows "listed (unassign_loop m c keep m) i c' \<longleftrightarrow> listed m i c' \<and> (c' = c \<longrightarrow> keep = Some i)"
proof -
  have ok: "dict_ok m" using assms by (simp add: lists_ok_iff)
  show ?thesis
  proof (cases "map_of m i")
    case (Some cs)
    with lists_ok_entry [OF assms] have "distinct cs" by blast
    then have "set (remove1 c cs) = set cs - {c}" by simp
    moreover from this have "remove1 c cs = [] \<longleftrightarrow> set cs - {c} = {}" by (metis set_empty)
    ultimately show ?thesis using Some by (auto simp: listed_def map_of_unassign [OF ok])
  qed (simp add: listed_def map_of_unassign [OF ok])
qed

lemma lists_ok_unassign:
  assumes "lists_ok m"
  shows "lists_ok (unassign_loop m c keep m)"
proof (rule lists_okI)
  have ok: "dict_ok m" using assms by (simp add: lists_ok_iff)
  then show "dict_ok (unassign_loop m c keep m)"
    by (simp add: unassign_loop_eq dict_ok_drop_conn)
  show "exclusive (unassign_loop m c keep m)"
    using lists_ok_exclusive [OF assms] unfolding exclusive_def listed_unassign [OF assms] by blast
  show "cs \<noteq> [] \<and> distinct cs" if "map_of (unassign_loop m c keep m) i = Some cs" for i cs
    using that by (auto simp: map_of_unassign [OF ok] split: option.splits if_splits
        dest: lists_ok_entry [OF assms])
qed

lemma listed_append_conn:
  "listed (append_conn c i m) j c' \<longleftrightarrow> listed m j c' \<or> (j = i \<and> c' = c)"
  by (auto simp: listed_def append_conn_def Let_def update_conv' split: option.splits if_splits)

lemma lists_ok_append_conn:
  assumes "lists_ok m" "\<And>j. listed m j c \<Longrightarrow> j = i"
  shows "lists_ok (append_conn c i m)"
proof (rule lists_okI)
  show "dict_ok (append_conn c i m)"
    using assms(1) by (simp add: lists_ok_def append_conn_def Let_def)
  show "cs \<noteq> [] \<and> distinct cs" if "map_of (append_conn c i m) j = Some cs" for j cs
    using that by (auto simp: append_conn_def Let_def update_conv' split: option.splits if_splits
        dest: lists_ok_entry [OF assms(1)])
  show "exclusive (append_conn c i m)"
    using assms(2) lists_ok_exclusive [OF assms(1)]
    unfolding exclusive_def listed_append_conn by metis
qed

lemma listed_delete: "listed (AList.delete i m) j c \<longleftrightarrow> j \<noteq> i \<and> listed m j c"
  by (simp add: listed_def delete_conv')

lemma lists_ok_delete:
  assumes "lists_ok m"
  shows "lists_ok (AList.delete i m)"
proof (rule lists_okI)
  show "dict_ok (AList.delete i m)" using assms by (simp add: lists_ok_def)
  show "exclusive (AList.delete i m)"
    using lists_ok_exclusive [OF assms] unfolding exclusive_def listed_delete by blast
  show "cs \<noteq> [] \<and> distinct cs" if "map_of (AList.delete i m) j = Some cs" for j cs
    using that by (auto simp: delete_conv' split: if_splits dest: lists_ok_entry [OF assms])
qed

lemma set_live_connections:
  "set (live_connections cs d) = {k. \<exists>c \<in> set cs. map_of d c = Some k}"
  by (induction cs) (auto split: option.splits)

section \<open>What a registry promises\<close>

text \<open>Calls a handler can make on a registry; a call that raises leaves the registry as it was.\<close>

datatype reg_op = AddConn conn | RemoveConn conn | AssignId string string | Unassign string
  | RemoveId string

fun user_exec :: "reg_op \<Rightarrow> user_registry \<Rightarrow> user_registry" where
  "user_exec (AddConn c) r = (case user_add_connection c r of Inl _ \<Rightarrow> r | Inr r' \<Rightarrow> r')"
| "user_exec (RemoveConn c) r = (case user_remove_connection c r of Inl _ \<Rightarrow> r | Inr r' \<Rightarrow> r')"
| "user_exec (AssignId c i) r = assign_user_id c i r"
| "user_exec (Unassign c) r = user_unassign_connection c None r"
| "user_exec (RemoveId i) r = remove_user_id i r"

fun device_exec :: "reg_op \<Rightarrow> device_registry \<Rightarrow> device_registry" where
  "device_exec (AddConn c) r = (case device_add_connection c r of Inl _ \<Rightarrow> r | Inr r' \<Rightarrow> r')"
| "device_exec (RemoveConn c) r = (case device_remove_connection c r of Inl _ \<Rightarrow> r | Inr r' \<Rightarrow> r')"
| "device_exec (AssignId c i) r = assign_device_id c i r"
| "device_exec (Unassign c) r = device_unassign_connection c None r"
| "device_exec (RemoveId i) r = remove_device_id i r"

text \<open>Sockets are filed under their own, non-empty uid.\<close>

definition conns_ok :: "(string, conn) dict \<Rightarrow> bool" where
  "conns_ok d \<longleftrightarrow> dict_ok d \<and> list_all (\<lambda>(u, c). conn_uid c = Some u \<and> u \<noteq> '''') d"

lemma conns_ok_Nil [simp]: "conns_ok []"
  by (simp add: conns_ok_def)

lemma conns_ok_update: "conns_ok d \<Longrightarrow> checked_uid c = Inr u \<Longrightarrow> conns_ok (AList.update u c d)"
  by (auto simp: conns_ok_def list_all_iff set_update_dict checked_uid_def
      split: option.splits if_splits)

lemma conns_ok_delete: "conns_ok d \<Longrightarrow> conns_ok (AList.delete u d)"
  by (auto simp: conns_ok_def list_all_iff set_delete_dict)

lemma conns_ok_lookup: "conns_ok d \<Longrightarrow> map_of d u = Some c \<Longrightarrow> conn_uid c = Some u \<and> u \<noteq> ''''"
  by (auto simp: conns_ok_def list_all_iff dest: map_of_SomeD)

lemma conns_ok_checked: "conns_ok d \<Longrightarrow> map_of d u = Some c \<Longrightarrow> checked_uid c = Inr u"
  by (drule (1) conns_ok_lookup) (simp add: checked_uid_def)

text \<open>
  The contract. \<open>sockets\<close> and \<open>fanout\<close> read the two dictionaries of a registry; the laws say
  what every call does to them. Everything about routing below follows from these laws, for
  users and for devices alike.
\<close>

locale connection_registry =
  fixes sockets :: "'r \<Rightarrow> (string, conn) dict"
    and fanout :: "'r \<Rightarrow> (string, string list) dict"
    and initial :: 'r
    and add :: "conn \<Rightarrow> 'r \<Rightarrow> reg_error + 'r"
    and remove :: "conn \<Rightarrow> 'r \<Rightarrow> reg_error + 'r"
    and unassign :: "string \<Rightarrow> string option \<Rightarrow> 'r \<Rightarrow> 'r"
    and assign :: "string \<Rightarrow> string \<Rightarrow> 'r \<Rightarrow> 'r"
    and forget :: "string \<Rightarrow> 'r \<Rightarrow> 'r"
    and get :: "string \<Rightarrow> 'r \<Rightarrow> conn list"
    and exec :: "reg_op \<Rightarrow> 'r \<Rightarrow> 'r"
  assumes initial_sockets: "sockets initial = []"
    and initial_fanout: "fanout initial = []"
    and add_refused: "checked_uid k = Inl e \<Longrightarrow> add k r = Inl e"
    and add_sockets: "checked_uid k = Inr u \<Longrightarrow>
      \<exists>r'. add k r = Inr r' \<and> sockets r' = AList.update u k (sockets r) \<and> fanout r' = fanout r"
    and remove_refused: "checked_uid k = Inl e \<Longrightarrow> remove k r = Inl e"
    and remove_sockets: "checked_uid k = Inr u \<Longrightarrow> \<exists>r'. remove k r = Inr r'
      \<and> sockets r' = AList.delete u (sockets r) \<and> fanout r' = fanout (unassign u None r)"
    and unassign_sockets: "sockets (unassign c keep r) = sockets r"
    and unassign_ok: "lists_ok (fanout r) \<Longrightarrow> lists_ok (fanout (unassign c keep r))"
    and unassign_listed: "lists_ok (fanout r) \<Longrightarrow>
      listed (fanout (unassign c keep r)) i c' \<longleftrightarrow> listed (fanout r) i c' \<and> (c' = c \<longrightarrow> keep = Some i)"
    and assign_sockets: "sockets (assign c i r) = sockets r"
    and assign_ok: "lists_ok (fanout r) \<Longrightarrow> lists_ok (fanout (assign c i r))"
    and assign_listed: "lists_ok (fanout r) \<Longrightarrow>
      listed (fanout (assign c i r)) j c' \<longleftrightarrow> (if c' = c then j = i else listed (fanout r) j c')"
    and forget_sockets: "sockets (forget i r) = sockets r"
    and forget_fanout: "fanout (forget i r) = AList.delete i (fanout r)"
    and get_live: "set (get i r) = {k. \<exists>c. listed (fanout r) i c \<and> map_of (sockets r) c = Some k}"
    and exec_add: "exec (AddConn k) r = (case add k r of Inl _ \<Rightarrow> r | Inr r' \<Rightarrow> r')"
    and exec_remove: "exec (RemoveConn k) r = (case remove k r of Inl _ \<Rightarrow> r | Inr r' \<Rightarrow> r')"
    and exec_assign: "exec (AssignId c i) r = assign c i r"
    and exec_unassign: "exec (Unassign c) r = unassign c None r"
    and exec_forget: "exec (RemoveId i) r = forget i r"
begin

definition reg_ok :: "'r \<Rightarrow> bool" where
  "reg_ok r \<longleftrightarrow> conns_ok (sockets r) \<and> lists_ok (fanout r)"

lemma reg_ok_initial: "reg_ok initial"
  by (simp add: reg_ok_def initial_sockets initial_fanout lists_ok_def)

lemma reg_ok_add: "reg_ok r \<Longrightarrow> add c r = Inr r' \<Longrightarrow> reg_ok r'"
proof (cases "checked_uid c")
  case (Inr u)
  assume "reg_ok r" "add c r = Inr r'"
  with add_sockets [OF Inr, of r] Inr show ?thesis by (auto simp: reg_ok_def conns_ok_update)
qed (simp add: add_refused)

lemma reg_ok_remove: "reg_ok r \<Longrightarrow> remove c r = Inr r' \<Longrightarrow> reg_ok r'"
proof (cases "checked_uid c")
  case (Inr u)
  assume "reg_ok r" "remove c r = Inr r'"
  with remove_sockets [OF Inr, of r] show ?thesis
    by (auto simp: reg_ok_def conns_ok_delete unassign_ok)
qed (simp add: remove_refused)

lemma reg_ok_exec: "reg_ok r \<Longrightarrow> reg_ok (exec op r)"
proof (cases op)
  case (AddConn c)
  then show "reg_ok r \<Longrightarrow> ?thesis" by (auto simp: exec_add intro: reg_ok_add split: sum.split)
next
  case (RemoveConn c)
  then show "reg_ok r \<Longrightarrow> ?thesis" by (auto simp: exec_remove intro: reg_ok_remove split: sum.split)
qed (auto simp: reg_ok_def exec_assign exec_unassign exec_forget assign_sockets assign_ok
      unassign_sockets unassign_ok forget_sockets forget_fanout lists_ok_delete)

lemma reg_ok_run: "reg_ok (fold exec ops initial)"
proof -
  have "reg_ok r \<Longrightarrow> reg_ok (fold exec ops r)" for r
    by (induction ops arbitrary: r) (simp_all add: reg_ok_exec)
  then show ?thesis by (simp add: reg_ok_initial)
qed

text \<open>A socket is filed under its own uid, so the uid of a listed socket is the listed one.\<close>

lemma reg_ok_uid: "reg_ok r \<Longrightarrow> map_of (sockets r) c = Some k \<Longrightarrow> conn_uid k = Some c"
  unfolding reg_ok_def by (blast dest: conns_ok_lookup)

lemma get_iff:
  assumes "reg_ok r" "conn_uid k = Some c"
  shows "k \<in> set (get i r) \<longleftrightarrow> listed (fanout r) i c \<and> map_of (sockets r) c = Some k"
  using assms(2) reg_ok_uid [OF assms(1)] by (fastforce simp: get_live)

lemma get_exclusive:
  assumes "reg_ok r" "k \<in> set (get i r)" "k \<in> set (get j r)"
  shows "i = j"
proof -
  obtain c where c: "listed (fanout r) i c" "conn_uid k = Some c"
    using assms(2) reg_ok_uid [OF assms(1)] by (auto simp: get_live)
  then have "listed (fanout r) j c" using assms(3) get_iff [OF assms(1) c(2)] by simp
  with c assms(1) show ?thesis by (auto simp: reg_ok_def dest: lists_ok_exclusive)
qed

lemma get_after_assign:
  assumes "reg_ok r" "map_of (sockets r) c = Some k"
  shows "k \<in> set (get j (assign c i r)) \<longleftrightarrow> j = i"
proof -
  have ok: "reg_ok (assign c i r)" using reg_ok_exec [OF assms(1)] exec_assign by metis
  have "conn_uid k = Some c" using assms by (rule reg_ok_uid)
  from get_iff [OF ok this] show ?thesis
    using assms by (simp add: reg_ok_def assign_listed assign_sockets)
qed

lemma get_after_remove:
  assumes "reg_ok r" "map_of (sockets r) c = Some k" "remove k r = Inr r'"
  shows "k \<notin> set (get j r')"
proof -
  have ok: "reg_ok r'" using assms(1,3) by (rule reg_ok_remove)
  have uid: "conn_uid k = Some c" using assms(1,2) by (rule reg_ok_uid)
  have "checked_uid k = Inr c" using assms(1,2) unfolding reg_ok_def
    by (blast intro: conns_ok_checked)
  from remove_sockets [OF this, of r] assms(3) have "sockets r' = AList.delete c (sockets r)"
    by auto
  then show ?thesis using get_iff [OF ok uid] by (simp add: delete_conv')
qed

end

lemma listed_get:
  "set (case map_of m i of None \<Rightarrow> [] | Some cs \<Rightarrow> live_connections cs d)
     = {k. \<exists>c. listed m i c \<and> map_of d c = Some k}"
  by (cases "map_of m i") (auto simp: listed_def set_live_connections)

lemma lists_ok_assign:
  assumes "lists_ok m"
  shows "lists_ok (append_conn c i (unassign_loop m c (Some i) m))"
    and "listed (append_conn c i (unassign_loop m c (Some i) m)) j c'
      \<longleftrightarrow> (if c' = c then j = i else listed m j c')"
proof -
  show "lists_ok (append_conn c i (unassign_loop m c (Some i) m))"
    by (rule lists_ok_append_conn [OF lists_ok_unassign [OF assms]])
      (simp add: listed_unassign [OF assms])
  show "listed (append_conn c i (unassign_loop m c (Some i) m)) j c'
      \<longleftrightarrow> (if c' = c then j = i else listed m j c')"
    by (auto simp: listed_append_conn listed_unassign [OF assms])
qed

lemma delete_absent: "map_of d k = None \<Longrightarrow> AList.delete k d = d"
  by (simp add: map_of_eq_None_iff)

lemmas user_defs = user_init_def user_add_connection_def user_remove_connection_def
  user_unassign_connection_def assign_user_id_def remove_user_id_def
  get_connections_by_user_id_def

lemmas device_defs = device_init_def device_add_connection_def device_remove_connection_def
  device_unassign_connection_def assign_device_id_def remove_device_id_def
  get_connections_by_device_id_def

interpretation users: connection_registry user_connections user_id_map user_init
  user_add_connection user_remove_connection user_unassign_connection assign_user_id
  remove_user_id get_connections_by_user_id user_exec
  by unfold_locales
    (simp_all add: user_defs Let_def lists_ok_unassign listed_unassign lists_ok_assign
      listed_get delete_absent)

interpretation devices: connection_registry device_connections device_id_map device_init
  device_add_connection device_remove_connection device_unassign_connection assign_device_id
  remove_device_id get_connections_by_device_id device_exec
  by unfold_locales
    (simp_all add: device_defs Let_def lists_ok_unassign listed_unassign lists_ok_assign
      listed_get delete_absent)

end
