(* ===== verification/Wbcm_Manager.thy ===== *)
theory Wbcm_Manager
  imports Wbcm_Registry
begin

text \<open>
  The WebSocket connection manager, \<open>wbcm/wb_connection_manager.py\<close>: routing of the messages
  read from the Redis stream to the sockets of this process, session revocation, shutdown and
  the stream position.

  The manager runs on a background thread and reaches a socket only through
  \<open>conn.loop.call_soon_threadsafe\<close>. What it posts is the manager's only effect besides its own
  state, so the model logs it: \<open>posted\<close> is the list of callbacks handed to the sockets' loops, in
  order. An operation that may raise returns the exception, if any, together with the state it
  leaves behind. Whether a loop still takes callbacks is up to the socket's process: it is the parameter
  \<open>accepts\<close>. \<open>json_decode\<close> is msgspec's decoder, a parameter too.
\<close>

section \<open>Messages and state\<close>

text \<open>
  A value of a stream entry. Redis delivers strings or bytes; a decoded payload replaces the
  \<open>data\<close> string before a message is forwarded.
\<close>

datatype 'j field = FNone | FStr string | FBytes string | FJson 'j

type_synonym 'j message = "(string, 'j field) dict"

datatype 'j action = WriteMessage "'j message" | CloseSocket

record 'j manager =
  mgr_users :: user_registry
  mgr_devices :: device_registry
  stream_last_id :: string
  posted :: "(conn \<times> 'j action) list"

definition manager_init :: "'j manager" where
  "manager_init = \<lparr>mgr_users = user_init, mgr_devices = device_init, stream_last_id = ''$'',
     posted = []\<rparr>"

definition post :: "conn \<Rightarrow> 'j action \<Rightarrow> 'j manager \<Rightarrow> 'j manager" where
  "post c a s = s\<lparr>posted := posted s @ [(c, a)]\<rparr>"

text \<open>\<open>conn.uid == source_uid\<close>, for a field as the right-hand side.\<close>

definition uid_is :: "conn \<Rightarrow> 'j field \<Rightarrow> bool" where
  "uid_is c f = (case f of FStr u \<Rightarrow> conn_uid c = Some u | FNone \<Rightarrow> conn_uid c = None | _ \<Rightarrow> False)"

text \<open>A field as a dictionary key: only a string can equal a key of the fan-out maps.\<close>

definition as_key :: "'j field \<Rightarrow> string option" where
  "as_key f = (case f of FStr u \<Rightarrow> Some u | _ \<Rightarrow> None)"

section \<open>Sending\<close>

text \<open>
  The loop shared by \<open>send_message\<close> and \<open>send_message_to_all\<close>: the list of sockets is fixed
  before the loop starts, the source socket is passed over, and a socket whose loop refuses the
  callback is removed.
\<close>

fun send_users :: "(conn \<Rightarrow> bool) \<Rightarrow> conn list \<Rightarrow> 'j message \<Rightarrow> 'j field \<Rightarrow> 'j manager
    \<Rightarrow> reg_error option \<times> 'j manager" where
  "send_users accepts [] msg src s = (None, s)"
| "send_users accepts (c # cs) msg src s =
     (if uid_is c src then send_users accepts cs msg src s
      else if accepts c then send_users accepts cs msg src (post c (WriteMessage msg) s)
      else (case user_remove_connection c (mgr_users s) of
              Inl e \<Rightarrow> (Some e, s)
            | Inr r \<Rightarrow> send_users accepts cs msg src (s\<lparr>mgr_users := r\<rparr>)))"

definition send_message :: "(conn \<Rightarrow> bool) \<Rightarrow> 'j field \<Rightarrow> 'j message \<Rightarrow> 'j field \<Rightarrow> 'j manager
    \<Rightarrow> reg_error option \<times> 'j manager" where
  "send_message accepts user msg src s =
     (let cs = (case as_key user of None \<Rightarrow> []
                | Some u \<Rightarrow> get_connections_by_user_id u (mgr_users s))
      in if cs = [] then (None, s) else send_users accepts cs msg src s)"

fun send_devices :: "(conn \<Rightarrow> bool) \<Rightarrow> conn list \<Rightarrow> 'j message \<Rightarrow> 'j field \<Rightarrow> 'j manager
    \<Rightarrow> reg_error option \<times> 'j manager" where
  "send_devices accepts [] msg src s = (None, s)"
| "send_devices accepts (c # cs) msg src s =
     (if uid_is c src then send_devices accepts cs msg src s
      else if accepts c then send_devices accepts cs msg src (post c (WriteMessage msg) s)
      else (case device_remove_connection c (mgr_devices s) of
              Inl e \<Rightarrow> (Some e, s)
            | Inr r \<Rightarrow> send_devices accepts cs msg src (s\<lparr>mgr_devices := r\<rparr>)))"

definition send_message_to_device :: "(conn \<Rightarrow> bool) \<Rightarrow> 'j field \<Rightarrow> 'j message \<Rightarrow> 'j field
    \<Rightarrow> 'j manager \<Rightarrow> reg_error option \<times> 'j manager" where
  "send_message_to_device accepts dev msg src s =
     (let cs = (case as_key dev of None \<Rightarrow> []
                | Some d \<Rightarrow> get_connections_by_device_id d (mgr_devices s))
      in if cs = [] then (None, s) else send_devices accepts cs msg src s)"

definition send_message_to_all :: "(conn \<Rightarrow> bool) \<Rightarrow> 'j message \<Rightarrow> 'j field \<Rightarrow> 'j manager
    \<Rightarrow> reg_error option \<times> 'j manager" where
  "send_message_to_all accepts msg src s =
     send_users accepts (map snd (user_connections (mgr_users s))) msg src s"

text \<open>\<open>close_sessions\<close>: a socket whose loop refuses the callback is only logged.\<close>

definition revokes :: "'j field \<Rightarrow> string option \<Rightarrow> conn \<Rightarrow> bool" where
  "revokes src sid c \<longleftrightarrow> \<not> uid_is c src \<and> (sid \<noteq> None \<longrightarrow> conn_sid c = sid)"

fun close_loop :: "(conn \<Rightarrow> bool) \<Rightarrow> 'j field \<Rightarrow> string option \<Rightarrow> conn list \<Rightarrow> 'j manager
    \<Rightarrow> 'j manager" where
  "close_loop accepts src sid [] s = s"
| "close_loop accepts src sid (c # cs) s =
     (if revokes src sid c \<and> accepts c
      then close_loop accepts src sid cs (post c CloseSocket s)
      else close_loop accepts src sid cs s)"

definition close_sessions :: "(conn \<Rightarrow> bool) \<Rightarrow> 'j field \<Rightarrow> 'j field \<Rightarrow> string option
    \<Rightarrow> 'j manager \<Rightarrow> 'j manager" where
  "close_sessions accepts user src sid s =
     (let cs = (case as_key user of None \<Rightarrow> []
                | Some u \<Rightarrow> get_connections_by_user_id u (mgr_users s))
      in close_loop accepts src sid cs s)"

text \<open>\<open>shutdown\<close>: close every socket that still takes callbacks, then forget them all.\<close>

definition shutdown :: "(conn \<Rightarrow> bool) \<Rightarrow> 'j manager \<Rightarrow> 'j manager" where
  "shutdown accepts s =
     (let cs = filter accepts (map snd (user_connections (mgr_users s)));
          ds = filter accepts (map snd (device_connections (mgr_devices s)))
      in s\<lparr>posted := posted s @ map (\<lambda>c. (c, CloseSocket)) (cs @ ds),
           mgr_users := user_reset (mgr_users s),
           mgr_devices := device_reset (mgr_devices s)\<rparr>)"

section \<open>Dispatch of one message\<close>

text \<open>\<open>message_data.get("target_sid", None) or None\<close>\<close>

definition target_sid :: "'j message \<Rightarrow> string option" where
  "target_sid m = (case map_of m ''target_sid'' of
      Some (FStr t) \<Rightarrow> if t = '''' then None else Some t
    | _ \<Rightarrow> None)"

definition decode_data :: "(string \<Rightarrow> 'j option) \<Rightarrow> 'j message \<Rightarrow> 'j message option" where
  "decode_data json_decode m = (case map_of m ''data'' of
      Some (FStr t) \<Rightarrow> (case json_decode t of
          None \<Rightarrow> None
        | Some j \<Rightarrow> Some (AList.update ''data'' (FJson j) m))
    | _ \<Rightarrow> Some m)"

definition get_field :: "'j message \<Rightarrow> string \<Rightarrow> 'j field \<Rightarrow> 'j field" where
  "get_field m k d = (case map_of m k of None \<Rightarrow> d | Some f \<Rightarrow> f)"

text \<open>The answer of \<open>work\<close>: its truth value, or the exception it raised.\<close>

definition answered :: "reg_error option \<times> 'j manager \<Rightarrow> (reg_error + bool) \<times> 'j manager" where
  "answered = (\<lambda>(e, s). (case e of None \<Rightarrow> Inr True | Some x \<Rightarrow> Inl x, s))"

definition dispatch :: "(conn \<Rightarrow> bool) \<Rightarrow> 'j message \<Rightarrow> 'j manager \<Rightarrow> (reg_error + bool) \<times> 'j manager"
  where
  "dispatch accepts m s =
     (let src = get_field m ''source_uid'' (FStr '''');
          ty = get_field m ''type'' (FStr '''')
      in if ty = FStr ''session_revoked'' then
           (let user = get_field m ''user_id'' FNone
            in if user = FNone then (Inr False, s)
               else (Inr True, close_sessions accepts user src (target_sid m) s))
         else if ty = FStr ''session_relay'' then
           (let tt = get_field m ''target_type'' (FStr '''');
                ti = get_field m ''target_id'' (FStr '''')
            in if tt = FStr ''device'' then answered (send_message_to_device accepts ti m src s)
               else if tt = FStr ''user'' then answered (send_message accepts ti m src s)
               else (Inr False, s))
         else if map_of m ''user_id'' = None then (Inr False, s)
         else (let user = get_field m ''user_id'' FNone
               in answered
                    (if user = FNone then send_message_to_all accepts m src s
                     else send_message accepts user m src s)))"

definition work :: "(conn \<Rightarrow> bool) \<Rightarrow> (string \<Rightarrow> 'j option) \<Rightarrow> 'j message \<Rightarrow> 'j manager
    \<Rightarrow> (reg_error + bool) \<times> 'j manager" where
  "work accepts json_decode m s =
     (if map_of m ''service'' = None \<or> map_of m ''type'' = None \<or> map_of m ''data'' = None
         \<or> map_of m ''source_uid'' = None then (Inr False, s)
      else (case decode_data json_decode m of
              None \<Rightarrow> (Inr False, s)
            | Some m' \<Rightarrow> dispatch accepts m' s))"

section \<open>One batch of the stream\<close>

text \<open>
  \<open>process_messages\<close> over the entries of one read: it counts the messages handled. An exception
  out of \<open>work\<close> is logged and the message passed over; the stream position moves on either way.
  \<open>accepts\<close> may change from message to message, since sockets die while a batch is worked on.
\<close>

fun process_batch :: "(string \<Rightarrow> 'j option) \<Rightarrow> ((conn \<Rightarrow> bool) \<times> string \<times> 'j message) list
    \<Rightarrow> nat \<Rightarrow> 'j manager \<Rightarrow> nat \<times> 'j manager" where
  "process_batch json_decode [] n s = (n, s)"
| "process_batch json_decode ((accepts, mid, m) # rest) n s =
     (let (res, s1) = work accepts json_decode m s;
          n1 = (if res = Inr True then Suc n else n)
      in process_batch json_decode rest n1 (s1\<lparr>stream_last_id := mid\<rparr>))"

text \<open>\<open>None\<close> stands for a read that returned nothing for the stream.\<close>

definition process_messages :: "(string \<Rightarrow> 'j option)
    \<Rightarrow> ((conn \<Rightarrow> bool) \<times> string \<times> 'j message) list option \<Rightarrow> 'j manager \<Rightarrow> nat \<times> 'j manager" where
  "process_messages json_decode found s = (case found of
      None \<Rightarrow> (0, s)
    | Some [] \<Rightarrow> (0, s)
    | Some batch \<Rightarrow> process_batch json_decode batch 0 s)"

section \<open>Routing\<close>

definition manager_ok :: "'j manager \<Rightarrow> bool" where
  "manager_ok s \<longleftrightarrow> conns_ok (user_connections (mgr_users s)) \<and> lists_ok (user_id_map (mgr_users s))
     \<and> conns_ok (device_connections (mgr_devices s)) \<and> lists_ok (device_id_map (mgr_devices s))"

lemma manager_ok_parts:
  "manager_ok s \<longleftrightarrow> users.reg_ok (mgr_users s) \<and> devices.reg_ok (mgr_devices s)"
  by (simp add: manager_ok_def users.reg_ok_def devices.reg_ok_def)

lemma post_frame [frame]:
  "mgr_users (post c a s) = mgr_users s" "mgr_devices (post c a s) = mgr_devices s"
  "stream_last_id (post c a s) = stream_last_id s" "posted (post c a s) = posted s @ [(c, a)]"
  by (simp_all add: post_def)

text \<open>The recipients of a send: every socket of the list but the source, if its loop takes it.\<close>

definition recipients :: "(conn \<Rightarrow> bool) \<Rightarrow> 'j field \<Rightarrow> conn list \<Rightarrow> conn list" where
  "recipients accepts src cs = filter (\<lambda>c. \<not> uid_is c src \<and> accepts c) cs"

lemma user_remove_ok:
  "checked_uid c = Inr u \<Longrightarrow> \<exists>r'. user_remove_connection c r = Inr r'"
  using users.remove_sockets by blast

lemma send_users_posts:
  assumes "\<forall>c \<in> set cs. \<exists>u. checked_uid c = Inr u"
  shows "fst (send_users accepts cs msg src s) = None \<and>
    posted (snd (send_users accepts cs msg src s))
      = posted s @ map (\<lambda>c. (c, WriteMessage msg)) (recipients accepts src cs)"
  using assms
proof (induction cs arbitrary: s)
  case Nil
  then show ?case by (simp add: recipients_def)
next
  case (Cons c cs)
  obtain r where r: "user_remove_connection c (mgr_users s) = Inr r"
    using Cons.prems user_remove_ok by (meson list.set_intros(1))
  show ?case
    using Cons r by (simp add: recipients_def frame)
qed

lemma user_get_checked:
  assumes "users.reg_ok r" "c \<in> set (get_connections_by_user_id u r)"
  shows "\<exists>v. checked_uid c = Inr v"
  using assms conns_ok_checked by (auto simp: users.get_live users.reg_ok_def)

lemma user_all_checked:
  assumes "users.reg_ok r" "c \<in> set (map snd (user_connections r))"
  shows "\<exists>v. checked_uid c = Inr v"
proof -
  from assms(2) obtain u where "(u, c) \<in> set (user_connections r)" by auto
  then have "map_of (user_connections r) u = Some c"
    using assms(1) by (simp add: users.reg_ok_def conns_ok_def dict_ok_map_of)
  with assms(1) show ?thesis by (auto simp: users.reg_ok_def dest: conns_ok_checked)
qed

lemma device_get_checked:
  assumes "devices.reg_ok r" "c \<in> set (get_connections_by_device_id u r)"
  shows "\<exists>v. checked_uid c = Inr v"
  using assms conns_ok_checked by (auto simp: devices.get_live devices.reg_ok_def)

lemma send_devices_posts:
  assumes "\<forall>c \<in> set cs. \<exists>u. checked_uid c = Inr u"
  shows "fst (send_devices accepts cs msg src s) = None \<and>
    posted (snd (send_devices accepts cs msg src s))
      = posted s @ map (\<lambda>c. (c, WriteMessage msg)) (recipients accepts src cs)"
  using assms
proof (induction cs arbitrary: s)
  case Nil
  then show ?case by (simp add: recipients_def)
next
  case (Cons c cs)
  obtain r where r: "device_remove_connection c (mgr_devices s) = Inr r"
    using Cons.prems devices.remove_sockets by (meson list.set_intros(1))
  show ?case
    using Cons r by (simp add: recipients_def frame)
qed

lemma send_users_ok: "manager_ok s \<Longrightarrow> manager_ok (snd (send_users accepts cs msg src s))"
proof (induction cs arbitrary: s)
  case (Cons c cs)
  have "manager_ok (post c a s)" for a using Cons.prems by (simp add: manager_ok_def frame)
  moreover have "manager_ok (s\<lparr>mgr_users := r\<rparr>)"
    if "user_remove_connection c (mgr_users s) = Inr r" for r
    using Cons.prems users.reg_ok_remove [OF _ that] by (simp add: manager_ok_parts)
  ultimately show ?case using Cons by (simp split: sum.split)
qed simp

lemma send_devices_ok: "manager_ok s \<Longrightarrow> manager_ok (snd (send_devices accepts cs msg src s))"
proof (induction cs arbitrary: s)
  case (Cons c cs)
  have "manager_ok (post c a s)" for a using Cons.prems by (simp add: manager_ok_def frame)
  moreover have "manager_ok (s\<lparr>mgr_devices := r\<rparr>)"
    if "device_remove_connection c (mgr_devices s) = Inr r" for r
    using Cons.prems devices.reg_ok_remove [OF _ that] by (simp add: manager_ok_parts)
  ultimately show ?case using Cons by (simp split: sum.split)
qed simp

lemma close_loop_posts:
  "close_loop accepts src sid cs s
     = s\<lparr>posted := posted s @ map (\<lambda>c. (c, CloseSocket))
          (filter (\<lambda>c. revokes src sid c \<and> accepts c) cs)\<rparr>"
  by (induction cs arbitrary: s) (simp_all add: post_def)

lemma close_sessions_ok [simp]: "manager_ok (close_sessions accepts user src sid s) = manager_ok s"
  by (simp add: close_sessions_def close_loop_posts manager_ok_def Let_def)

lemma snd_answered [simp]: "snd (answered r) = snd r"
  by (cases r) (simp add: answered_def)

lemma send_ok:
  assumes "manager_ok s"
  shows "manager_ok (snd (send_message accepts f m src s))"
    and "manager_ok (snd (send_message_to_device accepts f m src s))"
    and "manager_ok (snd (send_message_to_all accepts m src s))"
  using assms by (simp_all add: send_message_def send_message_to_device_def
      send_message_to_all_def Let_def send_users_ok send_devices_ok)

lemma dispatch_ok: "manager_ok s \<Longrightarrow> manager_ok (snd (dispatch accepts m s))"
  by (simp add: dispatch_def Let_def send_ok)

lemma send_message_returns:
  assumes "manager_ok s"
  shows "fst (send_message accepts f m src s) = None"
  using assms user_get_checked
  by (auto simp: send_message_def Let_def manager_ok_parts send_users_posts split: option.split)

lemma send_message_to_device_returns:
  assumes "manager_ok s"
  shows "fst (send_message_to_device accepts f m src s) = None"
  using assms device_get_checked
  by (auto simp: send_message_to_device_def Let_def manager_ok_parts send_devices_posts
      split: option.split)

lemma send_message_to_all_returns:
  assumes "manager_ok s"
  shows "fst (send_message_to_all accepts m src s) = None"
  using assms user_all_checked
  by (auto simp: send_message_to_all_def manager_ok_parts send_users_posts)

lemma answered_returns: "fst r = None \<Longrightarrow> answered r = (Inr True, snd r)"
  by (cases r) (simp add: answered_def)

lemma dispatch_returns: "manager_ok s \<Longrightarrow> \<not> isl (fst (dispatch accepts m s))"
  by (simp add: dispatch_def Let_def answered_returns send_message_returns
      send_message_to_device_returns send_message_to_all_returns)

lemma work_ok: "manager_ok s \<Longrightarrow> manager_ok (snd (work accepts json_decode m s))"
  by (simp add: work_def dispatch_ok split: option.split)

lemma work_returns: "manager_ok s \<Longrightarrow> \<not> isl (fst (work accepts json_decode m s))"
  by (simp add: work_def dispatch_returns split: option.split)

lemma send_message_posted:
  assumes "manager_ok s"
  shows "posted (snd (send_message accepts (FStr u) msg src s)) = posted s
           @ map (\<lambda>c. (c, WriteMessage msg))
               (recipients accepts src (get_connections_by_user_id u (mgr_users s)))"
proof (cases "get_connections_by_user_id u (mgr_users s) = []")
  case False
  have "\<forall>c \<in> set (get_connections_by_user_id u (mgr_users s)). \<exists>v. checked_uid c = Inr v"
    using assms user_get_checked unfolding manager_ok_parts by blast
  from send_users_posts [OF this, of accepts msg src s] False show ?thesis by (simp add: send_message_def as_key_def)
qed (simp add: send_message_def as_key_def recipients_def)

lemma recipients_subset: "set (recipients accepts src cs) \<subseteq> set cs"
  by (auto simp: recipients_def)

text \<open>
  A dead socket is gone: after the loop, a socket that was tried and refused is filed nowhere.
\<close>

lemma send_users_sockets:
  assumes "\<forall>c \<in> set cs. \<exists>u. checked_uid c = Inr u"
  shows "map_of (user_connections (mgr_users (snd (send_users accepts cs msg src s)))) u
     = (if \<exists>c \<in> set cs. checked_uid c = Inr u \<and> \<not> uid_is c src \<and> \<not> accepts c then None
        else map_of (user_connections (mgr_users s)) u)"
  using assms
proof (induction cs arbitrary: s)
  case (Cons c cs)
  obtain v where v: "checked_uid c = Inr v" using Cons.prems by auto
  obtain r where r: "user_remove_connection c (mgr_users s) = Inr r"
    and del: "user_connections r = AList.delete v (user_connections (mgr_users s))"
    using users.remove_sockets [OF v] by blast
  have IH: "map_of (user_connections (mgr_users (snd (send_users accepts cs msg src t)))) u
     = (if \<exists>c \<in> set cs. checked_uid c = Inr u \<and> \<not> uid_is c src \<and> \<not> accepts c then None
        else map_of (user_connections (mgr_users t)) u)" for t
    using Cons by simp
  show ?case
    using v r del by (auto simp: IH frame delete_conv')
qed simp

lemma process_batch_Cons:
  "process_batch json_decode ((accepts, mid, m) # rest) n s =
     process_batch json_decode rest (if fst (work accepts json_decode m s) = Inr True then Suc n else n)
       ((snd (work accepts json_decode m s))\<lparr>stream_last_id := mid\<rparr>)"
  by (simp add: case_prod_unfold)

lemma process_batch_position:
  "manager_ok s \<Longrightarrow> manager_ok (snd (process_batch json_decode b n s))
     \<and> stream_last_id (snd (process_batch json_decode b n s))
         = (if b = [] then stream_last_id s else fst (snd (last b)))"
proof (induction b arbitrary: n s)
  case (Cons p b)
  obtain accepts mid m where p: "p = (accepts, mid, m)" by (cases p)
  have "manager_ok ((snd (work accepts json_decode m s))\<lparr>stream_last_id := mid\<rparr>)"
    using work_ok [OF Cons.prems, of accepts json_decode m] by (simp add: manager_ok_def)
  then show ?case
    unfolding p process_batch_Cons using Cons.IH by simp
qed simp

text \<open>The running count does not influence the state.\<close>

lemma process_batch_count:
  "snd (process_batch json_decode b n s) = snd (process_batch json_decode b n' s)"
proof (induction b arbitrary: n n' s)
  case (Cons p b)
  show ?case by (cases p, simp only: process_batch_Cons) (rule Cons.IH)
qed simp

section \<open>Properties\<close>

text \<open>
  C36. A message to a user is posted exactly to that user's live sockets, in the order of the
  fan-out list, except the socket it came from and those whose loop refuses it; nothing is raised,
  the registries stay well formed, and no recipient is in the list of another user.
\<close>

theorem send_message_delivery:
  assumes "manager_ok s"
  shows "fst (send_message accepts (FStr u) msg src s) = None
    \<and> manager_ok (snd (send_message accepts (FStr u) msg src s))
    \<and> posted (snd (send_message accepts (FStr u) msg src s)) = posted s
        @ map (\<lambda>c. (c, WriteMessage msg))
            (recipients accepts src (get_connections_by_user_id u (mgr_users s)))
    \<and> (\<forall>v. v \<noteq> u \<longrightarrow> set (recipients accepts src (get_connections_by_user_id u (mgr_users s)))
          \<inter> set (get_connections_by_user_id v (mgr_users s)) = {})"
proof -
  have ok: "users.reg_ok (mgr_users s)" using assms by (simp add: manager_ok_parts)
  have "\<forall>v. v \<noteq> u \<longrightarrow> set (recipients accepts src (get_connections_by_user_id u (mgr_users s)))
          \<inter> set (get_connections_by_user_id v (mgr_users s)) = {}"
    using users.get_exclusive [OF ok]
      recipients_subset [of accepts src "get_connections_by_user_id u (mgr_users s)"] by blast
  then show ?thesis
    by (simp only: send_message_posted [OF assms] send_message_returns [OF assms] send_ok [OF assms])
qed

theorem send_message_delivery_witness:
  "let a = \<lparr>conn_uid = Some ''a'', conn_sid = None\<rparr>; b = \<lparr>conn_uid = Some ''b'', conn_sid = None\<rparr>;
       r = fold user_exec [AddConn a, AddConn b, AssignId ''a'' ''u'', AssignId ''b'' ''u''] user_init;
       s = (manager_init :: nat manager)\<lparr>mgr_users := r\<rparr>
   in manager_ok s
     \<and> posted (snd (send_message (\<lambda>_. True) (FStr ''u'') [] (FStr ''a'') s)) = [(b, WriteMessage [])]"
proof -
  let ?a = "\<lparr>conn_uid = Some ''a'', conn_sid = None\<rparr>"
  let ?b = "\<lparr>conn_uid = Some ''b'', conn_sid = None\<rparr>"
  let ?ops = "[AddConn ?a, AddConn ?b, AssignId ''a'' ''u'', AssignId ''b'' ''u'']"
  let ?s = "(manager_init :: nat manager)\<lparr>mgr_users := fold user_exec ?ops user_init\<rparr>"
  have ok: "manager_ok ?s" by code_simp
  have rcpt: "recipients (\<lambda>_. True) (FStr ''a'' :: nat field)
      (get_connections_by_user_id ''u'' (mgr_users ?s)) = [?b]" by code_simp
  have "posted ?s = []" by code_simp
  with send_message_delivery [OF ok, of "\<lambda>_. True" "''u''" "[]" "FStr ''a''"] ok
  show ?thesis unfolding Let_def rcpt by simp
qed

text \<open>
  C37. Whatever calls handlers make on the registry of users, a socket is listed for at most one
  user, at most once; and assigning a live socket to a user makes it receive that user's messages
  and nobody else's.
\<close>

theorem assign_user_exclusive:
  "let r = fold user_exec ops user_init
   in lists_ok (user_id_map r) \<and> conns_ok (user_connections r)
    \<and> (\<forall>k. map_of (user_connections r) c = Some k \<longrightarrow>
         (\<forall>j. k \<in> set (get_connections_by_user_id j (assign_user_id c i r)) \<longleftrightarrow> j = i))"
proof -
  have "users.reg_ok (fold user_exec ops user_init)" by (rule users.reg_ok_run)
  then show ?thesis
    using users.get_after_assign unfolding Let_def users.reg_ok_def by blast
qed

theorem assign_user_exclusive_witness:
  "let a = \<lparr>conn_uid = Some ''a'', conn_sid = None\<rparr>;
       r = fold user_exec [AddConn a, AssignId ''a'' ''u''] user_init
   in get_connections_by_user_id ''u'' r = [a]
     \<and> a \<in> set (get_connections_by_user_id ''w'' (assign_user_id ''a'' ''w'' r))
     \<and> a \<notin> set (get_connections_by_user_id ''u'' (assign_user_id ''a'' ''w'' r))"
proof -
  let ?a = "\<lparr>conn_uid = Some ''a'', conn_sid = None\<rparr>"
  let ?ops = "[AddConn ?a, AssignId ''a'' ''u'']"
  have 1: "get_connections_by_user_id ''u'' (fold user_exec ?ops user_init) = [?a]" by code_simp
  have 2: "map_of (user_connections (fold user_exec ?ops user_init)) ''a'' = Some ?a" by code_simp
  from assign_user_exclusive [of ?ops "''a''" "''w''"] 1 2 show ?thesis
    unfolding Let_def by auto
qed

text \<open>
  Working through a batch never raises past a message and never stalls the stream: the
  registries stay well formed, every message is worked on exactly once in order, and the stream
  position ends at the id of the last entry, whatever the messages contain and whichever sockets
  die on the way.
\<close>

theorem process_messages_progress:
  assumes "manager_ok s"
  shows "manager_ok (snd (process_messages json_decode (Some batch) s))
    \<and> stream_last_id (snd (process_messages json_decode (Some batch) s))
        = (if batch = [] then stream_last_id s else fst (snd (last batch)))
    \<and> (\<forall>accepts mid m rest. batch = (accepts, mid, m) # rest \<longrightarrow>
         \<not> isl (fst (work accepts json_decode m s))
         \<and> snd (process_messages json_decode (Some batch) s)
            = snd (process_messages json_decode (Some rest)
                ((snd (work accepts json_decode m s))\<lparr>stream_last_id := mid\<rparr>)))"
proof -
  have "process_messages json_decode (Some b) t = process_batch json_decode b 0 t" for b t
    by (simp add: process_messages_def split: list.split)
  then show ?thesis
    using process_batch_position [OF assms, of json_decode batch 0] work_returns [OF assms]
    by (auto simp: process_batch_Cons process_batch_count [of json_decode _ "Suc 0" _ 0]
        simp del: process_batch.simps(2))
qed

theorem process_messages_progress_witness:
  "manager_ok (manager_init :: nat manager)
    \<and> stream_last_id (snd (process_messages (\<lambda>_. None)
        (Some [(\<lambda>_. True, ''7-0'', []), (\<lambda>_. True, ''7-1'', [(''type'', FStr ''x'')])])
        (manager_init :: nat manager))) = ''7-1''"
proof -
  have ok: "manager_ok (manager_init :: nat manager)" by code_simp
  let ?b = "[(\<lambda>_. True, ''7-0'', []), (\<lambda>_. True, ''7-1'', [(''type'', FStr ''x'')])]"
  have "fst (snd (last (?b :: ((conn \<Rightarrow> bool) \<times> string \<times> nat message) list))) = ''7-1''" by simp
  with process_messages_progress [OF ok, of "\<lambda>_. None" ?b, THEN conjunct2, THEN conjunct1] ok
  show ?thesis by simp
qed

text \<open>
  A \<open>session_revoked\<close> message closes exactly the live sockets of the named user that are not
  the source and, when a session is named, belong to that session; no other socket is closed,
  nothing is forwarded, and the registries are not changed.
\<close>

theorem session_revoked_closes:
  assumes "map_of m ''service'' \<noteq> None" "map_of m ''type'' = Some (FStr ''session_revoked'')"
    "map_of m ''data'' = Some (FBytes d)" "map_of m ''source_uid'' = Some src"
    "map_of m ''user_id'' = Some (FStr u)"
  shows "work accepts json_decode m s = (Inr True, s\<lparr>posted := posted s @ map (\<lambda>c. (c, CloseSocket))
      (filter (\<lambda>c. \<not> uid_is c src \<and> (target_sid m \<noteq> None \<longrightarrow> conn_sid c = target_sid m) \<and> accepts c)
        (get_connections_by_user_id u (mgr_users s)))\<rparr>)"
proof -
  have "work accepts json_decode m s = dispatch accepts m s"
    using assms by (auto simp: work_def decode_data_def)
  also have "\<dots> = (Inr True, close_sessions accepts (FStr u) src (target_sid m) s)"
    using assms by (simp add: dispatch_def get_field_def)
  finally show ?thesis
    by (simp add: close_sessions_def as_key_def close_loop_posts revokes_def conj_ac)
qed

theorem session_revoked_closes_witness:
  "let m = [(''service'', FStr ''auth''), (''type'', FStr ''session_revoked''), (''data'', FBytes ''x''),
            (''source_uid'', FStr ''z''), (''user_id'', FStr ''u''), (''target_sid'', FStr ''s1'')];
       a = \<lparr>conn_uid = Some ''a'', conn_sid = Some ''s1''\<rparr>; b = \<lparr>conn_uid = Some ''b'', conn_sid = Some ''s2''\<rparr>;
       r = fold user_exec [AddConn a, AddConn b, AssignId ''a'' ''u'', AssignId ''b'' ''u''] user_init;
       s = (manager_init :: nat manager)\<lparr>mgr_users := r\<rparr>
   in posted (snd (work (\<lambda>_. True) (\<lambda>_. None) m s)) = [(a, CloseSocket)]"
proof -
  let ?m = "[(''service'', FStr ''auth''), (''type'', FStr ''session_revoked''), (''data'', FBytes ''x''),
    (''source_uid'', FStr ''z''), (''user_id'', FStr ''u''), (''target_sid'', FStr ''s1'')] :: nat message"
  have h: "map_of ?m ''service'' \<noteq> None" "map_of ?m ''type'' = Some (FStr ''session_revoked'')"
    "map_of ?m ''data'' = Some (FBytes ''x'')" "map_of ?m ''source_uid'' = Some (FStr ''z'')"
    "map_of ?m ''user_id'' = Some (FStr ''u'')" by simp_all
  show ?thesis
    unfolding Let_def session_revoked_closes [OF h]
    by (simp add: manager_init_def user_defs checked_uid_def append_conn_def uid_is_def target_sid_def)
qed

text \<open>
  A socket whose loop refuses a user's message is dropped for good: afterwards it is filed
  under no uid and receives nobody's messages, while every other socket stays filed as it was.
\<close>

theorem dead_socket_removed:
  assumes "manager_ok s" "c \<in> set (get_connections_by_user_id u (mgr_users s))"
    "\<not> uid_is c src" "\<not> accepts c"
  shows "let r = mgr_users (snd (send_message accepts (FStr u) msg src s))
    in c \<notin> snd ` set (user_connections r)
      \<and> (\<forall>v. c \<notin> set (get_connections_by_user_id v r))
      \<and> (\<forall>w k. map_of (user_connections (mgr_users s)) w = Some k \<longrightarrow> accepts k
           \<longrightarrow> map_of (user_connections r) w = Some k)"
proof -
  let ?cs = "get_connections_by_user_id u (mgr_users s)"
  let ?r = "mgr_users (snd (send_message accepts (FStr u) msg src s))"
  have ok: "users.reg_ok (mgr_users s)" using assms(1) by (simp add: manager_ok_parts)
  have ok': "users.reg_ok ?r" using send_ok(1) [OF assms(1)] by (simp add: manager_ok_parts)
  have all: "\<forall>c \<in> set ?cs. \<exists>v. checked_uid c = Inr v" using ok user_get_checked by blast
  have "?cs \<noteq> []" using assms(2) by auto
  then have r: "?r = mgr_users (snd (send_users accepts ?cs msg src s))"
    by (simp add: send_message_def as_key_def)
  obtain w where w: "map_of (user_connections (mgr_users s)) w = Some c"
    using assms(2) by (auto simp: users.get_live)
  have cw: "checked_uid c = Inr w"
    using w ok by (auto simp: users.reg_ok_def intro: conns_ok_checked)
  have gone: "map_of (user_connections ?r) w = None"
    unfolding r send_users_sockets [OF all] using assms(2-4) cw by auto
  have uid: "conn_uid c = Some w" using ok w by (rule users.reg_ok_uid)
  have 1: "c \<notin> snd ` set (user_connections ?r)"
  proof
    assume "c \<in> snd ` set (user_connections ?r)"
    then obtain w' where "map_of (user_connections ?r) w' = Some c"
      using ok' by (auto simp: users.reg_ok_def conns_ok_def dict_ok_map_of)
    with users.reg_ok_uid [OF ok'] uid gone show False by fastforce
  qed
  have 2: "c \<notin> set (get_connections_by_user_id v ?r)" for v
    using users.get_iff [OF ok' uid] gone by simp
  have 3: "map_of (user_connections ?r) w' = Some k"
    if "map_of (user_connections (mgr_users s)) w' = Some k" "accepts k" for w' k
  proof -
    have same: "c' = k" if "c' \<in> set ?cs" "checked_uid c' = Inr w'" for c'
    proof -
      have "conn_uid c' = Some w'" using that(2) by (auto simp: checked_uid_def split: option.splits if_splits)
      with that(1) users.get_iff [OF ok] \<open>map_of (user_connections (mgr_users s)) w' = Some k\<close>
      show ?thesis by fastforce
    qed
    show ?thesis unfolding r send_users_sockets [OF all] using that same by auto
  qed
  show ?thesis unfolding Let_def using 1 2 3 by blast
qed

theorem dead_socket_removed_witness:
  "let a = \<lparr>conn_uid = Some ''a'', conn_sid = None\<rparr>; b = \<lparr>conn_uid = Some ''b'', conn_sid = None\<rparr>;
       r = fold user_exec [AddConn a, AddConn b, AssignId ''a'' ''u'', AssignId ''b'' ''u''] user_init;
       s = (manager_init :: nat manager)\<lparr>mgr_users := r\<rparr>;
       r' = mgr_users (snd (send_message (\<lambda>c. c \<noteq> a) (FStr ''u'') [] (FStr ''z'') s))
   in manager_ok s \<and> a \<notin> set (get_connections_by_user_id ''u'' r')
     \<and> map_of (user_connections r') ''b'' = Some b"
proof -
  let ?a = "\<lparr>conn_uid = Some ''a'', conn_sid = None\<rparr>"
  let ?b = "\<lparr>conn_uid = Some ''b'', conn_sid = None\<rparr>"
  let ?ops = "[AddConn ?a, AddConn ?b, AssignId ''a'' ''u'', AssignId ''b'' ''u'']"
  let ?s = "(manager_init :: nat manager)\<lparr>mgr_users := fold user_exec ?ops user_init\<rparr>"
  have ok: "manager_ok ?s" by code_simp
  have mem: "?a \<in> set (get_connections_by_user_id ''u'' (mgr_users ?s))" by code_simp
  have src: "\<not> uid_is ?a (FStr ''z'' :: nat field)" by code_simp
  have acc: "\<not> (\<lambda>c. c \<noteq> ?a) ?a" by simp
  have b: "map_of (user_connections (mgr_users ?s)) ''b'' = Some ?b" by code_simp
  have "?b \<noteq> ?a" by simp
  with dead_socket_removed [of ?s ?a "''u''" "FStr ''z''" "\<lambda>c. c \<noteq> ?a" "[]", OF ok mem src acc] ok b show ?thesis
    unfolding Let_def by blast
qed

text \<open>
  Shutting down posts a close to every filed socket that still takes callbacks, once each,
  users before devices, and leaves both registries empty.
\<close>

lemma shutdown_closes_all:
  "posted (shutdown accepts s) = posted s @ map (\<lambda>c. (c, CloseSocket)) (filter accepts
      (map snd (user_connections (mgr_users s)) @ map snd (device_connections (mgr_devices s))))
    \<and> mgr_users (shutdown accepts s) = user_init \<and> mgr_devices (shutdown accepts s) = device_init
    \<and> stream_last_id (shutdown accepts s) = stream_last_id s"
  by (simp add: shutdown_def user_reset_def device_reset_def user_init_def device_init_def)

end
