(* ===== verification/Req_Auth.thy ===== *)
theory Req_Auth
  imports Api_Keys Wbcm_Manager
begin

text \<open>
  Who a request is: the tokens of \<open>request_handler/auth_service.py\<close> and the handler methods of
  \<open>request_handler/handlers.py\<close> that establish the current user and check API keys. The request's
  handler is a record, which the WebSocket handler extends, and the tables of keys and of bound
  connections are part of it. What the code calls outside, the token library, the row and user
  lookups, the hash and the clock, is the record \<open>hworld\<close>; loggers and timers are left out.
\<close>

section \<open>Users, errors, surroundings\<close>

record user =
  us_id :: int
  us_public :: string
  us_disabled :: bool
  us_deleted :: bool

definition active :: "user \<Rightarrow> bool" where
  "active u \<longleftrightarrow> \<not> us_disabled u \<and> \<not> us_deleted u"

text \<open>\<open>HTTPException\<close> with its message, code and HTTP status; any other exception.\<close>

datatype herror = HTTPException string int int | HRaised kerror

record hworld =
  hw_config :: config
  hw_env :: "(string, string) dict"
  hw_lib :: ip_lib
  hw_pystr :: "cv \<Rightarrow> string"
  hw_sha :: "bytes \<Rightarrow> string"
  hw_now :: int
  hw_use_db :: bool
  hw_has :: "string \<Rightarrow> bool"
  hw_pool :: "pg option"
  hw_by_prefix :: "krow list \<Rightarrow> string \<Rightarrow> krow option"
  hw_by_id :: "krow list \<Rightarrow> int \<Rightarrow> krow option"
  hw_user_by_public :: "cv \<Rightarrow> herror + user option"
  hw_user_by_id :: "int \<Rightarrow> herror + user option"
  hw_uuid :: "cv \<Rightarrow> bool"
  hw_encode :: "string \<Rightarrow> config \<Rightarrow> string"
  hw_decode :: "string \<Rightarrow> int \<Rightarrow> string \<Rightarrow> config option"
  hw_peer :: "string option"
  hw_header :: "string \<Rightarrow> string option"

record handler =
  h_rows :: "krow list"
  h_conns :: user_registry
  h_verified :: bool
  h_key :: "krow option"
  h_key_user_applied :: bool
  h_user :: "user option"
  h_impersonator :: "user option"
  h_token_expires :: "int option"
  h_cached :: "user option option"
  h_token :: "string option"
  h_uid :: "string option"

text \<open>A value that is there and not empty.\<close>

definition given :: "string option \<Rightarrow> string option" where
  "given x = (case x of None \<Rightarrow> None | Some s \<Rightarrow> if s = [] then None else Some s)"

section \<open>Tokens\<close>

definition jwt_secret :: "config \<Rightarrow> herror + string" where
  "jwt_secret config =
     (case map_of config ''jwt'' of
        None \<Rightarrow> Inl (HRaised KKeyError)
      | Some (CDict d) \<Rightarrow>
          (case map_of d ''secret'' of
             None \<Rightarrow> Inl (HRaised KKeyError) | Some (CStr s) \<Rightarrow> Inr s | Some _ \<Rightarrow> Inl (HRaised KTypeError))
      | Some _ \<Rightarrow> Inl (HRaised KTypeError))"

definition seconds :: "int \<Rightarrow> int" where
  "seconds t = t div 1000000"

definition access_payload :: "hworld \<Rightarrow> string \<Rightarrow> string \<Rightarrow> int \<Rightarrow> string \<Rightarrow> config" where
  "access_payload w subject token_type ttl jti =
     [(''sub'', CStr subject), (''typ'', CStr token_type), (''iat'', CInt (seconds (hw_now w))),
      (''exp'', CInt (seconds (hw_now w + ttl * 1000000))), (''jti'', CStr jti)]"

definition create_access_jwt :: "hworld \<Rightarrow> string \<Rightarrow> string \<Rightarrow> int \<Rightarrow> string \<Rightarrow> herror + string" where
  "create_access_jwt w subject token_type ttl jti =
     map_sum id (\<lambda>secret. hw_encode w secret (access_payload w subject token_type ttl jti)) (jwt_secret (hw_config w))"

definition impersonation_payload :: "hworld \<Rightarrow> string \<Rightarrow> string \<Rightarrow> int \<Rightarrow> string \<Rightarrow> config" where
  "impersonation_payload w target impersonator ttl jti =
     [(''sub'', CStr target), (''typ'', CStr ''impersonation''), (''imp'', CStr impersonator),
      (''iat'', CInt (seconds (hw_now w))), (''exp'', CInt (seconds (hw_now w + ttl * 1000000))), (''jti'', CStr jti)]"

definition create_impersonation_jwt :: "hworld \<Rightarrow> string \<Rightarrow> string \<Rightarrow> int \<Rightarrow> string \<Rightarrow> herror + string" where
  "create_impersonation_jwt w target impersonator ttl jti =
     map_sum id (\<lambda>secret. hw_encode w secret (impersonation_payload w target impersonator ttl jti)) (jwt_secret (hw_config w))"

text \<open>
  \<open>hw_decode\<close> is \<open>jwt.decode\<close> with the options of the source: \<open>None\<close> for an expired or invalid
  token. The second \<open>uuid.UUID\<close> check and the missing \<open>jti\<close> end in \<open>except Exception\<close>.
\<close>

definition verify_access_jwt :: "hworld \<Rightarrow> string \<Rightarrow> string \<Rightarrow> herror + config option" where
  "verify_access_jwt w jwt expected_type =
     (case jwt_secret (hw_config w) of
        Inl e \<Rightarrow> Inl e
      | Inr secret \<Rightarrow>
          (case hw_decode w secret (seconds (hw_now w)) jwt of
             None \<Rightarrow> Inr None
           | Some payload \<Rightarrow>
               if cget payload ''typ'' \<noteq> CStr expected_type then Inr None
               else if \<not> hw_uuid w (cget payload ''sub'') \<or> map_of payload ''jti'' = None \<or> \<not> hw_uuid w (cget payload ''jti'')
               then Inr None
               else if expected_type = ''impersonation''
                       \<and> (\<not> truthy (cget payload ''imp'') \<or> \<not> hw_uuid w (cget payload ''imp''))
               then Inr None
               else Inr (Some payload)))"

section \<open>The current user\<close>

definition clear_current_user :: "'a handler_scheme \<Rightarrow> 'a handler_scheme" where
  "clear_current_user s =
     s\<lparr>h_user := None,
       h_conns := (case given (h_uid s) of None \<Rightarrow> h_conns s | Some c \<Rightarrow> user_unassign_connection c None (h_conns s))\<rparr>"

definition bearer_token :: "hworld \<Rightarrow> string option" where
  "bearer_token w =
     (let t = (case hw_header w ''Authorization'' of None \<Rightarrow> [] | Some h \<Rightarrow> h)
      in if take 7 t = ''Bearer '' then given (Some (strip (drop 7 t))) else None)"

definition bind_user :: "user \<Rightarrow> 'a handler_scheme \<Rightarrow> 'a handler_scheme" where
  "bind_user u s =
     s\<lparr>h_conns := (case given (h_uid s) of None \<Rightarrow> h_conns s | Some c \<Rightarrow> assign_user_id c (str_int (us_id u)) (h_conns s))\<rparr>"

text \<open>The payload a token gives, as a user token or else as an impersonation token.\<close>

definition token_payload :: "hworld \<Rightarrow> string \<Rightarrow> herror + (config \<times> bool) option" where
  "token_payload w jwt =
     (case verify_access_jwt w jwt ''user'' of
        Inl e \<Rightarrow> Inl e
      | Inr (Some p) \<Rightarrow> Inr (Some (p, False))
      | Inr None \<Rightarrow>
          (case verify_access_jwt w jwt ''impersonation'' of
             Inl e \<Rightarrow> Inl e | Inr None \<Rightarrow> Inr None | Inr (Some p) \<Rightarrow> Inr (Some (p, True))))"

definition good :: "user option \<Rightarrow> bool" where
  "good x = (case x of None \<Rightarrow> False | Some u \<Rightarrow> active u)"

text \<open>The lookups of the token's user and, for impersonation, of who is behind it.\<close>

datatype who = Nobody | Who user "user option"

definition token_users :: "hworld \<Rightarrow> config \<Rightarrow> bool \<Rightarrow> herror + who" where
  "token_users w payload is_impersonation =
     (case hw_user_by_public w (cget payload ''sub'') of
        Inl e \<Rightarrow> Inl e
      | Inr user \<Rightarrow>
          (case (if is_impersonation then hw_user_by_public w (cget payload ''imp'') else Inr None) of
             Inl e \<Rightarrow> Inl e
           | Inr impersonator \<Rightarrow>
               if is_impersonation \<and> \<not> good impersonator then Inr Nobody
               else (case user of
                       None \<Rightarrow> Inr Nobody
                     | Some u \<Rightarrow> if active u then Inr (Who u impersonator) else Inr Nobody)))"

definition ensure_current_user :: "hworld \<Rightarrow> 'a handler_scheme \<Rightarrow> (herror + unit) \<times> 'a handler_scheme" where
  "ensure_current_user w s =
     (let s0 = s\<lparr>h_impersonator := None, h_token_expires := None, h_cached := None\<rparr>
      in case (case given (h_token s0) of Some t \<Rightarrow> Some t | None \<Rightarrow> bearer_token w) of
           None \<Rightarrow> (Inr (), clear_current_user s0)
         | Some jwt \<Rightarrow>
             (let s1 = s0\<lparr>h_token := Some jwt\<rparr>
              in case token_payload w jwt of
                   Inl e \<Rightarrow> (Inl e, s1)
                 | Inr None \<Rightarrow> (Inr (), clear_current_user s1)
                 | Inr (Some (payload, imp)) \<Rightarrow>
                     if \<not> hw_uuid w (cget payload ''sub'') then (Inr (), clear_current_user s1)
                     else if hw_pool w = None then (Inl (HTTPException ''Database is not initialized'' 500 500), s1)
                     else (case token_users w payload imp of
                             Inl e \<Rightarrow> (Inl e, s1)
                           | Inr Nobody \<Rightarrow> (Inr (), clear_current_user s1)
                           | Inr (Who u i) \<Rightarrow>
                               (Inr (), bind_user u (s1\<lparr>h_user := Some u, h_impersonator := i,
                                  h_token_expires := (case cget payload ''exp'' of CInt n \<Rightarrow> Some n | _ \<Rightarrow> None)\<rparr>)))))"

text \<open>Tornado's property \<open>current_user\<close>, which keeps its first answer.\<close>

definition current_user :: "'a handler_scheme \<Rightarrow> user option \<times> 'a handler_scheme" where
  "current_user s = (case h_cached s of Some c \<Rightarrow> (c, s) | None \<Rightarrow> (h_user s, s\<lparr>h_cached := Some (h_user s)\<rparr>))"

section \<open>API keys\<close>

definition client_ip :: "hworld \<Rightarrow> kerror + string option" where
  "client_ip w =
     (case trusted_proxies (hw_lib w) (hw_pystr w) (hw_config w) (hw_env w) of
        None \<Rightarrow> Inl KTypeError
      | Some trusted \<Rightarrow>
          Inr (resolve_client_ip (hw_lib w) (hw_peer w) (hw_header w ''X-Forwarded-For'') (hw_header w ''X-Real-IP'') trusted))"

definition key_can :: "hworld \<Rightarrow> string \<Rightarrow> 'a handler_scheme \<Rightarrow> bool" where
  "key_can w ability s =
     (if \<not> h_verified s then False
      else case h_key s of
             None \<Rightarrow> True
           | Some r \<Rightarrow> if \<not> hw_has w ''abilities'' then True else ability_allows (Some (k_abilities r)) ability)"

definition verify_api_key :: "hworld \<Rightarrow> string \<Rightarrow> string \<Rightarrow> kerror + bool" where
  "verify_api_key w secret stored_hash =
     (case map_of (hw_config w) ''api_key_pepper'' of
        None \<Rightarrow> Inl KKeyError
      | Some (CStr pepper) \<Rightarrow> secret_matches (hw_sha w) secret pepper stored_hash
      | Some _ \<Rightarrow> Inl KAttributeError)"

definition api_key_refusal :: "hworld \<Rightarrow> krow \<Rightarrow> kerror + string option" where
  "api_key_refusal w r =
     (if hw_has w ''disabled_at'' \<and> k_disabled r \<noteq> None then Inr (Some ''API key is disabled'')
      else if expired (if hw_has w ''expires_at'' then map_option utc (k_expires r) else None) (hw_now w)
      then Inr (Some ''API key has expired'')
      else case (if hw_has w ''allowed_ips'' then k_ips r else None) of
             None \<Rightarrow> Inr None
           | Some ips \<Rightarrow>
               (case client_ip w of
                  Inl e \<Rightarrow> Inl e
                | Inr ip \<Rightarrow>
                    if \<not> ip_allowed (hw_lib w) ip ips then Inr (Some ''API key is not allowed from this address'') else Inr None))"

datatype key_answer = Refused string | Accepted "krow option"

definition has_valid_key_db :: "hworld \<Rightarrow> pg \<Rightarrow> string \<Rightarrow> krow list \<Rightarrow> (herror + key_answer) \<times> krow list" where
  "has_valid_key_db w p api_key rows =
     (case split_key api_key of
        None \<Rightarrow> (Inr (Refused ''Invalid API key''), rows)
      | Some (pfx, secret) \<Rightarrow>
          (case hw_by_prefix w rows pfx of
             None \<Rightarrow> (Inr (Refused ''Invalid API key''), rows)
           | Some r \<Rightarrow>
               (case verify_api_key w secret (k_hash r) of
                  Inl e \<Rightarrow> (Inl (HRaised e), rows)
                | Inr False \<Rightarrow> (Inr (Refused ''Invalid API key''), rows)
                | Inr True \<Rightarrow>
                    (case api_key_refusal w r of
                       Inl e \<Rightarrow> (Inl (HRaised e), rows)
                     | Inr (Some why) \<Rightarrow> (Inr (Refused why), rows)
                     | Inr None \<Rightarrow>
                         (case use_key p (hw_now w) r rows of
                            None \<Rightarrow> (Inl (HRaised KConnect), rows)
                          | Some (r1, rows1) \<Rightarrow> (Inr (Accepted (Some r1)), rows1))))))"

definition has_valid_key :: "hworld \<Rightarrow> string \<Rightarrow> herror + key_answer" where
  "has_valid_key w api_key =
     (case (case map_of (hw_config w) ''api'' of None \<Rightarrow> Inr [] | Some v \<Rightarrow> as_dict v) of
        Inl _ \<Rightarrow> Inl (HRaised KAttributeError)
      | Inr api \<Rightarrow>
          (let configured = cget api ''key''
           in if \<not> truthy configured then Inr (Refused ''API key not configured'')
              else (let candidates = (case configured of CList l \<Rightarrow> l | v \<Rightarrow> [v])
                    in if list_ex (\<lambda>c. (case c of CStr s \<Rightarrow> s | _ \<Rightarrow> hw_pystr w c) = api_key) candidates
                       then Inr (Accepted None) else Inr (Refused ''Invalid API key''))))"

text \<open>\<open>None\<close>: the key is valid; otherwise why it is not.\<close>

definition has_valid_api_key ::
  "hworld \<Rightarrow> string option \<Rightarrow> 'a handler_scheme \<Rightarrow> (herror + string option) \<times> 'a handler_scheme" where
  "has_valid_api_key w custom s =
     (case (case given custom of Some k \<Rightarrow> Some k | None \<Rightarrow> hw_header w ''X-API-Key'') of
        None \<Rightarrow> (Inr (Some ''API key is missing''), s)
      | Some api_key \<Rightarrow>
          (let (r, rows1) =
             (if hw_use_db w then
                (case hw_pool w of
                   None \<Rightarrow> (Inl (HTTPException ''Database is not initialized'' 1 400), h_rows s)
                 | Some p \<Rightarrow> has_valid_key_db w p api_key (h_rows s))
              else (has_valid_key w api_key, h_rows s))
           in case r of
                Inl e \<Rightarrow> (Inl e, s\<lparr>h_rows := rows1\<rparr>)
              | Inr (Refused why) \<Rightarrow> (Inr (Some why), s\<lparr>h_rows := rows1\<rparr>)
              | Inr (Accepted k) \<Rightarrow> (Inr None, s\<lparr>h_rows := rows1, h_verified := True, h_key := k\<rparr>)))"

definition load_user_by_id :: "hworld \<Rightarrow> int \<Rightarrow> herror + user option" where
  "load_user_by_id w user_id =
     (if hw_pool w = None then Inl (HTTPException ''Database is not initialized'' 500 500)
      else case hw_user_by_id w user_id of
             Inl e \<Rightarrow> Inl e
           | Inr user \<Rightarrow> if good user then Inr user else Inr None)"

text \<open>The lookup \<open>_api_key_user\<close> is overridden by sockets, hence an argument here.\<close>

definition apply_api_key_user ::
  "hworld \<Rightarrow> (int \<Rightarrow> 'a handler_scheme \<Rightarrow> (herror + user option) \<times> 'a handler_scheme) \<Rightarrow> 'a handler_scheme
    \<Rightarrow> (herror + unit) \<times> 'a handler_scheme" where
  "apply_api_key_user w api_key_user s =
     (case (if hw_has w ''user_id'' then Option.bind (h_key s) k_user else None) of
        None \<Rightarrow> (Inr (), s)
      | Some i \<Rightarrow>
          if i = 0 \<or> given (h_token s) \<noteq> None then (Inr (), s)
          else (case api_key_user i s of
                  (Inl e, s1) \<Rightarrow> (Inl e, s1)
                | (Inr None, s1) \<Rightarrow>
                    (Inl (HTTPException ''Application is not authenticated: API key user is not active'' 1401 401), clear_current_user s1)
                | (Inr (Some u), s1) \<Rightarrow>
                    (Inr (), bind_user u (s1\<lparr>h_user := Some u, h_cached := None, h_key_user_applied := True\<rparr>))))"

definition service_ability :: "string \<Rightarrow> string \<Rightarrow> string" where
  "service_ability service_name act = replace_char (CHR ''-'') (CHR ''_'') service_name @ '':'' @ act"

definition enforce_api_key ::
  "hworld \<Rightarrow> (int \<Rightarrow> 'a handler_scheme \<Rightarrow> (herror + user option) \<times> 'a handler_scheme) \<Rightarrow> string \<Rightarrow> string \<Rightarrow> 'a handler_scheme
    \<Rightarrow> (herror + unit) \<times> 'a handler_scheme" where
  "enforce_api_key w api_key_user service_name act s =
     (case (if hw_has w ''abilities'' then h_key s else None) of
        None \<Rightarrow> apply_api_key_user w api_key_user s
      | Some r \<Rightarrow>
          if \<not> ability_allows (Some (k_abilities r)) (service_ability service_name act)
          then (Inl (HTTPException (''API key may not call '' @ service_ability service_name act) 1403 403), s)
          else apply_api_key_user w api_key_user s)"

section \<open>Who gets in with a key\<close>

text \<open>The library's lookup by the unique prefix.\<close>

definition finds_prefix :: "hworld \<Rightarrow> krow list \<Rightarrow> bool" where
  "finds_prefix w rows \<longleftrightarrow> (\<forall>pfx. case hw_by_prefix w rows pfx of
     None \<Rightarrow> pfx \<notin> k_prefix ` set rows | Some r \<Rightarrow> r \<in> set rows \<and> k_prefix r = pfx)"

lemma finds_prefixD: "finds_prefix w rows \<Longrightarrow> hw_by_prefix w rows pfx = Some r \<Longrightarrow> r \<in> set rows \<and> k_prefix r = pfx"
  by (auto simp: finds_prefix_def split: option.splits)

lemma finds_prefixI:
  assumes "finds_prefix w rows" "r \<in> set rows"
  shows "\<exists>q. hw_by_prefix w rows (k_prefix r) = Some q"
proof (cases "hw_by_prefix w rows (k_prefix r)")
  case None
  then have "k_prefix r \<notin> k_prefix ` set rows" using assms(1) unfolding finds_prefix_def by (metis option.case(1))
  then show ?thesis using assms(2) by blast
qed simp

text \<open>When a row may be used now.\<close>

definition key_usable :: "hworld \<Rightarrow> krow \<Rightarrow> bool" where
  "key_usable w r \<longleftrightarrow> (hw_has w ''disabled_at'' \<longrightarrow> k_disabled r = None)
     \<and> (hw_has w ''expires_at'' \<longrightarrow> (case k_expires r of None \<Rightarrow> True | Some t \<Rightarrow> hw_now w < t))
     \<and> (hw_has w ''allowed_ips'' \<longrightarrow> (case k_ips r of None \<Rightarrow> True
          | Some ips \<Rightarrow> (\<exists>ip. client_ip w = Inr ip \<and> ip_allowed (hw_lib w) ip ips)))"

lemma refusal_key_usable: "api_key_refusal w r = Inr None \<longleftrightarrow> key_usable w r"
  by (cases "k_expires r"; cases "k_ips r"; cases "client_ip w")
    (simp_all add: api_key_refusal_def key_usable_def expired_def utc_def instant_def not_le)

definition key_presented :: "hworld \<Rightarrow> string option \<Rightarrow> string option" where
  "key_presented w custom = (case given custom of Some k \<Rightarrow> Some k | None \<Rightarrow> hw_header w ''X-API-Key'')"

text \<open>The row that a key opens.\<close>

definition opens :: "hworld \<Rightarrow> string \<Rightarrow> krow \<Rightarrow> bool" where
  "opens w key r \<longleftrightarrow> (\<exists>secret pepper. split_key key = Some (k_prefix r, secret)
     \<and> map_of (hw_config w) ''api_key_pepper'' = Some (CStr pepper) \<and> k_hash r = hash_secret (hw_sha w) secret pepper)"

lemma verify_api_key_True:
  "verify_api_key w secret h = Inr True \<Longrightarrow>
     \<exists>pepper. map_of (hw_config w) ''api_key_pepper'' = Some (CStr pepper) \<and> h = hash_secret (hw_sha w) secret pepper"
  by (auto simp: verify_api_key_def secret_matches_def Let_def split: option.splits cv.splits if_splits)

lemma has_valid_key_db_accepts:
  assumes "has_valid_key_db w p key rows = (Inr (Accepted k), rows1)"
  obtains r pfx r1 where "hw_by_prefix w rows pfx = Some r" "key_usable w r" "k = Some r1"
    "\<exists>secret. split_key key = Some (pfx, secret) \<and> verify_api_key w secret (k_hash r) = Inr True"
    "use_key p (hw_now w) r rows = Some (r1, rows1)"
proof -
  from assms obtain pfx secret where sk: "split_key key = Some (pfx, secret)"
    by (cases "split_key key") (auto simp: has_valid_key_db_def)
  from assms sk obtain r where r: "hw_by_prefix w rows pfx = Some r"
    by (cases "hw_by_prefix w rows pfx") (auto simp: has_valid_key_db_def)
  from assms sk r have v: "verify_api_key w secret (k_hash r) = Inr True"
    by (auto simp: has_valid_key_db_def split: sum.splits bool.splits)
  from assms sk r v have u: "key_usable w r"
    by (auto simp: has_valid_key_db_def simp flip: refusal_key_usable split: sum.splits option.splits)
  from assms sk r v u obtain r1 where "k = Some r1" "use_key p (hw_now w) r rows = Some (r1, rows1)"
    by (cases "use_key p (hw_now w) r rows") (auto simp: has_valid_key_db_def simp flip: refusal_key_usable)
  then show thesis using that sk r v u by blast
qed

lemma has_valid_key_db_else:
  "has_valid_key_db w p key rows = (x, rows1) \<Longrightarrow> (\<forall>k. x \<noteq> Inr (Accepted k)) \<Longrightarrow> rows1 = rows"
  unfolding has_valid_key_db_def
  by (auto split: option.split_asm sum.split_asm bool.split_asm prod.split_asm)

lemma has_valid_api_key_db:
  assumes "hw_use_db w" "key_presented w custom = Some key" "hw_pool w = Some p"
    "has_valid_key_db w p key (h_rows s) = (x, rows1)"
  shows "has_valid_api_key w custom s =
    (case x of Inl e \<Rightarrow> (Inl e, s\<lparr>h_rows := rows1\<rparr>) | Inr (Refused why) \<Rightarrow> (Inr (Some why), s\<lparr>h_rows := rows1\<rparr>)
     | Inr (Accepted k) \<Rightarrow> (Inr None, s\<lparr>h_rows := rows1, h_verified := True, h_key := k\<rparr>))"
  using assms by (simp add: has_valid_api_key_def flip: key_presented_def)

lemma admitted:
  assumes "hw_use_db w" "finds_prefix w (h_rows s)" "has_valid_api_key w custom s = (Inr None, s1)"
  shows "\<exists>key r t. key_presented w custom = Some key \<and> r \<in> set (h_rows s) \<and> opens w key r \<and> key_usable w r
      \<and> s1 = s\<lparr>h_verified := True, h_key := Some (r\<lparr>k_uses := k_uses r + 1, k_last_used := Some (hw_now w)\<rparr>),
               h_rows := set_row (k_id r) (\<lambda>y. y\<lparr>k_last_used := Some t, k_uses := k_uses y + 1\<rparr>) (h_rows s)\<rparr>"
proof -
  obtain key where key: "key_presented w custom = Some key"
    using assms(3) by (cases "key_presented w custom") (auto simp: has_valid_api_key_def simp flip: key_presented_def)
  obtain p where p: "hw_pool w = Some p"
    using assms(1,3) key by (cases "hw_pool w") (auto simp: has_valid_api_key_def simp flip: key_presented_def)
  obtain a rows1 where a: "has_valid_key_db w p key (h_rows s) = (a, rows1)" by (rule prod.exhaust)
  note e = assms(3) [unfolded has_valid_api_key_db [OF assms(1) key p a]]
  then obtain k where k: "a = Inr (Accepted k)" by (auto split: sum.splits key_answer.splits)
  from has_valid_key_db_accepts [OF a [unfolded k]] obtain r pfx r1 where
    r: "hw_by_prefix w (h_rows s) pfx = Some r" "key_usable w r" "k = Some r1" "use_key p (hw_now w) r (h_rows s) = Some (r1, rows1)"
    "\<exists>secret. split_key key = Some (pfx, secret) \<and> verify_api_key w secret (k_hash r) = Inr True" by metis
  have f: "r \<in> set (h_rows s)" "k_prefix r = pfx" using finds_prefixD [OF assms(2) r(1)] by blast+
  have o: "opens w key r" using r(5) f(2) verify_api_key_True by (fastforce simp: opens_def)
  have u: "r1 = r\<lparr>k_uses := k_uses r + 1, k_last_used := Some (hw_now w)\<rparr>"
    "rows1 = set_row (k_id r) (\<lambda>y. y\<lparr>k_last_used := Some (pg_now p), k_uses := k_uses y + 1\<rparr>) (h_rows s)"
    using r(4) by (auto simp: use_key_def split: if_splits)
  show ?thesis
    by (rule exI [of _ key], rule exI [of _ r], rule exI [of _ "pg_now p"]) (use e k key r(2,3) f(1) o u in auto)
qed

lemma not_admitted:
  assumes "hw_use_db w" "has_valid_api_key w custom s = (x, s1)" "x \<noteq> Inr None"
  shows "s1 = s"
proof (cases "key_presented w custom")
  case (Some key)
  show ?thesis
  proof (cases "hw_pool w")
    case p: (Some p)
    obtain a rows1 where a: "has_valid_key_db w p key (h_rows s) = (a, rows1)" by (rule prod.exhaust)
    note e = assms(2) [unfolded has_valid_api_key_db [OF assms(1) Some p a]]
    then have n: "\<forall>k. a \<noteq> Inr (Accepted k)" using assms(3) by auto
    then have "rows1 = h_rows s" using has_valid_key_db_else [OF a] by blast
    then show ?thesis using e n by (cases a) (auto split: key_answer.splits)
  qed (use assms Some in \<open>auto simp: has_valid_api_key_def simp flip: key_presented_def\<close>)
qed (use assms in \<open>auto simp: has_valid_api_key_def simp flip: key_presented_def\<close>)

text \<open>
  C4. Who gets in. With the table in use, a request passes the key check only with a key whose
  prefix is that of a row, whose secret has the stored hash, while that row is not revoked and
  not expired and the request comes from an allowed address; then that row, and no other, counts
  the use, and it is the record the request is checked against. In every other case the check
  refuses or raises, and neither the table nor the request changes.
\<close>

theorem key_admission:
  assumes "hw_use_db w" "finds_prefix w (h_rows s)" "has_valid_api_key w custom s = (x, s1)"
  shows "if x = Inr None
    then \<exists>key r t. key_presented w custom = Some key \<and> r \<in> set (h_rows s) \<and> opens w key r \<and> key_usable w r
      \<and> s1 = s\<lparr>h_verified := True, h_key := Some (r\<lparr>k_uses := k_uses r + 1, k_last_used := Some (hw_now w)\<rparr>),
               h_rows := set_row (k_id r) (\<lambda>y. y\<lparr>k_last_used := Some t, k_uses := k_uses y + 1\<rparr>) (h_rows s)\<rparr>
    else s1 = s"
  using admitted [OF assms(1,2)] not_admitted [OF assms(1,3)] assms(3) by simp

lemma disabled_refused:
  assumes "hw_use_db w" "finds_prefix w (h_rows s)" "hw_has w ''disabled_at''" "keys_ok (h_rows s)"
    "r \<in> set (h_rows s)" "k_disabled r \<noteq> None" "key_presented w custom = Some key" "split_key key = Some (k_prefix r, secret)"
  shows "fst (has_valid_api_key w custom s) \<noteq> Inr None"
proof
  obtain x s1 where x: "has_valid_api_key w custom s = (x, s1)" by (rule prod.exhaust)
  assume "fst (has_valid_api_key w custom s) = Inr None"
  then have xn: "x = Inr None" using x by simp
  from admitted [OF assms(1,2) x [unfolded xn]] assms(7) obtain q where q: "q \<in> set (h_rows s)" "opens w key q" "key_usable w q" by auto
  then have "k_prefix q = k_prefix r" using assms(8) by (auto simp: opens_def)
  then have "q = r" using q(1) assms(4,5) by (auto simp: keys_ok_def distinct_map dest: inj_onD)
  then show False using q(3) assms(3,6) by (simp add: key_usable_def)
qed

lemma revoke_disables:
  assumes "cmd_revoke p fmt ref rows0 = (Inr (0, l), rows)" "keys_ok rows0"
  shows "\<exists>q r. where_ref ref = Inr q \<and> r \<in> set rows0 \<and> matches_ref q r
    \<and> (\<exists>x\<in>set rows. k_prefix x = k_prefix r \<and> k_disabled x \<noteq> None)"
proof -
  from assms(1) obtain q where q: "where_ref ref = Inr q" by (cases "where_ref ref") (simp_all add: cmd_revoke_def)
  from assms(1) q have up: "pg_up p" by (cases "pg_up p") (simp_all add: cmd_revoke_def)
  from assms(1) q up obtain r where r: "find (matches_ref q) rows0 = Some r"
    by (cases "find (matches_ref q) rows0") (simp_all add: cmd_revoke_def)
  note i = find_in_set [OF r]
  have rows: "rows = snd (cmd_revoke p fmt ref rows0)" using assms(1) by simp
  have "\<exists>x\<in>set rows. k_prefix x = k_prefix r \<and> k_disabled x \<noteq> None"
  proof (cases "k_disabled r")
    case None
    then have "r\<lparr>k_disabled := Some (pg_now p), k_updated := pg_now p\<rparr> \<in> set rows"
      using rows q up r i by (auto simp: cmd_revoke_rows set_row_def image_iff intro!: bexI [of _ r])
    then show ?thesis by (rule bexI [rotated]) simp
  next
    case (Some t)
    then have "r \<in> set rows" using rows q up r i by (simp add: cmd_revoke_rows)
    then show ?thesis using Some by force
  qed
  then show ?thesis using q i by blast
qed

text \<open>
  C18. Revoking is final. Once \<open>revoke\<close> has ended with exit code 0, the key it names is never
  accepted again, whatever commands and requests follow, with any secret.
\<close>

theorem revoked_for_good:
  assumes "cmd_revoke p fmt ref rows0 = (Inr (0, l), rows)" "keys_ok rows0" "key_step\<^sup>*\<^sup>* rows rows1"
    "hw_use_db w" "hw_has w ''disabled_at''" "finds_prefix w rows1"
  shows "\<exists>q r. where_ref ref = Inr q \<and> r \<in> set rows0 \<and> matches_ref q r
    \<and> (\<forall>s custom key secret. h_rows s = rows1 \<and> key_presented w custom = Some key
          \<and> split_key key = Some (k_prefix r, secret)
        \<longrightarrow> fst (has_valid_api_key w custom (s :: handler)) \<noteq> Inr None)"
proof -
  from revoke_disables [OF assms(1,2)] obtain q r x where q: "where_ref ref = Inr q" "r \<in> set rows0" "matches_ref q r"
    and x: "x \<in> set rows" "k_prefix x = k_prefix r" "k_disabled x \<noteq> None" by blast
  have "kept rows0 rows" using kept_revoke [OF assms(2), of p fmt ref] assms(1) by simp
  then have k: "kept rows rows1" by (intro key_steps_kept [OF assms(3)]) (simp add: kept_def)
  from kept_row [OF k x(1)] obtain y where y: "y \<in> set rows1" "same_key x y" by blast
  then have "k_prefix y = k_prefix r" "k_disabled y \<noteq> None" using x by (auto simp: same_key_def)
  then show ?thesis
    using q y(1) k disabled_refused [where r = y, OF assms(4) _ assms(5)] assms(6)
    by (intro exI [of _ q] exI [of _ r]) (auto simp: kept_def)
qed

lemma insert_in: "insert_key p name pfx hash abilities ips expires user rows = Some (r, rows1) \<Longrightarrow> r \<in> set rows1"
  by (auto simp: insert_key_def Let_def split: option.splits if_splits)

text \<open>
  C33. The key that \<open>create\<close> prints works: on the table it leaves, a request that presents the last
  printed line passes the check, before the key expires and from an address the key allows, and
  is then limited to the abilities the key was created with.
\<close>

theorem created_key_works:
  assumes made: "cmd_create p sha fmt six thirtytwo pepper name abilities ips expires user rows = (0, l, rows1)"
    and rnd: "keys_ok rows" "list_all (\<lambda>b. b < 256) six" "thirtytwo \<noteq> []"
    and w: "hw_use_db w" "hw_pool w = Some p1" "pg_up p1" "hw_sha w = sha" "finds_prefix w rows1"
      "map_of (hw_config w) ''api_key_pepper'' = Some (CStr pepper)" "\<And>b. ascii (sha b)" "hw_has w ''abilities''"
    and now: "case expires of None \<Rightarrow> True | Some t \<Rightarrow> hw_now w < t"
      "case cidr_array p ips of Some (Some nets) \<Rightarrow> (\<exists>ip. client_ip w = Inr ip \<and> ip_allowed (hw_lib w) ip nets) | _ \<Rightarrow> True"
    and s: "h_rows s = rows1" "has_valid_api_key w (Some (last l)) s = (x, s1)"
  shows "x = Inr None \<and> (\<forall>a. key_can w a s1 \<longleftrightarrow> ability_allows (Some abilities) a)"
proof -
  obtain pfx secret where g: "generate_key six thirtytwo = (pfx, secret)" by (rule prod.exhaust)
  obtain r where i: "insert_key p name pfx (hash_secret sha secret pepper) abilities ips expires user rows = Some (r, rows1)"
    and l: "last l = pfx @ ''.'' @ secret"
    using made g by (cases "insert_key p name pfx (hash_secret sha secret pepper) abilities ips expires user rows")
      (auto simp: cmd_create_def simp del: append_assoc)
  note f = insert_key_ok [OF i rnd(1)] and r = insert_in [OF i] and sk = split_generated [OF g rnd(2,3)]
  have kp: "key_presented w (Some (last l)) = Some (pfx @ ''.'' @ secret)" unfolding l by (simp add: key_presented_def given_def)
  have ok: "keys_ok rows1" "k_prefix r = pfx" "k_hash r = hash_secret sha secret pepper" "k_abilities r = abilities"
    "k_disabled r = None" "k_expires r = expires" "cidr_array p ips = Some (k_ips r)" "k_uses r = 0" using f by blast+
  obtain q where q: "hw_by_prefix w rows1 pfx = Some q"
    using finds_prefixI [OF w(5) r] ok(2) by blast
  then have "q \<in> set rows1" "k_prefix q = pfx" using finds_prefixD [OF w(5)] by blast+
  then have qr: "q = r" using r ok(1,2) by (auto simp: keys_ok_def distinct_map dest: inj_onD)
  have "ascii (hash_secret sha secret pepper)" using w(7) by (simp add: hash_secret_def)
  then have v: "verify_api_key w secret (k_hash r) = Inr True"
    using w(4,6) ok(3) by (simp add: verify_api_key_def secret_matches_def Let_def)
  have "key_usable w r" using now ok by (auto simp: key_usable_def split: option.splits)
  then have u: "api_key_refusal w r = Inr None" by (simp add: refusal_key_usable)
  have "bigint (k_uses y + 1)" if "y \<in> set rows1" "k_id y = k_id r" for y
    using same_id [OF ok(1) that(1) r that(2)] ok(8) by (simp add: bigint_def)
  then obtain r1 rows2 where us: "use_key p1 (hw_now w) r rows1 = Some (r1, rows2)" "r1 = r\<lparr>k_uses := k_uses r + 1, k_last_used := Some (hw_now w)\<rparr>"
    using w(3) by (auto simp: use_key_def list_ex_iff)
  have db: "has_valid_key_db w p1 (pfx @ ''.'' @ secret) (h_rows s) = (Inr (Accepted (Some r1)), rows2)"
    unfolding has_valid_key_db_def sk s(1) using q qr v u us(1) by simp
  from s(2) [unfolded has_valid_api_key_db [OF w(1) kp w(2) db]] show ?thesis
    using us(2) ok(4) w(8) by (auto simp: key_can_def)
qed

section \<open>Examples\<close>

definition demo_row :: krow where
  "demo_row = \<lparr>k_id = 7, k_name = ''n'', k_prefix = ''akp'', k_hash = ''h'', k_abilities = [''s:*''], k_ips = None, k_expires = None,
     k_user = Some 5, k_last_used = None, k_uses = 0, k_created = 1, k_updated = 1, k_disabled = None\<rparr>"

definition demo_pg :: pg where
  "demo_pg = \<lparr>pg_up = True, pg_now = 2, pg_seq = 8, pg_cidr = Some\<rparr>"

definition demo_user :: user where
  "demo_user = \<lparr>us_id = 5, us_public = ''u'', us_disabled = False, us_deleted = False\<rparr>"

definition demo_world :: hworld where
  "demo_world = \<lparr>hw_config = [(''api_key_pepper'', CStr ''p''), (''jwt'', CDict [(''secret'', CStr ''k'')])], hw_env = [], hw_lib = demo_lib,
     hw_pystr = (\<lambda>_. ''x''), hw_sha = (\<lambda>_. ''h''), hw_now = 3000000, hw_use_db = True, hw_has = (\<lambda>_. True), hw_pool = Some demo_pg,
     hw_by_prefix = (\<lambda>rows p. find (\<lambda>r. k_prefix r = p) rows), hw_by_id = (\<lambda>rows i. find (\<lambda>r. k_id r = i) rows),
     hw_user_by_public = (\<lambda>_. Inr (Some demo_user)), hw_user_by_id = (\<lambda>_. Inr (Some demo_user)), hw_uuid = (\<lambda>_. True),
     hw_encode = (\<lambda>k p. ''t''), hw_decode = (\<lambda>k now t. None), hw_peer = Some ''c'', hw_header = (\<lambda>_. None)\<rparr>"

definition demo_handler :: handler where
  "demo_handler = \<lparr>h_rows = [demo_row], h_conns = user_init, h_verified = False, h_key = None, h_key_user_applied = False,
     h_user = None, h_impersonator = None, h_token_expires = None, h_cached = None, h_token = None, h_uid = None\<rparr>"

lemma demo_world_sel [simp]:
  "hw_use_db demo_world" "hw_pool demo_world = Some demo_pg" "hw_has demo_world f" "hw_now demo_world = 3000000"
  "hw_by_prefix demo_world rows p = find (\<lambda>r. k_prefix r = p) rows" "hw_by_id demo_world rows i = find (\<lambda>r. k_id r = i) rows"
  "hw_sha demo_world b = ''h''" "hw_header demo_world n = None" "hw_uuid demo_world c"
  "hw_config demo_world = [(''api_key_pepper'', CStr ''p''), (''jwt'', CDict [(''secret'', CStr ''k'')])]"
  "hw_user_by_id demo_world i = Inr (Some demo_user)" "pg_up demo_pg" "pg_now demo_pg = 2" "h_rows demo_handler = [demo_row]"
  by (simp_all add: demo_world_def demo_pg_def demo_handler_def)

lemma demo_row_sel [simp]:
  "k_id demo_row = 7" "k_prefix demo_row = ''akp''" "k_hash demo_row = ''h''" "k_disabled demo_row = None" "k_expires demo_row = None"
  "k_ips demo_row = None" "k_uses demo_row = 0" "k_abilities demo_row = [''s:*'']" "k_user demo_row = Some 5"
  by (simp_all add: demo_row_def)

lemma demo_finds: "finds_prefix demo_world rows"
  by (auto simp: finds_prefix_def find_Some_iff find_None_iff split: option.splits)

lemma demo_accepts: "fst (has_valid_api_key demo_world (Some ''akp.x'') demo_handler) = Inr None"
proof -
  have k: "key_presented demo_world (Some ''akp.x'') = Some ''akp.x''" by (simp add: key_presented_def given_def)
  have s: "split_key ''akp.x'' = Some (''akp'', ''x'')" by (simp add: split_key_def)
  have v: "verify_api_key demo_world ''x'' ''h'' = Inr True"
    by (simp add: verify_api_key_def secret_matches_def hash_secret_def ascii_def code_def)
  have u: "api_key_refusal demo_world demo_row = Inr None" by (simp add: refusal_key_usable key_usable_def)
  obtain x rows1 where db: "has_valid_key_db demo_world demo_pg ''akp.x'' (h_rows demo_handler) = (x, rows1)" by (rule prod.exhaust)
  then have "\<exists>k. x = Inr (Accepted k)"
    using s v u by (auto simp: has_valid_key_db_def use_key_def bigint_def)
  then show ?thesis using has_valid_api_key_db [OF _ k _ db] by auto
qed

theorem key_admission_witness:
  "\<exists>key r. key_presented demo_world (Some ''akp.x'') = Some key \<and> r \<in> set [demo_row] \<and> opens demo_world key r \<and> key_usable demo_world r"
proof -
  obtain x s1 where x: "has_valid_api_key demo_world (Some ''akp.x'') demo_handler = (x, s1)" by (rule prod.exhaust)
  then have "x = Inr None" using demo_accepts by simp
  then show ?thesis using key_admission [OF _ demo_finds x] by auto
qed

theorem revoked_for_good_witness:
  "\<exists>q r. where_ref ''7'' = Inr q \<and> r \<in> set [demo_row] \<and> matches_ref q r"
proof -
  have w: "where_ref ''7'' = Inr (ById 7)" by code_simp
  have f: "find (matches_ref (ById 7)) [demo_row] = Some demo_row" by simp
  obtain l rows where c: "cmd_revoke demo_pg (\<lambda>_. ''t'') ''7'' [demo_row] = (Inr (0, l), rows)"
    unfolding cmd_revoke_def w sum.case f by (simp add: demo_pg_def)
  have "keys_ok [demo_row]" by (simp add: keys_ok_def)
  from revoked_for_good [OF c this rtranclp.rtrancl_refl _ _ demo_finds] show ?thesis by auto
qed

theorem created_key_works_witness:
  "\<exists>l rows1 s1. cmd_create demo_pg (\<lambda>_. ''h'') (\<lambda>_. ''t'') [1] [2] ''p'' ''n'' [''s:*''] None None None [] = (0, l, rows1)
    \<and> has_valid_api_key demo_world (Some (last l)) (demo_handler\<lparr>h_rows := rows1\<rparr>) = (Inr None, s1)"
proof -
  let ?c = "cmd_create demo_pg (\<lambda>_. ''h'') (\<lambda>_. ''t'') [1] [2] ''p'' ''n'' [''s:*''] None None None []"
  obtain g1 g2 where g: "generate_key [1] [2] = (g1, g2)" by (rule prod.exhaust)
  have st: "text_ok ''n''" "text_ok ''s:*''" by (simp_all add: text_ok_def)
  obtain l rows1 where c: "?c = (0, l, rows1)"
    unfolding cmd_create_def g by (simp add: insert_key_def cidr_array_def st Let_def)
  obtain x s1 where x: "has_valid_api_key demo_world (Some (last l)) (demo_handler\<lparr>h_rows := rows1\<rparr>) = (x, s1)" by (rule prod.exhaust)
  have sha: "hw_sha demo_world = (\<lambda>_. ''h'')" by (simp add: demo_world_def)
  have "x = Inr None"
    using created_key_works [OF c _ _ _ _ _ _ sha demo_finds _ _ _ _ _ _ x] by (simp add: keys_ok_def ascii_def code_def cidr_array_def)
  then show ?thesis using c x by blast
qed

end
