(* ===== verification/Ws_Bridge.thy ===== *)
theory Ws_Bridge
  imports Req_Auth
begin

text \<open>
  The bridge's two transports: the HTTP handler of \<open>bridge/api.py\<close> and the socket handler of
  \<open>bridge/websocket.py\<close>, on top of the handler of \<open>Req_Auth\<close>. A request or a message ends in a call
  of a service or in an error; the part up to the call is one function, which gives the call to
  make or the exception, so that what is called can be read off. A message is handled at one
  moment, \<open>clk\<close> on the monotonic clock and \<open>hw_now\<close> on the wall clock, both in microseconds.
\<close>

section \<open>Services\<close>

text \<open>A loaded service: whether it takes requests, and its \<open>requires_api_key\<close>.\<close>

record service =
  sv_callable :: bool
  sv_requires_key :: "bool option"

type_synonym services = "(string, service) dict"

text \<open>\<open>find_service\<close>: the code of the error message, or whether a key is required.\<close>

definition find_service :: "services \<Rightarrow> string option \<Rightarrow> int + bool option" where
  "find_service services name =
     (case name of
        None \<Rightarrow> Inl (- 1000)
      | Some n \<Rightarrow>
          (case map_of services (replace_char (CHR ''-'') (CHR ''_'') n) of
             None \<Rightarrow> Inl (- 1010)
           | Some sv \<Rightarrow> if \<not> sv_callable sv then Inl (- 1020) else Inr (sv_requires_key sv)))"

section \<open>Sequencing\<close>

text \<open>Statements that may raise: the rest is skipped, the changes stay.\<close>

definition hbind :: "('s \<Rightarrow> (herror + 'a) \<times> 's) \<Rightarrow> ('a \<Rightarrow> 's \<Rightarrow> (herror + 'b) \<times> 's) \<Rightarrow> 's \<Rightarrow> (herror + 'b) \<times> 's" where
  "hbind f g s = (case f s of (Inl e, s1) \<Rightarrow> (Inl e, s1) | (Inr x, s1) \<Rightarrow> g x s1)"

lemma hbind_Inr: "hbind f g s = (Inr y, s2) \<longleftrightarrow> (\<exists>x s1. f s = (Inr x, s1) \<and> g x s1 = (Inr y, s2))"
  by (auto simp: hbind_def split: prod.splits sum.splits)

lemma hbind_apply: "f s = (Inr x, s1) \<Longrightarrow> hbind f g s = g x s1" "f s = (Inl e, s1) \<Longrightarrow> hbind f g s = (Inl e, s1)"
  by (simp_all add: hbind_def)

definition check_that :: "bool \<Rightarrow> herror \<Rightarrow> 's \<Rightarrow> (herror + unit) \<times> 's" where
  "check_that b e s = (if b then Inr () else Inl e, s)"

lemma check_that_Inr [simp]: "check_that b e s = (Inr x, s1) \<longleftrightarrow> b \<and> s1 = s"
  by (auto simp: check_that_def)

section \<open>HTTP requests\<close>

definition value_text :: "hworld \<Rightarrow> cv \<Rightarrow> string" where
  "value_text w v = (case v of CStr s \<Rightarrow> s | _ \<Rightarrow> hw_pystr w v)"

text \<open>\<open>get_request_data\<close>: \<open>json_args\<close> is the parsed body, \<open>query\<close> the argument \<open>action\<close> of the URL.\<close>

definition get_request_data :: "config \<Rightarrow> string option \<Rightarrow> string option \<Rightarrow> config" where
  "get_request_data json_args force_action query =
     (let act = (case given force_action of
                   Some a \<Rightarrow> CStr a
                 | None \<Rightarrow> if truthy (cget json_args ''action'') then cget json_args ''action''
                           else (case query of None \<Rightarrow> CNone | Some q \<Rightarrow> CStr q))
      in if truthy act then AList.update ''action'' act json_args else json_args)"

text \<open>The call a request leads to: the service, the action and the input.\<close>

datatype call = Call string cv cv

definition auth_failed :: "string \<Rightarrow> herror" where
  "auth_failed why = HTTPException (''Application is not authenticated: '' @ why) 1401 401"

definition not_found :: "string \<Rightarrow> herror" where
  "not_found name = HTTPException (''Could not find service by provided name: '' @ take 100 name) 1002 400"

definition require_key ::
  "(string option \<Rightarrow> 'a handler_scheme \<Rightarrow> (herror + string option) \<times> 'a handler_scheme) \<Rightarrow> 'a handler_scheme
    \<Rightarrow> (herror + unit) \<times> 'a handler_scheme" where
  "require_key valid s =
     hbind (valid None) (\<lambda>r s1. case r of None \<Rightarrow> (Inr (), s1) | Some why \<Rightarrow> (Inl (auth_failed why), s1)) s"

definition plain_api_key_user :: "hworld \<Rightarrow> int \<Rightarrow> 'a handler_scheme \<Rightarrow> (herror + user option) \<times> 'a handler_scheme" where
  "plain_api_key_user w i s = (load_user_by_id w i, s)"

text \<open>\<open>get_v1\<close> up to the call of the service.\<close>

definition get_v1 ::
  "hworld \<Rightarrow> services \<Rightarrow> string option \<Rightarrow> string option \<Rightarrow> config \<Rightarrow> string option \<Rightarrow> handler \<Rightarrow> (herror + call) \<times> handler" where
  "get_v1 w services service act json_args query s =
     (case find_service services service of
        Inl _ \<Rightarrow> (Inl (not_found (case service of None \<Rightarrow> ''None'' | Some n \<Rightarrow> n)), s)
      | Inr requires \<Rightarrow>
          hbind (if requires \<noteq> Some False then require_key (has_valid_api_key w) else (\<lambda>s. (Inr (), s)))
            (\<lambda>_. let data = get_request_data json_args act query; a = cget data ''action'' in
               hbind (check_that (truthy a) (HTTPException ''Missing action'' 1005 400))
                 (\<lambda>_. hbind (if requires \<noteq> Some False
                              then enforce_api_key w (plain_api_key_user w) (case service of None \<Rightarrow> ''None'' | Some n \<Rightarrow> n) (value_text w a)
                              else (\<lambda>s. (Inr (), s)))
                    (\<lambda>_ s. (Inr (Call (case service of None \<Rightarrow> ''None'' | Some n \<Rightarrow> n) a
                              (case map_of data ''data'' of None \<Rightarrow> CDict [] | Some v \<Rightarrow> v)), s)))) s)"

text \<open>
  \<open>get\<close>: what the client is sent, and that the request forgets its token. \<open>serve\<close> calls the service.
\<close>

datatype http_reply = Body int cv | NoContent | HttpError int string int

definition GENERIC_ERROR :: string where
  "GENERIC_ERROR = ''Found an error while processing your request. Please try again later. Send us a message if the problem persists.''"

definition http_get ::
  "hworld \<Rightarrow> services \<Rightarrow> (call \<Rightarrow> handler \<Rightarrow> (herror + cv option) \<times> handler) \<Rightarrow> string option \<Rightarrow> string option \<Rightarrow> config
    \<Rightarrow> string option \<Rightarrow> handler \<Rightarrow> http_reply \<times> handler" where
  "http_get w services serve service act json_args query s =
     (let (r, s1) = hbind (get_v1 w services service act json_args query) serve s
      in (case r of
            Inl (HTTPException m c status) \<Rightarrow> HttpError status m c
          | Inl (HRaised _) \<Rightarrow> HttpError 500 GENERIC_ERROR (- 1)
          | Inr None \<Rightarrow> NoContent
          | Inr (Some v) \<Rightarrow> Body 200 v, s1\<lparr>h_token := None\<rparr>))"

section \<open>Sockets\<close>

record wsock = handler +
  w_key_valid :: "bool option"
  w_rejected :: "cv option"
  w_checked_at :: int
  w_user_cache :: "user option option"
  w_lookup_failed :: bool
  w_auth_checked_at :: int
  w_msg_id :: "int option"
  w_service :: "cv option"
  w_closed :: "(int \<times> string) option"
  w_device :: "string option"
  w_devices :: device_registry

definition RECHECK :: int where "RECHECK = 30000000"

definition ws_has_valid_api_key :: "hworld \<Rightarrow> int \<Rightarrow> string option \<Rightarrow> wsock \<Rightarrow> (herror + string option) \<times> wsock" where
  "ws_has_valid_api_key w clk custom s =
     (case has_valid_api_key w custom s of
        (Inr None, s1) \<Rightarrow> (Inr None, s1\<lparr>w_checked_at := clk, w_user_cache := None\<rparr>)
      | (r, s1) \<Rightarrow> (r, s1))"

definition ws_api_key_user :: "hworld \<Rightarrow> int \<Rightarrow> wsock \<Rightarrow> (herror + user option) \<times> wsock" where
  "ws_api_key_user w i s =
     (case w_user_cache s of
        Some u \<Rightarrow> (Inr u, s)
      | None \<Rightarrow>
          (case load_user_by_id w i of
             Inl e \<Rightarrow> (Inl e, s)
           | Inr u \<Rightarrow> (Inr u, s\<lparr>w_user_cache := Some u\<rparr>)))"

definition drop_api_key_user :: "wsock \<Rightarrow> wsock" where
  "drop_api_key_user s =
     (if h_key_user_applied s then s\<lparr>h_key_user_applied := False, h_user := None, h_cached := None\<rparr> else s)"

definition drop_key :: "wsock \<Rightarrow> wsock" where
  "drop_key s =
     (let s1 = s\<lparr>w_key_valid := Some False, h_verified := False, h_key := None\<rparr>
      in if given (h_token s1) = None then clear_current_user s1 else s1)"

text \<open>Why the key was dropped, or \<open>None\<close>.\<close>

definition recheck_api_key :: "hworld \<Rightarrow> int \<Rightarrow> wsock \<Rightarrow> (herror + string option) \<times> wsock" where
  "recheck_api_key w clk s =
     (case h_key s of
        None \<Rightarrow> (Inr None, s)
      | Some r \<Rightarrow>
          if k_id r = 0 then (Inr None, s)
          else if RECHECK \<le> clk - w_checked_at s then
            (if hw_pool w = None then (Inl (HTTPException ''Database is not initialized'' 500 500), s)
             else (let s1 = s\<lparr>w_checked_at := clk, w_user_cache := None\<rparr>
                   in case hw_by_id w (h_rows s) (k_id r) of
                        None \<Rightarrow> (Inr (Some ''API key no longer exists''), drop_key s1)
                      | Some fresh \<Rightarrow>
                          (let s2 = s1\<lparr>h_key := Some fresh\<rparr>
                           in case api_key_refusal w fresh of
                                Inl e \<Rightarrow> (Inl (HRaised e), s2)
                              | Inr None \<Rightarrow> (Inr None, s2)
                              | Inr (Some why) \<Rightarrow> (Inr (Some why), drop_key s2))))
          else if expired (if hw_has w ''expires_at'' then map_option utc (k_expires r) else None) (hw_now w)
          then (Inr (Some ''API key has expired''), drop_key s)
          else (Inr None, s))"

definition auth_stale :: "hworld \<Rightarrow> int \<Rightarrow> wsock \<Rightarrow> bool" where
  "auth_stale w clk s \<longleftrightarrow> w_lookup_failed s
     \<or> (case h_token_expires s of None \<Rightarrow> False | Some e \<Rightarrow> e * 1000000 \<le> hw_now w)
     \<or> RECHECK \<le> clk - w_auth_checked_at s"

definition ws_ensure_current_user :: "hworld \<Rightarrow> int \<Rightarrow> wsock \<Rightarrow> (herror + unit) \<times> wsock" where
  "ws_ensure_current_user w clk s =
     (case ensure_current_user w s of (Inl e, s1) \<Rightarrow> (Inl e, s1) | (Inr _, s1) \<Rightarrow> (Inr (), s1\<lparr>w_auth_checked_at := clk\<rparr>))"

definition reload_token :: "hworld \<Rightarrow> int \<Rightarrow> string \<Rightarrow> wsock \<Rightarrow> (herror + unit) \<times> wsock" where
  "reload_token w clk new_auth_token s =
     (if Some new_auth_token = h_token s \<and> \<not> auth_stale w clk s then (Inr (), s)
      else case ws_ensure_current_user w clk (s\<lparr>h_token := Some new_auth_token\<rparr>) of
             (Inl e, s1) \<Rightarrow> (Inl e, (clear_current_user s1)\<lparr>w_lookup_failed := True\<rparr>)
           | (Inr _, s1) \<Rightarrow> (Inr (), s1\<lparr>w_lookup_failed := False\<rparr>))"

text \<open>
  \<open>open\<close>, for a fresh uid. The handler itself is what the registry stores, here its uid; a key that
  is there and not valid closes the socket.
\<close>

definition ws_open :: "hworld \<Rightarrow> int \<Rightarrow> string \<Rightarrow> wsock \<Rightarrow> (herror + unit) \<times> wsock" where
  "ws_open w clk uid s =
     (case user_add_connection \<lparr>conn_uid = Some uid, conn_sid = None\<rparr> (h_conns s) of
        Inl _ \<Rightarrow> (Inl (HRaised KRuntime), s\<lparr>h_uid := Some uid\<rparr>)
      | Inr conns \<Rightarrow>
          hbind (ws_has_valid_api_key w clk None)
            (\<lambda>r s1. (Inr (), case r of
                None \<Rightarrow> s1\<lparr>w_key_valid := Some True\<rparr>
              | Some why \<Rightarrow>
                  if why = ''API key is missing'' then s1\<lparr>w_key_valid := None\<rparr>
                  else s1\<lparr>w_key_valid := Some False, w_closed := Some (4401, ''API key validation failed: '' @ why)\<rparr>))
            (s\<lparr>h_uid := Some uid, h_conns := conns\<rparr>))"

text \<open>A decoded message; its token is a text, other fields are as they come.\<close>

record ws_message =
  m_msg_id :: cv
  m_service :: cv
  m_api_key :: cv
  m_auth_token :: "string option"
  m_device_token :: "string option"
  m_data :: "cv option"

definition absent :: "cv \<Rightarrow> bool" where
  "absent v \<longleftrightarrow> v = CNone \<or> v = CStr []"

definition missing_names :: "ws_message \<Rightarrow> string list" where
  "missing_names msg = (if absent (m_msg_id msg) then [''msg_id''] else []) @ (if absent (m_service msg) then [''service''] else [])"

text \<open>The key a message brings, while the connection has none.\<close>

definition message_key :: "hworld \<Rightarrow> int \<Rightarrow> ws_message \<Rightarrow> wsock \<Rightarrow> (herror + unit) \<times> wsock" where
  "message_key w clk msg s =
     (if w_key_valid s = None \<and> truthy (m_api_key msg) \<and> Some (m_api_key msg) \<noteq> w_rejected s
      then hbind (ws_has_valid_api_key w clk (Some (value_text w (m_api_key msg))))
             (\<lambda>r s1. (Inr (), case r of None \<Rightarrow> s1\<lparr>w_key_valid := Some True\<rparr> | Some _ \<Rightarrow> s1\<lparr>w_rejected := Some (m_api_key msg)\<rparr>)) s
      else (Inr (), s))"

definition require_socket_key :: "hworld \<Rightarrow> int \<Rightarrow> ws_message \<Rightarrow> string option \<Rightarrow> wsock \<Rightarrow> (herror + unit) \<times> wsock" where
  "require_socket_key w clk msg why_not s =
     (case why_not of
        Some why \<Rightarrow> (Inl (auth_failed why), s)
      | None \<Rightarrow>
          hbind (message_key w clk msg)
            (\<lambda>_ s1. if w_key_valid s1 = Some True then (Inr (), s1) else (Inl (auth_failed ''API key is missing or invalid''), s1)) s)"

definition message_token :: "hworld \<Rightarrow> int \<Rightarrow> ws_message \<Rightarrow> wsock \<Rightarrow> (herror + unit) \<times> wsock" where
  "message_token w clk msg s =
     (case (case given (m_auth_token msg) of Some t \<Rightarrow> Some t | None \<Rightarrow> given (h_token s)) of
        None \<Rightarrow> (Inr (), s)
      | Some t \<Rightarrow> reload_token w clk t s)"

definition message_device ::
  "(string \<Rightarrow> wsock \<Rightarrow> (herror + unit) \<times> wsock) \<Rightarrow> ws_message \<Rightarrow> wsock \<Rightarrow> (herror + unit) \<times> wsock" where
  "message_device device msg s =
     (case given (m_device_token msg) of
        None \<Rightarrow> (Inr (), s)
      | Some t \<Rightarrow> if given (w_device s) = None then device t s else (Inr (), s))"

text \<open>
  \<open>on_message\<close> up to the call of the service; \<open>to_int\<close> is \<open>int\<close>, \<open>device\<close> is the hook
  \<open>_authenticate_device\<close> of a project, which runs while the socket has no device.
\<close>

definition ws_prepare ::
  "hworld \<Rightarrow> (cv \<Rightarrow> int option) \<Rightarrow> (string \<Rightarrow> wsock \<Rightarrow> (herror + unit) \<times> wsock) \<Rightarrow> services \<Rightarrow> int \<Rightarrow> ws_message \<Rightarrow> wsock
    \<Rightarrow> (herror + call) \<times> wsock" where
  "ws_prepare w to_int device services clk msg s0 =
     (let s = drop_api_key_user s0
      in if missing_names msg \<noteq> [] then (Inl (HTTPException (''Missing input data: '' @ join '', '' (missing_names msg)) 1001 400), s)
         else case (to_int (m_msg_id msg), m_service msg) of
                (None, _) \<Rightarrow> (Inl (HRaised KValueError), s)
              | (Some i, CStr name) \<Rightarrow>
                  (case find_service services (Some name) of
                     Inl _ \<Rightarrow> (Inl (not_found name), s\<lparr>w_msg_id := Some i, w_service := Some (CStr name)\<rparr>)
                   | Inr requires \<Rightarrow>
                       hbind (recheck_api_key w clk)
                         (\<lambda>why_not. hbind (if requires \<noteq> Some False then require_socket_key w clk msg why_not else (\<lambda>s. (Inr (), s)))
                            (\<lambda>_. hbind (message_token w clk msg)
                               (\<lambda>_. hbind (message_device device msg)
                                  (\<lambda>_. case (case m_data msg of None \<Rightarrow> CDict [] | Some v \<Rightarrow> v) of
                                     CDict data \<Rightarrow>
                                       hbind (check_that (truthy (cget data ''action'')) (HTTPException ''Missing action'' 1005 400))
                                         (\<lambda>_. hbind (if requires \<noteq> Some False
                                                      then enforce_api_key w (ws_api_key_user w) name (value_text w (cget data ''action''))
                                                      else (\<lambda>s. (Inr (), s)))
                                            (\<lambda>_ s. (Inr (Call name (cget data ''action'')
                                                      (case map_of data ''data'' of None \<Rightarrow> CDict [] | Some v \<Rightarrow> v)), s)))
                                   | _ \<Rightarrow> (\<lambda>s. (Inl (HRaised KAttributeError), s))))))
                         (s\<lparr>w_msg_id := Some i, w_service := Some (CStr name)\<rparr>))
              | (Some i, v) \<Rightarrow> (Inl (HRaised KAttributeError), s\<lparr>w_msg_id := Some i, w_service := Some v\<rparr>))"

text \<open>The frame sent back, with the message and the service it answers.\<close>

datatype frame = Frame "int option" "cv option" cv | ErrorFrame "int option" "cv option" int string

definition on_message ::
  "hworld \<Rightarrow> (cv \<Rightarrow> int option) \<Rightarrow> (string \<Rightarrow> wsock \<Rightarrow> (herror + unit) \<times> wsock) \<Rightarrow> services
    \<Rightarrow> (call \<Rightarrow> wsock \<Rightarrow> (herror + cv option) \<times> wsock) \<Rightarrow> int \<Rightarrow> ws_message option \<Rightarrow> wsock \<Rightarrow> frame option \<times> wsock" where
  "on_message w to_int device services serve clk msg s =
     (case msg of
        None \<Rightarrow> (Some (ErrorFrame (w_msg_id s) (w_service s) 1000 ''It was impossible to parse the given data''), s)
      | Some m \<Rightarrow>
          (let (r, s1) = hbind (ws_prepare w to_int device services clk m) serve s
           in (case r of
                 Inl (HTTPException text c status) \<Rightarrow> Some (ErrorFrame (w_msg_id s1) (w_service s1) (if c = 0 then - 1 else c) text)
               | Inl (HRaised _) \<Rightarrow> Some (ErrorFrame (w_msg_id s1) (w_service s1) (- 1) GENERIC_ERROR)
               | Inr None \<Rightarrow> None
               | Inr (Some v) \<Rightarrow> Some (Frame (w_msg_id s1) (w_service s1) v), s1\<lparr>w_msg_id := None, w_service := None\<rparr>)))"

text \<open>\<open>on_close\<close>\<close>

definition on_close :: "wsock \<Rightarrow> wsock" where
  "on_close s =
     (let s1 = (case given (h_uid s) of
                  None \<Rightarrow> s
                | Some u \<Rightarrow>
                    (case user_remove_connection \<lparr>conn_uid = Some u, conn_sid = None\<rparr> (h_conns s) of
                       Inl _ \<Rightarrow> s
                     | Inr conns \<Rightarrow>
                         (let s2 = s\<lparr>h_conns := conns\<rparr>;
                              s3 = (if given (w_device s2) = None then s2
                                    else (case device_remove_connection \<lparr>conn_uid = Some u, conn_sid = None\<rparr> (w_devices s2) of
                                            Inl _ \<Rightarrow> s2 | Inr d \<Rightarrow> s2\<lparr>w_devices := d, w_device := None\<rparr>))
                          in s3\<lparr>h_uid := None\<rparr>)))
      in s1\<lparr>h_token := None, h_cached := Some None\<rparr>)"

text \<open>\<open>allowed_ws_origins\<close> and \<open>check_origin\<close>; \<open>urlparse\<close> gives the scheme and the host part.\<close>

definition allowed_ws_origins :: "hworld \<Rightarrow> string set option" where
  "allowed_ws_origins w =
     (let tidy = (\<lambda>x. rstrip_with (\<lambda>c. c = CHR ''/'') (lower (strip x)))
      in map_option (\<lambda>xs. set (map tidy (filter (\<lambda>x. strip x \<noteq> []) xs)))
         (case (case cget (hw_config w) ''ws_allowed_origins'' of
                  CNone \<Rightarrow> CStr (case map_of (hw_env w) ''WS_ALLOWED_ORIGINS'' of None \<Rightarrow> [] | Some e \<Rightarrow> e) | v \<Rightarrow> v) of
            CStr t \<Rightarrow> Some (split_on (CHR '','') t)
          | CList xs \<Rightarrow> Some (map (value_text w) xs)
          | _ \<Rightarrow> None))"

definition check_origin :: "hworld \<Rightarrow> (string \<Rightarrow> string \<times> string) \<Rightarrow> string \<Rightarrow> bool option" where
  "check_origin w urlparse origin =
     map_option (\<lambda>allowed.
       if allowed = {} then True
       else (let n = rstrip_with (\<lambda>c. c = CHR ''/'') (lower origin)
             in n \<in> allowed
                \<or> (let (scheme, host) = urlparse n
                   in (if scheme \<noteq> [] \<and> host \<noteq> [] then scheme @ ''://'' @ host else n) \<in> allowed)))
     (allowed_ws_origins w)"

section \<open>What statements leave alone\<close>

definition hkeeps :: "('s \<Rightarrow> bool) \<Rightarrow> ('s \<Rightarrow> (herror + 'a) \<times> 's) \<Rightarrow> bool" where
  "hkeeps I f \<longleftrightarrow> (\<forall>s. I s \<longrightarrow> I (snd (f s)))"

lemma hkeepsD: "hkeeps I f \<Longrightarrow> f s = (x, s1) \<Longrightarrow> I s \<Longrightarrow> I s1"
  unfolding hkeeps_def by (metis snd_conv)

lemma hkeeps_hbind: "hkeeps I f \<Longrightarrow> (\<And>x. hkeeps I (g x)) \<Longrightarrow> hkeeps I (hbind f g)"
  by (fastforce simp: hkeeps_def hbind_def split: prod.splits sum.splits)

lemma hkeeps_trivial [simp]: "hkeeps I (\<lambda>s. (x, s))" "hkeeps I (check_that b e)"
  by (simp_all add: hkeeps_def check_that_def)

text \<open>The fields of a socket that say what its key is worth.\<close>

definition key_view :: "wsock \<Rightarrow> bool option \<times> krow option \<times> int \<times> krow list" where
  "key_view s = (w_key_valid s, h_key s, w_checked_at s, h_rows s)"

lemma clear_current_user_view [simp]: "key_view (clear_current_user s) = key_view s"
  by (simp add: key_view_def clear_current_user_def)

lemma bind_user_view [simp]: "key_view (bind_user u s) = key_view s"
  by (simp add: key_view_def bind_user_def)

lemma view_updates [simp]:
  "key_view (s\<lparr>h_user := a\<rparr>) = key_view s" "key_view (s\<lparr>h_impersonator := b\<rparr>) = key_view s" "key_view (s\<lparr>h_token_expires := c\<rparr>) = key_view s"
  "key_view (s\<lparr>h_cached := d\<rparr>) = key_view s" "key_view (s\<lparr>h_token := e\<rparr>) = key_view s" "key_view (s\<lparr>w_auth_checked_at := f\<rparr>) = key_view s"
  "key_view (s\<lparr>w_lookup_failed := g\<rparr>) = key_view s" "key_view (s\<lparr>w_user_cache := h\<rparr>) = key_view s"
  "key_view (s\<lparr>h_key_user_applied := i\<rparr>) = key_view s" "key_view (s\<lparr>w_msg_id := j\<rparr>) = key_view s" "key_view (s\<lparr>w_service := k\<rparr>) = key_view s"
  by (simp_all add: key_view_def)

lemma ensure_view: "key_view (snd (ensure_current_user w s)) = key_view s"
  unfolding ensure_current_user_def Let_def
  by (simp split: option.split sum.split prod.split who.split)

lemma reload_view: "key_view (snd (reload_token w clk t s)) = key_view s"
  using ensure_view [of w "s\<lparr>h_token := Some t\<rparr>"]
  by (auto simp: reload_token_def ws_ensure_current_user_def split: prod.splits sum.splits)

lemma message_token_view: "key_view (snd (message_token w clk msg s)) = key_view s"
  by (simp add: message_token_def reload_view split: option.split)

lemma apply_view: "key_view (snd (apply_api_key_user w (ws_api_key_user w) s)) = key_view s"
  by (simp add: apply_api_key_user_def ws_api_key_user_def split: option.split sum.split)

lemma enforce_view: "key_view (snd (enforce_api_key w (ws_api_key_user w) n a s)) = key_view s"
  by (simp add: enforce_api_key_def apply_view split: option.split)

lemma drop_user_view [simp]: "key_view (drop_api_key_user s) = key_view s"
  by (simp add: drop_api_key_user_def)

definition on_view :: "(bool option \<times> krow option \<times> int \<times> krow list \<Rightarrow> bool) \<Rightarrow> wsock \<Rightarrow> bool" where
  "on_view P s = P (key_view s)"

lemma hkeeps_view: "(\<And>s. key_view (snd (f s)) = key_view s) \<Longrightarrow> hkeeps (on_view P) f"
  by (simp add: hkeeps_def on_view_def)

text \<open>What is assumed of code of the project: it does not touch these fields.\<close>

definition leaves_key :: "(wsock \<Rightarrow> (herror + 'a) \<times> wsock) \<Rightarrow> bool" where
  "leaves_key f \<longleftrightarrow> (\<forall>s. key_view (snd (f s)) = key_view s)"

lemma message_device_view: "(\<And>t. leaves_key (device t)) \<Longrightarrow> key_view (snd (message_device device msg s)) = key_view s"
  by (simp add: message_device_def leaves_key_def split: option.split)

section \<open>A revoked key on an open socket\<close>

definition rows_dead :: "int \<Rightarrow> krow list \<Rightarrow> bool" where
  "rows_dead i rows = list_all (\<lambda>x. k_id x = i \<longrightarrow> k_disabled x \<noteq> None) rows"

fun locked :: "int \<Rightarrow> bool option \<times> krow option \<times> int \<times> krow list \<Rightarrow> bool" where
  "locked i (v, k, t, rows) \<longleftrightarrow> v = Some False \<and> rows_dead i rows"

text \<open>The next recheck, from the moment \<open>t0\<close> on, will drop the key.\<close>

fun doomed :: "int \<Rightarrow> int \<Rightarrow> bool option \<times> krow option \<times> int \<times> krow list \<Rightarrow> bool" where
  "doomed t0 i (v, k, t, rows) \<longleftrightarrow> rows_dead i rows
     \<and> (v = Some False \<or> (\<exists>r. k = Some r \<and> k_id r = i \<and> i \<noteq> 0 \<and> RECHECK \<le> t0 - t))"

lemma locked_doomed: "locked i v \<Longrightarrow> doomed t0 i v"
  by (cases v) simp

definition finds_id :: "hworld \<Rightarrow> bool" where
  "finds_id w \<longleftrightarrow> (\<forall>rows i r. hw_by_id w rows i = Some r \<longrightarrow> r \<in> set rows \<and> k_id r = i)"

lemma drop_key_view: "key_view (drop_key s) = (Some False, None, w_checked_at s, h_rows s)"
  by (simp add: drop_key_def Let_def, simp add: key_view_def)

lemma disabled_refusal:
  "hw_has w ''disabled_at'' \<Longrightarrow> k_disabled r \<noteq> None \<Longrightarrow> api_key_refusal w r = Inr (Some ''API key is disabled'')"
  by (simp add: api_key_refusal_def)

lemma recheck_fields:
  "h_rows (snd (recheck_api_key w clk s)) = h_rows s \<and> w_key_valid (snd (recheck_api_key w clk s)) \<in> {w_key_valid s, Some False}"
  by (auto simp: recheck_api_key_def drop_key_def Let_def clear_current_user_def split: option.split sum.split)

lemma recheck_doomed:
  assumes "on_view (doomed t0 i) s" "t0 \<le> clk" "finds_id w" "hw_has w ''disabled_at''" "recheck_api_key w clk s = (x, s1)"
  shows "if isl x then on_view (doomed t0 i) s1 else on_view (locked i) s1"
proof (cases "w_key_valid s = Some False")
  case True
  then have "on_view (locked i) s1"
    using assms(1,5) recheck_fields [of w clk s] by (auto simp: on_view_def key_view_def)
  then show ?thesis by (simp add: on_view_def locked_doomed)
next
  case False
  with assms(1) obtain r where r: "h_key s = Some r" "k_id r = i" "i \<noteq> 0" "RECHECK \<le> t0 - w_checked_at s" "rows_dead i (h_rows s)"
    by (auto simp: on_view_def key_view_def)
  then have due: "RECHECK \<le> clk - w_checked_at s" using assms(2) by simp
  show ?thesis
  proof (cases "hw_by_id w (h_rows s) i")
    case None
    then show ?thesis using assms(1,5) r due by (cases "hw_pool w") (auto simp: recheck_api_key_def Let_def on_view_def drop_key_view)
  next
    case (Some fresh)
    then have "k_disabled fresh \<noteq> None" using assms(3) r(5) by (auto simp: finds_id_def rows_dead_def list_all_iff)
    note d = disabled_refusal [OF assms(4) this]
    show ?thesis using assms(1,5) r due Some d by (cases "hw_pool w") (auto simp: recheck_api_key_def Let_def on_view_def drop_key_view)
  qed
qed

lemma require_locked:
  assumes "on_view (locked i) s" "require_socket_key w clk msg why s = (x, s1)"
  shows "isl x \<and> on_view (locked i) s1"
  using assms by (auto simp: require_socket_key_def message_key_def hbind_def on_view_def key_view_def split: option.splits if_splits)

lemma hkeeps_locked_rest:
  "hkeeps (on_view P) (message_token w clk msg)" "hkeeps (on_view P) (enforce_api_key w (ws_api_key_user w) n a)"
  by (intro hkeeps_view message_token_view enforce_view)+

text \<open>The part of a message after the recheck.\<close>

definition after_recheck ::
  "hworld \<Rightarrow> (string \<Rightarrow> wsock \<Rightarrow> (herror + unit) \<times> wsock) \<Rightarrow> int \<Rightarrow> ws_message \<Rightarrow> string \<Rightarrow> bool option \<Rightarrow> string option \<Rightarrow> wsock
    \<Rightarrow> (herror + call) \<times> wsock" where
  "after_recheck w device clk msg name requires why_not =
     hbind (if requires \<noteq> Some False then require_socket_key w clk msg why_not else (\<lambda>s. (Inr (), s)))
       (\<lambda>_. hbind (message_token w clk msg)
          (\<lambda>_. hbind (message_device device msg)
             (\<lambda>_. case (case m_data msg of None \<Rightarrow> CDict [] | Some v \<Rightarrow> v) of
                CDict data \<Rightarrow>
                  hbind (check_that (truthy (cget data ''action'')) (HTTPException ''Missing action'' 1005 400))
                    (\<lambda>_. hbind (if requires \<noteq> Some False
                                 then enforce_api_key w (ws_api_key_user w) name (value_text w (cget data ''action''))
                                 else (\<lambda>s. (Inr (), s)))
                       (\<lambda>_ s. (Inr (Call name (cget data ''action'')
                                 (case map_of data ''data'' of None \<Rightarrow> CDict [] | Some v \<Rightarrow> v)), s)))
              | _ \<Rightarrow> (\<lambda>s. (Inl (HRaised KAttributeError), s)))))"

lemma ws_prepare_cases:
  assumes "ws_prepare w to_int device services clk msg s0 = (x, s1)"
  obtains "isl x" "key_view s1 = key_view s0" "h_user s1 = h_user (drop_api_key_user s0)" "h_token s1 = h_token s0"
      "h_key_user_applied s1 = h_key_user_applied (drop_api_key_user s0)"
  | i name requires where "m_service msg = CStr name" "find_service services (Some name) = Inr requires"
      "hbind (recheck_api_key w clk) (after_recheck w device clk msg name requires)
         ((drop_api_key_user s0)\<lparr>w_msg_id := Some i, w_service := Some (CStr name)\<rparr>) = (x, s1)"
proof (cases "missing_names msg \<noteq> [] \<or> to_int (m_msg_id msg) = None \<or> (\<forall>name. m_service msg \<noteq> CStr name)
    \<or> (\<exists>name e. m_service msg = CStr name \<and> find_service services (Some name) = Inl e)")
  case True
  then have "isl x \<and> key_view s1 = key_view s0 \<and> h_user s1 = h_user (drop_api_key_user s0) \<and> h_token s1 = h_token s0
      \<and> h_key_user_applied s1 = h_key_user_applied (drop_api_key_user s0)"
    using assms unfolding ws_prepare_def Let_def
    by (auto simp: drop_api_key_user_def split: if_split_asm option.split_asm cv.split_asm)
  then show ?thesis using that(1) by blast
next
  case False
  then obtain name i requires where n: "missing_names msg = []" "m_service msg = CStr name" "to_int (m_msg_id msg) = Some i"
    "find_service services (Some name) = Inr requires"
    by (metis option.exhaust sum.exhaust)
  then show ?thesis using that(2) [OF n(2,4)] assms
    by (simp add: ws_prepare_def Let_def after_recheck_def [abs_def])
qed

lemma after_recheck_locked:
  assumes "on_view (locked i) s" "after_recheck w device clk msg name requires why s = (x, s1)" "\<And>t. leaves_key (device t)"
  shows "on_view (locked i) s1 \<and> (isl x \<or> requires = Some False)"
proof (cases "requires = Some False")
  case True
  have kd: "hkeeps (on_view (locked i)) (message_device device msg)" by (intro hkeeps_view message_device_view assms(3))
  have k: "hkeeps (on_view (locked i)) (after_recheck w device clk msg name requires why)"
    unfolding after_recheck_def using True kd
    by (cases "case m_data msg of None \<Rightarrow> CDict [] | Some v \<Rightarrow> v") (auto intro!: hkeeps_hbind hkeeps_locked_rest)
  then show ?thesis using hkeepsD [OF k assms(2,1)] True by simp
next
  case False
  obtain y s2 where y: "require_socket_key w clk msg why s = (y, s2)" by (rule prod.exhaust)
  then obtain e where "y = Inl e" "on_view (locked i) s2" using require_locked [OF assms(1) y] by (cases y) auto
  then show ?thesis using assms(2) False y by (auto simp: after_recheck_def hbind_def)
qed

lemma ws_prepare_doomed:
  assumes "on_view (doomed t0 i) s0" "t0 \<le> clk" "finds_id w" "hw_has w ''disabled_at''" "\<And>t. leaves_key (device t)"
    "ws_prepare w to_int device services clk msg s0 = (x, s1)"
  shows "on_view (doomed t0 i) s1 \<and> (case x of Inr (Call n a d) \<Rightarrow> find_service services (Some n) = Inr (Some False) | _ \<Rightarrow> True)"
  using assms(6)
proof (cases rule: ws_prepare_cases)
  case 1
  then show ?thesis using assms(1) by (auto simp: on_view_def split: sum.split)
next
  case (2 j name requires)
  let ?s = "(drop_api_key_user s0)\<lparr>w_msg_id := Some j, w_service := Some (CStr name)\<rparr>"
  obtain y s2 where y: "recheck_api_key w clk ?s = (y, s2)" by (rule prod.exhaust)
  have d: "on_view (doomed t0 i) ?s" using assms(1) by (simp add: on_view_def)
  note r = recheck_doomed [OF d assms(2-4) y]
  show ?thesis
  proof (cases y)
    case (Inl e)
    then show ?thesis using 2(3) y r by (auto simp: hbind_apply)
  next
    case (Inr why)
    then have l: "on_view (locked i) s2" using r by simp
    have a: "after_recheck w device clk msg name requires why s2 = (x, s1)" using 2(3) y Inr by (simp add: hbind_apply)
    note b = after_recheck_locked [OF l a assms(5)]
    have "n = name" if "x = Inr (Call n u v)" for n u v
      using a that unfolding after_recheck_def by (auto simp: hbind_Inr split: cv.splits if_splits)
    then show ?thesis using b 2(2) by (auto simp: on_view_def locked_doomed split: sum.split call.split)
  qed
qed

text \<open>A socket's messages, each with the surroundings and the moment it is handled at, and the calls they make.\<close>

fun ws_calls ::
  "(cv \<Rightarrow> int option) \<Rightarrow> (string \<Rightarrow> wsock \<Rightarrow> (herror + unit) \<times> wsock) \<Rightarrow> services \<Rightarrow> (call \<Rightarrow> wsock \<Rightarrow> (herror + cv option) \<times> wsock)
    \<Rightarrow> (hworld \<times> int \<times> ws_message) list \<Rightarrow> wsock \<Rightarrow> call list" where
  "ws_calls to_int device services serve [] s = []"
| "ws_calls to_int device services serve ((w, clk, m) # ms) s =
     (case ws_prepare w to_int device services clk m s of (x, _) \<Rightarrow>
        (case x of Inl _ \<Rightarrow> [] | Inr c \<Rightarrow> [c])
        @ ws_calls to_int device services serve ms (snd (on_message w to_int device services serve clk (Some m) s)))"

lemma on_message_view:
  assumes "ws_prepare w to_int device services clk m s = (x, s1)" "\<And>c. leaves_key (serve c)"
  shows "key_view (snd (on_message w to_int device services serve clk (Some m) s)) = key_view s1"
proof (cases x)
  case (Inl e)
  then show ?thesis using assms(1) by (simp add: on_message_def hbind_apply)
next
  case (Inr c)
  have "key_view (snd (serve c s1)) = key_view s1" using assms(2) by (simp add: leaves_key_def)
  then show ?thesis using assms(1) Inr by (simp add: on_message_def hbind_apply split_def Let_def)
qed

text \<open>
  C11. Revoking a key reaches the sockets that are already open with it. From the moment the last
  reading of the key's row is 30 seconds old, if the row is revoked, or gone, no message that the
  socket sends from then on, whatever it carries and however often it comes, calls a service
  that requires a key.
\<close>

theorem revoked_key_leaves_socket:
  assumes "h_key s = Some r" "k_id r = i" "i \<noteq> 0" "w_checked_at s + 30000000 \<le> since" "rows_dead i (h_rows s)"
    and "list_all (\<lambda>(w, clk, m). since \<le> clk \<and> finds_id w \<and> hw_has w ''disabled_at'') ms"
    and "\<And>t. leaves_key (device t)" "\<And>c. leaves_key (serve c)"
    and "Call n a d \<in> set (ws_calls to_int device services serve ms s)"
  shows "find_service services (Some n) = Inr (Some False)"
proof -
  have "on_view (doomed since i) s" using assms(1-5) by (auto simp: on_view_def key_view_def RECHECK_def)
  then show ?thesis using assms(6,9)
  proof (induction ms arbitrary: s)
    case (Cons e ms)
    obtain w clk m where e: "e = (w, clk, m)" by (rule prod_cases3)
    obtain x s1 where x: "ws_prepare w to_int device services clk m s = (x, s1)" by (rule prod.exhaust)
    have c: "since \<le> clk" "finds_id w" "hw_has w ''disabled_at''" using Cons.prems(2) e by auto
    note d = ws_prepare_doomed [OF Cons.prems(1) c assms(7) x]
    have "on_view (doomed since i) (snd (on_message w to_int device services serve clk (Some m) s))"
      using d on_message_view [OF x assms(8)] by (simp add: on_view_def)
    then show ?case using Cons.IH Cons.prems(2,3) d x e by (cases x) (auto split: call.splits)
  qed simp
qed

section \<open>Calls over HTTP\<close>

lemma load_user_active: "load_user_by_id w i = Inr (Some u) \<Longrightarrow> hw_user_by_id w i = Inr (Some u) \<and> active u"
  by (auto simp: load_user_by_id_def good_def split: if_splits sum.splits option.splits)

lemma bind_user_sel [simp]:
  "h_user (bind_user u s) = h_user s" "h_token (bind_user u s) = h_token s" "h_key_user_applied (bind_user u s) = h_key_user_applied s"
  "h_key (bind_user u s) = h_key s"
  by (simp_all add: bind_user_def)

lemma clear_user_sel [simp]:
  "h_user (clear_current_user s) = None" "h_token (clear_current_user s) = h_token s"
  "h_key_user_applied (clear_current_user s) = h_key_user_applied s" "h_key (clear_current_user s) = h_key s"
  by (simp_all add: clear_current_user_def)

text \<open>What applying the key's user can do to who the request is.\<close>

lemma apply_user_cases:
  assumes "apply_api_key_user w lookup s = (Inr (), s1)"
  shows "s1 = s \<or> (\<exists>r i u s2. h_key s = Some r \<and> k_user r = Some i \<and> given (h_token s) = None \<and> lookup i s = (Inr (Some u), s2)
    \<and> s1 = bind_user u (s2\<lparr>h_user := Some u, h_cached := None, h_key_user_applied := True\<rparr>))"
proof (cases "if hw_has w ''user_id'' then Option.bind (h_key s) k_user else None")
  case None
  then show ?thesis using assms by (simp add: apply_api_key_user_def)
next
  case (Some i)
  then obtain r where r: "h_key s = Some r" "k_user r = Some i" by (auto simp: bind_eq_Some_conv split: if_splits)
  obtain y s2 where y: "lookup i s = (y, s2)" by (rule prod.exhaust)
  show ?thesis using assms Some r y
    by (auto simp: apply_api_key_user_def split: if_splits sum.splits option.splits)
qed

text \<open>
  C19. What a request over HTTP takes to reach a service that requires a key: a key in the header
  that opens a row which is usable now and whose abilities cover this action of this service; and
  the request acts as the user its token named before, or, without any token, as the active user
  the key names.
\<close>

theorem http_call_authorised:
  assumes "get_v1 w services service act json_args query s = (Inr (Call n a d), s1)"
    and "service \<noteq> None" "find_service services (Some n) = Inr requires" "requires \<noteq> Some False"
    and "hw_use_db w" "finds_prefix w (h_rows s)" "hw_has w ''abilities''"
  shows "\<exists>key r. key_presented w None = Some key \<and> r \<in> set (h_rows s) \<and> opens w key r \<and> key_usable w r
    \<and> ability_allows (Some (k_abilities r)) (service_ability n (value_text w a))
    \<and> (h_user s1 = h_user s
       \<or> (\<exists>i u. k_user r = Some i \<and> given (h_token s) = None \<and> hw_user_by_id w i = Inr (Some u) \<and> active u \<and> h_user s1 = Some u))"
proof -
  obtain req where req: "find_service services service = Inr req"
    using assms(1) by (cases "find_service services service") (simp_all add: get_v1_def)
  obtain sv where sv: "service = Some sv" using assms(2) by blast
  have n: "n = sv" using assms(1) req sv by (auto simp: get_v1_def hbind_Inr Let_def)
  then have rq: "req \<noteq> Some False" using req assms(3,4) sv by simp
  from assms(1) obtain s2 s3 where k: "require_key (has_valid_api_key w) s = (Inr (), s2)"
    and e: "enforce_api_key w (plain_api_key_user w) n (value_text w a) s2 = (Inr (), s3)" "s1 = s3"
    using req rq sv n by (auto simp: get_v1_def hbind_Inr Let_def)
  have "has_valid_api_key w None s = (Inr None, s2)"
    using k by (auto simp: require_key_def hbind_Inr split: option.splits)
  from admitted [OF assms(5,6) this] obtain key r t where r: "key_presented w None = Some key" "r \<in> set (h_rows s)"
    "opens w key r" "key_usable w r" and s2: "s2 = s\<lparr>h_verified := True,
      h_key := Some (r\<lparr>k_uses := k_uses r + 1, k_last_used := Some (hw_now w)\<rparr>), h_rows := set_row (k_id r) t (h_rows s)\<rparr>"
    by blast
  have ab: "ability_allows (Some (k_abilities r)) (service_ability n (value_text w a))"
    and ap: "apply_api_key_user w (plain_api_key_user w) s2 = (Inr (), s1)"
    using e assms(7) s2 by (auto simp: enforce_api_key_def split: if_splits)
  from apply_user_cases [OF ap] have "h_user s1 = h_user s
       \<or> (\<exists>i u. k_user r = Some i \<and> given (h_token s) = None \<and> hw_user_by_id w i = Inr (Some u) \<and> active u \<and> h_user s1 = Some u)"
    using s2 load_user_active by (auto simp: plain_api_key_user_def)
  then show ?thesis using r ab by blast
qed

section \<open>Whom a message acts as\<close>

text \<open>The token names this user: it verifies, and the user, and who stands behind it, are active.\<close>

definition token_user :: "hworld \<Rightarrow> string \<Rightarrow> user \<Rightarrow> bool" where
  "token_user w t u \<longleftrightarrow> (\<exists>p imp i. token_payload w t = Inr (Some (p, imp)) \<and> token_users w p imp = Inr (Who u i))"

lemma ensure_user:
  assumes "ensure_current_user w s = (Inr (), s1)" "given (h_token s) = Some t"
  shows "h_token s1 = Some t \<and> h_key_user_applied s1 = h_key_user_applied s \<and> (\<forall>u. h_user s1 = Some u \<longrightarrow> token_user w t u)"
  using assms unfolding ensure_current_user_def Let_def
  by (auto simp: token_user_def split: sum.splits option.splits prod.splits if_splits who.splits)

lemma given_Some: "given x = Some t \<longleftrightarrow> x = Some t \<and> t \<noteq> []"
  by (auto simp: given_def split: option.splits)

lemma reload_user:
  assumes "reload_token w clk t s = (Inr (), s1)" "t \<noteq> []"
  shows "h_token s1 = Some t \<and> h_key_user_applied s1 = h_key_user_applied s
    \<and> (\<forall>u. h_user s1 = Some u \<longrightarrow> token_user w t u \<or> (h_user s = Some u \<and> h_token s = Some t \<and> \<not> auth_stale w clk s))"
proof (cases "Some t = h_token s \<and> \<not> auth_stale w clk s")
  case True
  then show ?thesis using assms(1) by (auto simp: reload_token_def)
next
  case False
  obtain y s2 where y: "ensure_current_user w (s\<lparr>h_token := Some t\<rparr>) = (y, s2)" by (rule prod.exhaust)
  have yn: "y = Inr ()" and s1: "s1 = s2\<lparr>w_auth_checked_at := clk, w_lookup_failed := False\<rparr>"
    using assms(1) False y by (auto simp: reload_token_def ws_ensure_current_user_def split: sum.splits)
  have g: "given (h_token (s\<lparr>h_token := Some t\<rparr>)) = Some t" using assms(2) by (simp add: given_def)
  from ensure_user [OF y [unfolded yn] g] show ?thesis using s1 by simp
qed

text \<open>The fields of a socket that say whom it acts as.\<close>

definition user_view :: "wsock \<Rightarrow> user option \<times> string option \<times> bool \<times> int \<times> int option \<times> bool" where
  "user_view s = (h_user s, h_token s, h_key_user_applied s, w_auth_checked_at s, h_token_expires s, w_lookup_failed s)"

lemma has_valid_user_view: "has_valid_api_key w custom s = (x, s1) \<Longrightarrow> user_view s1 = user_view s"
  by (auto simp: has_valid_api_key_def user_view_def split: option.splits sum.splits prod.splits key_answer.splits if_splits)

lemma require_user_view:
  assumes "require_socket_key w clk msg why s = (x, s1)"
  shows "user_view s1 = user_view s"
proof -
  have v: "user_view s1 = user_view s" if "ws_has_valid_api_key w clk custom s = (x, s1)" for custom x s1 and s :: wsock
    using that has_valid_user_view
    by (fastforce simp: ws_has_valid_api_key_def user_view_def split: prod.splits sum.splits option.splits)
  have "user_view s1 = user_view s" if "message_key w clk msg s = (x, s1)" for x s1
  proof (cases "w_key_valid s = None \<and> truthy (m_api_key msg) \<and> Some (m_api_key msg) \<noteq> w_rejected s")
    case True
    obtain y s2 where y: "ws_has_valid_api_key w clk (Some (value_text w (m_api_key msg))) s = (y, s2)" by (rule prod.exhaust)
    show ?thesis using that True y v [OF y]
      by (cases y) (auto simp: message_key_def hbind_apply user_view_def split: option.splits)
  qed (use that in \<open>auto simp: message_key_def\<close>)
  then show ?thesis using assms
    by (auto simp: require_socket_key_def hbind_def split: option.splits prod.splits sum.splits if_splits)
qed

text \<open>Without a token there is no user but one applied for the message at hand.\<close>

definition settled :: "wsock \<Rightarrow> bool" where
  "settled s \<longleftrightarrow> h_user s = None \<or> h_key_user_applied s \<or> given (h_token s) \<noteq> None"

lemma recheck_user:
  "user_view (snd (recheck_api_key w clk s)) = user_view s
   \<or> (h_user (snd (recheck_api_key w clk s)) = None \<and> h_token (snd (recheck_api_key w clk s)) = h_token s
      \<and> h_key_user_applied (snd (recheck_api_key w clk s)) = h_key_user_applied s \<and> given (h_token s) = None)"
  by (auto simp: recheck_api_key_def drop_key_def user_view_def Let_def clear_current_user_def split: option.split sum.split)

text \<open>The key's user that was looked up last, for the key at hand, and when that was forgotten last.\<close>

definition cache_view :: "wsock \<Rightarrow> user option option \<times> krow option \<times> int" where
  "cache_view s = (w_user_cache s, h_key s, w_checked_at s)"

text \<open>Some database met so far has answered that the user with this id is \<open>u\<close>, and \<open>u\<close> was active.\<close>

definition answered :: "hworld set \<Rightarrow> int \<Rightarrow> user \<Rightarrow> bool" where
  "answered ws i u \<longleftrightarrow> (\<exists>w \<in> ws. hw_user_by_id w i = Inr (Some u)) \<and> active u"

definition cache_right :: "hworld set \<Rightarrow> wsock \<Rightarrow> bool" where
  "cache_right ws s \<longleftrightarrow> (\<forall>u r i. w_user_cache s = Some (Some u) \<longrightarrow> h_key s = Some r \<longrightarrow> k_user r = Some i \<longrightarrow> answered ws i u)"

text \<open>At a point of a message: nothing cached, or no key, or both as before it, and the key checked in time.\<close>

definition cache_since :: "int \<Rightarrow> wsock \<Rightarrow> wsock \<Rightarrow> bool" where
  "cache_since clk s0 s \<longleftrightarrow> w_user_cache s = None \<or> h_key s = None
     \<or> (w_user_cache s = w_user_cache s0 \<and> h_key s = h_key s0
        \<and> (\<forall>r. h_key s0 = Some r \<longrightarrow> k_id r = 0 \<or> clk - w_checked_at s0 < RECHECK))"

lemma cache_since_view: "cache_view s1 = cache_view s \<Longrightarrow> cache_since clk s0 s \<Longrightarrow> cache_since clk s0 s1"
  by (simp add: cache_since_def cache_view_def)

lemma recheck_cache:
  assumes "recheck_api_key w clk s = (Inr why, s2)" "cache_view s = cache_view s0"
  shows "cache_since clk s0 s2"
  using assms
  by (auto simp: recheck_api_key_def cache_since_def cache_view_def drop_key_def Let_def clear_current_user_def
      split: option.splits sum.splits if_splits)

lemma ensure_cache: "cache_view (snd (ensure_current_user w s)) = cache_view s"
  unfolding ensure_current_user_def Let_def cache_view_def
  by (simp add: clear_current_user_def bind_user_def split: option.split sum.split prod.split who.split)

lemma message_token_cache: "cache_view (snd (message_token w clk msg s)) = cache_view s"
proof -
  have r: "cache_view (snd (reload_token w clk t s)) = cache_view s" for t
    using ensure_cache [of w "s\<lparr>h_token := Some t\<rparr>"]
    by (auto simp: reload_token_def ws_ensure_current_user_def cache_view_def clear_current_user_def split: prod.splits sum.splits)
  show ?thesis by (simp add: message_token_def r split: option.split)
qed

lemma has_valid_cache:
  "has_valid_api_key w custom s = (Inr (Some why), s1) \<Longrightarrow> cache_view s1 = cache_view s"
  by (auto simp: has_valid_api_key_def cache_view_def split: option.splits sum.splits prod.splits key_answer.splits if_splits)

lemma require_cache:
  assumes "require_socket_key w clk msg why s = (Inr (), s1)" "cache_since clk s0 s"
  shows "cache_since clk s0 s1"
proof -
  have m: "message_key w clk msg s = (Inr (), s1)"
    using assms(1) by (auto simp: require_socket_key_def hbind_def split: option.splits prod.splits sum.splits if_splits)
  show ?thesis
  proof (cases "w_key_valid s = None \<and> truthy (m_api_key msg) \<and> Some (m_api_key msg) \<noteq> w_rejected s")
    case False
    then show ?thesis using m assms(2) unfolding message_key_def if_not_P [OF False] by simp
  next
    case True
    obtain y s2 where y: "has_valid_api_key w (Some (value_text w (m_api_key msg))) s = (y, s2)" by (rule prod.exhaust)
    show ?thesis
    proof (cases y)
      case (Inl e)
      then show ?thesis using m True y by (simp add: message_key_def hbind_def ws_has_valid_api_key_def)
    next
      case (Inr ans)
      show ?thesis
      proof (cases ans)
        case None
        then show ?thesis using m True y Inr by (auto simp: message_key_def hbind_def ws_has_valid_api_key_def cache_since_def)
      next
        case (Some why)
        then have "cache_view s1 = cache_view s2"
          using m True y Inr by (auto simp: message_key_def hbind_def ws_has_valid_api_key_def cache_view_def)
        also have "\<dots> = cache_view s" using has_valid_cache y Inr Some by simp
        finally show ?thesis by (rule cache_since_view [OF _ assms(2)])
      qed
    qed
  qed
qed

definition leaves_user :: "(wsock \<Rightarrow> (herror + 'a) \<times> wsock) \<Rightarrow> bool" where
  "leaves_user f \<longleftrightarrow> (\<forall>s. user_view (snd (f s)) = user_view s \<and> cache_view (snd (f s)) = cache_view s)"

lemma message_device_user:
  "message_device device msg s = (x, s1) \<Longrightarrow> (\<And>t. leaves_user (device t)) \<Longrightarrow> user_view s1 = user_view s \<and> cache_view s1 = cache_view s"
  by (auto simp: message_device_def leaves_user_def split: option.splits if_splits) (metis snd_conv)+

lemma message_token_user:
  assumes "message_token w clk msg s = (Inr (), s1)" "settled s" "\<not> h_key_user_applied s"
  shows "\<not> h_key_user_applied s1 \<and> (\<forall>u. h_user s1 = Some u \<longrightarrow> (\<exists>t. given (h_token s1) = Some t
    \<and> (token_user w t u \<or> (h_user s = Some u \<and> h_token s = Some t \<and> \<not> auth_stale w clk s))))"
proof (cases "case given (m_auth_token msg) of Some t \<Rightarrow> Some t | None \<Rightarrow> given (h_token s)")
  case None
  then show ?thesis using assms by (auto simp: message_token_def settled_def split: option.splits)
next
  case (Some t)
  then have t: "t \<noteq> []" by (auto simp: given_Some split: option.splits)
  have "reload_token w clk t s = (Inr (), s1)" using assms(1) Some by (simp add: message_token_def)
  from reload_user [OF this t] show ?thesis using assms(3) t by (auto simp: given_Some)
qed

lemma auth_stale_view: "user_view s = user_view s' \<Longrightarrow> auth_stale w clk s = auth_stale w clk s'"
  by (simp add: user_view_def auth_stale_def)

lemma settled_view: "user_view s = user_view s' \<Longrightarrow> settled s = settled s'"
  by (simp add: user_view_def settled_def)

lemma ws_api_key_user_sel:
  "ws_api_key_user w i s = (x, s1) \<Longrightarrow> h_key s1 = h_key s \<and> h_token s1 = h_token s"
  by (auto simp: ws_api_key_user_def split: option.splits sum.splits)

lemma ws_api_key_user_found:
  assumes "ws_api_key_user w i s = (Inr (Some u), s1)"
  shows "w_user_cache s1 = Some (Some u) \<and> (w_user_cache s = Some (Some u) \<or> w_user_cache s = None \<and> load_user_by_id w i = Inr (Some u))"
  using assms by (auto simp: ws_api_key_user_def split: option.splits sum.splits)

text \<open>The user after the recheck is the user of the token before the message, or nobody.\<close>

lemma recheck_settled:
  assumes "settled s0" "recheck_api_key w clk ((drop_api_key_user s0)\<lparr>w_msg_id := i, w_service := n\<rparr>) = (y, s2)"
  shows "settled s2 \<and> \<not> h_key_user_applied s2 \<and> (\<forall>u. h_user s2 = Some u \<longrightarrow> user_view s2 = user_view s0)"
proof -
  let ?s = "(drop_api_key_user s0)\<lparr>w_msg_id := i, w_service := n\<rparr>"
  have d: "\<not> h_key_user_applied ?s" "settled ?s" "\<forall>u. h_user ?s = Some u \<longrightarrow> user_view ?s = user_view s0"
    using assms(1) by (auto simp: drop_api_key_user_def settled_def user_view_def)
  have "user_view s2 = user_view ?s \<or> (h_user s2 = None \<and> h_key_user_applied s2 = h_key_user_applied ?s)"
    using recheck_user [of w clk ?s] assms(2) by auto
  then show ?thesis
  proof
    assume v: "user_view s2 = user_view ?s"
    then have "h_key_user_applied s2 = h_key_user_applied ?s" "h_user s2 = h_user ?s" by (simp_all add: user_view_def)
    then show ?thesis using d v settled_view [OF v] by simp
  next
    assume "h_user s2 = None \<and> h_key_user_applied s2 = h_key_user_applied ?s"
    then show ?thesis using d(1) by (simp add: settled_def)
  qed
qed


section \<open>A token brought by the handshake\<close>

text \<open>
  A user known from the header of the handshake is not bound to the socket when it opens, nor
  by the messages that follow within the next 30 seconds with the same token: pushes addressed
  to the user do not reach the socket until its token is verified again, or at all while it stays
  silent.
\<close>

theorem handshake_user_not_bound:
  assumes "list_all (\<lambda>(j, cs). uid \<notin> set cs) (user_id_map (h_conns s))"
    and "ws_open w clk uid s = (Inr (), s1)" "h_token s = Some t" "given (m_auth_token msg) \<in> {None, Some t}"
    and "\<not> auth_stale w clk1 s" "message_token w clk1 msg s1 = (x, s2)"
  shows "h_user s2 = h_user s \<and> list_all (\<lambda>(j, cs). uid \<notin> set cs) (user_id_map (h_conns s2))"
proof -
  obtain conns where c: "user_add_connection \<lparr>conn_uid = Some uid, conn_sid = None\<rparr> (h_conns s) = Inr conns"
    using assms(2) by (cases "user_add_connection \<lparr>conn_uid = Some uid, conn_sid = None\<rparr> (h_conns s)") (auto simp: ws_open_def)
  have cm: "user_id_map conns = user_id_map (h_conns s)"
    using c by (auto simp: user_add_connection_def split: sum.splits)
  let ?s = "s\<lparr>h_uid := Some uid, h_conns := conns\<rparr>"
  obtain y s3 where y: "has_valid_api_key w None ?s = (y, s3)" by (rule prod.exhaust)
  have s3: "user_view s3 = user_view ?s" by (rule has_valid_user_view [OF y])
  have h3: "h_conns s3 = conns"
    using y by (auto simp: has_valid_api_key_def split: option.splits sum.splits prod.splits key_answer.splits if_splits)
  have s1: "user_view s1 = user_view ?s \<and> h_conns s1 = conns"
    using assms(2) c y s3 h3
    by (cases y) (auto simp: ws_open_def hbind_def ws_has_valid_api_key_def user_view_def split: option.splits if_splits)
  then have u: "h_user s1 = h_user s" "h_token s1 = Some t" "\<not> auth_stale w clk1 s1" "h_conns s1 = conns"
    using assms(3,5) auth_stale_view [of s1 ?s] by (auto simp: user_view_def auth_stale_def)
  have "s2 = s1"
    using assms(4,6) u(2,3) by (auto simp: message_token_def reload_token_def given_Some split: option.splits)
  then show ?thesis using u assms(1) cm by simp
qed

section \<open>Examples\<close>

definition demo_socket :: wsock where
  "demo_socket = handler.extend demo_handler \<lparr>w_key_valid = Some True, w_rejected = None, w_checked_at = 0, w_user_cache = None,
     w_lookup_failed = False, w_auth_checked_at = 0, w_msg_id = None, w_service = None, w_closed = None, w_device = None,
     w_devices = device_init\<rparr>"

definition demo_services :: services where
  "demo_services = [(''s'', \<lparr>sv_callable = True, sv_requires_key = None\<rparr>), (''open'', \<lparr>sv_callable = True, sv_requires_key = Some False\<rparr>)]"

definition demo_message :: "string \<Rightarrow> ws_message" where
  "demo_message n = \<lparr>m_msg_id = CInt 1, m_service = CStr n, m_api_key = CStr ''akp.x'', m_auth_token = None, m_device_token = None,
     m_data = Some (CDict [(''action'', CStr ''go'')])\<rparr>"

lemma demo_socket_sel [simp]:
  "h_rows demo_socket = [demo_row]" "h_user demo_socket = None" "h_token demo_socket = None" "h_key_user_applied demo_socket = False"
  "h_uid demo_socket = None" "w_checked_at demo_socket = 0" "w_key_valid demo_socket = Some True" "h_key demo_socket = None"
  "h_cached demo_socket = None" "h_conns demo_socket = user_init" "w_lookup_failed demo_socket = False" "w_auth_checked_at demo_socket = 0"
  "h_token_expires demo_socket = None"
  by (simp_all add: demo_socket_def demo_handler_def handler.defs)

lemma leaves_nothing [simp]: "leaves_key (\<lambda>s. (x, s))" "leaves_user (\<lambda>s. (x, s))"
  by (simp_all add: leaves_key_def leaves_user_def)

definition dead_row :: krow where
  "dead_row = demo_row\<lparr>k_disabled := Some 1\<rparr>"

definition dead_socket :: wsock where
  "dead_socket = demo_socket\<lparr>h_key := Some demo_row, h_rows := [dead_row]\<rparr>"

lemma demo_finds_id: "finds_id demo_world"
  by (auto simp: finds_id_def find_Some_iff)

lemma demo_not_missing: "missing_names (demo_message n) = []" if "n \<noteq> []"
  using that by (simp add: missing_names_def demo_message_def absent_def)

lemma demo_open_call:
  "ws_calls (\<lambda>_. Some 1) (\<lambda>t s. (Inr (), s)) demo_services (\<lambda>c s. (Inr None, s)) [(demo_world, 30000000, demo_message ''open'')] dead_socket
    = [Call ''open'' (CStr ''go'') (CDict [])]"
proof -
  have f: "find_service demo_services (Some ''open'') = Inr (Some False)"
    by (simp add: find_service_def demo_services_def replace_char_def)
  have d: "drop_api_key_user dead_socket = dead_socket" by (simp add: drop_api_key_user_def dead_socket_def)
  obtain why s2 where r: "recheck_api_key demo_world 30000000 (dead_socket\<lparr>w_msg_id := Some 1, w_service := Some (CStr ''open'')\<rparr>) = (Inr why, s2)"
    and t: "h_token s2 = None"
    by (simp add: recheck_api_key_def dead_socket_def RECHECK_def Let_def dead_row_def api_key_refusal_def drop_key_def given_def
        clear_current_user_def)
  have "fst (ws_prepare demo_world (\<lambda>_. Some 1) (\<lambda>t s. (Inr (), s)) demo_services 30000000 (demo_message ''open'') dead_socket)
      = Inr (Call ''open'' (CStr ''go'') (CDict []))"
    using r t f d demo_not_missing [of "''open''"]
    by (simp add: ws_prepare_def demo_message_def Let_def hbind_def message_token_def message_device_def given_def check_that_def cget_def)
  then show ?thesis by (simp add: split_def)
qed

theorem revoked_key_leaves_socket_witness: "find_service demo_services (Some ''open'') = Inr (Some False)"
  by (rule revoked_key_leaves_socket [where s = dead_socket and r = demo_row and i = 7 and since = 30000000 and serve = "\<lambda>c s. (Inr None, s)"
        and device = "\<lambda>t s. (Inr (), s)" and to_int = "\<lambda>_. Some 1" and ms = "[(demo_world, 30000000, demo_message ''open'')]"
        and a = "CStr ''go''" and d = "CDict []"])
    (simp_all only: demo_open_call, simp_all add: dead_socket_def dead_row_def rows_dead_def demo_finds_id)

text \<open>A socket with an accepted key acts as the key's user, whom this message looked up.\<close>

definition keyed_socket :: wsock where
  "keyed_socket = demo_socket\<lparr>h_key := Some demo_row\<rparr>"

lemma keyed_call:
  "\<exists>s1. ws_prepare demo_world (\<lambda>_. Some 1) (\<lambda>t s. (Inr (), s)) demo_services 1 (demo_message ''s'') keyed_socket
      = (Inr (Call ''s'' (CStr ''go'') (CDict [])), s1) \<and> h_user s1 = Some demo_user \<and> h_key_user_applied s1"
proof -
  let ?s = "keyed_socket\<lparr>w_msg_id := Some 1, w_service := Some (CStr ''s'')\<rparr>"
  have f: "find_service demo_services (Some ''s'') = Inr None" by (simp add: find_service_def demo_services_def replace_char_def)
  have d: "drop_api_key_user keyed_socket = keyed_socket" by (simp add: drop_api_key_user_def keyed_socket_def)
  have k: "w_user_cache demo_socket = None" by (simp add: demo_socket_def handler.defs)
  have r: "recheck_api_key demo_world 1 ?s = (Inr None, ?s)" by (simp add: recheck_api_key_def keyed_socket_def RECHECK_def expired_def)
  have q: "require_socket_key demo_world 1 (demo_message ''s'') None ?s = (Inr (), ?s)"
    by (simp add: require_socket_key_def message_key_def hbind_apply keyed_socket_def)
  have t: "message_token demo_world 1 (demo_message ''s'') ?s = (Inr (), ?s)"
    by (simp add: message_token_def demo_message_def given_def keyed_socket_def)
  have ok: "ability_allows (Some [''s:*'']) (service_ability ''s'' ''go'')" by code_simp
  obtain s3 where e: "enforce_api_key demo_world (ws_api_key_user demo_world) ''s'' ''go'' ?s = (Inr (), s3)"
    and u: "h_user s3 = Some demo_user" "h_key_user_applied s3"
    using ok k by (simp add: enforce_api_key_def apply_api_key_user_def ws_api_key_user_def load_user_by_id_def good_def active_def
        demo_user_def keyed_socket_def given_def)
  show ?thesis
    using f d r q t e u demo_not_missing [of "''s''"]
    by (simp add: ws_prepare_def demo_message_def Let_def hbind_def message_device_def given_def check_that_def cget_def value_text_def)
qed


definition header_world :: hworld where
  "header_world = demo_world\<lparr>hw_header := (\<lambda>n. if n = ''X-API-Key'' then Some ''akp.x'' else None)\<rparr>"

lemma header_world_sel [simp]:
  "hw_use_db header_world" "hw_pool header_world = Some demo_pg" "hw_has header_world f" "hw_now header_world = 3000000"
  "hw_by_prefix header_world rows p = find (\<lambda>r. k_prefix r = p) rows" "hw_sha header_world b = ''h''"
  "hw_config header_world = [(''api_key_pepper'', CStr ''p''), (''jwt'', CDict [(''secret'', CStr ''k'')])]"
  "hw_user_by_id header_world i = Inr (Some demo_user)" "key_presented header_world None = Some ''akp.x''"
  by (simp_all add: header_world_def demo_world_def key_presented_def given_def)

lemma header_finds: "finds_prefix header_world rows"
  by (auto simp: finds_prefix_def find_Some_iff find_None_iff split: option.splits)

lemma header_accepts: "fst (has_valid_api_key header_world None demo_handler) = Inr None"
proof -
  have s: "split_key ''akp.x'' = Some (''akp'', ''x'')" by (simp add: split_key_def)
  have v: "verify_api_key header_world ''x'' ''h'' = Inr True"
    by (simp add: verify_api_key_def secret_matches_def hash_secret_def ascii_def code_def)
  have u: "api_key_refusal header_world demo_row = Inr None" by (simp add: refusal_key_usable key_usable_def)
  obtain x rows1 where db: "has_valid_key_db header_world demo_pg ''akp.x'' (h_rows demo_handler) = (x, rows1)" by (rule prod.exhaust)
  then have "\<exists>k. x = Inr (Accepted k)"
    using s v u by (auto simp: has_valid_key_db_def use_key_def bigint_def)
  then show ?thesis using has_valid_api_key_db [OF _ _ _ db] by auto
qed

theorem http_call_authorised_witness:
  "\<exists>s1 key r. get_v1 header_world demo_services (Some ''s'') (Some ''go'') [] None demo_handler = (Inr (Call ''s'' (CStr ''go'') (CDict [])), s1)
    \<and> key_presented header_world None = Some key \<and> opens header_world key r"
proof -
  have f: "find_service demo_services (Some ''s'') = Inr None" by (simp add: find_service_def demo_services_def replace_char_def)
  obtain s2 where h: "has_valid_api_key header_world None demo_handler = (Inr None, s2)"
    using header_accepts by (metis prod.collapse)
  from admitted [OF _ _ h] header_finds obtain r t where r: "r \<in> set [demo_row]"
    and s2: "s2 = demo_handler\<lparr>h_verified := True,
      h_key := Some (r\<lparr>k_uses := k_uses r + 1, k_last_used := Some (hw_now header_world)\<rparr>), h_rows := set_row (k_id r) t (h_rows demo_handler)\<rparr>"
    by auto
  have ok: "ability_allows (Some [''s:*'']) (service_ability ''s'' ''go'')" by code_simp
  have k: "require_key (has_valid_api_key header_world) demo_handler = (Inr (), s2)" using h by (simp add: require_key_def hbind_apply)
  obtain s3 where e: "enforce_api_key header_world (plain_api_key_user header_world) ''s'' ''go'' s2 = (Inr (), s3)"
    using r ok s2 by (simp add: enforce_api_key_def apply_api_key_user_def plain_api_key_user_def load_user_by_id_def good_def active_def
        demo_user_def demo_handler_def given_def)
  have g: "get_v1 header_world demo_services (Some ''s'') (Some ''go'') [] None demo_handler = (Inr (Call ''s'' (CStr ''go'') (CDict [])), s3)"
    using f k e by (simp add: get_v1_def hbind_apply Let_def get_request_data_def given_def cget_def check_that_def hbind_def value_text_def)
  from http_call_authorised [OF g _ f] header_finds show ?thesis using g by auto
qed

theorem handshake_user_not_bound_witness:
  "\<exists>s1 s2. ws_open demo_world 0 ''c1'' (demo_socket\<lparr>h_token := Some ''t'', h_user := Some demo_user\<rparr>) = (Inr (), s1)
    \<and> snd (message_token demo_world 1 (demo_message ''s'') s1) = s2 \<and> h_user s2 = Some demo_user
    \<and> list_all (\<lambda>(j, cs). ''c1'' \<notin> set cs) (user_id_map (h_conns s2))"
proof -
  let ?s = "demo_socket\<lparr>h_token := Some ''t'', h_user := Some demo_user\<rparr>"
  obtain s1 where o: "ws_open demo_world 0 ''c1'' ?s = (Inr (), s1)"
    by (simp add: ws_open_def user_add_connection_def checked_uid_def hbind_def ws_has_valid_api_key_def has_valid_api_key_def given_def)
  obtain x s2 where m: "message_token demo_world 1 (demo_message ''s'') s1 = (x, s2)" by (rule prod.exhaust)
  from handshake_user_not_bound [OF _ o _ _ _ m, of "''t''"] show ?thesis
    using o m by (auto simp: user_init_def auth_stale_def demo_message_def given_def RECHECK_def)
qed

end
