(* ===== verification/Responses.thy ===== *)
theory Responses
  imports Py_Json Config
begin

text \<open>
  What goes back to a client: \<open>WebHandlerBase.write\<close> and \<open>error\<close> and \<open>_ensure_content_type\<close> of
  \<open>request_handler/handlers.py\<close>, the models of \<open>return_model.py\<close>, \<open>HTTPException.to_dict\<close>, and the page limits of
  \<open>request_handler/pagination.py\<close>. The JSON writer is a parameter; a response is the list of what the
  handler did to it.
\<close>

section \<open>Models\<close>

record status_model =
  sm_status :: codes
  sm_message :: "codes option"

record message_model =
  mm_code :: int
  mm_text :: codes

record return_model =
  rt_result :: json
  rt_error :: "message_model option"
  rt_info :: json

record http_exception =
  he_message :: codes
  he_code :: int
  he_description :: "codes option"
  he_http_status :: int

definition status_dict :: "status_model \<Rightarrow> json" where
  "status_dict s = JObj ([(to_text ''status'', JStr (sm_status s))]
     @ (case sm_message s of Some m \<Rightarrow> if m = [] then [] else [(to_text ''message'', JStr m)] | None \<Rightarrow> []))"

definition message_dict :: "message_model \<Rightarrow> json" where
  "message_dict m = JObj [(to_text ''code'', JInt (mm_code m)), (to_text ''text'', JStr (mm_text m))]"

definition return_dict :: "return_model \<Rightarrow> json" where
  "return_dict r = JObj [(to_text ''result'', rt_result r), (to_text ''error'', case rt_error r of Some m \<Rightarrow> message_dict m | None \<Rightarrow> JNull),
     (to_text ''info'', rt_info r)]"

definition exception_dict :: "http_exception \<Rightarrow> json" where
  "exception_dict e = JObj ([(to_text ''msg'', JStr (he_message e)), (to_text ''code'', JInt (he_code e))]
     @ (case he_description e of Some d \<Rightarrow> if d = [] then [] else [(to_text ''description'', JStr d)] | None \<Rightarrow> []))"

section \<open>Writing\<close>

datatype effect = SetStatus int | SetHeader string string | WriteJson json | WriteText codes | Finish | WriteRejected

datatype chunk = Exc http_exception | Status status_model | Message message_model | Return return_model | Value json | Text codes

definition JSON_TYPE :: string where "JSON_TYPE = ''application/json; charset=UTF-8''"

definition is_container :: "json \<Rightarrow> bool" where
  "is_container j = (case j of JObj _ \<Rightarrow> True | JList _ \<Rightarrow> True | _ \<Rightarrow> False)"

text \<open>
  The value of a chunk that is not an exception; a plain text is a JSON string once it is wrapped. Unwrapped,
  the web server takes texts and refuses other values that are not containers.
\<close>

definition chunk_value :: "chunk \<Rightarrow> json" where
  "chunk_value c = (case c of Exc e \<Rightarrow> JNull | Status s \<Rightarrow> status_dict s | Message m \<Rightarrow> message_dict m | Return r \<Rightarrow> return_dict r
     | Value j \<Rightarrow> j | Text t \<Rightarrow> JStr t)"

definition write_value :: "bool \<Rightarrow> chunk \<Rightarrow> effect list" where
  "write_value wrap c =
     (if wrap then [SetHeader ''Content-Type'' JSON_TYPE, WriteJson (JObj [(to_text ''data'', chunk_value c)])]
      else if is_container (chunk_value c) then [SetHeader ''Content-Type'' JSON_TYPE, WriteJson (chunk_value c)]
      else (case chunk_value c of JStr t \<Rightarrow> [WriteText t] | _ \<Rightarrow> [WriteRejected]))"

definition error_exception :: "http_exception \<Rightarrow> effect list" where
  "error_exception e = SetStatus (he_http_status e) # write_value True (Value (JObj [(to_text ''error'', exception_dict e)]))"

definition error_text :: "codes \<Rightarrow> int \<Rightarrow> int \<Rightarrow> effect list" where
  "error_text msg c http_status =
     (if http_status \<noteq> 0 then [SetStatus http_status] else [])
     @ write_value True (Value (JObj [(to_text ''error'', JObj [(to_text ''code'', JInt c), (to_text ''msg'', JStr msg)])]))"

definition write_chunk :: "bool \<Rightarrow> chunk \<Rightarrow> effect list" where
  "write_chunk wrap c = (case c of Exc e \<Rightarrow> error_exception e | _ \<Rightarrow> write_value wrap c)"

section \<open>Preparing\<close>

definition has_start :: "string \<Rightarrow> string \<Rightarrow> bool" where
  "has_start p s \<longleftrightarrow> take (length p) s = p"

definition is_json_type :: "string \<Rightarrow> bool" where
  "is_json_type t \<longleftrightarrow> has_start ''application/json'' t \<or> has_start ''application/x-json'' t"

text \<open>The parsed body, whether JSON is expected in return, and what was done to the response.\<close>

definition ensure_content_type :: "(codes \<Rightarrow> json option) \<Rightarrow> string \<Rightarrow> string \<Rightarrow> codes \<Rightarrow> json option \<times> bool \<times> effect list" where
  "ensure_content_type decode content_type accept body =
     (let parse = is_json_type content_type \<and> body \<noteq> []
      in if parse \<and> decode body = None
         then (None, False, error_text (to_text ''Invalid JSON body'') 400 400 @ [Finish])
         else (if parse then decode body else None, accept = ''application/json'',
               [SetHeader ''Content-Type'' (if accept = ''application/json'' then JSON_TYPE else ''text/html; charset=UTF-8'')]))"

section \<open>Pages\<close>

definition DEFAULT_PAGE_LIMIT :: int where "DEFAULT_PAGE_LIMIT = 50"

definition MAX_PAGE_LIMIT :: int where "MAX_PAGE_LIMIT = 100"

text \<open>
  \<open>int(value)\<close> on the kinds of value a client sends, \<open>None\<close> for \<open>TypeError\<close> and \<open>ValueError\<close>: a text is its
  digits, with a sign, blanks around it and single underscores between digits; a number with a fraction is cut
  off towards zero.
\<close>

fun digits_ok :: "string \<Rightarrow> bool" where
  "digits_ok [] = False"
| "digits_ok [c] = is_digit c"
| "digits_ok (c # d # s) = (is_digit c \<and> (if d = CHR ''_'' then digits_ok s else digits_ok (d # s)))"

definition int_of_text :: "string \<Rightarrow> int option" where
  "int_of_text t =
     (let s = strip t; (neg, ds) = (case s of c # r \<Rightarrow> if c = CHR ''-'' then (True, r) else if c = CHR ''+'' then (False, r) else (False, s) | [] \<Rightarrow> (False, s))
      in if digits_ok ds then (let n = int_of_digits 0 (filter (\<lambda>c. c \<noteq> CHR ''_'') ds) in Some (if neg then - n else n)) else None)"

definition py_int :: "cv \<Rightarrow> int option" where
  "py_int v =
     (case v of
        CInt n \<Rightarrow> Some n | CBool b \<Rightarrow> Some (if b then 1 else 0) | CStr s \<Rightarrow> int_of_text s
      | CReal n \<Rightarrow> Some (if 0 \<le> n then n div 1000000 else - ((- n) div 1000000)) | _ \<Rightarrow> None)"

definition parse_pagination :: "config option \<Rightarrow> int \<Rightarrow> int \<times> int" where
  "parse_pagination data default_limit =
     (case data of
        None \<Rightarrow> (default_limit, 0)
      | Some d \<Rightarrow>
          if d = [] then (default_limit, 0)
          else (let limit = (case map_of d ''limit'' of None \<Rightarrow> default_limit | Some v \<Rightarrow> (case py_int v of Some n \<Rightarrow> n | None \<Rightarrow> default_limit));
                    offset = (case map_of d ''offset'' of None \<Rightarrow> 0 | Some v \<Rightarrow> (case py_int v of Some n \<Rightarrow> n | None \<Rightarrow> 0))
                in (max 1 (min limit MAX_PAGE_LIMIT), max 0 offset)))"

section \<open>The shape of every answer\<close>

text \<open>The type of a response: a JSON object whose only member is \<open>data\<close>, written once, under the JSON content type.\<close>

definition enveloped :: "effect list \<Rightarrow> bool" where
  "enveloped fx \<longleftrightarrow> (\<exists>j. filter (\<lambda>e. case e of WriteJson _ \<Rightarrow> True | WriteText _ \<Rightarrow> True | _ \<Rightarrow> False) fx = [WriteJson (JObj [(to_text ''data'', j)])])
     \<and> SetHeader ''Content-Type'' JSON_TYPE \<in> set fx"

lemma write_value_enveloped: "enveloped (write_value True c)"
  by (simp add: enveloped_def write_value_def)

lemma enveloped_status: "enveloped fx \<Longrightarrow> enveloped (SetStatus n # fx)"
  by (simp add: enveloped_def)

lemma error_text_enveloped: "enveloped (error_text msg c n)"
  using write_value_enveloped [of "Value (JObj [(to_text ''error'', JObj [(to_text ''code'', JInt c), (to_text ''msg'', JStr msg)])])"]
  by (simp add: error_text_def enveloped_status)



end
