(* ===== verification/Ws_Frames.thy ===== *)
theory Ws_Frames
  imports Ws_Bridge Responses
begin

text \<open>
  What a socket sends: \<open>write_custom_message\<close> and \<open>error_message\<close> of \<open>bridge/websocket.py\<close>, and the
  conversion of values that JSON and MessagePack do not know, \<open>json_encoder\<close> of \<open>utils.py\<close> and
  \<open>_msgpack_default\<close> of \<open>bridge/encoders/msgpack_encoder.py\<close>. The two formats themselves are libraries: a
  frame is the value that is given to the encoder.
\<close>

section \<open>Values for the wire\<close>

text \<open>
  The kinds of object the conversions tell apart: a \<open>Decimal\<close> with the text of its float, a \<open>datetime\<close> by its
  clock reading in microseconds and its offset from UTC unless it is naive, a \<open>date\<close>, an enum with its value, a
  float with its text and whether it is finite, and any other object with its \<open>str\<close>.
\<close>

datatype wire_obj = PDecimal codes | PDateTime int "int option" | PDate int | PEnum json | PFloat bool codes | PInt int | PStr codes | POther codes

record formats =
  fm_datetime :: "int \<Rightarrow> codes"
  fm_date :: "int \<Rightarrow> codes"

definition json_encoder :: "formats \<Rightarrow> wire_obj \<Rightarrow> json" where
  "json_encoder fm obj =
     (case obj of
        PDecimal t \<Rightarrow> JFloat t
      | PDateTime clock offset \<Rightarrow> JStr (fm_datetime fm (case offset of Some o1 \<Rightarrow> clock - o1 | None \<Rightarrow> clock))
      | PDate d \<Rightarrow> JStr (fm_date fm d)
      | PEnum v \<Rightarrow> v
      | PFloat isfinite t \<Rightarrow> if isfinite then JFloat t else JNull
      | PInt n \<Rightarrow> JInt n
      | PStr t \<Rightarrow> JStr t
      | POther t \<Rightarrow> JStr t)"

definition msgpack_default :: "formats \<Rightarrow> wire_obj \<Rightarrow> json" where
  "msgpack_default fm obj =
     (case obj of
        PDecimal t \<Rightarrow> JFloat t
      | PDateTime clock offset \<Rightarrow> JStr (fm_datetime fm (case offset of Some o1 \<Rightarrow> clock - o1 | None \<Rightarrow> clock))
      | PDate d \<Rightarrow> JStr (fm_date fm d)
      | PEnum v \<Rightarrow> v
      | PFloat isfinite t \<Rightarrow> if isfinite then JFloat t else JNull
      | PInt n \<Rightarrow> JInt n
      | PStr t \<Rightarrow> JStr t
      | POther t \<Rightarrow> JStr t)"

lemma encoders_agree: "json_encoder fm obj = msgpack_default fm obj"
  by (simp add: json_encoder_def msgpack_default_def)

text \<open>Aware times of the same instant are the same on the wire, and so is the naive UTC time.\<close>

lemma same_instant_encoded:
  "c - o1 = d - o2 \<Longrightarrow> json_encoder fm (PDateTime c (Some o1)) = json_encoder fm (PDateTime d (Some o2))
    \<and> json_encoder fm (PDateTime c (Some o1)) = json_encoder fm (PDateTime (c - o1) None)"
  by (simp add: json_encoder_def)

section \<open>Frames\<close>

datatype outgoing = OModel json | OValue json | OStr codes | OBytes "nat list"

datatype sent = Encoded json | Passed codes | PassedBytes "nat list"

definition add_missing :: "codes \<Rightarrow> json option \<Rightarrow> (codes, json) dict \<Rightarrow> (codes, json) dict" where
  "add_missing k v m = (case v of Some x \<Rightarrow> if k \<in> fst ` set m then m else m @ [(k, x)] | None \<Rightarrow> m)"

definition update_all :: "(codes, json) dict \<Rightarrow> (codes, json) dict \<Rightarrow> (codes, json) dict" where
  "update_all kwargs m = fold (\<lambda>(k, v). AList.update k v) kwargs m"

text \<open>The value of a message wrapped in \<open>data\<close>; bytes have none in JSON.\<close>

definition outgoing_value :: "outgoing \<Rightarrow> json" where
  "outgoing_value m = (case m of OModel j \<Rightarrow> j | OValue j \<Rightarrow> j | OStr t \<Rightarrow> JStr t | OBytes _ \<Rightarrow> JOther)"

definition object_frame :: "json option \<Rightarrow> json option \<Rightarrow> (codes, json) dict \<Rightarrow> (codes, json) dict \<Rightarrow> sent" where
  "object_frame service msg_id kwargs m =
     Encoded (JObj (update_all kwargs
       (add_missing (to_text ''msg_id'') msg_id
         (add_missing (to_text ''service'') service m))))"

text \<open>\<open>None\<close> is a message dropped because the connection is gone or closing.\<close>

definition write_custom_message ::
  "json option \<Rightarrow> json option \<Rightarrow> bool \<Rightarrow> bool \<Rightarrow> (codes, json) dict \<Rightarrow> outgoing \<Rightarrow> sent option" where
  "write_custom_message service msg_id open_connection wrap_in_data kwargs message =
     (let response =
        (if wrap_in_data then object_frame service msg_id kwargs [(to_text ''data'', outgoing_value message)]
         else case message of
                OStr t \<Rightarrow> Passed t
              | OBytes b \<Rightarrow> PassedBytes b
              | _ \<Rightarrow> (case outgoing_value message of
                       JObj m \<Rightarrow> object_frame service msg_id kwargs m
                     | JStr t \<Rightarrow> Passed t
                     | j \<Rightarrow> Encoded j))
      in if open_connection then Some response else None)"

definition error_message ::
  "json option \<Rightarrow> json option \<Rightarrow> bool \<Rightarrow> (codes, json) dict \<Rightarrow> http_exception + codes \<times> int \<Rightarrow> sent option" where
  "error_message service msg_id open_connection kwargs msg =
     (let error = (case msg of Inl e \<Rightarrow> exception_dict e | Inr (t, c) \<Rightarrow> JObj [(to_text ''code'', JInt c), (to_text ''msg'', JStr t)])
      in write_custom_message service msg_id open_connection True []
           (OValue (JObj (update_all kwargs [(to_text ''error'', error)]))))"

text \<open>
  The frames of \<open>on_message\<close> as they are sent; values of the services are given as JSON. The service is
  named as the message named it, if that is truthy.
\<close>

definition named_service :: "(cv \<Rightarrow> json) \<Rightarrow> cv option \<Rightarrow> json option" where
  "named_service conv service = (case service of Some v \<Rightarrow> if truthy v then Some (conv v) else None | None \<Rightarrow> None)"

definition send_frame :: "(cv \<Rightarrow> json) \<Rightarrow> bool \<Rightarrow> frame \<Rightarrow> sent option" where
  "send_frame conv open_connection f =
     (case f of
        Frame i service v \<Rightarrow> write_custom_message (named_service conv service) (map_option JInt i) open_connection True [] (OValue (conv v))
      | ErrorFrame i service c text \<Rightarrow>
          error_message (named_service conv service) (map_option JInt i) open_connection [] (Inr (to_text text, c)))"

lemma map_of_update_all: "k \<notin> fst ` set kwargs \<Longrightarrow> map_of (update_all kwargs m) k = map_of m k"
  unfolding update_all_def by (induction kwargs arbitrary: m) (auto simp: update_conv')

lemma map_of_add_missing: "map_of (add_missing k v m) k = (case map_of m k of Some x \<Rightarrow> Some x | None \<Rightarrow> v)"
  by (auto simp: add_missing_def map_add_def split: option.splits dest: map_of_SomeD weak_map_of_SomeI)

lemma map_of_add_other: "k \<noteq> l \<Longrightarrow> map_of (add_missing k v m) l = map_of m l"
  by (auto simp: add_missing_def map_add_def split: option.splits)

text \<open>
  A reply says which message and which service it answers, unless the message that is sent says otherwise
  itself; and fields given with the call stand.
\<close>

lemma object_frame_identifies:
  assumes "object_frame (Some s) (Some i) kwargs m = Encoded (JObj d)"
    "to_text ''msg_id'' \<notin> fst ` set kwargs" "to_text ''service'' \<notin> fst ` set kwargs"
  shows "map_of d (to_text ''msg_id'') = Some (case map_of m (to_text ''msg_id'') of Some x \<Rightarrow> x | None \<Rightarrow> i)
    \<and> map_of d (to_text ''service'') = Some (case map_of m (to_text ''service'') of Some x \<Rightarrow> x | None \<Rightarrow> s)"
proof -
  have ne: "to_text ''service'' \<noteq> to_text ''msg_id''" by (simp add: to_text_def)
  from assms show ?thesis
    by (auto simp: object_frame_def map_of_update_all map_of_add_missing map_of_add_other [OF ne] map_of_add_other [OF ne [symmetric]]
        split: option.splits)
qed

lemma send_frame_identifies:
  assumes "truthy service" and "f = Frame (Some i) (Some service) v \<or> f = ErrorFrame (Some i) (Some service) c t"
  shows "\<exists>d. send_frame conv True f = Some (Encoded (JObj d)) \<and> map_of d (to_text ''msg_id'') = Some (JInt i)
    \<and> map_of d (to_text ''service'') = Some (conv service) \<and> (\<exists>x. map_of d (to_text ''data'') = Some x)"
  using assms
  by (elim disjE) (simp_all add: send_frame_def write_custom_message_def error_message_def object_frame_def update_all_def
      add_missing_def named_service_def to_text_def)

lemma send_frame_closed: "send_frame conv False f = None"
  by (simp add: send_frame_def write_custom_message_def error_message_def split: frame.splits)

end
