(* ===== verification/Throttle.thy ===== *)
theory Throttle
  imports Config
begin

text \<open>
  Rate limiting, \<open>throttle/throttle.py\<close>. The Redis server is a store of hashes with an expiry;
  the Lua script runs as one step of it, as Redis promises. Server and application read one
  clock, in whole seconds. A field is a number or something that is not one; a key may also hold
  a value of another type, on which the commands fail. SHA-256 is a parameter.
\<close>

section \<open>The server\<close>

datatype fld = Num int | Junk

record entry =
  e_hits :: "fld option"
  e_reset :: "fld option"
  e_expires :: "int option"

datatype redis_value = Hash entry | OtherType

type_synonym redis = "string \<Rightarrow> redis_value option"

datatype terror = RedisError | LimitError

text \<open>What a command sees of a key at a moment.\<close>

definition lookup :: "redis \<Rightarrow> string \<Rightarrow> int \<Rightarrow> redis_value option" where
  "lookup s k now =
     (case s k of
        Some (Hash e) \<Rightarrow> (case e_expires e of Some t \<Rightarrow> if t \<le> now then None else Some (Hash e) | None \<Rightarrow> Some (Hash e))
      | v \<Rightarrow> v)"

text \<open>\<open>tonumber\<close> of what \<open>HGET\<close> returns.\<close>

definition tonumber :: "fld option \<Rightarrow> int option" where
  "tonumber f = (case f of Some (Num n) \<Rightarrow> Some n | _ \<Rightarrow> None)"

definition hit_script :: "string \<Rightarrow> int \<Rightarrow> int \<Rightarrow> redis \<Rightarrow> (terror + int \<times> int) \<times> redis" where
  "hit_script k now window s =
     (case lookup s k now of
        Some OtherType \<Rightarrow> (Inl RedisError, s)
      | v \<Rightarrow>
          (let (h, r) = (case v of Some (Hash e) \<Rightarrow> (tonumber (e_hits e), tonumber (e_reset e)) | _ \<Rightarrow> (None, None));
               (hits, reset) = (case (h, r) of
                  (Some a, Some b) \<Rightarrow> if b \<le> now then (0, now + window) else (a, b)
                | _ \<Rightarrow> (0, now + window))
           in (Inr (hits + 1, reset),
               s(k \<mapsto> Hash \<lparr>e_hits = Some (Num (hits + 1)), e_reset = Some (Num reset),
                  e_expires = Some (now + max 1 (reset - now))\<rparr>))))"

section \<open>Attempts\<close>

record attempt =
  t_allowed :: bool
  t_limit :: int
  t_hits :: int
  t_remaining :: int
  t_retry_after :: int
  t_reset_at :: int

definition make_attempt :: "int \<Rightarrow> int \<Rightarrow> int \<Rightarrow> int \<Rightarrow> attempt" where
  "make_attempt hits reset_at max_attempts now =
     (let allowed = (hits \<le> max_attempts)
      in \<lparr>t_allowed = allowed, t_limit = max_attempts, t_hits = hits, t_remaining = max 0 (max_attempts - hits),
          t_retry_after = (if allowed then 0 else max 0 (reset_at - now)), t_reset_at = reset_at\<rparr>)"

text \<open>The headers, with their numbers.\<close>

definition headers :: "attempt \<Rightarrow> (string, int) dict" where
  "headers a =
     [(''X-RateLimit-Limit'', t_limit a), (''X-RateLimit-Remaining'', t_remaining a), (''X-RateLimit-Reset'', t_reset_at a)]
     @ (if t_allowed a then [] else [(''Retry-After'', t_retry_after a)])"

section \<open>The throttle\<close>

record throttle =
  th_prefix :: string
  th_fail_open :: bool
  th_sha256 :: "string \<Rightarrow> string"

text \<open>
  With the throttle comes whether its prefix is a text: if not, \<open>cache_key\<close> raises inside the \<open>try\<close> of
  each call, which is then treated like one that the server does not answer.
\<close>

definition from_config :: "(string \<Rightarrow> string) \<Rightarrow> config \<Rightarrow> cerror + throttle \<times> bool" where
  "from_config sha config =
     (case section_of config ''throttle'' of
        Inl e \<Rightarrow> Inl e
      | Inr settings \<Rightarrow>
          (let t = \<lparr>th_prefix = [], th_fail_open = (cget settings ''fail_open'' \<noteq> CBool False), th_sha256 = sha\<rparr>
           in case get_or settings ''prefix'' (CStr ''throttle:'') of
                CStr p \<Rightarrow> Inr (t\<lparr>th_prefix := p\<rparr>, True)
              | _ \<Rightarrow> Inr (t, False)))"

definition cache_key :: "throttle \<Rightarrow> string \<Rightarrow> string" where
  "cache_key t key = th_prefix t @ th_sha256 t key"

definition assert_limit :: "int \<Rightarrow> int \<Rightarrow> terror + unit" where
  "assert_limit max_attempts window = (if max_attempts < 1 \<or> window < 1 then Inl LimitError else Inr ())"

definition unavailable :: "throttle \<Rightarrow> terror \<Rightarrow> int \<Rightarrow> int \<Rightarrow> int \<Rightarrow> terror + attempt" where
  "unavailable t e max_attempts now window =
     (if \<not> th_fail_open t then Inl e
      else Inr \<lparr>t_allowed = True, t_limit = max_attempts, t_hits = 0, t_remaining = max_attempts,
                t_retry_after = 0, t_reset_at = now + window\<rparr>)"

text \<open>\<open>up\<close> says whether the server answers this call.\<close>

definition hit :: "throttle \<Rightarrow> bool \<Rightarrow> string \<Rightarrow> int \<Rightarrow> int \<Rightarrow> int \<Rightarrow> redis \<Rightarrow> (terror + attempt) \<times> redis" where
  "hit t up key max_attempts window now s =
     (case assert_limit max_attempts window of
        Inl e \<Rightarrow> (Inl e, s)
      | Inr _ \<Rightarrow>
          if \<not> up then (unavailable t RedisError max_attempts now window, s)
          else case hit_script (cache_key t key) now window s of
                 (Inl e, s1) \<Rightarrow> (unavailable t e max_attempts now window, s1)
               | (Inr (hits, reset_at), s1) \<Rightarrow> (Inr (make_attempt hits reset_at max_attempts now), s1))"

definition parse_stored :: "redis_value option \<Rightarrow> int option \<times> int option" where
  "parse_stored v =
     (case v of
        Some (Hash e) \<Rightarrow>
          (case (tonumber (e_hits e), tonumber (e_reset e)) of (Some h, Some r) \<Rightarrow> (Some h, Some r) | _ \<Rightarrow> (None, None))
      | _ \<Rightarrow> (None, None))"

definition check :: "throttle \<Rightarrow> bool \<Rightarrow> string \<Rightarrow> int \<Rightarrow> int \<Rightarrow> redis \<Rightarrow> terror + attempt" where
  "check t up key max_attempts now s =
     (case assert_limit max_attempts 1 of
        Inl e \<Rightarrow> Inl e
      | Inr _ \<Rightarrow>
          if \<not> up \<or> lookup s (cache_key t key) now = Some OtherType then unavailable t RedisError max_attempts now 0
          else case parse_stored (lookup s (cache_key t key) now) of
                 (Some hits, Some reset_at) \<Rightarrow>
                   if reset_at \<le> now
                   then Inr \<lparr>t_allowed = True, t_limit = max_attempts, t_hits = 0, t_remaining = max_attempts,
                             t_retry_after = 0, t_reset_at = now\<rparr>
                   else Inr (make_attempt hits reset_at max_attempts now)
               | _ \<Rightarrow> Inr \<lparr>t_allowed = True, t_limit = max_attempts, t_hits = 0, t_remaining = max_attempts,
                           t_retry_after = 0, t_reset_at = now\<rparr>)"

definition clear :: "throttle \<Rightarrow> bool \<Rightarrow> string \<Rightarrow> redis \<Rightarrow> (terror + unit) \<times> redis" where
  "clear t up key s =
     (if up then (Inr (), s(cache_key t key := None))
      else (if th_fail_open t then Inr () else Inl RedisError, s))"

section \<open>Sequences of attempts\<close>

text \<open>The attempts of one key at the given moments, with whether each is allowed.\<close>

fun attempts :: "throttle \<Rightarrow> string \<Rightarrow> int \<Rightarrow> int \<Rightarrow> int list \<Rightarrow> redis \<Rightarrow> (int \<times> bool) list" where
  "attempts t key limit window [] s = []"
| "attempts t key limit window (now # ts) s =
     (case hit t True key limit window now s of
        (Inl e, s1) \<Rightarrow> (now, False) # attempts t key limit window ts s1
      | (Inr a, s1) \<Rightarrow> (now, t_allowed a) # attempts t key limit window ts s1)"

text \<open>The state of a key: the window that is open at a moment, if any.\<close>

definition open_window :: "redis \<Rightarrow> string \<Rightarrow> int \<Rightarrow> (int \<times> int) option" where
  "open_window s k now =
     (case parse_stored (lookup s k now) of (Some h, Some r) \<Rightarrow> if r \<le> now then None else Some (h, r) | _ \<Rightarrow> None)"

lemma hit_step:
  assumes "1 \<le> limit" "1 \<le> window" "lookup s (cache_key t key) now \<noteq> Some OtherType"
  shows "hit t True key limit window now s =
    (case open_window s (cache_key t key) now of
       Some (h, r) \<Rightarrow> (Inr (make_attempt (h + 1) r limit now),
          s(cache_key t key \<mapsto> Hash \<lparr>e_hits = Some (Num (h + 1)), e_reset = Some (Num r), e_expires = Some r\<rparr>))
     | None \<Rightarrow> (Inr (make_attempt 1 (now + window) limit now),
          s(cache_key t key \<mapsto> Hash \<lparr>e_hits = Some (Num 1), e_reset = Some (Num (now + window)), e_expires = Some (now + window)\<rparr>)))"
  using assms
  by (auto simp: hit_def assert_limit_def hit_script_def open_window_def parse_stored_def Let_def max_def
      split: option.splits redis_value.splits)

section \<open>The fixed window as a reference\<close>

fun fixed_window :: "int \<Rightarrow> int \<Rightarrow> int list \<Rightarrow> (int \<times> int) option \<Rightarrow> (int \<times> bool) list" where
  "fixed_window limit window [] w = []"
| "fixed_window limit window (now # ts) w =
     (let (h, r) = (case w of Some (h, r) \<Rightarrow> if r \<le> now then (1, now + window) else (h + 1, r) | None \<Rightarrow> (1, now + window))
      in (now, h \<le> limit) # fixed_window limit window ts (Some (h, r)))"

text \<open>What the throttle itself leaves under a key.\<close>

definition key_state :: "redis \<Rightarrow> string \<Rightarrow> (int \<times> int) option \<Rightarrow> bool" where
  "key_state s k w \<longleftrightarrow>
     (case w of
        None \<Rightarrow> s k = None
      | Some (h, r) \<Rightarrow> s k = Some (Hash \<lparr>e_hits = Some (Num h), e_reset = Some (Num r), e_expires = Some r\<rparr>))"

lemma key_state_window:
  "key_state s k w \<Longrightarrow> open_window s k now = (case w of None \<Rightarrow> None | Some (h, r) \<Rightarrow> if r \<le> now then None else Some (h, r))
     \<and> lookup s k now \<noteq> Some OtherType"
  by (auto simp: key_state_def open_window_def lookup_def parse_stored_def tonumber_def split: option.splits prod.splits)

lemma attempts_fixed_window:
  assumes "1 \<le> limit" "1 \<le> window"
  shows "key_state s (cache_key t key) w \<Longrightarrow>
    attempts t key limit window ts s = fixed_window limit window ts w"
proof (induction ts arbitrary: s w)
  case (Cons now ts)
  note k = key_state_window [OF Cons.prems, of now]
  note h = hit_step [OF assms, of s t key now]
  show ?case
  proof (cases w)
    case None
    then show ?thesis using k h Cons.IH [of _ "Some (1, now + window)"]
      by (simp add: key_state_def make_attempt_def Let_def)
  next
    case (Some hr)
    obtain a b where hr: "hr = (a, b)" by (rule prod.exhaust)
    then show ?thesis
      using k h Some Cons.IH [of _ "Some (1, now + window)"] Cons.IH [of _ "Some (a + 1, b)"]
      by (cases "b \<le> now") (simp_all add: key_state_def make_attempt_def Let_def)
  qed
qed simp

text \<open>Attempts allowed before a moment, and from one moment on before another.\<close>

definition granted :: "int \<Rightarrow> int \<Rightarrow> (int \<times> bool) list \<Rightarrow> nat" where
  "granted a x l = length (filter (\<lambda>(t, ok). ok \<and> a \<le> t \<and> t < x) l)"

lemma granted_simps [simp]:
  "granted a x [] = 0"
  "granted a x ((t, ok) # l) = (if ok \<and> a \<le> t \<and> t < x then 1 else 0) + granted a x l"
  by (simp_all add: granted_def)

lemma granted_late: "sorted (map fst l) \<Longrightarrow> (\<forall>p\<in>set l. x \<le> fst p) \<Longrightarrow> granted a x l = 0"
  by (auto simp: granted_def filter_empty_conv)

lemma fixed_window_times: "map fst (fixed_window limit window ts w) = ts"
  by (induction ts arbitrary: w) (auto simp: Let_def split: option.split prod.split)

lemma in_window:
  "sorted ts \<Longrightarrow> x \<le> r \<Longrightarrow> int (granted a x (fixed_window limit window ts (Some (h, r)))) \<le> max 0 (limit - h)"
proof (induction ts arbitrary: h r)
  case (Cons now ts)
  show ?case
  proof (cases "r \<le> now")
    case True
    let ?l = "fixed_window limit window (now # ts) (Some (h, r))"
    have m: "map fst ?l = now # ts" by (rule fixed_window_times)
    have "fst p \<in> set (map fst ?l)" if "p \<in> set ?l" for p using that by simp
    then have "x \<le> fst p" if "p \<in> set ?l" for p
      using that Cons.prems True unfolding m by fastforce
    then have "granted a x ?l = 0" by (intro granted_late) (use m Cons.prems(1) in simp_all)
    then show ?thesis by simp
  next
    case False
    with Cons.IH [of r "h + 1"] Cons.prems show ?thesis by (auto simp: Let_def)
  qed
qed simp

lemma two_windows:
  "sorted ts \<Longrightarrow> x \<le> r + window \<Longrightarrow> 1 \<le> limit \<Longrightarrow>
    int (granted a x (fixed_window limit window ts (Some (h, r)))) \<le> max 0 (limit - h) + limit"
proof (induction ts arbitrary: h)
  case (Cons now ts)
  show ?case
  proof (cases "r \<le> now")
    case True
    then have "x \<le> now + window" using Cons.prems by simp
    with in_window [of ts x "now + window" a limit window 1] Cons.prems True show ?thesis
      by (auto simp: Let_def)
  next
    case False
    with Cons.IH [of "h + 1"] Cons.prems show ?thesis by (auto simp: Let_def)
  qed
qed simp

lemma burst:
  "sorted ts \<Longrightarrow> 1 \<le> limit \<Longrightarrow> 1 \<le> window \<Longrightarrow> (\<And>h r. w = Some (h, r) \<Longrightarrow> 0 \<le> h) \<Longrightarrow>
    int (granted a (a + window) (fixed_window limit window ts w)) \<le> 2 * limit"
proof (induction ts arbitrary: w)
  case (Cons now ts)
  have s: "sorted ts" using Cons.prems by simp
  obtain h r where step: "fixed_window limit window (now # ts) w = (now, h \<le> limit) # fixed_window limit window ts (Some (h, r))"
    and h: "1 \<le> h" and r: "now < r"
    using Cons.prems(3,4) by (cases w) (fastforce simp: Let_def split: if_splits)+
  show ?case
  proof (cases "a \<le> now")
    case True
    then have "a + window \<le> r + window" using r by simp
    from two_windows [OF s this Cons.prems(2), of a h] h Cons.prems(2) show ?thesis
      unfolding step by (auto simp: max_def split: if_splits)
  next
    case False
    then show ?thesis using Cons.IH [OF s Cons.prems(2,3), of "Some (h, r)"] h unfolding step by simp
  qed
qed simp

text \<open>
  C12. The limit and its one known cost: from a key nobody has used, at whatever moments the
  attempts come, the answers are those of a counter that opens a window of the given length with
  the first attempt and counts in it; never more than twice the limit are allowed within any stretch as long as the
  window, and within the window that the first of them opens exactly the first \<open>limit\<close> attempts
  are allowed and every later one is denied, however often the client tries.
\<close>

theorem throttle_limits:
  assumes "1 \<le> limit" "1 \<le> window" "sorted ts" "s (cache_key t key) = None"
  shows "attempts t key limit window ts s = fixed_window limit window ts None
    \<and> int (granted a (a + window) (attempts t key limit window ts s)) \<le> 2 * limit
    \<and> (ts \<noteq> [] \<longrightarrow> list_all (\<lambda>u. u < hd ts + window) ts \<longrightarrow>
        map snd (attempts t key limit window ts s) = map (\<lambda>n. int n < limit) [0..<length ts])"
proof -
  have eq: "attempts t key limit window ts s = fixed_window limit window ts None"
    using attempts_fixed_window [OF assms(1,2), of s t key None] assms(4) by (simp add: key_state_def)
  have run: "map snd (fixed_window limit window us (Some (h, r))) = map (\<lambda>n. h + int n < limit) [0..<length us]"
    if "list_all (\<lambda>u. u < r) us" for us h r
    using that
  proof (induction us arbitrary: h)
    case (Cons u us)
    have "map (\<lambda>n. h + int n < limit) [0..<length (u # us)] = (h < limit) # map (\<lambda>n. h + 1 + int n < limit) [0..<length us]"
      by (simp add: upt_conv_Cons map_Suc_upt [symmetric] o_def add.assoc del: upt_Suc)
    with Cons show ?case by (auto simp: Let_def)
  qed simp
  have "map snd (fixed_window limit window ts None) = map (\<lambda>n. int n < limit) [0..<length ts]"
    if "ts \<noteq> []" "list_all (\<lambda>u. u < hd ts + window) ts"
  proof -
    obtain u us where ts: "ts = u # us" using \<open>ts \<noteq> []\<close> by (cases ts) auto
    have "map (\<lambda>n. int n < limit) [0..<length ts] = (0 < limit) # map (\<lambda>n. 1 + int n < limit) [0..<length us]"
      by (simp add: ts upt_conv_Cons map_Suc_upt [symmetric] o_def del: upt_Suc)
    with run [of "u + window" us 1] that assms(1) show ?thesis by (simp add: ts)
  qed
  then show ?thesis using burst [OF assms(3,1,2), of None a] eq by simp
qed

definition demo_throttle :: throttle where
  "demo_throttle = \<lparr>th_prefix = ''throttle:'', th_fail_open = True, th_sha256 = id\<rparr>"

theorem throttle_limits_witness:
  "map snd (attempts demo_throttle ''login'' 2 60 [100, 130, 150] (\<lambda>_. None)) = [True, True, False]
   \<and> granted 140 200 (attempts demo_throttle ''login'' 2 60 [100, 130, 150] (\<lambda>_. None)) \<le> 4"
  using throttle_limits [of 2 60 "[100, 130, 150]" "\<lambda>_. None" demo_throttle "''login''" 140]
  by (simp add: upt_rec)

text \<open>
  What a caller is told: peeking changes nothing and agrees with the last attempt counted; an
  attempt that is denied names a wait that ends with the window, an allowed one names none; the
  headers carry \<open>Retry-After\<close> exactly on a denial; and clearing a key gives its full allowance
  back.
\<close>

theorem throttle_reports:
  assumes "1 \<le> limit" "1 \<le> window" "hit t True key limit window now s = (Inr a, s1)" "lookup s (cache_key t key) now \<noteq> Some OtherType"
  shows "check t True key limit now s1 = Inr a
    \<and> t_allowed a = (t_retry_after a = 0) \<and> t_retry_after a = (if t_allowed a then 0 else t_reset_at a - now)
    \<and> now < t_reset_at a \<and> 0 \<le> t_remaining a
    \<and> (''Retry-After'' \<in> fst ` set (headers a) \<longleftrightarrow> \<not> t_allowed a)
    \<and> check t True key limit now (snd (clear t True key s1)) =
        Inr \<lparr>t_allowed = True, t_limit = limit, t_hits = 0, t_remaining = limit, t_retry_after = 0, t_reset_at = now\<rparr>"
proof -
  have l: "1 \<le> limit" by (fact assms(1))
  obtain h r where hr: "a = make_attempt h r limit now" "now < r"
    "s1 (cache_key t key) = Some (Hash \<lparr>e_hits = Some (Num h), e_reset = Some (Num r), e_expires = Some r\<rparr>)"
  proof (cases "open_window s (cache_key t key) now")
    case None
    then show ?thesis using that hit_step [OF assms(1,2,4)] assms(2,3) by auto
  next
    case (Some hr)
    obtain x y where xy: "hr = (x, y)" by (rule prod.exhaust)
    with Some have "now < y" by (auto simp: open_window_def split: option.splits prod.splits if_splits)
    then show ?thesis using that hit_step [OF assms(1,2,4)] assms(3) Some xy by auto
  qed
  have "check t True key limit now s1 = Inr a"
    using hr l by (simp add: check_def assert_limit_def lookup_def parse_stored_def tonumber_def)
  moreover have "check t True key limit now (snd (clear t True key s1)) =
        Inr \<lparr>t_allowed = True, t_limit = limit, t_hits = 0, t_remaining = limit, t_retry_after = 0, t_reset_at = now\<rparr>"
    using l by (simp add: check_def clear_def assert_limit_def lookup_def parse_stored_def)
  ultimately show ?thesis using hr(2) by (auto simp: hr(1) make_attempt_def Let_def headers_def)
qed

theorem throttle_reports_witness:
  "check demo_throttle True ''login'' 2 100 (snd (hit demo_throttle True ''login'' 2 60 100 (\<lambda>_. None)))
     = Inr \<lparr>t_allowed = True, t_limit = 2, t_hits = 1, t_remaining = 1, t_retry_after = 0, t_reset_at = 160\<rparr>"
proof -
  let ?a = "\<lparr>t_allowed = True, t_limit = 2, t_hits = 1, t_remaining = 1, t_retry_after = 0, t_reset_at = 160\<rparr>"
  have "hit demo_throttle True ''login'' 2 60 100 (\<lambda>_. None) = (Inr ?a, snd (hit demo_throttle True ''login'' 2 60 100 (\<lambda>_. None)))"
    by (simp add: hit_step open_window_def lookup_def parse_stored_def make_attempt_def)
  from throttle_reports [OF _ _ this] show ?thesis by (simp add: lookup_def)
qed

end
