(* ===== verification/Crypto_Fields.thy ===== *)
theory Crypto_Fields
  imports Config Py_Json
begin

text \<open>
  Field encryption, the client envelope and password hashing: \<open>crypto/fields.py\<close>,
  \<open>crypto/envelope.py\<close> and \<open>crypto/passwords.py\<close>. Base64 follows \<open>binascii.a2b_base64\<close> character
  by character. The cipher (AES-256-GCM), HMAC and bcrypt are library code and parameters of the
  definitions; \<open>aead_ok\<close> names what is relied on of the cipher. Random bytes are arguments. Stored
  values and plain texts are lists of code points; key ids and variable names are ASCII strings.
\<close>

section \<open>Base64\<close>

definition b64_char :: "nat \<Rightarrow> nat" where
  "b64_char n = (if n < 26 then 65 + n else if n < 52 then 71 + n else if n < 62 then n - 4 else if n = 62 then 43 else 47)"

definition b64_value :: "nat \<Rightarrow> nat option" where
  "b64_value c =
     (if 65 \<le> c \<and> c \<le> 90 then Some (c - 65) else if 97 \<le> c \<and> c \<le> 122 then Some (c - 71)
      else if 48 \<le> c \<and> c \<le> 57 then Some (c + 4) else if c = 43 then Some 62 else if c = 47 then Some 63 else None)"

fun b64encode :: "bytes \<Rightarrow> codes" where
  "b64encode [] = []"
| "b64encode [a] = [b64_char (a div 4), b64_char (a mod 4 * 16), 61, 61]"
| "b64encode [a, b] = [b64_char (a div 4), b64_char (a mod 4 * 16 + b div 16), b64_char (b mod 16 * 4), 61]"
| "b64encode (a # b # c # r) =
     b64_char (a div 4) # b64_char (a mod 4 * 16 + b div 16) # b64_char (b mod 16 * 4 + c div 64) # b64_char (c mod 64) # b64encode r"

text \<open>
  The decoder: its place in the group of four, the bits left over, the number of padding signs
  seen, and whether padding has started. \<open>None\<close> is \<open>binascii.Error\<close>.
\<close>

fun a2b :: "bool \<Rightarrow> nat \<Rightarrow> nat \<Rightarrow> nat \<Rightarrow> bool \<Rightarrow> codes \<Rightarrow> bytes option" where
  "a2b strict pos left pads begun [] = (if pos = 0 then Some [] else None)"
| "a2b strict pos left pads begun (ch # r) =
     (if ch = 61 then
        (if strict \<and> pos = 0 then None
         else if 2 \<le> pos then
           (if 4 \<le> pos + (pads + 1) then (if strict \<and> r \<noteq> [] then None else Some [])
            else a2b strict pos left (pads + 1) True r)
         else a2b strict pos left pads True r)
      else case b64_value ch of
        None \<Rightarrow> if strict then None else a2b strict pos left pads begun r
      | Some v \<Rightarrow>
          if strict \<and> begun then None
          else if pos = 0 then a2b strict 1 v 0 begun r
          else if pos = 1 then map_option ((#) (left * 4 + v div 16)) (a2b strict 2 (v mod 16) 0 begun r)
          else if pos = 2 then map_option ((#) (left * 16 + v div 4)) (a2b strict 3 (v mod 4) 0 begun r)
          else map_option ((#) (left * 64 + v)) (a2b strict 0 0 0 begun r))"

text \<open>\<open>base64.b64decode(value, validate=True)\<close>; a text that is not ASCII is a \<open>ValueError\<close> like the rest.\<close>

definition b64decode :: "codes \<Rightarrow> bytes option" where
  "b64decode t = (if list_all (\<lambda>c. c < 128) t then a2b True 0 0 0 False t else None)"

text \<open>The URL alphabet, without padding.\<close>

definition url_char :: "nat \<Rightarrow> nat" where
  "url_char c = (if c = 43 then 45 else if c = 47 then 95 else c)"

definition plain_char :: "nat \<Rightarrow> nat" where
  "plain_char c = (if c = 45 then 43 else if c = 95 then 47 else c)"

definition b64url_encode :: "bytes \<Rightarrow> codes" where
  "b64url_encode raw = rstrip_with (\<lambda>c. c = 61) (map url_char (b64encode raw))"

datatype cfault = CryptoError | OtherException

definition b64url_decode :: "codes \<Rightarrow> cfault + bytes" where
  "b64url_decode value =
     (let padded = value @ replicate ((4 - length value mod 4) mod 4) 61
      in if \<not> list_all (\<lambda>c. c < 128) padded then Inl CryptoError
         else case a2b False 0 0 0 False (map plain_char padded) of None \<Rightarrow> Inl CryptoError | Some raw \<Rightarrow> Inr raw)"

section \<open>Text\<close>

text \<open>\<open>bytes.decode("utf-8")\<close>.\<close>

definition decode_strict :: "bytes \<Rightarrow> codes option" where
  "decode_strict b = (let t = decode_ignore b in if encode_utf8 t = Some b then Some t else None)"

section \<open>Keys\<close>

record aead =
  g_seal :: "bytes \<Rightarrow> bytes \<Rightarrow> bytes \<Rightarrow> bytes \<Rightarrow> bytes"
  g_open :: "bytes \<Rightarrow> bytes \<Rightarrow> bytes \<Rightarrow> bytes \<Rightarrow> bytes option"

definition is_bytes :: "bytes \<Rightarrow> bool" where
  "is_bytes b \<longleftrightarrow> list_all (\<lambda>x. x < 256) b"

definition VERSION :: string where "VERSION = ''pa1''"
definition FOREIGN_VERSION :: string where "FOREIGN_VERSION = ''sp1''"
definition KEY_BYTES :: nat where "KEY_BYTES = 32"
definition NONCE_BYTES :: nat where "NONCE_BYTES = 12"
definition TAG_BYTES :: nat where "TAG_BYTES = 16"

text \<open>What is relied on of the cipher: it opens what it sealed, and a sealed text is as long as the plain one and a tag.\<close>

definition aead_ok :: "aead \<Rightarrow> bool" where
  "aead_ok g \<longleftrightarrow> (\<forall>k n p a. length k = KEY_BYTES \<and> length n = NONCE_BYTES \<and> is_bytes n \<and> is_bytes p \<longrightarrow>
     g_open g k n (g_seal g k n p a) a = Some p \<and> length (g_seal g k n p a) = length p + TAG_BYTES \<and> is_bytes (g_seal g k n p a))"

record field_crypto =
  k_current :: string
  k_keys :: "(string, string) dict"
  k_index_var :: string
  k_env :: "string \<Rightarrow> codes option"

type_synonym key_cache = "(string, bytes) dict"

text \<open>
  \<open>FieldCrypto.from_config\<close>; \<open>str_of\<close> is \<open>str()\<close> on the values of the \<open>keys\<close> block. A setting that
  is not text fails where it is first used; it is refused here.
\<close>

definition text_setting :: "(string, cv) dict \<Rightarrow> string \<Rightarrow> cfault + string" where
  "text_setting d k = (case get_or d k (CStr []) of CStr s \<Rightarrow> Inr s | _ \<Rightarrow> Inl OtherException)"

definition crypto_from_config :: "(cv \<Rightarrow> string) \<Rightarrow> (string \<Rightarrow> codes option) \<Rightarrow> (string, cv) dict \<Rightarrow> cfault + field_crypto" where
  "crypto_from_config str_of env config =
     (case get_or config ''crypto'' (CDict []) of
        CDict settings \<Rightarrow>
          (case get_or settings ''keys'' (CDict []) of
             CDict keys \<Rightarrow>
               (case (text_setting settings ''key'', text_setting settings ''index_key'') of
                  (Inr key, Inr index) \<Rightarrow>
                    Inr \<lparr>k_current = key, k_keys = map (\<lambda>x. (fst x, str_of (snd x))) keys, k_index_var = index, k_env = env\<rparr>
                | _ \<Rightarrow> Inl OtherException)
           | _ \<Rightarrow> Inl CryptoError)
      | _ \<Rightarrow> Inl OtherException)"

text \<open>\<open>_KEY_ID_RE\<close> with \<open>match\<close>: the dollar also stands before a final newline.\<close>

definition key_id_char :: "char \<Rightarrow> bool" where
  "key_id_char c \<longleftrightarrow> is_lower c \<or> is_digit c \<or> c = CHR ''_''"

definition key_id_re :: "string \<Rightarrow> bool" where
  "key_id_re s =
     (let body = (if s \<noteq> [] \<and> List.last s = CHR 0x0A then butlast s else s)
      in 1 \<le> length body \<and> length body \<le> 16 \<and> list_all key_id_char body)"

definition assert_key_id :: "string \<Rightarrow> cfault + string" where
  "assert_key_id i = (if key_id_re i then Inr i else Inl CryptoError)"

definition current_key_id :: "field_crypto \<Rightarrow> cfault + string" where
  "current_key_id c = (if k_current c = [] then Inl CryptoError else assert_key_id (k_current c))"

definition material :: "field_crypto \<Rightarrow> string \<Rightarrow> cfault + bytes" where
  "material c variable =
     (case k_env c variable of
        None \<Rightarrow> Inl CryptoError
      | Some value \<Rightarrow>
          if value = [] then Inl CryptoError
          else (case b64decode value of
                  None \<Rightarrow> Inl CryptoError
                | Some raw \<Rightarrow> if length raw \<noteq> KEY_BYTES then Inl CryptoError else Inr raw))"

definition key_for :: "field_crypto \<Rightarrow> string \<Rightarrow> key_cache \<Rightarrow> (cfault + bytes) \<times> key_cache" where
  "key_for c i cache =
     (case assert_key_id i of
        Inl e \<Rightarrow> (Inl e, cache)
      | Inr _ \<Rightarrow>
          (case map_of cache i of
             Some k \<Rightarrow> (Inr k, cache)
           | None \<Rightarrow>
               (case map_of (k_keys c) i of
                  None \<Rightarrow> (Inl CryptoError, cache)
                | Some variable \<Rightarrow>
                    if variable = [] then (Inl CryptoError, cache)
                    else (case material c variable of
                            Inl e \<Rightarrow> (Inl e, cache)
                          | Inr k \<Rightarrow> (Inr k, AList.update i k cache)))))"

definition INDEX_CACHE_ID :: string where "INDEX_CACHE_ID = ''@index''"

definition index_key :: "field_crypto \<Rightarrow> key_cache \<Rightarrow> (cfault + bytes) \<times> key_cache" where
  "index_key c cache =
     (case map_of cache INDEX_CACHE_ID of
        Some k \<Rightarrow> (Inr k, cache)
      | None \<Rightarrow>
          if k_index_var c = [] then (Inl CryptoError, cache)
          else (case material c (k_index_var c) of
                  Inl e \<Rightarrow> (Inl e, cache)
                | Inr k \<Rightarrow> (Inr k, AList.update INDEX_CACHE_ID k cache)))"

section \<open>Stored values\<close>

definition aad :: "string \<Rightarrow> bytes" where
  "aad key_id = to_text (VERSION @ '':'' @ key_id)"

definition value_prefix :: "string \<Rightarrow> codes" where
  "value_prefix version = to_text (version @ '':'')"

definition starts_with :: "codes \<Rightarrow> codes \<Rightarrow> bool" where
  "starts_with p t \<longleftrightarrow> take (length p) t = p"

text \<open>\<open>split\<close>: \<open>value.split(":", 2)\<close> has three parts exactly when there are two colons.\<close>

definition split_value :: "codes \<Rightarrow> cfault + (string \<times> codes) option" where
  "split_value value =
     (if \<not> starts_with (value_prefix VERSION) value then Inr None
      else case partition_on 58 (drop (length (value_prefix VERSION)) value) of
             (i, found, payload) \<Rightarrow>
               if \<not> found \<or> payload = [] \<or> \<not> list_all (\<lambda>c. c < 128) i \<or> \<not> key_id_re (map char_of i) then Inl CryptoError
               else Inr (Some (map char_of i, payload)))"

definition is_encrypted :: "codes option \<Rightarrow> bool" where
  "is_encrypted value = (case value of None \<Rightarrow> False | Some t \<Rightarrow> starts_with (value_prefix VERSION) t)"

definition key_id_of :: "codes option \<Rightarrow> cfault + string option" where
  "key_id_of value =
     (case value of
        None \<Rightarrow> Inr None
      | Some t \<Rightarrow>
          if t = [] then Inr None
          else case split_value t of Inl e \<Rightarrow> Inl e | Inr parts \<Rightarrow> Inr (map_option fst parts))"

definition encrypt_field :: "aead \<Rightarrow> field_crypto \<Rightarrow> bytes \<Rightarrow> codes \<Rightarrow> string option \<Rightarrow> key_cache \<Rightarrow> (cfault + codes) \<times> key_cache" where
  "encrypt_field g c nonce plaintext key_id cache =
     (case (case key_id of Some i \<Rightarrow> (if i = [] then current_key_id c else Inr i) | None \<Rightarrow> current_key_id c) of
        Inl e \<Rightarrow> (Inl e, cache)
      | Inr chosen \<Rightarrow>
          (case key_for c chosen cache of
             (Inl e, cache1) \<Rightarrow> (Inl e, cache1)
           | (Inr key, cache1) \<Rightarrow>
               (case encode_utf8 plaintext of
                  None \<Rightarrow> (Inl OtherException, cache1)
                | Some raw \<Rightarrow>
                    (Inr (value_prefix VERSION @ to_text chosen @ [58] @ b64encode (nonce @ g_seal g key nonce raw (aad chosen))), cache1))))"

definition open_payload :: "aead \<Rightarrow> field_crypto \<Rightarrow> string \<Rightarrow> codes \<Rightarrow> key_cache \<Rightarrow> (cfault + codes) \<times> key_cache" where
  "open_payload g c key_id payload cache =
     (case b64decode payload of
        None \<Rightarrow> (Inl CryptoError, cache)
      | Some raw \<Rightarrow>
          if length raw < NONCE_BYTES + TAG_BYTES then (Inl CryptoError, cache)
          else (case key_for c key_id cache of
                  (Inl e, cache1) \<Rightarrow> (Inl e, cache1)
                | (Inr key, cache1) \<Rightarrow>
                    (case g_open g key (take NONCE_BYTES raw) (drop NONCE_BYTES raw) (aad key_id) of
                       None \<Rightarrow> (Inl CryptoError, cache1)
                     | Some p \<Rightarrow> (case decode_strict p of None \<Rightarrow> (Inl OtherException, cache1) | Some t \<Rightarrow> (Inr t, cache1)))))"

definition decrypt_field :: "aead \<Rightarrow> field_crypto \<Rightarrow> codes option \<Rightarrow> key_cache \<Rightarrow> (cfault + codes option) \<times> key_cache" where
  "decrypt_field g c value cache =
     (case value of
        None \<Rightarrow> (Inr None, cache)
      | Some t \<Rightarrow>
          if t = [] then (Inr value, cache)
          else (case split_value t of
                  Inl e \<Rightarrow> (Inl e, cache)
                | Inr None \<Rightarrow> if starts_with (value_prefix FOREIGN_VERSION) t then (Inl CryptoError, cache) else (Inr value, cache)
                | Inr (Some (i, payload)) \<Rightarrow>
                    (case open_payload g c i payload cache of
                       (Inl e, cache1) \<Rightarrow> (Inl e, cache1) | (Inr p, cache1) \<Rightarrow> (Inr (Some p), cache1))))"

definition blind_index :: "(bytes \<Rightarrow> bytes \<Rightarrow> string) \<Rightarrow> field_crypto \<Rightarrow> codes \<Rightarrow> key_cache \<Rightarrow> (cfault + string) \<times> key_cache" where
  "blind_index hmac c value cache =
     (case index_key c cache of
        (Inl e, cache1) \<Rightarrow> (Inl e, cache1)
      | (Inr key, cache1) \<Rightarrow>
          (case encode_utf8 value of None \<Rightarrow> (Inl OtherException, cache1) | Some raw \<Rightarrow> (Inr (hmac key raw), cache1)))"

definition generate_field_key :: "bytes \<Rightarrow> codes" where
  "generate_field_key random = b64encode random"


section \<open>The envelope\<close>

record envelope =
  ev_magic :: bytes
  ev_version :: int
  ev_nonce :: bytes
  ev_body :: bytes

definition MAGIC_BYTES :: nat where "MAGIC_BYTES = 3"
definition MIN_ENVELOPE_BYTES :: nat where "MIN_ENVELOPE_BYTES = MAGIC_BYTES + 1 + NONCE_BYTES + TAG_BYTES"

definition parse_envelope :: "bytes \<Rightarrow> bytes \<Rightarrow> int \<Rightarrow> cfault + envelope" where
  "parse_envelope blob magic version =
     (if length blob < MIN_ENVELOPE_BYTES then Inl CryptoError
      else if length magic \<noteq> MAGIC_BYTES then Inl CryptoError
      else if take MAGIC_BYTES blob \<noteq> magic then Inl CryptoError
      else if int (blob ! MAGIC_BYTES) \<noteq> version then Inl CryptoError
      else Inr \<lparr>ev_magic = take MAGIC_BYTES blob, ev_version = int (blob ! MAGIC_BYTES),
                ev_nonce = take NONCE_BYTES (drop (MAGIC_BYTES + 1) blob), ev_body = drop (MAGIC_BYTES + 1 + NONCE_BYTES) blob\<rparr>)"

definition validate_envelope :: "bytes \<Rightarrow> bytes \<Rightarrow> int \<Rightarrow> cfault + unit" where
  "validate_envelope blob magic version = (case parse_envelope blob magic version of Inl e \<Rightarrow> Inl e | Inr _ \<Rightarrow> Inr ())"

definition pack_envelope :: "bytes \<Rightarrow> bytes \<Rightarrow> bytes \<Rightarrow> int \<Rightarrow> cfault + bytes" where
  "pack_envelope nonce body magic version =
     (if length nonce \<noteq> NONCE_BYTES then Inl CryptoError
      else if length magic \<noteq> MAGIC_BYTES then Inl CryptoError
      else if \<not> (0 \<le> version \<and> version \<le> 255) then Inl CryptoError
      else Inr (magic @ [nat version] @ nonce @ body))"

definition encrypt_envelope :: "aead \<Rightarrow> bytes \<Rightarrow> bytes \<Rightarrow> bytes \<Rightarrow> bytes \<Rightarrow> int \<Rightarrow> cfault + bytes" where
  "encrypt_envelope g key nonce plaintext magic version =
     (if length key \<noteq> 32 then Inl CryptoError else pack_envelope nonce (g_seal g key nonce plaintext []) magic version)"

definition decrypt_envelope :: "aead \<Rightarrow> bytes \<Rightarrow> bytes \<Rightarrow> bytes \<Rightarrow> int \<Rightarrow> cfault + bytes" where
  "decrypt_envelope g key blob magic version =
     (if length key \<noteq> 32 then Inl CryptoError
      else case parse_envelope blob magic version of
             Inl e \<Rightarrow> Inl e
           | Inr parsed \<Rightarrow> (case g_open g key (ev_nonce parsed) (ev_body parsed) [] of None \<Rightarrow> Inl CryptoError | Some p \<Rightarrow> Inr p))"

section \<open>Passwords\<close>

text \<open>bcrypt: hashing with a salt and checking, which may refuse a malformed hash; and \<open>int()\<close> of a text.\<close>

record bcrypt =
  bc_hash :: "bytes \<Rightarrow> nat \<Rightarrow> bytes \<Rightarrow> codes"
  bc_check :: "bytes \<Rightarrow> bytes \<Rightarrow> bool option"

definition MAX_PASSWORD_BYTES :: nat where "MAX_PASSWORD_BYTES = 72"

definition encode_password :: "codes \<Rightarrow> cfault + bytes" where
  "encode_password password =
     (case encode_utf8 password of
        None \<Rightarrow> Inl OtherException
      | Some raw \<Rightarrow> if MAX_PASSWORD_BYTES < length raw then Inl CryptoError else Inr raw)"

definition hash_password :: "bcrypt \<Rightarrow> nat \<Rightarrow> bytes \<Rightarrow> codes \<Rightarrow> cfault + codes" where
  "hash_password b rounds random password =
     (case encode_password password of Inl e \<Rightarrow> Inl e | Inr raw \<Rightarrow> Inr (bc_hash b raw rounds random))"

text \<open>\<open>UnicodeEncodeError\<close> is a \<open>ValueError\<close>, so every refusal counts as a wrong password.\<close>

definition verify_password :: "bcrypt \<Rightarrow> codes \<Rightarrow> codes \<Rightarrow> bool" where
  "verify_password b password stored =
     (case (encode_password password, encode_utf8 stored) of
        (Inr raw, Some s) \<Rightarrow> (case bc_check b raw s of None \<Rightarrow> False | Some r \<Rightarrow> r)
      | _ \<Rightarrow> False)"

definition needs_rehash :: "(codes \<Rightarrow> int option) \<Rightarrow> nat \<Rightarrow> codes \<Rightarrow> bool" where
  "needs_rehash int_of rounds stored =
     (let parts = split_on 36 stored
      in if length parts \<le> 2 then True
         else case int_of (parts ! 2) of None \<Rightarrow> True | Some cost \<Rightarrow> cost < int rounds)"

section \<open>Base64 reads back\<close>

lemma b64_value_char [simp]: "n < 64 \<Longrightarrow> b64_value (b64_char n) = Some n"
  by (auto simp: b64_value_def b64_char_def)

lemma b64_char_not_pad [simp]: "n < 64 \<Longrightarrow> b64_char n \<noteq> 61"
  by (auto simp: b64_char_def)

lemma b64_char_ascii: "n < 64 \<Longrightarrow> b64_char n < 128"
  by (auto simp: b64_char_def)

lemma byte_parts:
  assumes "a < (256::nat)"
  shows "a div 4 < 64" "a mod 4 * 16 < 64" "a mod 16 * 4 < 64" "a mod 64 < 64" "a div 16 < 16" "a div 64 < 4"
proof -
  have "a mod 4 < 4" "a mod 16 < 16" by simp_all
  then show "a mod 4 * 16 < 64" "a mod 16 * 4 < 64" by linarith+
qed (use assms in \<open>simp_all add: div_less_iff_less_mult\<close>)

lemma join_split: "y < 16 \<Longrightarrow> (x * 16 + y) div 16 = x \<and> (x * 16 + y) mod 16 = (y::nat)" "y < 4 \<Longrightarrow> (x * 4 + y) div 4 = x \<and> (x * 4 + y) mod 4 = (y::nat)"
  by simp_all

lemma b64_sextets:
  assumes a: "a < 256" and b: "b < (256::nat)"
  shows "a mod 4 * 16 + b div 16 < 64" "a mod 16 * 4 + b div 64 < 64"
    "(a mod 4 * 16 + b div 16) div 16 = a mod 4" "(a mod 4 * 16 + b div 16) mod 16 = b div 16"
    "(a mod 16 * 4 + b div 64) div 4 = a mod 16" "(a mod 16 * 4 + b div 64) mod 4 = b div 64"
proof -
  have "a mod 4 < 4" "a mod 16 < 16" by simp_all
  then show "a mod 4 * 16 + b div 16 < 64" "a mod 16 * 4 + b div 64 < 64" using byte_parts(5,6) [OF b] by linarith+
qed (use join_split(1) [OF byte_parts(5) [OF b]] join_split(2) [OF byte_parts(6) [OF b]] in blast)+

lemma b64_joins: "a div 4 * 4 + a mod 4 = (a::nat)" "b div 16 * 16 + b mod 16 = (b::nat)" "c div 64 * 64 + c mod 64 = (c::nat)"
  by (rule div_mult_mod_eq)+

text \<open>One group: the decoder gives back its three bytes and starts afresh.\<close>

lemma a2b_group:
  assumes "a < 256" "b < 256" "c < (256::nat)"
  shows "a2b s 0 left pads False (b64_char (a div 4) # b64_char (a mod 4 * 16 + b div 16) # b64_char (b mod 16 * 4 + c div 64) # b64_char (c mod 64) # r)
    = map_option (\<lambda>x. a # b # c # x) (a2b s 0 0 0 False r)"
  by (simp add: byte_parts(1) [OF assms(1)] byte_parts(4) [OF assms(3)] b64_sextets(1,3,4) [OF assms(1,2)] b64_sextets(2,5,6) [OF assms(2,3)]
      mod_less [OF byte_parts(5) [OF assms(2)]] mod_less [OF byte_parts(6) [OF assms(3)]] b64_joins option.map_comp comp_def)

lemma a2b_encode: "is_bytes bs \<Longrightarrow> a2b s 0 left pads False (b64encode bs) = Some bs"
proof (induction bs arbitrary: left pads rule: b64encode.induct)
  case (2 a)
  then have a: "a < 256" by (simp add: is_bytes_def)
  show ?case by (simp add: byte_parts(1,2) [OF a] b64_joins)
next
  case (3 a b)
  then have a: "a < 256" "b < 256" by (simp_all add: is_bytes_def)
  show ?case by (simp add: byte_parts(1) [OF a(1)] byte_parts(3) [OF a(2)] b64_sextets(1,3,4) [OF a] mod_less [OF byte_parts(5) [OF a(2)]] b64_joins)
next
  case (4 a b c r)
  then show ?case unfolding b64encode.simps by (subst a2b_group) (simp_all add: is_bytes_def)
qed simp

lemma b64encode_ascii: "is_bytes bs \<Longrightarrow> list_all (\<lambda>c. c < 128) (b64encode bs)"
proof (induction bs rule: b64encode.induct)
  case (2 a)
  then show ?case by (simp add: is_bytes_def b64_char_ascii byte_parts(1,2))
next
  case (3 a b)
  then show ?case by (simp add: is_bytes_def b64_char_ascii byte_parts(1,3) b64_sextets(1))
next
  case (4 a b c r)
  then show ?case by (simp add: is_bytes_def b64_char_ascii byte_parts(1) b64_sextets(1,2))
qed simp

lemma b64decode_encode: "is_bytes bs \<Longrightarrow> b64decode (b64encode bs) = Some bs"
  by (simp add: b64decode_def b64encode_ascii a2b_encode)


lemma length_b64encode: "length (b64encode bs) mod 4 = 0"
  by (induction bs rule: b64encode.induct) simp_all

text \<open>In the URL form the padding is cut and put back.\<close>

lemma plain_url_char: "n < 64 \<Longrightarrow> plain_char (url_char (b64_char n)) = b64_char n" "n < 64 \<Longrightarrow> url_char (b64_char n) \<noteq> 61"
  "n < 64 \<Longrightarrow> url_char (b64_char n) < 128"
  by (auto simp: plain_char_def url_char_def b64_char_def)

lemma rstrip_stop: "x \<noteq> 61 \<Longrightarrow> rstrip_with (\<lambda>c. c = 61) (xs @ [x]) = xs @ [x]" "rstrip_with (\<lambda>c. c = (61::nat)) (xs @ [61]) = rstrip_with (\<lambda>c. c = 61) xs"
  by (simp_all add: rstrip_with_def)

lemma rstrip_Cons: "rstrip_with (\<lambda>c. c = 61) xs \<noteq> [] \<Longrightarrow> rstrip_with (\<lambda>c. c = (61::nat)) (x # xs) = x # rstrip_with (\<lambda>c. c = 61) xs"
  by (simp add: rstrip_with_def dropWhile_append)

definition pad_up :: "codes \<Rightarrow> codes" where
  "pad_up v = v @ replicate ((4 - length v mod 4) mod 4) 61"

lemma pad_up_group: "pad_up (a # b # c # d # v) = a # b # c # d # pad_up v"
  by (simp add: pad_up_def)

lemma url_group:
  assumes "a < 256" "b < 256" "c < 256"
  shows "b64url_encode (a # b # c # r) = map url_char [b64_char (a div 4), b64_char (a mod 4 * 16 + b div 16), b64_char (b mod 16 * 4 + c div 64),
    b64_char (c mod 64)] @ b64url_encode r"
proof -
  have "rstrip_with (\<lambda>c. c = 61) (xs @ ys) = xs @ rstrip_with (\<lambda>c. c = (61::nat)) ys" if "xs \<noteq> [] \<Longrightarrow> List.last xs \<noteq> 61" for xs ys
    using that by (cases xs rule: rev_cases) (auto simp: rstrip_with_def dropWhile_append)
  from this [of "map url_char [b64_char (a div 4), b64_char (a mod 4 * 16 + b div 16), b64_char (b mod 16 * 4 + c div 64), b64_char (c mod 64)]"
      "map url_char (b64encode r)"]
  show ?thesis using plain_url_char(2) [OF byte_parts(4) [OF assms(3)]] by (simp add: b64url_encode_def)
qed

lemma url_padded: "is_bytes bs \<Longrightarrow> map plain_char (pad_up (b64url_encode bs)) = b64encode bs \<and> list_all (\<lambda>c. c < 128) (pad_up (b64url_encode bs))"
proof (induction bs rule: b64encode.induct)
  case 1
  then show ?case by (simp add: b64url_encode_def rstrip_with_def pad_up_def)
next
  case (2 a)
  then have a: "a < 256" by (simp add: is_bytes_def)
  have "b64url_encode [a] = map url_char [b64_char (a div 4), b64_char (a mod 4 * 16)]"
    using plain_url_char(2) [OF byte_parts(2) [OF a]] by (simp add: b64url_encode_def rstrip_with_def url_char_def [of 61])
  then show ?case
    using plain_url_char [OF byte_parts(1) [OF a]] plain_url_char [OF byte_parts(2) [OF a]]
    by (simp add: pad_up_def plain_char_def [of 61] numeral_2_eq_2)
next
  case (3 a b)
  then have a: "a < 256" "b < 256" by (simp_all add: is_bytes_def)
  have "b64url_encode [a, b] = map url_char [b64_char (a div 4), b64_char (a mod 4 * 16 + b div 16), b64_char (b mod 16 * 4)]"
    using plain_url_char(2) [OF byte_parts(3) [OF a(2)]] by (simp add: b64url_encode_def rstrip_with_def url_char_def [of 61])
  then show ?case
    using plain_url_char [OF byte_parts(1) [OF a(1)]] plain_url_char [OF byte_parts(3) [OF a(2)]] plain_url_char [OF b64_sextets(1) [OF a]]
    by (simp add: pad_up_def plain_char_def [of 61])
next
  case (4 a b c r)
  then have a: "a < 256" "b < 256" "c < 256" and r: "is_bytes r" by (simp_all add: is_bytes_def)
  show ?case unfolding url_group [OF a] using 4(1) [OF r]
    plain_url_char [OF byte_parts(1) [OF a(1)]] plain_url_char [OF byte_parts(4) [OF a(3)]]
    plain_url_char [OF b64_sextets(1) [OF a(1,2)]] plain_url_char [OF b64_sextets(2) [OF a(2,3)]]
    by (simp add: pad_up_group)
qed

lemma b64url_reads_back: "is_bytes bs \<Longrightarrow> b64url_decode (b64url_encode bs) = Inr bs"
  using url_padded [of bs] by (simp add: b64url_decode_def Let_def pad_up_def a2b_encode)


section \<open>The key cache\<close>

text \<open>A cache that holds only what would be read again.\<close>

definition key_read :: "field_crypto \<Rightarrow> string \<Rightarrow> cfault + bytes" where
  "key_read c i =
     (case assert_key_id i of
        Inl e \<Rightarrow> Inl e
      | Inr _ \<Rightarrow>
          (case map_of (k_keys c) i of
             None \<Rightarrow> Inl CryptoError
           | Some variable \<Rightarrow> if variable = [] then Inl CryptoError else material c variable))"

definition cache_ok :: "field_crypto \<Rightarrow> key_cache \<Rightarrow> bool" where
  "cache_ok c cache \<longleftrightarrow> (\<forall>i k. map_of cache i = Some k \<longrightarrow>
     (if i = INDEX_CACHE_ID then k_index_var c \<noteq> [] \<and> material c (k_index_var c) = Inr k else key_read c i = Inr k))"

lemma cache_ok_empty [simp]: "cache_ok c []"
  by (simp add: cache_ok_def)

lemma cache_ok_update:
  "cache_ok c cache \<Longrightarrow> (if i = INDEX_CACHE_ID then k_index_var c \<noteq> [] \<and> material c (k_index_var c) = Inr k else key_read c i = Inr k)
    \<Longrightarrow> cache_ok c (AList.update i k cache)"
  unfolding cache_ok_def update_conv' fun_upd_def by (metis option.inject)

lemma index_id_no_key: "\<not> key_id_re INDEX_CACHE_ID"
  by code_simp

text \<open>Looking a key up in the cache first is the same as reading it each time, and keeps the cache right.\<close>

lemma key_for_cached:
  assumes "cache_ok c cache" "key_for c i cache = (r, cache1)"
  shows "r = key_read c i \<and> cache_ok c cache1"
proof (cases "key_id_re i")
  case False
  then show ?thesis using assms by (simp add: key_for_def key_read_def assert_key_id_def)
next
  case True
  then have i: "i \<noteq> INDEX_CACHE_ID" using index_id_no_key by blast
  show ?thesis
  proof (cases "map_of cache i")
    case (Some k)
    then have "key_read c i = Inr k" using assms(1) i unfolding cache_ok_def by metis
    then show ?thesis using assms Some True by (simp add: key_for_def assert_key_id_def)
  next
    case None
    show ?thesis
    proof (cases "key_read c i")
      case (Inl e)
      then show ?thesis using assms None True
        by (auto simp: key_for_def key_read_def assert_key_id_def split: option.splits if_splits sum.splits)
    next
      case (Inr k)
      then have "r = Inr k" "cache1 = AList.update i k cache" using assms None True
        by (auto simp: key_for_def key_read_def assert_key_id_def split: option.splits if_splits sum.splits)
      then show ?thesis using cache_ok_update [OF assms(1), of i k] Inr i by simp
    qed
  qed
qed

lemma index_key_cached:
  assumes "cache_ok c cache" "index_key c cache = (r, cache1)"
  shows "r = (if k_index_var c = [] then Inl CryptoError else material c (k_index_var c)) \<and> cache_ok c cache1"
proof (cases "map_of cache INDEX_CACHE_ID")
  case (Some k)
  then have "k_index_var c \<noteq> [] \<and> material c (k_index_var c) = Inr k" using assms(1) unfolding cache_ok_def by metis
  then show ?thesis using assms Some by (simp add: index_key_def)
next
  case None
  show ?thesis
  proof (cases "k_index_var c = []")
    case False
    then show ?thesis using assms None cache_ok_update [OF assms(1), of INDEX_CACHE_ID]
      by (cases "material c (k_index_var c)") (auto simp: index_key_def)
  qed (use assms None in \<open>auto simp: index_key_def\<close>)
qed

lemma key_read_length: "key_read c i = Inr k \<Longrightarrow> length k = KEY_BYTES \<and> key_id_re i"
  by (auto simp: key_read_def material_def assert_key_id_def split: option.splits if_splits sum.splits)

section \<open>Round trips\<close>

lemma key_id_codes:
  assumes "key_id_re i"
  shows "58 \<notin> set (to_text i)" "list_all (\<lambda>c. c < 128) (to_text i)" "map char_of (to_text i) = i"
proof -
  have "\<forall>c \<in> set i. key_id_char c \<or> c = CHR 0x0A"
    using assms by (cases i rule: rev_cases) (auto simp: key_id_re_def Let_def list_all_iff split: if_splits)
  moreover have "key_id_char c \<or> c = CHR 0x0A \<Longrightarrow> code c < 128 \<and> code c \<noteq> 58" for c
    by (auto simp: key_id_char_def is_lower_def is_digit_def code_def)
  ultimately have "\<forall>c \<in> set i. code c < 128 \<and> code c \<noteq> 58" by blast
  then show "58 \<notin> set (to_text i)" "list_all (\<lambda>c. c < 128) (to_text i)" by (auto simp: to_text_def list_all_iff)
  show "map char_of (to_text i) = i" by (simp add: to_text_def code_def comp_def)
qed

lemma split_value_made:
  assumes "key_id_re i" "payload \<noteq> []"
  shows "split_value (value_prefix VERSION @ to_text i @ [58] @ payload) = Inr (Some (i, payload))"
  using key_id_codes [OF assms(1)] assms partition_on_append [of 58 "to_text i" payload]
  by (simp add: split_value_def starts_with_def)

lemma decode_encode_utf8: "encode_utf8 t = Some b \<Longrightarrow> decode_strict b = Some t"
  using decode_encode [of t] by (auto simp: decode_strict_def encode_utf8_def Let_def split: if_splits)

lemma utf8_is_bytes: "encode_utf8 t = Some b \<Longrightarrow> is_bytes b"
proof -
  have "\<forall>x \<in> set (utf8_char n). x < 256" if "scalar n" for n
    using that by (auto simp: utf8_char_def scalar_def)
  then have "\<forall>n \<in> set t. scalar n \<Longrightarrow> \<forall>x \<in> set (utf8 t). x < 256" unfolding utf8_def by fastforce
  then show "encode_utf8 t = Some b \<Longrightarrow> is_bytes b"
    by (auto simp: encode_utf8_def is_bytes_def list_all_iff split: if_splits)
qed


lemma open_sealed:
  assumes g: "aead_ok g" and n: "length nonce = NONCE_BYTES" "is_bytes nonce" and k: "key_read c i = Inr key" and t: "encode_utf8 t = Some raw"
    and cache: "cache_ok c cache"
  shows "fst (open_payload g c i (b64encode (nonce @ g_seal g key nonce raw (aad i))) cache) = Inr t"
proof -
  let ?s = "g_seal g key nonce raw (aad i)"
  have s: "g_open g key nonce ?s (aad i) = Some raw" "length ?s = length raw + TAG_BYTES" "is_bytes ?s"
    using g n key_read_length [OF k] utf8_is_bytes [OF t] unfolding aead_ok_def by blast+
  have d: "b64decode (b64encode (nonce @ ?s)) = Some (nonce @ ?s)" using n s by (intro b64decode_encode) (simp add: is_bytes_def)
  obtain r cache1 where r: "key_for c i cache = (r, cache1)" by (rule prod.exhaust)
  then have "r = Inr key" using key_for_cached [OF cache r] k by simp
  then show ?thesis using d r s n decode_encode_utf8 [OF t] by (simp add: open_payload_def)
qed

lemma encrypt_decrypt:
  assumes "aead_ok g" "length nonce = NONCE_BYTES" "is_bytes nonce" "cache_ok c cache" "cache_ok c later"
    and "encrypt_field g c nonce t key_id cache = (Inr v, cache1)"
  shows "fst (decrypt_field g c (Some v) later) = Inr (Some t) \<and> is_encrypted (Some v) \<and> cache_ok c cache1
    \<and> (\<exists>i. key_id_of (Some v) = Inr (Some i) \<and> (case key_id of Some k \<Rightarrow> k = [] \<or> i = k | None \<Rightarrow> i = k_current c))"
proof -
  obtain i where i: "(case key_id of Some k \<Rightarrow> (if k = [] then current_key_id c else Inr k) | None \<Rightarrow> current_key_id c) = Inr i"
    using assms(6) by (auto simp: encrypt_field_def split: sum.splits)
  obtain x where x: "key_for c i cache = (x, cache1)" using assms(6) i
    by (cases "key_for c i cache") (auto simp: encrypt_field_def split: sum.splits option.splits)
  obtain key raw where k: "x = Inr key" and t: "encode_utf8 t = Some raw"
    and v: "v = value_prefix VERSION @ to_text i @ [58] @ b64encode (nonce @ g_seal g key nonce raw (aad i))"
    using assms(6) i x by (auto simp: encrypt_field_def split: sum.splits option.splits)
  have ref: "key_read c i = Inr key" and ok: "cache_ok c cache1" using key_for_cached [OF assms(4) x] k by simp_all
  have ne: "b64encode (nonce @ g_seal g key nonce raw (aad i)) \<noteq> []"
    using assms(2) by (cases nonce rule: b64encode.cases) (simp_all add: NONCE_BYTES_def)
  have sp: "split_value v = Inr (Some (i, b64encode (nonce @ g_seal g key nonce raw (aad i))))"
    unfolding v using key_read_length [OF ref] ne by (intro split_value_made) simp_all
  have "v \<noteq> []" unfolding v by simp
  then have "fst (decrypt_field g c (Some v) later) = Inr (Some t)"
    using sp open_sealed [OF assms(1-3) ref t assms(5)] by (auto simp: decrypt_field_def split: prod.split sum.split)
  moreover have "is_encrypted (Some v)" by (simp add: is_encrypted_def starts_with_def v)
  moreover have "key_id_of (Some v) = Inr (Some i)" using sp \<open>v \<noteq> []\<close> by (simp add: key_id_of_def)
  moreover have "case key_id of Some k \<Rightarrow> k = [] \<or> i = k | None \<Rightarrow> i = k_current c"
    using i by (auto simp: current_key_id_def assert_key_id_def split: option.splits if_splits)
  ultimately show ?thesis using ok by blast
qed

text \<open>
  C9. What is encrypted reads back: whatever keys were read before, a value made by \<open>encrypt\<close> is
  recognised as encrypted, names the key it is under, and \<open>decrypt\<close> returns exactly the text that
  went in, whatever characters it holds.
\<close>

theorem encrypt_decrypt_roundtrip:
  assumes "aead_ok g" "length nonce = NONCE_BYTES" "is_bytes nonce" "cache_ok c cache" "cache_ok c later"
    and "encrypt_field g c nonce t key_id cache = (Inr v, cache1)"
  shows "fst (decrypt_field g c (Some v) later) = Inr (Some t) \<and> is_encrypted (Some v) \<and> cache_ok c cache1
    \<and> (\<exists>i. key_id_of (Some v) = Inr (Some i) \<and> (case key_id of Some k \<Rightarrow> k = [] \<or> i = k | None \<Rightarrow> i = k_current c))"
  by (rule encrypt_decrypt [OF assms])

text \<open>
  The envelope reads back: what \<open>encrypt\<close> packs passes \<open>validate\<close> without the key and opens
  with it to the same bytes, and a key in its URL form is the same key.
\<close>

theorem envelope_roundtrip:
  assumes "aead_ok g" "length nonce = NONCE_BYTES" "is_bytes nonce" "is_bytes p" "is_bytes key"
    and "encrypt_envelope g key nonce p magic version = Inr blob"
  shows "decrypt_envelope g key blob magic version = Inr p \<and> validate_envelope blob magic version = Inr ()
    \<and> b64url_decode (b64url_encode key) = Inr key \<and> length blob = MIN_ENVELOPE_BYTES + length p"
proof -
  let ?s = "g_seal g key nonce p []"
  have k: "length key = 32" and m: "length magic = MAGIC_BYTES" and ver: "0 \<le> version" "version \<le> 255" and b: "blob = magic @ [nat version] @ nonce @ ?s"
    using assms(6) by (auto simp: encrypt_envelope_def pack_envelope_def split: if_splits)
  have s: "g_open g key nonce ?s [] = Some p" "length ?s = length p + TAG_BYTES"
    using assms(1-4) k unfolding aead_ok_def KEY_BYTES_def by blast+
  have "parse_envelope blob magic version = Inr \<lparr>ev_magic = magic, ev_version = version, ev_nonce = nonce, ev_body = ?s\<rparr>"
    using m ver s(2) assms(2) unfolding b by (simp add: parse_envelope_def MIN_ENVELOPE_BYTES_def nth_append)
  then show ?thesis
    using s k m assms(2,5) b by (simp add: decrypt_envelope_def validate_envelope_def b64url_reads_back MIN_ENVELOPE_BYTES_def)
qed

text \<open>
  A password longer than bcrypt reads is refused when it is set and never accepted, so two
  passwords never share a hash by their first 72 bytes.
\<close>

lemma long_password:
  assumes "encode_utf8 password = Some raw" "72 < length raw"
  shows "hash_password b rounds random password = Inl CryptoError \<and> \<not> verify_password b password stored"
  using assms by (simp add: hash_password_def verify_password_def encode_password_def MAX_PASSWORD_BYTES_def split: option.split)


section \<open>Witnesses\<close>

text \<open>A cipher that leaves the text as it is and appends sixteen zeros.\<close>

definition demo_aead :: aead where
  "demo_aead = \<lparr>g_seal = (\<lambda>k n p a. p @ replicate 16 0), g_open = (\<lambda>k n b a. if length b < 16 then None else Some (take (length b - 16) b))\<rparr>"

lemma demo_aead_ok: "aead_ok demo_aead"
  by (simp add: aead_ok_def demo_aead_def TAG_BYTES_def is_bytes_def list_all_iff)

definition demo_crypto :: field_crypto where
  "demo_crypto = \<lparr>k_current = ''k2'', k_keys = [(''k1'', ''KEY_ONE''), (''k2'', ''KEY_TWO'')], k_index_var = [],
     k_env = (\<lambda>v. Some (generate_field_key (replicate 32 0)))\<rparr>"

definition demo_nonce :: bytes where "demo_nonce = replicate 12 7"

lemma demo_nonce_ok: "length demo_nonce = NONCE_BYTES" "is_bytes demo_nonce"
  by (simp_all add: demo_nonce_def NONCE_BYTES_def is_bytes_def list_all_iff)

lemma demo_key_ids: "key_id_re ''k1''" "key_id_re ''k2''"
  by code_simp+

lemma demo_material: "material demo_crypto v = Inr (replicate 32 0)"
proof -
  have d: "b64decode (b64encode (replicate 32 0)) = Some (replicate 32 0)" by (rule b64decode_encode) (simp add: is_bytes_def list_all_iff)
  moreover have "b64decode [] = Some []" by (simp add: b64decode_def)
  ultimately have "b64encode (replicate 32 0) \<noteq> []" by (metis length_0_conv length_replicate option.inject zero_neq_numeral)
  with d show ?thesis by (simp add: material_def demo_crypto_def generate_field_key_def KEY_BYTES_def)
qed

lemma demo_encrypts: "\<not> isl (fst (encrypt_field demo_aead demo_crypto demo_nonce [381, 65] None []))"
proof -
  have "key_for demo_crypto ''k2'' [] = (Inr (replicate 32 0), [(''k2'', replicate 32 0)])"
    using demo_material by (simp add: key_for_def assert_key_id_def demo_key_ids) (simp add: demo_crypto_def)
  then show ?thesis
    by (simp add: encrypt_field_def current_key_id_def assert_key_id_def demo_key_ids encode_utf8_def scalar_def demo_crypto_def)
qed

theorem encrypt_decrypt_roundtrip_witness:
  "\<exists>v. fst (encrypt_field demo_aead demo_crypto demo_nonce [381, 65] None []) = Inr v
    \<and> fst (decrypt_field demo_aead demo_crypto (Some v) []) = Inr (Some [381, 65]) \<and> key_id_of (Some v) = Inr (Some ''k2'')"
proof -
  obtain v cache1 where v: "encrypt_field demo_aead demo_crypto demo_nonce [381, 65] None [] = (Inr v, cache1)"
    using demo_encrypts by (metis isl_def prod.collapse sum.collapse(2))
  show ?thesis
    using encrypt_decrypt_roundtrip [OF demo_aead_ok demo_nonce_ok cache_ok_empty cache_ok_empty v] v
    by (auto simp: demo_crypto_def)
qed

theorem envelope_roundtrip_witness:
  "\<exists>blob. encrypt_envelope demo_aead (replicate 32 1) demo_nonce [1, 2, 3] [67, 80, 69] 1 = Inr blob
    \<and> decrypt_envelope demo_aead (replicate 32 1) blob [67, 80, 69] 1 = Inr [1, 2, 3] \<and> validate_envelope blob [67, 80, 69] 1 = Inr ()"
proof -
  obtain blob where b: "encrypt_envelope demo_aead (replicate 32 1) demo_nonce [1, 2, 3] [67, 80, 69] 1 = Inr blob"
    by (simp add: encrypt_envelope_def pack_envelope_def demo_nonce_ok MAGIC_BYTES_def)
  show ?thesis
    using envelope_roundtrip [OF demo_aead_ok demo_nonce_ok _ _ b] b by (simp add: is_bytes_def list_all_iff)
qed

end
