(* ===== verification/Crypto_Rotate.thy ===== *)
theory Crypto_Rotate
  imports Crypto_Fields Queue_Pg
begin

text \<open>
  Re-encrypting a column: \<open>crypto/commands.py\<close> and \<open>crypto/_service.py\<close>. The table is the list of its
  identifiers with the value of the column. Each statement is a visit of the database at which other
  sessions may have written first, and which may fail. The loop over the pages takes fuel; one page
  more than there are rows is enough when nobody adds rows meanwhile.
\<close>

section \<open>The table\<close>

type_synonym crow = "int \<times> codes option"

record cvisit =
  y_down :: bool
  y_others :: "crow list \<Rightarrow> crow list"

record column =
  c_rows :: "crow list"
  c_visits :: "nat \<Rightarrow> cvisit"
  c_nonces :: "nat \<Rightarrow> bytes"
  c_cache :: key_cache
  c_done :: nat

text \<open>\<open>c_done\<close> counts the statements that have been sent, for the properties to refer to; nothing reads it.\<close>

definition visit_column :: "(crow list \<Rightarrow> 'a \<times> crow list) \<Rightarrow> column \<Rightarrow> 'a option \<times> column" where
  "visit_column statement w =
     (let v = c_visits w 0; rows = y_others v (c_rows w); w1 = w\<lparr>c_rows := rows, c_visits := (\<lambda>n. c_visits w (Suc n)), c_done := Suc (c_done w)\<rparr>
      in if y_down v then (None, w1) else let (a, rows1) = statement rows in (Some a, w1\<lparr>c_rows := rows1\<rparr>))"

text \<open>The next page in the order of the identifiers, and the write that is conditional on the value read.\<close>

definition page :: "nat \<Rightarrow> int option \<Rightarrow> crow list \<Rightarrow> crow list" where
  "page batch cursor rows = take batch (sort_key fst (filter (\<lambda>r. case cursor of None \<Rightarrow> True | Some c \<Rightarrow> c < fst r) rows))"

definition write_row :: "codes \<Rightarrow> int \<Rightarrow> codes \<Rightarrow> crow list \<Rightarrow> nat \<times> crow list" where
  "write_row fresh row_id old rows =
     (length (filter (\<lambda>r. r = (row_id, Some old)) rows), map (\<lambda>r. if r = (row_id, Some old) then (row_id, Some fresh) else r) rows)"

section \<open>The command\<close>

record tally =
  t_seen :: nat
  t_rotated :: nat
  t_changed :: nat
  t_plaintext :: nat

definition no_tally :: tally where
  "no_tally = \<lparr>t_seen = 0, t_rotated = 0, t_changed = 0, t_plaintext = 0\<rparr>"

datatype halt = Code int | Raised

definition halt_of :: "cfault \<Rightarrow> halt" where
  "halt_of e = (case e of CryptoError \<Rightarrow> Code 1 | OtherException \<Rightarrow> Raised)"

text \<open>\<open>crypto.encrypt(str(crypto.decrypt(value)), current)\<close>: the next random bytes are used up when it gets that far.\<close>

definition reencrypt :: "aead \<Rightarrow> field_crypto \<Rightarrow> string \<Rightarrow> codes \<Rightarrow> column \<Rightarrow> (cfault + codes) \<times> column" where
  "reencrypt g c current v w =
     (case decrypt_field g c (Some v) (c_cache w) of
        (Inl e, cache1) \<Rightarrow> (Inl e, w\<lparr>c_cache := cache1\<rparr>)
      | (Inr t, cache1) \<Rightarrow>
          (case encrypt_field g c (c_nonces w 0) (case t of Some p \<Rightarrow> p | None \<Rightarrow> to_text ''None'') (Some current) cache1 of
             (r, cache2) \<Rightarrow> (r, w\<lparr>c_cache := cache2, c_nonces := (\<lambda>n. c_nonces w (Suc n))\<rparr>)))"

definition rotate_row :: "aead \<Rightarrow> field_crypto \<Rightarrow> string \<Rightarrow> bool \<Rightarrow> crow \<Rightarrow> tally \<Rightarrow> column \<Rightarrow> halt option \<times> tally \<times> column" where
  "rotate_row g c current dry row n w =
     (let n1 = n\<lparr>t_seen := t_seen n + 1\<rparr>
      in case snd row of
           None \<Rightarrow> (None, n1, w)
         | Some v \<Rightarrow>
             if v = [] then (None, n1, w)
             else (case key_id_of (Some v) of
                     Inl e \<Rightarrow> (Some (halt_of e), n1, w)
                   | Inr None \<Rightarrow> (None, n1\<lparr>t_plaintext := t_plaintext n1 + 1\<rparr>, w)
                   | Inr (Some found) \<Rightarrow>
                       if found = current then (None, n1, w)
                       else if dry then (None, n1\<lparr>t_rotated := t_rotated n1 + 1\<rparr>, w)
                       else (case reencrypt g c current v w of
                               (Inl e, w1) \<Rightarrow> (Some (halt_of e), n1, w1)
                             | (Inr fresh, w1) \<Rightarrow>
                                 (case visit_column (write_row fresh (fst row) v) w1 of
                                    (None, w2) \<Rightarrow> (Some (Code 1), n1, w2)
                                  | (Some written, w2) \<Rightarrow>
                                      if written = 0 then (None, n1\<lparr>t_changed := t_changed n1 + 1\<rparr>, w2)
                                      else (None, n1\<lparr>t_rotated := t_rotated n1 + 1\<rparr>, w2)))))"

fun rotate_rows :: "aead \<Rightarrow> field_crypto \<Rightarrow> string \<Rightarrow> bool \<Rightarrow> crow list \<Rightarrow> tally \<Rightarrow> column \<Rightarrow> halt option \<times> tally \<times> column" where
  "rotate_rows g c current dry [] n w = (None, n, w)"
| "rotate_rows g c current dry (row # rows) n w =
     (case rotate_row g c current dry row n w of
        (Some h, n1, w1) \<Rightarrow> (Some h, n1, w1)
      | (None, n1, w1) \<Rightarrow> rotate_rows g c current dry rows n1 w1)"

fun rotate_loop ::
  "nat \<Rightarrow> aead \<Rightarrow> field_crypto \<Rightarrow> string \<Rightarrow> bool \<Rightarrow> nat \<Rightarrow> int option \<Rightarrow> tally \<Rightarrow> column \<Rightarrow> (halt \<times> tally \<times> column) option" where
  "rotate_loop 0 g c current dry batch cursor n w = None"
| "rotate_loop (Suc fuel) g c current dry batch cursor n w =
     (case visit_column (\<lambda>rows. (page batch cursor rows, rows)) w of
        (None, w1) \<Rightarrow> Some (Code 1, n, w1)
      | (Some rows, w1) \<Rightarrow>
          if rows = [] then Some (Code 0, n, w1)
          else (case rotate_rows g c current dry rows n w1 of
                  (Some h, n1, w2) \<Rightarrow> Some (h, n1, w2)
                | (None, n1, w2) \<Rightarrow>
                    if length rows < batch then Some (Code 0, n1, w2)
                    else rotate_loop fuel g c current dry batch (Some (fst (List.last rows))) n1 w2))"

definition column_re :: "string \<Rightarrow> bool" where
  "column_re s = is_ident (chop_newline s)"

definition cmd_rotate ::
  "nat \<Rightarrow> aead \<Rightarrow> field_crypto \<Rightarrow> string \<Rightarrow> string \<Rightarrow> string \<Rightarrow> int \<Rightarrow> bool \<Rightarrow> column \<Rightarrow> (halt \<times> tally \<times> column) option" where
  "cmd_rotate fuel g c table column id_column batch dry w =
     (if \<not> table_re table then Some (Code 2, no_tally, w)
      else if \<not> column_re column then Some (Code 2, no_tally, w)
      else if \<not> column_re id_column then Some (Code 2, no_tally, w)
      else if batch < 1 then Some (Code 2, no_tally, w)
      else case current_key_id c of
             Inl e \<Rightarrow> Some (halt_of e, no_tally, w)
           | Inr current \<Rightarrow> rotate_loop fuel g c current dry (nat batch) None no_tally w)"

section \<open>The service\<close>

record rotate_args =
  ra_step :: string
  ra_db :: "string option"
  ra_table :: string
  ra_column :: string
  ra_id :: string
  ra_batch :: int
  ra_dry_run :: bool

text \<open>
  \<open>init_service\<close>: the exit code of every way out; \<open>connect\<close> opens the database or fails. The step
  \<open>key\<close> needs neither configuration nor database.
\<close>

definition crypto_service ::
  "nat \<Rightarrow> aead \<Rightarrow> (cv \<Rightarrow> string) \<Rightarrow> (string \<Rightarrow> codes option) \<Rightarrow> (cv \<Rightarrow> column option) \<Rightarrow> config \<Rightarrow> rotate_args \<Rightarrow> (int \<times> column option) option" where
  "crypto_service fuel g str_of env connect config a =
     (if ra_step a = ''key'' then Some (0, None)
      else case crypto_from_config str_of env config of
             Inl e \<Rightarrow> Some (1, None)
           | Inr c \<Rightarrow>
               (case get_or config ''db'' (CDict []) of
                  CDict dbs \<Rightarrow>
                    (let db_name = (case ra_db a of Some d \<Rightarrow> (if d = [] then ''main'' else d) | None \<Rightarrow> ''main'')
                     in case map_of dbs db_name of
                          None \<Rightarrow> Some (2, None)
                        | Some db \<Rightarrow>
                            if ra_step a \<noteq> ''rotate'' then Some (1, None)
                            else (case connect db of
                                    None \<Rightarrow> Some (1, None)
                                  | Some w \<Rightarrow>
                                      (case cmd_rotate fuel g c (ra_table a) (ra_column a) (ra_id a) (ra_batch a) (ra_dry_run a) w of
                                         None \<Rightarrow> None
                                       | Some (Code k, n, w1) \<Rightarrow> Some (k, Some w1)
                                       | Some (Raised, n, w1) \<Rightarrow> Some (1, Some w1))))
                | _ \<Rightarrow> Some (1, None)))"


section \<open>What a stored value reads as\<close>

definition reads :: "aead \<Rightarrow> field_crypto \<Rightarrow> codes \<Rightarrow> cfault + codes option" where
  "reads g c v = fst (decrypt_field g c (Some v) [])"

lemma decrypt_cached:
  assumes "cache_ok c cache" "decrypt_field g c (Some v) cache = (r, cache1)"
  shows "r = reads g c v \<and> cache_ok c cache1"
proof -
  have o: "fst (open_payload g c i p cache) = fst (open_payload g c i p []) \<and> cache_ok c (snd (open_payload g c i p cache))" for i p
  proof -
    obtain r1 k1 where k1: "key_for c i cache = (r1, k1)" by (rule prod.exhaust)
    obtain r2 k2 where k2: "key_for c i [] = (r2, k2)" by (rule prod.exhaust)
    have "r1 = r2" "cache_ok c k1" using key_for_cached [OF assms(1) k1] key_for_cached [OF cache_ok_empty k2] by simp_all
    then show ?thesis using k1 k2 assms(1) by (auto simp: open_payload_def split: option.split sum.split)
  qed
  show ?thesis
  proof (cases "v = [] \<or> split_value v = Inr None \<or> isl (split_value v)")
    case True
    then show ?thesis using assms by (auto simp: reads_def decrypt_field_def isl_def split: if_splits)
  next
    case False
    then obtain i p where s: "v \<noteq> []" "split_value v = Inr (Some (i, p))" by (metis isl_def not_None_eq prod.collapse sum.collapse(2))
    obtain x k where x: "open_payload g c i p cache = (x, k)" by (rule prod.exhaust)
    obtain y k0 where y: "open_payload g c i p [] = (y, k0)" by (rule prod.exhaust)
    have "x = y" "cache_ok c k" using o [of i p] x y by simp_all
    then show ?thesis using assms(2) s x y by (cases y) (auto simp: reads_def decrypt_field_def)
  qed
qed

lemma encrypt_cached:
  assumes "cache_ok c cache" "encrypt_field g c nonce t i cache = (r, cache1)"
  shows "cache_ok c cache1"
proof (cases "case i of Some k \<Rightarrow> (if k = [] then current_key_id c else Inr k) | None \<Rightarrow> current_key_id c")
  case (Inl e)
  then show ?thesis using assms by (simp add: encrypt_field_def)
next
  case (Inr k)
  obtain x k1 where x: "key_for c k cache = (x, k1)" by (rule prod.exhaust)
  have "cache1 = k1" using assms(2) Inr x by (auto simp: encrypt_field_def split: sum.splits option.splits)
  then show ?thesis using key_for_cached [OF assms(1) x] by simp
qed

text \<open>What rotate writes reads as the value it replaces, and is under the current key.\<close>

definition steady :: "field_crypto \<Rightarrow> column \<Rightarrow> bool" where
  "steady c w \<longleftrightarrow> cache_ok c (c_cache w) \<and> (\<forall>n. length (c_nonces w n) = NONCE_BYTES \<and> is_bytes (c_nonces w n))"

lemma reencrypt_reads:
  assumes g: "aead_ok g" and w: "steady c w" and v: "v \<noteq> []" and r: "reencrypt g c current v w = (r, w1)"
  shows "steady c w1 \<and> c_rows w1 = c_rows w \<and> c_visits w1 = c_visits w
    \<and> (\<forall>fresh. r = Inr fresh \<longrightarrow> reads g c fresh = reads g c v \<and> \<not> isl (reads g c v)
         \<and> (current \<noteq> [] \<longrightarrow> key_id_of (Some fresh) = Inr (Some current)))"
proof -
  obtain x k1 where d: "decrypt_field g c (Some v) (c_cache w) = (x, k1)" by (rule prod.exhaust)
  have x: "x = reads g c v" and k1: "cache_ok c k1" using decrypt_cached [OF _ d] w by (simp_all add: steady_def)
  show ?thesis
  proof (cases x)
    case (Inl e)
    then show ?thesis using r d w k1 by (auto simp: reencrypt_def steady_def)
  next
    case (Inr t)
    obtain p where p: "t = Some p"
      using Inr d v by (auto simp: decrypt_field_def split: if_splits sum.splits option.splits prod.splits)
    obtain y k2 where e: "encrypt_field g c (c_nonces w 0) p (Some current) k1 = (y, k2)" by (rule prod.exhaust)
    have w1: "w1 = w\<lparr>c_cache := k2, c_nonces := (\<lambda>n. c_nonces w (Suc n))\<rparr>" and ry: "r = y" using r d Inr p e by (auto simp: reencrypt_def)
    have n: "length (c_nonces w 0) = NONCE_BYTES" "is_bytes (c_nonces w 0)" using w by (simp_all add: steady_def)
    have k2: "cache_ok c k2" by (rule encrypt_cached [OF k1 e])
    have "reads g c fresh = Inr (Some p) \<and> (current \<noteq> [] \<longrightarrow> key_id_of (Some fresh) = Inr (Some current))" if "y = Inr fresh" for fresh
      using encrypt_decrypt [OF g n k1 cache_ok_empty e [unfolded that]] by (auto simp: reads_def)
    then show ?thesis using w k2 w1 ry Inr p x by (auto simp: steady_def)
  qed
qed


section \<open>Rotation among other writers\<close>

text \<open>
  Two rows say the same when they have the same value, or values that decrypt to the same text.
\<close>

definition same_row :: "aead \<Rightarrow> field_crypto \<Rightarrow> crow \<Rightarrow> crow \<Rightarrow> bool" where
  "same_row g c r s \<longleftrightarrow> fst r = fst s \<and>
     (snd r = snd s \<or> (\<exists>v u. snd r = Some v \<and> snd s = Some u \<and> \<not> isl (reads g c v) \<and> reads g c u = reads g c v))"

definition same_readings :: "aead \<Rightarrow> field_crypto \<Rightarrow> crow list \<Rightarrow> crow list \<Rightarrow> bool" where
  "same_readings g c = list_all2 (same_row g c)"

text \<open>
  The table as the other sessions alone would have left it after so many statements, and that what they
  do depends on what the rows say and not on the ciphertexts.
\<close>

definition others_only :: "nat \<Rightarrow> column \<Rightarrow> crow list \<Rightarrow> crow list" where
  "others_only k w rows = fold (\<lambda>n. y_others (c_visits w n)) [0..<k] rows"

definition respectful :: "aead \<Rightarrow> field_crypto \<Rightarrow> column \<Rightarrow> bool" where
  "respectful g c w \<longleftrightarrow> (\<forall>n rows rows1. same_readings g c rows rows1 \<longrightarrow>
     same_readings g c (y_others (c_visits w n) rows) (y_others (c_visits w n) rows1))"

definition follows :: "aead \<Rightarrow> field_crypto \<Rightarrow> column \<Rightarrow> column \<Rightarrow> bool" where
  "follows g c w w1 \<longleftrightarrow> (\<exists>k. c_done w1 = c_done w + k \<and> c_visits w1 = (\<lambda>n. c_visits w (n + k)) \<and>
     same_readings g c (c_rows w1) (others_only k w (c_rows w)))"

lemma same_readings_refl [simp]: "same_readings g c rows rows"
  by (simp add: same_readings_def same_row_def list_all2_refl)

lemma same_readings_trans: "same_readings g c a b \<Longrightarrow> same_readings g c b d \<Longrightarrow> same_readings g c a d"
  unfolding same_readings_def by (rule list_all2_trans [of "same_row g c" "same_row g c"]) (auto simp: same_row_def)

lemma others_only_respects:
  assumes "respectful g c w" "same_readings g c rows rows1"
  shows "same_readings g c (others_only k w rows) (others_only k w rows1)"
  using assms(2) unfolding others_only_def by (induction k) (use assms(1) in \<open>auto simp: respectful_def\<close>)

lemma others_only_add:
  assumes "c_visits w1 = (\<lambda>n. c_visits w (n + k))"
  shows "others_only l w1 (others_only k w rows) = others_only (k + l) w rows"
  using assms by (induction l) (simp_all add: others_only_def add.commute)

lemma follows_refl [simp]: "c_rows w1 = c_rows w \<Longrightarrow> c_visits w1 = c_visits w \<Longrightarrow> c_done w1 = c_done w \<Longrightarrow> follows g c w w1"
  by (auto simp: follows_def others_only_def intro!: exI [of _ 0])

lemma follows_respectful: "follows g c w w1 \<Longrightarrow> respectful g c w \<Longrightarrow> respectful g c w1"
  by (auto simp: follows_def respectful_def)

lemma follows_trans:
  assumes r: "respectful g c w" and a: "follows g c w w1" and b: "follows g c w1 w2"
  shows "follows g c w w2"
proof -
  from a obtain k where k: "c_done w1 = c_done w + k" "c_visits w1 = (\<lambda>n. c_visits w (n + k))" "same_readings g c (c_rows w1) (others_only k w (c_rows w))"
    by (auto simp: follows_def)
  from b obtain l where l: "c_done w2 = c_done w1 + l" "c_visits w2 = (\<lambda>n. c_visits w1 (n + l))" "same_readings g c (c_rows w2) (others_only l w1 (c_rows w1))"
    by (auto simp: follows_def)
  have "same_readings g c (others_only l w1 (c_rows w1)) (others_only (k + l) w (c_rows w))"
    using others_only_respects [OF follows_respectful [OF a r] k(3), of l] others_only_add [OF k(2)] by simp
  from same_readings_trans [OF l(3) this] show ?thesis
    using k l by (auto simp: follows_def add.assoc add.commute [of k] intro!: exI [of _ "k + l"])
qed

lemma visit_follows:
  assumes "\<And>rows. same_readings g c (snd (statement rows)) rows" "visit_column statement w = (r, w1)" "steady c w"
  shows "steady c w1 \<and> follows g c w w1"
  using assms(2,3) assms(1) [of "y_others (c_visits w 0) (c_rows w)"]
  by (auto simp: visit_column_def Let_def steady_def follows_def others_only_def split: if_splits prod.splits intro!: exI [of _ 1])

lemma write_same_readings:
  assumes "reads g c fresh = reads g c v" "\<not> isl (reads g c v)"
  shows "same_readings g c (snd (write_row fresh i v rows)) rows"
  using assms by (induction rows) (auto simp: write_row_def same_readings_def same_row_def)

lemma reencrypt_done: "reencrypt g c current v w = (x, w2) \<Longrightarrow> c_done w2 = c_done w"
  by (auto simp: reencrypt_def split: prod.splits sum.splits)

lemma rotate_row_follows:
  assumes g: "aead_ok g" and w: "steady c w" "respectful g c w" and r: "rotate_row g c current dry row n w = (h, n1, w1)"
  shows "steady c w1 \<and> follows g c w w1"
proof (cases "w1 = w")
  case False
  then obtain v where v: "snd row = Some v" "v \<noteq> []" using r by (auto simp: rotate_row_def Let_def split: option.splits if_splits)
  obtain x w2 where x: "reencrypt g c current v w = (x, w2)" by (rule prod.exhaust)
  have k: "steady c w2" "follows g c w w2" and fresh: "\<And>f. x = Inr f \<Longrightarrow> reads g c f = reads g c v \<and> \<not> isl (reads g c v)"
    using reencrypt_reads [OF g w(1) v(2) x] reencrypt_done [OF x] by auto
  have "\<exists>f k. x = Inr f \<and> visit_column (write_row f (fst row) v) w2 = (k, w1) \<or> w1 = w2"
    using r v x False by (auto simp: rotate_row_def Let_def split: option.splits if_splits sum.splits prod.splits)
  then show ?thesis
  proof (elim exE disjE conjE)
    fix f k1
    assume f: "x = Inr f" and m: "visit_column (write_row f (fst row) v) w2 = (k1, w1)"
    have "steady c w1 \<and> follows g c w2 w1" by (rule visit_follows [OF _ m k(1)]) (use fresh [OF f] write_same_readings in blast)
    then show ?thesis using follows_trans [OF w(2) k(2)] by blast
  qed (use k in simp)
qed (use w in simp)

lemma rotate_rows_follows:
  assumes "aead_ok g"
  shows "steady c w \<Longrightarrow> respectful g c w \<Longrightarrow> rotate_rows g c current dry rows n w = (h, n1, w1) \<Longrightarrow> steady c w1 \<and> follows g c w w1"
proof (induction rows arbitrary: n w)
  case (Cons row rows)
  obtain h0 n0 w0 where r: "rotate_row g c current dry row n w = (h0, n0, w0)" by (rule prod_cases3)
  have w0: "steady c w0" "follows g c w w0" using rotate_row_follows [OF assms Cons.prems(1,2) r] by simp_all
  then show ?case using Cons.prems(3) Cons.IH [OF w0(1) follows_respectful [OF w0(2) Cons.prems(2)]] follows_trans [OF Cons.prems(2) w0(2)] r
    by (cases h0) auto
qed simp

lemma rotate_loop_follows:
  assumes "aead_ok g"
  shows "steady c w \<Longrightarrow> respectful g c w \<Longrightarrow> rotate_loop fuel g c current dry batch cursor n w = Some (h, n1, w1) \<Longrightarrow> follows g c w w1"
proof (induction fuel arbitrary: cursor n w)
  case (Suc fuel)
  obtain x w0 where x: "visit_column (\<lambda>rows. (page batch cursor rows, rows)) w = (x, w0)" by (rule prod.exhaust)
  have w0: "steady c w0" "follows g c w w0" using visit_follows [OF _ x Suc.prems(1)] by simp_all
  show ?case
  proof (cases "x = None \<or> x = Some []")
    case True
    then show ?thesis using Suc.prems(3) x w0 by auto
  next
    case False
    then obtain rows where rows: "x = Some rows" "rows \<noteq> []" by auto
    obtain h2 n2 w2 where r: "rotate_rows g c current dry rows n w0 = (h2, n2, w2)" by (rule prod_cases3)
    have "steady c w2" "follows g c w0 w2"
      using rotate_rows_follows [OF assms w0(1) follows_respectful [OF w0(2) Suc.prems(2)] r] by simp_all
    then have w2: "steady c w2" "follows g c w w2" using follows_trans [OF Suc.prems(2) w0(2)] by blast+
    from Suc.IH [OF w2(1) follows_respectful [OF w2(2) Suc.prems(2)]] follows_trans [OF Suc.prems(2) w2(2)] w2(2)
    show ?thesis using Suc.prems(3) rows x r by (cases h2) (auto split: if_splits)
  qed
qed simp

text \<open>
  C10. Rotating a column never changes what it says, and never undoes what others write meanwhile. Whatever
  statements fail, and whatever the other sessions do before each of them, also when the run stops half way:
  the table afterwards has, row by row, the identifiers and the decrypted values that it would have if the other
  sessions had done the same to it without any rotation. What the others do is any function of the rows that
  gives rows of the same readings for rows of the same readings.
\<close>

theorem rotate_keeps_readings:
  assumes "aead_ok g" "steady c w" "respectful g c w"
    and "cmd_rotate fuel g c table column id_column batch dry w = Some (h, n, w1)"
  shows "same_readings g c (c_rows w1) (others_only (c_done w1 - c_done w) w (c_rows w))"
proof -
  have "follows g c w w1" using assms(4) rotate_loop_follows [OF assms(1-3)]
    by (auto simp: cmd_rotate_def split: if_splits sum.splits)
  then show ?thesis by (auto simp: follows_def)
qed

section \<open>Rotation alone\<close>

text \<open>The values a run leaves alone: none, empty, not encrypted, or under the current key.\<close>

definition settled :: "string \<Rightarrow> codes option \<Rightarrow> bool" where
  "settled current x \<longleftrightarrow> (case x of None \<Rightarrow> True | Some v \<Rightarrow> v = [] \<or> key_id_of x = Inr None \<or> key_id_of x = Inr (Some current))"

definition alone :: "column \<Rightarrow> bool" where
  "alone w \<longleftrightarrow> (\<forall>n rows. y_others (c_visits w n) rows = rows) \<and> distinct (map fst (c_rows w))"

definition with_value :: "int \<Rightarrow> codes option \<Rightarrow> crow \<Rightarrow> crow" where
  "with_value i x r = (if fst r = i then (i, x) else r)"

lemma map_fst_with_value [simp]: "map (fst \<circ> with_value i x) rows = map fst rows"
  by (simp add: with_value_def)

lemma with_value_same: "distinct (map fst rows) \<Longrightarrow> (i, x) \<in> set rows \<Longrightarrow> map (with_value i x) rows = rows"
  by (rule map_idI) (metis eq_key_imp_eq_value prod.collapse with_value_def)

lemma write_row_alone:
  assumes "distinct (map fst rows)" "(i, Some v) \<in> set rows"
  shows "write_row f i v rows = (1, map (with_value i (Some f)) rows)"
proof -
  have eq: "r = (i, Some v) \<longleftrightarrow> fst r = i" if "r \<in> set rows" for r
    using that assms by (metis eq_key_imp_eq_value fst_conv prod.collapse)
  have "length (filter (\<lambda>r. r = (i, Some v)) rows) = 1"
  proof -
    have "{r. r = (i, Some v)} \<inter> set rows = {(i, Some v)}" using assms(2) by blast
    then show ?thesis using distinct_length_filter [of rows "\<lambda>r. r = (i, Some v)"] assms(1) by (simp add: distinct_map)
  qed
  moreover have "map (\<lambda>r. if r = (i, Some v) then (i, Some f) else r) rows = map (with_value i (Some f)) rows"
    by (rule map_cong [OF refl]) (use eq in \<open>auto simp: with_value_def\<close>)
  ultimately show ?thesis by (simp add: write_row_def)
qed

lemma rotate_row_alone:
  assumes g: "aead_ok g" and w: "steady c w" "alone w" and i: "(i, x) \<in> set (c_rows w)" and cur: "current \<noteq> []"
    and r: "rotate_row g c current dry (i, x) n w = (h, n1, w1)"
  shows "steady c w1 \<and> alone w1 \<and> (\<exists>y. c_rows w1 = map (with_value i y) (c_rows w) \<and> (h = None \<and> \<not> dry \<longrightarrow> settled current y))"
proof (cases "settled current x \<or> dry \<or> isl (key_id_of x)")
  case True
  have "w1 = w" using True r
    by (auto simp: rotate_row_def settled_def isl_def Let_def split: option.splits if_splits sum.splits prod.splits)
  moreover have "h \<noteq> None" if "isl (key_id_of x)"
    using that r by (auto simp: rotate_row_def isl_def key_id_of_def Let_def split: option.splits if_splits sum.splits)
  moreover have "map (with_value i x) (c_rows w) = c_rows w" using with_value_same [OF _ i] w(2) by (simp add: alone_def)
  ultimately show ?thesis using w True by metis
next
  case False
  then obtain v k where v: "x = Some v" "v \<noteq> []" and k: "key_id_of (Some v) = Inr (Some k)" "k \<noteq> current"
    by (auto simp: settled_def isl_def split: option.splits) (metis obj_sumE option.exhaust)
  obtain e w2 where e: "reencrypt g c current v w = (e, w2)" by (rule prod.exhaust)
  have w2: "steady c w2" "c_rows w2 = c_rows w" "c_visits w2 = c_visits w"
    and f: "\<And>f. e = Inr f \<Longrightarrow> key_id_of (Some f) = Inr (Some current)" using reencrypt_reads [OF g w(1) v(2) e] cur by auto
  have a2: "alone w2" using w(2) w2 by (simp add: alone_def)
  have same: "map (with_value i x) (c_rows w) = c_rows w" using with_value_same [OF _ i] w(2) by (simp add: alone_def)
  show ?thesis
  proof (cases e)
    case (Inl z)
    then have "w1 = w2" "h \<noteq> None" using r v k e False by (auto simp: rotate_row_def Let_def)
    then show ?thesis using w2 a2 same by metis
  next
    case (Inr fresh)
    have m: "write_row fresh i v (c_rows w) = (1, map (with_value i (Some fresh)) (c_rows w))"
      using write_row_alone [of "c_rows w" i v] i v w(2) by (simp add: alone_def)
    have o: "y_others (c_visits w 0) (c_rows w) = c_rows w" using w(2) by (simp add: alone_def)
    have "settled current (Some fresh)" using f [OF Inr] by (simp add: settled_def)
    moreover have "steady c w1 \<and> alone w1 \<and>
        (c_rows w1 = map (with_value i (Some fresh)) (c_rows w) \<or> c_rows w1 = c_rows w \<and> h \<noteq> None)"
      using r v k e Inr False m o w2 a2
      by (auto simp: rotate_row_def Let_def visit_column_def steady_def alone_def split: if_splits)
    ultimately show ?thesis using same by metis
  qed
qed


text \<open>A page: every row it holds is settled, the others stay, and the identifiers are the same.\<close>

lemma rotate_rows_alone:
  assumes g: "aead_ok g" and cur: "current \<noteq> []"
  shows "steady c w \<Longrightarrow> alone w \<Longrightarrow> set rows \<subseteq> set (c_rows w) \<Longrightarrow> distinct (map fst rows) \<Longrightarrow>
    rotate_rows g c current dry rows n w = (h, n1, w1) \<Longrightarrow>
    steady c w1 \<and> alone w1 \<and> map fst (c_rows w1) = map fst (c_rows w)
    \<and> (h = None \<and> \<not> dry \<longrightarrow> (\<forall>r \<in> set (c_rows w1). if fst r \<in> fst ` set rows then settled current (snd r) else r \<in> set (c_rows w)))"
proof (induction rows arbitrary: n w)
  case (Cons row rows)
  obtain i x where row: "row = (i, x)" by (rule prod.exhaust)
  obtain h0 n0 w0 where r: "rotate_row g c current dry (i, x) n w = (h0, n0, w0)" by (rule prod_cases3)
  have i: "(i, x) \<in> set (c_rows w)" using Cons.prems(3) row by simp
  obtain y where w0: "steady c w0" "alone w0" and y: "c_rows w0 = map (with_value i y) (c_rows w)" "h0 = None \<and> \<not> dry \<longrightarrow> settled current y"
    using rotate_row_alone [OF g Cons.prems(1,2) i cur r] by blast
  show ?case
  proof (cases h0)
    case (Some z)
    then have "h = Some z" "w1 = w0" using Cons.prems(5) r row by auto
    then show ?thesis using w0 y by simp
  next
    case None
    have sub: "set rows \<subseteq> set (c_rows w0)"
    proof
      fix q
      assume q: "q \<in> set rows"
      then have "fst q \<noteq> i" using Cons.prems(4) row by force
      then show "q \<in> set (c_rows w0)" using q Cons.prems(3) unfolding y(1) by (force simp: with_value_def)
    qed
    have n: "rotate_rows g c current dry rows n0 w0 = (h, n1, w1)" using Cons.prems(5) r row None by simp
    have d: "distinct (map fst rows)" using Cons.prems(4) by simp
    note ih = Cons.IH [OF w0 sub d n]
    have "if fst q \<in> fst ` set (row # rows) then settled current (snd q) else q \<in> set (c_rows w)"
      if z: "h = None \<and> \<not> dry" and q: "q \<in> set (c_rows w1)" for q
    proof (cases "fst q \<in> fst ` set rows")
      case True
      then show ?thesis using ih z q by auto
    next
      case False
      then have "q \<in> set (c_rows w0)" using ih z q by auto
      then show ?thesis using False y z None row by (auto simp: with_value_def split: if_splits)
    qed
    then show ?thesis using ih y(1) by simp
  qed
qed simp

lemma page_set: "set (page batch cursor rows) \<subseteq> {r \<in> set rows. case cursor of None \<Rightarrow> True | Some c \<Rightarrow> c < fst r}"
  unfolding page_def using set_take_subset by fastforce

lemma page_distinct: "distinct (map fst rows) \<Longrightarrow> distinct (map fst (page batch cursor rows))"
proof -
  assume "distinct (map fst rows)"
  then have "distinct (map fst (filter P rows))" for P by (rule distinct_map_filter)
  then have "distinct (map fst (sort_key fst (filter P rows)))" for P by (simp add: distinct_map)
  then show ?thesis unfolding page_def by (simp add: distinct_take flip: take_map)
qed

text \<open>No row before the end of a full page is left out, and a short page leaves none out.\<close>

lemma page_complete:
  assumes "r \<in> set rows" "case cursor of None \<Rightarrow> True | Some c \<Rightarrow> c < fst r" "page batch cursor rows \<noteq> []"
    and "length (page batch cursor rows) < batch \<or> fst r \<le> fst (List.last (page batch cursor rows))" "distinct (map fst rows)"
  shows "r \<in> set (page batch cursor rows)"
proof (rule ccontr)
  let ?l = "sort_key fst (filter (\<lambda>r. case cursor of None \<Rightarrow> True | Some c \<Rightarrow> c < fst r) rows)"
  assume no: "r \<notin> set (page batch cursor rows)"
  have p: "page batch cursor rows = take batch ?l" by (simp add: page_def)
  have "r \<in> set ?l" using assms(1,2) by simp
  then have dr: "r \<in> set (drop batch ?l)" using no p by (metis UnE append_take_drop_id set_append)
  then have "batch < length ?l" by (metis drop_all empty_iff empty_set not_le)
  then have "length (page batch cursor rows) = batch" using p by simp
  then have le: "fst r \<le> fst (List.last (page batch cursor rows))" using assms(4) by simp
  have srt: "sorted (map fst (take batch ?l) @ map fst (drop batch ?l))" by (simp flip: map_append)
  have "List.last (page batch cursor rows) \<in> set (take batch ?l)" using last_in_set [OF assms(3)] p by simp
  then have "fst (List.last (page batch cursor rows)) \<le> fst r"
    using srt dr unfolding sorted_append set_map by blast
  with le have "fst (List.last (page batch cursor rows)) = fst r" by simp
  moreover have "List.last (page batch cursor rows) \<in> set rows" using page_set last_in_set [OF assms(3)] by fastforce
  ultimately have "List.last (page batch cursor rows) = r" using assms(1,5) by (metis eq_key_imp_eq_value prod.collapse)
  then show False using no last_in_set [OF assms(3)] by simp
qed


text \<open>A page that stops the run does not end it well.\<close>

lemma rotate_rows_halt: "rotate_rows g c current dry rows n w = (h, n1, w1) \<Longrightarrow> h \<noteq> Some (Code 0)"
proof (induction rows arbitrary: n w)
  case (Cons row rows)
  have "fst (rotate_row g c current dry row n w) \<noteq> Some (Code 0)"
    by (auto simp: rotate_row_def halt_of_def Let_def split: option.split sum.split prod.split cfault.split)
  then show ?case using Cons by (auto split: prod.splits option.splits)
qed simp


lemma sort_key_Nil: "sort_key f xs = [] \<longleftrightarrow> xs = []"
  by (metis length_0_conv length_sort)

definition beyond :: "int option \<Rightarrow> int \<Rightarrow> bool" where
  "beyond cursor i \<longleftrightarrow> (case cursor of None \<Rightarrow> True | Some c \<Rightarrow> c < i)"

lemma page_last:
  assumes "page batch cursor rows \<noteq> []"
  shows "beyond cursor (fst (List.last (page batch cursor rows)))" "fst (List.last (page batch cursor rows)) \<in> set (map fst rows)"
  using page_set [of batch cursor rows] last_in_set [OF assms] by (auto simp: beyond_def)

lemma beyond_trans: "beyond cursor i \<Longrightarrow> beyond (Some i) j \<Longrightarrow> beyond cursor j"
  by (auto simp: beyond_def split: option.splits)

lemma visit_alone:
  "alone w \<Longrightarrow> steady c w \<Longrightarrow> visit_column (\<lambda>rows. (page batch cursor rows, rows)) w = (x, w1) \<Longrightarrow>
    alone w1 \<and> steady c w1 \<and> c_rows w1 = c_rows w \<and> (x = None \<or> x = Some (page batch cursor (c_rows w)))"
  by (auto simp: visit_column_def Let_def alone_def steady_def split: if_splits)

lemma rotate_loop_ends:
  assumes g: "aead_ok g" and cur: "current \<noteq> []"
  shows "steady c w \<Longrightarrow> alone w \<Longrightarrow> length (filter (beyond cursor) (map fst (c_rows w))) < fuel \<Longrightarrow>
    rotate_loop fuel g c current dry batch cursor n w \<noteq> None"
proof (induction fuel arbitrary: cursor n w)
  case (Suc fuel)
  obtain x w0 where x: "visit_column (\<lambda>rows. (page batch cursor rows, rows)) w = (x, w0)" by (rule prod.exhaust)
  have w0: "alone w0" "steady c w0" "c_rows w0 = c_rows w" and px: "x = None \<or> x = Some (page batch cursor (c_rows w))"
    using visit_alone [OF Suc.prems(2,1) x] by simp_all
  let ?p = "page batch cursor (c_rows w)"
  obtain h n1 w1 where r: "rotate_rows g c current dry ?p n w0 = (h, n1, w1)" by (rule prod_cases3)
  show ?case
  proof (cases "x = None \<or> ?p = [] \<or> h \<noteq> None")
    case True
    then show ?thesis using px x r by auto
  next
    case False
    then have x1: "x = Some ?p" and ne: "?p \<noteq> []" and h: "h = None" using px by auto
    have d: "distinct (map fst ?p)" using page_distinct Suc.prems(2) by (simp add: alone_def)
    have w1: "steady c w1" "alone w1" "map fst (c_rows w1) = map fst (c_rows w)"
      using rotate_rows_alone [OF g cur w0(2,1) _ d r] page_set [of batch cursor "c_rows w"] w0(3) by auto
    let ?i = "fst (List.last ?p)"
    let ?a = "filter (beyond cursor) (map fst (c_rows w))"
    have "filter (beyond (Some ?i)) (map fst (c_rows w)) = filter (beyond (Some ?i)) ?a"
      unfolding filter_filter by (rule filter_cong) (use beyond_trans [OF page_last(1) [OF ne]] in auto)
    moreover have "length (filter (beyond (Some ?i)) ?a) < length ?a"
      by (rule length_filter_less [of ?i]) (use page_last [OF ne] in \<open>simp_all add: beyond_def\<close>)
    ultimately have "length (filter (beyond (Some ?i)) (map fst (c_rows w1))) < fuel"
      using Suc.prems(3) w1(3) by simp
    then have "rotate_loop fuel g c current dry batch (Some ?i) n1 w1 \<noteq> None" by (rule Suc.IH [OF w1(1,2)])
    then show ?thesis using x x1 ne h r by simp
  qed
qed simp

lemma rotate_loop_settles:
  assumes g: "aead_ok g" and cur: "current \<noteq> []"
  shows "steady c w \<Longrightarrow> alone w \<Longrightarrow> (\<forall>r \<in> set (c_rows w). \<not> beyond cursor (fst r) \<longrightarrow> settled current (snd r)) \<Longrightarrow>
    rotate_loop fuel g c current False batch cursor n w = Some (Code 0, n1, w1) \<Longrightarrow> 0 < batch \<Longrightarrow>
    (\<forall>r \<in> set (c_rows w1). settled current (snd r)) \<and> map fst (c_rows w1) = map fst (c_rows w)"
proof (induction fuel arbitrary: cursor n w)
  case (Suc fuel)
  obtain x w0 where x: "visit_column (\<lambda>rows. (page batch cursor rows, rows)) w = (x, w0)" by (rule prod.exhaust)
  have w0: "alone w0" "steady c w0" "c_rows w0 = c_rows w" and px: "x = None \<or> x = Some (page batch cursor (c_rows w))"
    using visit_alone [OF Suc.prems(2,1) x] by simp_all
  let ?p = "page batch cursor (c_rows w)"
  have x1: "x = Some ?p" using Suc.prems(4) x px by auto
  have dr: "distinct (map fst (c_rows w))" using Suc.prems(2) by (simp add: alone_def)
  show ?case
  proof (cases "?p = []")
    case True
    then have "filter (\<lambda>r. beyond cursor (fst r)) (c_rows w) = []" using Suc.prems(5)
      by (simp add: page_def beyond_def sort_key_Nil)
    then have "\<forall>r \<in> set (c_rows w). \<not> beyond cursor (fst r)" by (simp add: filter_empty_conv)
    then show ?thesis using True x x1 Suc.prems(3,4) w0 by auto
  next
    case ne: False
    obtain h n2 w2 where r: "rotate_rows g c current False ?p n w0 = (h, n2, w2)" by (rule prod_cases3)
    have rest: "h = None \<and> (length ?p < batch \<and> w2 = w1 \<or>
        \<not> length ?p < batch \<and> rotate_loop fuel g c current False batch (Some (fst (List.last ?p))) n2 w2 = Some (Code 0, n1, w1)) \<or> h = Some (Code 0)"
      using Suc.prems(4) x x1 ne r by (cases h) (auto split: if_splits)
    have "h \<noteq> Some (Code 0)" using rotate_rows_halt [OF r] by auto
    then have h: "h = None" and go: "length ?p < batch \<and> w2 = w1 \<or>
        \<not> length ?p < batch \<and> rotate_loop fuel g c current False batch (Some (fst (List.last ?p))) n2 w2 = Some (Code 0, n1, w1)"
      using rest by auto
    have w2: "steady c w2" "alone w2" "map fst (c_rows w2) = map fst (c_rows w)"
      and out: "\<forall>q \<in> set (c_rows w2). if fst q \<in> fst ` set ?p then settled current (snd q) else q \<in> set (c_rows w)"
    proof -
      have sub: "set ?p \<subseteq> set (c_rows w0)" using page_set [of batch cursor "c_rows w"] w0(3) by auto
      note a = rotate_rows_alone [OF g cur w0(2,1) sub page_distinct [OF dr] r]
      from a show "steady c w2" "alone w2" "map fst (c_rows w2) = map fst (c_rows w)" using w0(3) by simp_all
      from a show "\<forall>q \<in> set (c_rows w2). if fst q \<in> fst ` set ?p then settled current (snd q) else q \<in> set (c_rows w)"
        unfolding w0(3) using h by blast
    qed
    have settled: "settled current (snd q)"
      if q: "q \<in> set (c_rows w2)" and c: "length ?p < batch \<or> \<not> beyond (Some (fst (List.last ?p))) (fst q)" for q
    proof (cases "fst q \<in> fst ` set ?p")
      case False
      then have m: "q \<in> set (c_rows w)" using out q by simp
      have "\<not> beyond cursor (fst q)"
      proof
        assume "beyond cursor (fst q)"
        then have "q \<in> set ?p" using page_complete [OF m _ ne _ dr] c by (auto simp: beyond_def)
        then show False using False by blast
      qed
      then show ?thesis using Suc.prems(3) m by blast
    qed (use out q in auto)
    from go show ?thesis
    proof
      assume "length ?p < batch \<and> w2 = w1"
      then show ?thesis using settled w2(3) by blast
    next
      assume "\<not> length ?p < batch \<and> rotate_loop fuel g c current False batch (Some (fst (List.last ?p))) n2 w2 = Some (Code 0, n1, w1)"
      then show ?thesis using Suc.IH [OF w2(1,2) _ _ Suc.prems(5)] settled w2(3) by (metis (no_types, lifting))
    qed
  qed
qed simp


lemma rotate_rows_idle:
  "\<forall>r \<in> set rows. settled current (snd r) \<Longrightarrow> rotate_rows g c current dry rows n w = (h, n1, w1) \<Longrightarrow> w1 = w \<and> t_rotated n1 = t_rotated n"
proof (induction rows arbitrary: n)
  case (Cons row rows)
  obtain h0 n0 w0 where r: "rotate_row g c current dry row n w = (h0, n0, w0)" by (rule prod_cases3)
  have "h0 = None" "w0 = w" "t_rotated n0 = t_rotated n"
    using r Cons.prems(1) by (auto simp: rotate_row_def settled_def Let_def key_id_of_def split: option.splits if_splits sum.splits)
  then show ?case using Cons r by simp
qed simp

lemma rotate_loop_idle:
  "alone w \<Longrightarrow> steady c w \<Longrightarrow> \<forall>r \<in> set (c_rows w). settled current (snd r) \<Longrightarrow> rotate_loop fuel g c current dry batch cursor n w = Some (h, n1, w1)
    \<Longrightarrow> c_rows w1 = c_rows w \<and> t_rotated n1 = t_rotated n"
proof (induction fuel arbitrary: cursor n w)
  case (Suc fuel)
  obtain x w0 where x: "visit_column (\<lambda>rows. (page batch cursor rows, rows)) w = (x, w0)" by (rule prod.exhaust)
  have w0: "alone w0" "steady c w0" "c_rows w0 = c_rows w" and px: "x = None \<or> x = Some (page batch cursor (c_rows w))"
    using visit_alone [OF Suc.prems(1,2) x] by simp_all
  let ?p = "page batch cursor (c_rows w)"
  obtain h2 n2 w2 where r: "rotate_rows g c current dry ?p n w0 = (h2, n2, w2)" by (rule prod_cases3)
  have "\<forall>r \<in> set ?p. settled current (snd r)" using page_set [of batch cursor "c_rows w"] Suc.prems(3) by blast
  then have w2: "w2 = w0" "t_rotated n2 = t_rotated n" using rotate_rows_idle r by blast+
  consider "x = None \<or> ?p = []" | "x = Some ?p" "?p \<noteq> []" using px by blast
  then show ?case
  proof cases
    case 1
    then show ?thesis using Suc.prems(4) x px w0 by auto
  next
    case 2
    then show ?thesis using Suc.prems(3,4) Suc.IH [of w0 _ n2] x r w0 w2 by (cases h2) (auto split: if_splits)
  qed
qed simp

lemma current_key_name: "current_key_id c = Inr k \<Longrightarrow> k = k_current c \<and> k \<noteq> []"
  by (auto simp: current_key_id_def assert_key_id_def split: if_splits)

lemma rotate_refused:
  assumes "\<not> (table_re table \<and> column_re column \<and> column_re id_column \<and> \<not> batch < 1 \<and> \<not> isl (current_key_id c))"
  shows "\<exists>h. cmd_rotate fuel g c table column id_column batch dry w = Some (h, no_tally, w) \<and> h \<noteq> Code 0"
proof (cases "table_re table \<and> column_re column \<and> column_re id_column \<and> \<not> batch < 1")
  case True
  with assms obtain e where "current_key_id c = Inl e" by (auto simp: isl_def)
  with True show ?thesis by (intro exI [of _ "halt_of e"]) (simp add: cmd_rotate_def halt_of_def split: cfault.split)
next
  case False
  then show ?thesis by (intro exI [of _ "Code 2"]) (simp add: cmd_rotate_def)
qed

lemma rotate_again:
  assumes "steady c w" "alone w" "\<forall>r \<in> set (c_rows w). settled (k_current c) (snd r)"
    and run: "cmd_rotate fuel g c table column id_column batch dry w = Some (h, n, w1)"
  shows "c_rows w1 = c_rows w \<and> t_rotated n = 0"
proof (cases "table_re table \<and> column_re column \<and> column_re id_column \<and> \<not> batch < 1 \<and> \<not> isl (current_key_id c)")
  case False
  then obtain h1 where "cmd_rotate fuel g c table column id_column batch dry w = Some (h1, no_tally, w)" using rotate_refused by blast
  then show ?thesis using run by (simp add: no_tally_def)
next
  case True
  then obtain k where k: "current_key_id c = Inr k" by (metis isl_def sum.exhaust_sel)
  then have r: "rotate_loop fuel g c k dry (nat batch) None no_tally w = Some (h, n, w1)" using True run by (simp add: cmd_rotate_def)
  have "k = k_current c" using current_key_name [OF k] by blast
  then have "c_rows w1 = c_rows w \<and> t_rotated n = t_rotated no_tally" using rotate_loop_idle [OF assms(2,1) _ r] assms(3) by blast
  then show ?thesis by (simp add: no_tally_def)
qed

lemma rotate_ends_settled:
  assumes "aead_ok g" "steady c w" "alone w" "length (c_rows w) < fuel"
  shows "\<exists>h n w1. cmd_rotate fuel g c table column id_column batch dry w = Some (h, n, w1)
    \<and> (h = Code 0 \<and> \<not> dry \<longrightarrow> (\<forall>r \<in> set (c_rows w1). settled (k_current c) (snd r)) \<and> map fst (c_rows w1) = map fst (c_rows w))"
proof (cases "table_re table \<and> column_re column \<and> column_re id_column \<and> \<not> batch < 1 \<and> \<not> isl (current_key_id c)")
  case False
  then show ?thesis using rotate_refused [of table column id_column batch c fuel g dry w] by auto
next
  case True
  then obtain k where cur: "current_key_id c = Inr k" by (metis isl_def sum.exhaust_sel)
  have k: "k = k_current c" "k \<noteq> []" using current_key_name [OF cur] by blast+
  have "rotate_loop fuel g c k dry (nat batch) None no_tally w \<noteq> None"
    by (rule rotate_loop_ends [OF assms(1) k(2) assms(2,3)]) (use assms(4) in \<open>simp add: beyond_def\<close>)
  then obtain h n w1 where r: "rotate_loop fuel g c k dry (nat batch) None no_tally w = Some (h, n, w1)" by (metis not_Some_eq prod_cases3)
  then have run: "cmd_rotate fuel g c table column id_column batch dry w = Some (h, n, w1)" using True cur by (simp add: cmd_rotate_def)
  have "(\<forall>r \<in> set (c_rows w1). settled k (snd r)) \<and> map fst (c_rows w1) = map fst (c_rows w)" if "h = Code 0" "\<not> dry"
    using rotate_loop_settles [OF assms(1) k(2) assms(2,3), of None fuel "nat batch" no_tally n w1] r that True by (simp add: beyond_def)
  with run show ?thesis unfolding k(1) by blast
qed

text \<open>
  C24. Rotation ends and is complete: with nobody else writing, one more page than there are rows
  is enough whatever statement fails; and when the command reports success, every encrypted value
  is under the current key, no row has appeared or gone, and running the command again, at any
  page size, re-encrypts nothing and leaves the table as it is.
\<close>

theorem rotate_completes:
  assumes "aead_ok g" "steady c w" "alone w" "length (c_rows w) < fuel"
  shows "\<exists>h n w1. cmd_rotate fuel g c table column id_column batch dry w = Some (h, n, w1)
    \<and> (h = Code 0 \<and> \<not> dry \<longrightarrow> (\<forall>r \<in> set (c_rows w1). settled (k_current c) (snd r)) \<and> map fst (c_rows w1) = map fst (c_rows w)
        \<and> (\<forall>w2 fuel2 batch2 dry2 h2 n2 w3. steady c w2 \<and> alone w2 \<and> c_rows w2 = c_rows w1
             \<and> cmd_rotate fuel2 g c table column id_column batch2 dry2 w2 = Some (h2, n2, w3) \<longrightarrow> c_rows w3 = c_rows w1 \<and> t_rotated n2 = 0))"
proof -
  obtain h n w1 where r: "cmd_rotate fuel g c table column id_column batch dry w = Some (h, n, w1)"
    and s: "h = Code 0 \<and> \<not> dry \<longrightarrow> (\<forall>r \<in> set (c_rows w1). settled (k_current c) (snd r)) \<and> map fst (c_rows w1) = map fst (c_rows w)"
    using rotate_ends_settled [OF assms] by blast
  have again: "h = Code 0 \<and> \<not> dry \<longrightarrow> (\<forall>w2 fuel2 batch2 dry2 h2 n2 w3. steady c w2 \<and> alone w2 \<and> c_rows w2 = c_rows w1
      \<and> cmd_rotate fuel2 g c table column id_column batch2 dry2 w2 = Some (h2, n2, w3) \<longrightarrow> c_rows w3 = c_rows w1 \<and> t_rotated n2 = 0)"
  proof (intro impI allI)
    fix w2 fuel2 batch2 dry2 h2 n2 w3
    assume h: "h = Code 0 \<and> \<not> dry"
      and a: "steady c w2 \<and> alone w2 \<and> c_rows w2 = c_rows w1 \<and> cmd_rotate fuel2 g c table column id_column batch2 dry2 w2 = Some (h2, n2, w3)"
    have "\<forall>r \<in> set (c_rows w2). settled (k_current c) (snd r)" using s h a by simp
    then show "c_rows w3 = c_rows w1 \<and> t_rotated n2 = 0" using rotate_again [of c w2 fuel2 g table column id_column batch2 dry2 h2 n2 w3] a by simp
  qed
  show ?thesis
  proof (rule exI [of _ h], rule exI [of _ n], rule exI [of _ w1], rule conjI [OF r], rule impI)
    assume "h = Code 0 \<and> \<not> dry"
    note mp [OF s this] mp [OF again this]
    then show "(\<forall>r \<in> set (c_rows w1). settled (k_current c) (snd r)) \<and> map fst (c_rows w1) = map fst (c_rows w)
        \<and> (\<forall>w2 fuel2 batch2 dry2 h2 n2 w3. steady c w2 \<and> alone w2 \<and> c_rows w2 = c_rows w1
             \<and> cmd_rotate fuel2 g c table column id_column batch2 dry2 w2 = Some (h2, n2, w3) \<longrightarrow> c_rows w3 = c_rows w1 \<and> t_rotated n2 = 0)"
      by (elim conjE) (intro conjI; assumption)
  qed
qed

section \<open>Witnesses\<close>

definition demo_old :: codes where
  "demo_old = (case fst (encrypt_field demo_aead demo_crypto demo_nonce [72] (Some ''k1'') []) of Inr v \<Rightarrow> v | Inl _ \<Rightarrow> [])"

definition demo_column :: column where
  "demo_column = \<lparr>c_rows = [(2, Some [80, 81]), (1, Some demo_old), (3, None)], c_visits = (\<lambda>n. \<lparr>y_down = False, y_others = id\<rparr>),
     c_nonces = (\<lambda>n. demo_nonce), c_cache = [], c_done = 0\<rparr>"

lemma demo_old_reads: "reads demo_aead demo_crypto demo_old = Inr (Some [72])"
proof -
  have k: "key_for demo_crypto ''k1'' [] = (Inr (replicate 32 0), [(''k1'', replicate 32 0)])"
    using demo_material by (simp add: key_for_def assert_key_id_def demo_key_ids(1)) (simp add: demo_crypto_def)
  obtain v cache1 where v: "encrypt_field demo_aead demo_crypto demo_nonce [72] (Some ''k1'') [] = (Inr v, cache1)"
    using k by (simp add: encrypt_field_def encode_utf8_def scalar_def)
  show ?thesis
    using encrypt_decrypt [OF demo_aead_ok demo_nonce_ok cache_ok_empty cache_ok_empty v] v by (simp add: demo_old_def reads_def)
qed

lemma demo_column_ok: "steady demo_crypto demo_column" "alone demo_column"
  using demo_nonce_ok by (simp_all add: demo_column_def steady_def alone_def)

lemma demo_names: "table_re ''people''" "column_re ''name''" "column_re ''id''"
  by code_simp+

text \<open>Another session writes row 1 between the reading of the page and the update of that row.\<close>

definition meddled_column :: column where
  "meddled_column = demo_column\<lparr>c_visits := (\<lambda>n. \<lparr>y_down = False, y_others = (if n = 1 then map (with_value 1 (Some [90])) else id)\<rparr>)\<rparr>"

lemma meddled_respectful: "respectful g c meddled_column"
  unfolding respectful_def meddled_column_def
  by (auto simp: same_readings_def list_all2_conv_all_nth same_row_def with_value_def)

lemma one_page_ends:
  assumes "length (page batch None (y_others (c_visits w 0) (c_rows w))) < batch"
  shows "rotate_loop (Suc fuel) g c current dry batch None n w \<noteq> None"
  using assms by (auto simp: visit_column_def Let_def split: prod.splits option.splits)

theorem rotate_keeps_readings_witness:
  "\<exists>h n w1. cmd_rotate 9 demo_aead demo_crypto ''people'' ''name'' ''id'' 5 False meddled_column = Some (h, n, w1)
    \<and> same_readings demo_aead demo_crypto (c_rows w1) (others_only (c_done w1) meddled_column (c_rows meddled_column))"
proof -
  have "current_key_id demo_crypto = Inr ''k2''" by (simp add: current_key_id_def assert_key_id_def demo_key_ids demo_crypto_def)
  moreover have "rotate_loop (Suc 8) demo_aead demo_crypto ''k2'' False 5 None no_tally meddled_column \<noteq> None"
    by (rule one_page_ends) (simp add: meddled_column_def demo_column_def page_def)
  ultimately obtain h n w1 where r: "cmd_rotate 9 demo_aead demo_crypto ''people'' ''name'' ''id'' 5 False meddled_column = Some (h, n, w1)"
    using demo_names by (auto simp: cmd_rotate_def)
  have "steady demo_crypto meddled_column" using demo_column_ok(1) by (simp add: steady_def meddled_column_def)
  from rotate_keeps_readings [OF demo_aead_ok this meddled_respectful r] r show ?thesis
    by (auto simp: meddled_column_def demo_column_def)
qed

theorem rotate_completes_witness:
  "\<exists>h n w1. cmd_rotate 4 demo_aead demo_crypto ''people'' ''name'' ''id'' 2 False demo_column = Some (h, n, w1)
    \<and> (h \<noteq> Code 0 \<or> (\<forall>r \<in> set (c_rows w1). settled ''k2'' (snd r)))"
proof -
  have "length (c_rows demo_column) < 4" by (simp add: demo_column_def)
  then obtain h n w1 where "cmd_rotate 4 demo_aead demo_crypto ''people'' ''name'' ''id'' 2 False demo_column = Some (h, n, w1)"
    "h = Code 0 \<and> \<not> False \<longrightarrow> (\<forall>r \<in> set (c_rows w1). settled (k_current demo_crypto) (snd r))"
    using rotate_completes [OF demo_aead_ok demo_column_ok, of 4 "''people''" "''name''" "''id''" 2 False] by blast
  moreover have "k_current demo_crypto = ''k2''" by (simp add: demo_crypto_def)
  ultimately show ?thesis by auto
qed

end
