(* ===== verification/Cron.thy ===== *)
theory Cron
  imports Config "HOL-Library.Word"
begin

text \<open>
  Scheduled jobs: \<open>cron/schedule.py\<close>, \<open>cron/execute.py\<close>, \<open>cron/commands.py\<close>, \<open>cron/_service.py\<close> and
  \<open>file_lock.py\<close>. The cron expressions (the \<open>cronsim\<close> package) and the time zone database are
  parameters. The executor is a coroutine per job; its points and what may happen at each are a
  step function, and any number of schedulers run side by side in a step relation. The contract of
  the three locks is the locale \<open>job_lock\<close>, in which it is shown that runs of one job do not
  overlap; each of the three locks meets it.
\<close>

section \<open>Schedule\<close>

text \<open>\<open>shlex.split\<close>: the states of the lexer, with the token so far and whether it was quoted.\<close>

datatype lexing = Between | Word | Quote char | Escape "char option"

definition shlex_space :: "char \<Rightarrow> bool" where
  "shlex_space c \<longleftrightarrow> c \<in> {CHR '' '', CHR 0x09, CHR 0x0D, CHR 0x0A}"

definition shlex_quote :: "char \<Rightarrow> bool" where
  "shlex_quote c \<longleftrightarrow> c = CHR 0x27 \<or> c = CHR 0x22"

definition lexed :: "string \<Rightarrow> bool \<Rightarrow> string list" where
  "lexed tok quoted = (if tok \<noteq> [] \<or> quoted then [tok] else [])"

fun shlex :: "lexing \<Rightarrow> string \<Rightarrow> bool \<Rightarrow> string \<Rightarrow> string list option" where
  "shlex Between tok quoted [] = Some (lexed tok quoted)"
| "shlex Word tok quoted [] = Some (lexed tok quoted)"
| "shlex (Quote q) tok quoted [] = None"
| "shlex (Escape q) tok quoted [] = None"
| "shlex Between tok quoted (c # r) =
     (if shlex_space c then map_option ((@) (lexed tok quoted)) (shlex Between [] False r)
      else if c = CHR 0x5C then shlex (Escape None) tok quoted r
      else if shlex_quote c then shlex (Quote c) tok quoted r
      else shlex Word [c] quoted r)"
| "shlex Word tok quoted (c # r) =
     (if shlex_space c then map_option ((@) (lexed tok quoted)) (shlex Between [] False r)
      else if shlex_quote c then shlex (Quote c) tok quoted r
      else if c = CHR 0x5C then shlex (Escape None) tok quoted r
      else shlex Word (tok @ [c]) quoted r)"
| "shlex (Quote q) tok quoted (c # r) =
     (if c = q then shlex Word tok True r
      else if c = CHR 0x5C \<and> q = CHR 0x22 then shlex (Escape (Some q)) tok True r
      else shlex (Quote q) (tok @ [c]) True r)"
| "shlex (Escape None) tok quoted (c # r) = shlex Word (tok @ [c]) quoted r"
| "shlex (Escape (Some q)) tok quoted (c # r) =
     shlex (Quote q) (tok @ (if c \<noteq> CHR 0x5C \<and> c \<noteq> q then [CHR 0x5C, c] else [c])) quoted r"

definition shlex_split :: "string \<Rightarrow> string list option" where
  "shlex_split s = shlex Between [] False s"

record cron_job =
  cj_name :: string
  cj_schedule :: string
  cj_command :: "string list"
  cj_zone :: string
  cj_timeout :: "int option"

text \<open>What is used of the libraries: zone names, the syntax of expressions, and the first match strictly after a local minute.\<close>

record cron_lib =
  cl_zone :: "string \<Rightarrow> bool"
  cl_syntax :: "string \<Rightarrow> bool"
  cl_local :: "string \<Rightarrow> int \<Rightarrow> int"
  cl_next :: "string \<Rightarrow> string \<Rightarrow> int \<Rightarrow> int"

definition is_due :: "cron_lib \<Rightarrow> int \<Rightarrow> cron_job \<Rightarrow> bool" where
  "is_due lib minute job \<longleftrightarrow>
     (let here = cl_local lib (cj_zone job) minute in cl_next lib (cj_schedule job) (cj_zone job) (here - 1) = here)"

definition next_run :: "cron_lib \<Rightarrow> int \<Rightarrow> cron_job \<Rightarrow> int" where
  "next_run lib after job = cl_next lib (cj_schedule job) (cj_zone job) (cl_local lib (cj_zone job) after)"

datatype cron_error = CronError | CronOther

definition cron_settings :: "config \<Rightarrow> cron_error + config" where
  "cron_settings config =
     (case get_or config ''cron'' (CDict []) of
        CDict d \<Rightarrow> Inr (fold (\<lambda>x acc. AList.update (fst x) (snd x) acc) d
          [(''db'', CStr ''main''), (''timezone'', CStr ''UTC''), (''jobs'', CDict [])])
      | _ \<Rightarrow> Inl CronOther)"

definition zone_of :: "cron_lib \<Rightarrow> cv \<Rightarrow> cron_error + string" where
  "zone_of lib v = (case v of CStr z \<Rightarrow> if z \<noteq> [] \<and> cl_zone lib z then Inr z else Inl CronError | _ \<Rightarrow> Inl CronError)"

definition JOB_KEYS :: "string list" where
  "JOB_KEYS = [''schedule'', ''command'', ''timeout'', ''timezone'']"

definition job_text :: "config \<Rightarrow> string \<Rightarrow> cron_error + string" where
  "job_text raw k = (case cget raw k of CStr s \<Rightarrow> if strip s \<noteq> [] then Inr s else Inl CronError | _ \<Rightarrow> Inl CronError)"

definition job_timeout :: "config \<Rightarrow> cron_error + int option" where
  "job_timeout raw =
     (case cget raw ''timeout'' of
        CNone \<Rightarrow> Inr None
      | CInt n \<Rightarrow> if n < 1 then Inl CronError else Inr (Some n)
      | _ \<Rightarrow> Inl CronError)"

text \<open>\<open>_job\<close>; an unbalanced quote in the command is a \<open>ValueError\<close> that nothing turns into a \<open>CronError\<close>.\<close>

definition make_job :: "cron_lib \<Rightarrow> string \<Rightarrow> cv \<Rightarrow> cv \<Rightarrow> cron_error + cron_job" where
  "make_job lib name v default_zone =
     (case v of
        CDict raw \<Rightarrow>
          if \<not> list_all (\<lambda>k. k \<in> set JOB_KEYS) (dict_keys raw) then Inl CronError
          else (case job_text raw ''schedule'' of
             Inl e \<Rightarrow> Inl e
           | Inr schedule \<Rightarrow>
               (case job_text raw ''command'' of
                  Inl e \<Rightarrow> Inl e
                | Inr command \<Rightarrow>
                    (case job_timeout raw of
                       Inl e \<Rightarrow> Inl e
                     | Inr timeout \<Rightarrow>
                         (case zone_of lib (case map_of raw ''timezone'' of Some z \<Rightarrow> z | None \<Rightarrow> default_zone) of
                            Inl e \<Rightarrow> Inl e
                          | Inr zone \<Rightarrow>
                              if \<not> cl_syntax lib schedule then Inl CronError
                              else (case shlex_split command of
                                      None \<Rightarrow> Inl CronOther
                                    | Some argv \<Rightarrow> Inr \<lparr>cj_name = name, cj_schedule = strip schedule, cj_command = argv,
                                                        cj_zone = zone, cj_timeout = timeout\<rparr>)))))
      | _ \<Rightarrow> Inl CronError)"

fun make_jobs :: "cron_lib \<Rightarrow> (string, cv) dict \<Rightarrow> cv \<Rightarrow> cron_error + cron_job list" where
  "make_jobs lib [] default_zone = Inr []"
| "make_jobs lib ((name, raw) # rest) default_zone =
     (if strip name = [] then Inl CronError
      else case make_job lib name raw default_zone of
             Inl e \<Rightarrow> Inl e
           | Inr job \<Rightarrow> (case make_jobs lib rest default_zone of Inl e \<Rightarrow> Inl e | Inr jobs \<Rightarrow> Inr (job # jobs)))"

definition load_jobs :: "cron_lib \<Rightarrow> config \<Rightarrow> cron_error + cron_job list" where
  "load_jobs lib config =
     (case cron_settings config of
        Inl e \<Rightarrow> Inl e
      | Inr conf \<Rightarrow>
          (case cget conf ''jobs'' of
             CDict jobs \<Rightarrow>
               (case zone_of lib (cget conf ''timezone'') of Inl e \<Rightarrow> Inl e | Inr _ \<Rightarrow> make_jobs lib jobs (cget conf ''timezone''))
           | _ \<Rightarrow> Inl CronError))"

text \<open>\<open>current_minute\<close>, of a time in seconds.\<close>

definition current_minute :: "int \<Rightarrow> int" where
  "current_minute now = now div 60"

section \<open>Locks\<close>

text \<open>The protocol \<open>Lock\<close>, with the scheduler that calls; \<open>lo_drop\<close> is what the death of a scheduler does to the lock.\<close>

record 's lock_ops =
  lo_acquire :: "nat \<Rightarrow> string \<Rightarrow> 's \<Rightarrow> bool \<times> 's"
  lo_release :: "nat \<Rightarrow> string \<Rightarrow> 's \<Rightarrow> 's"
  lo_drop :: "nat \<Rightarrow> 's \<Rightarrow> 's"

text \<open>
  Advisory locks of PostgreSQL: by a 64-bit hash of the name (\<open>hashtextextended\<close>), owned by a session
  and counted. Nothing is assumed of the hash, and names may well share one.
\<close>

type_synonym advisory = "64 word \<rightharpoonup> nat \<times> nat"

definition pg_acquire :: "(string \<Rightarrow> 64 word) \<Rightarrow> nat \<Rightarrow> string \<Rightarrow> advisory \<Rightarrow> bool \<times> advisory" where
  "pg_acquire hash s name l =
     (case l (hash name) of
        None \<Rightarrow> (True, l(hash name \<mapsto> (s, 1)))
      | Some (t, n) \<Rightarrow> if t = s then (True, l(hash name \<mapsto> (s, n + 1))) else (False, l))"

definition pg_release :: "(string \<Rightarrow> 64 word) \<Rightarrow> nat \<Rightarrow> string \<Rightarrow> advisory \<Rightarrow> advisory" where
  "pg_release hash s name l =
     (case l (hash name) of
        Some (t, n) \<Rightarrow> if t \<noteq> s then l else if n \<le> 1 then l(hash name := None) else l(hash name \<mapsto> (s, n - 1))
      | None \<Rightarrow> l)"

definition pg_lock :: "(string \<Rightarrow> 64 word) \<Rightarrow> advisory lock_ops" where
  "pg_lock hash = \<lparr>lo_acquire = pg_acquire hash, lo_release = pg_release hash,
     lo_drop = (\<lambda>s l k. case l k of Some (t, n) \<Rightarrow> if t = s then None else Some (t, n) | None \<Rightarrow> None)\<rparr>"

text \<open>
  Files: the path of a job, and the flock on it. Each attempt opens the file anew, so a process
  does not get past its own lock; the descriptor is kept under the name.
\<close>

definition safe_char :: "char \<Rightarrow> char" where
  "safe_char c = (if is_alpha c \<or> is_digit c \<or> c \<in> {CHR ''_'', CHR ''.'', CHR ''-''} then c else CHR ''_'')"

definition lock_path :: "(string \<Rightarrow> string) \<Rightarrow> string \<Rightarrow> string \<Rightarrow> string" where
  "lock_path sha256 database name =
     (let safe = map safe_char name; safe1 = (if safe \<noteq> name then safe @ ''-'' @ take 8 (sha256 name) else safe)
      in database @ ''.cron-'' @ safe1 @ ''.lock'')"

record flocks =
  fl_files :: "string \<rightharpoonup> nat"
  fl_held :: "nat \<Rightarrow> string \<rightharpoonup> string"

definition try_lock :: "nat \<Rightarrow> string \<Rightarrow> (string \<rightharpoonup> nat) \<Rightarrow> (string \<rightharpoonup> nat) option" where
  "try_lock s path files = (if files path = None then Some (files(path \<mapsto> s)) else None)"

definition unlock_file :: "string \<Rightarrow> (string \<rightharpoonup> nat) \<Rightarrow> (string \<rightharpoonup> nat)" where
  "unlock_file path files = files(path := None)"

definition file_acquire :: "(string \<Rightarrow> string) \<Rightarrow> string \<Rightarrow> nat \<Rightarrow> string \<Rightarrow> flocks \<Rightarrow> bool \<times> flocks" where
  "file_acquire sha256 database s name l =
     (let path = lock_path sha256 database name
      in case try_lock s path (fl_files l) of
           None \<Rightarrow> (False, l)
         | Some files \<Rightarrow> (True, l\<lparr>fl_files := files, fl_held := (fl_held l)(s := (fl_held l s)(name \<mapsto> path))\<rparr>))"

definition file_release :: "nat \<Rightarrow> string \<Rightarrow> flocks \<Rightarrow> flocks" where
  "file_release s name l =
     (case fl_held l s name of
        None \<Rightarrow> l
      | Some path \<Rightarrow> l\<lparr>fl_files := unlock_file path (fl_files l), fl_held := (fl_held l)(s := (fl_held l s)(name := None))\<rparr>)"

definition file_lock :: "(string \<Rightarrow> string) \<Rightarrow> string \<Rightarrow> flocks lock_ops" where
  "file_lock sha256 database = \<lparr>lo_acquire = file_acquire sha256 database, lo_release = file_release,
     lo_drop = (\<lambda>s l. \<lparr>fl_files = (\<lambda>p. if fl_files l p = Some s then None else fl_files l p), fl_held = (fl_held l)(s := Map.empty)\<rparr>)\<rparr>"

text \<open>The lock inside one process: each scheduler has its own set.\<close>

definition local_acquire :: "nat \<Rightarrow> string \<Rightarrow> (nat \<Rightarrow> string list) \<Rightarrow> bool \<times> (nat \<Rightarrow> string list)" where
  "local_acquire s name l = (if name \<in> set (l s) then (False, l) else (True, l(s := List.insert name (l s))))"

definition local_release :: "nat \<Rightarrow> string \<Rightarrow> (nat \<Rightarrow> string list) \<Rightarrow> (nat \<Rightarrow> string list)" where
  "local_release s name l = l(s := removeAll name (l s))"

definition local_lock :: "(nat \<Rightarrow> string list) lock_ops" where
  "local_lock = \<lparr>lo_acquire = local_acquire, lo_release = local_release, lo_drop = (\<lambda>s l. l(s := []))\<rparr>"


section \<open>The executor\<close>

datatype status = Ok | Failed | Timeout | Skipped

text \<open>
  The points of \<open>_run_one\<close> and \<open>_spawn\<close> at which other coroutines may run: before the lock is asked
  for, between the lock and the child, while the child runs, while it is being killed, before the
  lock is given back, and at the end.
\<close>

datatype point = Before | Locked | Running | Killing | Leaving status | Ended status

text \<open>What the coroutine was waiting for: its turn, the child, or the clock.\<close>

datatype happening = Turn | Spawned | NoSpawn | Exited int | TimedOut

definition run_one :: "'s lock_ops \<Rightarrow> nat \<Rightarrow> cron_job \<Rightarrow> happening \<Rightarrow> 's \<times> point \<Rightarrow> ('s \<times> point) option" where
  "run_one L s job what x =
     (case (snd x, what) of
        (Before, Turn) \<Rightarrow> (let (got, l) = lo_acquire L s (cj_name job) (fst x) in Some (l, if got then Locked else Ended Skipped))
      | (Locked, Spawned) \<Rightarrow> Some (fst x, Running)
      | (Locked, NoSpawn) \<Rightarrow> Some (fst x, Leaving Failed)
      | (Running, Exited rc) \<Rightarrow> Some (fst x, Leaving (if rc = 0 then Ok else Failed))
      | (Running, TimedOut) \<Rightarrow> (if cj_timeout job = None then None else Some (fst x, Killing))
      | (Killing, Exited rc) \<Rightarrow> Some (fst x, Leaving Timeout)
      | (Leaving st, Turn) \<Rightarrow> Some (lo_release L s (cj_name job) (fst x), Ended st)
      | _ \<Rightarrow> None)"

text \<open>Schedulers that share the locks: where each job of each of them is, who was told to stop, and who is alive.\<close>

record 's cron =
  cr_locks :: 's
  cr_points :: "nat \<Rightarrow> string \<Rightarrow> point"
  cr_stopping :: "nat \<Rightarrow> bool"
  cr_alive :: "nat \<Rightarrow> bool"

definition cron_start :: "'s \<Rightarrow> 's cron" where
  "cron_start l = \<lparr>cr_locks = l, cr_points = (\<lambda>_ _. Before), cr_stopping = (\<lambda>_. False), cr_alive = (\<lambda>_. True)\<rparr>"

text \<open>\<open>Executor.stop\<close> sets the flag and signals the children that run; these exit, or not, in their own time.\<close>

definition stop_executor :: "nat \<Rightarrow> 's cron \<Rightarrow> string list \<Rightarrow> 's cron \<times> string list" where
  "stop_executor s c names =
     (c\<lparr>cr_stopping := (cr_stopping c)(s := True)\<rparr>, filter (\<lambda>n. cr_points c s n \<in> {Running, Killing}) names)"

inductive cron_step :: "'s lock_ops \<Rightarrow> 's cron \<Rightarrow> 's cron \<Rightarrow> bool" for L where
  job: "cr_alive c s \<Longrightarrow> run_one L s j what (cr_locks c, cr_points c s (cj_name j)) = Some (l, p) \<Longrightarrow>
    cron_step L c (c\<lparr>cr_locks := l, cr_points := (cr_points c)(s := (cr_points c s)(cj_name j := p))\<rparr>)"
| stop: "cr_alive c s \<Longrightarrow> cron_step L c (fst (stop_executor s c names))"
| dies: "cr_alive c s \<Longrightarrow> cron_step L c (c\<lparr>cr_locks := lo_drop L s (cr_locks c), cr_alive := (cr_alive c)(s := False)\<rparr>)"

inductive_cases cron_stepE: "cron_step L c d"

text \<open>The child of a job exists, or is about to, from the lock until it is given back.\<close>

definition engaged :: "point \<Rightarrow> bool" where
  "engaged p \<longleftrightarrow> (case p of Before \<Rightarrow> False | Ended _ \<Rightarrow> False | _ \<Rightarrow> True)"

text \<open>
  A lock, and the pairs of a scheduler and a job that it holds for. What the schedulers of one
  scope hold for one job is held by one of them; a pair may stay in the lock after it was given
  back, so \<open>holds\<close> is about what is held at least.
\<close>

locale job_lock =
  fixes L :: "'s lock_ops" and holds :: "'s \<Rightarrow> (nat \<times> string) set \<Rightarrow> bool" and scope :: "nat \<Rightarrow> nat"
  assumes acquired: "\<lbrakk>holds l H; (s, n) \<notin> H; lo_acquire L s n l = (True, l1)\<rbrakk> \<Longrightarrow> holds l1 (insert (s, n) H)"
    and refused: "lo_acquire L s n l = (False, l1) \<Longrightarrow> l1 = l"
    and released: "\<lbrakk>holds l H; (s, n) \<in> H\<rbrakk> \<Longrightarrow> holds (lo_release L s n l) (H - {(s, n)})"
    and dropped: "holds l H \<Longrightarrow> holds (lo_drop L s l) {x \<in> H. fst x \<noteq> s}"
    and alone: "\<lbrakk>holds l H; (s, n) \<in> H; (t, n) \<in> H; scope s = scope t\<rbrakk> \<Longrightarrow> s = t"
begin

definition inv :: "'s cron \<Rightarrow> bool" where
  "inv c \<longleftrightarrow> holds (cr_locks c) {(s, n). cr_alive c s \<and> engaged (cr_points c s n)}"

lemma inv_run_one:
  assumes "inv c" "cr_alive c s" and r: "run_one L s j what (cr_locks c, cr_points c s (cj_name j)) = Some (l, p)"
  shows "inv (c\<lparr>cr_locks := l, cr_points := (cr_points c)(s := (cr_points c s)(cj_name j := p))\<rparr>)" (is "inv ?d")
proof -
  let ?n = "cj_name j" and ?l = "cr_locks c" and ?H = "\<lambda>c. {(s, n). cr_alive c s \<and> engaged (cr_points c s n)}"
  have H: "holds ?l (?H c)" using assms(1) by (simp add: inv_def)
  consider (taken) "lo_acquire L s ?n ?l = (True, l)" "p = Locked" "\<not> engaged (cr_points c s ?n)"
    | (skipped) "lo_acquire L s ?n ?l = (False, l)" "p = Ended Skipped" "\<not> engaged (cr_points c s ?n)"
    | (same) "l = ?l" "engaged (cr_points c s ?n)" "engaged p"
    | (left) st where "l = lo_release L s ?n ?l" "p = Ended st" "engaged (cr_points c s ?n)"
    using r by (auto simp: run_one_def engaged_def Let_def split: point.splits happening.splits prod.splits if_splits bool.splits)
  then show ?thesis
  proof cases
    case taken
    have "?H ?d = insert (s, ?n) (?H c)" using taken(2) assms(2) by (auto simp: engaged_def split: if_splits)
    then show ?thesis using acquired [OF H _ taken(1)] taken(3) by (simp add: inv_def)
  next
    case skipped
    have "?H ?d = ?H c" using skipped(2,3) by (auto simp: engaged_def split: if_splits)
    then show ?thesis using H refused [OF skipped(1)] by (simp add: inv_def)
  next
    case same
    have "?H ?d = ?H c" using same(2,3) by (auto split: if_splits)
    then show ?thesis using H same(1) by (simp add: inv_def)
  next
    case left
    have "?H ?d = ?H c - {(s, ?n)}" using left(2) by (auto simp: engaged_def split: if_splits)
    then show ?thesis using released [OF H, of s ?n] left(1,3) assms(2) by (simp add: inv_def)
  qed
qed

lemma inv_step:
  assumes "cron_step L c d" "inv c"
  shows "inv d"
  using assms
proof (induction rule: cron_step.induct)
  case (job c s j what l p)
  then show ?case using inv_run_one by blast
next
  case (stop c s names)
  then show ?case by (simp add: stop_executor_def inv_def)
next
  case (dies c s)
  let ?H = "{(t, n). cr_alive c t \<and> engaged (cr_points c t n)}"
  have "{(t, n). ((cr_alive c)(s := False)) t \<and> engaged (cr_points c t n)} = {x \<in> ?H. fst x \<noteq> s}" by (auto split: if_splits)
  then show ?case using dropped [of "cr_locks c" ?H s] dies(2) by (simp add: inv_def)
qed

text \<open>Two schedulers that are alive and share the lock are never both engaged with one job.\<close>

lemma exclusive:
  assumes "(cron_step L)\<^sup>*\<^sup>* (cron_start l) c" "holds l {}" "cr_alive c s" "cr_alive c t" "scope s = scope t"
    and "engaged (cr_points c s n)" "engaged (cr_points c t n)"
  shows "s = t"
proof -
  have "inv c" using assms(1)
  proof (induction rule: rtranclp_induct)
    case base
    then show ?case using assms(2) by (simp add: inv_def cron_start_def engaged_def)
  next
    case (step b c)
    show ?case by (rule inv_step [OF step.hyps(2) step.IH])
  qed
  then show ?thesis using alone [OF _ _ _ assms(5)] assms(3,4,6,7) unfolding inv_def by blast
qed

end

text \<open>
  PostgreSQL, whatever the hash: the lock on a hash belongs to the session that holds for a job of
  that hash, and counts at least the jobs of that hash the session holds for.
\<close>

definition sharing :: "(string \<Rightarrow> 64 word) \<Rightarrow> (nat \<times> string) set \<Rightarrow> nat \<Rightarrow> string \<Rightarrow> string set" where
  "sharing hash H s n = {m. (s, m) \<in> H \<and> hash m = hash n}"

definition pg_holds :: "(string \<Rightarrow> 64 word) \<Rightarrow> advisory \<Rightarrow> (nat \<times> string) set \<Rightarrow> bool" where
  "pg_holds hash l H \<longleftrightarrow> (\<forall>s n. (s, n) \<in> H \<longrightarrow> finite (sharing hash H s n)
     \<and> (\<exists>k. l (hash n) = Some (s, k) \<and> card (sharing hash H s n) \<le> k))"

lemma pg_holdsD:
  assumes "pg_holds hash l H" "(s, n) \<in> H"
  obtains k where "l (hash n) = Some (s, k)" "finite (sharing hash H s n)" "card (sharing hash H s n) \<le> k"
  using assms unfolding pg_holds_def by blast

lemma pg_acquired:
  assumes h: "pg_holds hash l H" and new: "(s, n) \<notin> H" and a: "pg_acquire hash s n l = (True, l1)"
  shows "pg_holds hash l1 (insert (s, n) H)"
  unfolding pg_holds_def
proof (intro allI impI)
  fix t m
  assume tm: "(t, m) \<in> insert (s, n) H"
  let ?S = "sharing hash H s n"
  obtain k where l1: "l1 = l(hash n \<mapsto> (s, Suc k))" and k: "l (hash n) = None \<and> k = 0 \<or> l (hash n) = Some (s, k)"
    using a by (auto simp: pg_acquire_def split: option.splits if_splits)
  show "finite (sharing hash (insert (s, n) H) t m)
      \<and> (\<exists>k. l1 (hash m) = Some (t, k) \<and> card (sharing hash (insert (s, n) H) t m) \<le> k)"
  proof (cases "hash m = hash n")
    case True
    have t: "t = s"
    proof (cases "(t, m) = (s, n)")
      case False
      then obtain j where "l (hash m) = Some (t, j)" using tm pg_holdsD [OF h, of t m] by blast
      then show ?thesis using k True by auto
    qed simp
    have eq: "sharing hash (insert (s, n) H) t m = insert n ?S" using True t by (auto simp: sharing_def)
    have "finite ?S \<and> card ?S \<le> k"
    proof (cases "?S = {}")
      case False
      then obtain m' where m': "(s, m') \<in> H" "hash m' = hash n" by (auto simp: sharing_def)
      then have "sharing hash H s m' = ?S" by (simp add: sharing_def)
      then obtain j where "l (hash n) = Some (s, j)" "finite ?S" "card ?S \<le> j" using pg_holdsD [OF h m'(1)] m'(2) by metis
      then show ?thesis using k by simp
    qed simp
    moreover have "n \<notin> ?S" using new by (simp add: sharing_def)
    ultimately show ?thesis using True t l1 eq by simp
  next
    case False
    then have e: "sharing hash (insert (s, n) H) t m = sharing hash H t m" and "(t, m) \<in> H" using tm by (auto simp: sharing_def)
    then obtain j where "l (hash m) = Some (t, j)" "finite (sharing hash H t m)" "card (sharing hash H t m) \<le> j" using pg_holdsD [OF h] by blast
    then show ?thesis using False l1 e by simp
  qed
qed

lemma pg_released:
  assumes h: "pg_holds hash l H" and mem: "(s, n) \<in> H"
  shows "pg_holds hash (pg_release hash s n l) (H - {(s, n)})"
  unfolding pg_holds_def
proof (intro allI impI)
  fix t m
  assume tm: "(t, m) \<in> H - {(s, n)}"
  let ?H = "H - {(s, n)}"
  obtain k where k: "l (hash n) = Some (s, k)" "finite (sharing hash H s n)" "card (sharing hash H s n) \<le> k" using pg_holdsD [OF h mem] .
  obtain j where j: "l (hash m) = Some (t, j)" "finite (sharing hash H t m)" "card (sharing hash H t m) \<le> j" using pg_holdsD [OF h] tm by blast
  show "finite (sharing hash ?H t m) \<and> (\<exists>k. pg_release hash s n l (hash m) = Some (t, k) \<and> card (sharing hash ?H t m) \<le> k)"
  proof (cases "hash m = hash n")
    case True
    then have t: "t = s" "j = k" using j k by simp_all
    have eq: "sharing hash ?H t m = sharing hash H s n - {n}" and ms: "m \<in> sharing hash ?H t m"
      using True t tm by (auto simp: sharing_def)
    have "n \<in> sharing hash H s n" using mem by (simp add: sharing_def)
    then have c: "card (sharing hash ?H t m) = card (sharing hash H s n) - 1" "finite (sharing hash ?H t m)" using k(2) eq by simp_all
    moreover have "card (sharing hash ?H t m) \<noteq> 0" using ms c(2) by auto
    ultimately show ?thesis using k True t by (auto simp: pg_release_def)
  next
    case False
    then have "sharing hash ?H t m = sharing hash H t m" by (auto simp: sharing_def)
    then show ?thesis using j k False by (auto simp: pg_release_def)
  qed
qed

interpretation pg: job_lock "pg_lock hash" "pg_holds hash" "\<lambda>_. 0" for hash
proof unfold_locales
  fix l :: advisory and l1 :: advisory and H :: "(nat \<times> string) set" and s :: nat and t :: nat and n :: string
  show "pg_holds hash l1 (insert (s, n) H)" if "pg_holds hash l H" "(s, n) \<notin> H" "lo_acquire (pg_lock hash) s n l = (True, l1)"
    using pg_acquired [OF that(1,2)] that(3) by (simp add: pg_lock_def)
  show "l1 = l" if "lo_acquire (pg_lock hash) s n l = (False, l1)"
    using that by (auto simp: pg_lock_def pg_acquire_def split: option.splits if_splits)
  show "pg_holds hash (lo_release (pg_lock hash) s n l) (H - {(s, n)})" if "pg_holds hash l H" "(s, n) \<in> H"
    using pg_released [OF that] by (simp add: pg_lock_def)
  show "pg_holds hash (lo_drop (pg_lock hash) s l) {x \<in> H. fst x \<noteq> s}" if h: "pg_holds hash l H"
  proof -
    have "sharing hash {x \<in> H. fst x \<noteq> s} t m = sharing hash H t m" if "t \<noteq> s" for t m using that by (auto simp: sharing_def)
    then show ?thesis using h by (fastforce simp: pg_holds_def pg_lock_def)
  qed
  show "s = t" if "pg_holds hash l H" "(s, n) \<in> H" "(t, n) \<in> H"
    using pg_holdsD [OF that(1,2)] pg_holdsD [OF that(1,3)] by (metis option.inject prod.inject)
qed

text \<open>Files, and the lock inside a process, which is no wider than the process.\<close>

definition files_ok :: "(string \<Rightarrow> string) \<Rightarrow> string \<Rightarrow> flocks \<Rightarrow> bool" where
  "files_ok sha256 database l \<longleftrightarrow> (\<forall>s n p. fl_held l s n = Some p \<longrightarrow> p = lock_path sha256 database n \<and> fl_files l p = Some s
     \<and> (\<forall>t m. fl_held l t m = Some p \<longrightarrow> t = s \<and> m = n))"

definition file_owner :: "(string \<Rightarrow> string) \<Rightarrow> string \<Rightarrow> flocks \<Rightarrow> string \<Rightarrow> nat option" where
  "file_owner sha256 database l n =
     (case fl_files l (lock_path sha256 database n) of
        None \<Rightarrow> None
      | Some s \<Rightarrow> if fl_held l s n = Some (lock_path sha256 database n) then Some s else None)"

lemma file_owner_iff: "file_owner sha256 database l n = Some s \<longleftrightarrow>
    fl_files l (lock_path sha256 database n) = Some s \<and> fl_held l s n = Some (lock_path sha256 database n)"
  by (auto simp: file_owner_def split: option.splits)

lemma files_okD: "files_ok sha256 database l \<Longrightarrow> fl_held l s n = Some p \<Longrightarrow> p = lock_path sha256 database n \<and> fl_files l p = Some s"
  "files_ok sha256 database l \<Longrightarrow> fl_held l s n = Some p \<Longrightarrow> fl_held l t m = Some p \<Longrightarrow> t = s \<and> m = n"
  unfolding files_ok_def by blast+

lemma files_okI:
  "(\<And>s n p. fl_held l s n = Some p \<Longrightarrow> p = lock_path sha256 database n \<and> fl_files l p = Some s) \<Longrightarrow>
   (\<And>s n t m p. fl_held l s n = Some p \<Longrightarrow> fl_held l t m = Some p \<Longrightarrow> t = s \<and> m = n) \<Longrightarrow> files_ok sha256 database l"
  unfolding files_ok_def by blast

lemma file_released:
  assumes ok: "files_ok sha256 database l"
  shows "files_ok sha256 database (file_release s n l)"
    "file_owner sha256 database l m = Some t \<Longrightarrow> t \<noteq> s \<or> m \<noteq> n \<Longrightarrow> file_owner sha256 database (file_release s n l) m = Some t"
proof -
  have "files_ok sha256 database (file_release s n l) \<and>
      (file_owner sha256 database l m = Some t \<and> (t \<noteq> s \<or> m \<noteq> n) \<longrightarrow> file_owner sha256 database (file_release s n l) m = Some t)"
  proof (cases "fl_held l s n")
    case None
    then show ?thesis using ok by (simp add: file_release_def)
  next
    case (Some p)
    let ?l = "l\<lparr>fl_files := unlock_file p (fl_files l), fl_held := (fl_held l)(s := (fl_held l s)(n := None))\<rparr>"
    have e: "file_release s n l = ?l" using Some by (simp add: file_release_def)
    have other: "fl_held l u k = Some q \<Longrightarrow> (u, k) \<noteq> (s, n) \<Longrightarrow> q \<noteq> p" for u k q using files_okD(2) [OF ok Some] by blast
    have h: "fl_held ?l u k = Some q \<longleftrightarrow> fl_held l u k = Some q \<and> (u, k) \<noteq> (s, n)" for u k q by auto
    have f: "q \<noteq> p \<Longrightarrow> fl_files ?l q = fl_files l q" for q by (simp add: unlock_file_def)
    have "files_ok sha256 database ?l"
    proof (rule files_okI)
      show "q = lock_path sha256 database k \<and> fl_files ?l q = Some u" if "fl_held ?l u k = Some q" for u k q
        using that files_okD(1) [OF ok, of u k q] other [of u k q] f [of q] unfolding h by auto
      show "v = u \<and> j = k" if "fl_held ?l u k = Some q" "fl_held ?l v j = Some q" for u k v j q
        using that files_okD(2) [OF ok] unfolding h by blast
    qed
    moreover have "file_owner sha256 database ?l m = Some t" if "file_owner sha256 database l m = Some t" "t \<noteq> s \<or> m \<noteq> n"
      using that other [of t m] f h unfolding file_owner_iff by auto
    ultimately show ?thesis unfolding e by blast
  qed
  then show "files_ok sha256 database (file_release s n l)"
    "file_owner sha256 database l m = Some t \<Longrightarrow> t \<noteq> s \<or> m \<noteq> n \<Longrightarrow> file_owner sha256 database (file_release s n l) m = Some t"
    by blast+
qed

lemma file_dropped:
  assumes ok: "files_ok sha256 database l"
  shows "files_ok sha256 database \<lparr>fl_files = (\<lambda>p. if fl_files l p = Some s then None else fl_files l p), fl_held = (fl_held l)(s := Map.empty)\<rparr>"
    (is "files_ok _ _ ?l")
proof (rule files_okI)
  have h: "fl_held ?l u k = Some q \<longleftrightarrow> fl_held l u k = Some q \<and> u \<noteq> s" for u k q by auto
  show "q = lock_path sha256 database k \<and> fl_files ?l q = Some u" if "fl_held ?l u k = Some q" for u k q
    using that files_okD(1) [OF ok, of u k q] unfolding h by auto
  show "v = u \<and> j = k" if "fl_held ?l u k = Some q" "fl_held ?l v j = Some q" for u k v j q
    using that files_okD(2) [OF ok] unfolding h by blast
qed

definition files_hold :: "(string \<Rightarrow> string) \<Rightarrow> string \<Rightarrow> flocks \<Rightarrow> (nat \<times> string) set \<Rightarrow> bool" where
  "files_hold sha256 database l H \<longleftrightarrow> files_ok sha256 database l \<and> (\<forall>(s, n) \<in> H. file_owner sha256 database l n = Some s)"

interpretation files: job_lock "file_lock sha256 database" "files_hold sha256 database" "\<lambda>_. 0" for sha256 database
proof unfold_locales
  fix l :: flocks and l1 :: flocks and H :: "(nat \<times> string) set" and s :: nat and t :: nat and n :: string
  show "files_hold sha256 database l1 (insert (s, n) H)"
    if h: "files_hold sha256 database l H" and a: "lo_acquire (file_lock sha256 database) s n l = (True, l1)"
  proof -
    have ok: "files_ok sha256 database l" using h by (simp add: files_hold_def)
    have "files_ok sha256 database l1 \<and> file_owner sha256 database l1 n = Some s"
      using a ok files_okD [OF ok]
      by (auto simp: file_lock_def file_acquire_def try_lock_def Let_def file_owner_iff files_ok_def split: if_splits)
    moreover have "file_owner sha256 database l1 m = Some t" if "file_owner sha256 database l m = Some t" for t m
      using a that by (auto simp: file_lock_def file_acquire_def try_lock_def Let_def file_owner_iff split: if_splits)
    ultimately show ?thesis using h by (auto simp: files_hold_def)
  qed
  show "l1 = l" if "lo_acquire (file_lock sha256 database) s n l = (False, l1)"
    using that by (auto simp: file_lock_def file_acquire_def try_lock_def Let_def split: if_splits)
  show "files_hold sha256 database (lo_release (file_lock sha256 database) s n l) (H - {(s, n)})"
    if "files_hold sha256 database l H"
    using that file_released [of sha256 database l] by (fastforce simp: files_hold_def file_lock_def)
  show "files_hold sha256 database (lo_drop (file_lock sha256 database) s l) {x \<in> H. fst x \<noteq> s}" if "files_hold sha256 database l H"
    using that file_dropped [of sha256 database l s] by (auto simp: files_hold_def file_lock_def file_owner_iff)
  show "s = t" if "files_hold sha256 database l H" "(s, n) \<in> H" "(t, n) \<in> H"
  proof -
    have "file_owner sha256 database l n = Some s" "file_owner sha256 database l n = Some t" using that unfolding files_hold_def by blast+
    then show ?thesis by simp
  qed
qed

interpretation inside: job_lock local_lock "\<lambda>l H. \<forall>(s, n) \<in> H. n \<in> set (l s)" "\<lambda>s. s"
  by unfold_locales (auto simp: local_lock_def local_acquire_def local_release_def split: if_splits)


section \<open>Commands\<close>

definition select_due :: "cron_lib \<Rightarrow> cron_job list \<Rightarrow> int \<Rightarrow> string option \<Rightarrow> cron_job list" where
  "select_due lib jobs minute only =
     (case only of Some name \<Rightarrow> filter (\<lambda>j. cj_name j = name) jobs | None \<Rightarrow> filter (is_due lib minute) jobs)"

text \<open>\<open>Executor.run\<close> returns when every job has ended; \<open>cmd_run\<close> reads the outcomes.\<close>

definition run_outcomes :: "nat \<Rightarrow> 's cron \<Rightarrow> cron_job list \<Rightarrow> status list option" where
  "run_outcomes s c due =
     (if list_all (\<lambda>j. \<exists>st \<in> {Ok, Failed, Timeout, Skipped}. cr_points c s (cj_name j) = Ended st) due
      then Some (map (\<lambda>j. case cr_points c s (cj_name j) of Ended st \<Rightarrow> st | _ \<Rightarrow> Failed) due) else None)"

definition cmd_run :: "cron_job list \<Rightarrow> bool \<Rightarrow> (cron_job list \<Rightarrow> status list) \<Rightarrow> int" where
  "cmd_run due dry_run executor =
     (if due = [] then 0 else if dry_run then 0
      else if list_ex (\<lambda>st. st = Failed \<or> st = Timeout) (executor due) then 1 else 0)"

definition list_rows :: "cron_lib \<Rightarrow> cron_job list \<Rightarrow> int \<Rightarrow> (string \<times> string \<times> int \<times> string list) list" where
  "list_rows lib jobs now = map (\<lambda>j. (cj_name j, cj_schedule j, next_run lib now j, cj_command j)) jobs"

text \<open>
  \<open>cmd_work\<close>: one turn of its loop per minute, with whether the stop came before or during the
  wait, the child that was started, if it could be, and the ticks that have ended since.
\<close>

record work_turn =
  wt_stopped :: bool
  wt_started :: "nat option"
  wt_over :: "nat list"

fun work_loop :: "work_turn list \<Rightarrow> nat list \<Rightarrow> (int \<times> nat list) option" where
  "work_loop [] ticks = None"
| "work_loop (t # ts) ticks =
     (if wt_stopped t then Some (0, ticks)
      else case wt_started t of
             None \<Rightarrow> Some (1, [])
           | Some pid \<Rightarrow> work_loop ts (filter (\<lambda>p. p \<notin> set (wt_over t)) (ticks @ [pid])))"

definition wait_seconds :: "int \<Rightarrow> int" where
  "wait_seconds now = (current_minute now + 1) * 60 - now"

section \<open>The service\<close>

record cron_args =
  ca_step :: string
  ca_job :: "string option"
  ca_dry_run :: bool

text \<open>\<open>_db_config\<close> and \<open>_job_lock\<close>: which lock a run takes; an unknown database or driver ends with 2.\<close>

datatype lock_choice = UseFile string | UsePg config

definition choose_lock :: "config \<Rightarrow> config \<Rightarrow> int + lock_choice" where
  "choose_lock conf config =
     (case (cget conf ''db'', get_or config ''db'' (CDict [])) of
        (CStr name, CDict dbs) \<Rightarrow>
          (case map_of dbs name of
             Some (CDict db) \<Rightarrow>
               (case db_driver db of
                  Inl e \<Rightarrow> Inl 2
                | Inr driver \<Rightarrow>
                    if driver = SQLITE then (case map_of db ''database'' of Some (CStr d) \<Rightarrow> Inr (UseFile d) | _ \<Rightarrow> Inl 1)
                    else Inr (UsePg db))
           | Some _ \<Rightarrow> Inl 1
           | None \<Rightarrow> Inl 2)
      | (_, CDict dbs) \<Rightarrow> Inl 2
      | _ \<Rightarrow> Inl 1)"

text \<open>\<open>init_service\<close>: the exit code; \<open>start\<close> runs the jobs under the lock, or fails to get a connection.\<close>

definition cron_service ::
  "cron_lib \<Rightarrow> (lock_choice \<Rightarrow> (cron_job list \<Rightarrow> status list) option) \<Rightarrow> work_turn list \<Rightarrow> config \<Rightarrow> int \<Rightarrow> cron_args \<Rightarrow> int option" where
  "cron_service lib start turns config now a =
     (case (cron_settings config, load_jobs lib config) of
        (Inr conf, Inr jobs) \<Rightarrow>
          if ca_step a = ''list'' then Some 0
          else if ca_step a = ''work'' then map_option fst (work_loop turns [])
          else if ca_step a \<noteq> ''run'' then Some 1
          else (let due = select_due lib jobs (current_minute now) (ca_job a)
                in if ca_job a \<noteq> None \<and> due = [] then Some 2
                   else if ca_dry_run a \<or> due = [] then Some (cmd_run due True (\<lambda>_. []))
                   else (case choose_lock conf config of
                           Inl rc \<Rightarrow> Some rc
                         | Inr lock \<Rightarrow> (case start lock of None \<Rightarrow> Some 1 | Some executor \<Rightarrow> Some (cmd_run due False executor))))
      | (Inr conf, Inl CronError) \<Rightarrow> Some 2
      | _ \<Rightarrow> Some 1)"

section \<open>Properties\<close>

definition overlapping :: "'s cron \<Rightarrow> nat \<Rightarrow> nat \<Rightarrow> string \<Rightarrow> bool" where
  "overlapping c s t n \<longleftrightarrow> cr_alive c s \<and> cr_alive c t \<and> engaged (cr_points c s n) \<and> engaged (cr_points c t n)"

definition no_files :: flocks where
  "no_files = \<lparr>fl_files = Map.empty, fl_held = (\<lambda>_. Map.empty)\<rparr>"

text \<open>
  C8. A job never runs twice at once: however the schedulers interleave, time out, are stopped or
  die, no two schedulers that are alive are engaged with one job at the same time, under the
  advisory lock and under the lock files. Nothing is asked of the 64-bit hash of the advisory
  lock: where two names share one, a session counts both and other sessions skip both. The child
  of a scheduler that died is not covered, as its lock went with it.
\<close>

theorem cron_runs_exclusive:
  assumes "(cron_step (pg_lock hash))\<^sup>*\<^sup>* (cron_start l) c"
    and "(cron_step (file_lock sha256 database))\<^sup>*\<^sup>* (cron_start no_files) d"
  shows "(overlapping c s t n \<longrightarrow> s = t) \<and> (overlapping d s t n \<longrightarrow> s = t)"
proof
  have "pg_holds hash l {}" by (simp add: pg_holds_def)
  then show "overlapping c s t n \<longrightarrow> s = t"
    using pg.exclusive [OF assms(1)] by (auto simp: overlapping_def)
  have "files_hold sha256 database no_files {}" by (simp add: files_hold_def files_ok_def no_files_def)
  then show "overlapping d s t n \<longrightarrow> s = t"
    using files.exclusive [OF assms(2)] by (auto simp: overlapping_def)
qed

text \<open>The first match after a minute, for an expression that matches again.\<close>

definition first_match :: "(string \<Rightarrow> string \<Rightarrow> int \<Rightarrow> bool) \<Rightarrow> cron_lib \<Rightarrow> bool" where
  "first_match matches lib \<longleftrightarrow> (\<forall>e z t. t < cl_next lib e z t \<and> matches e z (cl_next lib e z t)
     \<and> (\<forall>m. t < m \<and> m < cl_next lib e z t \<longrightarrow> \<not> matches e z m))"

text \<open>
  The job that an entry of \<open>jobs\<close> stands for: under the entry's own name, with the zone the entry
  names or else the default one, the timeout it gives if any, its expression and its command.
\<close>

definition job_ok :: "cron_lib \<Rightarrow> cv \<Rightarrow> string \<times> cv \<Rightarrow> cron_job \<Rightarrow> bool" where
  "job_ok lib dz x job \<longleftrightarrow> cj_name job = fst x \<and> strip (fst x) \<noteq> [] \<and> cl_zone lib (cj_zone job)
     \<and> (\<exists>raw e cmd. snd x = CDict raw \<and> set (dict_keys raw) \<subseteq> set JOB_KEYS \<and> cget raw ''schedule'' = CStr e \<and> cl_syntax lib e
          \<and> cj_schedule job = strip e \<and> strip e \<noteq> [] \<and> cget raw ''command'' = CStr cmd \<and> shlex_split cmd = Some (cj_command job)
          \<and> CStr (cj_zone job) = (if ''timezone'' \<in> set (dict_keys raw) then cget raw ''timezone'' else dz)
          \<and> (case cj_timeout job of None \<Rightarrow> cget raw ''timeout'' = CNone | Some n \<Rightarrow> 1 \<le> n \<and> cget raw ''timeout'' = CInt n))"

lemma named_zone: "(case map_of raw k of Some z \<Rightarrow> z | None \<Rightarrow> d) = (if k \<in> set (dict_keys raw) then cget raw k else d)"
  by (auto simp: cget_def dict_keys_def map_of_eq_None_iff split: option.splits dest: map_of_SomeD) (metis fst_conv image_eqI map_of_SomeD)

lemma make_job_ok: "make_job lib name v z = Inr job \<Longrightarrow> strip name \<noteq> [] \<Longrightarrow> job_ok lib z (name, v) job"
  unfolding make_job_def named_zone
  by (auto simp: job_ok_def job_text_def job_timeout_def zone_of_def list_all_iff split: cv.splits sum.splits if_splits option.splits)

lemma make_jobs_ok: "make_jobs lib raw z = Inr jobs \<Longrightarrow> list_all2 (job_ok lib z) raw jobs"
proof (induction raw arbitrary: jobs)
  case (Cons x raw)
  then show ?case by (cases x) (auto simp: make_job_ok split: if_splits sum.splits)
qed simp

lemma is_due_matches:
  assumes "first_match matches lib"
  shows "is_due lib minute job \<longleftrightarrow> matches (cj_schedule job) (cj_zone job) (cl_local lib (cj_zone job) minute)"
proof -
  let ?t = "cl_local lib (cj_zone job) minute" and ?n = "cl_next lib (cj_schedule job) (cj_zone job)"
  have n: "?t - 1 < ?n (?t - 1)" "matches (cj_schedule job) (cj_zone job) (?n (?t - 1))"
    and f: "\<And>m. ?t - 1 < m \<Longrightarrow> m < ?n (?t - 1) \<Longrightarrow> \<not> matches (cj_schedule job) (cj_zone job) m"
    using assms unfolding first_match_def by blast+
  show ?thesis
  proof
    assume "is_due lib minute job"
    then show "matches (cj_schedule job) (cj_zone job) ?t" using n(2) by (simp add: is_due_def Let_def)
  next
    assume m: "matches (cj_schedule job) (cj_zone job) ?t"
    then have "\<not> ?t < ?n (?t - 1)" using f [of ?t] by auto
    then show "is_due lib minute job" using n(1) by (simp add: is_due_def Let_def)
  qed
qed


lemma load_jobs_ok:
  assumes "load_jobs lib config = Inr jobs"
  shows "\<exists>conf raw. cron_settings config = Inr conf \<and> cget conf ''jobs'' = CDict raw \<and> list_all2 (job_ok lib (cget conf ''timezone'')) raw jobs"
  using assms make_jobs_ok by (fastforce simp: load_jobs_def split: sum.splits cv.splits)

text \<open>
  C23. What \<open>cron run\<close> runs: a configuration that loads gives one job per entry, in its order, each
  with the expression and the command of the entry, the zone the entry names or else the default
  one of the configuration, which is known, and the entry's positive timeout if it has one; or the
  service ends with a code other than 0 before anything runs. Of these exactly the ones whose expression
  matches the current minute in their own zone are run, or the one that was named; and the exit
  code is 1 exactly when one of them failed or was killed, a skipped run being no failure.
\<close>

theorem cron_fires:
  assumes "first_match matches lib" and "start = (\<lambda>_. Some executor)" and "ca_step a = ''run''" and "cron_service lib start turns config now a = Some rc"
  shows "rc \<noteq> 0 \<and> isl (load_jobs lib config) \<or>
    (\<exists>conf raw jobs due. cron_settings config = Inr conf \<and> cget conf ''jobs'' = CDict raw \<and> list_all2 (job_ok lib (cget conf ''timezone'')) raw jobs
       \<and> due = filter (\<lambda>j. case ca_job a of Some name \<Rightarrow> cj_name j = name
                  | None \<Rightarrow> matches (cj_schedule j) (cj_zone j) (cl_local lib (cj_zone j) (now div 60))) jobs
       \<and> (if due = [] then rc = (if ca_job a = None then 0 else 2)
          else if ca_dry_run a then rc = 0
          else if isl (choose_lock conf config) then rc = projl (choose_lock conf config)
          else rc = (if \<exists>st \<in> set (executor due). st = Failed \<or> st = Timeout then 1 else 0)))"
proof (cases "load_jobs lib config")
  case (Inl e)
  then have "rc \<noteq> 0" using assms(4) by (auto simp: cron_service_def split: sum.splits cron_error.splits)
  then show ?thesis using Inl by simp
next
  case (Inr jobs)
  obtain conf raw where c: "cron_settings config = Inr conf" "cget conf ''jobs'' = CDict raw" "list_all2 (job_ok lib (cget conf ''timezone'')) raw jobs"
    using load_jobs_ok [OF Inr] by blast
  let ?due = "filter (\<lambda>j. case ca_job a of Some name \<Rightarrow> cj_name j = name
      | None \<Rightarrow> matches (cj_schedule j) (cj_zone j) (cl_local lib (cj_zone j) (now div 60))) jobs"
  have due: "select_due lib jobs (current_minute now) (ca_job a) = ?due"
    using is_due_matches [OF assms(1)] by (cases "ca_job a") (auto simp: select_due_def current_minute_def intro: filter_cong)
  have "if ?due = [] then rc = (if ca_job a = None then 0 else 2)
      else if ca_dry_run a then rc = 0
      else if isl (choose_lock conf config) then rc = projl (choose_lock conf config)
      else rc = (if \<exists>st \<in> set (executor ?due). st = Failed \<or> st = Timeout then 1 else 0)"
    using assms(2-4) c Inr due
    by (cases "choose_lock conf config") (auto simp: cron_service_def cmd_run_def Let_def list_ex_iff split: if_splits)
  then show ?thesis using c by blast
qed

text \<open>A command with an unbalanced quote is not reported as a mistake in the configuration, and stops every job.\<close>

lemma unbalanced_quote:
  assumes "cget raw ''command'' = CStr cmd" "strip cmd \<noteq> []" "shlex_split cmd = None"
  shows "make_job lib name (CDict raw) z \<noteq> Inr job \<and>
    (make_job lib name (CDict [(''schedule'', CStr ''*''), (''command'', CStr [CHR 0x27])]) (CStr ''UTC'') = Inl CronOther
      \<or> \<not> cl_zone lib ''UTC'' \<or> \<not> cl_syntax lib ''*'')"
proof
  show "make_job lib name (CDict raw) z \<noteq> Inr job"
    using assms by (auto simp: make_job_def job_text_def split: sum.splits)
  have "shlex_split [CHR 0x27] = None" "strip [CHR 0x27] \<noteq> []" "strip ''*'' \<noteq> []" by code_simp+
  then show "make_job lib name (CDict [(''schedule'', CStr ''*''), (''command'', CStr [CHR 0x27])]) (CStr ''UTC'') = Inl CronOther
      \<or> \<not> cl_zone lib ''UTC'' \<or> \<not> cl_syntax lib ''*''"
    by (auto simp: make_job_def job_text_def job_timeout_def zone_of_def JOB_KEYS_def dict_keys_def cget_def)
qed

text \<open>Being told to stop does not keep a job that has its lock from starting its child.\<close>

lemma stop_does_not_prevent_start:
  fixes j :: cron_job
  assumes "cr_alive c s" "cr_points c s (cj_name j) = Locked" "d = fst (stop_executor s c names)"
  shows "cr_stopping d s \<and> cj_name j \<notin> set (snd (stop_executor s c names))
    \<and> (\<exists>e. cron_step L d e \<and> cr_points e s (cj_name j) = Running)"
proof -
  have "run_one L s j Spawned (cr_locks d, cr_points d s (cj_name j)) = Some (cr_locks d, Running)"
    using assms by (simp add: run_one_def stop_executor_def)
  from cron_step.job [OF _ this] assms show ?thesis
    by (auto simp: stop_executor_def intro!: exI)
qed

section \<open>Witnesses\<close>

text \<open>A library whose only expression matches every tenth minute, and which knows a zone five minutes off.\<close>

definition demo_lib :: cron_lib where
  "demo_lib = \<lparr>cl_zone = (\<lambda>z. z = ''UTC'' \<or> z = ''Off''), cl_syntax = (\<lambda>e. True), cl_local = (\<lambda>z m. if z = ''Off'' then m + 5 else m),
     cl_next = (\<lambda>e z t. (t div 10 + 1) * 10)\<rparr>"

lemma demo_first_match: "first_match (\<lambda>e z m. m mod 10 = 0) demo_lib"
  unfolding first_match_def demo_lib_def by (simp, presburger)

definition demo_jobs :: "(string, cv) dict" where
  "demo_jobs =
     [(''tidy'', CDict [(''schedule'', CStr ''*/10 * * * *''), (''command'', CStr ''queue forget --before 1'')]),
      (''mail'', CDict [(''schedule'', CStr ''*/10 * * * *''), (''command'', CStr ''mail send''), (''timezone'', CStr ''Off'')])]"

definition demo_cron :: config where
  "demo_cron = [(''cron'', CDict [(''jobs'', CDict demo_jobs)]),
     (''db'', CDict [(''main'', CDict [(''driver'', CStr ''sqlite''), (''database'', CStr ''app.db'')])])]"

definition demo_executor :: "cron_job list \<Rightarrow> status list" where
  "demo_executor due = map (\<lambda>j. if cj_name j = ''mail'' then Failed else Ok) due"

lemma demo_fires:
  "cron_service demo_lib (\<lambda>_. Some demo_executor) [] demo_cron 1500 \<lparr>ca_step = ''run'', ca_job = None, ca_dry_run = False\<rparr> = Some 1"
  by code_simp

lemma demo_loads:
  "\<not> isl (load_jobs demo_lib demo_cron)"
  "\<exists>conf. cron_settings demo_cron = Inr conf \<and> cget conf ''jobs'' = CDict demo_jobs \<and> cget conf ''timezone'' = CStr ''UTC''
     \<and> choose_lock conf demo_cron = Inr (UseFile ''app.db'')"
proof -
  show "\<not> isl (load_jobs demo_lib demo_cron)" by code_simp
  have "case cron_settings demo_cron of Inl _ \<Rightarrow> False | Inr conf \<Rightarrow> cget conf ''jobs'' = CDict demo_jobs
      \<and> cget conf ''timezone'' = CStr ''UTC'' \<and> choose_lock conf demo_cron = Inr (UseFile ''app.db'')"
    by code_simp
  then show "\<exists>conf. cron_settings demo_cron = Inr conf \<and> cget conf ''jobs'' = CDict demo_jobs \<and> cget conf ''timezone'' = CStr ''UTC''
     \<and> choose_lock conf demo_cron = Inr (UseFile ''app.db'')"
    by (auto split: sum.splits)
qed

text \<open>In minute 25 the job in the other zone is due, and it is its failure that is reported.\<close>

theorem cron_fires_witness:
  "\<exists>jobs due. list_all2 (job_ok demo_lib (CStr ''UTC'')) demo_jobs jobs
     \<and> due = filter (\<lambda>j. cl_local demo_lib (cj_zone j) 25 mod 10 = 0) jobs \<and> due \<noteq> []
     \<and> (\<exists>st \<in> set (demo_executor due). st = Failed \<or> st = Timeout)"
proof -
  obtain conf where c: "cron_settings demo_cron = Inr conf" "cget conf ''jobs'' = CDict demo_jobs" "cget conf ''timezone'' = CStr ''UTC''"
      "choose_lock conf demo_cron = Inr (UseFile ''app.db'')"
    using demo_loads(2) by blast
  show ?thesis
    using cron_fires [OF demo_first_match refl _ demo_fires] demo_loads(1) c by (auto split: if_splits)
qed

definition tidy_job :: cron_job where
  "tidy_job = \<lparr>cj_name = ''tidy'', cj_schedule = ''*/10 * * * *'', cj_command = [''queue''], cj_zone = ''UTC'', cj_timeout = Some 5\<rparr>"

text \<open>Under the worst of hashes, which gives every name the same key, and under the lock files.\<close>

theorem cron_runs_exclusive_witness:
  "\<exists>c d. (cron_step (pg_lock (\<lambda>_. 0)))\<^sup>*\<^sup>* (cron_start Map.empty) c \<and> cr_points c 1 ''tidy'' = Locked
    \<and> (cron_step (file_lock id ''app.db''))\<^sup>*\<^sup>* (cron_start no_files) d \<and> cr_points d 1 ''tidy'' = Locked
    \<and> (\<not> overlapping c 1 2 ''tidy'' \<or> (1::nat) = 2) \<and> (\<not> overlapping d 1 2 ''tidy'' \<or> (1::nat) = 2)"
proof -
  let ?P = "pg_lock (\<lambda>_ :: string. 0)" and ?L = "file_lock id ''app.db''" and ?b = "cron_start (Map.empty :: advisory)" and ?c = "cron_start no_files"
  obtain k where k: "run_one ?P 1 tidy_job Turn (cr_locks ?b, cr_points ?b 1 (cj_name tidy_job)) = Some (k, Locked)"
    by (simp add: run_one_def cron_start_def pg_lock_def pg_acquire_def Let_def)
  obtain l where l: "run_one ?L 1 tidy_job Turn (cr_locks ?c, cr_points ?c 1 (cj_name tidy_job)) = Some (l, Locked)"
    by (simp add: run_one_def cron_start_def file_lock_def file_acquire_def try_lock_def no_files_def Let_def)
  let ?a = "?b\<lparr>cr_locks := k, cr_points := (cr_points ?b)(1 := (cr_points ?b 1)(cj_name tidy_job := Locked))\<rparr>"
  let ?d = "?c\<lparr>cr_locks := l, cr_points := (cr_points ?c)(1 := (cr_points ?c 1)(cj_name tidy_job := Locked))\<rparr>"
  have pg: "(cron_step ?P)\<^sup>*\<^sup>* ?b ?a" by (rule r_into_rtranclp, rule cron_step.job [OF _ k]) (simp add: cron_start_def)
  have step: "(cron_step ?L)\<^sup>*\<^sup>* ?c ?d" by (rule r_into_rtranclp, rule cron_step.job [OF _ l]) (simp add: cron_start_def)
  have "cr_points ?a 1 ''tidy'' = Locked" "cr_points ?d 1 ''tidy'' = Locked" by (simp_all add: tidy_job_def)
  moreover have "(overlapping ?a 1 2 ''tidy'' \<longrightarrow> (1::nat) = 2) \<and> (overlapping ?d 1 2 ''tidy'' \<longrightarrow> (1::nat) = 2)"
    by (rule cron_runs_exclusive [OF pg step])
  ultimately show ?thesis using pg step by blast
qed

end
