(* ===== verification/Audit_Diff.thy ===== *)
theory Audit_Diff
  imports Py_Json Complex_Main
begin

text \<open>
  Comparing rows: \<open>audit/diff.py\<close>. A value is of one of the classes the comparison tells apart; a
  number that is not an int is the text it prints as, a date or time carries its value and its
  text; a container its JSON text with sorted keys, its text, and the JSON text the trail stores, \<open>None\<close>
  where it has none. Decimal numbers follow the grammar of
  \<open>decimal.Decimal\<close>. The ISO readers of \<open>datetime\<close> are parameters.
\<close>

section \<open>Values\<close>

datatype pv = PNone | PBool bool | PInt int | PDecimal string | PFloat string | PText string
  | PDate int string | PTime int "int option" string | PBox string string "string option" | PObject string

definition int_text :: "int \<Rightarrow> string" where
  "int_text n = map char_of (show_int n)"

definition text_of :: "pv \<Rightarrow> string" where
  "text_of v =
     (case v of
        PNone \<Rightarrow> ''None'' | PBool b \<Rightarrow> (if b then ''True'' else ''False'') | PInt n \<Rightarrow> int_text n
      | PDecimal t \<Rightarrow> t | PFloat t \<Rightarrow> t | PText t \<Rightarrow> t | PDate d t \<Rightarrow> t | PTime m z t \<Rightarrow> t | PBox j t u \<Rightarrow> t | PObject t \<Rightarrow> t)"

definition ascii_escape :: "nat \<Rightarrow> codes" where
  "ascii_escape c = (if c < 127 then escape c else [92, 117, 48, 48, hex_lower (c div 16), hex_lower (c mod 16)])"

definition ascii_quoted :: "string \<Rightarrow> string" where
  "ascii_quoted t = map char_of (34 # concat (map ascii_escape (to_text t)) @ [34])"

definition float_json :: "string \<Rightarrow> string" where
  "float_json t = (if t = ''nan'' then ''NaN'' else if t = ''inf'' then ''Infinity'' else if t = ''-inf'' then ''-Infinity'' else t)"

text \<open>\<open>_json\<close>: \<open>default=str\<close> makes a string of what JSON has no form for.\<close>

definition json_of :: "pv \<Rightarrow> string" where
  "json_of v =
     (case v of
        PNone \<Rightarrow> ''null'' | PBool b \<Rightarrow> (if b then ''true'' else ''false'') | PInt n \<Rightarrow> int_text n | PFloat t \<Rightarrow> float_json t | PBox j t u \<Rightarrow> j
      | _ \<Rightarrow> ascii_quoted (text_of v))"

section \<open>Booleans\<close>

definition TRUE_TEXTS :: "string list" where
  "TRUE_TEXTS = [''1'', ''t'', ''true'', ''y'', ''yes'', ''on'']"

definition FALSE_TEXTS :: "string list" where
  "FALSE_TEXTS = [''0'', ''f'', ''false'', ''n'', ''no'', ''off'', []]"

definition boolish :: "pv \<Rightarrow> string" where
  "boolish v =
     (case v of
        PBool b \<Rightarrow> (if b then ''1'' else ''0'')
      | PInt n \<Rightarrow> (if n = 1 then ''1'' else if n = 0 then ''0'' else int_text n)
      | _ \<Rightarrow> (let t = lower (strip (text_of v))
              in if t \<in> set TRUE_TEXTS then ''1'' else if t \<in> set FALSE_TEXTS then ''0'' else t))"

section \<open>Numbers\<close>

text \<open>A finite number is its signed digits and its exponent.\<close>

datatype dec = Finite int int | Infinite bool | NaN | SNaN

definition digits_value :: "string \<Rightarrow> int" where
  "digits_value ds = foldl (\<lambda>n c. n * 10 + int (code c - 48)) 0 ds"

definition all_digits :: "string \<Rightarrow> bool" where
  "all_digits s = list_all is_digit s"

definition split_sign :: "string \<Rightarrow> bool \<times> string" where
  "split_sign s = (case s of c # r \<Rightarrow> if c = CHR ''-'' then (True, r) else if c = CHR ''+'' then (False, r) else (False, s) | [] \<Rightarrow> (False, s))"

definition read_exponent :: "string \<Rightarrow> int option" where
  "read_exponent s =
     (case split_sign s of (neg, ds) \<Rightarrow>
        if ds \<noteq> [] \<and> all_digits ds then Some (if neg then - digits_value ds else digits_value ds) else None)"

definition MAX_EXPONENT :: int where "MAX_EXPONENT = 999999999999999999"

definition read_finite :: "bool \<Rightarrow> string \<Rightarrow> dec option" where
  "read_finite neg s =
     (case partition_on CHR ''e'' s of (mantissa, has_exp, exponent) \<Rightarrow>
        (case partition_on CHR ''.'' mantissa of (whole, dot, fraction) \<Rightarrow>
           if \<not> all_digits (whole @ fraction) \<or> whole @ fraction = [] then None
           else (case (if has_exp then read_exponent exponent else Some 0) of
                   None \<Rightarrow> None
                 | Some e \<Rightarrow>
                     (let n = digits_value (whole @ fraction); x = e - int (length fraction)
                      in if n \<noteq> 0 \<and> (MAX_EXPONENT < x + int (length (dropWhile (\<lambda>c. c = CHR ''0'') (whole @ fraction))) - 1 \<or> x < - 2 * MAX_EXPONENT + 1)
                         then None
                         else Some (Finite (if neg then - n else n) x)))))"

definition has_prefix :: "string \<Rightarrow> string \<Rightarrow> bool" where
  "has_prefix p s \<longleftrightarrow> take (length p) s = p"

text \<open>\<open>Decimal(text)\<close>: None is \<open>InvalidOperation\<close>.\<close>

definition read_decimal :: "string \<Rightarrow> dec option" where
  "read_decimal text =
     (case split_sign (lower (filter (\<lambda>c. c \<noteq> CHR ''_'') (strip text))) of (neg, s) \<Rightarrow>
        if s = ''inf'' \<or> s = ''infinity'' then Some (Infinite neg)
        else if has_prefix ''nan'' s \<and> all_digits (drop 3 s) then Some NaN
        else if has_prefix ''snan'' s \<and> all_digits (drop 4 s) then Some SNaN
        else read_finite neg s)"

definition as_decimal :: "pv \<Rightarrow> dec option" where
  "as_decimal v =
     (case v of
        PDecimal t \<Rightarrow> read_decimal t | PInt n \<Rightarrow> Some (Finite n 0) | PFloat t \<Rightarrow> read_decimal t | PText t \<Rightarrow> read_decimal t | _ \<Rightarrow> None)"

text \<open>\<open>==\<close> on decimals: None where a signalling NaN raises \<open>InvalidOperation\<close>.\<close>

definition scaled_eq :: "int \<Rightarrow> int \<Rightarrow> int \<Rightarrow> int \<Rightarrow> bool" where
  "scaled_eq m x n y \<longleftrightarrow> (let low = min x y in m * 10 ^ nat (x - low) = n * 10 ^ nat (y - low))"

definition decimal_eq :: "dec \<Rightarrow> dec \<Rightarrow> bool option" where
  "decimal_eq a b =
     (if a = SNaN \<or> b = SNaN then None
      else Some (case (a, b) of
        (Finite m x, Finite n y) \<Rightarrow> scaled_eq m x n y
      | (Infinite p, Infinite q) \<Rightarrow> p = q
      | _ \<Rightarrow> False))"

section \<open>Dates and times\<close>

record iso =
  iso_date :: "string \<Rightarrow> int option"
  iso_time :: "string \<Rightarrow> (int \<times> int option) option"

datatype moment = Day int | Instant int "int option"

definition DAY :: int where "DAY = 86400000000"

definition is_temporal :: "pv \<Rightarrow> bool" where
  "is_temporal v = (case v of PDate _ _ \<Rightarrow> True | PTime _ _ _ \<Rightarrow> True | _ \<Rightarrow> False)"

definition is_plain_date :: "pv \<Rightarrow> bool" where
  "is_plain_date v = (case v of PDate _ _ \<Rightarrow> True | _ \<Rightarrow> False)"

text \<open>A time is its microseconds on the wall clock, with the offset of its zone if it has one.\<close>

definition as_datetime :: "iso \<Rightarrow> bool \<Rightarrow> pv \<Rightarrow> moment option" where
  "as_datetime i as_date v =
     (case v of
        PTime m z _ \<Rightarrow> Some (if as_date then Day (m div DAY) else Instant m z)
      | PDate d _ \<Rightarrow> Some (Day d)
      | PText t \<Rightarrow> (if as_date then map_option Day (iso_date i t) else map_option (\<lambda>x. Instant (fst x) (snd x)) (iso_time i t))
      | _ \<Rightarrow> None)"

definition moment_eq :: "moment \<Rightarrow> moment \<Rightarrow> bool" where
  "moment_eq a b =
     (case (a, b) of
        (Day d, Day e) \<Rightarrow> d = e
      | (Instant m (Some x), Instant n (Some y)) \<Rightarrow> m - x = n - y
      | (Instant m None, Instant n None) \<Rightarrow> m = n
      | _ \<Rightarrow> False)"

definition mixed_zones :: "moment \<Rightarrow> moment \<Rightarrow> bool" where
  "mixed_zones a b = (case (a, b) of (Instant m x, Instant n y) \<Rightarrow> (x = None) \<noteq> (y = None) | _ \<Rightarrow> False)"

section \<open>Sameness\<close>

definition is_box :: "pv \<Rightarrow> bool" where
  "is_box v = (case v of PBox _ _ _ \<Rightarrow> True | _ \<Rightarrow> False)"

definition is_bool :: "pv \<Rightarrow> bool" where
  "is_bool v = (case v of PBool _ \<Rightarrow> True | _ \<Rightarrow> False)"

definition same :: "iso \<Rightarrow> pv \<Rightarrow> pv \<Rightarrow> bool option" where
  "same i a b =
     (if a = PNone \<or> b = PNone then Some (a = PNone \<and> b = PNone)
      else if is_bool a \<or> is_bool b then Some (boolish a = boolish b)
      else if is_temporal a \<or> is_temporal b then
        (let as_date = is_plain_date a \<or> is_plain_date b
         in case (as_datetime i as_date a, as_datetime i as_date b) of
              (Some l, Some r) \<Rightarrow> Some (if mixed_zones l r then text_of a = text_of b else moment_eq l r)
            | _ \<Rightarrow> Some (text_of a = text_of b))
      else if is_box a \<or> is_box b then Some (json_of a = json_of b)
      else (case (as_decimal a, as_decimal b) of
              (Some l, Some r) \<Rightarrow> decimal_eq l r
            | _ \<Rightarrow> Some (text_of a = text_of b)))"

section \<open>Differences\<close>

type_synonym fields = "(string, pv) dict"

definition REDACTED :: string where "REDACTED = ''***''"

definition mask :: "fields \<Rightarrow> string list \<Rightarrow> fields" where
  "mask vs exclude =
     (if exclude = [] then vs
      else map (\<lambda>(k, v). (k, if lower k \<in> set (map lower exclude) then PText REDACTED else v)) vs)"

fun changes :: "iso \<Rightarrow> string list \<Rightarrow> fields \<Rightarrow> fields \<Rightarrow> (fields \<times> fields) option" where
  "changes i excluded before [] = Some ([], [])"
| "changes i excluded before ((k, new) # rest) =
     (let old = (case map_of before k of Some v \<Rightarrow> v | None \<Rightarrow> PNone)
      in case same i old new of
           None \<Rightarrow> None
         | Some eq \<Rightarrow>
             (case changes i excluded before rest of
                None \<Rightarrow> None
              | Some (olds, news) \<Rightarrow>
                  if eq then Some (olds, news)
                  else if lower k \<in> set excluded then Some ((k, PText REDACTED) # olds, (k, PText REDACTED) # news)
                  else Some ((k, old) # olds, (k, new) # news)))"

text \<open>\<open>between\<close>; None is the exception of a comparison.\<close>

definition between :: "iso \<Rightarrow> fields option \<Rightarrow> fields option \<Rightarrow> string list \<Rightarrow> (fields option \<times> fields option) option" where
  "between i before after exclude =
     (let excluded = map lower exclude
      in case (before, after) of
           (None, None) \<Rightarrow> Some (None, None)
         | (None, Some a) \<Rightarrow> Some (None, Some (mask a excluded))
         | (Some b, None) \<Rightarrow> Some (Some (mask b excluded), None)
         | (Some b, Some a) \<Rightarrow>
             (case changes i excluded b a of
                None \<Rightarrow> None
              | Some (olds, news) \<Rightarrow> if news = [] then Some (None, None) else Some (Some olds, Some news)))"

section \<open>Where the comparison departs from the stored content\<close>

text \<open>
  Texts that read as the same number are the same to the comparison, so that a change of a text
  column from \<open>007\<close> to \<open>7\<close> is not recorded; a text that reads as not-a-number differs from itself; and
  one that reads as a signalling not-a-number makes the comparison raise.
\<close>

lemma same_numeric_texts: "same i (PText ''007'') (PText ''7'') = Some True"
proof -
  have "as_decimal (PText ''007'') = Some (Finite 7 0)" "as_decimal (PText ''7'') = Some (Finite 7 0)" by code_simp+
  then show ?thesis by (simp add: same_def is_bool_def is_temporal_def is_box_def decimal_eq_def scaled_eq_def)
qed

lemma nan_text_differs: "same i (PText ''nan'') (PText ''nan'') = Some False"
proof -
  have "as_decimal (PText ''nan'') = Some NaN" by code_simp
  then show ?thesis by (simp add: same_def is_bool_def is_temporal_def is_box_def decimal_eq_def)
qed

lemma snan_text_raises: "same i (PText ''sNaN'') (PInt 1) = None"
proof -
  have "as_decimal (PText ''sNaN'') = Some SNaN" "as_decimal (PInt 1) = Some (Finite 1 0)" by code_simp+
  then show ?thesis by (simp add: same_def is_bool_def is_temporal_def is_box_def decimal_eq_def)
qed

section \<open>What a change is\<close>

text \<open>
  A column has a type, and what it holds is a truth value, a rational number, a text, a day or a
  point in time, or a document. The value read back from the server is one of that type; the one
  handed in may also be a text, or another value, that the type reads. A column changes when the two
  are not the same thing of its type. None of this looks at the comparison.
\<close>

datatype column_kind = KBool | KNumber | KText | KDate | KAware | KNaive | KJson

datatype content = Nothing | Truth bool | Number rat | Chars string | Point int | Document string

definition number :: "dec \<Rightarrow> rat option" where
  "number d = (case d of Finite m x \<Rightarrow> Some (of_int m * 10 powi x) | _ \<Rightarrow> None)"

definition reads_number :: "string \<Rightarrow> content option" where
  "reads_number t = map_option Number (Option.bind (read_decimal t) number)"

fun col_reads :: "iso \<Rightarrow> column_kind \<Rightarrow> pv \<Rightarrow> content option" where
  "col_reads i k PNone = Some Nothing"
| "col_reads i KBool (PBool b) = Some (Truth b)"
| "col_reads i KBool (PInt n) = (if n = 1 then Some (Truth True) else if n = 0 then Some (Truth False) else None)"
| "col_reads i KBool (PText t) =
     (if lower (strip t) \<in> {''1'', ''t'', ''true'', ''y'', ''yes'', ''on''} then Some (Truth True)
      else if lower (strip t) \<in> {''0'', ''f'', ''false'', ''n'', ''no'', ''off'', []} then Some (Truth False) else None)"
| "col_reads i KNumber (PInt n) = Some (Number (of_int n))"
| "col_reads i KNumber (PDecimal t) = reads_number t"
| "col_reads i KNumber (PFloat t) = reads_number t"
| "col_reads i KNumber (PText t) = reads_number t"
| "col_reads i KText (PText t) = Some (Chars t)"
| "col_reads i KDate (PDate d t) = Some (Point d)"
| "col_reads i KDate (PText t) = map_option Point (iso_date i t)"
| "col_reads i KAware (PTime m z t) = map_option (\<lambda>x. Point (m - x)) z"
| "col_reads i KAware (PText t) = Option.bind (iso_time i t) (\<lambda>(m, z). map_option (\<lambda>x. Point (m - x)) z)"
| "col_reads i KNaive (PTime m z t) = (if z = None then Some (Point m) else None)"
| "col_reads i KNaive (PText t) = Option.bind (iso_time i t) (\<lambda>(m, z). if z = None then Some (Point m) else None)"
| "col_reads i KJson (PBox j t u) = Some (Document j)"
| "col_reads i k v = None"

fun native :: "column_kind \<Rightarrow> pv \<Rightarrow> bool" where
  "native k PNone = True"
| "native KBool (PBool b) = True"
| "native KNumber (PInt n) = True"
| "native KNumber (PDecimal t) = True"
| "native KNumber (PFloat t) = True"
| "native KText (PText t) = True"
| "native KDate (PDate d t) = True"
| "native KAware (PTime m z t) = True"
| "native KNaive (PTime m z t) = True"
| "native KJson (PBox j t u) = True"
| "native k v = False"

text \<open>
  The pairs of texts that the comparison misreads: both are numbers to it, and not finite ones, or
  of one value though they are not the same text.
\<close>

definition misread :: "pv \<Rightarrow> pv \<Rightarrow> bool" where
  "misread a b =
     (case (a, b) of
        (PText s, PText t) \<Rightarrow>
          (case (read_decimal s, read_decimal t) of
             (Some x, Some y) \<Rightarrow> \<not> (number x \<noteq> None \<and> number y \<noteq> None \<and> (number x = number y \<longleftrightarrow> s = t))
           | _ \<Rightarrow> False)
      | _ \<Rightarrow> False)"

lemma decimal_eq_number:
  assumes "number x = Some p" "number y = Some q"
  shows "decimal_eq x y = Some (p = q)"
proof -
  obtain m a where x: "x = Finite m a" "p = of_int m * 10 powi a" using assms(1) by (cases x) (simp_all add: number_def)
  obtain n b where y: "y = Finite n b" "q = of_int n * 10 powi b" using assms(2) by (cases y) (simp_all add: number_def)
  let ?l = "min a b"
  have split: "(10::rat) powi k = 10 powi ?l * of_int (10 ^ nat (k - ?l))" if "?l \<le> k" for k
  proof -
    have "k = ?l + int (nat (k - ?l))" using that by simp
    then have "(10::rat) powi k = 10 powi ?l * 10 powi int (nat (k - ?l))" using power_int_add [of "10::rat" ?l "int (nat (k - ?l))"] by simp
    also have "10 powi int (nat (k - ?l)) = (of_int (10 ^ nat (k - ?l)) :: rat)" unfolding power_int_of_nat by simp
    finally show ?thesis .
  qed
  have "p = q \<longleftrightarrow> 10 powi ?l * of_int (m * 10 ^ nat (a - ?l)) = (10::rat) powi ?l * of_int (n * 10 ^ nat (b - ?l))"
    unfolding x(2) y(2) split [of a, simplified] split [of b, simplified] by (simp add: algebra_simps)
  also have "\<dots> \<longleftrightarrow> scaled_eq m a n b" by (simp add: scaled_eq_def Let_def del: of_int_mult of_int_power)
  finally show ?thesis by (simp add: decimal_eq_def x(1) y(1))
qed

lemma reads_number_Some: "reads_number t = Some c \<Longrightarrow> \<exists>x q. read_decimal t = Some x \<and> number x = Some q \<and> c = Number q"
  by (auto simp: reads_number_def bind_eq_Some_conv)

text \<open>The comparison tells what is the same thing of the column's type.\<close>

lemma number_reads: "col_reads i KNumber v = Some c \<Longrightarrow> v \<noteq> PNone \<Longrightarrow> \<exists>x q. as_decimal v = Some x \<and> number x = Some q \<and> c = Number q
    \<and> \<not> is_bool v \<and> \<not> is_temporal v \<and> \<not> is_box v"
  by (cases v) (auto simp: as_decimal_def is_bool_def is_temporal_def is_box_def number_def dest: reads_number_Some)

lemma reads_Nothing: "col_reads i k v = Some Nothing \<longleftrightarrow> v = PNone"
  by (cases "(i, k, v)" rule: col_reads.cases) (auto simp: reads_number_def bind_eq_Some_conv split: if_splits)

lemma same_simps:
  "same i (PBool v) b = Some (b \<noteq> PNone \<and> boolish (PBool v) = boolish b)"
  "same i (PDate d t) (PDate e u) = Some (d = e)"
  "same i (PDate d t) (PText u) = Some (case iso_date i u of Some e \<Rightarrow> d = e | None \<Rightarrow> t = u)"
  "same i (PTime m (Some z) t) (PTime n (Some y) u) = Some (m - z = n - y)"
  "same i (PTime m None t) (PTime n None u) = Some (m = n)"
  "iso_time i u = Some (n, Some y) \<Longrightarrow> same i (PTime m (Some z) t) (PText u) = Some (m - z = n - y)"
  "iso_time i u = Some (n, None) \<Longrightarrow> same i (PTime m None t) (PText u) = Some (m = n)"
  "same i (PBox j t p) (PBox k u q) = Some (j = k)"
  by (simp_all add: same_def is_bool_def is_temporal_def is_plain_date_def is_box_def as_datetime_def mixed_zones_def moment_eq_def
      text_of_def json_of_def split: option.split)

lemma boolish_reads:
  assumes "col_reads i KBool b = Some (Truth w)"
  shows "boolish (PBool v) = boolish b \<longleftrightarrow> v = w"
  using assms by (cases b) (auto simp: boolish_def TRUE_TEXTS_def FALSE_TEXTS_def text_of_def Let_def split: if_splits)

lemma reads_truth: "col_reads i KBool b = Some y \<Longrightarrow> b \<noteq> PNone \<Longrightarrow> \<exists>w. y = Truth w"
  by (cases b) (auto split: if_splits)

lemma same_texts: "\<not> misread (PText s) (PText t) \<Longrightarrow> same i (PText s) (PText t) = Some (s = t)"
proof -
  assume m: "\<not> misread (PText s) (PText t)"
  have t: "text_of (PText u) = u" for u by (simp add: text_of_def)
  have "same i (PText s) (PText t) = (case (read_decimal s, read_decimal t) of (Some l, Some r) \<Rightarrow> decimal_eq l r | _ \<Rightarrow> Some (s = t))"
    unfolding same_def t by (simp add: is_bool_def is_temporal_def is_box_def as_decimal_def)
  also have "\<dots> = Some (s = t)"
  proof (cases "read_decimal s = None \<or> read_decimal t = None")
    case True
    then show ?thesis by (auto split: option.split)
  next
    case False
    then obtain x y where d: "read_decimal s = Some x" "read_decimal t = Some y" by auto
    have "number x \<noteq> None \<and> number y \<noteq> None \<and> (number x = number y \<longleftrightarrow> s = t)"
      using m unfolding misread_def prod.case pv.case d option.case by blast
    then obtain p q where "number x = Some p" "number y = Some q" "p = q \<longleftrightarrow> s = t" by auto
    then show ?thesis by (simp add: d decimal_eq_number)
  qed
  finally show ?thesis .
qed

lemma same_bools:
  assumes "native KBool a" "col_reads i KBool a = Some x" "col_reads i KBool b = Some y" "a \<noteq> PNone" "b \<noteq> PNone"
  shows "same i a b = Some (x = y)"
proof -
  obtain v where a: "a = PBool v" "x = Truth v" using assms(1,2,4) by (cases a) simp_all
  obtain w where y: "y = Truth w" using reads_truth [OF assms(3,5)] by blast
  show ?thesis using boolish_reads [of i b w v] assms(3,5) a y by (simp add: same_simps)
qed

lemma same_numbers:
  assumes "col_reads i KNumber a = Some x" "col_reads i KNumber b = Some y" "a \<noteq> PNone" "b \<noteq> PNone"
  shows "same i a b = Some (x = y)"
proof -
  obtain m p where a: "as_decimal a = Some m" "number m = Some p" "x = Number p" "\<not> is_bool a" "\<not> is_temporal a" "\<not> is_box a"
    using number_reads [OF assms(1,3)] by blast
  obtain n q where b: "as_decimal b = Some n" "number n = Some q" "y = Number q" "\<not> is_bool b" "\<not> is_temporal b" "\<not> is_box b"
    using number_reads [OF assms(2,4)] by blast
  show ?thesis unfolding same_def using a b assms(3,4) by (simp add: decimal_eq_number)
qed

lemma same_dates:
  assumes "native KDate a" "col_reads i KDate a = Some x" "col_reads i KDate b = Some y" "a \<noteq> PNone" "b \<noteq> PNone"
  shows "same i a b = Some (x = y)"
proof -
  obtain d s where a: "a = PDate d s" "x = Point d" using assms(1,2,4) by (cases a) simp_all
  show ?thesis using assms(3,5) a by (cases b) (auto simp: same_simps)
qed

lemma same_aware:
  assumes "native KAware a" "col_reads i KAware a = Some x" "col_reads i KAware b = Some y" "a \<noteq> PNone" "b \<noteq> PNone"
  shows "same i a b = Some (x = y)"
proof -
  obtain m z s where a: "a = PTime m (Some z) s" "x = Point (m - z)" using assms(1,2,4) by (cases a) auto
  show ?thesis using assms(3,5) a by (cases b) (auto simp: same_simps bind_eq_Some_conv)
qed

lemma same_naive:
  assumes "native KNaive a" "col_reads i KNaive a = Some x" "col_reads i KNaive b = Some y" "a \<noteq> PNone" "b \<noteq> PNone"
  shows "same i a b = Some (x = y)"
proof -
  obtain m s where a: "a = PTime m None s" "x = Point m" using assms(1,2,4) by (cases a) (simp_all split: if_splits)
  show ?thesis using assms(3,5) a by (cases b) (auto simp: same_simps bind_eq_Some_conv split: if_splits)
qed

lemma same_documents:
  assumes "native KJson a" "col_reads i KJson a = Some x" "col_reads i KJson b = Some y" "a \<noteq> PNone" "b \<noteq> PNone"
  shows "same i a b = Some (x = y)"
proof -
  obtain j s u where a: "a = PBox j s u" "x = Document j" using assms(1,2,4) by (cases a) simp_all
  show ?thesis using assms(3,5) a by (cases b) (auto simp: same_simps)
qed

lemma same_contents:
  assumes n: "native k a" and a: "col_reads i k a = Some x" and b: "col_reads i k b = Some y" and m: "k = KText \<longrightarrow> \<not> misread a b"
  shows "same i a b = Some (x = y)"
proof (cases "a = PNone \<or> b = PNone")
  case True
  have "x = y \<longleftrightarrow> a = PNone \<and> b = PNone"
  proof
    assume "x = y"
    then show "a = PNone \<and> b = PNone" using True a b reads_Nothing [of i k a] reads_Nothing [of i k b] by auto
  qed (use a b in auto)
  then show ?thesis using True unfolding same_def by simp
next
  case False
  then have ne: "a \<noteq> PNone" "b \<noteq> PNone" by simp_all
  show ?thesis
  proof (cases k)
    case KText
    obtain s where s: "a = PText s" "x = Chars s" using n a ne(1) KText by (cases a) simp_all
    obtain t where t: "b = PText t" "y = Chars t" using b ne(2) KText by (cases b) simp_all
    show ?thesis using same_texts m KText s t by simp
  next
    case KBool
    show ?thesis by (rule same_bools [OF n [unfolded KBool] a [unfolded KBool] b [unfolded KBool] ne])
  next
    case KNumber
    show ?thesis by (rule same_numbers [OF a [unfolded KNumber] b [unfolded KNumber] ne])
  next
    case KDate
    show ?thesis by (rule same_dates [OF n [unfolded KDate] a [unfolded KDate] b [unfolded KDate] ne])
  next
    case KAware
    show ?thesis by (rule same_aware [OF n [unfolded KAware] a [unfolded KAware] b [unfolded KAware] ne])
  next
    case KNaive
    show ?thesis by (rule same_naive [OF n [unfolded KNaive] a [unfolded KNaive] b [unfolded KNaive] ne])
  next
    case KJson
    show ?thesis by (rule same_documents [OF n [unfolded KJson] a [unfolded KJson] b [unfolded KJson] ne])
  qed
qed

end
