(* ===== verification/Audit_Trail.thy ===== *)
theory Audit_Trail
  imports Audit_Diff Api_Keys
begin

text \<open>
  The audit trail: \<open>audit/event.py\<close>, \<open>audit/store.py\<close> and \<open>audit/audit.py\<close>. The statements that the
  wrappers send are parameters, collected in a cursor; what is modelled of the server beyond them
  is that it refuses the statements whose text is incomplete. The trail is the list of the rows the
  server accepted. An exception is the left injection.
\<close>

section \<open>Events and the ambient context\<close>

record actor =
  ac_type :: string
  ac_id :: string
  ac_name :: string

record request_ctx =
  rc_request_id :: string
  rc_url :: string
  rc_ip_address :: string
  rc_user_agent :: string
  rc_actor :: actor

definition no_actor :: actor where
  "no_actor = \<lparr>ac_type = [], ac_id = [], ac_name = []\<rparr>"

definition EMPTY :: request_ctx where
  "EMPTY = \<lparr>rc_request_id = [], rc_url = [], rc_ip_address = [], rc_user_agent = [], rc_actor = no_actor\<rparr>"

definition current_context :: "request_ctx option \<Rightarrow> request_ctx" where
  "current_context v = (case v of Some c \<Rightarrow> c | None \<Rightarrow> EMPTY)"

definition new_context :: "bytes \<Rightarrow> actor option \<Rightarrow> string \<Rightarrow> string \<Rightarrow> string \<Rightarrow> string option \<Rightarrow> request_ctx" where
  "new_context random who url ip agent request_id =
     \<lparr>rc_request_id = (case request_id of Some r \<Rightarrow> r | None \<Rightarrow> token_hex random), rc_url = url, rc_ip_address = ip,
      rc_user_agent = agent, rc_actor = (case who of Some a \<Rightarrow> a | None \<Rightarrow> no_actor)\<rparr>"

definition set_context :: "request_ctx \<Rightarrow> request_ctx option \<Rightarrow> request_ctx option" where
  "set_context c v = Some c"

text \<open>The block that runs inside \<open>request_context\<close>: the variable is put back on the way out, whatever happened.\<close>

definition request_context :: "request_ctx \<Rightarrow> (request_ctx option \<Rightarrow> 'a \<times> request_ctx option) \<Rightarrow> request_ctx option \<Rightarrow> 'a \<times> request_ctx option" where
  "request_context c body v = (case body (set_context c v) of (r, _) \<Rightarrow> (r, v))"

record audit_event =
  ev_event :: string
  ev_entity_type :: string
  ev_entity_id :: string
  ev_module :: string
  ev_old_values :: "fields option"
  ev_new_values :: "fields option"
  ev_actor_type :: string
  ev_actor_id :: string
  ev_actor_name :: string
  ev_request_id :: string
  ev_url :: string
  ev_ip_address :: string
  ev_user_agent :: string
  ev_tags :: "string list"
  ev_context :: "fields option"
  ev_created_at :: "int option"

definition CREATED :: string where "CREATED = ''created''"
definition UPDATED :: string where "UPDATED = ''updated''"
definition DELETED :: string where "DELETED = ''deleted''"

definition new_event ::
  "string \<Rightarrow> string \<Rightarrow> string \<Rightarrow> string \<Rightarrow> fields option \<Rightarrow> fields option \<Rightarrow> string list \<Rightarrow> fields option \<Rightarrow> audit_event" where
  "new_event event entity_type entity_id of_module old new tags context =
     \<lparr>ev_event = event, ev_entity_type = entity_type, ev_entity_id = entity_id, ev_module = of_module,
      ev_old_values = old, ev_new_values = new, ev_actor_type = [], ev_actor_id = [], ev_actor_name = [],
      ev_request_id = [], ev_url = [], ev_ip_address = [], ev_user_agent = [], ev_tags = tags,
      ev_context = context, ev_created_at = None\<rparr>"

definition or_else :: "string \<Rightarrow> string \<Rightarrow> string" where
  "or_else a b = (if a = [] then b else a)"

definition with_resolved :: "audit_event \<Rightarrow> request_ctx \<Rightarrow> audit_event" where
  "with_resolved e c = e\<lparr>ev_actor_type := or_else (ev_actor_type e) (ac_type (rc_actor c)),
     ev_actor_id := or_else (ev_actor_id e) (ac_id (rc_actor c)),
     ev_actor_name := or_else (ev_actor_name e) (ac_name (rc_actor c)),
     ev_request_id := or_else (ev_request_id e) (rc_request_id c),
     ev_url := or_else (ev_url e) (rc_url c),
     ev_ip_address := or_else (ev_ip_address e) (rc_ip_address c),
     ev_user_agent := or_else (ev_user_agent e) (rc_user_agent c)\<rparr>"

section \<open>The stored row\<close>

definition WIDTHS :: "(string \<times> nat) list" where
  "WIDTHS = [(''request_id'', 32), (''module'', 64), (''event'', 32), (''entity_type'', 128), (''entity_id'', 64),
     (''actor_type'', 32), (''actor_id'', 64), (''actor_name'', 190), (''ip_address'', 45)]"

definition fit :: "string \<Rightarrow> string \<Rightarrow> string" where
  "fit column v = (case map_of WIDTHS column of None \<Rightarrow> v | Some width \<Rightarrow> if length v \<le> width then v else take width v)"

definition json_quoted :: "string \<Rightarrow> string" where
  "json_quoted t = map char_of (quote (to_text t))"

definition stored_json :: "pv \<Rightarrow> string option" where
  "stored_json v =
     (case v of
        PNone \<Rightarrow> Some ''null'' | PBool b \<Rightarrow> Some (if b then ''true'' else ''false'') | PInt n \<Rightarrow> Some (int_text n)
      | PFloat t \<Rightarrow> Some (float_json t) | PBox j t u \<Rightarrow> u | _ \<Rightarrow> Some (json_quoted (text_of v)))"

definition store_json :: "fields option \<Rightarrow> string option" where
  "store_json vs =
     (case vs of
        None \<Rightarrow> None
      | Some d \<Rightarrow> map_option (\<lambda>ts. CHR ''{'' # join '', '' ts @ ''}'')
          (those_list (map (\<lambda>(k, v). map_option (\<lambda>t. json_quoted k @ '': '' @ t) (stored_json v)) d)))"

definition tags_json :: "string list \<Rightarrow> string option" where
  "tags_json tags = (if tags = [] then None else Some (CHR ''['' # join '', '' (map json_quoted tags) @ '']''))"

record trail_row =
  tr_created_at :: int
  tr_request_id :: string
  tr_module :: string
  tr_event :: string
  tr_entity_type :: string
  tr_entity_id :: string
  tr_actor_type :: string
  tr_actor_id :: string
  tr_actor_name :: string
  tr_old_values :: "string option"
  tr_new_values :: "string option"
  tr_url :: string
  tr_ip_address :: string
  tr_user_agent :: string
  tr_tags :: "string option"
  tr_context :: "string option"

definition store_row :: "int \<Rightarrow> audit_event \<Rightarrow> trail_row" where
  "store_row now e =
     \<lparr>tr_created_at = (case ev_created_at e of Some t \<Rightarrow> t | None \<Rightarrow> now),
      tr_request_id = fit ''request_id'' (ev_request_id e),
      tr_module = fit ''module'' (ev_module e),
      tr_event = fit ''event'' (ev_event e),
      tr_entity_type = fit ''entity_type'' (ev_entity_type e),
      tr_entity_id = fit ''entity_id'' (ev_entity_id e),
      tr_actor_type = fit ''actor_type'' (ev_actor_type e),
      tr_actor_id = fit ''actor_id'' (ev_actor_id e),
      tr_actor_name = fit ''actor_name'' (ev_actor_name e),
      tr_old_values = store_json (ev_old_values e),
      tr_new_values = store_json (ev_new_values e),
      tr_url = ev_url e,
      tr_ip_address = fit ''ip_address'' (ev_ip_address e),
      tr_user_agent = ev_user_agent e,
      tr_tags = tags_json (ev_tags e),
      tr_context = store_json (ev_context e)\<rparr>"

section \<open>The audit object\<close>

text \<open>What can go wrong: a refusal or a failed write, a statement the server rejects, any other exception.\<close>

datatype aerror = AuditError | DbError | OtherError

type_synonym tkey = "string option \<times> string"

record audit =
  au_table :: string
  au_strict :: bool
  au_max_rows :: int
  au_id_key :: string
  au_exclude :: "(tkey, string list) dict"

definition audit_table_name :: "string \<Rightarrow> aerror + string" where
  "audit_table_name table = (if table_re table then Inr table else Inl AuditError)"

definition table_key :: "string \<Rightarrow> tkey" where
  "table_key table = (case rpartition_on CHR ''.'' (lower table) of (schema, _, name) \<Rightarrow> (if schema = [] then None else Some schema, name))"

definition column_names :: "cv \<Rightarrow> string list option" where
  "column_names v = (case v of CList l \<Rightarrow> those_list (map (\<lambda>c. case c of CStr s \<Rightarrow> Some s | _ \<Rightarrow> None) l) | _ \<Rightarrow> None)"

fun exclude_columns :: "(string \<times> cv) list \<Rightarrow> aerror + (string \<times> string list) list" where
  "exclude_columns [] = Inr []"
| "exclude_columns ((table, cols) # entries) =
     (case column_names cols of
        None \<Rightarrow> Inl AuditError
      | Some cs \<Rightarrow> (case exclude_columns entries of Inl e \<Rightarrow> Inl e | Inr l \<Rightarrow> Inr ((table, cs) # l)))"

text \<open>\<open>normalised.setdefault(key, set()).update(...)\<close>: a set is the list of its elements.\<close>

definition add_columns :: "string \<times> string list \<Rightarrow> (tkey, string list) dict \<Rightarrow> (tkey, string list) dict" where
  "add_columns entry d =
     (case entry of (table, cs) \<Rightarrow>
        (let k = table_key table; before = (case map_of d k of Some l \<Rightarrow> l | None \<Rightarrow> [])
         in AList.update k (before @ map lower cs) d))"

definition validated_exclude :: "cv \<Rightarrow> aerror + (tkey, string list) dict" where
  "validated_exclude exclude =
     (case exclude of
        CDict d \<Rightarrow> (case exclude_columns d of Inl e \<Rightarrow> Inl e | Inr l \<Rightarrow> Inr (fold add_columns l []))
      | _ \<Rightarrow> Inl AuditError)"

definition make_audit :: "string \<Rightarrow> bool \<Rightarrow> int \<Rightarrow> string \<Rightarrow> cv \<Rightarrow> aerror + audit" where
  "make_audit table strict max_rows id_key exclude =
     (case audit_table_name table of
        Inl e \<Rightarrow> Inl e
      | Inr t \<Rightarrow>
          (case validated_exclude exclude of
             Inl e \<Rightarrow> Inl e
           | Inr x \<Rightarrow> Inr \<lparr>au_table = t, au_strict = strict, au_max_rows = max_rows, au_id_key = id_key, au_exclude = x\<rparr>))"

definition AUDIT_DEFAULTS :: config where
  "AUDIT_DEFAULTS = [(''table'', CStr ''audit_log''), (''strict'', CBool True), (''max_rows'', CInt 1000),
     (''id_key'', CStr ''id''), (''exclude'', CDict [])]"

text \<open>
  \<open>from_config\<close>. A table or key column that is not a text is an exception, there or at the first
  statement that names it.
\<close>

definition audit_from_config :: "config \<Rightarrow> aerror + audit" where
  "audit_from_config config =
     (case section_of config ''audit'' of
        Inl e \<Rightarrow> Inl OtherError
      | Inr given \<Rightarrow>
          (let settings = fold (\<lambda>(k, v). AList.update k v) given AUDIT_DEFAULTS
           in case cget settings ''max_rows'' of
                CInt n \<Rightarrow>
                  (case (cget settings ''table'', if truthy (cget settings ''id_key'') then cget settings ''id_key'' else CStr ''id'') of
                     (CStr table, CStr id_key) \<Rightarrow>
                       make_audit table (cget settings ''strict'' \<noteq> CBool False) n id_key
                         (if truthy (cget settings ''exclude'') then cget settings ''exclude'' else CDict [])
                   | _ \<Rightarrow> Inl OtherError)
              | _ \<Rightarrow> Inl AuditError))"

definition key_covers :: "tkey \<Rightarrow> tkey \<Rightarrow> bool" where
  "key_covers key table \<longleftrightarrow> snd key = snd table \<and> (fst key = None \<or> fst table = None \<or> fst key = fst table)"

definition excluded :: "audit \<Rightarrow> string \<Rightarrow> string list" where
  "excluded a table = sort (remdups (concat (map snd (filter (\<lambda>(k, _). key_covers k (table_key table)) (au_exclude a)))))"

section \<open>Recording\<close>

text \<open>
  The statements, by the identifiers of the relation: reading and locking the rows of a condition,
  inserting a row and returning its key, updating and deleting with the number of rows, and
  writing to the trail.
\<close>

record 'd cursor =
  cu_select :: "string list \<Rightarrow> fields \<Rightarrow> 'd \<Rightarrow> (aerror + fields list) \<times> 'd"
  cu_insert :: "string list \<Rightarrow> fields \<Rightarrow> string \<Rightarrow> 'd \<Rightarrow> (aerror + pv option) \<times> 'd"
  cu_update :: "string list \<Rightarrow> fields \<Rightarrow> fields \<Rightarrow> 'd \<Rightarrow> (aerror + int) \<times> 'd"
  cu_delete :: "string list \<Rightarrow> fields \<Rightarrow> 'd \<Rightarrow> (aerror + int) \<times> 'd"
  cu_write :: "string list \<Rightarrow> trail_row \<Rightarrow> 'd \<Rightarrow> (aerror + unit) \<times> 'd"

record 'd aworld =
  aw_db :: 'd
  aw_trail :: "trail_row list"
  aw_context :: "request_ctx option"
  aw_now :: int

definition relation :: "string \<Rightarrow> string list" where
  "relation table = split_on CHR ''.'' table"

definition store_write :: "'d cursor \<Rightarrow> audit \<Rightarrow> audit_event \<Rightarrow> 'd aworld \<Rightarrow> (aerror + unit) \<times> 'd aworld" where
  "store_write c a e w =
     (let r = store_row (aw_now w) e
      in case cu_write c (relation (au_table a)) r (aw_db w) of
           (Inl x, d) \<Rightarrow> (Inl x, w\<lparr>aw_db := d\<rparr>)
         | (Inr _, d) \<Rightarrow> (Inr (), w\<lparr>aw_db := d, aw_trail := aw_trail w @ [r]\<rparr>))"

definition audit_fail :: "audit \<Rightarrow> aerror \<Rightarrow> aerror + unit" where
  "audit_fail a e = (if au_strict a then Inl AuditError else Inr ())"

definition masked :: "audit \<Rightarrow> audit_event \<Rightarrow> audit_event" where
  "masked a e =
     (let x = excluded a (ev_entity_type e)
      in if x = [] then e
         else e\<lparr>ev_old_values := map_option (\<lambda>v. mask v x) (ev_old_values e), ev_new_values := map_option (\<lambda>v. mask v x) (ev_new_values e)\<rparr>)"

definition audit_record :: "'d cursor \<Rightarrow> audit \<Rightarrow> audit_event \<Rightarrow> 'd aworld \<Rightarrow> (aerror + unit) \<times> 'd aworld" where
  "audit_record c a e w =
     (case store_write c a (with_resolved (masked a e) (current_context (aw_context w))) w of
        (Inl x, w1) \<Rightarrow> (audit_fail a x, w1)
      | (Inr _, w1) \<Rightarrow> (Inr (), w1))"

definition row_id :: "audit \<Rightarrow> fields \<Rightarrow> string" where
  "row_id a r = (case map_of r (au_id_key a) of None \<Rightarrow> [] | Some v \<Rightarrow> if v = PNone then [] else text_of v)"

definition within_limit :: "audit \<Rightarrow> nat \<Rightarrow> aerror + unit" where
  "within_limit a matched = (if au_max_rows a < 1 \<or> int matched \<le> au_max_rows a then Inr () else audit_fail a AuditError)"

definition on_cursor :: "('d \<Rightarrow> (aerror + 'a) \<times> 'd) \<Rightarrow> 'd aworld \<Rightarrow> (aerror + 'a) \<times> 'd aworld" where
  "on_cursor f w = (case f (aw_db w) of (r, d) \<Rightarrow> (r, w\<lparr>aw_db := d\<rparr>))"

text \<open>What a call passes on to each event: the module, the tags and the context.\<close>

record labels =
  lb_module :: string
  lb_tags :: "string list"
  lb_context :: "fields option"

text \<open>\<open>INSERT INTO t () VALUES ()\<close> is not SQL.\<close>

definition audit_insert ::
  "'d cursor \<Rightarrow> audit \<Rightarrow> iso \<Rightarrow> string \<Rightarrow> fields \<Rightarrow> string option \<Rightarrow> labels \<Rightarrow> 'd aworld \<Rightarrow> (aerror + pv option) \<times> 'd aworld" where
  "audit_insert c a i table data entity_id l w =
     (case audit_table_name table of
        Inl e \<Rightarrow> (Inl e, w)
      | Inr _ \<Rightarrow>
          (case on_cursor (if data = [] then (\<lambda>d. (Inl DbError, d)) else cu_insert c (relation table) data (au_id_key a)) w of
             (Inl e, w1) \<Rightarrow> (Inl e, w1)
           | (Inr new_id, w1) \<Rightarrow>
               (case between i None (Some data) [] of
                  None \<Rightarrow> (Inl OtherError, w1)
                | Some (_, news) \<Rightarrow>
                    (case audit_record c a (new_event CREATED table
                            (case entity_id of Some x \<Rightarrow> x | None \<Rightarrow> (case new_id of None \<Rightarrow> [] | Some v \<Rightarrow> if v = PNone then [] else text_of v))
                            (lb_module l) None news (lb_tags l) (lb_context l)) w1 of
                       (Inl e, w2) \<Rightarrow> (Inl e, w2)
                     | (Inr _, w2) \<Rightarrow> (Inr new_id, w2)))))"

fun record_updates :: "'d cursor \<Rightarrow> audit \<Rightarrow> iso \<Rightarrow> string \<Rightarrow> fields \<Rightarrow> labels \<Rightarrow> fields list \<Rightarrow> 'd aworld \<Rightarrow> (aerror + unit) \<times> 'd aworld" where
  "record_updates c a i table data l [] w = (Inr (), w)"
| "record_updates c a i table data l (r # rows) w =
     (case between i (Some r) (Some data) [] of
        None \<Rightarrow> (Inl OtherError, w)
      | Some (_, None) \<Rightarrow> record_updates c a i table data l rows w
      | Some (olds, Some news) \<Rightarrow>
          (case audit_record c a (new_event UPDATED table (row_id a r) (lb_module l) olds (Some news) (lb_tags l) (lb_context l)) w of
             (Inl e, w1) \<Rightarrow> (Inl e, w1)
           | (Inr _, w1) \<Rightarrow> record_updates c a i table data l rows w1))"

text \<open>\<open>UPDATE t SET\<close> needs a column, and the statement always says \<open>WHERE\<close>, which needs a condition.\<close>

definition audit_update ::
  "'d cursor \<Rightarrow> audit \<Rightarrow> iso \<Rightarrow> string \<Rightarrow> fields \<Rightarrow> fields \<Rightarrow> labels \<Rightarrow> 'd aworld \<Rightarrow> (aerror + int) \<times> 'd aworld" where
  "audit_update c a i table data cond l w =
     (case audit_table_name table of
        Inl e \<Rightarrow> (Inl e, w)
      | Inr _ \<Rightarrow>
          (case on_cursor (cu_select c (relation table) cond) w of
             (Inl e, w1) \<Rightarrow> (Inl e, w1)
           | (Inr rows, w1) \<Rightarrow>
               (case within_limit a (length rows) of
                  Inl e \<Rightarrow> (Inl e, w1)
                | Inr _ \<Rightarrow>
                    (case on_cursor (if data = [] \<or> cond = [] then (\<lambda>d. (Inl DbError, d)) else cu_update c (relation table) data cond) w1 of
                       (Inl e, w2) \<Rightarrow> (Inl e, w2)
                     | (Inr affected, w2) \<Rightarrow>
                         (case record_updates c a i table data l rows w2 of
                            (Inl e, w3) \<Rightarrow> (Inl e, w3)
                          | (Inr _, w3) \<Rightarrow> (Inr affected, w3))))))"

fun record_deletes :: "'d cursor \<Rightarrow> audit \<Rightarrow> string \<Rightarrow> labels \<Rightarrow> fields list \<Rightarrow> 'd aworld \<Rightarrow> (aerror + unit) \<times> 'd aworld" where
  "record_deletes c a table l [] w = (Inr (), w)"
| "record_deletes c a table l (r # rows) w =
     (case audit_record c a (new_event DELETED table (row_id a r) (lb_module l) (Some (mask r [])) None (lb_tags l) (lb_context l)) w of
        (Inl e, w1) \<Rightarrow> (Inl e, w1)
      | (Inr _, w1) \<Rightarrow> record_deletes c a table l rows w1)"

definition audit_delete ::
  "'d cursor \<Rightarrow> audit \<Rightarrow> string \<Rightarrow> fields \<Rightarrow> labels \<Rightarrow> 'd aworld \<Rightarrow> (aerror + int) \<times> 'd aworld" where
  "audit_delete c a table cond l w =
     (case audit_table_name table of
        Inl e \<Rightarrow> (Inl e, w)
      | Inr _ \<Rightarrow>
          if cond = [] then (Inl AuditError, w)
          else (case on_cursor (cu_select c (relation table) cond) w of
             (Inl e, w1) \<Rightarrow> (Inl e, w1)
           | (Inr rows, w1) \<Rightarrow>
               (case within_limit a (length rows) of
                  Inl e \<Rightarrow> (Inl e, w1)
                | Inr _ \<Rightarrow>
                    (case on_cursor (cu_delete c (relation table) cond) w1 of
                       (Inl e, w2) \<Rightarrow> (Inl e, w2)
                     | (Inr affected, w2) \<Rightarrow>
                         (case record_deletes c a table l rows w2 of
                            (Inl e, w3) \<Rightarrow> (Inl e, w3)
                          | (Inr _, w3) \<Rightarrow> (Inr affected, w3))))))"

section \<open>What reaches the trail\<close>

definition hidden :: "string \<Rightarrow> fields option \<Rightarrow> bool" where
  "hidden col vs \<longleftrightarrow> (case vs of None \<Rightarrow> True | Some d \<Rightarrow> list_all (\<lambda>(k, v). lower k = lower col \<longrightarrow> v = PText REDACTED) d)"

definition redacts :: "audit \<Rightarrow> audit_event \<Rightarrow> bool" where
  "redacts a e \<longleftrightarrow> list_all (\<lambda>col. hidden col (ev_old_values e) \<and> hidden col (ev_new_values e)) (excluded a (ev_entity_type e))"

definition fits :: "trail_row \<Rightarrow> bool" where
  "fits t \<longleftrightarrow> length (tr_request_id t) \<le> 32 \<and> length (tr_module t) \<le> 64 \<and> length (tr_event t) \<le> 32
     \<and> length (tr_entity_type t) \<le> 128 \<and> length (tr_entity_id t) \<le> 64 \<and> length (tr_actor_type t) \<le> 32
     \<and> length (tr_actor_id t) \<le> 64 \<and> length (tr_actor_name t) \<le> 190 \<and> length (tr_ip_address t) \<le> 45"

text \<open>A step that adds the stored forms of events with a property and nothing else.\<close>

definition adds :: "(audit_event \<Rightarrow> bool) \<Rightarrow> 'd aworld \<Rightarrow> 'd aworld \<Rightarrow> bool" where
  "adds P w w1 \<longleftrightarrow> (\<exists>es. aw_trail w1 = aw_trail w @ map (store_row (aw_now w)) es \<and> list_all P es)
     \<and> aw_context w1 = aw_context w \<and> aw_now w1 = aw_now w"

lemma adds_refl [simp, intro]: "adds P w w"
  unfolding adds_def by (auto intro: exI [of _ "[]"])

lemma adds_db [simp]: "adds P w (w1\<lparr>aw_db := d\<rparr>) \<longleftrightarrow> adds P w w1"
  by (simp add: adds_def)

lemma adds_trans [trans]: "adds P w w1 \<Longrightarrow> adds P w1 w2 \<Longrightarrow> adds P w w2"
  unfolding adds_def by (metis append.assoc list_all_append map_append)

lemma lower_lower [simp]: "lower (lower s) = lower s"
proof -
  have "lower_char (lower_char c) = lower_char c" for c
    by (cases "is_upper c \<or> (192 \<le> code c \<and> code c \<le> 222 \<and> code c \<noteq> 215)")
      (auto simp: lower_char_def Let_def code_def is_upper_def)
  then show ?thesis by (simp add: lower_def)
qed

lemma hidden_mask: "col \<in> set x \<Longrightarrow> hidden col (map_option (\<lambda>v. mask v x) vs)"
  by (cases vs) (auto simp: hidden_def mask_def list_all_iff)

lemma hidden_lower [simp]: "hidden (lower col) vs = hidden col vs"
  by (cases vs) (simp_all add: hidden_def)

lemma redacts_masked: "redacts a (with_resolved (masked a e) r)"
  by (auto simp: redacts_def masked_def with_resolved_def Let_def list_all_iff intro: hidden_mask)

lemma record_adds: "audit_record c a e w = (r, w1) \<Longrightarrow> adds (redacts a) w w1"
  by (auto simp: audit_record_def store_write_def Let_def adds_def redacts_masked split: prod.splits sum.splits
      intro: exI [of _ "[]"] exI [of _ "[with_resolved (masked a e) (current_context (aw_context w))]"])

lemma on_cursor_adds: "on_cursor f w = (r, w1) \<Longrightarrow> adds P w w1"
  by (auto simp: on_cursor_def split: prod.splits)

lemma record_updates_adds: "record_updates c a i table data l rows w = (r, w1) \<Longrightarrow> adds (redacts a) w w1"
proof (induction rows arbitrary: w)
  case (Cons row rows)
  then show ?case
    by (auto split: option.splits prod.splits sum.splits dest!: record_adds intro: adds_trans)
qed simp

lemma record_deletes_adds: "record_deletes c a table l rows w = (r, w1) \<Longrightarrow> adds (redacts a) w w1"
proof (induction rows arbitrary: w)
  case (Cons row rows)
  then show ?case by (auto split: prod.splits sum.splits dest!: record_adds intro: adds_trans)
qed simp

lemma insert_adds: "audit_insert c a i table data entity_id l w = (r, w1) \<Longrightarrow> adds (redacts a) w w1"
  unfolding audit_insert_def
  by (auto simp del: adds_db split: option.splits prod.splits sum.splits dest!: record_adds on_cursor_adds [where P = "redacts a"]
      intro: adds_trans)

lemma update_adds: "audit_update c a i table data cond l w = (r, w1) \<Longrightarrow> adds (redacts a) w w1"
  unfolding audit_update_def
  by (auto split: prod.splits sum.splits dest!: record_updates_adds on_cursor_adds [where P = "redacts a"] intro: adds_trans)

lemma delete_adds: "audit_delete c a table cond l w = (r, w1) \<Longrightarrow> adds (redacts a) w w1"
  unfolding audit_delete_def
  by (auto split: prod.splits sum.splits if_splits dest!: record_deletes_adds on_cursor_adds [where P = "redacts a"] intro: adds_trans)

lemma fit_length: "map_of WIDTHS column = Some n \<Longrightarrow> length (fit column v) \<le> n"
  by (simp add: fit_def)

lemma store_row_fits: "fits (store_row now e)"
  by (simp add: fits_def store_row_def fit_length [OF _] WIDTHS_def fit_def)

text \<open>Any sequence of calls on one audit object.\<close>

datatype audit_call = Record audit_event | Insert string fields "string option" labels
  | Update string fields fields labels | Delete string fields labels

definition audit_call :: "'d cursor \<Rightarrow> audit \<Rightarrow> iso \<Rightarrow> audit_call \<Rightarrow> 'd aworld \<Rightarrow> 'd aworld" where
  "audit_call c a i x w =
     (case x of
        Record e \<Rightarrow> snd (audit_record c a e w)
      | Insert table data entity_id l \<Rightarrow> snd (audit_insert c a i table data entity_id l w)
      | Update table data cond l \<Rightarrow> snd (audit_update c a i table data cond l w)
      | Delete table cond l \<Rightarrow> snd (audit_delete c a table cond l w))"

lemma call_adds: "adds (redacts a) w (audit_call c a i x w)"
  by (cases x) (auto simp: audit_call_def intro: record_adds insert_adds update_adds delete_adds prod.collapse [symmetric])

lemma calls_add: "adds (redacts a) w (fold (audit_call c a i) xs w)"
  by (induction xs arbitrary: w) (auto intro: adds_trans call_adds)

section \<open>Configured redaction\<close>

definition listed :: "string \<Rightarrow> string \<Rightarrow> (tkey, string list) dict \<Rightarrow> bool" where
  "listed t col d \<longleftrightarrow> (\<exists>l. map_of d (table_key t) = Some l \<and> lower col \<in> set l)"

lemma listed_kept: "listed t col d \<Longrightarrow> listed t col (add_columns e d)"
  by (cases e) (auto simp: listed_def add_columns_def Let_def update_conv' split: option.splits)

lemma listed_added: "col \<in> set cs \<Longrightarrow> listed t col (add_columns (t, cs) d)"
  by (auto simp: listed_def add_columns_def Let_def update_conv')

lemma listed_fold_kept: "listed t col d \<Longrightarrow> listed t col (fold add_columns es d)"
  by (induction es arbitrary: d) (auto intro: listed_kept)

lemma listed_fold: "(t, cs) \<in> set es \<Longrightarrow> col \<in> set cs \<Longrightarrow> listed t col (fold add_columns es d)"
  by (induction es arbitrary: d) (auto intro: listed_fold_kept listed_added)

lemma those_list_mem: "those_list (map f xs) = Some ys \<Longrightarrow> x \<in> set xs \<Longrightarrow> \<exists>y\<in>set ys. f x = Some y"
proof (induction xs arbitrary: ys)
  case (Cons a xs)
  then show ?case by (cases "f a") auto
qed simp

lemma column_names_mem: "column_names (CList cols) = Some cs \<Longrightarrow> CStr col \<in> set cols \<Longrightarrow> col \<in> set cs"
  using those_list_mem [of _ cols cs "CStr col"] by (force simp: column_names_def)

lemma exclude_columns_mem:
  "exclude_columns d = Inr es \<Longrightarrow> (t, CList cols) \<in> set d \<Longrightarrow> CStr col \<in> set cols \<Longrightarrow> \<exists>cs. (t, cs) \<in> set es \<and> col \<in> set cs"
proof (induction d arbitrary: es)
  case (Cons e d)
  then show ?case
    by (cases e) (auto split: option.splits sum.splits dest: column_names_mem)
qed simp

lemma settings_given: "dict_ok given \<Longrightarrow> map_of given k = Some v \<Longrightarrow> cget (fold (\<lambda>(k, v). AList.update k v) given d) k = v"
proof (induction given arbitrary: d)
  case (Cons e given)
  obtain k1 v1 where e: "e = (k1, v1)" by (cases e)
  have keep: "map_of (fold (\<lambda>(k, v). AList.update k v) g d0) k = map_of d0 k" if "k \<notin> fst ` set g" for g and d0 :: config
    using that by (induction g arbitrary: d0) (auto simp: update_conv')
  show ?case
  proof (cases "k1 = k")
    case True
    then show ?thesis using Cons.prems e keep [of given] by (simp add: cget_def update_conv')
  next
    case False
    then show ?thesis using Cons e by simp
  qed
qed simp

lemma configured_excluded:
  assumes "audit_from_config config = Inr a" "section_of config ''audit'' = Inr given" "dict_ok given"
    and "map_of given ''exclude'' = Some (CDict d)" "(t, CList cols) \<in> set d" "CStr col \<in> set cols"
    and "key_covers (table_key t) (table_key table)"
  shows "lower col \<in> set (excluded a table)"
proof -
  have x: "cget (fold (\<lambda>(k, v). AList.update k v) given AUDIT_DEFAULTS) ''exclude'' = CDict d"
    using assms(3,4) by (rule settings_given)
  have "d \<noteq> []" using assms(5) by auto
  then obtain es where es: "exclude_columns d = Inr es" "au_exclude a = fold add_columns es []"
    using assms(1,2) x by (auto simp: audit_from_config_def make_audit_def validated_exclude_def Let_def split: cv.splits sum.splits)
  obtain cs where "(t, cs) \<in> set es" "col \<in> set cs" using exclude_columns_mem [OF es(1) assms(5,6)] by blast
  then have "listed t col (au_exclude a)" unfolding es(2) by (rule listed_fold)
  then obtain l where "(table_key t, l) \<in> set (au_exclude a)" "lower col \<in> set l"
    by (auto simp: listed_def dest: map_of_SomeD)
  then show ?thesis using assms(7) by (cases "table_key t") (auto simp: excluded_def)
qed

text \<open>
  C13. Redaction does not leak. With an audit object made from a configuration that excludes a
  column of a table, whatever is inserted, updated, deleted or recorded by hand, in whatever order and
  whatever the server answers: every row that reaches the trail is the stored form of an event in
  which that column, in any spelling of its case, reads \<open>***\<close> on both sides, for every table the
  configured name covers (the same name, in any schema unless both name one). And every
  row fits the widths of the table's columns, so that no write fails for its length.
\<close>

theorem audit_redacts:
  assumes "audit_from_config config = Inr a" "section_of config ''audit'' = Inr given" "dict_ok given"
    and "map_of given ''exclude'' = Some (CDict d)" "(t, CList cols) \<in> set d" "CStr col \<in> set cols"
  shows "\<exists>es. aw_trail (fold (audit_call c a i) calls w) = aw_trail w @ map (store_row (aw_now w)) es
    \<and> list_all (\<lambda>e. key_covers (table_key t) (table_key (ev_entity_type e))
         \<longrightarrow> hidden col (ev_old_values e) \<and> hidden col (ev_new_values e)) es
    \<and> list_all fits (map (store_row (aw_now w)) es)"
proof -
  obtain es where es: "aw_trail (fold (audit_call c a i) calls w) = aw_trail w @ map (store_row (aw_now w)) es" "list_all (redacts a) es"
    using calls_add [of a w c i calls] unfolding adds_def by blast
  have "hidden col (ev_old_values e) \<and> hidden col (ev_new_values e)"
    if "e \<in> set es" "key_covers (table_key t) (table_key (ev_entity_type e))" for e
  proof -
    have "redacts a e" using es(2) that(1) by (simp add: list_all_iff)
    moreover have "lower col \<in> set (excluded a (ev_entity_type e))" by (rule configured_excluded [OF assms that(2)])
    ultimately show ?thesis by (auto simp: redacts_def list_all_iff)
  qed
  then show ?thesis using es(1) by (auto simp: list_all_iff store_row_fits intro!: exI [of _ es])
qed

section \<open>What an update records\<close>

definition old_of :: "fields \<Rightarrow> string \<Rightarrow> pv" where
  "old_of r k = (case map_of r k of Some v \<Rightarrow> v | None \<Rightarrow> PNone)"

text \<open>
  The columns of an update that change, for a table whose columns have the types \<open>kinds\<close>; and what is
  asked of the values: the row holds values of these types, the new ones are read by them, and no
  text is replaced by one that the comparison takes for the same number.
\<close>

definition differing :: "iso \<Rightarrow> (string \<Rightarrow> column_kind) \<Rightarrow> fields \<Rightarrow> fields \<Rightarrow> fields" where
  "differing i kinds r data = filter (\<lambda>(k, v). col_reads i (kinds k) (old_of r k) \<noteq> col_reads i (kinds k) v) data"

definition well_typed :: "iso \<Rightarrow> (string \<Rightarrow> column_kind) \<Rightarrow> fields \<Rightarrow> fields \<Rightarrow> bool" where
  "well_typed i kinds data r \<longleftrightarrow> list_all (\<lambda>(k, v). native (kinds k) (old_of r k) \<and> col_reads i (kinds k) (old_of r k) \<noteq> None
     \<and> col_reads i (kinds k) v \<noteq> None \<and> (kinds k = KText \<longrightarrow> \<not> misread (old_of r k) v)) data"

definition update_event :: "audit \<Rightarrow> iso \<Rightarrow> (string \<Rightarrow> column_kind) \<Rightarrow> string \<Rightarrow> fields \<Rightarrow> labels \<Rightarrow> fields \<Rightarrow> audit_event" where
  "update_event a i kinds table data l r = new_event UPDATED table (row_id a r) (lb_module l)
     (Some (map (\<lambda>(k, v). (k, old_of r k)) (differing i kinds r data))) (Some (differing i kinds r data)) (lb_tags l) (lb_context l)"

definition accepts :: "'d cursor \<Rightarrow> audit \<Rightarrow> bool" where
  "accepts c a \<longleftrightarrow> (\<forall>t d. fst (cu_write c (relation (au_table a)) t d) = Inr ())"

definition as_stored :: "audit \<Rightarrow> 'd aworld \<Rightarrow> audit_event \<Rightarrow> trail_row" where
  "as_stored a w e = store_row (aw_now w) (with_resolved (masked a e) (current_context (aw_context w)))"

lemma changes_differing:
  "well_typed i kinds data r \<Longrightarrow> changes i [] r data = Some (map (\<lambda>(k, v). (k, old_of r k)) (differing i kinds r data), differing i kinds r data)"
proof (induction data)
  case (Cons e data)
  obtain k v where e: "e = (k, v)" by (rule prod.exhaust)
  have w: "well_typed i kinds data r" "native (kinds k) (old_of r k)" "kinds k = KText \<longrightarrow> \<not> misread (old_of r k) v"
    using Cons.prems by (simp_all add: well_typed_def e)
  obtain x y where "col_reads i (kinds k) (old_of r k) = Some x" "col_reads i (kinds k) v = Some y"
    using Cons.prems by (auto simp: well_typed_def e)
  with same_contents [OF w(2) this w(3)] show ?case
    using Cons.IH [OF w(1)] by (simp add: e differing_def old_of_def [symmetric] Let_def)
qed (simp add: differing_def)

lemma between_update:
  "well_typed i kinds data r \<Longrightarrow> between i (Some r) (Some data) [] = Some (if differing i kinds r data = [] then (None, None)
     else (Some (map (\<lambda>(k, v). (k, old_of r k)) (differing i kinds r data)), Some (differing i kinds r data)))"
  by (simp add: between_def changes_differing)

lemma record_accepted:
  assumes "accepts c a"
  obtains d where "audit_record c a e w = (Inr (), w\<lparr>aw_db := d, aw_trail := aw_trail w @ [as_stored a w e]\<rparr>)"
proof -
  obtain r d where "cu_write c (relation (au_table a)) (as_stored a w e) (aw_db w) = (r, d)" by (rule prod.exhaust)
  moreover from this have "r = Inr ()" using assms unfolding accepts_def by (metis fst_conv)
  ultimately show thesis
    by (intro that [of d]) (simp add: audit_record_def store_write_def as_stored_def Let_def)
qed

lemma as_stored_frame [simp]: "as_stored a (w\<lparr>aw_db := d, aw_trail := t\<rparr>) e = as_stored a w e" "as_stored a (w\<lparr>aw_db := d\<rparr>) e = as_stored a w e"
  by (simp_all add: as_stored_def)

lemma record_updates_all:
  assumes "accepts c a" "list_all (well_typed i kinds data) rows"
  shows "\<exists>d. record_updates c a i table data l rows w = (Inr (), w\<lparr>aw_db := d, aw_trail := aw_trail w
     @ map (as_stored a w \<circ> update_event a i kinds table data l) (filter (\<lambda>r. differing i kinds r data \<noteq> []) rows)\<rparr>)"
  using assms(2)
proof (induction rows arbitrary: w)
  case Nil
  show ?case by (intro exI [of _ "aw_db w"]) simp
next
  case (Cons r rows)
  then have b: "well_typed i kinds data r" "list_all (well_typed i kinds data) rows" by simp_all
  show ?case
  proof (cases "differing i kinds r data = []")
    case True
    then show ?thesis using Cons.IH [OF b(2), of w] by (simp add: between_update [OF b(1)])
  next
    case False
    obtain d where d: "audit_record c a (update_event a i kinds table data l r) w
        = (Inr (), w\<lparr>aw_db := d, aw_trail := aw_trail w @ [as_stored a w (update_event a i kinds table data l r)]\<rparr>)" (is "_ = (_, ?w1)")
      using record_accepted [OF assms(1)] by blast
    have "record_updates c a i table data l (r # rows) w = record_updates c a i table data l rows ?w1"
      using d False by (simp add: between_update [OF b(1)] update_event_def)
    then show ?thesis using Cons.IH [OF b(2), of ?w1] False by (auto simp: o_def)
  qed
qed


text \<open>A database that holds one table, for the examples: rows of people with a password.\<close>

definition demo_person :: "int \<Rightarrow> string \<Rightarrow> string \<Rightarrow> fields" where
  "demo_person n status pw = [(''id'', PInt n), (''status'', PText status), (''Password'', PText pw)]"

definition demo_cursor :: "fields list cursor" where
  "demo_cursor = \<lparr>cu_select = (\<lambda>t cond d. (Inr d, d)), cu_insert = (\<lambda>t r k d. (Inr (map_of r k), d @ [r])),
     cu_update = (\<lambda>t data cond d. (Inr (int (length d)), map (\<lambda>r. fold (\<lambda>(k, v). AList.update k v) data r) d)),
     cu_delete = (\<lambda>t cond d. (Inr (int (length d)), [])), cu_write = (\<lambda>t r d. (Inr (), d))\<rparr>"

definition demo_audit_config :: config where
  "demo_audit_config = [(''audit'', CDict [(''exclude'', CDict [(''People'', CList [CStr ''password''])]), (''max_rows'', CInt 2)])]"

definition demo_audit :: audit where
  "demo_audit = \<lparr>au_table = ''audit_log'', au_strict = True, au_max_rows = 2, au_id_key = ''id'',
     au_exclude = [((None, ''people''), [''password''])]\<rparr>"

definition demo_iso :: iso where
  "demo_iso = \<lparr>iso_date = (\<lambda>_. None), iso_time = (\<lambda>_. None)\<rparr>"

definition demo_labels :: labels where
  "demo_labels = \<lparr>lb_module = ''hr'', lb_tags = [], lb_context = None\<rparr>"

definition demo_db :: "fields list aworld" where
  "demo_db = \<lparr>aw_db = [demo_person 1 ''active'' ''old'', demo_person 2 ''left'' ''x''], aw_trail = [], aw_context = None, aw_now = 7\<rparr>"

lemma demo_audit_made: "audit_from_config demo_audit_config = Inr demo_audit"
  by code_simp

theorem audit_redacts_witness:
  "\<exists>es. aw_trail (fold (audit_call demo_cursor demo_audit demo_iso)
        [Update ''hr.PEOPLE'' [(''PASSWORD'', PText ''new'')] [(''id'', PInt 1)] demo_labels] demo_db)
      = aw_trail demo_db @ map (store_row (aw_now demo_db)) es
    \<and> list_all (\<lambda>e. key_covers (table_key ''People'') (table_key (ev_entity_type e))
         \<longrightarrow> hidden ''password'' (ev_old_values e) \<and> hidden ''password'' (ev_new_values e)) es
    \<and> list_all fits (map (store_row (aw_now demo_db)) es)"
  by (rule audit_redacts [OF demo_audit_made, of "[(''exclude'', CDict [(''People'', CList [CStr ''password''])]), (''max_rows'', CInt 2)]"
        "[(''People'', CList [CStr ''password''])]" _ "[CStr ''password'']"])
    (simp_all add: demo_audit_config_def section_of_def cget_def get_or_def as_dict_def)

definition demo_kinds :: "string \<Rightarrow> column_kind" where
  "demo_kinds k = (if k = ''id'' then KNumber else KText)"


end
