(* ===== verification/Audit_Cli.thy ===== *)
theory Audit_Cli
  imports Audit_Trail
begin

text \<open>
  The commands of the trail: \<open>audit/commands.py\<close>, and the service, \<open>audit/_service.py\<close>. For pruning,
  the table is the list of its rows, each the identifier and the time it was written; every statement
  is a visit of the server, which may fail, and before which other sessions may have written. How the
  server reads a date is a parameter. Printed lines are left out.
\<close>

section \<open>Installing\<close>

definition audit_install :: "string option \<Rightarrow> bool \<Rightarrow> directory \<Rightarrow> string \<Rightarrow> datetime \<Rightarrow> int \<times> string option \<times> directory" where
  "audit_install template writable dir table now =
     (if isl (audit_table_name table) then (2, None, dir)
      else case dir of
        None \<Rightarrow> (2, None, dir)
      | Some files \<Rightarrow>
          (case template of
             None \<Rightarrow> (1, None, dir)
           | Some schema \<Rightarrow>
               (let s = (if table \<noteq> ''audit_log'' then replace_all ''audit_log'' table schema else schema)
                in case new_filename (''create '' @ table) now of
                     Inl _ \<Rightarrow> (2, None, dir)
                   | Inr name \<Rightarrow>
                       if name \<in> fst ` set files then (1, None, dir)
                       else if \<not> writable then (1, None, dir)
                       else (0, Some name, Some (files @ [(name, utf8 (to_text s))])))))"

section \<open>Pruning\<close>

type_synonym prow = "int \<times> int"

record pvisit =
  pv_down :: bool
  pv_others :: "prow list \<Rightarrow> prow list"

record ptable =
  pt_rows :: "prow list"
  pt_visits :: "nat \<Rightarrow> pvisit"

definition visit_table :: "(prow list \<Rightarrow> 'a \<times> prow list) \<Rightarrow> ptable \<Rightarrow> 'a option \<times> ptable" where
  "visit_table statement w =
     (let v = pt_visits w 0; rows = pv_others v (pt_rows w); w1 = w\<lparr>pt_rows := rows, pt_visits := (\<lambda>n. pt_visits w (Suc n))\<rparr>
      in if pv_down v then (None, w1) else let (a, rows1) = statement rows in (Some a, w1\<lparr>pt_rows := rows1\<rparr>))"

definition old_rows :: "int \<Rightarrow> prow list \<Rightarrow> prow list" where
  "old_rows t rows = filter (\<lambda>r. snd r < t) rows"

definition count_old :: "int \<Rightarrow> prow list \<Rightarrow> nat \<times> prow list" where
  "count_old t rows = (length (old_rows t rows), rows)"

definition delete_batch :: "int \<Rightarrow> nat \<Rightarrow> prow list \<Rightarrow> nat \<times> prow list" where
  "delete_batch t batch rows =
     (let ids = take batch (sort (map fst (old_rows t rows)))
      in (length (filter (\<lambda>r. fst r \<in> set ids) rows), filter (\<lambda>r. fst r \<notin> set ids) rows))"

function prune_loop :: "int \<Rightarrow> nat \<Rightarrow> nat \<Rightarrow> nat \<Rightarrow> ptable \<Rightarrow> int \<times> nat \<times> ptable" where
  "prune_loop t batch found deleted w =
     (if deleted < found then
        (case visit_table (delete_batch t batch) w of
           (None, w1) \<Rightarrow> (1, deleted, w1)
         | (Some removed, w1) \<Rightarrow> if removed = 0 then (0, deleted, w1) else prune_loop t batch found (deleted + removed) w1)
      else (0, deleted, w))"
  by pat_completeness auto
termination by (relation "measure (\<lambda>(t, batch, found, deleted, w). found - deleted)") auto

declare prune_loop.simps [simp del]

text \<open>The exit code, the number of rows removed, and the table.\<close>

definition cmd_prune :: "(string \<Rightarrow> int option) \<Rightarrow> string \<Rightarrow> string \<Rightarrow> int \<Rightarrow> bool \<Rightarrow> ptable \<Rightarrow> int \<times> nat \<times> ptable" where
  "cmd_prune read_time table before batch dry w =
     (if isl (audit_table_name table) then (2, 0, w)
      else if \<not> before_ok before then (2, 0, w)
      else if batch < 1 then (2, 0, w)
      else case read_time before of
             None \<Rightarrow> (1, 0, snd (visit_table (\<lambda>rows. ((), rows)) w))
           | Some t \<Rightarrow>
               (case visit_table (count_old t) w of
                  (None, w1) \<Rightarrow> (1, 0, w1)
                | (Some found, w1) \<Rightarrow>
                    if found = 0 then (0, 0, w1)
                    else if dry then (0, 0, w1)
                    else prune_loop t (nat batch) found 0 w1))"

section \<open>The service\<close>

record audit_args =
  aa_step :: string
  aa_table :: "string option"
  aa_dir :: "string option"
  aa_db :: "string option"
  aa_before :: string
  aa_batch :: int
  aa_dry_run :: bool

record audit_env =
  ae_date :: datetime
  ae_template :: "string option"
  ae_writable :: bool
  ae_realpath :: "cv \<Rightarrow> string"
  ae_timestamp :: "string \<Rightarrow> int option"
  ae_connect :: "config \<Rightarrow> ptable option"

text \<open>\<open>a or b or c\<close>, over an argument and a setting.\<close>

definition first_given :: "string option \<Rightarrow> cv \<Rightarrow> string \<Rightarrow> cv" where
  "first_given arg setting dflt =
     (if (case arg of Some s \<Rightarrow> s \<noteq> [] | None \<Rightarrow> False) then CStr (the arg) else if truthy setting then setting else CStr dflt)"

text \<open>\<open>init_service\<close>: the exit code, the directory written to, and the table pruned.\<close>

definition audit_service ::
  "audit_env \<Rightarrow> (string \<Rightarrow> directory) \<Rightarrow> audit_args \<Rightarrow> config \<Rightarrow> int \<times> (string \<times> directory) option \<times> ptable option" where
  "audit_service v files a config =
     (case section_of config ''audit'' of
        Inl _ \<Rightarrow> (1, None, None)
      | Inr settings \<Rightarrow>
          (let table = first_given (aa_table a) (cget settings ''table'') ''audit_log''
           in if aa_step a = ''install'' then
                (case (install_dir (ae_realpath v) (aa_dir a) config, table) of
                   (Inr d, CStr t) \<Rightarrow>
                     (case audit_install (ae_template v) (ae_writable v) (files d) t (ae_date v) of (c, _, dir) \<Rightarrow> (c, Some (d, dir), None))
                 | _ \<Rightarrow> (1, None, None))
              else case section_of config ''db'' of
                     Inl _ \<Rightarrow> (1, None, None)
                   | Inr dbs \<Rightarrow>
                       (case first_given (aa_db a) (cget settings ''db'') ''main'' of
                          CStr name \<Rightarrow>
                            (case map_of dbs name of
                               None \<Rightarrow> (2, None, None)
                             | Some db \<Rightarrow>
                                 if aa_step a \<noteq> ''prune'' then (1, None, None)
                                 else (case (case as_dict db of Inl e \<Rightarrow> Inl e | Inr d \<Rightarrow> connect_kwargs d) of
                                         Inl _ \<Rightarrow> (1, None, None)
                                       | Inr kwargs \<Rightarrow>
                                           (case (ae_connect v kwargs, table) of
                                              (Some w, CStr t) \<Rightarrow>
                                                (case cmd_prune (ae_timestamp v) t (aa_before a) (aa_batch a) (aa_dry_run a) w of
                                                   (c, _, w1) \<Rightarrow> (c, None, Some w1))
                                            | _ \<Rightarrow> (1, None, None))))
                        | CList _ \<Rightarrow> (1, None, None)
                        | CDict _ \<Rightarrow> (1, None, None)
                        | _ \<Rightarrow> (2, None, None))))"

section \<open>What pruning removes\<close>

text \<open>Nobody else writes and no statement fails.\<close>

definition undisturbed :: "ptable \<Rightarrow> bool" where
  "undisturbed w \<longleftrightarrow> (\<forall>n. \<not> pv_down (pt_visits w n) \<and> pv_others (pt_visits w n) = id)"

text \<open>The other sessions leave a row in place.\<close>

definition spares :: "prow \<Rightarrow> ptable \<Rightarrow> bool" where
  "spares r w \<longleftrightarrow> (\<forall>n rows. r \<in> set rows \<longrightarrow> r \<in> set (pv_others (pt_visits w n) rows))
     \<and> (\<forall>n rows. distinct (map fst rows) \<longrightarrow> distinct (map fst (pv_others (pt_visits w n) rows)))"

lemma visit_undisturbed:
  "undisturbed w \<Longrightarrow> \<exists>w1. visit_table f w = (Some (fst (f (pt_rows w))), w1) \<and> undisturbed w1 \<and> pt_rows w1 = snd (f (pt_rows w))"
  by (auto simp: undisturbed_def visit_table_def Let_def split: prod.splits)

lemma visit_spares:
  assumes "spares r w" "r \<in> set (pt_rows w)" "distinct (map fst (pt_rows w))" "visit_table f w = (x, w1)"
    and "\<And>rows. r \<in> set rows \<Longrightarrow> distinct (map fst rows) \<Longrightarrow> r \<in> set (snd (f rows)) \<and> distinct (map fst (snd (f rows)))"
  shows "spares r w1 \<and> r \<in> set (pt_rows w1) \<and> distinct (map fst (pt_rows w1))"
  using assms(1-4) assms(5) [of "pv_others (pt_visits w 0) (pt_rows w)"]
  by (auto simp: spares_def visit_table_def Let_def split: prod.splits if_splits)

lemma delete_batch_distinct: "distinct (map fst rows) \<Longrightarrow> distinct (map fst (snd (delete_batch t batch rows)))"
  by (simp add: delete_batch_def Let_def distinct_map_filter)

lemma batch_ids_old: "x \<in> set (take batch (sort (map fst (old_rows t rows)))) \<Longrightarrow> \<exists>s. (x, s) \<in> set rows \<and> s < t"
  by (drule in_set_takeD) (auto simp: old_rows_def intro: exI conjI)

lemma delete_batch_young:
  assumes "t \<le> snd r" "r \<in> set rows" "distinct (map fst rows)"
  shows "r \<in> set (snd (delete_batch t batch rows))"
proof -
  have "fst r \<notin> set (take batch (sort (map fst (old_rows t rows))))"
  proof
    assume "fst r \<in> set (take batch (sort (map fst (old_rows t rows))))"
    then obtain s where "(fst r, s) \<in> set rows" "s < t" by (blast dest: batch_ids_old)
    then show False using assms by (metis eq_key_imp_eq_value leD prod.collapse)
  qed
  then show ?thesis using assms(2) by (simp add: delete_batch_def Let_def)
qed

lemma prune_loop_young:
  assumes "t \<le> snd r" "spares r w" "r \<in> set (pt_rows w)" "distinct (map fst (pt_rows w))"
  shows "r \<in> set (pt_rows (snd (snd (prune_loop t batch found deleted w))))"
  using assms
proof (induction t batch found deleted w rule: prune_loop.induct)
  case (1 t batch found deleted w)
  obtain x w1 where v: "visit_table (delete_batch t batch) w = (x, w1)" by (rule prod.exhaust)
  have w1: "spares r w1 \<and> r \<in> set (pt_rows w1) \<and> distinct (map fst (pt_rows w1))"
    using 1(3,4,5) v by (rule visit_spares) (simp add: delete_batch_young [OF 1(2)] delete_batch_distinct)
  then show ?case
    using 1 v by (subst prune_loop.simps) (auto split: option.splits)
qed

lemma batch_facts:
  fixes t :: int and batch :: nat
  assumes "distinct (map fst rows)"
  defines "ids \<equiv> take batch (sort (map fst (old_rows t rows)))"
  shows "fst (delete_batch t batch rows) = min batch (length (old_rows t rows))"
    and "length (old_rows t (snd (delete_batch t batch rows))) = length (old_rows t rows) - min batch (length (old_rows t rows))"
    and "filter (\<lambda>r. t \<le> snd r) (snd (delete_batch t batch rows)) = filter (\<lambda>r. t \<le> snd r) rows"
proof -
  have old: "snd r < t" if "r \<in> set rows" "fst r \<in> set ids" for r
    using that delete_batch_young [of t r rows batch] assms(1) by (simp add: delete_batch_def Let_def ids_def) (meson not_le)
  have ids: "distinct ids" "set ids \<subseteq> fst ` set (old_rows t rows)" "length ids = min batch (length (old_rows t rows))"
    using assms(1) by (auto simp: ids_def old_rows_def distinct_map_filter min.commute dest!: in_set_takeD)
  have hit: "filter (\<lambda>r. fst r \<in> set ids) rows = filter (\<lambda>r. fst r \<in> set ids) (old_rows t rows)"
    using old by (auto simp: old_rows_def intro!: filter_cong)
  have d: "distinct (map fst (filter (\<lambda>r. fst r \<in> set ids) (old_rows t rows)))"
    using assms(1) by (simp add: old_rows_def distinct_map_filter)
  have "fst ` set (filter (\<lambda>r. fst r \<in> set ids) (old_rows t rows)) = set ids" using ids(2) by auto
  then have n: "length (filter (\<lambda>r. fst r \<in> set ids) (old_rows t rows)) = length ids"
    using distinct_card [OF d] distinct_card [OF ids(1)] by simp
  then show "fst (delete_batch t batch rows) = min batch (length (old_rows t rows))"
    using hit ids(3) by (simp add: delete_batch_def Let_def ids_def [symmetric])
  have "length (filter (\<lambda>r. fst r \<in> set ids) (old_rows t rows)) + length (filter (\<lambda>r. fst r \<notin> set ids) (old_rows t rows)) = length (old_rows t rows)"
    by (rule sum_length_filter_compl)
  moreover have "old_rows t (snd (delete_batch t batch rows)) = filter (\<lambda>r. fst r \<notin> set ids) (old_rows t rows)"
    unfolding delete_batch_def Let_def ids_def [symmetric] by (simp add: old_rows_def conj_commute)
  ultimately show "length (old_rows t (snd (delete_batch t batch rows))) = length (old_rows t rows) - min batch (length (old_rows t rows))"
    using n ids(3) by simp
  show "filter (\<lambda>r. t \<le> snd r) (snd (delete_batch t batch rows)) = filter (\<lambda>r. t \<le> snd r) rows"
    unfolding delete_batch_def Let_def ids_def [symmetric] by (simp, rule filter_cong) (auto dest: old leD)
qed

lemma young_rest: "old_rows t rows = [] \<Longrightarrow> filter (\<lambda>r. t \<le> snd r) rows = rows"
  by (auto simp: old_rows_def filter_empty_conv not_less intro!: filter_True)

lemma prune_loop_complete:
  assumes "undisturbed w" "distinct (map fst (pt_rows w))" "1 \<le> batch" "found = deleted + length (old_rows t (pt_rows w))"
  shows "\<exists>w1. prune_loop t batch found deleted w = (0, found, w1) \<and> pt_rows w1 = filter (\<lambda>r. t \<le> snd r) (pt_rows w)"
  using assms
proof (induction t batch found deleted w rule: prune_loop.induct)
  case (1 t batch found deleted w)
  note b = batch_facts [OF 1(3), of t batch]
  obtain w1 where v: "visit_table (delete_batch t batch) w = (Some (fst (delete_batch t batch (pt_rows w))), w1)" "undisturbed w1"
    "pt_rows w1 = snd (delete_batch t batch (pt_rows w))" using visit_undisturbed [OF 1(2)] by blast
  show ?case
  proof (cases "deleted < found")
    case True
    then have pos: "min batch (length (old_rows t (pt_rows w))) \<noteq> 0" using 1(4,5) by simp
    have "\<exists>w2. prune_loop t batch found (deleted + min batch (length (old_rows t (pt_rows w)))) w1 = (0, found, w2)
        \<and> pt_rows w2 = filter (\<lambda>r. t \<le> snd r) (pt_rows w1)"
      using 1(1) [OF True v(1) [unfolded b(1), symmetric] refl pos] v(2,3) b(2) 1(4,5) delete_batch_distinct [OF 1(3)] by auto
    then show ?thesis using True pos v(1) b(1,3) v(3) by (subst prune_loop.simps) simp
  next
    case False
    then show ?thesis using 1(5) young_rest [of t "pt_rows w"] by (subst prune_loop.simps) simp
  qed
qed

text \<open>
  C27. Pruning stops, removes what it should, and nothing else. It is a total function: each batch
  that does not end the loop removes a row. A row that is not older than the given moment and that nobody
  else removes is still there afterwards, whatever else other sessions write, whichever statement
  fails and with whatever exit code. And when no statement fails and nobody else writes, the exit code is 0,
  the rows left are exactly those that are not older, in their order, and the number reported is that of the
  rows gone; a dry run changes nothing.
\<close>

theorem prune_removes_old_rows:
  assumes "table_re table" "before_ok before" "1 \<le> batch" "read_time before = Some t" "distinct (map fst (pt_rows w))"
    and "cmd_prune read_time table before batch dry w = (c, n, w1)"
  shows "(t \<le> snd r \<and> spares r w \<and> r \<in> set (pt_rows w) \<longrightarrow> r \<in> set (pt_rows w1))
    \<and> (undisturbed w \<longrightarrow> c = 0 \<and> pt_rows w1 = (if dry then pt_rows w else filter (\<lambda>r. t \<le> snd r) (pt_rows w))
         \<and> n + length (pt_rows w1) = length (pt_rows w))"
proof -
  obtain x w0 where v: "visit_table (count_old t) w = (x, w0)" by (rule prod.exhaust)
  have cmd: "(c, n, w1) = (case x of None \<Rightarrow> (1, 0, w0) | Some k \<Rightarrow> if k = 0 then (0, 0, w0) else if dry then (0, 0, w0)
      else prune_loop t (nat batch) k 0 w0)"
    using assms(1-4,6) v by (simp add: cmd_prune_def audit_table_name_def)
  have young: "r \<in> set (pt_rows w1)" if r: "t \<le> snd r" "spares r w" "r \<in> set (pt_rows w)"
  proof -
    have "spares r w0 \<and> r \<in> set (pt_rows w0) \<and> distinct (map fst (pt_rows w0))"
      using r(2,3) assms(5) v by (rule visit_spares) (simp add: count_old_def)
    then show ?thesis using cmd prune_loop_young [OF r(1), of w0 "nat batch" _ 0]
      by (auto split: option.splits if_splits simp: prod_eq_iff)
  qed
  have all: "c = 0 \<and> pt_rows w1 = (if dry then pt_rows w else filter (\<lambda>r. t \<le> snd r) (pt_rows w)) \<and> n + length (pt_rows w1) = length (pt_rows w)"
    if u: "undisturbed w"
  proof -
    have x: "x = Some (length (old_rows t (pt_rows w)))" "pt_rows w0 = pt_rows w" "undisturbed w0"
      using visit_undisturbed [OF u, of "count_old t"] v by (auto simp: count_old_def)
    have len: "length (old_rows t (pt_rows w)) + length (filter (\<lambda>r. t \<le> snd r) (pt_rows w)) = length (pt_rows w)"
      using sum_length_filter_compl [of "\<lambda>r. snd r < t" "pt_rows w"] by (simp add: old_rows_def not_less)
    show ?thesis
    proof (cases "old_rows t (pt_rows w) = [] \<or> dry")
      case True
      then show ?thesis using cmd x young_rest [of t "pt_rows w"] by (auto split: if_splits)
    next
      case False
      obtain w2 where "prune_loop t (nat batch) (length (old_rows t (pt_rows w))) 0 w0 = (0, length (old_rows t (pt_rows w)), w2)"
        "pt_rows w2 = filter (\<lambda>r. t \<le> snd r) (pt_rows w)"
        using prune_loop_complete [of w0 "nat batch" "length (old_rows t (pt_rows w))" 0 t] x(2,3) assms(3,5) by (auto simp: nat_le_iff Suc_le_eq)
      then show ?thesis using False cmd x len by simp
    qed
  qed
  show ?thesis using young all by blast
qed

definition demo_trail :: ptable where
  "demo_trail = \<lparr>pt_rows = [(3, 50), (1, 10), (4, 99), (2, 20)], pt_visits = (\<lambda>_. \<lparr>pv_down = False, pv_others = id\<rparr>)\<rparr>"

lemma demo_undisturbed: "undisturbed demo_trail"
  by (simp add: undisturbed_def demo_trail_def)

theorem prune_removes_old_rows_witness:
  "\<exists>w1. cmd_prune (\<lambda>_. Some 50) ''audit_log'' ''2024-01-01'' 1 False demo_trail = (0, 2, w1) \<and> pt_rows w1 = [(3, 50), (4, 99)]"
proof -
  obtain c n w1 where r: "cmd_prune (\<lambda>_. Some 50) ''audit_log'' ''2024-01-01'' 1 False demo_trail = (c, n, w1)" by (rule prod_cases3)
  have ok: "table_re ''audit_log''" "before_ok ''2024-01-01''" by code_simp+
  have "c = 0 \<and> pt_rows w1 = [(3, 50), (4, 99)] \<and> n = 2"
    using prune_removes_old_rows [OF ok _ refl _ r, of "(0, 0)"] demo_undisturbed by (auto simp: demo_trail_def)
  then show ?thesis using r by blast
qed

end
