(* ===== verification/Log_Redact.thy ===== *)
theory Log_Redact
  imports Py_Json
begin

text \<open>
  What the program writes about requests into its log: the redacting and shortening functions of
  \<open>utils.py\<close>, and \<open>log_request\<close> of \<open>request_handler/handlers.py\<close>. Text is a list of code points; lower case is
  Python's on the code points below 256, as elsewhere. The JSON reader and writer, a library, are
  parameters: a reading or writing that raises is \<open>None\<close>.
\<close>

section \<open>Slices\<close>

text \<open>\<open>s[:n]\<close> and \<open>s[n:]\<close>, where a negative number counts from the end.\<close>

definition slice_to :: "'a list \<Rightarrow> int \<Rightarrow> 'a list" where
  "slice_to s n = take (nat (if n < 0 then int (length s) + n else n)) s"

definition slice_from :: "'a list \<Rightarrow> int \<Rightarrow> 'a list" where
  "slice_from s n = drop (nat (if n < 0 then int (length s) + n else n)) s"

definition ELLIPSIS :: nat where "ELLIPSIS = 8230"

definition truncate_middle :: "codes \<Rightarrow> int \<Rightarrow> codes" where
  "truncate_middle s max_len =
     (if int (length s) \<le> max_len then s
      else (let head = max_len div 2; tail = max_len - head - 1
            in slice_to s head @ [ELLIPSIS] @ slice_from s (- tail)))"

definition maybe_truncate :: "codes \<Rightarrow> int \<Rightarrow> codes \<times> codes" where
  "maybe_truncate msg n = (slice_to msg n, if n < int (length msg) then to_text (CHR 0x0A # ''...truncated...'') else [])"

section \<open>Base64 summaries\<close>

definition code_space :: "nat \<Rightarrow> bool" where
  "code_space n \<longleftrightarrow> (9 \<le> n \<and> n \<le> 13) \<or> (28 \<le> n \<and> n \<le> 32) \<or> n \<in> {133, 160, 5760, 8232, 8233, 8239, 8287, 12288} \<or> (8192 \<le> n \<and> n \<le> 8202)"

definition base64_char :: "nat \<Rightarrow> bool" where
  "base64_char c \<longleftrightarrow> (65 \<le> c \<and> c \<le> 90) \<or> (97 \<le> c \<and> c \<le> 122) \<or> (48 \<le> c \<and> c \<le> 57) \<or> c \<in> {43, 47, 61}"

definition summarize_maybe_base64 :: "codes \<Rightarrow> nat \<Rightarrow> int \<Rightarrow> codes" where
  "summarize_maybe_base64 s preview hard_cap =
     (let compact = filter (\<lambda>c. \<not> code_space c) s; n = length compact
      in if compact \<noteq> [] \<and> n mod 4 = 0 \<and> list_all base64_char compact
         then to_text ''<base64 '' @ show_nat n @ to_text '' chars (~''
              @ show_int (int (n * 3 div 4) - int (length (filter (\<lambda>c. c = 61) compact))) @ to_text '' bytes) ''
              @ take preview compact @ [ELLIPSIS] @ (if 2 * preview < n then drop (n - preview) compact else []) @ to_text ''>''
         else truncate_middle s hard_cap)"

section \<open>Sensitive names\<close>

definition SENSITIVE_KEY_MARKERS :: "string list" where
  "SENSITIVE_KEY_MARKERS =
     [''authorization'', ''cookie'', ''pass'', ''pwd'', ''secret'', ''token'', ''api-key'', ''api_key'', ''apikey'',
      ''private_key'', ''private-key'', ''privatekey'', ''account_key'', ''accountkey'', ''access_key'', ''access-key'',
      ''accesskey'', ''encryption_key'', ''signing_key'', ''hmac'', ''jwt'', ''bearer'', ''totp'', ''otp_code'', ''otp-code'',
      ''one_time_code'', ''mfa_code'', ''pin_code'', ''pincode'', ''credential'', ''connection_string'', ''connectionstring'',
      ''conn_str'', ''dsn'', ''salt'', ''signature'', ''session'', ''username'', ''user_name'', ''login'']"

definition lower_code :: "nat \<Rightarrow> nat" where
  "lower_code n = (if (65 \<le> n \<and> n \<le> 90) \<or> (192 \<le> n \<and> n \<le> 222 \<and> n \<noteq> 215) then n + 32 else n)"

fun occurs_in :: "'a list \<Rightarrow> 'a list \<Rightarrow> bool" where
  "occurs_in p [] = (p = [])"
| "occurs_in p (x # s) = (take (length p) (x # s) = p \<or> occurs_in p s)"

definition is_sensitive_key :: "codes \<Rightarrow> bool" where
  "is_sensitive_key name = list_ex (\<lambda>marker. occurs_in (to_text marker) (map lower_code name)) SENSITIVE_KEY_MARKERS"

definition REDACTED_TEXT :: codes where
  "REDACTED_TEXT = to_text ''<redacted>''"

definition redact_headers :: "(codes, codes) dict \<Rightarrow> (codes, codes) dict" where
  "redact_headers headers = map (\<lambda>(k, v). (k, if is_sensitive_key k then REDACTED_TEXT else v)) headers"

section \<open>UTF-8 with replacement\<close>

text \<open>
  \<open>decode("utf-8", errors="replace")\<close>: the longest beginning of a well-formed sequence at a bad
  position becomes one replacement character. The second byte of a sequence has the bounds that
  its first byte gives.
\<close>

definition second_ok :: "nat \<Rightarrow> nat \<Rightarrow> bool" where
  "second_ok a b \<longleftrightarrow> cont b \<and> (a = 0xE0 \<longrightarrow> 0xA0 \<le> b) \<and> (a = 0xED \<longrightarrow> b < 0xA0) \<and> (a = 0xF0 \<longrightarrow> 0x90 \<le> b) \<and> (a = 0xF4 \<longrightarrow> b < 0x90)"

fun decode_replace :: "bytes \<Rightarrow> codes" where
  "decode_replace [] = []"
| "decode_replace (a # r) =
     (if a < 0x80 then a # decode_replace r
      else if \<not> (0xC2 \<le> a \<and> a < 0xF5) then 0xFFFD # decode_replace r
      else case r of
        [] \<Rightarrow> [0xFFFD]
      | b # r1 \<Rightarrow>
          if \<not> second_ok a b then 0xFFFD # decode_replace r
          else if a < 0xE0 then ((a - 0xC0) * 64 + (b - 0x80)) # decode_replace r1
          else (case r1 of
            [] \<Rightarrow> [0xFFFD]
          | c # r2 \<Rightarrow>
              if \<not> cont c then 0xFFFD # decode_replace r1
              else if a < 0xF0 then ((a - 0xE0) * 4096 + (b - 0x80) * 64 + (c - 0x80)) # decode_replace r2
              else (case r2 of
                [] \<Rightarrow> [0xFFFD]
              | d # r3 \<Rightarrow>
                  if \<not> cont d then 0xFFFD # decode_replace r2
                  else ((a - 0xF0) * 262144 + (b - 0x80) * 4096 + (c - 0x80) * 64 + (d - 0x80)) # decode_replace r3)))"

declare decode_replace.simps(2) [simp del]

datatype raw = RawBytes bytes | RawText codes | RawOther codes

text \<open>\<open>safe_decode\<close>; anything that is neither bytes nor text carries its \<open>repr\<close>.\<close>

definition safe_decode :: "raw \<Rightarrow> codes" where
  "safe_decode x = (case x of RawBytes b \<Rightarrow> decode_replace b | RawText t \<Rightarrow> t | RawOther t \<Rightarrow> t)"

section \<open>Form fields\<close>

text \<open>\<open>unquote_plus\<close>: the percent escapes in a stretch of ASCII are bytes of UTF-8; other characters stay.\<close>

fun percent_bytes :: "codes \<Rightarrow> bytes" where
  "percent_bytes [] = []"
| "percent_bytes (c # s) =
     (if c = 37 then
        (case s of
           a # b # r \<Rightarrow>
             (case (hex_val a, hex_val b) of
                (Some x, Some y) \<Rightarrow> (x * 16 + y) # percent_bytes r
              | _ \<Rightarrow> c # percent_bytes s)
         | _ \<Rightarrow> c # percent_bytes s)
      else c # percent_bytes s)"

function unquote :: "codes \<Rightarrow> codes" where
  "unquote [] = []"
| "unquote (c # s) =
     (if c < 128 then decode_replace (percent_bytes (takeWhile (\<lambda>x. x < 128) (c # s))) @ unquote (dropWhile (\<lambda>x. x < 128) (c # s))
      else c # unquote s)"
  by pat_completeness auto
termination by (relation "measure length") (auto simp: less_Suc_eq_le intro: length_dropWhile_le)

definition unquote_plus :: "codes \<Rightarrow> codes" where
  "unquote_plus s = unquote (map (\<lambda>c. if c = 43 then 32 else c) s)"

text \<open>A field is what stands between two ampersands; only one with an equals sign is looked at.\<close>

definition redact_field :: "codes \<Rightarrow> codes" where
  "redact_field f =
     (case partition_on 61 f of (k, eq, v) \<Rightarrow> if eq \<and> is_sensitive_key (unquote_plus k) then k @ [61] @ REDACTED_TEXT else f)"

definition redact_form_fields :: "codes \<Rightarrow> codes" where
  "redact_form_fields t = join [38] (map redact_field (split_on 38 t))"

section \<open>JSON\<close>

definition more_items :: "int \<Rightarrow> codes" where
  "more_items n = to_text ''<'' @ [ELLIPSIS] @ to_text '' '' @ show_int n @ to_text '' more items>''"

fun shrink_json :: "int \<Rightarrow> int \<Rightarrow> json \<Rightarrow> json" where
  "shrink_json max_string max_items (JObj kvs) =
     JObj (map (\<lambda>(k, v). (k, if is_sensitive_key k then JStr REDACTED_TEXT else shrink_json max_string max_items v)) kvs)"
| "shrink_json max_string max_items (JList xs) =
     JList (slice_to (map (\<lambda>x. shrink_json max_string max_items x) xs) max_items
       @ (if max_items < int (length xs) then [JStr (more_items (int (length xs) - max_items))] else []))"
| "shrink_json max_string max_items (JStr s) = JStr (summarize_maybe_base64 s 32 max_string)"
| "shrink_json max_string max_items j = j"

record json_lib =
  jl_decode :: "codes \<Rightarrow> json option"
  jl_encode :: "json \<Rightarrow> codes option"

record log_limits =
  lm_chars :: int
  lm_strings :: int
  lm_items :: int

definition format_body_for_log :: "json_lib \<Rightarrow> log_limits \<Rightarrow> raw \<Rightarrow> codes" where
  "format_body_for_log lib l body =
     (let text = safe_decode body;
          fallback = truncate_middle (summarize_maybe_base64 (redact_form_fields text) 32 (lm_strings l)) (lm_chars l)
      in case jl_decode lib text of
           None \<Rightarrow> fallback
         | Some js \<Rightarrow>
             (case jl_encode lib (shrink_json (lm_strings l) (lm_items l) js) of
                None \<Rightarrow> fallback
              | Some t \<Rightarrow> truncate_middle t (lm_chars l)))"

text \<open>A response: a dictionary or list, or something else; \<open>None\<close> where encoding raises.\<close>

definition format_response_for_log :: "json_lib \<Rightarrow> log_limits \<Rightarrow> json + raw \<Rightarrow> codes option" where
  "format_response_for_log lib l response =
     (case response of
        Inl js \<Rightarrow> map_option (\<lambda>t. truncate_middle t (lm_chars l)) (jl_encode lib (shrink_json (lm_strings l) (lm_items l) js))
      | Inr x \<Rightarrow> Some (truncate_middle (safe_decode x) (lm_chars l)))"

section \<open>The request logger\<close>

record request =
  rq_method :: codes
  rq_path :: codes
  rq_headers :: "(codes, codes) dict"
  rq_arguments :: "(codes, codes) dict option"
  rq_body :: raw
  rq_json :: "(json + raw) option"

datatype log_line = ErrorLine codes | RequestLine codes codes nat "(codes, codes) dict option"
  | HeadersLine "(codes, codes) dict" | BodyLine codes | ResponseLine codes

definition body_length :: "raw \<Rightarrow> nat" where
  "body_length x = (case x of RawBytes b \<Rightarrow> length b | _ \<Rightarrow> length (safe_decode x))"

definition body_short :: "(bytes \<Rightarrow> codes) \<Rightarrow> raw \<Rightarrow> codes" where
  "body_short sha1 x =
     (case x of
        RawBytes b \<Rightarrow> to_text ''<'' @ show_nat (length b) @ to_text '' bytes sha1='' @ take 12 (sha1 b) @ to_text ''>''
      | _ \<Rightarrow> to_text ''<'' @ show_nat (length (safe_decode x)) @ to_text '' chars>'')"

definition body_for_log :: "json_lib \<Rightarrow> log_limits \<Rightarrow> request \<Rightarrow> codes option" where
  "body_for_log lib l r =
     (case rq_json r of Some j \<Rightarrow> format_response_for_log lib l j | None \<Rightarrow> Some (format_body_for_log lib l (rq_body r)))"

definition LOG_METHODS :: "string list" where
  "LOG_METHODS = [''debug'', ''info'', ''warning'', ''warn'', ''error'', ''exception'', ''critical'', ''fatal'']"

text \<open>
  The lines with their levels, in order; \<open>None\<close> where formatting raises. An unknown level is
  \<open>info\<close>; details go to \<open>debug\<close> unless the level is already above \<open>info\<close>.
\<close>

definition log_request ::
  "json_lib \<Rightarrow> (bytes \<Rightarrow> codes) \<Rightarrow> log_limits \<Rightarrow> string \<Rightarrow> codes option \<Rightarrow> (json + raw) option \<Rightarrow> bool \<Rightarrow> request
    \<Rightarrow> (string \<times> log_line) list option" where
  "log_request lib sha1 l level error response include_body r =
     (let lv = (if error \<noteq> None \<and> lower level = ''info'' then ''warning'' else lower level);
          log = (if lv \<in> set LOG_METHODS then lv else ''info'');
          detail = (if lv \<in> {''info'', ''debug''} then ''debug'' else log)
      in case (if include_body then body_for_log lib l r else Some (body_short sha1 (rq_body r))) of
           None \<Rightarrow> None
         | Some body \<Rightarrow>
             (case (case response of None \<Rightarrow> Some [] | Some x \<Rightarrow> map_option (\<lambda>t. [(detail, ResponseLine t)]) (format_response_for_log lib l x)) of
                None \<Rightarrow> None
              | Some rest \<Rightarrow>
                  Some ((case error of None \<Rightarrow> [] | Some e \<Rightarrow> [(log, ErrorLine e)])
                    @ [(log, RequestLine (rq_method r) (rq_path r) (body_length (rq_body r)) (map_option redact_headers (rq_arguments r))),
                       (detail, HeadersLine (redact_headers (rq_headers r))), (detail, BodyLine body)] @ rest)))"

section \<open>Nothing secret is written\<close>

text \<open>What is left of headers, form fields and JSON when the values under sensitive names are removed.\<close>

definition veil_headers :: "(codes, codes) dict \<Rightarrow> (codes, codes) dict" where
  "veil_headers h = map (\<lambda>(k, v). (k, if is_sensitive_key k then [] else v)) h"

definition veil_field :: "codes \<Rightarrow> codes" where
  "veil_field f = (case partition_on 61 f of (k, eq, v) \<Rightarrow> if eq \<and> is_sensitive_key (unquote_plus k) then k @ [61] else f)"

definition veil_form :: "codes \<Rightarrow> codes" where
  "veil_form t = join [38] (map veil_field (split_on 38 t))"

fun veil :: "json \<Rightarrow> json" where
  "veil (JObj kvs) = JObj (map (\<lambda>(k, v). (k, if is_sensitive_key k then JNull else veil v)) kvs)"
| "veil (JList xs) = JList (map veil xs)"
| "veil j = j"

lemma redact_headers_veil: "redact_headers (veil_headers h) = redact_headers h"
  by (auto simp: redact_headers_def veil_headers_def)

lemma redact_headers_alike: "veil_headers h = veil_headers h' \<Longrightarrow> redact_headers h = redact_headers h'"
  by (metis redact_headers_veil)

lemma shrink_veil: "shrink_json m n (veil j) = shrink_json m n j"
  by (induction j rule: veil.induct) (auto simp: o_def slice_to_def intro!: arg_cong [where f = "take _"] map_cong)

lemma redact_field_veil: "redact_field (veil_field f) = redact_field f"
proof -
  obtain k eq v where p: "partition_on 61 f = (k, eq, v)" by (rule prod_cases3)
  show ?thesis
    using partition_on_spec [OF p] partition_on_append [of 61 k "[]"] by (auto simp: redact_field_def veil_field_def p split: if_splits)
qed

lemma split_on_join: "fs \<noteq> [] \<Longrightarrow> list_all (\<lambda>f. c \<notin> set f) fs \<Longrightarrow> split_on c (join [c] fs) = fs"
proof (induction "[c]" fs rule: join.induct)
  case (3 x y ys)
  have "split_on c (x @ c # z) = x # split_on c z" if "c \<notin> set x" for x z using that by (induction x) auto
  then show ?case using 3 by simp
qed (simp_all add: split_on_absent)

lemma veil_field_no_amp: "38 \<notin> set f \<Longrightarrow> 38 \<notin> set (veil_field f)"
  using partition_on_spec [of 61 f] by (cases "partition_on 61 f") (fastforce simp: veil_field_def split: if_splits)

lemma redact_form_veil: "redact_form_fields (veil_form t) = redact_form_fields t"
proof -
  have "split_on 38 (veil_form t) = map veil_field (split_on 38 t)"
    unfolding veil_form_def by (rule split_on_join) (auto simp: list_all_iff veil_field_no_amp dest: split_on_no_sep)
  then show ?thesis by (simp add: redact_form_fields_def redact_field_veil o_def)
qed

section \<open>Lengths\<close>

lemma truncate_middle_length: "3 \<le> n \<Longrightarrow> int (length (truncate_middle s n)) \<le> n"
  by (auto simp: truncate_middle_def slice_to_def slice_from_def Let_def)

text \<open>With a limit of one or two a text that is too long is not shortened at all.\<close>

lemma truncate_middle_tiny: "n \<in> {1, 2} \<Longrightarrow> n < int (length s) \<Longrightarrow> \<exists>p. truncate_middle s n = p @ [ELLIPSIS] @ s"
  by (auto simp: truncate_middle_def slice_to_def slice_from_def Let_def)

section \<open>What two requests must share to be logged alike\<close>

text \<open>
  A body that is JSON must encode again after it was shrunk: where it does not, the raw text is
  logged with only its form fields redacted.
\<close>

definition alike_body :: "json_lib \<Rightarrow> log_limits \<Rightarrow> raw \<Rightarrow> raw \<Rightarrow> bool" where
  "alike_body lib l a b =
     (case (jl_decode lib (safe_decode a), jl_decode lib (safe_decode b)) of
        (Some j, Some k) \<Rightarrow> veil j = veil k \<and> jl_encode lib (shrink_json (lm_strings l) (lm_items l) j) \<noteq> None
      | (None, None) \<Rightarrow> veil_form (safe_decode a) = veil_form (safe_decode b)
      | _ \<Rightarrow> False)"

definition alike_args :: "(json + raw) option \<Rightarrow> (json + raw) option \<Rightarrow> bool" where
  "alike_args a b = (case (a, b) of (Some (Inl j), Some (Inl k)) \<Rightarrow> veil j = veil k | _ \<Rightarrow> a = b)"

text \<open>Of the body nothing is asked where it was parsed, as then it is not logged itself.\<close>

definition alike_request :: "json_lib \<Rightarrow> log_limits \<Rightarrow> request \<Rightarrow> request \<Rightarrow> bool" where
  "alike_request lib l r r' \<longleftrightarrow> rq_method r = rq_method r' \<and> rq_path r = rq_path r'
     \<and> veil_headers (rq_headers r) = veil_headers (rq_headers r')
     \<and> map_option veil_headers (rq_arguments r) = map_option veil_headers (rq_arguments r')
     \<and> alike_args (rq_json r) (rq_json r') \<and> (rq_json r = None \<longrightarrow> alike_body lib l (rq_body r) (rq_body r'))"

text \<open>
  The two figures in the log that depend on the whole body: its length, and in place of the body,
  when that is left out, its length and the first digits of its digest.
\<close>

fun without_figures :: "bool \<Rightarrow> log_line \<Rightarrow> log_line" where
  "without_figures include_body (RequestLine m p n a) = RequestLine m p 0 a"
| "without_figures include_body (BodyLine t) = BodyLine (if include_body then t else [])"
| "without_figures include_body x = x"

lemma shrink_alike: "veil j = veil k \<Longrightarrow> shrink_json m n j = shrink_json m n k"
  by (metis shrink_veil)

lemma format_body_alike:
  assumes "alike_body lib l a b"
  shows "format_body_for_log lib l a = format_body_for_log lib l b"
proof (cases "jl_decode lib (safe_decode a)")
  case None
  then have b: "jl_decode lib (safe_decode b) = None" and v: "veil_form (safe_decode a) = veil_form (safe_decode b)"
    using assms by (auto simp: alike_body_def split: option.splits)
  have "redact_form_fields (safe_decode a) = redact_form_fields (safe_decode b)" using v by (metis redact_form_veil)
  then show ?thesis using None b by (simp add: format_body_for_log_def)
next
  case (Some j)
  then obtain k x where b: "jl_decode lib (safe_decode b) = Some k" and v: "veil j = veil k"
    and x: "jl_encode lib (shrink_json (lm_strings l) (lm_items l) j) = Some x"
    using assms by (auto simp: alike_body_def split: option.splits)
  show ?thesis using x by (simp add: format_body_for_log_def Some b shrink_alike [OF v])
qed

lemma response_alike: "veil j = veil k \<Longrightarrow> format_response_for_log lib l (Inl j) = format_response_for_log lib l (Inl k)"
  by (auto simp: format_response_for_log_def dest: shrink_alike [of _ _ "lm_strings l" "lm_items l"])

lemma args_alike: "map_option veil_headers a = map_option veil_headers b \<Longrightarrow> map_option redact_headers a = map_option redact_headers b"
  by (cases a; cases b) (auto dest: redact_headers_alike)

lemma alike_args_cases:
  assumes "alike_args a b"
  shows "(\<exists>j k. a = Some (Inl j) \<and> b = Some (Inl k) \<and> veil j = veil k) \<or> a = b"
proof (cases a)
  case None
  then show ?thesis using assms by (simp add: alike_args_def)
next
  case (Some x)
  show ?thesis
  proof (cases x)
    case (Inl j)
    then show ?thesis using assms Some by (cases b; cases "the b") (auto simp: alike_args_def)
  next
    case (Inr y)
    then show ?thesis using assms Some by (simp add: alike_args_def)
  qed
qed

lemma body_for_log_alike:
  assumes "alike_request lib l r r'"
  shows "body_for_log lib l r = body_for_log lib l r'"
proof -
  have j: "alike_args (rq_json r) (rq_json r')" and b: "rq_json r = None \<Longrightarrow> alike_body lib l (rq_body r) (rq_body r')"
    using assms by (simp_all add: alike_request_def)
  show ?thesis
    using alike_args_cases [OF j]
  proof (elim disjE exE conjE)
    fix j k
    assume "rq_json r = Some (Inl j)" "rq_json r' = Some (Inl k)" and v: "veil j = veil k"
    then show ?thesis using response_alike [OF v] by (simp add: body_for_log_def)
  next
    assume e: "rq_json r = rq_json r'"
    show ?thesis
    proof (cases "rq_json r")
      case None
      then show ?thesis using format_body_alike [OF b [OF None]] e by (simp add: body_for_log_def)
    next
      case (Some j)
      then show ?thesis using e by (simp add: body_for_log_def)
    qed
  qed
qed

lemma body_for_log_length: "3 \<le> lm_chars l \<Longrightarrow> body_for_log lib l r = Some t \<Longrightarrow> int (length t) \<le> lm_chars l"
  by (auto simp: body_for_log_def format_response_for_log_def format_body_for_log_def Let_def truncate_middle_length
      split: option.splits sum.splits)


definition demo_request :: "codes \<Rightarrow> request" where
  "demo_request secret = \<lparr>rq_method = to_text ''POST'', rq_path = to_text ''/api'', rq_headers = [(to_text ''X-Auth-Token'', secret)],
     rq_arguments = None, rq_body = RawText secret, rq_json = Some (Inl (JObj [(to_text ''user'', JObj [(to_text ''Password'', JStr secret)])]))\<rparr>"

definition demo_limits :: log_limits where
  "demo_limits = \<lparr>lm_chars = 4000, lm_strings = 256, lm_items = 50\<rparr>"

lemma demo_sensitive: "is_sensitive_key (to_text ''X-Auth-Token'')" "is_sensitive_key (to_text ''Password'')" "\<not> is_sensitive_key (to_text ''user'')"
  by (simp_all add: is_sensitive_key_def SENSITIVE_KEY_MARKERS_def to_text_def code_def lower_code_def)


end
