(* ===== verification/Log_Handlers.thy ===== *)
theory Log_Handlers
  imports Log_Redact
begin

text \<open>
  The handlers of the log, \<open>logger_handlers.py\<close>: the filter in front of the Sentry client, the
  scrubber of its events and the handler that writes to the console. The text of an event, the
  clock and the formatted text of a record come from outside; so does the client's own
  scrubbing of a request, and its list of denied names.
\<close>

section \<open>Similarity of two texts\<close>

text \<open>
  \<open>SequenceMatcher(None, a, b)\<close>: in a second text of 200 elements or more those that occur more
  than once in a hundred, and once more, are left out when a match is looked for. A match is the
  longest common block of other elements, the first one in the first text and then in the
  second; it is then stretched over equal elements on both sides, and the search goes on in the
  texts before and behind it.
\<close>

definition popular :: "'a list \<Rightarrow> 'a \<Rightarrow> bool" where
  "popular b x \<longleftrightarrow> 200 \<le> length b \<and> length b div 100 + 1 < length (filter (\<lambda>y. y = x) b)"

fun common_block :: "('a \<Rightarrow> bool) \<Rightarrow> 'a list \<Rightarrow> 'a list \<Rightarrow> nat" where
  "common_block skip (x # xs) (y # ys) = (if x = y \<and> \<not> skip x then Suc (common_block skip xs ys) else 0)"
| "common_block skip _ _ = 0"

fun first_longest :: "(nat \<times> nat \<times> nat) \<Rightarrow> (nat \<times> nat \<times> nat) list \<Rightarrow> nat \<times> nat \<times> nat" where
  "first_longest best [] = best"
| "first_longest best (m # ms) = first_longest (if snd (snd best) < snd (snd m) then m else best) ms"

definition blocks_from :: "('a \<Rightarrow> bool) \<Rightarrow> 'a list \<Rightarrow> 'a list \<Rightarrow> (nat \<times> nat \<times> nat) list" where
  "blocks_from skip a b =
     concat (map (\<lambda>i. map (\<lambda>j. (i, j, common_block skip (drop i a) (drop j b))) [0..<length b]) [0..<length a])"

definition find_longest_match :: "('a \<Rightarrow> bool) \<Rightarrow> 'a list \<Rightarrow> 'a list \<Rightarrow> nat \<times> nat \<times> nat" where
  "find_longest_match skip a b =
     (let (i, j, k) = first_longest (0, 0, 0) (blocks_from skip a b);
          before = common_block (\<lambda>_. False) (rev (take i a)) (rev (take j b));
          behind = common_block (\<lambda>_. False) (drop (i + k) a) (drop (j + k) b)
      in (i - before, j - before, before + k + behind))"

lemma common_block_le: "common_block skip xs ys \<le> length xs \<and> common_block skip xs ys \<le> length ys"
  by (induction skip xs ys rule: common_block.induct) auto

lemma first_longest_mem: "first_longest best ms \<in> insert best (set ms)"
  by (induction best ms rule: first_longest.induct) (auto split: if_splits)

lemma first_longest_ge: "snd (snd best) \<le> snd (snd (first_longest best ms))"
  by (induction ms arbitrary: best) (auto intro: order_trans [OF less_imp_le])

lemma first_longest_max: "m \<in> insert best (set ms) \<Longrightarrow> snd (snd m) \<le> snd (snd (first_longest best ms))"
proof (induction ms arbitrary: best)
  case (Cons m' ms)
  let ?b = "if snd (snd best) < snd (snd m') then m' else best"
  have "snd (snd ?b) \<le> snd (snd (first_longest ?b ms))" by (rule first_longest_ge)
  then have "snd (snd best) \<le> snd (snd (first_longest ?b ms)) \<and> snd (snd m') \<le> snd (snd (first_longest ?b ms))"
    by (auto split: if_splits)
  with Cons.IH [of ?b] Cons.prems show ?case by auto
qed simp

text \<open>A match lies within both texts.\<close>

lemma find_longest_bounds:
  assumes "find_longest_match skip a b = (i, j, k)"
  shows "i + k \<le> length a \<and> j + k \<le> length b"
proof -
  obtain p q n where best: "first_longest (0, 0, 0) (blocks_from skip a b) = (p, q, n)" by (metis prod_cases3)
  have n: "p + n \<le> length a \<and> q + n \<le> length b"
  proof -
    have "(p, q, n) \<in> insert (0, 0, 0) (set (blocks_from skip a b))"
      using first_longest_mem [of "(0, 0, 0)" "blocks_from skip a b"] unfolding best .
    then show ?thesis using common_block_le [of skip "drop p a" "drop q b"] by (auto simp: blocks_from_def)
  qed
  have "common_block (\<lambda>_. False) (rev (take p a)) (rev (take q b)) \<le> p \<and> common_block (\<lambda>_. False) (rev (take p a)) (rev (take q b)) \<le> q"
    using common_block_le [of "\<lambda>_. False" "rev (take p a)" "rev (take q b)"] by auto
  moreover have "common_block (\<lambda>_. False) (drop (p + n) a) (drop (q + n) b) \<le> length a - (p + n) \<and>
    common_block (\<lambda>_. False) (drop (p + n) a) (drop (q + n) b) \<le> length b - (q + n)"
    using common_block_le [of "\<lambda>_. False" "drop (p + n) a" "drop (q + n) b"] by auto
  ultimately show ?thesis using assms n unfolding find_longest_match_def best by (auto simp: Let_def)
qed

function matched :: "('a \<Rightarrow> bool) \<Rightarrow> 'a list \<Rightarrow> 'a list \<Rightarrow> nat" where
  "matched skip a b =
     (let (i, j, k) = find_longest_match skip a b
      in if k = 0 then 0
         else k + (if 0 < i \<and> 0 < j then matched skip (take i a) (take j b) else 0)
                + (if i + k < length a \<and> j + k < length b then matched skip (drop (i + k) a) (drop (j + k) b) else 0))"
  by pat_completeness auto
termination
proof (relation "measure (\<lambda>(_, a, _). length a)", goal_cases)
  case (2 skip a b m i mm j k)
  then show ?case using find_longest_bounds [of skip a b i j k] by auto
next
  case (3 skip a b m i mm j k)
  then show ?case by auto
qed simp

declare matched.simps [simp del]

text \<open>
  \<open>ratio() < 0.4\<close>, where the ratio is twice the matched elements in all of both texts, and 1
  for two empty ones. It is a quotient of numbers below 4096 and 0.4 is the float nearest to
  two fifths, so the comparison of the floats is the comparison of the quotients.
\<close>

definition SIMILARITY_CHARS :: nat where "SIMILARITY_CHARS = 1024"

definition dissimilar :: "codes \<Rightarrow> codes \<Rightarrow> bool" where
  "dissimilar a b \<longleftrightarrow> 5 * matched (popular b) a b < length a + length b"


section \<open>How often Sentry is told\<close>

record sentry_event =
  ev_http :: bool
  ev_dispatch :: "bool option"
  ev_text :: codes

record last_error =
  le_count :: nat
  le_time :: int
  le_msg :: codes

definition ERROR_RATE :: int where "ERROR_RATE = 60"

definition no_error :: last_error where
  "no_error = \<lparr>le_count = 0, le_time = 0, le_msg = []\<rparr>"

text \<open>
  \<open>RateControl\<close>. An event may come with an exception, here whether that is an \<open>HTTPException\<close>,
  and may ask not to be sent; \<open>ev_text\<close> is \<open>str(event)\<close>. The result says whether it is sent.
\<close>

definition RateControl :: "int \<Rightarrow> sentry_event \<Rightarrow> last_error \<Rightarrow> bool \<times> last_error" where
  "RateControl now ev st =
     (if ev_http ev then (False, st)
      else if ev_dispatch ev = Some False then (False, st)
      else (let current_event = take SIMILARITY_CHARS (ev_text ev)
            in if le_time st = 0 \<or> ERROR_RATE \<le> now - le_time st \<or> dissimilar (le_msg st) current_event
               then (True, \<lparr>le_count = 0, le_time = now, le_msg = current_event\<rparr>)
               else (False, st\<lparr>le_count := le_count st + 1\<rparr>)))"

text \<open>The events of a process with their times, in order, and which of them are sent.\<close>

fun reports :: "(int \<times> sentry_event) list \<Rightarrow> last_error \<Rightarrow> bool list" where
  "reports [] st = []"
| "reports ((now, ev) # evs) st = (let (sent, st1) = RateControl now ev st in sent # reports evs st1)"

fun last_report :: "(int \<times> sentry_event) list \<Rightarrow> last_error \<Rightarrow> last_error" where
  "last_report [] st = st"
| "last_report ((now, ev) # evs) st = last_report evs (snd (RateControl now ev st))"

lemma common_block_self: "common_block skip xs ys \<le> common_block skip xs xs \<and> common_block skip xs ys \<le> common_block skip ys ys"
  by (induction skip xs ys rule: common_block.induct) auto

lemma common_block_all: "common_block (\<lambda>_. False) xs xs = length xs"
  by (induction xs) auto

text \<open>The block that is chosen is the first among the longest.\<close>

lemma first_longest_split:
  "(first_longest best ms = best \<and> (\<forall>m\<in>set ms. snd (snd m) \<le> snd (snd best))) \<or>
   (\<exists>xs ys. ms = xs @ first_longest best ms # ys \<and>
      (\<forall>x\<in>set xs. snd (snd x) < snd (snd (first_longest best ms))) \<and> snd (snd best) < snd (snd (first_longest best ms)))"
proof (induction ms arbitrary: best)
  case (Cons m ms)
  show ?case
  proof (cases "snd (snd best) < snd (snd m)")
    case True
    then have r: "first_longest best (m # ms) = first_longest m ms" by simp
    from Cons.IH [of m] consider "first_longest m ms = m"
      | xs ys where "ms = xs @ first_longest m ms # ys" "\<forall>x\<in>set xs. snd (snd x) < snd (snd (first_longest m ms))"
          "snd (snd m) < snd (snd (first_longest m ms))" by blast
    then show ?thesis
    proof cases
      case 1
      then show ?thesis unfolding r using True by (intro disjI2 exI [of _ "[]"] exI [of _ ms]) simp
    next
      case 2
      then show ?thesis unfolding r using True
        by (intro disjI2 exI [of _ "m # xs"] exI [of _ ys]) (simp add: less_trans [of _ "snd (snd m)"])
    qed
  next
    case False
    then have r: "first_longest best (m # ms) = first_longest best ms" by simp
    from Cons.IH [of best] consider "first_longest best ms = best" "\<forall>m\<in>set ms. snd (snd m) \<le> snd (snd best)"
      | xs ys where "ms = xs @ first_longest best ms # ys" "\<forall>x\<in>set xs. snd (snd x) < snd (snd (first_longest best ms))"
          "snd (snd best) < snd (snd (first_longest best ms))" by blast
    then show ?thesis
    proof cases
      case 1
      then show ?thesis unfolding r using False by simp
    next
      case 2
      then show ?thesis unfolding r using False
        by (intro disjI2 exI [of _ "m # xs"] exI [of _ ys]) simp
    qed
  qed
qed simp

definition ahead :: "nat \<times> nat \<times> nat \<Rightarrow> nat \<times> nat \<times> nat \<Rightarrow> bool" where
  "ahead m n \<longleftrightarrow> fst m < fst n \<or> (fst m = fst n \<and> fst (snd m) < fst (snd n))"

lemma row_in_order: "sorted_wrt ahead (map (\<lambda>j. (i, j, f j)) [0..<n])"
  by (induction n) (auto simp: sorted_wrt_append ahead_def)

lemma blocks_in_order: "sorted_wrt ahead (concat (map (\<lambda>i. map (\<lambda>j. (i, j, f i j)) [0..<n]) [0..<m]))"
  by (induction m) (simp_all add: sorted_wrt_append row_in_order, auto simp: ahead_def)

lemma first_longest_ahead:
  assumes "sorted_wrt ahead ms" and "first_longest best ms = r" and "r \<noteq> best" and "e \<in> set ms" and "ahead e r"
  shows "snd (snd e) < snd (snd r)"
proof -
  from first_longest_split [of best ms] assms(2,3) obtain xs ys
    where ms: "ms = xs @ r # ys" and less: "\<forall>x\<in>set xs. snd (snd x) < snd (snd r)" by blast
  have "\<forall>y\<in>set ys. ahead r y" using assms(1) unfolding ms sorted_wrt_append by simp
  with assms(5) have "e \<notin> set (r # ys)" by (auto simp: ahead_def)
  with assms(4) less ms show ?thesis by auto
qed

lemma find_longest_self: "find_longest_match skip a a = (0, 0, length a)"
proof -
  obtain i j k where best: "first_longest (0, 0, 0) (blocks_from skip a a) = (i, j, k)" by (metis prod_cases3)
  have mem: "(p, q, common_block skip (drop p a) (drop q a)) \<in> set (blocks_from skip a a)" if "p < length a" "q < length a" for p q
    using that unfolding blocks_from_def by (auto intro!: bexI [of _ p] image_eqI [of _ _ q])
  have "i = j \<and> i + k \<le> length a"
  proof (cases "(i, j, k) = (0, 0, 0)")
    case False
    with first_longest_mem [of "(0, 0, 0)" "blocks_from skip a a"] best
    have ij: "i < length a" "j < length a" and k: "k = common_block skip (drop i a) (drop j a)"
      by (auto simp: blocks_from_def)
    have le: "snd (snd m) \<le> k" if "m \<in> set (blocks_from skip a a)" for m
      using first_longest_max [of m "(0, 0, 0)" "blocks_from skip a a"] that best by simp
    have small: "snd (snd e) < k" if "e \<in> set (blocks_from skip a a)" "ahead e (i, j, k)" for e
      using first_longest_ahead [OF _ best False that] blocks_in_order unfolding blocks_from_def by simp
    have "\<not> i < j" using small [OF mem [OF ij(1) ij(1)]] common_block_self [of skip "drop i a" "drop j a"] k by (auto simp: ahead_def)
    moreover have "\<not> j < i" using small [OF mem [OF ij(2) ij(2)]] common_block_self [of skip "drop i a" "drop j a"] k by (auto simp: ahead_def)
    ultimately show ?thesis using k common_block_le [of skip "drop i a" "drop j a"] ij by auto
  qed simp
  then show ?thesis unfolding find_longest_match_def best by (simp add: Let_def common_block_all)
qed

lemma matched_self: "matched skip a a = length a"
  by (subst matched.simps) (simp add: find_longest_self)

lemma same_text_similar: "\<not> dissimilar a a"
  by (simp add: dissimilar_def matched_self)

lemma RateControl_cases:
  assumes "RateControl now ev st = (sent, st')"
  shows "if sent then st' = \<lparr>le_count = 0, le_time = now, le_msg = take SIMILARITY_CHARS (ev_text ev)\<rparr> \<and> \<not> ev_http ev \<and> ev_dispatch ev \<noteq> Some False
      \<and> (le_time st = 0 \<or> ERROR_RATE \<le> now - le_time st \<or> dissimilar (le_msg st) (take SIMILARITY_CHARS (ev_text ev)))
    else le_time st' = le_time st \<and> le_msg st' = le_msg st
      \<and> (ev_http ev \<or> ev_dispatch ev = Some False \<or>
         (le_time st \<noteq> 0 \<and> now - le_time st < ERROR_RATE \<and> \<not> dissimilar (le_msg st) (take SIMILARITY_CHARS (ev_text ev))))"
  using assms unfolding RateControl_def by (auto simp: Let_def split: if_splits)

text \<open>After an event that was sent and others that were not, the memory is of the event sent.\<close>

lemma reports_append: "reports (xs @ ys) st = reports xs st @ reports ys (last_report xs st)"
  by (induction xs st rule: reports.induct) (auto simp: Let_def split: prod.splits)

lemma last_report_append: "last_report (xs @ ys) st = last_report ys (last_report xs st)"
  by (induction xs st rule: last_report.induct) auto

lemma length_reports: "length (reports xs st) = length xs"
  by (induction xs st rule: reports.induct) (auto simp: Let_def split: prod.splits)

lemma silent_keeps_memory:
  "True \<notin> set (reports xs st) \<Longrightarrow> le_time (last_report xs st) = le_time st \<and> le_msg (last_report xs st) = le_msg st"
proof (induction xs st rule: reports.induct)
  case (2 now ev evs st)
  obtain sent st1 where r: "RateControl now ev st = (sent, st1)" by (rule prod.exhaust)
  with 2 have "\<not> sent" and "True \<notin> set (reports evs st1)" by auto
  with 2 r RateControl_cases [OF r] show ?case by auto
qed simp

lemma sent_remembered:
  assumes "reports (xs @ [(t, e)]) st = ps @ [True]"
  shows "last_report (xs @ [(t, e)]) st = \<lparr>le_count = 0, le_time = t, le_msg = take SIMILARITY_CHARS (ev_text e)\<rparr>"
proof -
  obtain sent st1 where r: "RateControl t e (last_report xs st) = (sent, st1)" by (rule prod.exhaust)
  with assms have "sent" by (simp add: reports_append)
  with RateControl_cases [OF r] r show ?thesis by (simp add: last_report_append)
qed

text \<open>
  C29. After an event that is sent the next one to be sent is no \<open>HTTPException\<close>, does not ask to
  be kept back, and comes a minute later or with a text that differs in more than three fifths;
  the same text again within the minute is never sent, whatever was discarded in between. (The
  clock at zero stands for no event yet.)
\<close>

theorem sentry_reports_apart:
  assumes "reports (xs @ [(t, e)]) st = ps @ [True]" and "True \<notin> set (reports mid (last_report (xs @ [(t, e)]) st))" and "t \<noteq> 0"
  shows "(reports (xs @ [(t, e)] @ mid @ [(t', e')]) st = ps @ True # replicate (length mid) False @ [True] \<longleftrightarrow>
       \<not> ev_http e' \<and> ev_dispatch e' \<noteq> Some False \<and>
       (ERROR_RATE \<le> t' - t \<or> dissimilar (take SIMILARITY_CHARS (ev_text e)) (take SIMILARITY_CHARS (ev_text e'))))
    \<and> (ev_text e' = ev_text e \<and> t' - t < ERROR_RATE \<longrightarrow>
        reports (xs @ [(t, e)] @ mid @ [(t', e')]) st = ps @ True # replicate (length mid) False @ [False])"
proof -
  let ?s1 = "last_report (xs @ [(t, e)]) st" and ?s2 = "last_report mid (last_report (xs @ [(t, e)]) st)"
  have quiet: "reports mid ?s1 = replicate (length mid) False"
    using assms(2) by (auto simp: list_eq_iff_nth_eq length_reports in_set_conv_nth)
  have s2: "le_time ?s2 = t" "le_msg ?s2 = take SIMILARITY_CHARS (ev_text e)"
    using silent_keeps_memory [OF assms(2)] sent_remembered [OF assms(1)] by simp_all
  have all: "reports (xs @ [(t, e)] @ mid @ [(t', e')]) st = ps @ True # replicate (length mid) False @ [fst (RateControl t' e' ?s2)]"
    using reports_append [of "xs @ [(t, e)]" "mid @ [(t', e')]" st] assms(1) quiet
    by (simp add: reports_append split: prod.splits)
  obtain sent st' where r: "RateControl t' e' ?s2 = (sent, st')" by (rule prod.exhaust)
  from RateControl_cases [OF r] s2 assms(3) show ?thesis
    unfolding all using same_text_similar by (cases sent) (auto simp: r)
qed


section \<open>Scrubbing events\<close>

text \<open>
  Events hold references to objects of the application, so the scrubber is modelled on a store:
  a dictionary, a list or a tuple is a cell, a value is a reference to one or a leaf, and a new
  cell is added at the end. \<open>Substituted\<close> is what
  \<open>AnnotatedValue.substituted_because_contains_sensitive_data()\<close> gives.
\<close>

datatype hkey = KeyStr codes | KeyOther nat

datatype hval = Ref nat | Leaf codes | Substituted

datatype cell = DictCell "(hkey \<times> hval) list" | ListCell "hval list" | TupleCell "hval list"

type_synonym heap = "cell list"

type_synonym copier = "heap \<Rightarrow> hval \<Rightarrow> (heap \<times> hval) option"

definition key_denied :: "codes list \<Rightarrow> hkey \<Rightarrow> bool" where
  "key_denied denylist k = (case k of KeyStr s \<Rightarrow> map lower_code s \<in> set denylist \<or> is_sensitive_key s | KeyOther _ \<Rightarrow> False)"

definition set_entry :: "nat \<Rightarrow> nat \<Rightarrow> hval \<Rightarrow> heap \<Rightarrow> heap" where
  "set_entry p n v h = (case h ! p of DictCell kvs \<Rightarrow> h[p := DictCell (kvs[n := (fst (kvs ! n), v)])] | _ \<Rightarrow> h)"

text \<open>
  The loop over \<open>d.items()\<close> of \<open>scrub_dict\<close>, for the dictionary at \<open>p\<close> and the positions of its
  entries: an entry is read when its turn comes. The comprehension of \<open>_scrubbed_copy\<close> is
  \<open>copy_items\<close>. Both are given the copying function that they call.
\<close>

fun scrub_entries :: "codes list \<Rightarrow> bool \<Rightarrow> copier \<Rightarrow> nat \<Rightarrow> nat list \<Rightarrow> heap \<Rightarrow> heap option" where
  "scrub_entries deny recursive copy p [] h = Some h"
| "scrub_entries deny recursive copy p (n # ns) h =
     (case h ! p of
        DictCell kvs \<Rightarrow>
          (if key_denied deny (fst (kvs ! n)) then scrub_entries deny recursive copy p ns (set_entry p n Substituted h)
           else case snd (kvs ! n) of
             Ref q \<Rightarrow>
               (if recursive then
                  (case copy h (Ref q) of
                     None \<Rightarrow> None
                   | Some (h1, v) \<Rightarrow> scrub_entries deny recursive copy p ns (set_entry p n v h1))
                else scrub_entries deny recursive copy p ns h)
           | _ \<Rightarrow> scrub_entries deny recursive copy p ns h)
      | _ \<Rightarrow> Some h)"

fun copy_items :: "copier \<Rightarrow> hval list \<Rightarrow> heap \<Rightarrow> (heap \<times> hval list) option" where
  "copy_items copy [] h = Some (h, [])"
| "copy_items copy (v # vs) h =
     (case copy h v of
        None \<Rightarrow> None
      | Some (h1, w) \<Rightarrow> map_option (\<lambda>(h2, ws). (h2, w # ws)) (copy_items copy vs h1))"

text \<open>\<open>scrub_dict\<close> does nothing to what is not a dictionary.\<close>

definition scrub_dict_with :: "codes list \<Rightarrow> bool \<Rightarrow> copier \<Rightarrow> nat \<Rightarrow> heap \<Rightarrow> heap option" where
  "scrub_dict_with deny recursive copy p h =
     (case h ! p of DictCell kvs \<Rightarrow> scrub_entries deny recursive copy p [0..<length kvs] h | _ \<Rightarrow> Some h)"

text \<open>
  The two functions call each other and follow references, which may lead in a circle: the fuel
  is the depth of nested calls that the interpreter allows, and \<open>None\<close> its \<open>RecursionError\<close>.
\<close>

primrec scrubbed_copy :: "codes list \<Rightarrow> bool \<Rightarrow> nat \<Rightarrow> copier" where
  "scrubbed_copy deny recursive 0 = (\<lambda>h v. None)"
| "scrubbed_copy deny recursive (Suc f) = (\<lambda>h v.
     case v of
       Ref q \<Rightarrow>
         (case h ! q of
            DictCell kvs \<Rightarrow>
              map_option (\<lambda>h1. (h1, Ref (length h)))
                (scrub_dict_with deny recursive (scrubbed_copy deny recursive f) (length h) (h @ [DictCell kvs]))
          | ListCell vs \<Rightarrow>
              map_option (\<lambda>(h1, ws). (h1 @ [ListCell ws], Ref (length h1))) (copy_items (scrubbed_copy deny recursive f) vs h)
          | TupleCell vs \<Rightarrow>
              map_option (\<lambda>(h1, ws). (h1 @ [ListCell ws], Ref (length h1))) (copy_items (scrubbed_copy deny recursive f) vs h))
     | _ \<Rightarrow> Some (h, v))"

definition scrub_dict :: "codes list \<Rightarrow> bool \<Rightarrow> nat \<Rightarrow> nat \<Rightarrow> heap \<Rightarrow> heap option" where
  "scrub_dict deny recursive f = scrub_dict_with deny recursive (scrubbed_copy deny recursive f)"

definition put_entry :: "nat \<Rightarrow> hkey \<Rightarrow> hval \<Rightarrow> heap \<Rightarrow> heap" where
  "put_entry p k v h =
     (case h ! p of DictCell kvs \<Rightarrow> h[p := DictCell (map (\<lambda>(k', v'). (k', if k' = k then v else v')) kvs)] | _ \<Rightarrow> h)"

text \<open>\<open>scrub_request\<close>; the client's own is a parameter.\<close>

definition dict_entry :: "heap \<Rightarrow> hval \<Rightarrow> string \<Rightarrow> hval option" where
  "dict_entry h v k = (case v of Ref p \<Rightarrow> (case h ! p of DictCell kvs \<Rightarrow> map_of kvs (KeyStr (to_text k)) | _ \<Rightarrow> None) | _ \<Rightarrow> None)"

definition scrub_request :: "(nat \<Rightarrow> heap \<Rightarrow> heap option) \<Rightarrow> codes list \<Rightarrow> bool \<Rightarrow> nat \<Rightarrow> nat \<Rightarrow> heap \<Rightarrow> heap option" where
  "scrub_request super deny recursive f event h =
     (case super event h of
        None \<Rightarrow> None
      | Some h1 \<Rightarrow>
          (case dict_entry h1 (Ref event) ''request'' of
             Some (Ref r) \<Rightarrow>
               (case dict_entry h1 (Ref r) ''data'' of
                  Some (Ref d) \<Rightarrow>
                    (case h1 ! d of
                       ListCell vs \<Rightarrow>
                         map_option (\<lambda>(h2, v). put_entry r (KeyStr (to_text ''data'')) v h2) (scrubbed_copy deny recursive f h1 (Ref d))
                     | _ \<Rightarrow> Some h1)
                | _ \<Rightarrow> Some h1)
           | _ \<Rightarrow> Some h1))"

subsection \<open>What a value stands for\<close>

datatype tree = TDict "(hkey \<times> tree) list" | TSeq "tree list" | TLeaf codes | TMark

fun depth :: "tree \<Rightarrow> nat" where
  "depth (TDict kts) = Suc (foldr max (map (\<lambda>(k, t). depth t) kts) 0)"
| "depth (TSeq ts) = Suc (foldr max (map depth ts) 0)"
| "depth (TLeaf _) = 1"
| "depth TMark = 1"

text \<open>The specification of the scrubber, on the contents.\<close>

fun scrub_tree :: "codes list \<Rightarrow> bool \<Rightarrow> tree \<Rightarrow> tree" where
  "scrub_tree deny recursive (TDict kts) =
     TDict (map (\<lambda>(k, t). (k, if key_denied deny k then TMark else if recursive then scrub_tree deny recursive t else t)) kts)"
| "scrub_tree deny recursive (TSeq ts) = TSeq (map (scrub_tree deny recursive) ts)"
| "scrub_tree deny recursive t = t"

fun clean :: "codes list \<Rightarrow> tree \<Rightarrow> bool" where
  "clean deny (TDict kts) = list_all (\<lambda>(k, t). if key_denied deny k then t = TMark else clean deny t) kts"
| "clean deny (TSeq ts) = list_all (clean deny) ts"
| "clean deny t = True"

lemma scrub_tree_clean: "clean deny (scrub_tree deny True t)"
  by (induction t) (auto simp: list_all_iff)

text \<open>The value \<open>v\<close> has the contents \<open>t\<close>, read through cells of \<open>A\<close> only.\<close>

inductive denotes :: "nat set \<Rightarrow> heap \<Rightarrow> hval \<Rightarrow> tree \<Rightarrow> bool" for A h where
  leaf: "denotes A h (Leaf x) (TLeaf x)"
| mark: "denotes A h Substituted TMark"
| dict: "q \<in> A \<Longrightarrow> q < length h \<Longrightarrow> h ! q = DictCell kvs \<Longrightarrow> length kvs = length kts \<Longrightarrow>
    (\<forall>n<length kts. fst (kvs ! n) = fst (kts ! n) \<and> denotes A h (snd (kvs ! n)) (snd (kts ! n))) \<Longrightarrow>
    denotes A h (Ref q) (TDict kts)"
| seq: "q \<in> A \<Longrightarrow> q < length h \<Longrightarrow> h ! q = ListCell vs \<or> h ! q = TupleCell vs \<Longrightarrow> length vs = length ts \<Longrightarrow>
    (\<forall>n<length ts. denotes A h (vs ! n) (ts ! n)) \<Longrightarrow> denotes A h (Ref q) (TSeq ts)"

inductive_cases denotes_Ref: "denotes A h (Ref q) t"
inductive_cases denotes_TDict: "denotes A h v (TDict kts)"
inductive_cases denotes_TSeq: "denotes A h v (TSeq ts)"
inductive_simps denotes_atom: "denotes A h (Leaf x) t" "denotes A h Substituted t"

lemma denotes_mono:
  assumes "denotes A h v t" and "A \<subseteq> B" and "\<forall>q\<in>A. q < length h \<longrightarrow> q < length h' \<and> h' ! q = h ! q"
  shows "denotes B h' v t"
  using assms
proof (induction rule: denotes.induct)
  case (dict q kvs kts)
  then have "h' ! q = DictCell kvs" "q < length h'" "q \<in> B" by auto
  with dict show ?case by (intro denotes.dict) auto
next
  case (seq q vs ts)
  then have "h' ! q = ListCell vs \<or> h' ! q = TupleCell vs" "q < length h'" "q \<in> B" by auto
  with seq show ?case by (intro denotes.seq) auto
qed (auto intro: denotes.intros)

lemma depth_child: "x \<in> set ts \<Longrightarrow> depth x \<le> foldr max (map depth ts) 0"
  by (induction ts) (auto simp: le_max_iff_disj)

lemma depth_entry: "(k, x) \<in> set kts \<Longrightarrow> depth x \<le> foldr max (map (\<lambda>(k, t). depth t) kts) 0"
  by (induction kts) (auto simp: le_max_iff_disj)


subsection \<open>The scrubber against its specification\<close>

definition extends :: "heap \<Rightarrow> heap \<Rightarrow> bool" where
  "extends h h' \<longleftrightarrow> length h \<le> length h' \<and> (\<forall>q<length h. h' ! q = h ! q)"

definition copies :: "copier \<Rightarrow> tree set \<Rightarrow> (tree \<Rightarrow> tree) \<Rightarrow> bool" where
  "copies copy T g \<longleftrightarrow> (\<forall>A h v t. t \<in> T \<and> A \<subseteq> {..<length h} \<and> denotes A h v t \<longrightarrow>
     (\<exists>h' v'. copy h v = Some (h', v') \<and> extends h h' \<and> denotes (A \<union> {length h..<length h'}) h' v' (g t)))"

lemma copiesD:
  assumes "copies copy T g" and "t \<in> T" and "A \<subseteq> {..<length h}" and "denotes A h v t"
  obtains h' v' where "copy h v = Some (h', v')" "extends h h'" "denotes (A \<union> {length h..<length h'}) h' v' (g t)"
  using assms unfolding copies_def by blast

lemma extends_refl [simp]: "extends h h"
  by (simp add: extends_def)

lemma extends_trans: "extends h h' \<Longrightarrow> extends h' h'' \<Longrightarrow> extends h h''"
  by (auto simp: extends_def)

lemma extends_append [simp]: "extends h (h @ e)"
  by (simp add: extends_def nth_append)

lemma denotes_extends: "denotes A h v t \<Longrightarrow> extends h h' \<Longrightarrow> A \<subseteq> B \<Longrightarrow> denotes B h' v t"
  by (erule denotes_mono) (auto simp: extends_def)

lemma extends_length: "extends h h' \<Longrightarrow> length h \<le> length h'"
  by (simp add: extends_def)

lemma copy_items_ok:
  assumes "copies copy (set ts) g" and "A \<subseteq> {..<length h}" and "list_all2 (denotes A h) vs ts"
  shows "\<exists>h' ws. copy_items copy vs h = Some (h', ws) \<and> extends h h' \<and>
    list_all2 (denotes (A \<union> {length h..<length h'}) h') ws (map g ts)"
  using assms(3,1,2)
proof (induction vs arbitrary: ts h)
  case (Cons v vs)
  then obtain t ts' where ts: "ts = t # ts'" and hd: "denotes A h v t" and tl: "list_all2 (denotes A h) vs ts'"
    by (auto simp: list_all2_Cons1)
  obtain h1 w where w: "copy h v = Some (h1, w)" "extends h h1" "denotes (A \<union> {length h..<length h1}) h1 w (g t)"
    using copiesD [OF Cons.prems(2) _ Cons.prems(3) hd] ts by auto
  have "list_all2 (denotes A h1) vs ts'" using tl by (rule list_all2_mono) (rule denotes_extends [OF _ w(2) subset_refl])
  moreover have "copies copy (set ts') g" using Cons.prems(2) ts unfolding copies_def by auto
  moreover have "A \<subseteq> {..<length h1}" using Cons.prems(3) extends_length [OF w(2)] by auto
  ultimately obtain h2 ws where ws: "copy_items copy vs h1 = Some (h2, ws)" "extends h1 h2"
    "list_all2 (denotes (A \<union> {length h1..<length h2}) h2) ws (map g ts')" using Cons.IH by blast
  let ?B = "A \<union> {length h..<length h2}"
  have sub: "A \<union> {length h..<length h1} \<subseteq> ?B" "A \<union> {length h1..<length h2} \<subseteq> ?B"
    using extends_length [OF w(2)] extends_length [OF ws(2)] by auto
  have "denotes ?B h2 w (g t)" using denotes_extends [OF w(3) ws(2) sub(1)] .
  moreover have "list_all2 (denotes ?B h2) ws (map g ts')"
    using ws(3) by (rule list_all2_mono) (rule denotes_extends [OF _ extends_refl sub(2)])
  ultimately show ?case using w(1) ws(1) extends_trans [OF w(2) ws(2)] ts by simp
qed simp

definition entry_spec :: "codes list \<Rightarrow> bool \<Rightarrow> hkey \<times> tree \<Rightarrow> tree" where
  "entry_spec deny recursive kt = (if key_denied deny (fst kt) then TMark else if recursive then scrub_tree deny recursive (snd kt) else snd kt)"

lemma scrub_tree_TDict: "scrub_tree deny recursive (TDict kts) = TDict (map (\<lambda>kt. (fst kt, entry_spec deny recursive kt)) kts)"
  by (auto simp: entry_spec_def)

text \<open>
  The loop of \<open>scrub_dict\<close> at entry \<open>n\<close>: nothing but the dictionary at \<open>p\<close> has changed, the
  entries before \<open>n\<close> have their scrubbed contents and the others those they had.
\<close>

definition scrubbing :: "codes list \<Rightarrow> bool \<Rightarrow> nat set \<Rightarrow> heap \<Rightarrow> nat \<Rightarrow> (hkey \<times> tree) list \<Rightarrow> nat \<Rightarrow> heap \<Rightarrow> bool" where
  "scrubbing deny recursive A h p kts n g \<longleftrightarrow>
     length h \<le> length g \<and> (\<forall>q<length h. q \<noteq> p \<longrightarrow> g ! q = h ! q) \<and>
     (\<exists>kvs. g ! p = DictCell kvs \<and> length kvs = length kts \<and> (\<forall>m<length kts. fst (kvs ! m) = fst (kts ! m)) \<and>
        (\<forall>m<length kts. if m < n then denotes (A \<union> {length h..<length g}) g (snd (kvs ! m)) (entry_spec deny recursive (kts ! m))
                        else denotes A h (snd (kvs ! m)) (snd (kts ! m))))"

lemma scrubbing_old: "scrubbing deny recursive A h p kts n g \<Longrightarrow> A \<subseteq> {..<length h} \<Longrightarrow> p \<notin> A \<Longrightarrow> denotes A h v t \<Longrightarrow> denotes A g v t"
  by (erule denotes_mono) (auto simp: scrubbing_def)

lemma scrubbing_set:
  assumes inv: "scrubbing deny recursive A h p kts n g" and A: "A \<subseteq> {..<length h}" "p \<notin> A" and p: "p < length h" and n: "n < length kts"
    and ext: "extends g g1" and v: "denotes (A \<union> {length h..<length g1}) g1 v (entry_spec deny recursive (kts ! n))"
  shows "scrubbing deny recursive A h p kts (Suc n) (set_entry p n v g1)"
proof -
  from inv obtain kvs where kvs: "g ! p = DictCell kvs" "length kvs = length kts" "\<forall>m<length kts. fst (kvs ! m) = fst (kts ! m)"
    "\<forall>m<length kts. if m < n then denotes (A \<union> {length h..<length g}) g (snd (kvs ! m)) (entry_spec deny recursive (kts ! m))
                        else denotes A h (snd (kvs ! m)) (snd (kts ! m))"
    and len: "length h \<le> length g" and same: "\<forall>q<length h. q \<noteq> p \<longrightarrow> g ! q = h ! q" unfolding scrubbing_def by blast
  have g1p: "g1 ! p = DictCell kvs" using ext p len kvs(1) by (auto simp: extends_def)
  let ?g2 = "g1[p := DictCell (kvs[n := (fst (kvs ! n), v)])]"
  have other: "?g2 ! q = g1 ! q" if "q \<in> A \<union> {length h..<length g1}" for q using that A(2) p by (cases "q = p") auto
  have keep: "denotes (A \<union> {length h..<length g1}) ?g2 w t" if "denotes (A \<union> {length h..<length g1}) g1 w t" for w t
    by (rule denotes_mono [OF that subset_refl]) (use other in auto)
  have done_before: "denotes (A \<union> {length h..<length g1}) ?g2 (snd (kvs ! m)) (entry_spec deny recursive (kts ! m))" if "m < n" "m < length kts" for m
    using kvs(4) that extends_length [OF ext] by (intro keep denotes_extends [OF _ ext]) auto
  have "\<forall>m<length kts. if m < Suc n
      then denotes (A \<union> {length h..<length g1}) ?g2 (snd (kvs[n := (fst (kvs ! n), v)] ! m)) (entry_spec deny recursive (kts ! m))
      else denotes A h (snd (kvs[n := (fst (kvs ! n), v)] ! m)) (snd (kts ! m))"
    using keep [OF v] done_before kvs(4) n kvs(2) by (auto simp: nth_list_update less_Suc_eq)
  moreover have "\<forall>m<length kts. fst (kvs[n := (fst (kvs ! n), v)] ! m) = fst (kts ! m)"
    using kvs(2,3) n by (auto simp: nth_list_update)
  ultimately show ?thesis
    unfolding scrubbing_def set_entry_def g1p using len extends_length [OF ext] same ext p kvs(2)
    by (auto simp: extends_def nth_list_update)
qed

lemma scrubbing_keep:
  assumes inv: "scrubbing deny recursive A h p kts n g" and A: "A \<subseteq> {..<length h}" "p \<notin> A" and n: "n < length kts"
    and spec: "entry_spec deny recursive (kts ! n) = snd (kts ! n)"
  shows "scrubbing deny recursive A h p kts (Suc n) g"
proof -
  have "denotes (A \<union> {length h..<length g}) g v t" if "denotes A h v t" for v t
    using scrubbing_old [OF inv A that] by (rule denotes_extends) auto
  with inv n spec show ?thesis unfolding scrubbing_def by (auto simp: less_Suc_eq)
qed

lemma scrub_entries_ok:
  assumes A: "A \<subseteq> {..<length h}" "p \<notin> A" and p: "p < length h"
    and copy: "copies copy {t. recursive \<and> t \<in> snd ` set kts} (scrub_tree deny recursive)"
  shows "scrubbing deny recursive A h p kts n g \<Longrightarrow> n \<le> length kts \<Longrightarrow>
    \<exists>g'. scrub_entries deny recursive copy p [n..<length kts] g = Some g' \<and> scrubbing deny recursive A h p kts (length kts) g'"
proof (induction "length kts - n" arbitrary: n g)
  case (Suc d)
  then have n: "n < length kts" by simp
  then have upt: "[n..<length kts] = n # [Suc n..<length kts]" by (rule upt_conv_Cons)
  from Suc.prems(1) n obtain kvs where kvs: "g ! p = DictCell kvs" "fst (kvs ! n) = fst (kts ! n)"
    and v: "denotes A h (snd (kvs ! n)) (snd (kts ! n))" and len: "length h \<le> length g" unfolding scrubbing_def by auto
  have IH: "\<exists>g''. scrub_entries deny recursive copy p [Suc n..<length kts] g' = Some g'' \<and> scrubbing deny recursive A h p kts (length kts) g''"
    if "scrubbing deny recursive A h p kts (Suc n) g'" for g' using Suc.hyps(1) [OF _ that] Suc.hyps(2) n by simp
  consider (denied) "key_denied deny (fst (kts ! n))"
    | (copied) q where "\<not> key_denied deny (fst (kts ! n))" "snd (kvs ! n) = Ref q" "recursive"
    | (kept) "\<not> key_denied deny (fst (kts ! n))" "\<not> recursive \<or> snd (kvs ! n) = Substituted \<or> (\<exists>x. snd (kvs ! n) = Leaf x)"
    by (cases "snd (kvs ! n)") auto
  then show ?case
  proof cases
    case denied
    then have "scrubbing deny recursive A h p kts (Suc n) (set_entry p n Substituted g)"
      by (intro scrubbing_set [OF Suc.prems(1) A p n extends_refl]) (simp add: entry_spec_def denotes.mark)
    from IH [OF this] show ?thesis using denied kvs by (simp add: upt)
  next
    case copied
    have "A \<subseteq> {..<length g}" using A(1) len by auto
    moreover have "snd (kts ! n) \<in> {t. recursive \<and> t \<in> snd ` set kts}" using n copied(3) by simp
    ultimately obtain g1 w where w: "copy g (Ref q) = Some (g1, w)" "extends g g1"
      "denotes (A \<union> {length g..<length g1}) g1 w (scrub_tree deny recursive (snd (kts ! n)))"
      using copiesD [OF copy] scrubbing_old [OF Suc.prems(1) A v] copied(2) by metis
    have "A \<union> {length g..<length g1} \<subseteq> A \<union> {length h..<length g1}" using len by auto
    from denotes_extends [OF w(3) extends_refl this]
    have "denotes (A \<union> {length h..<length g1}) g1 w (entry_spec deny recursive (kts ! n))"
      using copied(1,3) by (simp add: entry_spec_def)
    from IH [OF scrubbing_set [OF Suc.prems(1) A p n w(2) this]] show ?thesis using copied w(1) kvs by (simp add: upt)
  next
    case kept
    then have "entry_spec deny recursive (kts ! n) = snd (kts ! n)"
      using v by (auto simp: entry_spec_def denotes_atom)
    from IH [OF scrubbing_keep [OF Suc.prems(1) A n this]] show ?thesis
      using kept kvs by (cases "snd (kvs ! n)") (auto simp: upt)
  qed
qed simp



text \<open>
  A dictionary whose entries do not lead back to it: every entry gets its scrubbed contents and
  no other object that existed is touched.
\<close>

lemma scrub_dict_ok:
  assumes A: "A \<subseteq> {..<length h}" "p \<notin> A" and p: "p < length h"
    and cell: "h ! p = DictCell kvs" "length kvs = length kts"
      "\<forall>n<length kts. fst (kvs ! n) = fst (kts ! n) \<and> denotes A h (snd (kvs ! n)) (snd (kts ! n))"
    and copy: "copies copy {t. recursive \<and> t \<in> snd ` set kts} (scrub_tree deny recursive)"
  shows "\<exists>h'. scrub_dict_with deny recursive copy p h = Some h' \<and> length h \<le> length h' \<and> (\<forall>q<length h. q \<noteq> p \<longrightarrow> h' ! q = h ! q) \<and>
    denotes (insert p A \<union> {length h..<length h'}) h' (Ref p) (scrub_tree deny recursive (TDict kts))"
proof -
  have "scrubbing deny recursive A h p kts 0 h" using cell unfolding scrubbing_def by auto
  from scrub_entries_ok [OF A p copy this] obtain h'
    where h': "scrub_entries deny recursive copy p [0..<length kts] h = Some h'" "scrubbing deny recursive A h p kts (length kts) h'" by auto
  let ?B = "insert p A \<union> {length h..<length h'}"
  from h'(2) obtain kvs' where kvs': "h' ! p = DictCell kvs'" "length kvs' = length kts" "\<forall>m<length kts. fst (kvs' ! m) = fst (kts ! m)"
    "\<forall>m<length kts. denotes (A \<union> {length h..<length h'}) h' (snd (kvs' ! m)) (entry_spec deny recursive (kts ! m))"
    and len: "length h \<le> length h'" and same: "\<forall>q<length h. q \<noteq> p \<longrightarrow> h' ! q = h ! q" unfolding scrubbing_def by auto
  have "denotes ?B h' (snd (kvs' ! m)) (entry_spec deny recursive (kts ! m))" if "m < length kts" for m
    using kvs'(4) that by (auto intro: denotes_extends [OF _ extends_refl])
  then have "denotes ?B h' (Ref p) (scrub_tree deny recursive (TDict kts))"
    unfolding scrub_tree_TDict using kvs'(1-3) p len by (intro denotes.dict [of p _ _ kvs']) auto
  with h'(1) len same cell show ?thesis by (auto simp: scrub_dict_with_def)
qed

lemma copy_dict_ok:
  assumes A: "A \<subseteq> {..<length h}" and v: "denotes A h (Ref q) (TDict kts)"
    and sc: "copies (scrubbed_copy deny recursive f) (snd ` set kts) (scrub_tree deny recursive)"
  shows "\<exists>h' v'. scrubbed_copy deny recursive (Suc f) h (Ref q) = Some (h', v') \<and> extends h h' \<and>
    denotes (A \<union> {length h..<length h'}) h' v' (scrub_tree deny recursive (TDict kts))"
proof -
  from v obtain kvs where cell: "h ! q = DictCell kvs" "length kvs = length kts"
    "\<forall>n<length kts. fst (kvs ! n) = fst (kts ! n) \<and> denotes A h (snd (kvs ! n)) (snd (kts ! n))" by (auto elim: denotes_TDict)
  let ?h = "h @ [DictCell kvs]"
  have sc': "copies (scrubbed_copy deny recursive f) {t. recursive \<and> t \<in> snd ` set kts} (scrub_tree deny recursive)"
    using sc unfolding copies_def by blast
  have "denotes A ?h w u" if "denotes A h w u" for w u using that by (rule denotes_extends) auto
  then have entries: "\<forall>n<length kts. fst (kvs ! n) = fst (kts ! n) \<and> denotes A ?h (snd (kvs ! n)) (snd (kts ! n))"
    using cell(3) by blast
  have A': "A \<subseteq> {..<length ?h}" "length h \<notin> A" "length h < length ?h" "?h ! length h = DictCell kvs" using A by auto
  from scrub_dict_ok [OF A' cell(2) entries sc'] obtain h'
    where h': "scrub_dict_with deny recursive (scrubbed_copy deny recursive f) (length h) ?h = Some h'"
    "length ?h \<le> length h'" "\<forall>q<length ?h. q \<noteq> length h \<longrightarrow> h' ! q = ?h ! q"
    "denotes (insert (length h) A \<union> {length ?h..<length h'}) h' (Ref (length h)) (scrub_tree deny recursive (TDict kts))"
    by blast
  have "insert (length h) A \<union> {length ?h..<length h'} \<subseteq> A \<union> {length h..<length h'}" using h'(2) by auto
  from denotes_extends [OF h'(4) extends_refl this] show ?thesis
    using h'(1-3) cell(1) by (auto simp: extends_def nth_append)
qed

lemma copy_seq_ok:
  assumes A: "A \<subseteq> {..<length h}" and v: "denotes A h (Ref q) (TSeq ts)"
    and sc: "copies (scrubbed_copy deny recursive f) (set ts) (scrub_tree deny recursive)"
  shows "\<exists>h' v'. scrubbed_copy deny recursive (Suc f) h (Ref q) = Some (h', v') \<and> extends h h' \<and>
    denotes (A \<union> {length h..<length h'}) h' v' (scrub_tree deny recursive (TSeq ts))"
proof -
  from v obtain vs where cell: "h ! q = ListCell vs \<or> h ! q = TupleCell vs" "list_all2 (denotes A h) vs ts"
    by (auto elim!: denotes_TSeq simp: list_all2_conv_all_nth)
  from copy_items_ok [OF sc A cell(2)] obtain h' ws
    where ws: "copy_items (scrubbed_copy deny recursive f) vs h = Some (h', ws)" "extends h h'"
      "list_all2 (denotes (A \<union> {length h..<length h'}) h') ws (map (scrub_tree deny recursive) ts)" by blast
  let ?h = "h' @ [ListCell ws]" and ?B = "A \<union> {length h..<Suc (length h')}"
  have "denotes ?B ?h (ws ! n) (scrub_tree deny recursive (ts ! n))" if "n < length ts" for n
    using ws(3) that by (intro denotes_extends [OF _ extends_append]) (auto simp: list_all2_conv_all_nth)
  then have "denotes ?B ?h (Ref (length h')) (TSeq (map (scrub_tree deny recursive) ts))"
    using ws(3) extends_length [OF ws(2)] by (intro denotes.seq) (auto simp: list_all2_conv_all_nth)
  with ws(1) cell(1) extends_trans [OF ws(2) extends_append] show ?thesis by auto
qed

lemma scrubbed_copy_ok: "copies (scrubbed_copy deny recursive f) {t. depth t \<le> f} (scrub_tree deny recursive)"
proof (induction f)
  case 0
  have "0 < depth t" for t by (cases t) auto
  then show ?case by (simp add: copies_def)
next
  case (Suc f)
  have sub: "copies (scrubbed_copy deny recursive f) T (scrub_tree deny recursive)" if "\<And>t. t \<in> T \<Longrightarrow> depth t \<le> f" for T
    using Suc that unfolding copies_def by blast
  show ?case unfolding copies_def
  proof (intro allI impI, elim conjE)
    fix A h v t
    assume d: "t \<in> {t. depth t \<le> Suc f}" and A: "A \<subseteq> {..<length h}" and v: "denotes A h v t"
    from v show "\<exists>h' v'. scrubbed_copy deny recursive (Suc f) h v = Some (h', v') \<and> extends h h' \<and>
      denotes (A \<union> {length h..<length h'}) h' v' (scrub_tree deny recursive t)"
    proof (cases rule: denotes.cases)
      case (dict q kvs kts)
      have "copies (scrubbed_copy deny recursive f) (snd ` set kts) (scrub_tree deny recursive)"
        using d dict(2) depth_entry by (intro sub) force
      from copy_dict_ok [OF A v [unfolded dict(1,2)] this] show ?thesis unfolding dict(1,2) .
    next
      case (seq q vs ts)
      have "copies (scrubbed_copy deny recursive f) (set ts) (scrub_tree deny recursive)"
        using d seq(2) depth_child by (intro sub) force
      from copy_seq_ok [OF A v [unfolded seq(1,2)] this] show ?thesis unfolding seq(1,2) .
    qed (auto simp: denotes_atom)
  qed
qed

text \<open>
  C16. The scrubber of an event: for a dictionary from whose entries no reference leads back to
  it, and fuel for the depth of its contents, \<open>scrub_dict\<close> returns; the dictionary then has its
  contents with every value under a denied or sensitive name, at any depth, replaced, and no
  other object that existed before has changed.
\<close>

theorem scrub_leaves_application_alone:
  assumes "A \<subseteq> {..<length h}" and "p \<notin> A" and "p < length h" and "h ! p = DictCell kvs" and "length kvs = length kts"
    and "\<forall>n<length kts. fst (kvs ! n) = fst (kts ! n) \<and> denotes A h (snd (kvs ! n)) (snd (kts ! n))"
    and "depth (TDict kts) \<le> Suc f"
  shows "\<exists>h'. scrub_dict deny True f p h = Some h' \<and> (\<forall>q<length h. q \<noteq> p \<longrightarrow> h' ! q = h ! q) \<and>
    denotes UNIV h' (Ref p) (scrub_tree deny True (TDict kts)) \<and> clean deny (scrub_tree deny True (TDict kts))"
proof -
  have "depth t \<le> f" if "t \<in> snd ` set kts" for t using that assms(7) depth_entry by fastforce
  then have "copies (scrubbed_copy deny True f) {t. True \<and> t \<in> snd ` set kts} (scrub_tree deny True)"
    using scrubbed_copy_ok [of deny True f] unfolding copies_def by blast
  from scrub_dict_ok [OF assms(1-6) this] obtain h' where "scrub_dict deny True f p h = Some h'"
    "\<forall>q<length h. q \<noteq> p \<longrightarrow> h' ! q = h ! q" "denotes (insert p A \<union> {length h..<length h'}) h' (Ref p) (scrub_tree deny True (TDict kts))"
    unfolding scrub_dict_def by blast
  with denotes_extends [OF _ extends_refl subset_UNIV] scrub_tree_clean show ?thesis by blast
qed


section \<open>The console\<close>

record log_record =
  lr_name :: codes
  lr_levelno :: nat
  lr_levelname :: codes
  lr_text :: codes
  lr_end :: "codes option"
  lr_prefix :: "codes option"
  lr_clean :: bool
  lr_skip_date :: bool

record console =
  name_filter :: "codes option"
  should_buffer :: bool
  the_buffer :: "log_record list"
  written :: codes

definition ConsoleHandler :: "codes option \<Rightarrow> console" where
  "ConsoleHandler nf = \<lparr>name_filter = nf, should_buffer = False, the_buffer = [], written = []\<rparr>"

definition ansi :: "string \<Rightarrow> codes" where
  "ansi s = 27 # to_text s"

definition level_colors :: "nat \<Rightarrow> codes \<times> codes" where
  "level_colors n =
     (if n = 20 then (ansi ''[0;33m'', ansi ''[0m'')
      else if n = 10 then (ansi ''[0;36m'', ansi ''[0m'')
      else if n = 30 then (ansi ''[0;35m'', ansi ''[0m'')
      else if n = 40 then (ansi ''[0;31m'', ansi ''[0m'')
      else ([], []))"

text \<open>
  The text that \<open>emit\<close> writes; \<open>now\<close> is \<open>time.strftime('%d.%m.%Y %H:%M:%S')\<close> when it does, and
  \<open>lr_text\<close> what \<open>self.format(record)\<close> gives.
\<close>

definition in_brackets :: "codes \<Rightarrow> codes" where
  "in_brackets s = to_text ''['' @ s @ to_text ''] ''"

definition line_date :: "codes \<Rightarrow> log_record \<Rightarrow> codes" where
  "line_date now r =
     (if lr_clean r then []
      else (if lr_skip_date r then [] else in_brackets now) @ in_brackets (lr_levelname r) @ in_brackets (lr_name r))"

definition line_of :: "codes \<Rightarrow> log_record \<Rightarrow> codes" where
  "line_of now r =
     (let (before, behind) = level_colors (lr_levelno r)
      in (case lr_prefix r of None \<Rightarrow> [] | Some p \<Rightarrow> p) @ before @ line_date now r @ lr_text r @ behind
         @ (case lr_end r of None \<Rightarrow> [10] | Some e \<Rightarrow> e))"

definition passes :: "codes option \<Rightarrow> log_record \<Rightarrow> bool" where
  "passes nf r = (case nf of None \<Rightarrow> True | Some s \<Rightarrow> take (length s) (lr_name r) = s)"

definition emit :: "codes \<Rightarrow> log_record \<Rightarrow> console \<Rightarrow> console" where
  "emit now r c =
     (if \<not> passes (name_filter c) r then c
      else if should_buffer c then c\<lparr>the_buffer := the_buffer c @ [r]\<rparr>
      else c\<lparr>written := written c @ line_of now r\<rparr>)"

definition emit_buffer :: "codes \<Rightarrow> console \<Rightarrow> console" where
  "emit_buffer now c = (fold (emit now) (the_buffer c) (c\<lparr>should_buffer := False\<rparr>))\<lparr>the_buffer := []\<rparr>"

text \<open>
  Records come with the time at which they are emitted. Buffering may be switched on, by
  setting \<open>should_buffer\<close>, before any of them.
\<close>

definition emit_all :: "(codes \<times> log_record) list \<Rightarrow> console \<Rightarrow> console" where
  "emit_all rs c = fold (\<lambda>(now, r). emit now r) rs c"

lemma emit_all_buffering:
  "should_buffer c \<Longrightarrow> emit_all rs c = c\<lparr>the_buffer := the_buffer c @ filter (passes (name_filter c)) (map snd rs)\<rparr>"
  unfolding emit_all_def by (induction rs arbitrary: c) (auto simp: emit_def)

lemma emit_fold_writing:
  "\<not> should_buffer c \<Longrightarrow> fold (emit now) rs c = c\<lparr>written := written c @ concat (map (line_of now) (filter (passes (name_filter c)) rs))\<rparr>"
  by (induction rs arbitrary: c) (auto simp: emit_def)

text \<open>
  Records that arrive while the console handler buffers are written by the next
  \<open>emit_buffer\<close>, once each and in the order they came, those of other modules left out, after
  what the buffer held; the handler writes through from then on. Each line bears the time of
  the flush.
\<close>

theorem buffered_log_complete:
  assumes "should_buffer c" and "list_all (passes (name_filter c)) (the_buffer c)"
  shows "emit_buffer now (emit_all rs c) =
    c\<lparr>should_buffer := False, the_buffer := [],
      written := written c @ concat (map (line_of now) (the_buffer c @ filter (passes (name_filter c)) (map snd rs)))\<rparr>"
proof -
  have "filter (passes (name_filter c)) (the_buffer c) = the_buffer c" using assms(2) by (simp add: filter_id_conv list_all_iff)
  then show ?thesis by (simp add: emit_buffer_def emit_all_buffering [OF assms(1)] emit_fold_writing)
qed

section \<open>Witnesses\<close>

definition demo_event :: sentry_event where
  "demo_event = \<lparr>ev_http = False, ev_dispatch = None, ev_text = to_text ''boom''\<rparr>"

theorem sentry_reports_apart_witness:
  "reports [(100, demo_event), (130, demo_event)] no_error = [True, False]"
proof -
  have "reports ([] @ [(100, demo_event)]) no_error = [] @ [True]"
    by (simp add: RateControl_def no_error_def demo_event_def)
  from sentry_reports_apart [OF this, of "[]" 130 demo_event] show ?thesis by (simp add: ERROR_RATE_def)
qed

definition demo_heap :: heap where
  "demo_heap = [DictCell [(KeyStr (to_text ''Password''), Leaf [1]), (KeyStr (to_text ''user''), Ref 1)],
                DictCell [(KeyStr (to_text ''X-Auth-Token''), Leaf [2]), (KeyStr (to_text ''user''), Leaf [3])]]"

definition demo_tree :: "(hkey \<times> tree) list" where
  "demo_tree = [(KeyStr (to_text ''Password''), TLeaf [1]),
     (KeyStr (to_text ''user''), TDict [(KeyStr (to_text ''X-Auth-Token''), TLeaf [2]), (KeyStr (to_text ''user''), TLeaf [3])])]"

lemma demo_inner:
  "denotes {1} demo_heap (Ref 1) (TDict [(KeyStr (to_text ''X-Auth-Token''), TLeaf [2]), (KeyStr (to_text ''user''), TLeaf [3])])"
  by (rule denotes.dict) (auto simp: demo_heap_def nth_Cons' intro: denotes.intros)

theorem scrub_leaves_application_alone_witness:
  "\<exists>h'. scrub_dict [] True 2 0 demo_heap = Some h' \<and> h' ! 1 = demo_heap ! 1 \<and>
    denotes UNIV h' (Ref 0) (TDict [(KeyStr (to_text ''Password''), TMark),
      (KeyStr (to_text ''user''), TDict [(KeyStr (to_text ''X-Auth-Token''), TMark), (KeyStr (to_text ''user''), TLeaf [3])])])"
proof -
  have scrubbed: "scrub_tree [] True (TDict demo_tree) = TDict [(KeyStr (to_text ''Password''), TMark),
      (KeyStr (to_text ''user''), TDict [(KeyStr (to_text ''X-Auth-Token''), TMark), (KeyStr (to_text ''user''), TLeaf [3])])]"
    by (simp add: demo_tree_def key_denied_def demo_sensitive)
  have entries: "\<forall>n<length demo_tree. fst ([(KeyStr (to_text ''Password''), Leaf [1]), (KeyStr (to_text ''user''), Ref 1)] ! n) = fst (demo_tree ! n)
      \<and> denotes {1} demo_heap (snd ([(KeyStr (to_text ''Password''), Leaf [1]), (KeyStr (to_text ''user''), Ref 1)] ! n)) (snd (demo_tree ! n))"
    using demo_inner by (auto simp: demo_tree_def nth_Cons' intro: denotes.intros)
  have "\<exists>h'. scrub_dict [] True 2 0 demo_heap = Some h' \<and> (\<forall>q<length demo_heap. q \<noteq> 0 \<longrightarrow> h' ! q = demo_heap ! q) \<and>
      denotes UNIV h' (Ref 0) (scrub_tree [] True (TDict demo_tree)) \<and> clean [] (scrub_tree [] True (TDict demo_tree))"
    by (rule scrub_leaves_application_alone [OF _ _ _ _ _ entries]) (simp_all add: demo_heap_def demo_tree_def)
  then show ?thesis unfolding scrubbed by (auto simp: demo_heap_def)
qed

theorem buffered_log_complete_witness:
  "emit_buffer [] (emit_all [([], \<lparr>lr_name = [97], lr_levelno = 0, lr_levelname = [], lr_text = [98], lr_end = None, lr_prefix = None, lr_clean = True, lr_skip_date = False\<rparr>)]
     ((ConsoleHandler None)\<lparr>should_buffer := True\<rparr>)) = (ConsoleHandler None)\<lparr>written := [98, 10]\<rparr>"
proof -
  have "should_buffer ((ConsoleHandler None)\<lparr>should_buffer := True\<rparr>)"
    and "list_all (passes (name_filter ((ConsoleHandler None)\<lparr>should_buffer := True\<rparr>))) (the_buffer ((ConsoleHandler None)\<lparr>should_buffer := True\<rparr>))"
    by (simp_all add: ConsoleHandler_def)
  from buffered_log_complete [OF this] show ?thesis
    by (simp add: ConsoleHandler_def line_of_def level_colors_def line_date_def passes_def)
qed

end
