(* ===== verification/Util_Text.thy ===== *)
theory Util_Text
  imports Log_Redact
begin

text \<open>
  The small helpers of \<open>utils.py\<close>: replacing and trimming of texts, host names, decimal rounding,
  and the wrapper that turns an exception into a default. Upper and lower case are those of the
  code points below 256, as for the log.
\<close>

section \<open>Texts\<close>

definition strip_codes :: "(nat \<Rightarrow> bool) \<Rightarrow> codes \<Rightarrow> codes" where
  "strip_codes p s = rev (dropWhile p (rev (dropWhile p s)))"

definition blank_or_quote :: "nat \<Rightarrow> bool" where
  "blank_or_quote c \<longleftrightarrow> c \<in> {32, 34, 13, 10}"

text \<open>
  \<open>re.compile(re.escape(old), re.IGNORECASE).sub(lambda m: new, text)\<close>: a match starts where the
  text continues with \<open>old\<close>, the search goes on behind it, and an empty \<open>old\<close> matches at every position.
\<close>

function replace_ci :: "codes \<Rightarrow> codes \<Rightarrow> codes \<Rightarrow> codes" where
  "replace_ci old new [] = (if old = [] then new else [])"
| "replace_ci old new (c # s) =
     (if old = [] then new @ c # replace_ci old new s
      else if map lower_code (take (length old) (c # s)) = map lower_code old
      then new @ replace_ci old new (drop (length old) (c # s))
      else c # replace_ci old new s)"
  by pat_completeness auto
termination by (relation "measure (\<lambda>(_, _, s). length s)") (auto simp: drop_Cons' split: if_splits)

definition replace_strings :: "codes \<Rightarrow> (codes \<times> codes) list option \<Rightarrow> codes" where
  "replace_strings t pairs =
     strip_codes blank_or_quote
       (case pairs of
          None \<Rightarrow> t
        | Some ps \<Rightarrow> fold (\<lambda>(old, new) s. replace_ci old new s) ps (strip_codes blank_or_quote t))"

definition hyphen_for :: "nat \<Rightarrow> nat" where
  "hyphen_for c = (if c \<in> {32, 95, 46} then 45 else c)"

definition host_char :: "nat \<Rightarrow> bool" where
  "host_char c \<longleftrightarrow> (97 \<le> c \<and> c \<le> 122) \<or> (65 \<le> c \<and> c \<le> 90) \<or> (48 \<le> c \<and> c \<le> 57) \<or> c = 45"

definition create_valid_hostname :: "codes \<Rightarrow> codes" where
  "create_valid_hostname input_string =
     (if input_string = [] then [] else strip_codes (\<lambda>c. c = 45) (filter host_char (map hyphen_for input_string)))"

section \<open>Rounding\<close>

text \<open>
  A \<open>Decimal\<close>: its coefficient with the sign, and its exponent. \<open>Decimal("10") ** (-digits)\<close> has
  the exponent of a power of ten in 28 digits: a whole power up to \<open>10 ** 27\<close> has exponent 0.
\<close>

record dec_value =
  d_coefficient :: int
  d_exponent :: int

definition power_exponent :: "int \<Rightarrow> int" where
  "power_exponent digits = (if 0 \<le> digits then - digits else if - 27 \<le> digits then 0 else - digits - 27)"

text \<open>\<open>quantize\<close> with \<open>ROUND_HALF_UP\<close>; more than 28 digits in the result raise \<open>InvalidOperation\<close>.\<close>

definition quantize :: "dec_value \<Rightarrow> int \<Rightarrow> dec_value option" where
  "quantize v e =
     (let shift = d_exponent v - e; c = \<bar>d_coefficient v\<bar>;
          n = (if 0 \<le> shift then c * 10 ^ nat shift else (2 * c + 10 ^ nat (- shift)) div (2 * 10 ^ nat (- shift)))
      in if 10 ^ 28 \<le> n then None else Some \<lparr>d_coefficient = (if d_coefficient v < 0 then - n else n), d_exponent = e\<rparr>)"

definition round_decimal :: "dec_value \<Rightarrow> int \<Rightarrow> dec_value option" where
  "round_decimal v digits = quantize v (power_exponent digits)"

section \<open>Defaults for exceptions\<close>

text \<open>
  A function wrapped by \<open>ignore_exception\<close>: with more than one argument the last one is the
  default. Other exceptions go on.
\<close>

definition ignore_exception :: "('e \<Rightarrow> bool) \<Rightarrow> ('v list \<Rightarrow> 'e + 'v) \<Rightarrow> 'v list \<Rightarrow> 'e + 'v option" where
  "ignore_exception ignored f xs =
     (let (new_args, default_value) = (if 1 < length xs then (butlast xs, Some (last xs)) else (xs, None))
      in case f new_args of Inl e \<Rightarrow> if ignored e then Inr default_value else Inl e | Inr v \<Rightarrow> Inr (Some v))"

section \<open>What they give\<close>

lemma dropWhile_hd: "dropWhile p s = [] \<or> \<not> p (hd (dropWhile p s))"
  by (induction s) auto

lemma strip_codes_ends:
  "strip_codes p s = [] \<or> (\<not> p (hd (strip_codes p s)) \<and> \<not> p (last (strip_codes p s)))"
proof (cases "strip_codes p s = []")
  case False
  let ?t = "dropWhile p s"
  have "\<not> p (last (strip_codes p s))" using dropWhile_hd [of p "rev ?t"] False by (auto simp: strip_codes_def last_rev)
  moreover have "hd (strip_codes p s) = hd ?t"
  proof -
    have "rev ?t = takeWhile p (rev ?t) @ dropWhile p (rev ?t)" by simp
    then have "?t = rev (dropWhile p (rev ?t)) @ rev (takeWhile p (rev ?t))" by (metis rev_append rev_rev_ident)
    with False show ?thesis by (metis hd_append2 strip_codes_def)
  qed
  moreover have "\<not> p (hd ?t)" using dropWhile_hd [of p s] False unfolding strip_codes_def by fastforce
  ultimately show ?thesis by simp
qed simp

lemma strip_codes_set: "set (strip_codes p s) \<subseteq> set s"
  by (auto simp: strip_codes_def dest!: set_dropWhileD)

lemma strip_codes_done: "s = [] \<or> (\<not> p (hd s) \<and> \<not> p (last s)) \<Longrightarrow> strip_codes p s = s"
proof (elim disjE conjE)
  assume "\<not> p (hd s)" "\<not> p (last s)"
  moreover from this have "dropWhile p s = s" by (cases s) auto
  moreover have "dropWhile p (rev s) = rev s" using calculation(2) by (cases s rule: rev_cases) auto
  ultimately have "dropWhile p s = s" "dropWhile p (rev s) = rev s" by blast+
  then show ?thesis by (simp add: strip_codes_def)
qed (simp add: strip_codes_def)

text \<open>A host name has letters, digits and hyphens only, no hyphen at its ends, and is its own host name.\<close>

lemma hostname_valid:
  "list_all host_char (create_valid_hostname s)
    \<and> (create_valid_hostname s = [] \<or> (hd (create_valid_hostname s) \<noteq> 45 \<and> last (create_valid_hostname s) \<noteq> 45))
    \<and> create_valid_hostname (create_valid_hostname s) = create_valid_hostname s"
proof -
  let ?h = "create_valid_hostname s"
  have chars: "list_all host_char ?h"
    using strip_codes_set [of "\<lambda>c. c = 45" "filter host_char (map hyphen_for s)"]
    by (auto simp: create_valid_hostname_def list_all_iff)
  have ends: "?h = [] \<or> (hd ?h \<noteq> 45 \<and> last ?h \<noteq> 45)"
    using strip_codes_ends [of "\<lambda>c. c = 45"] unfolding create_valid_hostname_def by auto
  have "hyphen_for c = c" if "host_char c" for c using that by (auto simp: hyphen_for_def host_char_def)
  then have "map hyphen_for ?h = ?h" using chars by (auto simp: list_all_iff intro: map_idI)
  moreover have "filter host_char ?h = ?h" using chars by (simp add: list_all_iff)
  ultimately have "create_valid_hostname ?h = ?h"
    using strip_codes_done [of ?h "\<lambda>c. c = 45"] ends by (simp add: create_valid_hostname_def [of ?h])
  with chars ends show ?thesis by blast
qed

lemma replace_strings_trimmed: "replace_strings t ps = [] \<or> \<not> blank_or_quote (hd (replace_strings t ps)) \<and> \<not> blank_or_quote (last (replace_strings t ps))"
  using strip_codes_ends [of blank_or_quote] unfolding replace_strings_def by blast

lemma replace_ci_self: "old \<noteq> [] \<Longrightarrow> replace_ci old new old = new"
  by (cases old) auto

text \<open>Rounding to places behind the point moves a value by half a place at most; a tie goes away from zero.\<close>

lemma round_decimal_near:
  assumes "round_decimal v (int n) = Some w" "d_exponent v = - int k" "n \<le> k"
  shows "d_exponent w = - int n \<and> \<bar>2 * (d_coefficient w * 10 ^ (k - n) - d_coefficient v)\<bar> \<le> 10 ^ (k - n)"
proof -
  let ?c = "\<bar>d_coefficient v\<bar>" and ?p = "10 ^ (k - n) :: int"
  have p: "0 < ?p" by simp
  define q where "q = (2 * ?c + ?p) div (2 * ?p)"
  have "q * (2 * ?p) + (2 * ?c + ?p) mod (2 * ?p) = 2 * ?c + ?p" unfolding q_def by (rule div_mult_mod_eq)
  moreover have "0 \<le> (2 * ?c + ?p) mod (2 * ?p)" "(2 * ?c + ?p) mod (2 * ?p) < 2 * ?p" by (rule pos_mod_sign pos_mod_bound, simp)+
  ultimately have q: "q * (2 * ?p) \<le> 2 * ?c + ?p" "2 * ?c + ?p < q * (2 * ?p) + 2 * ?p" by linarith+
  have "k = n \<Longrightarrow> q = ?c" unfolding q_def by simp
  then have w: "d_exponent w = - int n" "d_coefficient w = (if d_coefficient v < 0 then - q else q)"
    using assms by (auto simp: round_decimal_def quantize_def power_exponent_def Let_def q_def nat_diff_distrib split: if_splits)
  show ?thesis using w q by (auto simp: algebra_simps abs_if split: if_splits)
qed

text \<open>A negative number of digits down to 27 rounds to a whole number, not to tens or hundreds.\<close>

lemma round_decimal_negative: "- 27 \<le> digits \<Longrightarrow> digits \<le> 0 \<Longrightarrow> round_decimal v digits = round_decimal v 0"
  by (cases "digits = 0") (simp_all add: round_decimal_def power_exponent_def)

lemma ignore_exception_default:
  "f xs = Inl e \<Longrightarrow> ignored e \<Longrightarrow> xs \<noteq> [] \<Longrightarrow> ignore_exception ignored f (xs @ [d]) = Inr (Some d)"
  by (cases xs) (auto simp: ignore_exception_def)

end
