(* ===== verification/Actions.thy ===== *)
theory Actions
  imports Req_Auth Throttle
begin

text \<open>
  The methods of a service and what is wrapped around them: \<open>request_handler/decorators.py\<close>, and the
  dispatcher \<open>RequestHandlerHelper\<close> of \<open>request_handler/handlers.py\<close>. A method is a function on the state
  of its helper object; a decorator maps methods to methods. What was written to the database is kept
  by the connection it went through, as a transaction is one of a connection. The pools, the transactions and the
  caller's identity are what the surroundings answer at each step. Leaving a pool does not fail.
\<close>

section \<open>Helpers and methods\<close>

record bridge =
  br_user :: "user option"
  br_client_ip :: "kerror + string"
  br_user_agent :: "string option"

text \<open>What an exception is: an HTTP answer, any other \<open>Exception\<close>, or a cancellation, which is not an \<open>Exception\<close>.\<close>

datatype fault = Http string int int | Ordinary | Cancelled

record audit_note =
  an_event :: string
  an_user_id :: "int option"
  an_details :: config
  an_ip :: "string option"
  an_user_agent :: "string option"

record 'd helper =
  hp_bridge :: "bridge option"
  hp_db_conn :: "nat option"
  hp_db_cur :: "nat option"
  hp_pg_conn :: "nat option"
  hp_pg_cur :: "nat option"
  hp_db_wrapper :: "(nat \<times> nat) option"
  hp_redis_con :: "nat option"
  hp_data :: "nat \<Rightarrow> 'd"
  hp_lent :: "nat list"
  hp_store :: redis
  hp_log :: "audit_note list"
  hp_step :: nat
  hp_clock :: int
  hp_ran :: nat

type_synonym 'd meth = "cv \<Rightarrow> 'd helper \<Rightarrow> (fault + cv) \<times> 'd helper"

record surroundings =
  en_main :: "nat \<Rightarrow> fault + nat option \<times> nat option"
  en_cache :: "(nat \<Rightarrow> fault + nat option) option"
  en_sqlite :: "nat \<Rightarrow> bool"
  en_begin :: "nat \<Rightarrow> fault option"
  en_commit :: "nat \<Rightarrow> fault option"
  en_answers :: "nat \<Rightarrow> bool"
  en_config :: config
  en_sha256 :: "string \<Rightarrow> string"

definition tick :: "'d helper \<Rightarrow> 'd helper" where
  "tick h = h\<lparr>hp_step := Suc (hp_step h)\<rparr>"

definition helper_user :: "'d helper \<Rightarrow> user option" where
  "helper_user h = (case hp_bridge h of None \<Rightarrow> None | Some b \<Rightarrow> br_user b)"

section \<open>The decorators\<close>

definition authenticated :: "'d meth \<Rightarrow> 'd meth" where
  "authenticated f x h = (if helper_user h = None then (Inl (Http ''Not authorized'' 4010 401), h) else f x h)"

text \<open>The connection a transaction is opened on; only what went through it is rolled back.\<close>

definition attached :: "'d helper \<Rightarrow> nat option" where
  "attached h = (case hp_db_conn h of Some c \<Rightarrow> Some c | None \<Rightarrow> hp_pg_conn h)"

definition roll_back :: "nat \<Rightarrow> 'd helper \<Rightarrow> 'd helper \<Rightarrow> 'd helper" where
  "roll_back c h h1 = h1\<lparr>hp_data := (hp_data h1)(c := hp_data h c)\<rparr>"

definition with_tx :: "surroundings \<Rightarrow> 'd meth \<Rightarrow> 'd meth" where
  "with_tx v f x h =
     (case attached h of
        None \<Rightarrow> (Inl (Http ''Database connection not linked (db_conn missing)'' 5000 400), h)
      | Some c \<Rightarrow>
          (case en_begin v (hp_step h) of
             Some e \<Rightarrow> (Inl e, tick h)
           | None \<Rightarrow>
               (case f x (tick h) of
                  (Inl e, h1) \<Rightarrow> (Inl e, roll_back c h h1)
                | (Inr r, h1) \<Rightarrow>
                    (case en_commit v (hp_step h1) of
                       Some e \<Rightarrow> (Inl e, roll_back c h (tick h1))
                     | None \<Rightarrow> (Inr r, tick h1)))))"

definition attach_db :: "surroundings \<Rightarrow> nat \<Rightarrow> nat \<Rightarrow> 'd helper \<Rightarrow> 'd helper" where
  "attach_db v conn cur h =
     (let h1 = h\<lparr>hp_db_conn := Some conn, hp_db_cur := Some cur\<rparr>;
          h2 = (if en_sqlite v conn then h1 else h1\<lparr>hp_pg_conn := Some conn, hp_pg_cur := Some cur\<rparr>)
      in h2\<lparr>hp_db_wrapper := Some (conn, cur)\<rparr>)"

definition detach_db :: "'d helper \<Rightarrow> 'd helper" where
  "detach_db h = h\<lparr>hp_db_conn := None, hp_db_cur := None, hp_pg_conn := None, hp_pg_cur := None, hp_db_wrapper := None\<rparr>"

definition lend :: "nat option \<Rightarrow> 'd helper \<Rightarrow> 'd helper" where
  "lend c h = (case c of None \<Rightarrow> h | Some n \<Rightarrow> h\<lparr>hp_lent := n # hp_lent h\<rparr>)"

definition give_back :: "nat option \<Rightarrow> 'd helper \<Rightarrow> 'd helper" where
  "give_back c h = (case c of None \<Rightarrow> h | Some n \<Rightarrow> h\<lparr>hp_lent := remove1 n (hp_lent h)\<rparr>)"

text \<open>The block under \<open>async with main_db_pool\<close>, shared by two decorators.\<close>

definition in_main_pool :: "surroundings \<Rightarrow> 'd meth \<Rightarrow> 'd meth" where
  "in_main_pool v f x h =
     (case en_main v (hp_step h) of
        Inl e \<Rightarrow> (Inl e, tick h)
      | Inr (conn, cur) \<Rightarrow>
          (let h1 = lend conn (tick h)
           in case (conn, cur) of
                (Some c, Some u) \<Rightarrow> (case f x (attach_db v c u h1) of (r, h2) \<Rightarrow> (r, give_back conn (detach_db h2)))
              | _ \<Rightarrow> (Inl (Http ''Failed to connect to database server'' 5000 400), give_back conn h1)))"

text \<open>The block under \<open>async with _cache_pool(bh)\<close>.\<close>

definition in_cache_pool :: "surroundings \<Rightarrow> 'd meth \<Rightarrow> 'd meth" where
  "in_cache_pool v f x h =
     (case en_cache v of
        None \<Rightarrow> (Inl (Http ''Cache is not configured'' 5000 400), h)
      | Some pool \<Rightarrow>
          (case pool (hp_step h) of
             Inl e \<Rightarrow> (Inl e, tick h)
           | Inr con \<Rightarrow>
               (let h1 = lend con (tick h)
                in case con of
                     None \<Rightarrow> (Inl (Http ''Failed to connect to cache server'' 5000 400), h1)
                   | Some c \<Rightarrow> (case f x (h1\<lparr>hp_redis_con := Some c\<rparr>) of (r, h2) \<Rightarrow> (r, give_back con (h2\<lparr>hp_redis_con := None\<rparr>))))))"

definition linked :: "'d meth \<Rightarrow> 'd meth" where
  "linked f x h = (if hp_bridge h = None then (Inl (Http ''Bridge handler not linked'' 5000 400), h) else f x h)"

definition with_db :: "surroundings \<Rightarrow> 'd meth \<Rightarrow> 'd meth" where
  "with_db v f = linked (in_main_pool v f)"

definition with_cache :: "surroundings \<Rightarrow> 'd meth \<Rightarrow> 'd meth" where
  "with_cache v f = linked (in_cache_pool v f)"

definition with_cache_and_db :: "surroundings \<Rightarrow> 'd meth \<Rightarrow> 'd meth" where
  "with_cache_and_db v f = linked (in_cache_pool v (in_main_pool v f))"

section \<open>Rate limits\<close>

definition rate_identity :: "'d helper \<Rightarrow> fault + string" where
  "rate_identity h =
     (case hp_bridge h of
        None \<Rightarrow> Inr ''unknown''
      | Some b \<Rightarrow>
          (case br_user b of
             Some u \<Rightarrow> if us_id u \<noteq> 0 then Inr (''user:'' @ str_int (us_id u))
                       else (case br_client_ip b of Inl _ \<Rightarrow> Inl Ordinary | Inr ip \<Rightarrow> Inr (''ip:'' @ ip))
           | None \<Rightarrow> (case br_client_ip b of Inl _ \<Rightarrow> Inl Ordinary | Inr ip \<Rightarrow> Inr (''ip:'' @ ip))))"

definition rate_key :: "string \<Rightarrow> string \<Rightarrow> string \<Rightarrow> string" where
  "rate_key scope act identity = ''rl:'' @ scope @ '':'' @ act @ '':'' @ identity"

definition rate_limit :: "surroundings \<Rightarrow> string \<Rightarrow> string \<Rightarrow> int \<Rightarrow> int \<Rightarrow> 'd meth \<Rightarrow> 'd meth" where
  "rate_limit v scope act max_requests window f x h =
     (if hp_redis_con h = None then (Inl Ordinary, h)
      else case rate_identity h of
             Inl e \<Rightarrow> (Inl e, h)
           | Inr who \<Rightarrow>
               (case from_config (en_sha256 v) (en_config v) of
                  Inl _ \<Rightarrow> (Inl Ordinary, h)
                | Inr (t, text) \<Rightarrow>
                    (case hit t (text \<and> en_answers v (hp_step h)) (rate_key scope act who) max_requests window (hp_clock h) (hp_store h) of
                       (Inl _, s) \<Rightarrow> (Inl Ordinary, (tick h)\<lparr>hp_store := s\<rparr>)
                     | (Inr a, s) \<Rightarrow>
                         (let h1 = (tick h)\<lparr>hp_store := s\<rparr>
                          in if \<not> t_allowed a
                             then (Inl (Http (''Rate limit exceeded. Try again in '' @ str_int (t_retry_after a) @ '' seconds.'') 4029 429), h1)
                             else f x h1))))"

section \<open>Audit notes\<close>

definition sanitize_input :: "cv \<Rightarrow> string list \<Rightarrow> config" where
  "sanitize_input x sensitive = (case x of CDict d \<Rightarrow> map (\<lambda>(k, v). (k, if k \<in> set sensitive then CStr ''***'' else v)) d | _ \<Rightarrow> [])"

text \<open>A sink writes a note and may raise; without one the note goes to the audit logger.\<close>

type_synonym 'd sink = "audit_note \<Rightarrow> 'd helper \<Rightarrow> fault option \<times> 'd helper"

definition make_note :: "string \<Rightarrow> string list \<Rightarrow> cv \<Rightarrow> 'd helper \<Rightarrow> audit_note option" where
  "make_note event sensitive x h =
     (case hp_bridge h of
        None \<Rightarrow> Some \<lparr>an_event = event, an_user_id = None, an_details = sanitize_input x sensitive, an_ip = None, an_user_agent = None\<rparr>
      | Some b \<Rightarrow>
          (case br_client_ip b of
             Inl _ \<Rightarrow> None
           | Inr ip \<Rightarrow> Some \<lparr>an_event = event, an_user_id = map_option us_id (br_user b), an_details = sanitize_input x sensitive,
                         an_ip = Some ip, an_user_agent = br_user_agent b\<rparr>))"

definition audited :: "string option \<Rightarrow> string \<Rightarrow> string list \<Rightarrow> 'd sink option \<Rightarrow> 'd meth \<Rightarrow> 'd meth" where
  "audited event act sensitive sink f x h =
     (case f x h of
        (Inl e, h1) \<Rightarrow> (Inl e, h1)
      | (Inr r, h1) \<Rightarrow>
          if sink \<noteq> None \<and> hp_db_wrapper h1 = None then (Inr r, h1)
          else (case make_note (case event of Some n \<Rightarrow> if n = [] then act else n | None \<Rightarrow> act) sensitive x h1 of
                  None \<Rightarrow> (Inr r, h1)
                | Some note \<Rightarrow>
                    (case sink of
                       None \<Rightarrow> (Inr r, h1\<lparr>hp_log := hp_log h1 @ [note]\<rparr>)
                     | Some s \<Rightarrow> (case s note h1 of (Some Cancelled, h2) \<Rightarrow> (Inl Cancelled, h2) | (_, h2) \<Rightarrow> (Inr r, h2)))))"

section \<open>Classes and dispatch\<close>

text \<open>
  A class is the list of the attribute dictionaries along its method resolution order, its own
  first. \<open>functools.wraps\<close> copies the markers of a function to its wrapper.
\<close>

record 'd attr =
  at_run :: "'d meth"
  at_action :: "string option"
  at_wrapped :: bool
  at_callable :: bool

type_synonym 'd pyclass = "(string, 'd attr) dict list"

definition action :: "string \<Rightarrow> 'd attr \<Rightarrow> 'd attr" where
  "action name a = a\<lparr>at_action := Some name\<rparr>"

definition wrap_attr :: "('d meth \<Rightarrow> 'd meth) \<Rightarrow> 'd attr \<Rightarrow> 'd attr" where
  "wrap_attr d a = a\<lparr>at_run := d (at_run a)\<rparr>"

definition authenticated_attr :: "'d attr \<Rightarrow> 'd attr" where
  "authenticated_attr a = (wrap_attr authenticated a)\<lparr>at_wrapped := True\<rparr>"

fun class_getattr :: "'d pyclass \<Rightarrow> string \<Rightarrow> 'd attr option" where
  "class_getattr [] name = None"
| "class_getattr (d # mro) name = (case map_of d name of Some a \<Rightarrow> Some a | None \<Rightarrow> class_getattr mro name)"

definition class_dir :: "'d pyclass \<Rightarrow> string list" where
  "class_dir cls = sort (remdups (concat (map (map fst) cls)))"

definition set_attr :: "string \<Rightarrow> 'd attr \<Rightarrow> 'd pyclass \<Rightarrow> 'd pyclass" where
  "set_attr name a cls = (case cls of [] \<Rightarrow> [] | d # mro \<Rightarrow> AList.update name a d # mro)"

definition needs_guard :: "'d attr \<Rightarrow> bool" where
  "needs_guard a \<longleftrightarrow> at_action a \<noteq> None \<and> at_callable a \<and> \<not> at_wrapped a"

definition guard_name :: "string \<Rightarrow> 'd pyclass \<Rightarrow> 'd pyclass" where
  "guard_name name cls =
     (case class_getattr cls name of
        None \<Rightarrow> cls
      | Some a \<Rightarrow> if needs_guard a then set_attr name (authenticated_attr a) cls else cls)"

definition guard_actions :: "'d pyclass \<Rightarrow> 'd pyclass" where
  "guard_actions cls = fold guard_name (class_dir cls) cls"

text \<open>
  \<open>require_auth_for_actions\<close> guards the class; the hook it installs guards each subclass when it is
  made, from its own attributes and those of its bases in resolution order. Each class has one base
  here, and none in between has a hook of its own that does not pass on to this one.
\<close>

definition require_auth_for_actions :: "'d pyclass \<Rightarrow> 'd pyclass" where
  "require_auth_for_actions cls = guard_actions cls"

definition init_subclass :: "(string, 'd attr) dict \<Rightarrow> 'd pyclass \<Rightarrow> 'd pyclass" where
  "init_subclass own bases = guard_actions (own # bases)"

definition get_actions :: "'d pyclass \<Rightarrow> (string, 'd attr) dict" where
  "get_actions cls =
     fold (\<lambda>name reg. case class_getattr cls name of
         Some a \<Rightarrow> (case at_action a of Some n \<Rightarrow> AList.update n a reg | None \<Rightarrow> reg)
       | None \<Rightarrow> reg) (class_dir cls) []"

definition call_attr :: "'d attr \<Rightarrow> 'd meth" where
  "call_attr a x h = (if at_callable a then at_run a x h else (Inl Ordinary, h))"

definition handle_request :: "'d pyclass \<Rightarrow> string \<Rightarrow> cv \<Rightarrow> bridge \<Rightarrow> 'd helper \<Rightarrow> (fault + cv) \<times> 'd helper" where
  "handle_request cls act x b h =
     (let h1 = h\<lparr>hp_bridge := Some b\<rparr>; registry = get_actions cls
      in case map_of registry act of
           Some a \<Rightarrow> call_attr a x h1
         | None \<Rightarrow>
             (case map_of registry ''default'' of
                Some a \<Rightarrow> call_attr a x h1
              | None \<Rightarrow> (Inl (Http (''Unknown action `'' @ act @ ''`'') 1234 400), h1)))"

section \<open>What a decorator keeps\<close>

text \<open>
  Three contracts of a method: it gives back every connection it took; it refuses a caller who is
  nobody without touching the data; and when it fails, the data are as before.
\<close>

definition balanced :: "'d meth \<Rightarrow> bool" where
  "balanced f \<longleftrightarrow> (\<forall>x h. hp_lent (snd (f x h)) = hp_lent h)"

definition shielded :: "'d meth \<Rightarrow> bool" where
  "shielded f \<longleftrightarrow> (\<forall>x h. helper_user h = None \<longrightarrow> isl (fst (f x h)) \<and> hp_data (snd (f x h)) = hp_data h)"

definition atomic :: "'d meth \<Rightarrow> bool" where
  "atomic f \<longleftrightarrow> (\<forall>x h. isl (fst (f x h)) \<longrightarrow> hp_data (snd (f x h)) = hp_data h)"

lemmas contracts = balanced_def shielded_def atomic_def

locale decorator =
  fixes d :: "'d meth \<Rightarrow> 'd meth"
  assumes balance: "balanced f \<Longrightarrow> balanced (d f)"
    and shield: "shielded f \<Longrightarrow> shielded (d f)"
begin

lemma contract: "balanced f \<and> shielded f \<Longrightarrow> balanced (d f) \<and> shielded (d f)"
  using balance shield by blast

end

text \<open>A decorator that adds no effect on the data of its own.\<close>

locale quiet_decorator = decorator +
  assumes atom: "atomic f \<Longrightarrow> atomic (d f)"

text \<open>Two decorators, one on top of the other, are a decorator.\<close>

locale decorator_pair = outer: quiet_decorator d + inner: quiet_decorator e
  for d :: "'d meth \<Rightarrow> 'd meth" and e :: "'d meth \<Rightarrow> 'd meth"

sublocale decorator_pair \<subseteq> both: quiet_decorator "\<lambda>f. d (e f)"
  by unfold_locales (simp_all add: outer.balance inner.balance outer.shield inner.shield outer.atom inner.atom)

lemma helper_user_frames [simp]:
  "helper_user (tick h) = helper_user h" "helper_user (lend c h) = helper_user h" "helper_user (give_back c h) = helper_user h"
  "helper_user (attach_db v n m h) = helper_user h" "helper_user (detach_db h) = helper_user h"
  "helper_user (roll_back n h1 h) = helper_user h" "helper_user (h\<lparr>hp_redis_con := r\<rparr>) = helper_user h" "helper_user (h\<lparr>hp_store := s\<rparr>) = helper_user h"
  by (simp_all add: helper_user_def roll_back_def tick_def lend_def give_back_def attach_db_def detach_db_def Let_def split: option.splits)

lemma hp_data_frames [simp]:
  "hp_data (tick h) = hp_data h" "hp_data (lend c h) = hp_data h" "hp_data (give_back c h) = hp_data h"
  "hp_data (attach_db v n m h) = hp_data h" "hp_data (detach_db h) = hp_data h"
  by (simp_all add: tick_def lend_def give_back_def attach_db_def detach_db_def Let_def split: option.splits)

lemma hp_lent_frames [simp]:
  "hp_lent (roll_back c g h) = hp_lent h" "hp_lent (tick h) = hp_lent h" "hp_lent (attach_db v n m h) = hp_lent h" "hp_lent (detach_db h) = hp_lent h"
  "hp_lent (lend (Some n) h) = n # hp_lent h" "hp_lent (give_back (Some n) h) = remove1 n (hp_lent h)"
  "lend None h = h" "give_back None h = h"
  by (simp_all add: roll_back_def tick_def attach_db_def detach_db_def lend_def give_back_def Let_def)

lemma roll_back_data: "hp_data (roll_back c h h1) = (hp_data h1)(c := hp_data h c)" "attached (roll_back c h h1) = attached h1"
  by (simp_all add: roll_back_def attached_def split: option.split)

lemma attached_frames [simp]:
  "attached (tick h) = attached h" "attached (lend c h) = attached h" "attached (give_back c h) = attached h"
  "attached (h\<lparr>hp_redis_con := r\<rparr>) = attached h" "attached (h\<lparr>hp_store := s\<rparr>) = attached h" "attached (h\<lparr>hp_log := n\<rparr>) = attached h"
  by (simp_all add: attached_def tick_def lend_def give_back_def split: option.splits)

lemma shieldedD: "shielded f \<Longrightarrow> f x h = (r, h1) \<Longrightarrow> helper_user h = None \<Longrightarrow> (\<exists>e. r = Inl e) \<and> hp_data h1 = hp_data h"
  unfolding shielded_def by (metis fst_conv isl_def snd_conv)

lemma balancedD: "balanced f \<Longrightarrow> f x h = (r, h1) \<Longrightarrow> hp_lent h1 = hp_lent h"
  unfolding balanced_def by (metis snd_conv)

lemma atomicD: "atomic f \<Longrightarrow> f x h = (Inl e, h1) \<Longrightarrow> hp_data h1 = hp_data h"
  unfolding atomic_def by (metis fst_conv snd_conv isl_def)

interpretation auth: quiet_decorator authenticated
  by unfold_locales (auto simp: contracts authenticated_def)

interpretation linking: quiet_decorator linked
  by unfold_locales (auto simp: contracts linked_def)

interpretation tx: decorator "with_tx v"
proof
  fix f :: "'d meth"
  show "balanced (with_tx v f)" if "balanced f"
    unfolding balanced_def by (auto simp: with_tx_def split: option.splits prod.splits sum.splits dest!: balancedD [OF that])
  show "shielded (with_tx v f)" if "shielded f"
    unfolding shielded_def
    by (auto simp: with_tx_def roll_back_data split: option.splits prod.splits sum.splits dest!: shieldedD [OF that])
qed

interpretation main: quiet_decorator "in_main_pool v"
proof
  fix f :: "'d meth"
  show "balanced (in_main_pool v f)" if "balanced f"
    unfolding balanced_def by (auto simp: in_main_pool_def Let_def split: option.splits prod.splits sum.splits dest!: balancedD [OF that])
  show "shielded (in_main_pool v f)" if "shielded f"
    unfolding shielded_def by (auto simp: in_main_pool_def Let_def split: option.splits prod.splits sum.splits dest!: shieldedD [OF that])
  show "atomic (in_main_pool v f)" if "atomic f"
    unfolding atomic_def isl_def by (auto simp: in_main_pool_def Let_def split: option.splits prod.splits sum.splits dest!: atomicD [OF that])
qed

interpretation cache: quiet_decorator "in_cache_pool v"
proof
  fix f :: "'d meth"
  show "balanced (in_cache_pool v f)" if "balanced f"
    unfolding balanced_def by (auto simp: in_cache_pool_def Let_def split: option.splits prod.splits sum.splits dest!: balancedD [OF that])
  show "shielded (in_cache_pool v f)" if "shielded f"
    unfolding shielded_def by (auto simp: in_cache_pool_def Let_def split: option.splits prod.splits sum.splits dest!: shieldedD [OF that])
  show "atomic (in_cache_pool v f)" if "atomic f"
    unfolding atomic_def isl_def by (auto simp: in_cache_pool_def Let_def split: option.splits prod.splits sum.splits dest!: atomicD [OF that])
qed

interpretation limiting: quiet_decorator "rate_limit v scope act n w"
proof
  fix f :: "'d meth"
  show "balanced (rate_limit v scope act n w f)" if "balanced f"
    using that unfolding balanced_def by (auto simp: rate_limit_def Let_def split: option.splits prod.splits sum.splits)
  show "shielded (rate_limit v scope act n w f)" if "shielded f"
    using that unfolding shielded_def by (auto simp: rate_limit_def Let_def split: option.splits prod.splits sum.splits)
  show "atomic (rate_limit v scope act n w f)" if "atomic f"
    using that unfolding atomic_def by (auto simp: rate_limit_def Let_def split: option.splits prod.splits sum.splits)
qed

text \<open>The two-level decorators, from the pair.\<close>

interpretation db: decorator_pair linked "in_main_pool v" by unfold_locales

interpretation caching: decorator_pair linked "in_cache_pool v" by unfold_locales

interpretation pools: decorator_pair "in_cache_pool v" "in_main_pool v" by unfold_locales

interpretation cache_db: decorator_pair linked "\<lambda>f. in_cache_pool v (in_main_pool v f)"
  by (rule decorator_pair.intro [OF linking.quiet_decorator_axioms pools.both.quiet_decorator_axioms])

definition tidy_sink :: "'d sink option \<Rightarrow> bool" where
  "tidy_sink s \<longleftrightarrow> (\<forall>g. s = Some g \<longrightarrow> (\<forall>note h. hp_lent (snd (g note h)) = hp_lent h))"

lemma tidy_sinkD: "tidy_sink (Some g) \<Longrightarrow> g note h = (r, h1) \<Longrightarrow> hp_lent h1 = hp_lent h"
  unfolding tidy_sink_def by (metis snd_conv)

lemma audited_decorator:
  assumes s: "tidy_sink s"
  shows "decorator (audited event act sensitive s)"
proof
  fix f :: "'a meth"
  show "balanced (audited event act sensitive s f)" if "balanced f"
    unfolding balanced_def
  proof (intro allI)
    fix x h
    obtain r h1 where f: "f x h = (r, h1)" by (rule prod.exhaust)
    have "hp_lent (snd (audited event act sensitive s f x h)) = hp_lent h1"
      using s f by (cases s) (auto simp: audited_def tidy_sink_def split: sum.splits option.splits prod.splits fault.splits; metis snd_conv)+
    then show "hp_lent (snd (audited event act sensitive s f x h)) = hp_lent h" using balancedD [OF that f] by simp
  qed
  show "shielded (audited event act sensitive s f)" if "shielded f"
    unfolding shielded_def by (auto simp: audited_def split: option.splits prod.splits sum.splits fault.splits dest!: shieldedD [OF that])
qed


section \<open>Stacks of decorators\<close>

datatype 'd deco = Authenticated | WithTx | WithDb | WithCache | WithCacheAndDb
  | RateLimit string string int int | Audited "string option" string "string list" "'d sink option"

fun decorate :: "surroundings \<Rightarrow> 'd deco \<Rightarrow> 'd meth \<Rightarrow> 'd meth" where
  "decorate v Authenticated = authenticated"
| "decorate v WithTx = with_tx v"
| "decorate v WithDb = with_db v"
| "decorate v WithCache = with_cache v"
| "decorate v WithCacheAndDb = with_cache_and_db v"
| "decorate v (RateLimit scope act n w) = rate_limit v scope act n w"
| "decorate v (Audited event act sensitive s) = audited event act sensitive s"

definition stack :: "surroundings \<Rightarrow> 'd deco list \<Rightarrow> 'd meth \<Rightarrow> 'd meth" where
  "stack v ds f = foldr (decorate v) ds f"

fun tidy :: "'d deco \<Rightarrow> bool" where
  "tidy (Audited event act sensitive s) = tidy_sink s"
| "tidy d = True"

fun quiet :: "'d deco \<Rightarrow> bool" where
  "quiet (Audited event act sensitive s) = False"
| "quiet WithTx = False"
| "quiet d = True"

text \<open>
  A method that writes only through the connection attached when it is called, and attaches no
  other; a decorator that keeps to the connection at hand.
\<close>

definition scoped :: "'d meth \<Rightarrow> bool" where
  "scoped f \<longleftrightarrow> (\<forall>x h. (\<forall>c. attached h \<noteq> Some c \<longrightarrow> hp_data (snd (f x h)) c = hp_data h c)
     \<and> attached (snd (f x h)) \<in> {attached h, None})"

definition scoped_sink :: "'d sink option \<Rightarrow> bool" where
  "scoped_sink s \<longleftrightarrow> (\<forall>g. s = Some g \<longrightarrow> (\<forall>note h. (\<forall>c. attached h \<noteq> Some c \<longrightarrow> hp_data (snd (g note h)) c = hp_data h c)
     \<and> attached (snd (g note h)) \<in> {attached h, None}))"

fun stays :: "'d deco \<Rightarrow> bool" where
  "stays WithDb = False"
| "stays WithCacheAndDb = False"
| "stays (Audited event act sensitive s) = scoped_sink s"
| "stays d = True"

lemma decorate_decorator: "tidy d \<Longrightarrow> decorator (decorate v d)"
  using auth.decorator_axioms tx.decorator_axioms db.both.decorator_axioms caching.both.decorator_axioms cache_db.both.decorator_axioms limiting.decorator_axioms
  by (cases d) (auto simp: with_db_def [abs_def] with_cache_def [abs_def] with_cache_and_db_def [abs_def] audited_decorator)

lemma decorate_quiet: "quiet d \<Longrightarrow> quiet_decorator (decorate v d)"
  using auth.quiet_decorator_axioms db.both.quiet_decorator_axioms caching.both.quiet_decorator_axioms
    cache_db.both.quiet_decorator_axioms limiting.quiet_decorator_axioms
  by (cases d) (auto simp: with_db_def [abs_def] with_cache_def [abs_def] with_cache_and_db_def [abs_def])

lemma shielded_authenticated: "shielded (authenticated f)"
  by (simp add: shielded_def authenticated_def)

lemma scopedD:
  assumes "scoped f" "f x h = (r, h1)"
  shows "attached h \<noteq> Some c \<Longrightarrow> hp_data h1 c = hp_data h c" "attached h1 = attached h \<or> attached h1 = None"
  using assms unfolding scoped_def by (metis snd_conv, metis insertE singletonD snd_conv)

lemma scopedI:
  "(\<And>x h r h1. f x h = (r, h1) \<Longrightarrow> (\<forall>c. attached h \<noteq> Some c \<longrightarrow> hp_data h1 c = hp_data h c) \<and> (attached h1 = attached h \<or> attached h1 = None))
    \<Longrightarrow> scoped f"
  unfolding scoped_def by (metis insertCI prod.collapse)

lemma scoped_tx:
  assumes "scoped f"
  shows "scoped (with_tx v f)"
proof (rule scopedI)
  fix x h r h1
  assume t: "with_tx v f x h = (r, h1)"
  obtain r0 h0 where f: "f x (tick h) = (r0, h0)" by (rule prod.exhaust)
  have d: "attached h \<noteq> Some c \<Longrightarrow> hp_data h0 c = hp_data h c" "attached h0 = attached h \<or> attached h0 = None" for c
    using scopedD [OF assms f] by simp_all
  show "(\<forall>c. attached h \<noteq> Some c \<longrightarrow> hp_data h1 c = hp_data h c) \<and> (attached h1 = attached h \<or> attached h1 = None)"
    using t d by (auto simp: with_tx_def f roll_back_data split: option.splits sum.splits)
qed

lemma scoped_cache:
  assumes "scoped f"
  shows "scoped (in_cache_pool v f)"
proof (rule scopedI)
  fix x h r h1
  assume t: "in_cache_pool v f x h = (r, h1)"
  show "(\<forall>c. attached h \<noteq> Some c \<longrightarrow> hp_data h1 c = hp_data h c) \<and> (attached h1 = attached h \<or> attached h1 = None)"
  proof (cases "\<exists>pool c. en_cache v = Some pool \<and> pool (hp_step h) = Inr (Some c)")
    case False
    then show ?thesis using t by (auto simp: in_cache_pool_def Let_def split: option.splits sum.splits)
  next
    case True
    then obtain pool c where p: "en_cache v = Some pool" "pool (hp_step h) = Inr (Some c)" by blast
    obtain r0 h0 where f: "f x ((lend (Some c) (tick h))\<lparr>hp_redis_con := Some c\<rparr>) = (r0, h0)" by (rule prod.exhaust)
    have "h1 = give_back (Some c) (h0\<lparr>hp_redis_con := None\<rparr>)" using t p f by (simp add: in_cache_pool_def Let_def)
    then show ?thesis using scopedD [OF assms f] by simp
  qed
qed

lemma scoped_limit:
  assumes "scoped f"
  shows "scoped (rate_limit v scope act n w f)"
proof (rule scopedI)
  fix x h r h1
  assume t: "rate_limit v scope act n w f x h = (r, h1)"
  have d: "\<And>s r h1. f x ((tick h)\<lparr>hp_store := s\<rparr>) = (r, h1) \<Longrightarrow>
      (\<forall>c. attached h \<noteq> Some c \<longrightarrow> hp_data h1 c = hp_data h c) \<and> (attached h1 = attached h \<or> attached h1 = None)"
    using scopedD [OF assms] by fastforce
  show "(\<forall>c. attached h \<noteq> Some c \<longrightarrow> hp_data h1 c = hp_data h c) \<and> (attached h1 = attached h \<or> attached h1 = None)"
    using t by (auto simp: rate_limit_def Let_def split: option.splits sum.splits prod.splits if_splits dest!: d)
qed

lemma scoped_audited:
  assumes "scoped f" "scoped_sink s"
  shows "scoped (audited event act sensitive s f)"
proof (rule scopedI)
  fix x h r h1
  assume t: "audited event act sensitive s f x h = (r, h1)"
  obtain r0 h0 where f: "f x h = (r0, h0)" by (rule prod.exhaust)
  note d = scopedD [OF assms(1) f]
  consider (same) "hp_data h1 = hp_data h0" "attached h1 = attached h0" | (sunk) g msg where "s = Some g" "h1 = snd (g msg h0)"
    using t by (auto simp: audited_def f split: sum.splits option.splits prod.splits fault.splits if_splits) (metis snd_conv)+
  then show "(\<forall>c. attached h \<noteq> Some c \<longrightarrow> hp_data h1 c = hp_data h c) \<and> (attached h1 = attached h \<or> attached h1 = None)"
  proof cases
    case same
    then show ?thesis using d by simp
  next
    case sunk
    then have k: "attached h0 \<noteq> Some c \<Longrightarrow> hp_data h1 c = hp_data h0 c" "attached h1 = attached h0 \<or> attached h1 = None" for c
      using assms(2) unfolding scoped_sink_def by auto
    have "hp_data h1 c = hp_data h c" if "attached h \<noteq> Some c" for c
      using d(1) [OF that] k(1) [of c] d(2) that by auto
    then show ?thesis using k(2) d(2) by auto
  qed
qed

lemma scoped_decorate: "stays d \<Longrightarrow> scoped f \<Longrightarrow> scoped (decorate v d f)"
proof (cases d)
  case Authenticated
  moreover assume "scoped f"
  ultimately show ?thesis by (auto simp: scoped_def authenticated_def)
next
  case WithCache
  moreover assume "scoped f"
  then have "scoped (in_cache_pool v f)" by (rule scoped_cache)
  ultimately show ?thesis by (auto simp: scoped_def with_cache_def linked_def)
qed (simp_all add: scoped_tx scoped_limit scoped_audited)

lemma stack_scoped: "list_all stays ds \<Longrightarrow> scoped f \<Longrightarrow> scoped (stack v ds f)"
  by (induction ds) (simp_all add: stack_def scoped_decorate)

lemma atomic_with_tx:
  assumes "scoped f"
  shows "atomic (with_tx v f)"
  unfolding atomic_def
proof (intro allI impI)
  fix x h
  assume i: "isl (fst (with_tx v f x h))"
  show "hp_data (snd (with_tx v f x h)) = hp_data h"
  proof (cases "attached h")
    case None
    then show ?thesis by (simp add: with_tx_def)
  next
    case (Some c)
    obtain r0 h0 where f: "f x (tick h) = (r0, h0)" by (rule prod.exhaust)
    have d: "b \<noteq> c \<Longrightarrow> hp_data h0 b = hp_data h b" for b using scopedD(1) [OF assms f] Some by simp
    have "(hp_data h0)(c := hp_data h c) = hp_data h" using d by auto
    then show ?thesis using i Some by (auto simp: with_tx_def f roll_back_data split: option.splits sum.splits)
  qed
qed

lemma tx_rolls_back: "with_tx v f x h = (r, h1) \<Longrightarrow> isl r \<Longrightarrow> attached h = Some c \<Longrightarrow> hp_data h1 c = hp_data h c"
  by (auto simp: with_tx_def roll_back_data split: option.splits prod.splits sum.splits)

lemma stack_balanced: "list_all tidy ds \<Longrightarrow> balanced f \<Longrightarrow> balanced (stack v ds f)"
  by (induction ds) (auto simp: stack_def intro: decorator.balance [OF decorate_decorator])

lemma stack_shielded: "list_all tidy ds \<Longrightarrow> Authenticated \<in> set ds \<Longrightarrow> shielded (stack v ds f)"
  by (induction ds) (auto simp: stack_def shielded_authenticated intro: decorator.shield [OF decorate_decorator])

lemma stack_atomic: "list_all quiet ds \<Longrightarrow> atomic f \<Longrightarrow> atomic (stack v ds f)"
  by (induction ds) (auto simp: stack_def intro: quiet_decorator.atom [OF decorate_quiet])

lemma stack_append: "stack v (ds @ es) f = stack v ds (stack v es f)"
  by (simp add: stack_def)


section \<open>Guarded classes\<close>

definition guarded_attr :: "'d attr \<Rightarrow> 'd attr" where
  "guarded_attr a = (if needs_guard a then authenticated_attr a else a)"

lemma guarded_attr_simps [simp]:
  "at_action (guarded_attr a) = at_action a" "at_callable (guarded_attr a) = at_callable a" "guarded_attr (guarded_attr a) = guarded_attr a"
  by (auto simp: guarded_attr_def needs_guard_def authenticated_attr_def wrap_attr_def)

lemma guard_name_getattr:
  "class_getattr (guard_name n cls) m = (if m = n then map_option guarded_attr (class_getattr cls m) else class_getattr cls m)"
  by (cases cls) (auto simp: guard_name_def set_attr_def guarded_attr_def update_conv' split: option.splits)

lemma guard_names_getattr:
  "class_getattr (fold guard_name ns cls) m = (if m \<in> set ns then map_option guarded_attr (class_getattr cls m) else class_getattr cls m)"
  by (induction ns arbitrary: cls) (auto simp: guard_name_getattr option.map_comp o_def)

lemma getattr_in_dir: "class_getattr cls m = Some a \<Longrightarrow> m \<in> set (class_dir cls)"
  by (induction cls) (force simp: class_dir_def split: option.splits dest: map_of_SomeD)+

lemma guard_actions_getattr: "class_getattr (guard_actions cls) m = map_option guarded_attr (class_getattr cls m)"
  using getattr_in_dir [of cls m] by (cases "class_getattr cls m") (auto simp: guard_actions_def guard_names_getattr)

lemma class_dir_set: "class_dir cls = sorted_list_of_set (set (class_dir cls))"
  by (simp add: class_dir_def sorted_list_of_set_sort_remdups [symmetric])

lemma guard_name_dir: "set (class_dir (guard_name n cls)) = set (class_dir cls)"
  using getattr_in_dir [of cls n]
  by (cases cls) (auto simp: guard_name_def set_attr_def class_dir_def dom_update [unfolded dom_map_of_conv_image_fst] split: option.splits)

lemma guard_actions_dir: "class_dir (guard_actions cls) = class_dir cls"
proof -
  have "set (class_dir (fold guard_name ns c)) = set (class_dir c)" for ns and c :: "'a pyclass"
    by (induction ns arbitrary: c) (simp_all add: guard_name_dir)
  then show ?thesis unfolding guard_actions_def by (metis class_dir_set)
qed

lemma update_map_values: "AList.update k (g v) (map (\<lambda>(k, v). (k, g v)) d) = map (\<lambda>(k, v). (k, g v)) (AList.update k v d)"
  by (induction d) auto

lemma registry_guarded:
  assumes "class_dir c = class_dir b" "\<And>m. class_getattr c m = map_option guarded_attr (class_getattr b m)"
  shows "get_actions c = map (\<lambda>(n, a). (n, guarded_attr a)) (get_actions b)"
proof -
  have "fold (\<lambda>name reg. case map_option guarded_attr (class_getattr b name) of
           Some a \<Rightarrow> (case at_action a of Some n \<Rightarrow> AList.update n a reg | None \<Rightarrow> reg) | None \<Rightarrow> reg) ns
         (map (\<lambda>(n, a). (n, guarded_attr a)) reg)
      = map (\<lambda>(n, a). (n, guarded_attr a)) (fold (\<lambda>name reg. case class_getattr b name of
           Some a \<Rightarrow> (case at_action a of Some n \<Rightarrow> AList.update n a reg | None \<Rightarrow> reg) | None \<Rightarrow> reg) ns reg)" for ns reg
    by (induction ns arbitrary: reg) (auto simp: update_map_values split: option.splits)
  from this [of "class_dir b" "[]"] show ?thesis by (simp add: get_actions_def assms)
qed

lemma update_member: "p \<in> set (AList.update k v d) \<Longrightarrow> p = (k, v) \<or> p \<in> set d"
  by (induction d) (auto split: if_splits)

lemma registry_attr: "(n, a) \<in> set (get_actions cls) \<Longrightarrow> at_action a \<noteq> None \<and> (\<exists>m. class_getattr cls m = Some a)"
proof -
  have "(n, a) \<in> set (fold (\<lambda>name reg. case class_getattr cls name of
           Some a \<Rightarrow> (case at_action a of Some n \<Rightarrow> AList.update n a reg | None \<Rightarrow> reg) | None \<Rightarrow> reg) ns reg)
      \<Longrightarrow> (n, a) \<in> set reg \<or> at_action a \<noteq> None \<and> (\<exists>m. class_getattr cls m = Some a)" for ns reg
    by (induction ns arbitrary: reg) (fastforce split: option.splits dest: update_member)+
  then show "(n, a) \<in> set (get_actions cls) \<Longrightarrow> ?thesis" by (fastforce simp: get_actions_def)
qed

text \<open>A class made from a guarded base by any number of subclassings, beside the same classes unguarded.\<close>

definition guarded_class :: "(string, 'd attr) dict list \<Rightarrow> 'd pyclass \<Rightarrow> 'd pyclass" where
  "guarded_class owns base = foldr init_subclass owns (require_auth_for_actions base)"

lemma guarded_class_getattr: "class_getattr (guarded_class owns base) m = map_option guarded_attr (class_getattr (owns @ base) m)"
  by (induction owns)
    (auto simp: guarded_class_def init_subclass_def require_auth_for_actions_def guard_actions_getattr option.map_comp o_def split: option.splits)

lemma guarded_class_dir: "class_dir (guarded_class owns base) = class_dir (owns @ base)"
proof -
  have "set (class_dir (d # c)) = fst ` set d \<union> set (class_dir c)" for d and c :: "'a pyclass" by (auto simp: class_dir_def)
  then have "set (class_dir (guarded_class owns base)) = set (class_dir (owns @ base))"
    by (induction owns) (simp_all add: guarded_class_def init_subclass_def require_auth_for_actions_def guard_actions_dir)
  then show ?thesis by (metis class_dir_set)
qed

definition markers_true :: "'d pyclass \<Rightarrow> bool" where
  "markers_true cls \<longleftrightarrow> (\<forall>n a. class_getattr cls n = Some a \<and> at_wrapped a \<longrightarrow> shielded (at_run a))"

lemma guarded_attr_shielded:
  assumes "at_wrapped a \<longrightarrow> shielded (at_run a)" "at_action a \<noteq> None" "helper_user h = None"
  shows "isl (fst (call_attr (guarded_attr a) x h)) \<and> hp_data (snd (call_attr (guarded_attr a) x h)) = hp_data h"
  using assms shielded_authenticated [of "at_run a"]
  by (auto simp: call_attr_def guarded_attr_def needs_guard_def authenticated_attr_def wrap_attr_def shielded_def)

lemma guarded_attr_transparent:
  "helper_user h \<noteq> None \<Longrightarrow> call_attr (guarded_attr a) x h = call_attr a x h"
  by (auto simp: call_attr_def guarded_attr_def authenticated_attr_def wrap_attr_def authenticated_def)

text \<open>
  C14. Guarding a class guards its descendants. For a class under \<open>require_auth_for_actions\<close> and any
  line of subclasses below it, which may add actions, override guarded ones, or mix in others: whatever
  action is asked for, the default included, a caller without a user gets an error and nothing changes
  the data; and for a caller with a user the dispatch does exactly what the same classes without the
  decorator do. The one thing relied on is that a method marked as guarded is.
\<close>

theorem action_guard:
  assumes "markers_true (owns @ base)"
  shows "(br_user b = None \<longrightarrow> isl (fst (handle_request (guarded_class owns base) act x b h))
      \<and> hp_data (snd (handle_request (guarded_class owns base) act x b h)) = hp_data h)
    \<and> (br_user b \<noteq> None \<longrightarrow> handle_request (guarded_class owns base) act x b h = handle_request (owns @ base) act x b h)"
proof -
  let ?h = "h\<lparr>hp_bridge := Some b\<rparr>"
  have user: "helper_user ?h = br_user b" by (simp add: helper_user_def)
  have look: "map_of (get_actions (guarded_class owns base)) n = map_option guarded_attr (map_of (get_actions (owns @ base)) n)" for n
    unfolding registry_guarded [OF guarded_class_dir guarded_class_getattr] by (simp add: map_of_map)
  have ok: "at_action a \<noteq> None \<and> (at_wrapped a \<longrightarrow> shielded (at_run a))" if "map_of (get_actions (owns @ base)) n = Some a" for n a
    using registry_attr [OF map_of_SomeD [OF that]] assms unfolding markers_true_def by blast
  have "isl (fst (call_attr (guarded_attr a) x ?h)) \<and> hp_data (snd (call_attr (guarded_attr a) x ?h)) = hp_data h"
    if "map_of (get_actions (owns @ base)) n = Some a" "br_user b = None" for n a
    using guarded_attr_shielded [of a ?h x] ok [OF that(1)] user that(2) by simp
  moreover have "call_attr (guarded_attr a) x ?h = call_attr a x ?h" if "br_user b \<noteq> None" for a
    using guarded_attr_transparent [of ?h a x] user that by simp
  ultimately show ?thesis
    unfolding handle_request_def Let_def look
    by (cases "map_of (get_actions (owns @ base)) act"; cases "map_of (get_actions (owns @ base)) ''default''") auto
qed

section \<open>A limited action\<close>

text \<open>Calls of one method at given moments.\<close>

fun calls_at :: "'d meth \<Rightarrow> cv \<Rightarrow> int list \<Rightarrow> 'd helper \<Rightarrow> 'd helper" where
  "calls_at f x [] h = h"
| "calls_at f x (t # ts) h = calls_at f x ts (snd (f x (h\<lparr>hp_clock := t\<rparr>)))"

text \<open>A method that counts its runs and leaves alone what the limiter reads.\<close>

definition counting :: "'d meth \<Rightarrow> bool" where
  "counting f \<longleftrightarrow> (\<forall>x h. (\<lambda>g. hp_ran g = Suc (hp_ran h) \<and> hp_store g = hp_store h \<and> hp_bridge g = hp_bridge h
     \<and> hp_redis_con g = hp_redis_con h) (snd (f x h)))"

lemma rate_limit_step:
  assumes "counting f" "hp_redis_con h \<noteq> None" "rate_identity h = Inr who" "from_config (en_sha256 v) (en_config v) = Inr (t, True)"
    and "\<And>n. en_answers v n" "hit t True (rate_key scope act who) n w (hp_clock h) (hp_store h) = (Inr a, s)"
    and "snd (rate_limit v scope act n w f x h) = g"
  shows "hp_ran g = hp_ran h + (if t_allowed a then 1 else 0) \<and> hp_store g = s \<and> hp_bridge g = hp_bridge h \<and> hp_redis_con g = hp_redis_con h"
  using assms(1) assms(2-) unfolding counting_def
  by (auto simp: rate_limit_def Let_def tick_def)

lemma rate_identity_bridge: "hp_bridge g = hp_bridge h \<Longrightarrow> rate_identity g = rate_identity h"
  by (simp add: rate_identity_def)

lemma limited_calls_attempts:
  assumes "counting f" "from_config (en_sha256 v) (en_config v) = Inr (t, True)" "\<And>n. en_answers v n" "1 \<le> n" "1 \<le> w"
  shows "hp_redis_con h \<noteq> None \<Longrightarrow> rate_identity h = Inr who \<Longrightarrow> key_state (hp_store h) (cache_key t (rate_key scope act who)) k
    \<Longrightarrow> hp_ran (calls_at (rate_limit v scope act n w f) x ts h)
        = hp_ran h + length (filter snd (attempts t (rate_key scope act who) n w ts (hp_store h)))"
proof (induction ts arbitrary: h k)
  case (Cons m ts)
  let ?key = "rate_key scope act who" and ?h = "h\<lparr>hp_clock := m\<rparr>"
  obtain g where g: "snd (rate_limit v scope act n w f x ?h) = g" by blast
  obtain r s where r: "hit t True ?key n w m (hp_store h) = (r, s)" by (rule prod.exhaust)
  obtain k1 where k1: "key_state s (cache_key t ?key) (Some k1)" and a: "\<exists>a. r = Inr a"
    using hit_step [OF assms(4,5), of "hp_store h" t ?key m] key_state_window [OF Cons.prems(3), of m] r
    by (cases k) (auto simp: key_state_def split: if_splits)
  obtain a where a: "r = Inr a" using a by blast
  have step: "hp_ran g = hp_ran h + (if t_allowed a then 1 else 0) \<and> hp_store g = s \<and> hp_bridge g = hp_bridge h \<and> hp_redis_con g = hp_redis_con h"
    using rate_limit_step [OF assms(1) _ _ assms(2,3) _ g, of who a s] Cons.prems r a by (simp add: rate_identity_bridge [of ?h h])
  then show ?case
    using Cons.IH [of g "Some k1"] Cons.prems k1 g r a by (simp add: rate_identity_bridge [of g h])
qed simp

text \<open>
  C28. A limit on an action holds for what matters, the runs of its body: however often one caller asks
  within the window that their first request opens, the body runs for the first \<open>max_requests\<close> of them and
  for none after, where the caller is who the decorator says, the user or else the address.
\<close>

theorem limited_action_runs:
  assumes "counting f" "from_config (en_sha256 v) (en_config v) = Inr (t, True)" "\<And>n. en_answers v n" "1 \<le> n" "1 \<le> w"
    and "hp_redis_con h \<noteq> None" "rate_identity h = Inr who" "hp_store h (cache_key t (rate_key scope act who)) = None"
    and "ts \<noteq> []" "list_all (\<lambda>u. u < hd ts + w) ts"
  shows "int (hp_ran (calls_at (rate_limit v scope act n w f) x ts h)) = int (hp_ran h) + min (int (length ts)) n"
proof -
  have flags: "map snd (fixed_window n w us (Some (c, u))) = map (\<lambda>i. c + int i < n) [0..<length us]" if "list_all (\<lambda>m. m < u) us" for us c u
    using that
  proof (induction us arbitrary: c)
    case (Cons m us)
    have "map (\<lambda>i. c + int i < n) [0..<length (m # us)] = (c < n) # map (\<lambda>i. c + 1 + int i < n) [0..<length us]"
      by (simp add: upt_conv_Cons map_Suc_upt [symmetric] o_def algebra_simps del: upt_Suc)
    then show ?case using Cons.IH [of "c + 1"] Cons.prems by (simp add: Let_def) linarith
  qed simp
  have count: "int (length (filter id (map (\<lambda>i. c + int i < n) [0..<k]))) = max 0 (min (int k) (n - c))" for c k
    by (induction k) auto
  have runs: "hp_ran (calls_at (rate_limit v scope act n w f) x ts h) = hp_ran h + length (filter snd (fixed_window n w ts None))"
    using limited_calls_attempts [OF assms(1-5), of h who scope act None x ts] assms(6-8)
      attempts_fixed_window [OF assms(4,5), of "hp_store h" t "rate_key scope act who" None ts] by (simp add: key_state_def)
  obtain m us where ts: "ts = m # us" using assms(9) by (cases ts) auto
  have snd_filter: "length (filter snd l) = length (filter id (map snd l))" for l :: "(int \<times> bool) list" by (simp add: filter_map o_def)
  have "int (length (filter snd (fixed_window n w us (Some (1, m + w))))) = max 0 (min (int (length us)) (n - 1))"
    using flags [of "m + w" us 1] count [of 1 "length us"] assms(10) by (simp add: snd_filter ts)
  then have "int (length (filter snd (fixed_window n w ts None))) = min (int (length ts)) n"
    using assms(4) by (simp add: ts Let_def)
  then show ?thesis using runs by simp
qed

section \<open>Nested use\<close>

text \<open>
  The attributes are removed by whoever attached them last: a method under \<open>with_db\<close> that calls another
  one of the same object finds itself without a connection afterwards, although its own is still lent.
\<close>

lemma nested_with_db_detaches:
  assumes "hp_bridge h \<noteq> None" "en_main v (hp_step h) = Inr (Some c, Some u)" "with_db v f x h = (r, h1)"
  shows "hp_db_conn h1 = None \<and> hp_db_wrapper h1 = None"
  using assms by (auto simp: with_db_def linked_def in_main_pool_def Let_def detach_db_def give_back_def split: prod.splits option.splits)

section \<open>Examples\<close>

definition demo_bridge :: bridge where
  "demo_bridge = \<lparr>br_user = None, br_client_ip = Inr ''10.0.0.1'', br_user_agent = None\<rparr>"

definition demo_helper :: "nat helper" where
  "demo_helper = \<lparr>hp_bridge = Some demo_bridge, hp_db_conn = None, hp_db_cur = None, hp_pg_conn = None, hp_pg_cur = None,
     hp_db_wrapper = None, hp_redis_con = Some 1, hp_data = (\<lambda>_. 0), hp_lent = [], hp_store = (\<lambda>_. None), hp_log = [], hp_step = 0,
     hp_clock = 0, hp_ran = 0\<rparr>"

definition demo_surroundings :: surroundings where
  "demo_surroundings = \<lparr>en_main = (\<lambda>_. Inr (Some 7, Some 8)), en_cache = None, en_sqlite = (\<lambda>_. False), en_begin = (\<lambda>_. None),
     en_commit = (\<lambda>_. None), en_answers = (\<lambda>_. True), en_config = [], en_sha256 = id\<rparr>"

definition demo_write :: "nat helper \<Rightarrow> nat helper" where
  "demo_write h = (case attached h of None \<Rightarrow> h | Some c \<Rightarrow> h\<lparr>hp_data := (hp_data h)(c := hp_data h c + 1)\<rparr>)"

definition demo_body :: "nat meth" where
  "demo_body x h = (Inr CNone, (demo_write h)\<lparr>hp_ran := hp_ran h + 1\<rparr>)"

definition demo_failing :: "nat meth" where
  "demo_failing x h = (Inl Ordinary, demo_write h)"

definition demo_attr :: "nat attr" where
  "demo_attr = \<lparr>at_run = demo_body, at_action = Some ''save'', at_wrapped = False, at_callable = True\<rparr>"


text \<open>
  Without that: a second connection attached inside the transaction is outside of it, and what the
  failing method writes through it stays.
\<close>

lemma inner_connection_escapes:
  "hp_data (snd (stack (demo_surroundings\<lparr>en_main := (\<lambda>n. Inr (Some (7 + n), Some 8))\<rparr>) [WithDb, WithTx, WithDb] demo_failing CNone demo_helper)) 9 = 1"
  by code_simp

theorem action_guard_witness:
  "isl (fst (handle_request (guarded_class [[]] [[(''save'', demo_attr)]]) ''save'' CNone demo_bridge demo_helper))"
proof -
  have "markers_true ([[]] @ [[(''save'', demo_attr)]])" by (auto simp: markers_true_def demo_attr_def split: if_splits)
  from action_guard [OF this, of demo_bridge] show ?thesis by (simp add: demo_bridge_def)
qed

lemma demo_counts: "counting demo_body"
  by (simp add: counting_def demo_body_def demo_write_def split: option.split)

theorem limited_action_runs_witness:
  "hp_ran (calls_at (rate_limit demo_surroundings ''notes.Notes'' ''save'' 2 60 demo_body) CNone [100, 110, 120] demo_helper) = 2"
proof -
  have c: "from_config (en_sha256 demo_surroundings) (en_config demo_surroundings) = Inr (\<lparr>th_prefix = ''throttle:'', th_fail_open = True, th_sha256 = id\<rparr>, True)"
    by (simp add: from_config_def demo_surroundings_def section_of_def get_or_def cget_def as_dict_def)
  have "int (hp_ran (calls_at (rate_limit demo_surroundings ''notes.Notes'' ''save'' 2 60 demo_body) CNone [100, 110, 120] demo_helper)) = 2"
    using limited_action_runs [OF _ c, of demo_body 2 60 demo_helper "''ip:10.0.0.1''" "''notes.Notes''" "''save''" "[100, 110, 120]" CNone]
      demo_counts
    by (simp add: demo_helper_def demo_surroundings_def rate_identity_def demo_bridge_def)
  then show ?thesis by simp
qed

end
