(* ===== verification/Services.thy ===== *)
theory Services
  imports Config
begin

text \<open>
  How services are found and started: \<open>pybridge.py\<close>, \<open>runner.py\<close> and \<open>bridge/_service.py\<close>. The module
  system is a parameter: what importing a name gives, whether a module of that name is already loaded or
  can be located. Argument parsing, logging and the web server are parameters too.
\<close>

section \<open>Finding modules\<close>

text \<open>
  Importing gives a module, or \<open>ModuleNotFoundError\<close> with the name it carries, or another exception.
  Locating a module may run its parents and so raise as well.
\<close>

datatype 'm imported = Module 'm | NotFound "string option" | ImportRaised

datatype located = Located | NoSpec | SpecNotFound | SpecRaised

record 'm modules =
  mo_import :: "string \<Rightarrow> 'm imported"
  mo_loaded :: "string \<Rightarrow> bool"
  mo_find_spec :: "string \<Rightarrow> located"

datatype lerror = ModuleMissing "string option" | LoadRaised

definition ENTRY_MODULES :: "string list" where
  "ENTRY_MODULES = [''_service'', ''_service_args'', ''_service_pybridge'']"

definition module_exists :: "'m modules \<Rightarrow> string \<Rightarrow> lerror + bool" where
  "module_exists p name =
     (if mo_loaded p name then Inr True
      else case mo_find_spec p name of Located \<Rightarrow> Inr True | NoSpec \<Rightarrow> Inr False | SpecNotFound \<Rightarrow> Inr False | SpecRaised \<Rightarrow> Inl LoadRaised)"

text \<open>\<open>any(...)\<close> stops at the first module that exists.\<close>

fun any_exists :: "'m modules \<Rightarrow> string list \<Rightarrow> lerror + bool" where
  "any_exists p [] = Inr False"
| "any_exists p (n # ns) =
     (case module_exists p n of Inl e \<Rightarrow> Inl e | Inr True \<Rightarrow> Inr True | Inr False \<Rightarrow> any_exists p ns)"

definition dotted_under :: "string \<Rightarrow> string \<Rightarrow> bool" where
  "dotted_under parent name \<longleftrightarrow> take (length parent + 1) name = parent @ ''.''"

definition import_or_none :: "'m modules \<Rightarrow> string \<Rightarrow> lerror + 'm option" where
  "import_or_none p name =
     (case mo_import p name of
        Module x \<Rightarrow> Inr (Some x)
      | NotFound (Some n) \<Rightarrow> if n = name \<or> dotted_under n name then Inr None else Inl (ModuleMissing (Some n))
      | NotFound None \<Rightarrow> Inl (ModuleMissing None)
      | ImportRaised \<Rightarrow> Inl LoadRaised)"

definition project_module :: "string \<Rightarrow> string \<Rightarrow> string" where
  "project_module service module = ''services.'' @ service @ ''.'' @ module"

definition builtin_module :: "string \<Rightarrow> string \<Rightarrow> string" where
  "builtin_module service module = ''py_app_runner.'' @ service @ ''.'' @ module"

text \<open>\<open>_resolve\<close>: the module or \<open>False\<close>, with the names it imported.\<close>

definition resolve_service :: "'m modules \<Rightarrow> string \<Rightarrow> string \<Rightarrow> (lerror + 'm option) \<times> string list" where
  "resolve_service p service module =
     (let own = project_module service module
      in case import_or_none p own of
           Inl e \<Rightarrow> (Inl e, [own])
         | Inr (Some x) \<Rightarrow> (Inr (Some x), [own])
         | Inr None \<Rightarrow>
             (case any_exists p (map (project_module service) ENTRY_MODULES) of
                Inl e \<Rightarrow> (Inl e, [own])
              | Inr True \<Rightarrow> (Inr None, [own])
              | Inr False \<Rightarrow> (import_or_none p (builtin_module service module), [own, builtin_module service module])))"

definition load_service :: "'m modules \<Rightarrow> string \<Rightarrow> lerror + 'm" where
  "load_service p service =
     (case fst (resolve_service p service ''_service'') of
        Inl e \<Rightarrow> Inl e
      | Inr (Some x) \<Rightarrow> Inr x
      | Inr None \<Rightarrow>
          (case mo_import p (''services.'' @ service) of
             Module x \<Rightarrow> Inr x | NotFound n \<Rightarrow> Inl (ModuleMissing n) | ImportRaised \<Rightarrow> Inl LoadRaised))"

definition load_service_args :: "'m modules \<Rightarrow> string \<Rightarrow> lerror + 'm option" where
  "load_service_args p service = fst (resolve_service p service ''_service_args'')"

definition load_service_runner :: "'m modules \<Rightarrow> string \<Rightarrow> lerror + 'm option" where
  "load_service_runner p service = fst (resolve_service p service ''_service'')"

definition load_service_pybridge :: "'m modules \<Rightarrow> string \<Rightarrow> lerror + 'm option" where
  "load_service_pybridge p service = fst (resolve_service p service ''_service_pybridge'')"

text \<open>The services of the bridge, by name.\<close>

type_synonym 'v placeholder = "(string, 'v) dict"

definition cache_service :: "string \<Rightarrow> 'v \<Rightarrow> 'v placeholder \<Rightarrow> 'v placeholder" where
  "cache_service name v d = AList.update name v d"

definition register_alias :: "string \<Rightarrow> 'v \<Rightarrow> 'v placeholder \<Rightarrow> 'v placeholder" where
  "register_alias name v d = AList.update name v d"

definition get_service :: "string \<Rightarrow> 'v placeholder \<Rightarrow> 'v option" where
  "get_service name d = map_of d name"

section \<open>The runner\<close>

text \<open>How a service's coroutine ends.\<close>

datatype ending = Returned | Exits int | Interrupted | Uncaught

record 'm service_api =
  sa_registers :: "'m \<Rightarrow> bool"
  sa_init :: "'m \<Rightarrow> ending option"

record cli =
  cl_service :: "string option"

datatype process_end = ExitCode int | Traceback

fun register_all :: "'m modules \<Rightarrow> string list \<Rightarrow> lerror + unit" where
  "register_all p [] = Inr ()"
| "register_all p (s # ss) = (case load_service_args p s of Inl e \<Rightarrow> Inl e | Inr _ \<Rightarrow> register_all p ss)"

text \<open>
  \<open>main\<close>, from the configuration on. The arguments are parsed after every service has registered its
  own; \<open>parse\<close> is \<open>None\<close> when the parser exits with code 2. In production the Sentry settings are read.
\<close>

definition sentry_settings :: "config \<Rightarrow> bool" where
  "sentry_settings c \<longleftrightarrow> (case cget c ''sentry'' of CDict s \<Rightarrow> map_of s ''dsn'' \<noteq> None | _ \<Rightarrow> False)
     \<and> map_of c ''git_commit_hash'' \<noteq> None \<and> map_of c ''environment'' \<noteq> None"

definition service_names :: "config \<Rightarrow> string list option" where
  "service_names c = (case map_of c ''services'' of
     Some (CList l) \<Rightarrow> (if list_all (\<lambda>v. case v of CStr _ \<Rightarrow> True | _ \<Rightarrow> False) l
        then Some (map (\<lambda>v. case v of CStr s \<Rightarrow> s | _ \<Rightarrow> []) l) else None)
   | _ \<Rightarrow> None)"

definition main :: "bool \<Rightarrow> 'm modules \<Rightarrow> 'm service_api \<Rightarrow> config \<Rightarrow> cli option \<Rightarrow> process_end" where
  "main env_file p api config parsed =
     (if \<not> env_file then Traceback
      else if is_env_prod config \<and> \<not> sentry_settings config then Traceback
      else case service_names config of
             None \<Rightarrow> Traceback
           | Some names \<Rightarrow>
               (case register_all p names of
                  Inl _ \<Rightarrow> Traceback
                | Inr _ \<Rightarrow>
                    (case parsed of
                       None \<Rightarrow> ExitCode 2
                     | Some a \<Rightarrow>
                         (case cl_service a of
                            None \<Rightarrow> ExitCode 0
                          | Some s \<Rightarrow>
                              if s = ''print_config'' then ExitCode 0
                              else (case load_service_runner p s of
                                      Inl _ \<Rightarrow> Traceback
                                    | Inr None \<Rightarrow> ExitCode 0
                                    | Inr (Some x) \<Rightarrow>
                                        (case sa_init api x of
                                           None \<Rightarrow> ExitCode 0
                                         | Some (Exits c) \<Rightarrow> ExitCode c
                                         | Some _ \<Rightarrow> ExitCode 0))))))"

section \<open>The bridge\<close>

record 'v bridge_service =
  bs_handler :: 'v
  bs_service_name :: "string option"
  bs_routes :: "(string, 'v) dict option"

text \<open>Loading the endpoints: a service without one is skipped, one whose module is broken stops the start.\<close>

fun load_endpoints :: "('v bridge_service) modules \<Rightarrow> string list \<Rightarrow> 'v placeholder \<Rightarrow> lerror + 'v placeholder" where
  "load_endpoints p [] d = Inr d"
| "load_endpoints p (s # ss) d =
     (case load_service_pybridge p s of
        Inl e \<Rightarrow> Inl e
      | Inr None \<Rightarrow> load_endpoints p ss d
      | Inr (Some b) \<Rightarrow>
          (let name = (case bs_service_name b of Some n \<Rightarrow> n | None \<Rightarrow> s);
               d1 = cache_service name (bs_handler b) d;
               d2 = fold (\<lambda>(route, v). cache_service route v) (case bs_routes b of Some r \<Rightarrow> r | None \<Rightarrow> []) d1
           in load_endpoints p ss d2))"

record route_def =
  ro_pattern :: string
  ro_websocket :: bool
  ro_name :: string

record routes_module =
  rm_routes :: "route_def list option"
  rm_settings :: "config option"

definition uses_websockets :: "route_def list option \<Rightarrow> bool" where
  "uses_websockets routes = (case routes of None \<Rightarrow> False | Some l \<Rightarrow> list_ex ro_websocket l)"

definition load_routes :: "routes_module modules \<Rightarrow> lerror + route_def list option \<times> config" where
  "load_routes p =
     (case mo_import p ''services.bridge.routes'' of
        Module x \<Rightarrow> Inr (rm_routes x, case rm_settings x of Some s \<Rightarrow> s | None \<Rightarrow> [])
      | NotFound n \<Rightarrow>
          if n \<in> {Some ''services'', Some ''services.bridge'', Some ''services.bridge.routes''} then Inr (None, [])
          else Inl (ModuleMissing n)
      | ImportRaised \<Rightarrow> Inl LoadRaised)"

text \<open>\<open>backend_config_error\<close>: the reason as a text, or an exception while reading the configuration.\<close>

definition backend_config_error :: "registry \<Rightarrow> config \<Rightarrow> bool \<Rightarrow> cerror + string option" where
  "backend_config_error reg config websockets =
     (case (case map_of config ''db'' of Some (CDict dbs) \<Rightarrow> (case map_of dbs ''main'' of Some (CDict d) \<Rightarrow> Inr d | _ \<Rightarrow> Inl KeyError) | _ \<Rightarrow> Inl KeyError) of
        Inl e \<Rightarrow> Inl e
      | Inr d \<Rightarrow>
          (case db_driver d of
             Inl ValueError \<Rightarrow> Inr (Some ''driver'')
           | Inl e \<Rightarrow> Inl e
           | Inr driver \<Rightarrow>
               (case (if websockets then redis_configured config else Inr True) of
                  Inl e \<Rightarrow> Inl e
                | Inr ok \<Rightarrow>
                    if websockets \<and> \<not> ok then Inr (Some ''redis'')
                    else if driver = SQLITE \<and> r_api_key_use_db reg then Inr (Some ''api keys'')
                    else Inr None)))"

text \<open>The settings of the application: the project's override the defaults.\<close>

definition app_settings :: "config \<Rightarrow> config \<Rightarrow> config" where
  "app_settings config given =
     (let base = fold (\<lambda>(k, v). AList.update k v) given [(''autoreload'', CBool False), (''xheaders'', CBool True)];
          setdefault = (\<lambda>k v d. if map_of d k = None then AList.update k v d else d)
      in setdefault ''websocket_ping_timeout'' (CInt 30) (setdefault ''websocket_ping_interval'' (CInt 30)
           (setdefault ''debug'' (CBool (is_env_dev config)) base)))"

definition max_body_size :: "config \<Rightarrow> cv" where
  "max_body_size settings = (let v = cget settings ''max_body_size'' in if truthy v then v else CInt (10 * 1024 * 1024))"

section \<open>A worker process\<close>

datatype step = OpenMain | StartManager | Serve | StopManager | JoinManager | CloseRedis | CloseMain

record worker_state =
  wk_redis :: bool
  wk_main :: bool
  wk_manager :: bool
  wk_linked :: bool
  wk_trace :: "step list"

definition idle_worker :: worker_state where
  "idle_worker = \<lparr>wk_redis = False, wk_main = False, wk_manager = False, wk_linked = False, wk_trace = []\<rparr>"

datatype werror = StepFailed step | ConfigRaised cerror

text \<open>A step of the worker: it is noted, and where it fails its effect does not happen.\<close>

definition do_step :: "(step \<Rightarrow> bool) \<Rightarrow> step \<Rightarrow> (worker_state \<Rightarrow> worker_state) \<Rightarrow> worker_state \<Rightarrow> werror option \<times> worker_state" where
  "do_step fails s effect w =
     (let w1 = w\<lparr>wk_trace := wk_trace w @ [s]\<rparr> in if fails s then (Some (StepFailed s), w1) else (None, effect w1))"

definition and_then :: "werror option \<times> worker_state \<Rightarrow> (worker_state \<Rightarrow> werror option \<times> worker_state) \<Rightarrow> werror option \<times> worker_state" where
  "and_then r k = (case r of (Some e, w) \<Rightarrow> (Some e, w) | (None, w) \<Rightarrow> k w)"

definition worker_cleanup :: "(step \<Rightarrow> bool) \<Rightarrow> worker_state \<Rightarrow> werror option \<times> worker_state" where
  "worker_cleanup fails w =
     and_then
       (if wk_manager w
        then and_then (do_step fails StopManager (\<lambda>w. w\<lparr>wk_manager := False\<rparr>) w) (do_step fails JoinManager id)
        else (None, w))
       (\<lambda>w. and_then (if wk_redis w then do_step fails CloseRedis (\<lambda>w. w\<lparr>wk_redis := False\<rparr>) w else (None, w))
         (\<lambda>w. and_then (do_step fails CloseMain (\<lambda>w. w\<lparr>wk_main := False\<rparr>) w)
           (\<lambda>w. (None, w\<lparr>wk_linked := False\<rparr>))))"

text \<open>\<open>try ... finally\<close>: the cleaning runs whatever the server did; its own failure hides the server's.\<close>

definition serve_then_clean :: "(step \<Rightarrow> bool) \<Rightarrow> worker_state \<Rightarrow> werror option \<times> worker_state" where
  "serve_then_clean fails w =
     (case do_step fails Serve id w of
        (e, w1) \<Rightarrow> (case worker_cleanup fails w1 of (Some e2, w2) \<Rightarrow> (Some e2, w2) | (None, w2) \<Rightarrow> (e, w2)))"

definition child_process_initializer :: "(step \<Rightarrow> bool) \<Rightarrow> config \<Rightarrow> bool \<Rightarrow> worker_state \<Rightarrow> werror option \<times> worker_state" where
  "child_process_initializer fails config websockets w =
     (case redis_configured config of
        Inl e \<Rightarrow> (Some (ConfigRaised e), w)
      | Inr redis \<Rightarrow>
          and_then (do_step fails OpenMain (\<lambda>w. w\<lparr>wk_main := True, wk_linked := True\<rparr>) (w\<lparr>wk_redis := redis\<rparr>))
            (\<lambda>w. and_then (if websockets then do_step fails StartManager (\<lambda>w. w\<lparr>wk_manager := True\<rparr>) w else (None, w))
              (serve_then_clean fails)))"

text \<open>How the service starts: refused, or one worker in this process, or one per core.\<close>

datatype 'v start = Refused | StartRaised | Dev bool "'v placeholder" config | Forked nat bool "'v placeholder" config

definition workers_auto :: "nat option \<Rightarrow> nat option \<Rightarrow> nat" where
  "workers_auto affinity cpus = (case affinity of Some n \<Rightarrow> max 1 n | None \<Rightarrow> max 1 (case cpus of Some n \<Rightarrow> n | None \<Rightarrow> 0))"

definition bridge_init ::
  "('v bridge_service) modules \<Rightarrow> routes_module modules \<Rightarrow> registry \<Rightarrow> nat option \<Rightarrow> nat option \<Rightarrow> config \<Rightarrow> 'v start" where
  "bridge_init p q reg affinity cpus config =
     (case service_names config of
        None \<Rightarrow> StartRaised
      | Some names \<Rightarrow>
          (case load_endpoints p names [] of
             Inl _ \<Rightarrow> StartRaised
           | Inr d \<Rightarrow>
               (case load_routes q of
                  Inl _ \<Rightarrow> StartRaised
                | Inr (routes, given) \<Rightarrow>
                    (let ws = uses_websockets routes; settings = app_settings config given
                     in case backend_config_error reg config ws of
                          Inl _ \<Rightarrow> StartRaised
                        | Inr (Some _) \<Rightarrow> Refused
                        | Inr None \<Rightarrow>
                            if is_env_dev config then Dev ws d settings
                            else (case map_of config ''debug'' of
                                    None \<Rightarrow> StartRaised
                                  | Some g \<Rightarrow> Forked (if truthy g then 1 else workers_auto affinity cpus) ws d settings)))))"

section \<open>Whose module runs\<close>

text \<open>Once the project has any entry module of a service, the built-in of the same name is never imported, not even when the project's own import fails.\<close>

lemma any_exists_located: "m \<in> set ms \<Longrightarrow> module_exists p m = Inr True \<Longrightarrow> any_exists p ms \<noteq> Inr False"
  by (induction ms) (auto split: sum.splits bool.splits)

lemma project_owns_service:
  assumes "e \<in> set ENTRY_MODULES" "module_exists p (project_module service e) = Inr True"
  shows "builtin_module service module \<notin> set (snd (resolve_service p service module))"
proof -
  have "any_exists p (map (project_module service) ENTRY_MODULES) \<noteq> Inr False"
    by (rule any_exists_located [of "project_module service e"]) (use assms in simp_all)
  moreover have "builtin_module service module \<noteq> project_module service module" by (simp add: builtin_module_def project_module_def)
  ultimately show ?thesis by (auto simp: resolve_service_def Let_def split: sum.splits option.splits bool.splits)
qed

text \<open>The exit code of the process is the service's only when the service itself asks for one.\<close>

lemma main_exit_codes: "main env_file p api config parsed = ExitCode c \<Longrightarrow> c \<noteq> 0 \<Longrightarrow> c \<noteq> 2
  \<Longrightarrow> \<exists>a s x. parsed = Some a \<and> cl_service a = Some s \<and> load_service_runner p s = Inr (Some x) \<and> sa_init api x = Some (Exits c)"
  by (auto simp: main_def split: if_splits option.splits sum.splits ending.splits)

section \<open>What a worker leaves behind\<close>

definition started :: "'v start \<Rightarrow> bool \<Rightarrow> bool" where
  "started r ws \<longleftrightarrow> (\<exists>d st. r = Dev ws d st) \<or> (\<exists>n d st. r = Forked n ws d st)"

lemma started_backends:
  "started (bridge_init p q reg affinity cpus config) ws \<Longrightarrow> backend_config_error reg config ws = Inr None"
  by (auto simp: started_def bridge_init_def Let_def split: option.splits sum.splits if_splits)

lemma started_redis: "started (bridge_init p q reg affinity cpus config) True \<Longrightarrow> redis_configured config = Inr True"
  using started_backends [of p q reg affinity cpus config True]
  by (auto simp: backend_config_error_def split: option.splits sum.splits if_splits cv.splits cerror.splits)

text \<open>
  A worker cleans up after itself. When the service starts, an application with WebSocket routes has
  a configured Redis, and then a worker process whose own steps succeed ends with nothing left open,
  however its server ended: the connection manager is stopped before the pools it uses are closed,
  each resource that was opened is closed exactly once, the application no longer refers to them, and
  the failure of the server is what the worker reports.
\<close>

theorem worker_cleans_up:
  assumes "started (bridge_init p q reg affinity cpus config) ws" "redis_configured config = Inr redis"
    and "list_all (\<lambda>s. \<not> fails s) [OpenMain, StartManager, StopManager, JoinManager, CloseRedis, CloseMain]"
  shows "(ws \<longrightarrow> redis)
    \<and> child_process_initializer fails config ws idle_worker =
        (if fails Serve then Some (StepFailed Serve) else None,
         idle_worker\<lparr>wk_trace := [OpenMain] @ (if ws then [StartManager] else []) @ [Serve]
           @ (if ws then [StopManager, JoinManager] else []) @ (if redis then [CloseRedis] else []) @ [CloseMain]\<rparr>)"
  using assms started_redis [of p q reg affinity cpus config]
  by (cases ws; cases redis; cases "fails Serve")
    (simp_all add: child_process_initializer_def serve_then_clean_def worker_cleanup_def do_step_def and_then_def Let_def idle_worker_def)

text \<open>But a manager that fails to stop leaves the pools open.\<close>

lemma failed_stop_leaks:
  assumes "redis_configured config = Inr True" "fails StopManager" "list_all (\<lambda>s. \<not> fails s) [OpenMain, StartManager, Serve]"
  shows "wk_main (snd (child_process_initializer fails config True idle_worker)) \<and> wk_redis (snd (child_process_initializer fails config True idle_worker))"
  using assms by (simp add: child_process_initializer_def serve_then_clean_def worker_cleanup_def do_step_def and_then_def Let_def idle_worker_def)

definition demo_bridge_config :: config where
  "demo_bridge_config = [(''environment'', CStr ''dev''), (''services'', CList [CStr ''bridge'']),
     (''db'', CDict [(''main'', CDict [(''hostname'', CStr ''db'')]), (''redis'', CDict [(''hostname'', CStr ''cache'')])])]"

definition demo_endpoints :: "unit bridge_service modules" where
  "demo_endpoints = \<lparr>mo_import = (\<lambda>n. NotFound (Some n)), mo_loaded = (\<lambda>_. False), mo_find_spec = (\<lambda>_. NoSpec)\<rparr>"

definition demo_routes :: "routes_module modules" where
  "demo_routes = \<lparr>mo_import = (\<lambda>n. Module \<lparr>rm_routes = Some [\<lparr>ro_pattern = ''/ws'', ro_websocket = True, ro_name = ''ws''\<rparr>], rm_settings = None\<rparr>),
     mo_loaded = (\<lambda>_. False), mo_find_spec = (\<lambda>_. Located)\<rparr>"

theorem worker_cleans_up_witness:
  "wk_trace (snd (child_process_initializer (\<lambda>s. s = Serve) demo_bridge_config True idle_worker))
   = [OpenMain, StartManager, Serve, StopManager, JoinManager, CloseRedis, CloseMain]"
proof -
  have "started (bridge_init demo_endpoints demo_routes fresh_registry None None demo_bridge_config) True"
    by (simp add: started_def bridge_init_def service_names_def demo_bridge_config_def load_service_pybridge_def resolve_service_def import_or_none_def
        demo_endpoints_def demo_routes_def load_routes_def uses_websockets_def backend_config_error_def ENTRY_MODULES_def module_exists_def db_driver_def get_or_def cget_def
        redis_configured_def section_of_def as_dict_def is_env_dev_def is_env_def Let_def PGSQL_def SQLITE_def fresh_registry_def)
  moreover have "redis_configured demo_bridge_config = Inr True"
    by (simp add: redis_configured_def section_of_def as_dict_def demo_bridge_config_def get_or_def cget_def)
  ultimately show ?thesis using worker_cleans_up [of demo_endpoints demo_routes fresh_registry None None demo_bridge_config True True "\<lambda>s. s = Serve"] by simp
qed

end
