(* ===== verification/Ticks.thy ===== *)
theory Ticks
  imports Complex_Main Py_Json
begin

text \<open>
  Timers and the tick loop: \<open>timer.py\<close> and \<open>tick_service.py\<close>. Time is counted exactly, in whole units of the
  clock or as a fraction of a second, where the code uses floating point; every read of the clock is a step of its own. Tables and
  log lines are left out, apart from the times in them.
\<close>

section \<open>Timers\<close>

record properties =
  pr_level :: int
  pr_total :: int
  pr_runtimes :: "(int, int) dict"

record timer =
  ti_start_times :: "(string, int) dict"
  ti_total_times :: "(string, properties) dict"
  ti_timers :: "(int \<times> string) list"
  ti_level :: int
  ti_run_index :: int
  ti_clock :: "nat \<Rightarrow> int"
  ti_reads :: nat

definition new_timer :: "(nat \<Rightarrow> int) \<Rightarrow> timer" where
  "new_timer clk = \<lparr>ti_start_times = [], ti_total_times = [], ti_timers = [], ti_level = 0, ti_run_index = 0, ti_clock = clk, ti_reads = 0\<rparr>"

definition perf_counter :: "timer \<Rightarrow> int \<times> timer" where
  "perf_counter t = (ti_clock t (ti_reads t), t\<lparr>ti_reads := Suc (ti_reads t)\<rparr>)"

text \<open>The part of \<open>stop\<close> that books the time; nothing but the clock moves for a name that is not running.\<close>

definition book :: "string \<Rightarrow> timer \<Rightarrow> bool \<times> timer" where
  "book name t =
     (case perf_counter t of (end_time, t1) \<Rightarrow>
        (case map_of (ti_start_times t1) name of
           None \<Rightarrow> (False, t1)
         | Some began \<Rightarrow>
             (let elapsed = end_time - began;
                  p = (case map_of (ti_total_times t1) name of Some p \<Rightarrow> p | None \<Rightarrow> \<lparr>pr_level = ti_level t1, pr_total = 0, pr_runtimes = []\<rparr>);
                  p1 = p\<lparr>pr_total := pr_total p + elapsed, pr_runtimes := AList.update (ti_run_index t1) elapsed (pr_runtimes p)\<rparr>
              in (True, t1\<lparr>ti_total_times := AList.update name p1 (ti_total_times t1)\<rparr>))))"

definition note_start :: "string \<Rightarrow> timer \<Rightarrow> timer" where
  "note_start name t = (case perf_counter t of (now, t1) \<Rightarrow> t1\<lparr>ti_start_times := AList.update name now (ti_start_times t1)\<rparr>)"

definition pauses :: "string \<Rightarrow> timer \<Rightarrow> string option" where
  "pauses name t =
     (if ti_timers t = [] then None
      else case last (ti_timers t) of (level, prev) \<Rightarrow> if prev \<noteq> name \<and> level \<noteq> ti_level t then Some prev else None)"

definition timer_start :: "string \<Rightarrow> timer \<Rightarrow> timer" where
  "timer_start name t =
     (let t1 = (case pauses name t of Some prev \<Rightarrow> snd (book prev t) | None \<Rightarrow> t); t2 = note_start name t1
      in t2\<lparr>ti_timers := ti_timers t2 @ [(ti_level t2, name)]\<rparr>)"

text \<open>\<open>stop\<close>: \<open>None\<close> where \<open>timers.pop()\<close> raises. Continuing the previous timer pauses nothing, since it is the last.\<close>

definition timer_stop :: "string \<Rightarrow> timer \<Rightarrow> timer option" where
  "timer_stop name t =
     (case book name t of
        (False, t1) \<Rightarrow> Some t1
      | (True, t1) \<Rightarrow>
          if ti_timers t1 = [] then None
          else (let t2 = t1\<lparr>ti_timers := butlast (ti_timers t1)\<rparr>
                in Some (case pauses name t2 of Some prev \<Rightarrow> note_start prev t2 | None \<Rightarrow> t2)))"

definition reset_timers :: "timer \<Rightarrow> timer" where
  "reset_timers t = t\<lparr>ti_start_times := [], ti_total_times := []\<rparr>"

definition total_time :: "(string, properties) dict \<Rightarrow> int" where
  "total_time d = sum_list (map (pr_total \<circ> snd) d)"

text \<open>\<open>with timer.enter(name): body\<close>: the timer stops and the level goes back, whatever the body does.\<close>

definition timer_enter :: "string \<Rightarrow> (timer \<Rightarrow> bool \<times> timer) \<Rightarrow> timer \<Rightarrow> bool \<times> timer" where
  "timer_enter name body t =
     (case body (timer_start name (t\<lparr>ti_level := ti_level t + 1\<rparr>)) of
        (raised, t1) \<Rightarrow>
          (case timer_stop name t1 of
             None \<Rightarrow> (True, t1)
           | Some t2 \<Rightarrow> (raised, t2\<lparr>ti_level := ti_level t2 - 1\<rparr>)))"

section \<open>Nested blocks\<close>

text \<open>Code that times parts of itself: blocks with names, inside one another, and exceptions.\<close>

datatype block = Raise | Enter string "block list"

fun run_block :: "block \<Rightarrow> timer \<Rightarrow> bool \<times> timer" and run_blocks :: "block list \<Rightarrow> timer \<Rightarrow> bool \<times> timer" where
  "run_block Raise t = (True, t)"
| "run_block (Enter name bs) t = timer_enter name (run_blocks bs) t"
| "run_blocks [] t = (False, t)"
| "run_blocks (b # bs) t = (case run_block b t of (True, t1) \<Rightarrow> (True, t1) | (False, t1) \<Rightarrow> run_blocks bs t1)"

text \<open>No block is directly inside one of the same name.\<close>

fun apart :: "string option \<Rightarrow> block \<Rightarrow> bool" where
  "apart up Raise = True"
| "apart up (Enter name bs) = (up \<noteq> Some name \<and> list_all (apart (Some name)) bs)"

section \<open>The tick service\<close>

text \<open>
  Callbacks are named and what they do to the service is a parameter, as is which signals arrive during
  the wait after a tick. A callback returns, raises, or is cancelled.
\<close>

datatype cb_end = CbDone | CbRaised | CbCancelled

record 'w tick_service =
  ts_default_interval :: rat
  ts_interval :: rat
  ts_count :: nat
  ts_time :: rat
  ts_callbacks :: "nat list"
  ts_back_off_callback :: "nat option"
  ts_shut_down_callback :: "nat option"
  ts_back_off_mode :: bool
  ts_back_off_count :: nat
  ts_shutdown :: bool
  ts_timer :: timer
  ts_world :: 'w

record 'w tick_env =
  te_callback :: "nat \<Rightarrow> nat \<Rightarrow> rat \<Rightarrow> 'w tick_service \<Rightarrow> cb_end \<times> 'w tick_service"
  te_shut_down :: "nat \<Rightarrow> 'w \<Rightarrow> 'w"
  te_signal :: "nat \<Rightarrow> bool"

definition add_callback :: "nat \<Rightarrow> 'w tick_service \<Rightarrow> 'w tick_service" where
  "add_callback c s = s\<lparr>ts_callbacks := ts_callbacks s @ [c]\<rparr>"

definition set_interval :: "rat \<Rightarrow> 'w tick_service \<Rightarrow> 'w tick_service" where
  "set_interval n s = s\<lparr>ts_interval := n\<rparr>"

definition increase_interval_by :: "rat \<Rightarrow> 'w tick_service \<Rightarrow> 'w tick_service" where
  "increase_interval_by n s = s\<lparr>ts_interval := ts_interval s + n\<rparr>"

definition reset_interval :: "'w tick_service \<Rightarrow> 'w tick_service" where
  "reset_interval s = s\<lparr>ts_interval := ts_default_interval s\<rparr>"

definition set_backoff :: "bool \<Rightarrow> 'w tick_service \<Rightarrow> 'w tick_service" where
  "set_backoff b s = s\<lparr>ts_back_off_mode := b, ts_back_off_count := 0\<rparr>"

text \<open>\<open>shutdown\<close>: the event first, then the callback, whose exceptions are caught; the references go last.\<close>

definition shutdown :: "'w tick_env \<Rightarrow> 'w tick_service \<Rightarrow> 'w tick_service" where
  "shutdown v s =
     (let s1 = s\<lparr>ts_shutdown := True\<rparr>;
          s2 = (case ts_shut_down_callback s1 of None \<Rightarrow> s1 | Some c \<Rightarrow> s1\<lparr>ts_world := te_shut_down v c (ts_world s1)\<rparr>)
      in s2\<lparr>ts_callbacks := [], ts_shut_down_callback := None\<rparr>)"

fun run_callbacks :: "'w tick_env \<Rightarrow> nat list \<Rightarrow> 'w tick_service \<Rightarrow> cb_end \<times> 'w tick_service" where
  "run_callbacks v [] s = (CbDone, s)"
| "run_callbacks v (c # cs) s =
     (case te_callback v c (ts_count s) (ts_time s) s of
        (CbDone, s1) \<Rightarrow> if ts_shutdown s1 then (CbDone, s1) else run_callbacks v cs s1
      | r \<Rightarrow> r)"

definition tick :: "'w tick_env \<Rightarrow> 'w tick_service \<Rightarrow> cb_end \<times> 'w tick_service" where
  "tick v s =
     (let s1 = s\<lparr>ts_count := ts_count s + 1, ts_time := ts_time s + ts_interval s\<rparr>
      in if ts_back_off_mode s1 then
           (let s2 = s1\<lparr>ts_back_off_count := ts_back_off_count s1 + 1\<rparr>
            in case ts_back_off_callback s2 of
                 None \<Rightarrow> (CbDone, s2)
               | Some c \<Rightarrow> te_callback v c (ts_back_off_count s2) (ts_time s2) s2)
         else run_callbacks v (ts_callbacks s1) s1)"

definition loop_wait :: "'w tick_env \<Rightarrow> 'w tick_service \<Rightarrow> 'w tick_service" where
  "loop_wait v s = (if te_signal v (ts_count s) then shutdown v s else s)"

definition timed_tick :: "'w tick_env \<Rightarrow> 'w tick_service \<Rightarrow> cb_end \<times> 'w tick_service" where
  "timed_tick v s =
     (let s1 = s\<lparr>ts_timer := timer_start ''TickService.tick'' ((ts_timer s)\<lparr>ti_level := ti_level (ts_timer s) + 1\<rparr>)\<rparr>
      in case tick v s1 of
           (r, s2) \<Rightarrow>
             (case timer_stop ''TickService.tick'' (ts_timer s2) of
                None \<Rightarrow> (CbRaised, s2)
              | Some t \<Rightarrow> (r, s2\<lparr>ts_timer := t\<lparr>ti_level := ti_level t - 1\<rparr>\<rparr>)))"

text \<open>The loop, with fuel for its rounds; the first component of the result is how it ended.\<close>

fun run_loop :: "nat \<Rightarrow> 'w tick_env \<Rightarrow> 'w tick_service \<Rightarrow> (cb_end \<times> 'w tick_service) option" where
  "run_loop 0 v s = None"
| "run_loop (Suc fuel) v s =
     (if ts_shutdown s then Some (CbDone, s)
      else case timed_tick v s of
             (CbDone, s1) \<Rightarrow>
               (let t = reset_timers (ts_timer s1); s2 = s1\<lparr>ts_timer := t\<lparr>ti_run_index := ti_run_index t + 1\<rparr>\<rparr>
                in run_loop fuel v (if ts_shutdown s2 then s2 else loop_wait v s2))
           | r \<Rightarrow> Some r)"

text \<open>\<open>increase_interval_exp\<close>; \<open>jitter\<close> is what \<open>random.uniform(0.9, 1.1)\<close> gave.\<close>

definition increase_interval_exp :: "rat \<Rightarrow> rat \<Rightarrow> rat \<Rightarrow> 'w tick_service \<Rightarrow> 'w tick_service" where
  "increase_interval_exp jitter factor max_interval s = s\<lparr>ts_interval := min (ts_interval s * factor) max_interval * jitter\<rparr>"

text \<open>\<open>need_to_shutdown\<close>; \<open>Inl\<close> is \<open>ShutdownRequestedException\<close>.\<close>

definition need_to_shutdown :: "bool \<Rightarrow> 'w tick_service \<Rightarrow> unit + bool" where
  "need_to_shutdown with_exception s = (if with_exception \<and> ts_shutdown s then Inl () else Inr (ts_shutdown s))"

text \<open>
  \<open>stop_loop\<close>: whether there is a loop that is not closed. The shutdown is scheduled on it and runs there
  even when it takes longer than the caller waits, or fails; that only changes what the caller logs.
\<close>

definition stop_loop :: "bool \<Rightarrow> 'w tick_env \<Rightarrow> 'w tick_service \<Rightarrow> 'w tick_service" where
  "stop_loop has_loop v s = (if has_loop then shutdown v s else s\<lparr>ts_shutdown := True\<rparr>)"

definition signal_handlers :: "bool \<Rightarrow> string list" where
  "signal_handlers skip_signal_handling = (if skip_signal_handling then [] else [''SIGHUP'', ''SIGTERM'', ''SIGINT'', ''SIGQUIT''])"

definition timer_aenter :: "string \<Rightarrow> (timer \<Rightarrow> bool \<times> timer) \<Rightarrow> timer \<Rightarrow> bool \<times> timer" where
  "timer_aenter name body t =
     (case body (timer_start name (t\<lparr>ti_level := ti_level t + 1\<rparr>)) of
        (raised, t1) \<Rightarrow>
          (case timer_stop name t1 of
             None \<Rightarrow> (True, t1)
           | Some t2 \<Rightarrow> (raised, t2\<lparr>ti_level := ti_level t2 - 1\<rparr>)))"

text \<open>\<open>with timer: body\<close>, which times under the timer's own name and keeps the level.\<close>

definition timer_with :: "string \<Rightarrow> (timer \<Rightarrow> bool \<times> timer) \<Rightarrow> timer \<Rightarrow> bool \<times> timer" where
  "timer_with own_name body t =
     (case body (timer_start own_name t) of
        (raised, t1) \<Rightarrow> (case timer_stop own_name t1 of None \<Rightarrow> (True, t1) | Some t2 \<Rightarrow> (raised, t2)))"

subsection \<open>Times in words\<close>

text \<open>\<open>f"{x:.2f}"\<close> rounds to the nearest hundredth, a tie to the even one.\<close>

definition round_even :: "rat \<Rightarrow> int" where
  "round_even x =
     (let n = floor x; r = x - of_int n
      in if r < 1 / 2 then n else if 1 / 2 < r then n + 1 else if even n then n else n + 1)"

definition show_fixed2 :: "rat \<Rightarrow> codes" where
  "show_fixed2 x =
     (let n = nat (round_even (abs x * 100)); frac = show_nat (n mod 100)
      in (if x < 0 then to_text ''-'' else []) @ show_nat (n div 100) @ to_text ''.'' @ replicate (2 - length frac) 48 @ frac)"

text \<open>The hours, minutes and seconds that \<open>divmod\<close> and \<open>int\<close> give, for times that are not negative.\<close>

definition minutes_seconds :: "rat \<Rightarrow> int \<times> int" where
  "minutes_seconds seconds = (let m = floor (seconds / 60) in (m, floor (seconds - of_int m * 60)))"

definition format_time :: "rat \<Rightarrow> codes" where
  "format_time seconds =
     (if seconds < 60 then show_fixed2 seconds @ to_text ''s''
      else (case minutes_seconds seconds of (m, s) \<Rightarrow>
        if seconds < 3600 then show_int m @ to_text ''m '' @ show_int s @ to_text ''s''
        else show_int (m div 60) @ to_text ''h '' @ show_int (m mod 60) @ to_text ''m '' @ show_int s @ to_text ''s''))"

section \<open>Accounting\<close>

lemma total_time_update:
  "total_time (AList.update k p d) = total_time d - (case map_of d k of Some q \<Rightarrow> pr_total q | None \<Rightarrow> 0) + pr_total p"
  by (induction d) (auto simp: total_time_def split: option.splits)

lemma book_started:
  assumes "map_of (ti_start_times t) name = Some s"
  obtains t1 where "book name t = (True, t1)" "total_time (ti_total_times t1) = total_time (ti_total_times t) + (ti_clock t (ti_reads t) - s)"
    "ti_timers t1 = ti_timers t" "ti_level t1 = ti_level t" "ti_clock t1 = ti_clock t" "ti_reads t1 = Suc (ti_reads t)"
    "ti_start_times t1 = ti_start_times t"
  using assms by (auto simp: book_def perf_counter_def Let_def total_time_update split: option.splits)

lemma note_start_simps [simp]:
  "ti_timers (note_start n t) = ti_timers t" "ti_level (note_start n t) = ti_level t" "ti_clock (note_start n t) = ti_clock t"
  "ti_reads (note_start n t) = Suc (ti_reads t)" "ti_total_times (note_start n t) = ti_total_times t"
  "map_of (ti_start_times (note_start n t)) m = (if m = n then Some (ti_clock t (ti_reads t)) else map_of (ti_start_times t) m)"
  by (simp_all add: note_start_def perf_counter_def update_conv')

text \<open>Inside a block: the block on top of the stack runs since a moment, at the current level.\<close>

definition running :: "timer \<Rightarrow> string \<Rightarrow> int \<Rightarrow> bool" where
  "running t n s \<longleftrightarrow> ti_timers t \<noteq> [] \<and> last (ti_timers t) = (ti_level t, n) \<and> map_of (ti_start_times t) n = Some s"

definition same_frame :: "timer \<Rightarrow> timer \<Rightarrow> bool" where
  "same_frame t u \<longleftrightarrow> ti_timers u = ti_timers t \<and> ti_level u = ti_level t \<and> ti_clock u = ti_clock t \<and> ti_reads t \<le> ti_reads u"

lemma same_frame_refl [simp]: "same_frame t t"
  by (simp add: same_frame_def)

lemma same_frame_trans: "same_frame t u \<Longrightarrow> same_frame u w \<Longrightarrow> same_frame t w"
  by (auto simp: same_frame_def)

text \<open>What a block inside another one does: it books no more than the time by which the outer one's start moves on.\<close>

definition accounts :: "string \<Rightarrow> int \<Rightarrow> timer \<Rightarrow> timer \<Rightarrow> bool" where
  "accounts n s t u \<longleftrightarrow> same_frame t u
     \<and> (\<exists>s1. running u n s1 \<and> total_time (ti_total_times u) - total_time (ti_total_times t) \<le> s1 - s)"

lemma enter_inside:
  assumes m: "mono (ti_clock t)" and run: "running t n s" and ne: "n \<noteq> name"
    and body: "\<And>u s1. mono (ti_clock u) \<Longrightarrow> running u name s1 \<Longrightarrow> accounts name s1 u (snd (body u))"
  shows "accounts n s t (snd (timer_enter name body t))"
proof -
  let ?c = "ti_clock t" and ?k = "ti_reads t" and ?l = "ti_level t + 1" and ?T = "\<lambda>t. total_time (ti_total_times t)"
  obtain b where b: "book n (t\<lparr>ti_level := ?l\<rparr>) = (True, b)" "?T b = ?T t + (?c ?k - s)" "ti_timers b = ti_timers t" "ti_level b = ?l"
    "ti_clock b = ?c" "ti_reads b = Suc ?k" "ti_start_times b = ti_start_times t"
    using book_started [of "t\<lparr>ti_level := ?l\<rparr>" n s] run by (auto simp: running_def)
  have p: "pauses name (t\<lparr>ti_level := ?l\<rparr>) = Some n" using run ne by (simp add: pauses_def running_def)
  define u where "u = timer_start name (t\<lparr>ti_level := ?l\<rparr>)"
  have u: "ti_timers u = ti_timers t @ [(?l, name)]" "ti_level u = ?l" "ti_clock u = ?c" "ti_reads u = Suc (Suc ?k)" "?T u = ?T b"
    "running u name (?c (Suc ?k))"
    using b p by (simp_all add: u_def timer_start_def Let_def running_def)
  obtain raised w where w: "body u = (raised, w)" by (rule prod.exhaust)
  obtain s1 where s1: "same_frame u w" "running w name s1" "?T w - ?T u \<le> s1 - ?c (Suc ?k)"
    using body [of u "?c (Suc ?k)"] u m w by (auto simp: accounts_def)
  obtain x where x: "book name w = (True, x)" "?T x = ?T w + (ti_clock w (ti_reads w) - s1)" "ti_timers x = ti_timers w"
    "ti_level x = ti_level w" "ti_clock x = ti_clock w" "ti_reads x = Suc (ti_reads w)"
    using book_started [of w name s1] s1(2) by (auto simp: running_def)
  have f: "ti_timers w = ti_timers t @ [(?l, name)]" "ti_level w = ?l" "ti_clock w = ?c" "Suc (Suc ?k) \<le> ti_reads w"
    using s1(1) u by (simp_all add: same_frame_def)
  have q: "pauses name (x\<lparr>ti_timers := ti_timers t\<rparr>) = Some n" using run ne f x by (simp add: pauses_def running_def)
  have e: "snd (timer_enter name body t) = (note_start n (x\<lparr>ti_timers := ti_timers t\<rparr>))\<lparr>ti_level := ti_level t\<rparr>"
    using w x f q by (simp add: timer_enter_def u_def [symmetric] timer_stop_def Let_def)
  have "?c ?k \<le> ?c (Suc ?k)" "?c (ti_reads w) \<le> ?c (Suc (ti_reads w))" using m by (simp_all add: monoD)
  then show ?thesis
    unfolding accounts_def e using run f x s1(3) b(2) u(5) by (auto simp: same_frame_def running_def)
qed

lemma accounts_trans: "accounts n s t u \<Longrightarrow> (\<And>s1. running u n s1 \<Longrightarrow> accounts n s1 u w) \<Longrightarrow> accounts n s t w"
proof -
  assume a: "accounts n s t u" and b: "\<And>s1. running u n s1 \<Longrightarrow> accounts n s1 u w"
  obtain s1 where s1: "same_frame t u" "running u n s1" "total_time (ti_total_times u) - total_time (ti_total_times t) \<le> s1 - s"
    using a by (auto simp: accounts_def)
  obtain s2 where s2: "same_frame u w" "running w n s2" "total_time (ti_total_times w) - total_time (ti_total_times u) \<le> s2 - s1"
    using b [OF s1(2)] by (auto simp: accounts_def)
  have "total_time (ti_total_times w) - total_time (ti_total_times t) \<le> s2 - s" using s1(3) s2(3) by linarith
  then show ?thesis using same_frame_trans [OF s1(1) s2(1)] s2(2) by (auto simp: accounts_def)
qed

lemma blocks_inside:
  assumes "\<And>b t s. b \<in> set bs \<Longrightarrow> apart (Some n) b \<Longrightarrow> mono (ti_clock t) \<Longrightarrow> running t n s \<Longrightarrow> accounts n s t (snd (run_block b t))"
  shows "list_all (apart (Some n)) bs \<Longrightarrow> mono (ti_clock t) \<Longrightarrow> running t n s \<Longrightarrow> accounts n s t (snd (run_blocks bs t))"
  using assms
proof (induction bs arbitrary: t s)
  case Nil
  then show ?case by (auto simp: accounts_def)
next
  case (Cons b bs)
  obtain r u where u: "run_block b t = (r, u)" by (rule prod.exhaust)
  have b: "accounts n s t u" using Cons.prems(4) [of b t s] Cons.prems(1-3) u by simp
  have c: "mono (ti_clock u)" using b Cons.prems(2) by (simp add: accounts_def same_frame_def)
  have "accounts n s1 u (snd (run_blocks bs u))" if "running u n s1" for s1
    using Cons.IH [of u s1] Cons.prems(1,4) c that by simp
  then show ?case using u b accounts_trans [OF b] by (cases r) simp_all
qed

lemma block_inside: "apart (Some n) b \<Longrightarrow> mono (ti_clock t) \<Longrightarrow> running t n s \<Longrightarrow> accounts n s t (snd (run_block b t))"
proof (induction b arbitrary: n t s)
  case Raise
  then show ?case by (auto simp: accounts_def)
next
  case (Enter name bs)
  have "accounts name s1 u (snd (run_blocks bs u))" if "mono (ti_clock u)" "running u name s1" for u s1
    using blocks_inside [of bs name u s1] Enter.IH Enter.prems(1) that by simp
  then show ?case using Enter.prems by (simp add: enter_inside)
qed

text \<open>At rest, no timer running.\<close>

definition spends :: "timer \<Rightarrow> timer \<Rightarrow> bool" where
  "spends t u \<longleftrightarrow> same_frame t u
     \<and> (if ti_reads u = ti_reads t then total_time (ti_total_times u) = total_time (ti_total_times t)
        else total_time (ti_total_times u) - total_time (ti_total_times t) \<le> ti_clock t (ti_reads u - 1) - ti_clock t (ti_reads t))"

lemma enter_at_rest:
  assumes m: "mono (ti_clock t)" and rest: "ti_timers t = []" and a: "list_all (apart (Some name)) bs"
  shows "spends t (snd (timer_enter name (run_blocks bs) t))"
proof -
  let ?c = "ti_clock t" and ?k = "ti_reads t" and ?l = "ti_level t + 1" and ?T = "\<lambda>t. total_time (ti_total_times t)"
  define u where "u = timer_start name (t\<lparr>ti_level := ?l\<rparr>)"
  have u: "ti_timers u = [(?l, name)]" "ti_level u = ?l" "ti_clock u = ?c" "ti_reads u = Suc ?k" "?T u = ?T t" "running u name (?c ?k)"
    using rest by (simp_all add: u_def timer_start_def Let_def running_def pauses_def)
  obtain raised w where w: "run_blocks bs u = (raised, w)" by (rule prod.exhaust)
  obtain s1 where s1: "same_frame u w" "running w name s1" "?T w - ?T u \<le> s1 - ?c ?k"
    using blocks_inside [of bs name u "?c ?k"] block_inside a u m w by (auto simp: accounts_def)
  obtain x where x: "book name w = (True, x)" "?T x = ?T w + (ti_clock w (ti_reads w) - s1)" "ti_timers x = ti_timers w"
    "ti_level x = ti_level w" "ti_clock x = ti_clock w" "ti_reads x = Suc (ti_reads w)"
    using book_started [of w name s1] s1(2) by (auto simp: running_def)
  have f: "ti_timers w = [(?l, name)]" "ti_level w = ?l" "ti_clock w = ?c" "Suc ?k \<le> ti_reads w"
    using s1(1) u by (simp_all add: same_frame_def)
  have "snd (timer_enter name (run_blocks bs) t) = (x\<lparr>ti_timers := []\<rparr>)\<lparr>ti_level := ti_level t\<rparr>"
    using w x f by (simp add: timer_enter_def u_def [symmetric] timer_stop_def Let_def pauses_def)
  then show ?thesis using rest f x s1(3) u(5) by (simp add: spends_def same_frame_def)
qed

lemma spends_compose:
  assumes "mono (ti_clock t)" "spends t u" "spends u w"
  shows "spends t w"
proof -
  have f: "same_frame t w" "ti_clock u = ti_clock t" using assms(2,3) by (auto simp: spends_def same_frame_def)
  have "ti_clock t (ti_reads u - 1) \<le> ti_clock t (ti_reads u)" "ti_clock t (ti_reads u - 1) \<le> ti_clock t (ti_reads w - 1) \<or> ti_reads w < ti_reads u"
    using assms(1) by (auto simp: mono_def not_less)
  then show ?thesis using assms(2,3) f by (auto simp: spends_def same_frame_def split: if_splits)
qed

text \<open>
  Timers account for time soundly. From a timer at rest, and however blocks are nested and exceptions
  fly, as long as no block is directly inside one of the same name: afterwards the timer is at rest again at the
  same level, nothing on its stack, and the times booked under all names together are at most what the
  clock moved between its first and its last reading; the time of a block is not also booked to the block around it.
\<close>

theorem timer_accounts:
  assumes "mono (ti_clock t)" "ti_timers t = []" "list_all (apart None) bs" "run_blocks bs t = (raised, u)"
  shows "ti_timers u = [] \<and> ti_level u = ti_level t
    \<and> (if ti_reads u = ti_reads t then total_time (ti_total_times u) = total_time (ti_total_times t)
       else total_time (ti_total_times u) - total_time (ti_total_times t) \<le> ti_clock t (ti_reads u - 1) - ti_clock t (ti_reads t))"
proof -
  have "spends t u"
    using assms
  proof (induction bs arbitrary: t)
    case Nil
    then show ?case by (simp add: spends_def)
  next
    case (Cons b bs)
    obtain r w where w: "run_block b t = (r, w)" by (rule prod.exhaust)
    have one: "spends t w"
    proof (cases b)
      case Raise
      then show ?thesis using w by (auto simp: spends_def)
    next
      case (Enter name cs)
      then show ?thesis using enter_at_rest [of t name cs] Cons.prems(1-3) w by simp
    qed
    show ?case
    proof (cases r)
      case True
      then show ?thesis using one w Cons.prems(4) by simp
    next
      case False
      have "mono (ti_clock w)" "ti_timers w = []" using one Cons.prems(1,2) by (auto simp: spends_def same_frame_def)
      then have "spends w u" using Cons.IH [of w] Cons.prems(3,4) w False by simp
      then show ?thesis by (rule spends_compose [OF Cons.prems(1) one])
    qed
  qed
  then show ?thesis using assms(2) unfolding spends_def same_frame_def by metis
qed

theorem timer_accounts_witness:
  "total_time (ti_total_times (snd (run_blocks [Enter ''a'' [Enter ''b'' [Raise]]] (new_timer int)))) \<le> 5"
proof -
  obtain r u where u: "run_blocks [Enter ''a'' [Enter ''b'' [Raise]]] (new_timer int) = (r, u)" by (rule prod.exhaust)
  have n: "ti_reads u = 6" using u
    by (auto simp: timer_enter_def timer_start_def timer_stop_def pauses_def book_def note_start_def perf_counter_def new_timer_def Let_def)
  have "mono int" by (simp add: mono_def)
  then have "total_time (ti_total_times u) \<le> 5" using timer_accounts [OF _ _ _ u] n by (simp add: new_timer_def total_time_def)
  then show ?thesis by (simp only: u snd_conv)
qed

text \<open>Directly inside one of the same name, the inner block is booked twice: here 20 units in the 10 the clock moved.\<close>

lemma same_name_counts_twice:
  "total_time (ti_total_times (snd (run_blocks [Enter ''a'' [Enter ''a'' []]] (new_timer (\<lambda>n. if n \<le> 1 then 0 else 10))))) = 20"
  by (simp add: timer_enter_def timer_start_def timer_stop_def pauses_def book_def note_start_def perf_counter_def new_timer_def Let_def total_time_def)

text \<open>Resetting inside a block loses it: it stays on the stack for ever.\<close>

lemma reset_inside_leaves_entry:
  "ti_timers (snd (timer_enter ''a'' (\<lambda>t. (False, reset_timers t)) (new_timer clk))) = [(1, ''a'')]"
  by (simp add: timer_enter_def timer_start_def timer_stop_def pauses_def book_def note_start_def perf_counter_def new_timer_def reset_timers_def Let_def)

section \<open>Stopping\<close>

lemma timed_tick_count:
  assumes "\<And>c n x s r s1. te_callback v c n x s = (r, s1) \<Longrightarrow> ts_count s1 = ts_count s" "timed_tick v s = (r, s1)"
  shows "ts_count s1 = Suc (ts_count s)"
proof -
  have cbs: "run_callbacks v cs s = (r, s1) \<Longrightarrow> ts_count s1 = ts_count s" for cs s r s1
    by (induction cs arbitrary: s) (auto split: prod.splits cb_end.splits if_splits dest!: assms(1))
  have "tick v s = (r, s1) \<Longrightarrow> ts_count s1 = Suc (ts_count s)" for s r s1
    by (auto simp: tick_def Let_def split: if_splits option.splits dest!: assms(1) cbs)
  then show ?thesis using assms(2) by (auto simp: timed_tick_def Let_def split: prod.splits option.splits)
qed

text \<open>
  C39. A signal ends the loop. If one arrives at the latest in the wait after the n-th tick, the loop returns,
  with fuel for as many rounds as there are ticks left to do and one more; it never does more than n ticks,
  and unless a callback raised it ends by the request to shut down.
\<close>

theorem signal_stops_loop:
  assumes "\<And>c k x s r s1. te_callback v c k x s = (r, s1) \<Longrightarrow> ts_count s1 = ts_count s"
    and "te_signal v n" "ts_count s < n" "n < ts_count s + fuel"
  shows "\<exists>r s1. run_loop fuel v s = Some (r, s1) \<and> ts_count s1 \<le> n \<and> (r = CbDone \<longrightarrow> ts_shutdown s1)"
  using assms(3,4)
proof (induction fuel arbitrary: s)
  case (Suc fuel)
  show ?case
  proof (cases "ts_shutdown s")
    case True
    then show ?thesis using Suc.prems by simp
  next
    case False
    obtain r s1 where t: "timed_tick v s = (r, s1)" by (rule prod.exhaust)
    have c: "ts_count s1 = Suc (ts_count s)" by (rule timed_tick_count [OF assms(1) t])
    define s2 where "s2 = s1\<lparr>ts_timer := (reset_timers (ts_timer s1))\<lparr>ti_run_index := ti_run_index (reset_timers (ts_timer s1)) + 1\<rparr>\<rparr>"
    define s3 where "s3 = (if ts_shutdown s2 then s2 else loop_wait v s2)"
    have c3: "ts_count s3 = Suc (ts_count s)" using c by (simp add: s3_def s2_def loop_wait_def shutdown_def Let_def split: option.splits)
    have step: "run_loop (Suc fuel) v s = (if r = CbDone then run_loop fuel v s3 else Some (r, s1))"
      using False t by (cases r) (simp_all add: s3_def s2_def Let_def)
    show ?thesis
    proof (cases "Suc (ts_count s) = n")
      case True
      have "ts_shutdown s3" using True assms(2) c by (simp add: s3_def s2_def loop_wait_def shutdown_def Let_def split: option.splits)
      moreover obtain f where "fuel = Suc f" using True Suc.prems by (cases fuel) auto
      ultimately show ?thesis using step c c3 True by (cases "r = CbDone") auto
    next
      case ne: False
      then show ?thesis using Suc.IH [of s3] Suc.prems c c3 step by (cases "r = CbDone") auto
    qed
  qed
qed simp

definition demo_service :: "unit tick_service" where
  "demo_service = \<lparr>ts_default_interval = 5, ts_interval = 5, ts_count = 0, ts_time = 0, ts_callbacks = [0], ts_back_off_callback = None,
     ts_shut_down_callback = None, ts_back_off_mode = False, ts_back_off_count = 0, ts_shutdown = False, ts_timer = new_timer int, ts_world = ()\<rparr>"

definition demo_tick_env :: "unit tick_env" where
  "demo_tick_env = \<lparr>te_callback = (\<lambda>c k x s. (CbDone, s)), te_shut_down = (\<lambda>c w. w), te_signal = (\<lambda>k. k = 3)\<rparr>"

theorem signal_stops_loop_witness:
  "\<exists>r s1. run_loop 4 demo_tick_env demo_service = Some (r, s1) \<and> ts_count s1 \<le> 3 \<and> (r = CbDone \<longrightarrow> ts_shutdown s1)"
  by (rule signal_stops_loop) (simp_all add: demo_tick_env_def demo_service_def)


section \<open>Intervals and times\<close>

text \<open>Growing the interval keeps it within a tenth above the maximum, and may go above the maximum itself.\<close>

lemma increase_interval_exp_bound:
  assumes "0 \<le> jitter" "jitter \<le> 11 / 10" "0 \<le> max_interval"
  shows "ts_interval (increase_interval_exp jitter factor max_interval s) \<le> 11 / 10 * max_interval"
proof -
  have "min (ts_interval s * factor) max_interval * jitter \<le> max_interval * jitter" using assms(1) by (intro mult_right_mono) auto
  also have "\<dots> \<le> max_interval * (11 / 10)" using assms(2,3) by (intro mult_left_mono) auto
  finally show ?thesis by (simp add: increase_interval_exp_def mult.commute)
qed

lemma increase_interval_exp_above:
  "ts_interval s = 300 \<Longrightarrow> ts_interval (increase_interval_exp (11 / 10) (11 / 10) 300 s) = 330"
  by (simp add: increase_interval_exp_def)

lemma stop_loop_stops: "\<exists>s1. run_loop (Suc n) v (stop_loop b v s) = Some (CbDone, s1) \<and> ts_count s1 = ts_count s"
  by (auto simp: stop_loop_def shutdown_def Let_def split: option.splits)

lemma need_to_shutdown_after_stop: "need_to_shutdown e (stop_loop b v s) = (if e then Inl () else Inr True)"
  by (auto simp: need_to_shutdown_def stop_loop_def shutdown_def Let_def split: option.splits)

lemma floor_sub_mult: "floor (x - of_int m * 60) = floor x - m * 60" for x :: rat
proof -
  have "x - of_int m * 60 = x - of_int (m * 60)" by simp
  then show ?thesis by (simp only: floor_diff_of_int)
qed

lemma floor_div_60: "floor (x / 60) = floor x div 60" for x :: rat
proof (rule floor_unique)
  have "floor x div 60 * 60 \<le> floor x" "floor x + 1 \<le> (floor x div 60 + 1) * 60" by simp_all
  then have "(of_int (floor x div 60 * 60) :: rat) \<le> of_int (floor x)" "(of_int (floor x + 1) :: rat) \<le> of_int ((floor x div 60 + 1) * 60)"
    by (simp_all only: of_int_le_iff)
  then show "of_int (floor x div 60) \<le> x / 60" "x / 60 < of_int (floor x div 60) + 1"
    using of_int_floor_le [of x] floor_correct [of x] by (simp_all add: field_simps del: of_int_floor_le)
qed

text \<open>The parts of a time are those of its whole seconds.\<close>

lemma minutes_seconds_parts:
  "minutes_seconds x = (floor x div 60, floor x mod 60)"
  by (simp add: minutes_seconds_def Let_def floor_sub_mult floor_div_60 minus_div_mult_eq_mod)

lemma format_time_reads_back:
  assumes "minutes_seconds x = (m, s)"
  shows "(m div 60) * 3600 + (m mod 60) * 60 + s = floor x \<and> 0 \<le> s \<and> s < 60 \<and> 0 \<le> m mod 60 \<and> m mod 60 < 60"
proof -
  have "m = floor x div 60" "s = floor x mod 60" using assms by (auto simp: minutes_seconds_parts)
  moreover have "(m div 60) * 60 + m mod 60 = m" by simp
  moreover have "m * 60 + s = floor x" using calculation by simp
  ultimately show ?thesis by linarith
qed

lemma timer_aenter_enter: "timer_aenter = timer_enter"
  by (intro ext) (simp add: timer_aenter_def timer_enter_def)

text \<open>\<open>with timer\<close> from rest leaves the timer at rest, with the time between its two readings booked under its name.\<close>

lemma timer_with_at_rest:
  assumes "ti_timers t = []" and "body = (\<lambda>t. (raised, t))"
  shows "\<exists>u. timer_with n body t = (raised, u) \<and> ti_timers u = [] \<and> ti_level u = ti_level t \<and>
    total_time (ti_total_times u) = total_time (ti_total_times t) + (ti_clock t (Suc (ti_reads t)) - ti_clock t (ti_reads t))"
  using assms
  by (simp add: timer_with_def timer_start_def timer_stop_def pauses_def book_def note_start_def perf_counter_def Let_def
      total_time_update update_conv' split: option.splits)

end
