(* ===== verification/Spec2Isabelle.thy ===== *)
theory Spec2Isabelle
  imports Queue_Reports Queue_Redis Ws_Frames Throttle Crypto_Rotate Cron Audit_Cli Log_Handlers Util_Text Actions Services Ticks Responses
begin

text \<open>
  py_app_runner is a framework for Python services: one runner starts services by name, among them
  an HTTP and WebSocket bridge, a job queue, database migrations, a cron scheduler, API keys, field
  encryption and an audit trail. This development models its own code, under
  \<open>src/src/py_app_runner/\<close>, and proves what makes each part correct. Third-party libraries,
  database servers and the operating system are arguments of the definitions that use them, and
  what a theorem needs of them is one of its hypotheses.

  \<^bold>\<open>How the parts interact.\<close> The runner reads the configuration and finds the module of the named
  service. Commands of the queue, the migrations, the keys, the rotation, the scheduler and the
  trail each parse their settings, work on a database and end with an exit code. The bridge loads
  its endpoints and routes and serves requests: a request or socket message is authenticated by a
  token and an API key, limited, dispatched to the action of a service class under its decorators,
  and answered. The connection manager runs beside it on the tick service, reads a Redis stream
  and passes messages on to sockets. Queue workers claim jobs from PostgreSQL or Redis, run their
  handlers and settle the claims.

  \<^bold>\<open>Shared theories.\<close>
  \<^item> \<open>App_Prelude\<close>: dictionaries with Python's order as association lists, results as sums, the
    named collections of simplification rules.
  \<^item> \<open>Py_Text\<close>, \<open>Py_Json\<close>: the standard library's texts, UTF-8, integers, and \<open>json.dumps\<close> and
    \<open>json.loads\<close>, with the round trip between them and that the reader's fuel, twice the length of
    the text, is always enough.

  \<^bold>\<open>Job queue\<close> (\<open>queue/\<close>).
  \<^item> \<open>Queue_Job\<close>: the job, the exceptions, and how a name becomes a handler (\<open>job.py\<close>,
    \<open>handler.py\<close>).
  \<^item> \<open>Queue_Pg\<close>: every statement and transaction of \<open>driver_pg.py\<close> on the two tables.
    \<open>Queue_Session\<close>: the operations as a session calls them, with other sessions' work between
    any two statements. \<open>Queue_Trace\<close>: histories of many sessions as an inductive step relation;
    claims are exclusive, settled once and by their holder, and no job is lost. \<open>Queue_Reports\<close>:
    counts, error texts and the failed table.
  \<^item> \<open>Queue_Worker\<close>: the loop of \<open>worker.py\<close> over any driver. What it needs of a driver is the
    locale \<open>queue_driver\<close>, interpreted for PostgreSQL there and for Redis in \<open>Queue_Redis\<close>; the
    loop takes fuel for its turns, and the attempts left in the queue bound how many it needs.
  \<^item> \<open>Queue_Redis\<close>: the Lua scripts of \<open>driver_redis.py\<close> as steps on a store. Four properties of
    the reserve script come from one induction, the locale \<open>reserve_order\<close>.
  \<^item> \<open>Queue_Cli\<close>: commands and service.

  \<^bold>\<open>Migrations\<close> (\<open>migrations/\<close>).
  \<^item> \<open>Mig_Files\<close>: files, names and states (\<open>discovery.py\<close>, \<open>states.py\<close>). \<open>Mig_Db\<close>: sessions on a
    database with transactions, locks and failing statements, and the trackers; orders between
    states that every action respects are the locales \<open>session_order\<close> and \<open>database_order\<close>.
  \<^item> \<open>Mig_Commands\<close>: the five commands. \<open>Mig_Atomic\<close>: apply refines an account in which a
    migration is one step. \<open>Mig_Again\<close>: commands after one another. \<open>Mig_Service\<close>: targets and exit codes.

  \<^bold>\<open>Requests\<close> (\<open>request_handler/\<close>, \<open>bridge/\<close>, \<open>api_keys/\<close>, \<open>throttle/\<close>).
  \<^item> \<open>Api_Keys\<close>: abilities, key material, the table, commands. \<open>Client_Ip\<close>: whose address a
    request has. \<open>Req_Auth\<close>: tokens and the key check. \<open>Throttle\<close>: the counting script against the
    fixed window it is documented to be.
  \<^item> \<open>Ws_Bridge\<close>: the HTTP handler and the socket handler, with the rechecks of a long-lived
    socket. \<open>Ws_Frames\<close>: the frames a socket sends and the conversion of special values.
  \<^item> \<open>Actions\<close>: the decorators and the dispatcher. A decorator that gives back what it took is an
    instance of the locales \<open>decorator\<close> and \<open>quiet_decorator\<close>; two of them compose by
    \<open>decorator_pair\<close>, and stacks of any height follow.
  \<^item> \<open>Responses\<close>: what is written back, and page limits.

  \<^bold>\<open>Connection manager\<close> (\<open>wbcm/\<close>). \<open>Wbcm_Registry\<close>: the two registries, instances of the locale
  \<open>connection_registry\<close>. \<open>Wbcm_Manager\<close>: delivery, revocation and the position in the stream.

  \<^bold>\<open>Encryption\<close> (\<open>crypto/\<close>). \<open>Crypto_Fields\<close>: fields, envelope and passwords, with Base64 computed and
  the ciphers as parameters. \<open>Crypto_Rotate\<close>: rotation of a column page by page among other
  writers; its fuel is one page more than there are rows, which is shown to be enough.

  \<^bold>\<open>Scheduler\<close> (\<open>cron/\<close>, \<open>file_lock.py\<close>). \<open>Cron\<close>: due jobs, and runs of many schedulers as steps
  between await points. Advisory locks, file locks and the lock within a process satisfy one
  contract, the locale \<open>job_lock\<close>, from which exclusion follows for each.

  \<^bold>\<open>Audit trail\<close> (\<open>audit/\<close>). \<open>Audit_Diff\<close>: when values differ. \<open>Audit_Trail\<close>: events, the store and
  the audited statements. \<open>Audit_Cli\<close>: install, and pruning in batches, a total function since
  every batch that does not end the loop removes a row.

  \<^bold>\<open>Running\<close>. \<open>Config\<close>: \<open>config.py\<close>, \<open>registry.py\<close> and the choice of a database driver.
  \<open>Services\<close>: \<open>pybridge.py\<close>, \<open>runner.py\<close>, \<open>bridge/_service.py\<close>. \<open>Ticks\<close>: \<open>timer.py\<close> and
  \<open>tick_service.py\<close>; the loop's fuel counts its rounds, and one more than the ticks that are left
  before the signal is enough. \<open>Util_Text\<close>: helpers of \<open>utils.py\<close>.

  \<^bold>\<open>Logging\<close>. \<open>Log_Redact\<close>: what \<open>utils.py\<close> and \<open>log_request\<close> write of a request, with
  non-interference of the values under sensitive names. \<open>Log_Handlers\<close>: \<open>logger_handlers.py\<close>, its
  scrubber on a store of shared objects, where the fuel is the nesting of the calls and the depth
  of the contents is enough, and its rate control with the text similarity of \<open>difflib\<close>.

  \<^bold>\<open>What the properties show.\<close>
  \<^item> Exclusion and conservation: C1, C2, C5 to C8 for jobs, claims and scheduled runs, C37 for
    registered sockets, C36 for messages.
  \<^item> Who may do what: C4, C14, C18 to C20, C11 for keys, tokens and open sockets, C32 for handler
    names, C34 for addresses, C12 and C28 for limits.
  \<^item> What is written, and what is not: C3, C30, C31, C38 for migrations, C10 and C24 for rotation, C13,
    C26, C27 for the trail, C15, C16, C29 for logs.
  \<^item> Round trips: C9 and C33. Ends of loops: C17, C24, C27, C39. Refinements: C3, C16, C21. Shapes:
    C40. Configuration: C35. Claims and connections given back: C22, C25. Schedules: C23.

  \<^bold>\<open>Bounds.\<close> Integers of Python are unbounded and are \<open>int\<close> here. The bounds of PostgreSQL columns,
  of \<open>datetime\<close>, of Redis and of page and text limits are written out where values meet them.
  Times are whole microseconds, or fractions in the tick service, where the code uses floats.

  \<^bold>\<open>Not modelled.\<close> The declarations of command lines for \<open>argparse\<close> (\<open>_service_args.py\<close>) and the
  package exports have no logic. Rendering of templates, printed tables and the wording of most
  output lines are left out, as are the sockets, forking and signal wiring of the bridge server,
  the opening of pooled connections, and \<open>InitSentry\<close>, which hands options to its client. JSON
  encoding with \<open>msgspec\<close>, MessagePack, JWT, bcrypt, the ciphers, cron expressions, time zones and
  IP address texts are libraries, and parameters.
\<close>

end
